(* ===== verification/Mesh_Prelude.thy ===== *)
theory Mesh_Prelude
  imports Main "HOL-Library.Word" "HOL-Library.Sublist"
begin

text \<open>
  Shared vocabulary of the development: the names of the model's types, the collections of
  simplification rules the component proofs use, and generic lemmas on lists, options and words.

  \<^item> A JavaScript byte (an element of a \<^verbatim>\<open>Uint8Array\<close>) is an \<open>8 word\<close>; the 32-bit operators of
    JavaScript (\<^verbatim>\<open>^\<close>, \<^verbatim>\<open>&\<close>, \<^verbatim>\<open>|\<close>, \<^verbatim>\<open>>>>\<close>, \<^verbatim>\<open>Math.imul\<close>) work on \<open>32 word\<close>.
  \<^item> Times are integers: \<^verbatim>\<open>Date.now()\<close> is a whole number of milliseconds, and the differences
    and sums the code forms stay far below \<open>2 ^ 53\<close>, so they are exact.
  \<^item> A string is a \<open>char list\<close>; a \<open>char\<close> is a code unit below 256, so the model covers the
    JavaScript strings made of such units.
\<close>

unbundle bit_operations_syntax

type_synonym byte = "8 word"
type_synonym bytes = "8 word list"
type_synonym millis = int

named_theorems codec_simps \<open>unfolding rules of the binary codecs\<close>
named_theorems step_simps \<open>unfolding rules of the operations of the state machines\<close>

subsection \<open>Lists\<close>

lemma filter_le_length_less:
  "x \<in> set xs \<Longrightarrow> \<not> P x \<Longrightarrow> length (filter P xs) < length xs"
  by (induction xs) (auto simp: less_Suc_eq_le)

lemma length_filter_mono:
  "(\<And>x. x \<in> set xs \<Longrightarrow> P x \<Longrightarrow> Q x) \<Longrightarrow> length (filter P xs) \<le> length (filter Q xs)"
  by (induction xs) (auto simp: le_Suc_eq)

lemma dropWhile_filter_sorted:
  fixes xs :: "'a::linorder list"
  assumes "sorted xs"
  shows "dropWhile (\<lambda>x. x < c) xs = filter (\<lambda>x. c \<le> x) xs"
  using assms
proof (induction xs)
  case (Cons x xs)
  show ?case
  proof (cases "x < c")
    case True
    with Cons show ?thesis by simp
  next
    case False
    with Cons.prems have "\<forall>y \<in> set (x # xs). c \<le> y" by auto
    then have "filter (\<lambda>x. c \<le> x) (x # xs) = x # xs" by (simp add: filter_id_conv)
    with False show ?thesis by simp
  qed
qed simp

lemma take_append_eq [simp]: "length xs = n \<Longrightarrow> take n (xs @ ys) = xs"
  by simp

lemma drop_append_eq [simp]: "length xs = n \<Longrightarrow> drop n (xs @ ys) = ys"
  by simp

lemma list_eq_4: "length xs = 4 \<Longrightarrow> xs = [xs ! 0, xs ! 1, xs ! 2, xs ! 3]"
  by (auto simp: numeral_eq_Suc length_Suc_conv)

subsection \<open>Words\<close>

lemma unat_byte_less [simp]: "unat (b :: byte) < 256"
  by (rule order_less_le_trans [OF unsigned_less]) simp

lemma unat_byte_le: "unat (b :: byte) \<le> 255"
  using unat_byte_less [of b] by linarith

lemma unat_and_mask: "unat ((b :: 'a::len word) AND mask n) = unat b mod 2 ^ n"
  by (metis take_bit_eq_mask take_bit_eq_mod unsigned_take_bit_eq)

lemma unat_shiftr: "unat (drop_bit n (b :: 'a::len word)) = unat b div 2 ^ n"
  by (metis drop_bit_eq_div unat_drop_bit_eq)

lemma xor_cancel [simp]:
  fixes a b c :: "'a::len word"
  shows "a XOR c = b XOR c \<longleftrightarrow> a = b" and "c XOR a = c XOR b \<longleftrightarrow> a = b"
proof -
  have r: "(x XOR c) XOR c = x" for x by (simp only: xor.assoc xor_self_eq xor.right_neutral)
  show *: "a XOR c = b XOR c \<longleftrightarrow> a = b"
  proof
    assume "a XOR c = b XOR c"
    then have "(a XOR c) XOR c = (b XOR c) XOR c" by (simp only:)
    then show "a = b" by (simp only: r)
  qed simp
  show "c XOR a = c XOR b \<longleftrightarrow> a = b" unfolding xor.commute [of c] by (rule *)
qed

subsection \<open>Reading arrays\<close>

text \<open>\<^verbatim>\<open>xs.at(i)\<close> for a non-negative index: \<open>None\<close> is \<^verbatim>\<open>undefined\<close>.\<close>

definition at_opt :: "'a list \<Rightarrow> nat \<Rightarrow> 'a option" where
  "at_opt xs i = (if i < length xs then Some (xs ! i) else None)"

lemma at_opt_Cons_0 [simp]: "at_opt (x # xs) 0 = Some x"
  by (simp add: at_opt_def)

lemma at_opt_Some [simp]: "i < length xs \<Longrightarrow> at_opt xs i = Some (xs ! i)"
  by (simp add: at_opt_def)

lemma at_opt_None [simp]: "length xs \<le> i \<Longrightarrow> at_opt xs i = None"
  by (simp add: at_opt_def)

text \<open>\<^verbatim>\<open>xs.subarray(a, b)\<close> for \<open>a \<le> b\<close>: both ends are clamped to the length.\<close>

definition subarray :: "'a list \<Rightarrow> nat \<Rightarrow> nat \<Rightarrow> 'a list" where
  "subarray xs a b = take (b - a) (drop a xs)"

lemma length_subarray [simp]: "length (subarray xs a b) = min (b - a) (length xs - a)"
  by (simp add: subarray_def)

lemma subarray_append_drop: "a \<le> b \<Longrightarrow> subarray xs a b @ drop b xs = drop a xs"
  unfolding subarray_def by (metis append_take_drop_id drop_drop le_add_diff_inverse2)

text \<open>Little-endian reads of a \<^verbatim>\<open>DataView\<close>; out of range they raise, here \<open>None\<close>.\<close>

definition u16_le :: "bytes \<Rightarrow> nat \<Rightarrow> nat option" where
  "u16_le bs i = (if i + 2 \<le> length bs then Some (unat (bs ! i) + 256 * unat (bs ! (i + 1))) else None)"

definition u32_le :: "bytes \<Rightarrow> nat \<Rightarrow> nat option" where
  "u32_le bs i = (if i + 4 \<le> length bs
     then Some (unat (bs ! i) + 256 * unat (bs ! (i + 1)) + 65536 * unat (bs ! (i + 2))
       + 16777216 * unat (bs ! (i + 3)))
     else None)"

lemma u32_le_Cons4: "u32_le (a # b # c # d # bs) 0
    = Some (unat a + 256 * unat b + 65536 * unat c + 16777216 * unat d)"
  by (simp add: u32_le_def)

lemma at_opt_4: "at_opt (a # b # c # d # e # bs) 4 = Some e"
  by (simp add: at_opt_def)

text \<open>Two's complement reading of an unsigned value of \<open>w\<close> bits (\<^verbatim>\<open>getInt8\<close>, \<^verbatim>\<open>getInt32\<close>).\<close>

definition to_signed :: "nat \<Rightarrow> nat \<Rightarrow> int" where
  "to_signed w n = (if 2 * n < 2 ^ w then int n else int n - 2 ^ w)"

lemma u16_le_bound: "u16_le bs i = Some n \<Longrightarrow> n < 65536"
  using unat_byte_le [of "bs ! i"] unat_byte_le [of "bs ! (i + 1)"]
  by (auto simp: u16_le_def split: if_splits)

lemma u32_le_bound: "u32_le bs i = Some n \<Longrightarrow> n < 4294967296"
  using unat_byte_le [of "bs ! i"] unat_byte_le [of "bs ! (i + 1)"]
    unat_byte_le [of "bs ! (i + 2)"] unat_byte_le [of "bs ! (i + 3)"]
  by (auto simp: u32_le_def split: if_splits)

subsection \<open>The scan for the best entry\<close>

text \<open>
  Several loops of the program keep the best of the entries seen so far, replacing it only by a
  strictly better one (\<^verbatim>\<open>if (best === null || score > bestScore) best = entry\<close>).
\<close>

fun best_scan :: "('a \<Rightarrow> bool) \<Rightarrow> ('a \<Rightarrow> 'b::linorder) \<Rightarrow> 'a list \<Rightarrow> 'a option \<Rightarrow> 'a option" where
  "best_scan P f [] best = best"
| "best_scan P f (x # xs) best =
     (if P x then
        (case best of
           None \<Rightarrow> best_scan P f xs (Some x)
         | Some b \<Rightarrow> if f b < f x then best_scan P f xs (Some x) else best_scan P f xs best)
      else best_scan P f xs best)"

lemma best_scan_Some_acc:
  "\<exists>y. best_scan P f xs (Some b) = Some y \<and> f b \<le> f y
     \<and> (y = b \<or> y \<in> set xs \<and> P y) \<and> (\<forall>x \<in> set xs. P x \<longrightarrow> f x \<le> f y)"
proof (induction xs arbitrary: b)
  case (Cons x xs)
  show ?case
  proof (cases "P x \<and> f b < f x")
    case True
    with Cons.IH [of x] show ?thesis by auto
  next
    case False
    with Cons.IH [of b] show ?thesis by (auto simp: not_less intro: order_trans)
  qed
qed simp

lemma best_scan_None_iff: "best_scan P f xs None = None \<longleftrightarrow> (\<forall>x \<in> set xs. \<not> P x)"
proof (induction xs)
  case (Cons x xs)
  then show ?case using best_scan_Some_acc [of P f xs x] by auto
qed simp

lemma best_scan_SomeD:
  "best_scan P f xs None = Some y \<Longrightarrow> y \<in> set xs \<and> P y \<and> (\<forall>x \<in> set xs. P x \<longrightarrow> f x \<le> f y)"
proof (induction xs)
  case (Cons x xs)
  show ?case
  proof (cases "P x")
    case True
    with Cons.prems best_scan_Some_acc [of P f xs x] show ?thesis by auto
  next
    case False
    with Cons show ?thesis by auto
  qed
qed simp

text \<open>Among equally good entries the first one wins.\<close>

lemma best_scan_keep: "\<forall>x \<in> set xs. P x \<longrightarrow> f x \<le> f b \<Longrightarrow> best_scan P f xs (Some b) = Some b"
  by (induction xs) auto

lemma best_scan_first:
  "best_scan P f xs acc = Some y \<Longrightarrow> acc \<noteq> Some y
     \<Longrightarrow> \<exists>us vs. xs = us @ y # vs \<and> P y \<and> (\<forall>u \<in> set us. P u \<longrightarrow> f u < f y)
          \<and> (case acc of None \<Rightarrow> True | Some b \<Rightarrow> f b < f y)"
proof (induction xs arbitrary: acc)
  case (Cons x xs)
  define acc' where "acc' = (if P x \<and> (case acc of None \<Rightarrow> True | Some b \<Rightarrow> f b < f x) then Some x else acc)"
  have step: "best_scan P f xs acc' = Some y"
    using Cons.prems(1) by (auto simp: acc'_def split: option.splits if_splits)
  show ?case
  proof (cases "acc' = Some y")
    case True
    then have "x = y \<and> P y \<and> (case acc of None \<Rightarrow> True | Some b \<Rightarrow> f b < f y)"
      using Cons.prems(2) by (auto simp: acc'_def split: if_splits)
    then show ?thesis by (intro exI [of _ "[]"] exI [of _ xs]) auto
  next
    case False
    from Cons.IH [OF step this] obtain us vs where
      "xs = us @ y # vs" "P y" "\<forall>u \<in> set us. P u \<longrightarrow> f u < f y"
      "case acc' of None \<Rightarrow> True | Some b \<Rightarrow> f b < f y" by blast
    then show ?thesis
      by (intro exI [of _ "x # us"] exI [of _ vs])
         (auto simp: acc'_def split: option.splits if_splits)
  qed
qed simp

subsection \<open>Runs of a state machine\<close>

text \<open>
  A component whose operations are the events of a total step function, with an invariant that every
  step keeps. What holds of every state reached by a run follows once, here; each state machine of
  the development interprets the locale on its own steps.
\<close>

locale invariant_steps =
  fixes step :: "'e \<Rightarrow> 's \<Rightarrow> 's"
    and inv :: "'s \<Rightarrow> bool"
    and start :: 's
  assumes start_inv: "inv start"
    and step_inv: "inv s \<Longrightarrow> inv (step e s)"
begin

definition run :: "'e list \<Rightarrow> 's" where
  "run es = fold step es start"

lemma run_Nil [simp]: "run [] = start"
  by (simp add: run_def)

lemma run_snoc [simp]: "run (es @ [e]) = step e (run es)"
  by (simp add: run_def)

lemma fold_inv: "inv s \<Longrightarrow> inv (fold step es s)"
  by (induction es arbitrary: s) (simp_all add: step_inv)

lemma run_inv: "inv (run es)"
  unfolding run_def by (rule fold_inv [OF start_inv])

lemma run_induct:
  assumes "P start" and "\<And>s e. inv s \<Longrightarrow> P s \<Longrightarrow> P (step e s)"
  shows "P (run es)"
proof (induction es rule: rev_induct)
  case (snoc e es)
  then show ?case using assms(2) [OF run_inv] by simp
qed (simp add: assms(1))

end

end
