(* ===== verification/Js_String.thy ===== *)
theory Js_String
  imports Mesh_Prelude
begin

text \<open>
  The parts of the JavaScript string library that the modelled code calls: \<^verbatim>\<open>trim\<close>,
  \<^verbatim>\<open>toLowerCase\<close>, \<^verbatim>\<open>split\<close> on one character and on a doubled one, \<^verbatim>\<open>slice\<close>, the character
  classes of its regular expressions, and the conversions of decimal and hexadecimal digits.
\<close>

subsection \<open>Characters\<close>

definition code :: "char \<Rightarrow> nat" where
  "code c = of_char c"

lemma code_less [simp]: "code c < 256"
  by (simp add: code_def)

lemma code_inject [simp]: "code c = code d \<longleftrightarrow> c = d"
  by (simp add: code_def)

definition chr :: "nat \<Rightarrow> char" where
  "chr n = char_of n"

lemma code_chr [simp]: "n < 256 \<Longrightarrow> code (chr n) = n"
  by (simp add: code_def chr_def)

lemma chr_code [simp]: "chr (code c) = c"
  by (simp add: code_def chr_def)

text \<open>White space as \<^verbatim>\<open>String.prototype.trim\<close> sees it, among the code units below 256.\<close>

definition is_space :: "char \<Rightarrow> bool" where
  "is_space c \<longleftrightarrow> 9 \<le> code c \<and> code c \<le> 13 \<or> code c = 32 \<or> code c = 160"

definition is_digit :: "char \<Rightarrow> bool" where
  "is_digit c \<longleftrightarrow> 48 \<le> code c \<and> code c \<le> 57"

definition is_upper :: "char \<Rightarrow> bool" where
  "is_upper c \<longleftrightarrow> 65 \<le> code c \<and> code c \<le> 90"

definition is_hex_digit :: "char \<Rightarrow> bool" where
  "is_hex_digit c \<longleftrightarrow> is_digit c \<or> 65 \<le> code c \<and> code c \<le> 70 \<or> 97 \<le> code c \<and> code c \<le> 102"

definition is_alnum :: "char \<Rightarrow> bool" where
  "is_alnum c \<longleftrightarrow> is_digit c \<or> is_upper c \<or> 97 \<le> code c \<and> code c \<le> 122"

definition lower_char :: "char \<Rightarrow> char" where
  "lower_char c = (let n = code c in
     if 65 \<le> n \<and> n \<le> 90 \<or> 192 \<le> n \<and> n \<le> 222 \<and> n \<noteq> 215 then chr (n + 32) else c)"

definition js_lower :: "string \<Rightarrow> string" where
  "js_lower = map lower_char"

definition js_trim :: "string \<Rightarrow> string" where
  "js_trim s = rev (dropWhile is_space (rev (dropWhile is_space s)))"

lemma js_trim_Nil [simp]: "js_trim [] = []"
  by (simp add: js_trim_def)

lemma js_trim_id:
  assumes "\<forall>c \<in> set s. \<not> is_space c"
  shows "js_trim s = s"
proof -
  have "dropWhile is_space s = s" using assms by (cases s) auto
  moreover have "dropWhile is_space (rev s) = rev s"
    using assms by (cases "s = []") (auto simp: dropWhile_eq_self_iff hd_rev)
  ultimately show ?thesis by (simp add: js_trim_def)
qed

subsection \<open>Splitting and joining\<close>

text \<open>\<^verbatim>\<open>s.split(c)\<close> for a separator of one character.\<close>

fun js_split :: "char \<Rightarrow> string \<Rightarrow> string list" where
  "js_split c [] = [[]]"
| "js_split c (x # xs) =
     (if x = c then [] # js_split c xs
      else (case js_split c xs of [] \<Rightarrow> [[x]] | y # ys \<Rightarrow> (x # y) # ys))"

text \<open>\<^verbatim>\<open>s.split(cc)\<close> for a separator that is one character twice (the \<^verbatim>\<open>::\<close> of an IPv6 literal).\<close>

fun js_split2 :: "char \<Rightarrow> string \<Rightarrow> string list" where
  "js_split2 c [] = [[]]"
| "js_split2 c [x] = [[x]]"
| "js_split2 c (x # y # zs) =
     (if x = c \<and> y = c then [] # js_split2 c zs
      else (case js_split2 c (y # zs) of [] \<Rightarrow> [[x]] | w # ws \<Rightarrow> (x # w) # ws))"

text \<open>\<^verbatim>\<open>parts.join(c)\<close>.\<close>

fun js_join :: "char \<Rightarrow> string list \<Rightarrow> string" where
  "js_join c [] = []"
| "js_join c [s] = s"
| "js_join c (s # t # ss) = s @ c # js_join c (t # ss)"

lemma js_split_neq_Nil [simp]: "js_split c s \<noteq> []"
  by (cases s) (auto split: list.splits)

lemma js_split_no_sep: "c \<notin> set s \<Longrightarrow> js_split c s = [s]"
  by (induction s) auto

lemma js_split_append: "c \<notin> set s \<Longrightarrow> js_split c (s @ c # t) = s # js_split c t"
  by (induction s) auto

lemma js_split_join:
  "ss \<noteq> [] \<Longrightarrow> \<forall>s \<in> set ss. c \<notin> set s \<Longrightarrow> js_split c (js_join c ss) = ss"
  by (induction c ss rule: js_join.induct) (auto simp: js_split_no_sep js_split_append)

lemma js_join_split: "js_join c (js_split c s) = s"
proof (induction s)
  case (Cons x xs)
  obtain y ys where "js_split c xs = y # ys" by (cases "js_split c xs") auto
  with Cons show ?case by (cases ys) auto
qed simp

lemma js_split_parts_no_sep: "\<forall>s \<in> set (js_split c t). c \<notin> set s"
  by (induction t) (auto split: list.splits)

subsection \<open>Digits\<close>

definition digit_val :: "char \<Rightarrow> nat" where
  "digit_val c = code c - 48"

definition dec_value :: "string \<Rightarrow> nat" where
  "dec_value = foldl (\<lambda>n c. 10 * n + digit_val c) 0"

definition hex_digit_val :: "char \<Rightarrow> nat" where
  "hex_digit_val c =
     (if is_digit c then code c - 48 else if code c \<le> 70 then code c - 55 else code c - 87)"

definition hex_value :: "string \<Rightarrow> nat" where
  "hex_value = foldl (\<lambda>n c. 16 * n + hex_digit_val c) 0"

definition hex_digit :: "nat \<Rightarrow> char" where
  "hex_digit n = (if n < 10 then chr (48 + n) else chr (87 + n))"

text \<open>\<^verbatim>\<open>b.toString(16).padStart(2, '0')\<close> of a byte.\<close>

definition hex2 :: "byte \<Rightarrow> string" where
  "hex2 b = [hex_digit (unat b div 16), hex_digit (unat b mod 16)]"

lemma hex_digit_val_digit [simp]: "n < 16 \<Longrightarrow> hex_digit_val (hex_digit n) = n"
  by (auto simp: hex_digit_val_def hex_digit_def is_digit_def)

lemma is_hex_digit_hex_digit [simp]: "n < 16 \<Longrightarrow> is_hex_digit (hex_digit n)"
  by (auto simp: is_hex_digit_def hex_digit_def is_digit_def)

lemma hex_digit_val_less: "is_hex_digit c \<Longrightarrow> hex_digit_val c < 16"
  by (auto simp: is_hex_digit_def hex_digit_val_def is_digit_def)

lemma hex_digit_inject: "m < 16 \<Longrightarrow> n < 16 \<Longrightarrow> hex_digit m = hex_digit n \<longleftrightarrow> m = n"
  by (metis hex_digit_val_digit)

lemma byte_div_16 [simp]: "unat (b :: byte) div 16 < 16"
  using unat_byte_less [of b] by linarith

lemma hex_value_hex2 [simp]: "hex_value (hex2 b) = unat b"
  by (simp add: hex_value_def hex2_def)

lemma length_hex2 [simp]: "length (hex2 b) = 2"
  by (simp add: hex2_def)

lemma hex2_hex_digits: "\<forall>c \<in> set (hex2 b). is_hex_digit c"
  by (simp add: hex2_def)

lemma hex2_inject [simp]: "hex2 a = hex2 b \<longleftrightarrow> a = b"
  by (metis hex_value_hex2 word_unat_eq_iff)

subsection \<open>parseInt\<close>

text \<open>
  \<^verbatim>\<open>parseInt(s, 10)\<close>: leading white space and a sign are skipped, then the longest run of digits is
  read; \<open>None\<close> is \<^verbatim>\<open>NaN\<close>, for no digit at all.
\<close>

definition parse_digits :: "string \<Rightarrow> int option" where
  "parse_digits s = (let ds = takeWhile is_digit s in if ds = [] then None else Some (int (dec_value ds)))"

definition parse_int10 :: "string \<Rightarrow> int option" where
  "parse_int10 s = (case dropWhile is_space s of
     [] \<Rightarrow> None
   | c # cs \<Rightarrow> (if c = CHR ''-'' then map_option uminus (parse_digits cs)
                else if c = CHR ''+'' then parse_digits cs
                else parse_digits (c # cs)))"

subsection \<open>Writing numbers\<close>

text \<open>\<^verbatim>\<open>String(n)\<close> and \<^verbatim>\<open>n.toString(16)\<close> of a natural number, and \<^verbatim>\<open>padStart\<close>.\<close>

fun dec_string :: "nat \<Rightarrow> string" where
  "dec_string n = (if n < 10 then [chr (48 + n)] else dec_string (n div 10) @ [chr (48 + n mod 10)])"

fun hex_string :: "nat \<Rightarrow> string" where
  "hex_string n = (if n < 16 then [hex_digit n] else hex_string (n div 16) @ [hex_digit (n mod 16)])"

declare dec_string.simps [simp del] hex_string.simps [simp del]

definition int_string :: "int \<Rightarrow> string" where
  "int_string n = (if n < 0 then ''-'' @ dec_string (nat (- n)) else dec_string (nat n))"

definition pad_start :: "nat \<Rightarrow> char \<Rightarrow> string \<Rightarrow> string" where
  "pad_start n c s = replicate (n - length s) c @ s"

lemma dec_value_snoc [simp]: "dec_value (s @ [c]) = 10 * dec_value s + digit_val c"
  by (simp add: dec_value_def)

lemma hex_value_snoc [simp]: "hex_value (s @ [c]) = 16 * hex_value s + hex_digit_val c"
  by (simp add: hex_value_def)

lemma digit_val_chr [simp]: "n < 10 \<Longrightarrow> digit_val (chr (48 + n)) = n"
  by (simp add: digit_val_def)

lemma dec_value_dec_string [simp]: "dec_value (dec_string n) = n"
proof (induction n rule: dec_string.induct)
  case (1 n)
  show ?case
  proof (cases "n < 10")
    case True
    then show ?thesis by (subst dec_string.simps) (simp add: dec_value_def)
  next
    case False
    with 1 show ?thesis by (subst dec_string.simps) simp
  qed
qed

lemma dec_string_digits: "\<forall>c \<in> set (dec_string n). is_digit c"
proof (induction n rule: dec_string.induct)
  case (1 n)
  then show ?case by (subst dec_string.simps) (auto simp: is_digit_def)
qed

lemma dec_string_inject [simp]: "dec_string m = dec_string n \<longleftrightarrow> m = n"
  by (metis dec_value_dec_string)

lemma hex_value_hex_string [simp]: "hex_value (hex_string n) = n"
proof (induction n rule: hex_string.induct)
  case (1 n)
  show ?case
  proof (cases "n < 16")
    case True
    then show ?thesis by (subst hex_string.simps) (simp add: hex_value_def)
  next
    case False
    with 1 show ?thesis by (subst hex_string.simps) simp
  qed
qed

lemma hex_value_zeros [simp]: "hex_value (replicate k (CHR ''0'') @ s) = hex_value s"
proof (induction s rule: rev_induct)
  case Nil
  show ?case
  proof (induction k)
    case (Suc k)
    then show ?case
      by (simp add: hex_value_def hex_digit_val_def is_digit_def code_def)
  qed (simp add: hex_value_def)
next
  case (snoc c s)
  then show ?case by (simp only: append_assoc [symmetric] hex_value_snoc)
qed

lemma hex_value_pad [simp]: "hex_value (pad_start k (CHR ''0'') s) = hex_value s"
  by (simp add: pad_start_def)

lemma dec_string_neq_Nil [simp]: "dec_string n \<noteq> []"
  by (subst dec_string.simps) simp

lemma digit_not_space: "is_digit c \<Longrightarrow> \<not> is_space c"
  by (auto simp: is_digit_def is_space_def)

lemma parse_digits_dec_string [simp]: "parse_digits (dec_string n) = Some (int n)"
proof -
  have "takeWhile is_digit (dec_string n) = dec_string n"
    using dec_string_digits [of n] by (simp add: takeWhile_eq_all_conv)
  then show ?thesis
    by (simp only: parse_digits_def Let_def dec_string_neq_Nil if_False dec_value_dec_string)
qed

lemma parse_int10_dec_string [simp]: "parse_int10 (dec_string n) = Some (int n)"
proof -
  obtain c cs where cs: "dec_string n = c # cs" by (cases "dec_string n") auto
  then have d: "is_digit c" using dec_string_digits [of n] by simp
  then have "\<not> is_space c" "c \<noteq> CHR ''-''" "c \<noteq> CHR ''+''"
    using digit_not_space by (auto simp: is_digit_def code_def)
  then show ?thesis
    using parse_digits_dec_string [of n] by (simp add: parse_int10_def cs)
qed

lemma js_split_chars: "set s \<subseteq> insert c (\<Union> (set ` set (js_split c s)))"
proof (induction s)
  case (Cons x xs)
  obtain y ys where "js_split c xs = y # ys" by (cases "js_split c xs") auto
  with Cons show ?case by auto
qed simp

lemma js_split2_neq_Nil [simp]: "js_split2 c s \<noteq> []"
  by (induction c s rule: js_split2.induct) (auto split: list.splits)

lemma js_split2_chars: "set s \<subseteq> insert c (\<Union> (set ` set (js_split2 c s)))"
proof (induction c s rule: js_split2.induct)
  case (3 c x y zs)
  show ?case
  proof (cases "x = c \<and> y = c")
    case True
    with 3 show ?thesis by auto
  next
    case False
    obtain w ws where "js_split2 c (y # zs) = w # ws" by (cases "js_split2 c (y # zs)") auto
    with 3(2) False show ?thesis by auto
  qed
qed auto

lemma is_hex_digit_lower: "is_hex_digit (lower_char c) \<Longrightarrow> is_hex_digit c"
  by (auto simp: lower_char_def Let_def is_hex_digit_def is_digit_def split: if_splits)

lemma lower_char_colon: "lower_char c = CHR '':'' \<Longrightarrow> c = CHR '':''"
proof -
  assume "lower_char c = CHR '':''"
  then have "code (lower_char c) = 58" by (simp add: code_def)
  then have "code c = code (CHR '':'')" by (auto simp: lower_char_def Let_def code_def [of "CHR '':''"] split: if_splits)
  then show ?thesis by simp
qed

lemma hex_digit_not_space: "is_hex_digit c \<Longrightarrow> \<not> is_space c"
  by (auto simp: is_hex_digit_def is_digit_def is_space_def)

end
