(* ===== verification/Meshcore_Path.thy ===== *)
theory Meshcore_Path
  imports Js_String
begin

text \<open>
  The header and path prefix of a MeshCore radio packet (\<^verbatim>\<open>src/shared/meshcoreRfPath.ts\<close>, with its
  main-process wrapper \<^verbatim>\<open>src/main/meshcore-path-decoder.ts\<close>): the decoder with every throw as an
  error value, the labels of the header bits, and the classification of unknown payloads.
  \<open>path_layout\<close> is the packet format as the documents give it; the decoder is shown to accept
  exactly the packets of that format and to return their parts.
\<close>

definition MESHCORE_TYPE_MASK :: byte where "MESHCORE_TYPE_MASK = 0x3c"
definition MESHCORE_TYPE_SHIFT :: nat where "MESHCORE_TYPE_SHIFT = 2"
definition MESHCORE_ROUTE_MASK :: byte where "MESHCORE_ROUTE_MASK = 0x03"
definition PAYLOAD_TYPE_PATH :: nat where "PAYLOAD_TYPE_PATH = 8"
definition PAYLOAD_TYPE_TRACE :: nat where "PAYLOAD_TYPE_TRACE = 9"
definition MESHCORE_PAYLOAD_TYPE_ADVERT_NIBBLE :: nat where "MESHCORE_PAYLOAD_TYPE_ADVERT_NIBBLE = 4"
definition ROUTE_TYPE_TRANSPORT_FLOOD :: byte where "ROUTE_TYPE_TRANSPORT_FLOOD = 0"
definition ROUTE_TYPE_TRANSPORT_DIRECT :: byte where "ROUTE_TYPE_TRANSPORT_DIRECT = 3"
definition TRANSPORT_CODES_SIZE :: nat where "TRANSPORT_CODES_SIZE = 4"

lemmas path_consts [codec_simps] =
  MESHCORE_TYPE_MASK_def MESHCORE_TYPE_SHIFT_def MESHCORE_ROUTE_MASK_def PAYLOAD_TYPE_PATH_def
  PAYLOAD_TYPE_TRACE_def MESHCORE_PAYLOAD_TYPE_ADVERT_NIBBLE_def ROUTE_TYPE_TRANSPORT_FLOOD_def
  ROUTE_TYPE_TRANSPORT_DIRECT_def TRANSPORT_CODES_SIZE_def

subsection \<open>The path prefix\<close>

datatype path_error =
    PacketTooShortForPathHeader
  | PacketTooShortForTransportCodes
  | DataViewRangeError
  | PacketTooShortForPathLength nat nat
  | BufferUnderrun nat nat nat int

record path_prefix =
  hops :: nat
  path_end_offset :: nat
  path :: bytes
  hash_size_bytes :: nat
  transport_codes :: "(nat \<times> nat) option"

text \<open>
  The reading of the path bytes once the transport codes are known: the second half of
  \<^verbatim>\<open>decodeMeshCorePathPrefix\<close>. The route type decides where the path-length byte stands.
\<close>

definition decode_path_body :: "bytes \<Rightarrow> bool \<Rightarrow> (nat \<times> nat) option \<Rightarrow> path_error + path_prefix" where
  "decode_path_body raw has_transport_codes codes =
     (let path_length_offset = 1 + (if has_transport_codes then TRANSPORT_CODES_SIZE else 0) in
      if length raw < path_length_offset + 1
      then Inl (PacketTooShortForPathLength path_length_offset (length raw))
      else (case at_opt raw path_length_offset of
        None \<Rightarrow> Inl (PacketTooShortForPathLength path_length_offset (length raw))
      | Some path_length_byte \<Rightarrow>
          (let path_length = unat (path_length_byte AND 0x3f);
               hash_size_code = unat (drop_bit 6 path_length_byte AND 0x03);
               hash_size = hash_size_code + 1;
               path_byte_length = path_length * hash_size;
               path_start_offset = path_length_offset + 1;
               path_end = path_start_offset + path_byte_length
           in if length raw < path_end
              then Inl (BufferUnderrun path_length hash_size path_byte_length
                          (int (length raw) - int path_start_offset))
              else Inr \<lparr>hops = path_length, path_end_offset = path_end,
                        path = subarray raw path_start_offset path_end,
                        hash_size_bytes = hash_size, transport_codes = codes\<rparr>)))"

definition has_transport_codes :: "byte \<Rightarrow> bool" where
  "has_transport_codes byte0 \<longleftrightarrow>
     byte0 AND MESHCORE_ROUTE_MASK = ROUTE_TYPE_TRANSPORT_FLOOD
     \<or> byte0 AND MESHCORE_ROUTE_MASK = ROUTE_TYPE_TRANSPORT_DIRECT"

definition decode_path_prefix :: "bytes \<Rightarrow> path_error + path_prefix" where
  "decode_path_prefix raw =
     (if length raw < 2 then Inl PacketTooShortForPathHeader
      else (case at_opt raw 0 of
        None \<Rightarrow> Inl PacketTooShortForPathHeader
      | Some byte0 \<Rightarrow>
          (if has_transport_codes byte0 then
             (if length raw < 1 + TRANSPORT_CODES_SIZE then Inl PacketTooShortForTransportCodes
              else (case (u16_le raw 1, u16_le raw 3) of
                (Some scope, Some return_region) \<Rightarrow>
                  decode_path_body raw True (Some (scope, return_region))
              | _ \<Rightarrow> Inl DataViewRangeError))
           else decode_path_body raw False None)))"

text \<open>The main-process wrapper keeps the hop count and the path bytes.\<close>

definition decode_path_payload :: "bytes \<Rightarrow> path_error + (nat \<times> bytes)" where
  "decode_path_payload buffer = (case decode_path_prefix buffer of
     Inl e \<Rightarrow> Inl e | Inr p \<Rightarrow> Inr (hops p, path p))"

subsection \<open>Header labels\<close>

definition payload_type_nibble :: "byte \<Rightarrow> nat" where
  "payload_type_nibble byte0 = unat (drop_bit MESHCORE_TYPE_SHIFT (byte0 AND MESHCORE_TYPE_MASK))"

definition route_bits :: "byte \<Rightarrow> nat" where
  "route_bits byte0 = unat (byte0 AND MESHCORE_ROUTE_MASK)"

definition route_type_string :: "byte \<Rightarrow> string" where
  "route_type_string byte0 =
     (let r = route_bits byte0 in
      if r = 0 then ''TRANSPORT_FLOOD''
      else if r = 1 then ''FLOOD''
      else if r = 2 then ''DIRECT''
      else if r = 3 then ''TRANSPORT_DIRECT''
      else ''FLOOD'')"

definition payload_type_string :: "byte \<Rightarrow> string" where
  "payload_type_string byte0 =
     (let t = payload_type_nibble byte0 in
      if t = 0 then ''REQ_RESP''
      else if t = 1 then ''RESPONSE''
      else if t = 2 then ''TXT_MSG''
      else if t = 4 then ''ADVERT''
      else if t = 5 then ''GRP_TXT''
      else if t = 6 then ''GRP_DATA''
      else if t = 7 then ''ANON_REQ''
      else if t = 8 then ''PATH''
      else if t = 9 then ''TRACE''
      else if t = 10 then ''MULTIPART''
      else if t = 11 then ''CONTROL''
      else if t = 15 then ''RAW_CUSTOM''
      else ''PAYLOAD_0x'' @ [hex_digit t])"

definition is_path_packet_byte0 :: "byte \<Rightarrow> bool" where
  "is_path_packet_byte0 byte0 \<longleftrightarrow> payload_type_nibble byte0 = PAYLOAD_TYPE_PATH"

definition is_trace_packet_byte0 :: "byte \<Rightarrow> bool" where
  "is_trace_packet_byte0 byte0 \<longleftrightarrow> payload_type_nibble byte0 = PAYLOAD_TYPE_TRACE"

definition is_path_packet :: "bytes \<Rightarrow> bool" where
  "is_path_packet buffer \<longleftrightarrow> (case buffer of [] \<Rightarrow> False | b # _ \<Rightarrow> is_path_packet_byte0 b)"

definition is_trace_packet :: "bytes \<Rightarrow> bool" where
  "is_trace_packet buffer \<longleftrightarrow> (case buffer of [] \<Rightarrow> False | b # _ \<Rightarrow> is_trace_packet_byte0 b)"

definition should_classify_as_meshcore :: "bytes \<Rightarrow> bool" where
  "should_classify_as_meshcore raw =
     (case decode_path_prefix raw of
        Inl _ \<Rightarrow> False
      | Inr decoded \<Rightarrow>
          (case at_opt raw 0 of
             None \<Rightarrow> False
           | Some byte0 \<Rightarrow>
               (let nibble = payload_type_nibble byte0 in
                if has_transport_codes byte0 then True
                else if hops decoded > 0 then True
                else if nibble = MESHCORE_PAYLOAD_TYPE_ADVERT_NIBBLE then True
                else nibble = PAYLOAD_TYPE_PATH \<or> nibble = PAYLOAD_TYPE_TRACE)))"

subsection \<open>The format, and the decoder against it\<close>

text \<open>
  One header byte, four bytes of transport codes for the two transport routes, the path-length
  byte, as many hash bytes as it announces, then the payload.
\<close>

definition path_len_hops :: "byte \<Rightarrow> nat" where
  "path_len_hops b = unat b mod 64"

definition path_len_hash_size :: "byte \<Rightarrow> nat" where
  "path_len_hash_size b = unat b div 64 + 1"

definition path_layout :: "bytes \<Rightarrow> byte \<Rightarrow> bytes \<Rightarrow> byte \<Rightarrow> bytes \<Rightarrow> bytes \<Rightarrow> bool" where
  "path_layout raw header codes len_byte hashes inner \<longleftrightarrow>
     raw = header # codes @ len_byte # hashes @ inner
     \<and> length codes = (if has_transport_codes header then 4 else 0)
     \<and> length hashes = path_len_hops len_byte * path_len_hash_size len_byte"

definition codes_value :: "bytes \<Rightarrow> (nat \<times> nat) option" where
  "codes_value codes = (case codes of
     [a, b, c, d] \<Rightarrow> Some (unat a + 256 * unat b, unat c + 256 * unat d) | _ \<Rightarrow> None)"

lemma path_len_byte_fields [codec_simps]:
  "unat (b AND 0x3f :: byte) = path_len_hops b"
  "unat (drop_bit 6 b AND 0x03 :: byte) + 1 = path_len_hash_size b"
proof -
  have m6: "(0x3f :: byte) = mask 6" and m2: "(0x03 :: byte) = mask 2"
    by (simp_all add: mask_eq_decr_exp)
  show "unat (b AND 0x3f) = path_len_hops b"
    by (simp only: m6 unat_and_mask path_len_hops_def) simp
  have "unat (drop_bit 6 b AND 0x03) = unat b div 64 mod 4"
    by (simp only: m2 unat_and_mask unat_shiftr) simp
  also have "\<dots> = unat b div 64" using unat_byte_le [of b] by (intro mod_less) linarith
  finally show "unat (drop_bit 6 b AND 0x03) + 1 = path_len_hash_size b"
    by (simp add: path_len_hash_size_def)
qed

lemma path_len_bounds: "path_len_hops b < 64" "1 \<le> path_len_hash_size b" "path_len_hash_size b \<le> 4"
  using unat_byte_le [of b] by (auto simp: path_len_hops_def path_len_hash_size_def)

lemma decode_path_body_Inr_iff:
  assumes "off = 1 + (if tc then 4 else 0)"
  shows "decode_path_body raw tc codes = Inr p \<longleftrightarrow>
    off < length raw
    \<and> off + 1 + path_len_hops (raw ! off) * path_len_hash_size (raw ! off) \<le> length raw
    \<and> p = \<lparr>hops = path_len_hops (raw ! off),
           path_end_offset = off + 1 + path_len_hops (raw ! off) * path_len_hash_size (raw ! off),
           path = subarray raw (off + 1)
             (off + 1 + path_len_hops (raw ! off) * path_len_hash_size (raw ! off)),
           hash_size_bytes = path_len_hash_size (raw ! off), transport_codes = codes\<rparr>"
  using assms unfolding decode_path_body_def Let_def path_len_byte_fields TRANSPORT_CODES_SIZE_def
  by (auto simp: not_less at_opt_def)

lemma decode_path_prefix_Cons:
  "decode_path_prefix (h # rest) =
     (if rest = [] then Inl PacketTooShortForPathHeader
      else if has_transport_codes h then
        (if length rest < 4 then Inl PacketTooShortForTransportCodes
         else decode_path_body (h # rest) True (codes_value (take 4 rest)))
      else decode_path_body (h # rest) False None)"
proof -
  have "codes_value (take 4 rest) = Some (unat (rest ! 0) + 256 * unat (rest ! 1),
      unat (rest ! 2) + 256 * unat (rest ! 3))" if "4 \<le> length rest"
  proof -
    from that have "take 4 rest = [rest ! 0, rest ! 1, rest ! 2, rest ! 3]"
      by (subst list_eq_4 [of "take 4 rest"]) auto
    then show ?thesis by (simp add: codes_value_def)
  qed
  then show ?thesis
    by (auto simp: decode_path_prefix_def TRANSPORT_CODES_SIZE_def u16_le_def Suc_le_eq
        numeral_eq_Suc nth_Cons')
qed

lemma layout_nth_off:
  assumes "path_layout raw header codes len_byte hashes inner"
  shows "raw ! (1 + length codes) = len_byte" and "1 + length codes < length raw"
    and "drop (2 + length codes) raw = hashes @ inner"
  using assms by (simp_all add: path_layout_def nth_append)

text \<open>The decoder accepts a packet of the format and returns its parts.\<close>

lemma decode_path_prefix_of_layout:
  assumes "path_layout raw header codes len_byte hashes inner"
  shows "decode_path_prefix raw =
    Inr \<lparr>hops = path_len_hops len_byte,
         path_end_offset = 2 + length codes + length hashes,
         path = hashes, hash_size_bytes = path_len_hash_size len_byte,
         transport_codes = codes_value codes\<rparr>"
proof -
  note L = layout_nth_off [OF assms]
  from assms have raw: "raw = header # codes @ len_byte # hashes @ inner"
    and lc: "length codes = (if has_transport_codes header then 4 else 0)"
    and lh: "length hashes = path_len_hops len_byte * path_len_hash_size len_byte"
    by (simp_all add: path_layout_def)
  have sub: "subarray raw (2 + length codes) (2 + length codes + length hashes) = hashes"
    using L(3) by (simp add: subarray_def)
  have len: "2 + length codes + length hashes \<le> length raw" by (simp add: raw)
  show ?thesis
  proof (cases "has_transport_codes header")
    case True
    with lc have c4: "length codes = 4" by simp
    have "decode_path_prefix raw = decode_path_body raw True (codes_value codes)"
      using True c4 by (simp add: raw decode_path_prefix_Cons)
    also have "\<dots> = Inr \<lparr>hops = path_len_hops len_byte,
         path_end_offset = 2 + length codes + length hashes,
         path = hashes, hash_size_bytes = path_len_hash_size len_byte,
         transport_codes = codes_value codes\<rparr>"
      using L sub len c4 lh by (subst decode_path_body_Inr_iff [OF refl]) auto
    finally show ?thesis .
  next
    case False
    with lc have c0: "codes = []" by simp
    have "decode_path_prefix raw = decode_path_body raw False None"
      using False c0 by (simp add: raw decode_path_prefix_Cons)
    also have "\<dots> = Inr \<lparr>hops = path_len_hops len_byte,
         path_end_offset = 2 + length codes + length hashes,
         path = hashes, hash_size_bytes = path_len_hash_size len_byte,
         transport_codes = codes_value codes\<rparr>"
      using L sub len c0 lh by (subst decode_path_body_Inr_iff [OF refl]) (auto simp: codes_value_def numeral_2_eq_2)
    finally show ?thesis .
  qed
qed

lemma layout_of_decode_body:
  assumes "decode_path_body (h # rest) (has_transport_codes h) cs = Inr p"
    and "n = (if has_transport_codes h then 4 else 0)" and "n \<le> length rest"
  shows "\<exists>len_byte hashes inner. path_layout (h # rest) h (take n rest) len_byte hashes inner"
proof -
  let ?b = "rest ! n" and ?k = "path_len_hops (rest ! n) * path_len_hash_size (rest ! n)"
  from assms(1,2) have n: "n < length rest" and k: "Suc n + ?k \<le> length rest"
    by (auto simp: decode_path_body_Inr_iff [OF refl] split: if_splits)
  have "rest = take n rest @ ?b # drop (Suc n) rest"
    using n by (simp add: id_take_nth_drop [symmetric])
  also have "drop (Suc n) rest = take ?k (drop (Suc n) rest) @ drop ?k (drop (Suc n) rest)"
    by (simp only: append_take_drop_id)
  finally have "path_layout (h # rest) h (take n rest) ?b (take ?k (drop (Suc n) rest))
      (drop ?k (drop (Suc n) rest))"
    using n k assms(2) by (simp add: path_layout_def)
  then show ?thesis by blast
qed

lemma layout_of_decode:
  assumes "decode_path_prefix raw = Inr p"
  shows "\<exists>header codes len_byte hashes inner. path_layout raw header codes len_byte hashes inner"
proof (cases raw)
  case Nil
  with assms show ?thesis by (simp add: decode_path_prefix_def)
next
  case (Cons h rest)
  show ?thesis
  proof (cases "has_transport_codes h")
    case True
    with assms Cons show ?thesis
      using layout_of_decode_body [of h rest "codes_value (take 4 rest)" p 4]
      by (fastforce simp: decode_path_prefix_Cons split: if_splits)
  next
    case False
    with assms Cons show ?thesis
      using layout_of_decode_body [of h rest None p 0]
      by (fastforce simp: decode_path_prefix_Cons split: if_splits)
  qed
qed

lemma decode_no_range_error: "decode_path_prefix raw \<noteq> Inl DataViewRangeError"
  by (auto simp: decode_path_prefix_def decode_path_body_def u16_le_def Let_def TRANSPORT_CODES_SIZE_def
      split: option.splits if_splits)

text \<open>
  C1: \<^verbatim>\<open>decodeMeshCorePathPrefix\<close> returns a result exactly on the packets of the documented format,
  and then the result is the parts of the packet: the hop count and hash size of the path-length
  byte, the hash bytes, the two transport codes read little-endian when the route carries them,
  and the offset at which the payload starts.
\<close>

theorem decode_path_prefix_iff_layout:
  "decode_path_prefix raw = Inr p \<longleftrightarrow>
   (\<exists>header codes len_byte hashes inner.
      path_layout raw header codes len_byte hashes inner
      \<and> p = \<lparr>hops = path_len_hops len_byte,
             path_end_offset = 2 + length codes + length hashes,
             path = hashes, hash_size_bytes = path_len_hash_size len_byte,
             transport_codes = codes_value codes\<rparr>)"
proof
  assume p: "decode_path_prefix raw = Inr p"
  from layout_of_decode [OF p] obtain header codes len_byte hashes inner
    where L: "path_layout raw header codes len_byte hashes inner" by blast
  from decode_path_prefix_of_layout [OF L] p L
  show "\<exists>header codes len_byte hashes inner.
      path_layout raw header codes len_byte hashes inner
      \<and> p = \<lparr>hops = path_len_hops len_byte,
             path_end_offset = 2 + length codes + length hashes,
             path = hashes, hash_size_bytes = path_len_hash_size len_byte,
             transport_codes = codes_value codes\<rparr>" by auto
qed (auto simp: decode_path_prefix_of_layout)

lemma decode_path_prefix_facts:
  assumes "decode_path_prefix raw = Inr p"
  shows "length (path p) = hops p * hash_size_bytes p"
    and "hops p < 64" and "1 \<le> hash_size_bytes p" and "hash_size_bytes p \<le> 4"
    and "path_end_offset p \<le> length raw"
proof -
  from layout_of_decode [OF assms] obtain header codes len_byte hashes inner
    where L: "path_layout raw header codes len_byte hashes inner" by blast
  with decode_path_prefix_of_layout [OF L] assms path_len_bounds [of len_byte]
  show "length (path p) = hops p * hash_size_bytes p"
    and "hops p < 64" and "1 \<le> hash_size_bytes p" and "hash_size_bytes p \<le> 4"
    and "path_end_offset p \<le> length raw"
    by (auto simp: path_layout_def)
qed

end
