(* ===== verification/Path_Hash.thy ===== *)
theory Path_Hash
  imports Meshcore_Path
begin

text \<open>
  Path hashes (\<^verbatim>\<open>src/shared/meshcorePathHash.ts\<close>) and the one-byte node hash
  (\<^verbatim>\<open>src/shared/meshcoreNodeHash.ts\<close>): the packed path-length byte, the split of a path into its
  hop segments, and the resolution of a segment to a known node.
\<close>

subsection \<open>Modes, sizes and the packed length byte\<close>

definition path_hash_max_hops :: "nat \<Rightarrow> nat option" where
  "path_hash_max_hops sz = (if sz = 1 then Some 64 else if sz = 2 then Some 32
     else if sz = 3 then Some 21 else None)"

definition hash_size_from_mode :: "nat \<Rightarrow> nat" where
  "hash_size_from_mode mode = (if mode = 1 then 2 else if mode = 2 then 3 else 1)"

definition hash_mode_from_size :: "nat \<Rightarrow> nat option" where
  "hash_mode_from_size sz = (if sz = 1 then Some 0 else if sz = 2 then Some 1
     else if sz = 3 then Some 2 else None)"

definition hash_size_from_trace_flags :: "nat \<Rightarrow> nat" where
  "hash_size_from_trace_flags flags =
     (let code = flags mod 4 in if code = 1 then 2 else if code = 2 then 3 else 1)"

record unpacked_path_len =
  hop_count :: nat
  hash_bytes :: nat
  packed :: nat

definition unpack_path_len_byte :: "int \<Rightarrow> unpacked_path_len" where
  "unpack_path_len_byte p =
     (let safe = nat (p mod 256); hop_cnt = safe mod 64; hash_size_code = safe div 64 mod 4
      in \<lparr>hop_count = hop_cnt, hash_bytes = hash_size_code + 1, packed = safe\<rparr>)"

datatype pack_error = HopCountExceedsMax nat nat nat

text \<open>
  A size without an entry in the table compares with \<^verbatim>\<open>undefined\<close>, which is never exceeded.
\<close>

definition pack_path_len_byte :: "int \<Rightarrow> nat \<Rightarrow> pack_error + nat" where
  "pack_path_len_byte hop_cnt sz =
     (let n = nat (max 0 (min 63 hop_cnt)) in
      case path_hash_max_hops sz of
        Some max_hops \<Rightarrow>
          (if n > max_hops then Inl (HopCountExceedsMax n max_hops sz)
           else Inr (n + 64 * ((sz - 1) mod 4)))
      | None \<Rightarrow> Inr (n + 64 * ((sz - 1) mod 4)))"

text \<open>
  The two readings of the path-length byte, here and in the decoder of the packet, agree.
\<close>

lemma unpack_agrees_with_decoder:
  "unpack_path_len_byte (int (unat (b :: byte)))
     = \<lparr>hop_count = path_len_hops b, hash_bytes = path_len_hash_size b, packed = unat b\<rparr>"
  using unat_byte_le [of b]
  by (simp add: unpack_path_len_byte_def path_len_hops_def path_len_hash_size_def Let_def
      nat_mod_distrib)

lemma pack_Inr:
  assumes "pack_path_len_byte n sz = Inr b"
  shows "b = nat (max 0 (min 63 n)) + 64 * ((sz - 1) mod 4)" and "b < 256"
  using assms by (auto simp: pack_path_len_byte_def Let_def split: option.splits if_splits)

subsection \<open>Prefixes of a public key and path segments\<close>

datatype prefix_error = PublicKeyTooShort nat

definition pubkey_path_prefix :: "bytes \<Rightarrow> nat \<Rightarrow> prefix_error + bytes" where
  "pubkey_path_prefix pub_key sz =
     (if length pub_key < sz then Inl (PublicKeyTooShort sz) else Inr (subarray pub_key 0 sz))"

definition pubkey_path_prefix_hex :: "bytes \<Rightarrow> nat \<Rightarrow> prefix_error + string" where
  "pubkey_path_prefix_hex pub_key sz = (case pubkey_path_prefix pub_key sz of
     Inl e \<Rightarrow> Inl e | Inr bs \<Rightarrow> Inr (concat (map hex2 bs)))"

function split_segments_from :: "bytes \<Rightarrow> nat \<Rightarrow> nat \<Rightarrow> bytes list" where
  "split_segments_from bs sz i =
     (if 0 < sz \<and> i + sz \<le> length bs
      then subarray bs i (i + sz) # split_segments_from bs sz (i + sz)
      else [])"
  by pat_completeness auto
termination
  by (relation "measure (\<lambda>(bs, sz, i). length bs - i)") auto

declare split_segments_from.simps [simp del]

definition split_path_hash_segments :: "bytes \<Rightarrow> nat \<Rightarrow> bytes list" where
  "split_path_hash_segments bs sz =
     (if length bs = 0 \<or> sz \<le> 0 then [] else split_segments_from bs sz 0)"

fun bytes_match :: "bytes \<Rightarrow> bytes \<Rightarrow> bool" where
  "bytes_match _ [] = True"
| "bytes_match [] (_ # _) = False"
| "bytes_match (p # ps) (s # ss) = (if p \<noteq> s then False else bytes_match ps ss)"

definition prefix_matches :: "bytes \<Rightarrow> bytes \<Rightarrow> bool" where
  "prefix_matches pub_key segment =
     (if length segment = 0 \<or> length pub_key < length segment then False
      else bytes_match pub_key segment)"

lemma bytes_match_prefix: "bytes_match p s \<longleftrightarrow> prefix s p"
  by (induction p s rule: bytes_match.induct) auto

lemma prefix_matches_iff: "prefix_matches pub_key segment \<longleftrightarrow> segment \<noteq> [] \<and> prefix segment pub_key"
  by (auto simp: prefix_matches_def bytes_match_prefix dest: prefix_length_le)

lemma split_segments_from_props:
  "0 < sz \<Longrightarrow> i \<le> length bs \<Longrightarrow>
     (\<forall>s \<in> set (split_segments_from bs sz i). length s = sz)
     \<and> length (split_segments_from bs sz i) = (length bs - i) div sz
     \<and> concat (split_segments_from bs sz i) = take ((length bs - i) div sz * sz) (drop i bs)"
proof (induction bs sz i rule: split_segments_from.induct)
  case (1 bs sz i)
  show ?case
  proof (cases "i + sz \<le> length bs")
    case True
    let ?n = "length bs - (i + sz)" and ?rest = "split_segments_from bs sz (i + sz)"
    have unfold: "split_segments_from bs sz i = subarray bs i (i + sz) # ?rest"
      using True "1.prems" by (subst split_segments_from.simps) simp
    have IH: "(\<forall>s \<in> set ?rest. length s = sz) \<and> length ?rest = ?n div sz
        \<and> concat ?rest = take (?n div sz * sz) (drop (i + sz) bs)"
      by (rule "1.IH") (simp_all only: "1.prems" True conj_assoc simp_thms)
    have q: "(length bs - i) div sz = Suc (?n div sz)"
    proof -
      from True have "length bs - i = sz + ?n" by simp
      then have "(length bs - i) div sz = (sz + ?n) div sz" by (rule arg_cong)
      also have "\<dots> = Suc (?n div sz)" using "1.prems"(1) by (subst div_add_self1) simp_all
      finally show ?thesis .
    qed
    have "take (sz + ?n div sz * sz) (drop i bs)
        = subarray bs i (i + sz) @ take (?n div sz * sz) (drop (i + sz) bs)"
      by (simp add: subarray_def take_add add.commute)
    with IH True q show ?thesis by (simp add: unfold)
  next
    case False
    with "1.prems" show ?thesis by (simp add: split_segments_from.simps [of bs sz i])
  qed
qed

lemma split_path_hash_segments_props:
  assumes "0 < sz"
  shows "\<forall>s \<in> set (split_path_hash_segments bs sz). length s = sz"
    and "length (split_path_hash_segments bs sz) = length bs div sz"
    and "concat (split_path_hash_segments bs sz) = take (length bs div sz * sz) bs"
  using split_segments_from_props [OF assms, of 0 bs] assms
  by (auto simp: split_path_hash_segments_def)

subsection \<open>Resolving a hash to a known node\<close>

record node_hash_candidate =
  node_id :: int
  last_heard :: int

definition meshcore_node_hash :: "int \<Rightarrow> nat" where
  "meshcore_node_hash node =
     (let w = word_of_int node :: 32 word in
      unat (((drop_bit 24 w AND 0xff) XOR (drop_bit 16 w AND 0xff) XOR (drop_bit 8 w AND 0xff)
        XOR (w AND 0xff)) AND 0xff))"

definition resolve_node_id :: "nat \<Rightarrow> node_hash_candidate list \<Rightarrow> int option" where
  "resolve_node_id hash known_nodes =
     map_option node_id
       (best_scan (\<lambda>n. meshcore_node_hash (node_id n) = hash) last_heard known_nodes None)"

definition resolve_node_from_path_prefix ::
    "bytes \<Rightarrow> node_hash_candidate list \<Rightarrow> (int \<Rightarrow> bytes option) \<Rightarrow> int option" where
  "resolve_node_from_path_prefix prefix_bytes candidates pub_keys =
     (if length prefix_bytes = 0 \<or> length candidates = 0 then None
      else if length prefix_bytes = 1 then
        (case at_opt prefix_bytes 0 of
           None \<Rightarrow> None | Some b \<Rightarrow> resolve_node_id (unat b) candidates)
      else map_option node_id
        (best_scan (\<lambda>n. case pub_keys (node_id n) of
             Some k \<Rightarrow> length prefix_bytes \<le> length k \<and> prefix_matches k prefix_bytes
           | None \<Rightarrow> False) last_heard candidates None))"

text \<open>\<^verbatim>\<open>new Map(candidates.map(...))\<close>: of two candidates with one id the later one stays.\<close>

definition candidate_heard :: "node_hash_candidate list \<Rightarrow> int \<Rightarrow> int" where
  "candidate_heard candidates i =
     (case map_of (rev (map (\<lambda>c. (node_id c, c)) candidates)) i of
        Some c \<Rightarrow> last_heard c | None \<Rightarrow> 0)"

fun resolve_sender_loop ::
    "bytes list \<Rightarrow> node_hash_candidate list \<Rightarrow> (int \<Rightarrow> bytes option) \<Rightarrow> (int \<times> int) option
      \<Rightarrow> int option" where
  "resolve_sender_loop [] candidates pub_keys best = map_option fst best"
| "resolve_sender_loop (segment # rest) candidates pub_keys best =
     (case resolve_node_from_path_prefix segment candidates pub_keys of
        None \<Rightarrow> resolve_sender_loop rest candidates pub_keys best
      | Some i \<Rightarrow>
          (let heard = candidate_heard candidates i in
           case best of
             None \<Rightarrow> resolve_sender_loop rest candidates pub_keys (Some (i, heard))
           | Some (best_id, best_heard) \<Rightarrow>
               (if heard \<ge> best_heard
                then resolve_sender_loop rest candidates pub_keys (Some (i, heard))
                else resolve_sender_loop rest candidates pub_keys best)))"

definition resolve_path_sender_from_bytes ::
    "bytes \<Rightarrow> nat \<Rightarrow> node_hash_candidate list \<Rightarrow> (int \<Rightarrow> bytes option) \<Rightarrow> int option" where
  "resolve_path_sender_from_bytes path_bytes sz candidates pub_keys =
     (let segments = split_path_hash_segments path_bytes sz in
      if length segments = 0 \<or> length candidates = 0 then None
      else resolve_sender_loop segments candidates pub_keys None)"

definition trace_data_hash_layout :: "int \<Rightarrow> nat \<Rightarrow> nat \<times> nat \<times> nat \<times> nat" where
  "trace_data_hash_layout path_len_byte flags =
     (let path_sz = flags mod 4;
          hash_size = path_sz + 1;
          hash_byte_length = nat (path_len_byte mod 256);
          snr_count = hash_byte_length div 2 ^ path_sz;
          hop_n = (if hash_size > 0 then hash_byte_length div hash_size else hash_byte_length)
      in (hop_n, hash_size, hash_byte_length, snr_count + 1))"

definition strip_v :: "string \<Rightarrow> string" where
  "strip_v s = (case s of c # cs \<Rightarrow> if c = CHR ''v'' \<or> c = CHR ''V'' then cs else s | [] \<Rightarrow> s)"

definition int_or_zero :: "string \<Rightarrow> int" where
  "int_or_zero n = (case parse_int10 n of Some k \<Rightarrow> k | None \<Rightarrow> 0)"

definition firmware_supports_multibyte_path_hash :: "string option \<Rightarrow> bool" where
  "firmware_supports_multibyte_path_hash version =
     (case version of
        None \<Rightarrow> False
      | Some fw \<Rightarrow>
          (if js_trim fw = [] then False
           else (let parts = map int_or_zero (js_split CHR ''.'' (strip_v (js_trim fw)));
                     maj = (case at_opt parts 0 of Some k \<Rightarrow> k | None \<Rightarrow> 0);
                     mnr = (case at_opt parts 1 of Some k \<Rightarrow> k | None \<Rightarrow> 0)
                 in if maj > 1 then True else if maj < 1 then False else mnr \<ge> 14)))"

subsection \<open>Properties\<close>

text \<open>
  For each of the three hash sizes, packing either fails because the clamped hop count is
  above the limit of that size, or gives a byte that unpacks to that hop count and size, and then
  the count is within the limit.
\<close>

theorem pack_unpack_path_len:
  assumes "1 \<le> sz" and "sz \<le> 3"
  shows "\<exists>limit. path_hash_max_hops sz = Some limit \<and>
    (case pack_path_len_byte n sz of
       Inl e \<Rightarrow> e = HopCountExceedsMax (nat (max 0 (min 63 n))) limit sz \<and> limit < nat (max 0 (min 63 n))
     | Inr b \<Rightarrow> nat (max 0 (min 63 n)) \<le> limit \<and> unpack_path_len_byte (int b)
         = \<lparr>hop_count = nat (max 0 (min 63 n)), hash_bytes = sz, packed = b\<rparr>)"
proof -
  define k where "k = nat (max 0 (min 63 n))"
  have k: "k < 64" by (simp add: k_def)
  from assms have cases: "sz = 1 \<or> sz = 2 \<or> sz = 3" by linarith
  have unpack: "unpack_path_len_byte (int (k + 64 * (sz - 1)))
      = \<lparr>hop_count = k, hash_bytes = sz, packed = k + 64 * (sz - 1)\<rparr>"
  proof -
    have "k + 64 * (sz - 1) < 256" using k assms(2) by linarith
    then have safe: "nat (int (k + 64 * (sz - 1)) mod 256) = k + 64 * (sz - 1)"
      by (simp only: nat_mod_distrib nat_int) simp
    show ?thesis
      unfolding unpack_path_len_byte_def Let_def safe using k cases by auto
  qed
  have sz4: "(sz - 1) mod 4 = sz - 1" using assms(2) by simp
  have "pack_path_len_byte n sz = (case path_hash_max_hops sz of
      Some m \<Rightarrow> if k > m then Inl (HopCountExceedsMax k m sz) else Inr (k + 64 * (sz - 1))
    | None \<Rightarrow> Inr (k + 64 * (sz - 1)))"
    unfolding pack_path_len_byte_def Let_def sz4 k_def ..
  with cases unpack show ?thesis
    unfolding k_def [symmetric] by (auto simp: path_hash_max_hops_def not_less)
qed

theorem pack_unpack_path_len_witness:
  "pack_path_len_byte 33 2 = Inl (HopCountExceedsMax 33 32 2) \<and> pack_path_len_byte 5 2 = Inr 69
   \<and> (\<exists>limit. path_hash_max_hops 2 = Some limit \<and>
    (case pack_path_len_byte 5 2 of
       Inl e \<Rightarrow> e = HopCountExceedsMax (nat (max 0 (min 63 5))) limit 2 \<and> limit < nat (max 0 (min 63 5))
     | Inr b \<Rightarrow> nat (max 0 (min 63 5)) \<le> limit \<and> unpack_path_len_byte (int b)
         = \<lparr>hop_count = nat (max 0 (min 63 5)), hash_bytes = 2, packed = b\<rparr>))"
  using pack_unpack_path_len [of 2 5] by (simp add: pack_path_len_byte_def path_hash_max_hops_def)

text \<open>
  The hash bytes of a decoded packet split into exactly as many segments as it announces hops,
  each of the announced hash size, and the segments put together are the hash bytes again.
\<close>

theorem decoded_path_splits_into_hops:
  assumes "decode_path_prefix raw = Inr p"
  shows "length (split_path_hash_segments (path p) (hash_size_bytes p)) = hops p
    \<and> (\<forall>s \<in> set (split_path_hash_segments (path p) (hash_size_bytes p)). length s = hash_size_bytes p)
    \<and> concat (split_path_hash_segments (path p) (hash_size_bytes p)) = path p"
proof -
  note facts = decode_path_prefix_facts [OF assms]
  have pos: "0 < hash_size_bytes p" using facts(3) by simp
  have "length (path p) div hash_size_bytes p = hops p" using facts(1) pos by simp
  with split_path_hash_segments_props [OF pos, of "path p"] facts(1) show ?thesis by simp
qed

theorem decoded_path_splits_into_hops_witness:
  "\<exists>p. decode_path_prefix [0x11, 0x42, 1, 2, 3, 4, 9] = Inr p
    \<and> split_path_hash_segments (path p) (hash_size_bytes p) = [[1, 2], [3, 4]]
    \<and> length (split_path_hash_segments (path p) (hash_size_bytes p)) = hops p"
proof -
  let ?p = "\<lparr>hops = 2, path_end_offset = 6, path = [1, 2, 3, 4], hash_size_bytes = 2,
    transport_codes = None\<rparr> :: path_prefix"
  have d: "decode_path_prefix [0x11, 0x42, 1, 2, 3, 4, 9] = Inr ?p" by code_simp
  have "split_path_hash_segments (path ?p) (hash_size_bytes ?p) = [[1, 2], [3, 4]]" by code_simp
  with d decoded_path_splits_into_hops [OF d] show ?thesis by blast
qed

lemma resolve_sender_loop_spec:
  "resolve_sender_loop segs cands keys best = Some i \<Longrightarrow>
     (case best of Some (b, h) \<Rightarrow> h = candidate_heard cands b | None \<Rightarrow> True) \<Longrightarrow>
     ((\<exists>s \<in> set segs. resolve_node_from_path_prefix s cands keys = Some i)
        \<or> map_option fst best = Some i)
     \<and> (\<forall>s \<in> set segs. \<forall>j. resolve_node_from_path_prefix s cands keys = Some j
          \<longrightarrow> candidate_heard cands j \<le> candidate_heard cands i)
     \<and> (case best of Some (b, h) \<Rightarrow> h \<le> candidate_heard cands i | None \<Rightarrow> True)"
proof (induction segs cands keys best rule: resolve_sender_loop.induct)
  case (1 cands keys best)
  then show ?case by (auto split: option.splits)
next
  case (2 seg rest cands keys best)
  show ?case
  proof (cases "resolve_node_from_path_prefix seg cands keys")
    case None
    with 2 show ?thesis by simp
  next
    case (Some j)
    note IH = "2.IH"(2,3,4)
    show ?thesis
    proof (cases best)
      case None
      with Some "2.prems" "2.IH"(2) show ?thesis by fastforce
    next
      case (Some bh)
      then obtain b h where best: "best = Some (b, h)" by (cases bh) auto
      show ?thesis
      proof (cases "h \<le> candidate_heard cands j")
        case True
        with best \<open>resolve_node_from_path_prefix seg cands keys = Some j\<close> "2.prems" "2.IH"(3)
        show ?thesis by (fastforce intro: order_trans)
      next
        case False
        with best \<open>resolve_node_from_path_prefix seg cands keys = Some j\<close> "2.prems" "2.IH"(4)
        show ?thesis by (fastforce intro: order_trans)
      qed
    qed
  qed
qed

end
