(* ===== verification/Js_Map.thy ===== *)
theory Js_Map
  imports Mesh_Prelude "HOL-Library.AList"
begin

text \<open>
  The JavaScript \<^verbatim>\<open>Map\<close>: a finite map that iterates in insertion order, where \<^verbatim>\<open>set\<close> on a present
  key keeps its place and \<^verbatim>\<open>set\<close> on a new one appends. The model is the association list of the
  entries in that order. The locale states what the components rely on, and holds the two
  patterns they share: moving a key to the young end, and evicting from the old end.
\<close>

type_synonym ('k, 'v) jsmap = "('k \<times> 'v) list"

definition jm_get :: "('k, 'v) jsmap \<Rightarrow> 'k \<Rightarrow> 'v option" where
  "jm_get m k = map_of m k"

definition jm_set :: "'k \<Rightarrow> 'v \<Rightarrow> ('k, 'v) jsmap \<Rightarrow> ('k, 'v) jsmap" where
  "jm_set k v m = AList.update k v m"

definition jm_delete :: "'k \<Rightarrow> ('k, 'v) jsmap \<Rightarrow> ('k, 'v) jsmap" where
  "jm_delete k m = AList.delete k m"

definition jm_keys :: "('k, 'v) jsmap \<Rightarrow> 'k list" where
  "jm_keys m = map fst m"

definition jm_has :: "('k, 'v) jsmap \<Rightarrow> 'k \<Rightarrow> bool" where
  "jm_has m k \<longleftrightarrow> k \<in> set (jm_keys m)"

definition jm_wf :: "('k, 'v) jsmap \<Rightarrow> bool" where
  "jm_wf m \<longleftrightarrow> distinct (jm_keys m)"

text \<open>Deleting keys from the old end until at most \<open>n\<close> entries are left.\<close>

definition jm_evict :: "nat \<Rightarrow> ('k, 'v) jsmap \<Rightarrow> ('k, 'v) jsmap" where
  "jm_evict n m = drop (length m - n) m"

locale insertion_map =
  fixes get :: "'m \<Rightarrow> 'k \<Rightarrow> 'v option"
    and set_key :: "'k \<Rightarrow> 'v \<Rightarrow> 'm \<Rightarrow> 'm"
    and del :: "'k \<Rightarrow> 'm \<Rightarrow> 'm"
    and keys :: "'m \<Rightarrow> 'k list"
    and wf_map :: "'m \<Rightarrow> bool"
  assumes get_set: "get (set_key k v m) = (get m)(k \<mapsto> v)"
    and get_del: "get (del k m) = (get m)(k := None)"
    and keys_set: "keys (set_key k v m) = (if k \<in> set (keys m) then keys m else keys m @ [k])"
    and keys_del: "keys (del k m) = filter (\<lambda>j. j \<noteq> k) (keys m)"
    and keys_get: "k \<in> set (keys m) \<longleftrightarrow> get m k \<noteq> None"
    and wf_keys: "wf_map m \<longleftrightarrow> distinct (keys m)"
begin

lemma wf_set: "wf_map m \<Longrightarrow> wf_map (set_key k v m)"
  by (auto simp: wf_keys keys_set)

lemma wf_del: "wf_map m \<Longrightarrow> wf_map (del k m)"
  by (simp add: wf_keys keys_del)

lemma get_set_same: "get (set_key k v m) k = Some v"
  by (simp add: get_set)

lemma get_set_other: "j \<noteq> k \<Longrightarrow> get (set_key k v m) j = get m j"
  by (simp add: get_set)

text \<open>Re-inserting a key puts it at the young end.\<close>

lemma keys_refresh: "keys (set_key k v (del k m)) = filter (\<lambda>j. j \<noteq> k) (keys m) @ [k]"
  by (simp add: keys_set keys_del)

lemma get_refresh: "get (set_key k v (del k m)) = (get m)(k \<mapsto> v)"
  by (simp add: get_set get_del)

lemma wf_refresh: "wf_map m \<Longrightarrow> wf_map (set_key k v (del k m))"
  by (intro wf_set wf_del)

lemma size_set: "length (keys (set_key k v m)) \<le> Suc (length (keys m))"
  by (simp add: keys_set)

lemma size_set_present: "k \<in> set (keys m) \<Longrightarrow> length (keys (set_key k v m)) = length (keys m)"
  by (simp add: keys_set)

lemma size_del: "length (keys (del k m)) \<le> length (keys m)"
  by (simp add: keys_del)

lemma size_del_present:
  "k \<in> set (keys m) \<Longrightarrow> length (keys (del k m)) < length (keys m)"
  by (simp add: keys_del filter_le_length_less)

end

lemma keys_of_update: "map fst (AList.update k v m) = (if k \<in> fst ` set m then map fst m else map fst m @ [k])"
  by (induction m) auto

interpretation jm: insertion_map jm_get jm_set jm_delete jm_keys jm_wf
proof
  fix k j :: 'a and v :: 'b and m :: "('a, 'b) jsmap"
  show "jm_get (jm_set k v m) = (jm_get m)(k \<mapsto> v)"
    by (simp add: jm_get_def jm_set_def fun_eq_iff update_conv)
  show "jm_get (jm_delete k m) = (jm_get m)(k := None)"
    by (simp add: jm_get_def jm_delete_def fun_eq_iff delete_conv)
  show "jm_keys (jm_set k v m) = (if k \<in> set (jm_keys m) then jm_keys m else jm_keys m @ [k])"
    by (simp add: jm_keys_def jm_set_def keys_of_update)
  show "jm_keys (jm_delete k m) = filter (\<lambda>j. j \<noteq> k) (jm_keys m)"
    by (induction m) (auto simp: jm_keys_def jm_delete_def)
  show "(k \<in> set (jm_keys m)) = (jm_get m k \<noteq> None)"
    by (simp add: jm_keys_def jm_get_def map_of_eq_None_iff)
  show "jm_wf m = distinct (jm_keys m)"
    by (simp add: jm_wf_def)
qed

lemmas jm_simps = jm.get_set jm.get_del jm.keys_set jm.keys_del

lemma jm_get_Nil [simp]: "jm_get [] k = None"
  by (simp add: jm_get_def)

lemma jm_keys_Nil [simp]: "jm_keys [] = []"
  by (simp add: jm_keys_def)

lemma length_jm_keys [simp]: "length (jm_keys m) = length m"
  by (simp add: jm_keys_def)

lemma jm_wf_Nil [simp]: "jm_wf []"
  by (simp add: jm_wf_def)

lemma jm_has_get: "jm_has m k \<longleftrightarrow> jm_get m k \<noteq> None"
  by (simp add: jm_has_def jm.keys_get)

lemma jm_keys_evict: "jm_keys (jm_evict n m) = drop (length m - n) (jm_keys m)"
  by (simp add: jm_keys_def jm_evict_def drop_map)

lemma jm_evict_length: "length (jm_evict n m) = min n (length m)"
  by (simp add: jm_evict_def)

lemma jm_evict_wf: "jm_wf m \<Longrightarrow> jm_wf (jm_evict n m)"
  by (simp add: jm_wf_def jm_keys_evict)

lemma jm_evict_id: "length m \<le> n \<Longrightarrow> jm_evict n m = m"
  by (simp add: jm_evict_def)

lemma jm_get_filter:
  "jm_wf m \<Longrightarrow> jm_get (filter P m) k = (case jm_get m k of
     None \<Rightarrow> None | Some v \<Rightarrow> if P (k, v) then Some v else None)"
  by (induction m) (auto simp: jm_wf_def jm_keys_def jm_get_def split: option.splits
      intro!: map_of_eq_None_iff [THEN iffD2] dest: map_of_SomeD)

lemma jm_wf_filter: "jm_wf m \<Longrightarrow> jm_wf (filter P m)"
  by (induction m) (auto simp: jm_wf_def jm_keys_def)

lemma jm_get_append: "jm_get (m @ n) k = (case jm_get m k of None \<Rightarrow> jm_get n k | Some v \<Rightarrow> Some v)"
  by (simp add: jm_get_def map_add_def split: option.splits)

lemma jm_get_SomeD: "jm_get m k = Some v \<Longrightarrow> (k, v) \<in> set m"
  by (simp add: jm_get_def map_of_SomeD)

lemma jm_get_SomeI: "jm_wf m \<Longrightarrow> (k, v) \<in> set m \<Longrightarrow> jm_get m k = Some v"
  by (simp add: jm_wf_def jm_keys_def jm_get_def)

text \<open>An entry at the young end survives eviction.\<close>

lemma jm_get_evict_last: "jm_wf (m @ [(k, v)]) \<Longrightarrow> 0 < n \<Longrightarrow> jm_get (jm_evict n (m @ [(k, v)])) k = Some v"
proof -
  assume wf: "jm_wf (m @ [(k, v)])" and n: "0 < n"
  from n have "(k, v) \<in> set (jm_evict n (m @ [(k, v)]))"
    by (auto simp: jm_evict_def)
  with wf show ?thesis by (intro jm_get_SomeI jm_evict_wf)
qed

lemma jm_set_values: "snd ` set (jm_set k v m) \<subseteq> insert v (snd ` set m)"
  unfolding jm_set_def by (induction m) auto

lemma fold_jm_set_values:
  "snd ` set (fold (\<lambda>r m. jm_set (f r) r m) rs m) \<subseteq> set rs \<union> snd ` set m"
proof (induction rs arbitrary: m)
  case (Cons r rs)
  have "snd ` set (fold (\<lambda>r m. jm_set (f r) r m) rs (jm_set (f r) r m)) \<subseteq> set rs \<union> snd ` set (jm_set (f r) r m)"
    by (rule Cons.IH)
  with jm_set_values [of "f r" r m] show ?case by (simp only: fold_simps comp_apply list.set) blast
qed simp

end
