(* ===== verification/Utf8.thy ===== *)
theory Utf8
  imports Js_String
begin

text \<open>
  Text as a list of Unicode code points, with the two conversions of the platform that the modelled
  code calls: \<^verbatim>\<open>TextEncoder.encode\<close> and \<^verbatim>\<open>new TextDecoder('utf-8', { fatal: false }).decode\<close>, the
  decoder of the WHATWG Encoding Standard with replacement of ill-formed sequences and removal of a
  leading byte order mark. Decoding what was encoded gives the text back.
\<close>

type_synonym code_points = "nat list"

definition is_scalar :: "nat \<Rightarrow> bool" where
  "is_scalar n \<longleftrightarrow> n < 0xD800 \<or> 0xE000 \<le> n \<and> n < 0x110000"

definition byte_of :: "nat \<Rightarrow> byte" where
  "byte_of n = word_of_nat n"

lemma unat_byte_of [simp]: "n < 256 \<Longrightarrow> unat (byte_of n) = n"
  by (simp add: byte_of_def unat_of_nat take_bit_eq_mod)

lemma byte_of_unat [simp]: "byte_of (unat b) = b"
  by (simp add: byte_of_def)

lemma base256_digits:
  "n < 4294967296 \<Longrightarrow> n mod 256 + 256 * (n div 256 mod 256) + 65536 * (n div 65536 mod 256)
     + 16777216 * (n div 16777216 mod 256) = (n :: nat)"
proof -
  assume n: "n < 4294967296"
  have d: "n div 256 div 256 = n div 65536" "n div 65536 div 256 = n div 16777216"
    by (simp_all add: div_mult2_eq [symmetric])
  have "n div 16777216 < 256" using n by (simp add: div_less_iff_less_mult)
  then have t: "n div 16777216 mod 256 = n div 16777216" by simp
  have "256 * (n div 16777216) + n div 65536 mod 256 = n div 65536"
    using mult_div_mod_eq [of 256 "n div 65536"] d by simp
  moreover have "256 * (n div 65536) + n div 256 mod 256 = n div 256"
    using mult_div_mod_eq [of 256 "n div 256"] d by simp
  moreover have "256 * (n div 256) + n mod 256 = n" by simp
  ultimately show ?thesis unfolding t by linarith
qed


subsection \<open>The encoder\<close>

definition utf8_encode_point :: "nat \<Rightarrow> bytes" where
  "utf8_encode_point n =
     (if n < 0x80 then [byte_of n]
      else if n < 0x800 then [byte_of (0xC0 + n div 64), byte_of (0x80 + n mod 64)]
      else if n < 0x10000 then
        [byte_of (0xE0 + n div 4096), byte_of (0x80 + n div 64 mod 64), byte_of (0x80 + n mod 64)]
      else [byte_of (0xF0 + n div 262144), byte_of (0x80 + n div 4096 mod 64),
            byte_of (0x80 + n div 64 mod 64), byte_of (0x80 + n mod 64)])"

text \<open>A code point that is no scalar value (a lone surrogate) is encoded as U+FFFD.\<close>

definition utf8_encode :: "code_points \<Rightarrow> bytes" where
  "utf8_encode t = concat (map (\<lambda>n. utf8_encode_point (if is_scalar n then n else 0xFFFD)) t)"

subsection \<open>The decoder\<close>

text \<open>
  The state of the decoder: how many bytes are still needed, the range allowed for the next one,
  and the code point built so far.
\<close>

type_synonym utf8_state = "nat \<times> nat \<times> nat \<times> nat"

definition utf8_start :: utf8_state where
  "utf8_start = (0, 0x80, 0xBF, 0)"

definition utf8_lead :: "nat \<Rightarrow> nat list \<times> utf8_state" where
  "utf8_lead b =
     (if b < 0x80 then ([b], utf8_start)
      else if 0xC2 \<le> b \<and> b \<le> 0xDF then ([], (1, 0x80, 0xBF, b - 0xC0))
      else if 0xE0 \<le> b \<and> b \<le> 0xEF then
        ([], (2, if b = 0xE0 then 0xA0 else 0x80, if b = 0xED then 0x9F else 0xBF, b - 0xE0))
      else if 0xF0 \<le> b \<and> b \<le> 0xF4 then
        ([], (3, if b = 0xF0 then 0x90 else 0x80, if b = 0xF4 then 0x8F else 0xBF, b - 0xF0))
      else ([0xFFFD], utf8_start))"

definition utf8_byte :: "nat \<Rightarrow> utf8_state \<Rightarrow> nat list \<times> utf8_state" where
  "utf8_byte b = (\<lambda>(need, lower, upper, cp).
     if need = 0 then utf8_lead b
     else if lower \<le> b \<and> b \<le> upper then
       (if need = 1 then ([64 * cp + (b - 0x80)], utf8_start)
        else ([], (need - 1, 0x80, 0xBF, 64 * cp + (b - 0x80))))
     else (case utf8_lead b of (out, st) \<Rightarrow> (0xFFFD # out, st)))"

fun utf8_run :: "bytes \<Rightarrow> utf8_state \<Rightarrow> nat list" where
  "utf8_run [] st = (if fst st = 0 then [] else [0xFFFD])"
| "utf8_run (b # bs) st = (case utf8_byte (unat b) st of (out, st') \<Rightarrow> out @ utf8_run bs st')"

definition strip_bom :: "code_points \<Rightarrow> code_points" where
  "strip_bom t = (case t of [] \<Rightarrow> [] | n # ns \<Rightarrow> if n = 0xFEFF then ns else t)"

definition utf8_decode :: "bytes \<Rightarrow> code_points" where
  "utf8_decode bs = strip_bom (utf8_run bs utf8_start)"

subsection \<open>Decoding what was encoded\<close>

lemma utf8_run_byte_of:
  "m < 256 \<Longrightarrow> utf8_run (byte_of m # bs) st = (case utf8_byte m st of (out, st') \<Rightarrow> out @ utf8_run bs st')"
  by simp

lemma utf8_run_2:
  "a < 32 \<Longrightarrow> 2 \<le> a \<Longrightarrow> b < 64
   \<Longrightarrow> utf8_run (byte_of (0xC0 + a) # byte_of (0x80 + b) # bs) utf8_start
       = (64 * a + b) # utf8_run bs utf8_start"
  by (simp add: utf8_run_byte_of utf8_byte_def utf8_lead_def utf8_start_def del: utf8_run.simps)

lemma utf8_run_3:
  "a < 16 \<Longrightarrow> b < 64 \<Longrightarrow> c < 64 \<Longrightarrow> (a = 0 \<Longrightarrow> 32 \<le> b) \<Longrightarrow> (a = 13 \<Longrightarrow> b < 32)
   \<Longrightarrow> utf8_run (byte_of (0xE0 + a) # byte_of (0x80 + b) # byte_of (0x80 + c) # bs) utf8_start
       = (64 * (64 * a + b) + c) # utf8_run bs utf8_start"
  by (auto simp add: utf8_run_byte_of utf8_byte_def utf8_lead_def utf8_start_def del: utf8_run.simps)

lemma utf8_run_4:
  "a < 5 \<Longrightarrow> b < 64 \<Longrightarrow> c < 64 \<Longrightarrow> d < 64 \<Longrightarrow> (a = 0 \<Longrightarrow> 16 \<le> b) \<Longrightarrow> (a = 4 \<Longrightarrow> b < 16)
   \<Longrightarrow> utf8_run (byte_of (0xF0 + a) # byte_of (0x80 + b) # byte_of (0x80 + c) # byte_of (0x80 + d) # bs)
         utf8_start
       = (64 * (64 * (64 * a + b) + c) + d) # utf8_run bs utf8_start"
  by (auto simp add: utf8_run_byte_of utf8_byte_def utf8_lead_def utf8_start_def del: utf8_run.simps)

lemma base64_digits:
  "64 * (n div 64) + n mod 64 = (n::nat)"
  "64 * (64 * (n div 4096) + n div 64 mod 64) + n mod 64 = n"
  "64 * (64 * (64 * (n div 262144) + n div 4096 mod 64) + n div 64 mod 64) + n mod 64 = n"
proof -
  have d1: "n div 64 div 64 = n div 4096" and d2: "n div 4096 div 64 = n div 262144"
    by (simp_all add: div_mult2_eq [symmetric])
  have 1: "64 * (n div 64) + n mod 64 = n" by simp
  have 2: "64 * (n div 4096) + n div 64 mod 64 = n div 64"
    using mult_div_mod_eq [of 64 "n div 64"] d1 by simp
  have 3: "64 * (n div 262144) + n div 4096 mod 64 = n div 4096"
    using mult_div_mod_eq [of 64 "n div 4096"] d2 by simp
  show "64 * (n div 64) + n mod 64 = n" by (fact 1)
  show "64 * (64 * (n div 4096) + n div 64 mod 64) + n mod 64 = n" by (simp only: 2 1)
  show "64 * (64 * (64 * (n div 262144) + n div 4096 mod 64) + n div 64 mod 64) + n mod 64 = n"
    by (simp only: 3 2 1)
qed

lemma utf8_run_point:
  assumes "is_scalar n"
  shows "utf8_run (utf8_encode_point n @ bs) utf8_start = n # utf8_run bs utf8_start"
proof -
  consider "n < 0x80" | "0x80 \<le> n" "n < 0x800" | "0x800 \<le> n" "n < 0x10000" | "0x10000 \<le> n"
    by linarith
  then show ?thesis
  proof cases
    case 1
    then show ?thesis by (simp add: utf8_encode_point_def utf8_byte_def utf8_start_def utf8_lead_def)
  next
    case 2
    then have "n div 64 < 32" "2 \<le> n div 64" by auto
    from utf8_run_2 [OF this, of "n mod 64" bs] 2 show ?thesis
      by (simp add: utf8_encode_point_def base64_digits del: utf8_run.simps)
  next
    case 3
    define a b c where abc: "a = n div 4096" "b = n div 64 mod 64" "c = n mod 64"
    have v: "64 * (64 * a + b) + c = n" unfolding abc by (rule base64_digits)
    have m: "b < 64" "c < 64" by (simp_all add: abc)
    have a: "a < 16" using 3 by (simp add: abc div_less_iff_less_mult)
    have e0: "32 \<le> b" if "a = 0" using 3 v that m by simp
    have ed: "b < 32" if "a = 13" using assms v that m by (simp add: is_scalar_def)
    from utf8_run_3 [OF a m e0 ed, of bs] 3 v show ?thesis
      by (simp add: utf8_encode_point_def abc [symmetric] del: utf8_run.simps)
  next
    case 4
    define a b c d where abcd: "a = n div 262144" "b = n div 4096 mod 64" "c = n div 64 mod 64" "d = n mod 64"
    have v: "64 * (64 * (64 * a + b) + c) + d = n" unfolding abcd by (rule base64_digits)
    have m: "b < 64" "c < 64" "d < 64" by (simp_all add: abcd)
    have a: "a < 5" using assms 4 by (simp add: abcd is_scalar_def div_less_iff_less_mult)
    have f0: "16 \<le> b" if "a = 0" using 4 v that m by simp
    have f4: "b < 16" if "a = 4" using assms 4 v that m by (simp add: is_scalar_def)
    from utf8_run_4 [OF a m f0 f4, of bs] 4 v show ?thesis
      by (simp add: utf8_encode_point_def abcd [symmetric] del: utf8_run.simps)
  qed
qed

lemma utf8_run_encode:
  "\<forall>n \<in> set t. is_scalar n \<Longrightarrow> utf8_run (utf8_encode t) utf8_start = t"
proof (induction t)
  case Nil
  then show ?case by (simp add: utf8_encode_def utf8_start_def)
next
  case (Cons n t)
  then have "utf8_encode (n # t) = utf8_encode_point n @ utf8_encode t"
    by (simp add: utf8_encode_def)
  with Cons show ?case by (simp add: utf8_run_point)
qed

lemma utf8_decode_encode:
  "\<forall>n \<in> set t. is_scalar n \<Longrightarrow> (t \<noteq> [] \<longrightarrow> hd t \<noteq> 0xFEFF) \<Longrightarrow> utf8_decode (utf8_encode t) = t"
  by (cases t) (simp_all add: utf8_decode_def utf8_run_encode strip_bom_def)

subsection \<open>Trimming\<close>

definition is_space_point :: "nat \<Rightarrow> bool" where
  "is_space_point n \<longleftrightarrow> 9 \<le> n \<and> n \<le> 13 \<or> n = 32 \<or> n = 160 \<or> n = 0x1680
     \<or> 0x2000 \<le> n \<and> n \<le> 0x200A \<or> n = 0x2028 \<or> n = 0x2029 \<or> n = 0x202F \<or> n = 0x205F
     \<or> n = 0x3000 \<or> n = 0xFEFF"

definition text_trim :: "code_points \<Rightarrow> code_points" where
  "text_trim t = rev (dropWhile is_space_point (rev (dropWhile is_space_point t)))"

text \<open>\<^verbatim>\<open>t.replace(/\0+$/g, '')\<close>: without the trailing NULs.\<close>

definition strip_trailing_nul :: "'a::zero list \<Rightarrow> 'a list" where
  "strip_trailing_nul t = rev (dropWhile (\<lambda>n. n = 0) (rev t))"

lemma strip_trailing_nul_id: "t = [] \<or> last t \<noteq> 0 \<Longrightarrow> strip_trailing_nul t = t"
  by (cases "rev t") (auto simp: strip_trailing_nul_def)

lemma strip_trailing_nul_append_zeros:
  "t = [] \<or> last t \<noteq> 0 \<Longrightarrow> strip_trailing_nul (t @ replicate k 0) = t"
  using strip_trailing_nul_id [of t]
  by (simp add: strip_trailing_nul_def dropWhile_append)

end
