(* ===== verification/Meshcore_Packet.thy ===== *)
theory Meshcore_Packet
  imports Meshcore_Path Utf8
begin

text \<open>
  The single parse path of MeshCore radio packets (\<^verbatim>\<open>src/shared/meshcoreRfPacketParse.ts\<close>): the CRC-32
  fingerprint, the path-invariant identity by which rebroadcasts of a packet are recognised, the
  ADVERT payload, the segment list of the packet inspector, and the region transport codes. A throw
  is the value \<open>None\<close> of \<open>build_structure\<close>, so that "does not throw" is a theorem. SHA-256 and
  HMAC-SHA-256 of WebCrypto are arguments. Coordinates are kept in microdegrees, the integers the
  code divides by 1,000,000.
\<close>

subsection \<open>The fingerprint\<close>

definition crc_bit :: "32 word \<Rightarrow> 32 word" where
  "crc_bit crc = drop_bit 1 crc XOR (0xedb88320 AND - (crc AND 1))"

definition crc_byte :: "byte \<Rightarrow> 32 word \<Rightarrow> 32 word" where
  "crc_byte b crc = (crc_bit ^^ 8) (crc XOR ucast b)"

definition upper_hex_digit :: "nat \<Rightarrow> char" where
  "upper_hex_digit n = (if n < 10 then chr (48 + n) else chr (55 + n))"

fun upper_hex :: "nat \<Rightarrow> nat \<Rightarrow> string" where
  "upper_hex 0 n = []"
| "upper_hex (Suc k) n = upper_hex k (n div 16) @ [upper_hex_digit (n mod 16)]"

definition packet_fingerprint_hex :: "bytes \<Rightarrow> string" where
  "packet_fingerprint_hex raw = upper_hex 8 (unat (fold crc_byte raw 0xffffffff XOR 0xffffffff))"

subsection \<open>Path-invariant identity\<close>

record payload_id =
  crc_hex :: string
  payload_type_nibble_of :: nat
  inner_payload :: bytes

definition path_invariant_payload_id :: "nat \<Rightarrow> bytes \<Rightarrow> payload_id" where
  "path_invariant_payload_id nibble inner =
     (let type = nibble mod 16 in
      \<lparr>crc_hex = packet_fingerprint_hex (byte_of type # inner),
       payload_type_nibble_of = type, inner_payload = inner\<rparr>)"

definition path_invariant_payload_id_hex :: "nat \<Rightarrow> bytes \<Rightarrow> string" where
  "path_invariant_payload_id_hex nibble inner = crc_hex (path_invariant_payload_id nibble inner)"

fun bytes_equal :: "bytes \<Rightarrow> bytes \<Rightarrow> bool" where
  "bytes_equal (a # as) (b # bs) = (if a \<noteq> b then False else bytes_equal as bs)"
| "bytes_equal _ _ = True"

definition path_invariant_payload_ids_equal :: "payload_id \<Rightarrow> payload_id \<Rightarrow> bool" where
  "path_invariant_payload_ids_equal a b =
     (if crc_hex a \<noteq> crc_hex b then False
      else if payload_type_nibble_of a \<noteq> payload_type_nibble_of b then False
      else if length (inner_payload a) \<noteq> length (inner_payload b) then False
      else bytes_equal (inner_payload a) (inner_payload b))"

subsection \<open>The ADVERT payload\<close>

record advert_parsed =
  public_key :: bytes
  timestamp_sec :: nat
  signature :: bytes
  flags :: nat
  device_role :: nat
  has_location :: bool
  has_name :: bool
  latitude_microdeg :: "int option"
  longitude_microdeg :: "int option"
  advert_name :: code_points

definition read_u32_le :: "bytes \<Rightarrow> nat \<Rightarrow> nat" where
  "read_u32_le u8 i = (case u32_le u8 i of None \<Rightarrow> 0 | Some n \<Rightarrow> n)"

definition read_coordinate_le :: "bytes \<Rightarrow> nat \<Rightarrow> int option" where
  "read_coordinate_le u8 i = map_option (to_signed 32) (u32_le u8 i)"

definition utf8_slice :: "bytes \<Rightarrow> nat \<Rightarrow> code_points" where
  "utf8_slice u8 start =
     (if start \<ge> length u8 then []
      else text_trim (strip_trailing_nul (utf8_decode (drop start u8))))"

definition parse_advert_inner :: "bytes \<Rightarrow> advert_parsed option" where
  "parse_advert_inner inner =
     (if length inner < 32 + 4 + 64 + 1 then None
      else case at_opt inner 100 of
        None \<Rightarrow> None
      | Some fl \<Rightarrow>
         (let loc = unat (drop_bit 4 fl AND 1) = 1;
              nm = unat (drop_bit 7 fl AND 1) = 1;
              off = 101 + (if loc then 8 else 0)
          in Some \<lparr>public_key = subarray inner 0 32, timestamp_sec = read_u32_le inner 32,
                   signature = subarray inner 36 100, flags = unat fl,
                   device_role = unat (fl AND 0x0f), has_location = loc, has_name = nm,
                   latitude_microdeg = (if loc then read_coordinate_le inner 101 else None),
                   longitude_microdeg = (if loc then read_coordinate_le inner (101 + 4) else None),
                   advert_name = (if nm \<and> off < length inner then utf8_slice inner off else [])\<rparr>))"

subsection \<open>The segments of a packet\<close>

record packet_segment =
  seg_name :: string
  start_byte :: int
  end_byte :: int
  value_hex :: "string option"
  description :: "string option"

record structure_analysis =
  message_fingerprint_hex :: string
  sa_route_type :: string
  sa_payload_type :: string
  sa_transport_codes :: "(nat \<times> nat) option"
  segments :: "packet_segment list"
  payload_segments :: "packet_segment list"

definition hex_byte :: "byte \<Rightarrow> string" where
  "hex_byte b = pad_start 2 (CHR ''0'') (hex_string (unat b))"

definition transport_segments :: "nat \<times> nat \<Rightarrow> packet_segment list" where
  "transport_segments codes =
     [\<lparr>seg_name = ''Transport scope'', start_byte = 1, end_byte = 2,
       value_hex = Some (pad_start 4 (CHR ''0'') (hex_string (fst codes))),
       description = Some (''uint16 LE = '' @ dec_string (fst codes))\<rparr>,
      \<lparr>seg_name = ''Transport return'', start_byte = 3, end_byte = 4,
       value_hex = Some (pad_start 4 (CHR ''0'') (hex_string (snd codes))),
       description = Some (''uint16 LE = '' @ dec_string (snd codes))\<rparr>]"

definition build_structure :: "bytes \<Rightarrow> nat \<Rightarrow> (nat \<times> nat) option \<Rightarrow> structure_analysis option" where
  "build_structure raw path_end codes =
     (case at_opt raw 0 of
        None \<Rightarrow> None
      | Some byte0 \<Rightarrow>
         (let off = (case codes of None \<Rightarrow> 1 | Some _ \<Rightarrow> 5) in
          case at_opt raw off of
            None \<Rightarrow> None
          | Some path_length_byte \<Rightarrow>
              Some \<lparr>message_fingerprint_hex = packet_fingerprint_hex raw,
                sa_route_type = route_type_string byte0,
                sa_payload_type = payload_type_string byte0,
                sa_transport_codes = codes,
                segments =
                  [\<lparr>seg_name = ''Header'', start_byte = 0, end_byte = 0,
                    value_hex = Some (hex_byte byte0), description = None\<rparr>]
                  @ (case codes of None \<Rightarrow> [] | Some cs \<Rightarrow> transport_segments cs)
                  @ [\<lparr>seg_name = ''Path length + hash size'', start_byte = int off, end_byte = int off,
                      value_hex = Some (hex_byte path_length_byte), description = None\<rparr>,
                     \<lparr>seg_name = ''Path hashes'', start_byte = int off + 1, end_byte = int path_end - 1,
                      value_hex = None, description = None\<rparr>,
                     \<lparr>seg_name = ''Inner payload'', start_byte = int path_end,
                      end_byte = max (int path_end) (int (length raw) - 1),
                      value_hex = None, description = None\<rparr>],
                payload_segments =
                  (let inner = drop path_end raw in
                   if length inner > 0 then
                     [\<lparr>seg_name = ''Payload bytes'', start_byte = int path_end,
                       end_byte = int (length raw) - 1, value_hex = Some [],
                       description = Some (dec_string (length inner) @ '' bytes'')\<rparr>]
                   else [])\<rparr>))"

subsection \<open>The whole packet\<close>

datatype parse_reason = BufferTooShort | PathPrefixError path_error

record rf_parse_ok =
  ok_route_type :: string
  ok_payload_type :: string
  ok_payload_nibble :: nat
  ok_hop_count :: nat
  ok_path_end :: nat
  ok_inner :: bytes
  ok_path_bytes :: bytes
  ok_hash_size :: nat
  ok_transport_codes :: "(nat \<times> nat) option"
  ok_fingerprint :: string
  ok_advert :: "advert_parsed option"
  ok_structure :: structure_analysis

text \<open>\<open>None\<close> is an exception that leaves the function; \<open>Inl\<close> is \<^verbatim>\<open>{ ok: false, reason }\<close>.\<close>

definition parse_rf_packet :: "bytes \<Rightarrow> (parse_reason + rf_parse_ok) option" where
  "parse_rf_packet raw =
     (if length raw < 2 then Some (Inl BufferTooShort)
      else case decode_path_prefix raw of
        Inl e \<Rightarrow> Some (Inl (PathPrefixError e))
      | Inr p \<Rightarrow>
         (case at_opt raw 0 of
            None \<Rightarrow> Some (Inl BufferTooShort)
          | Some byte0 \<Rightarrow>
             (let nibble = payload_type_nibble byte0;
                  inner = drop (path_end_offset p) raw;
                  advert = (if nibble = MESHCORE_PAYLOAD_TYPE_ADVERT_NIBBLE \<and> length inner > 0
                            then parse_advert_inner inner else None)
              in case build_structure raw (path_end_offset p) (transport_codes p) of
                   None \<Rightarrow> None
                 | Some structure \<Rightarrow>
                     Some (Inr \<lparr>ok_route_type = route_type_string byte0,
                       ok_payload_type = payload_type_string byte0,
                       ok_payload_nibble = nibble, ok_hop_count = hops p,
                       ok_path_end = path_end_offset p, ok_inner = inner, ok_path_bytes = path p,
                       ok_hash_size = hash_size_bytes p, ok_transport_codes = transport_codes p,
                       ok_fingerprint = message_fingerprint_hex structure,
                       ok_advert = advert, ok_structure = structure\<rparr>))))"

definition analyze_packet_structure :: "bytes \<Rightarrow> structure_analysis option option" where
  "analyze_packet_structure raw = map_option (\<lambda>r. case r of
     Inl _ \<Rightarrow> None | Inr p \<Rightarrow> Some (ok_structure p)) (parse_rf_packet raw)"

subsection \<open>Region transport codes\<close>

definition region_key_from_name :: "(bytes \<Rightarrow> bytes) \<Rightarrow> code_points \<Rightarrow> bytes" where
  "region_key_from_name sha256 name = subarray (sha256 (utf8_encode name)) 0 16"

definition transport_code_for_region ::
    "(bytes \<Rightarrow> bytes) \<Rightarrow> (bytes \<Rightarrow> bytes \<Rightarrow> bytes) \<Rightarrow> code_points \<Rightarrow> nat \<Rightarrow> bytes \<Rightarrow> nat" where
  "transport_code_for_region sha256 hmac name nibble payload =
     (let key = region_key_from_name sha256 name;
          type_byte = byte_of (nibble * 4 mod 256) AND MESHCORE_TYPE_MASK;
          sig = hmac key (type_byte # payload);
          low = (case at_opt sig 0 of None \<Rightarrow> 0 | Some b \<Rightarrow> unat b);
          high = (case at_opt sig 1 of None \<Rightarrow> 0 | Some b \<Rightarrow> unat b)
      in low + 256 * high)"

definition transport_code_matches_region ::
    "(bytes \<Rightarrow> bytes) \<Rightarrow> (bytes \<Rightarrow> bytes \<Rightarrow> bytes) \<Rightarrow> code_points \<Rightarrow> nat \<Rightarrow> bytes \<Rightarrow> nat \<Rightarrow> bool" where
  "transport_code_matches_region sha256 hmac name nibble inner scope \<longleftrightarrow>
     transport_code_for_region sha256 hmac name nibble inner = scope"

subsection \<open>The parser never throws, and accepts the documented format\<close>

lemma transport_codes_of_decode:
  assumes "decode_path_prefix raw = Inr p"
  shows "(case transport_codes p of None \<Rightarrow> 1 | Some _ \<Rightarrow> 5) < length raw"
proof -
  from layout_of_decode [OF assms] obtain header codes len_byte hashes inner
    where L: "path_layout raw header codes len_byte hashes inner" by blast
  from decode_path_prefix_of_layout [OF L] assms have "transport_codes p = codes_value codes" by simp
  moreover have "codes = [] \<or> length codes = 4" and "1 + length codes < length raw"
    using L by (auto simp: path_layout_def split: if_splits)
  moreover have "length codes = 4 \<Longrightarrow> codes_value codes \<noteq> None"
    by (subst list_eq_4) (simp_all add: codes_value_def)
  ultimately show ?thesis by (auto simp: codes_value_def)
qed

lemma build_structure_of_decode:
  assumes "decode_path_prefix raw = Inr p"
  shows "build_structure raw (path_end_offset p) (transport_codes p) \<noteq> None"
proof -
  have "0 < length raw" using transport_codes_of_decode [OF assms] by linarith
  with transport_codes_of_decode [OF assms] show ?thesis
    by (auto simp: build_structure_def split: option.splits)
qed

lemma parse_rf_packet_ok:
  assumes "decode_path_prefix raw = Inr p"
  shows "\<exists>r. parse_rf_packet raw = Some (Inr r) \<and> ok_hop_count r = hops p
     \<and> ok_path_bytes r = path p \<and> ok_inner r = drop (path_end_offset p) raw
     \<and> ok_path_end r = path_end_offset p \<and> ok_hash_size r = hash_size_bytes p
     \<and> ok_transport_codes r = transport_codes p
     \<and> ok_payload_nibble r = payload_type_nibble (hd raw)
     \<and> ok_fingerprint r = packet_fingerprint_hex raw
     \<and> build_structure raw (path_end_offset p) (transport_codes p) = Some (ok_structure r)"
proof -
  have len: "2 \<le> length raw" using assms by (auto simp: decode_path_prefix_def split: if_splits)
  then have "raw \<noteq> []" by auto
  then have hd: "at_opt raw 0 = Some (hd raw)" by (simp add: hd_conv_nth at_opt_def)
  from build_structure_of_decode [OF assms] obtain st
    where st: "build_structure raw (path_end_offset p) (transport_codes p) = Some st" by blast
  then have "message_fingerprint_hex st = packet_fingerprint_hex raw"
    by (auto simp: build_structure_def Let_def split: option.splits)
  with st len hd assms show ?thesis by (simp add: parse_rf_packet_def Let_def)
qed

lemma parse_rf_packet_cases:
  "parse_rf_packet raw = Some (Inl BufferTooShort) \<and> length raw < 2
   \<or> (\<exists>e. decode_path_prefix raw = Inl e \<and> 2 \<le> length raw
        \<and> parse_rf_packet raw = Some (Inl (PathPrefixError e)))
   \<or> (\<exists>p r. decode_path_prefix raw = Inr p \<and> parse_rf_packet raw = Some (Inr r))"
proof (cases "length raw < 2")
  case True
  then show ?thesis by (simp add: parse_rf_packet_def)
next
  case False
  show ?thesis
  proof (cases "decode_path_prefix raw")
    case (Inl e)
    with False show ?thesis by (simp add: parse_rf_packet_def)
  next
    case (Inr p)
    with parse_rf_packet_ok [OF Inr] show ?thesis by blast
  qed
qed

lemma parse_rf_packet_of_layout:
  assumes "path_layout raw header codes len_byte hashes inner"
  shows "\<exists>r. parse_rf_packet raw = Some (Inr r) \<and> ok_path_bytes r = hashes \<and> ok_inner r = inner
           \<and> ok_payload_nibble r = payload_type_nibble header
           \<and> ok_hop_count r = path_len_hops len_byte
           \<and> ok_hash_size r = path_len_hash_size len_byte
           \<and> ok_transport_codes r = codes_value codes
           \<and> ok_fingerprint r = packet_fingerprint_hex raw"
proof -
  from layout_nth_off(3) [OF assms] have "drop (2 + length codes + length hashes) raw = inner"
    by (metis append_eq_conv_conj drop_drop add.commute)
  moreover have "hd raw = header" using assms by (simp add: path_layout_def)
  ultimately show ?thesis
    using parse_rf_packet_ok [OF decode_path_prefix_of_layout [OF assms]] by auto
qed

lemma parse_rf_packet_of_decode:
  assumes "decode_path_prefix raw = Inr p"
  shows "\<exists>r header codes len_byte hashes inner. parse_rf_packet raw = Some (Inr r)
           \<and> path_layout raw header codes len_byte hashes inner
           \<and> ok_path_bytes r = hashes \<and> ok_inner r = inner
           \<and> ok_payload_nibble r = payload_type_nibble header
           \<and> ok_hop_count r = path_len_hops len_byte
           \<and> ok_hash_size r = path_len_hash_size len_byte
           \<and> ok_transport_codes r = codes_value codes
           \<and> ok_fingerprint r = packet_fingerprint_hex raw"
proof -
  from layout_of_decode [OF assms] obtain header codes len_byte hashes inner
    where L: "path_layout raw header codes len_byte hashes inner" by blast
  from parse_rf_packet_of_layout [OF L] L show ?thesis by blast
qed

text \<open>
  C4: \<^verbatim>\<open>parseMeshCoreRfPacket\<close> never throws, whatever the bytes, and it succeeds exactly on the
  packets of the documented format; then its path bytes, its inner payload, its hash size and its
  fingerprint are those of the packet.
\<close>

theorem parse_rf_packet_total:
  "(case parse_rf_packet raw of
      None \<Rightarrow> False
    | Some (Inl _) \<Rightarrow> (\<nexists>header codes len_byte hashes inner. path_layout raw header codes len_byte hashes inner)
    | Some (Inr r) \<Rightarrow>
        (\<exists>header codes len_byte hashes inner.
           path_layout raw header codes len_byte hashes inner
           \<and> ok_path_bytes r = hashes \<and> ok_inner r = inner
           \<and> ok_payload_nibble r = payload_type_nibble header
           \<and> ok_hop_count r = path_len_hops len_byte
           \<and> ok_hash_size r = path_len_hash_size len_byte
           \<and> ok_transport_codes r = codes_value codes
           \<and> ok_fingerprint r = packet_fingerprint_hex raw))"
proof (cases "\<exists>p. decode_path_prefix raw = Inr p")
  case True
  then obtain p where p: "decode_path_prefix raw = Inr p" by blast
  from parse_rf_packet_of_decode [OF p] obtain r where r: "parse_rf_packet raw = Some (Inr r)"
    and "\<exists>header codes len_byte hashes inner.
           path_layout raw header codes len_byte hashes inner
           \<and> ok_path_bytes r = hashes \<and> ok_inner r = inner
           \<and> ok_payload_nibble r = payload_type_nibble header
           \<and> ok_hop_count r = path_len_hops len_byte
           \<and> ok_hash_size r = path_len_hash_size len_byte
           \<and> ok_transport_codes r = codes_value codes
           \<and> ok_fingerprint r = packet_fingerprint_hex raw" by blast
  then show ?thesis by (simp only: r option.case sum.case)
next
  case False
  then have "\<nexists>header codes len_byte hashes inner. path_layout raw header codes len_byte hashes inner"
    using decode_path_prefix_of_layout by blast
  moreover obtain e where "parse_rf_packet raw = Some (Inl e)"
    using False parse_rf_packet_cases [of raw] by blast
  ultimately show ?thesis by simp
qed

subsection \<open>The segments tile the packet\<close>

text \<open>Each segment starts where the previous one ended.\<close>

fun segments_chain :: "int \<Rightarrow> packet_segment list \<Rightarrow> bool" where
  "segments_chain start [] = True"
| "segments_chain start (s # ss) = (start_byte s = start \<and> segments_chain (end_byte s + 1) ss)"

lemma structure_of_parse:
  assumes "parse_rf_packet raw = Some (Inr r)"
  shows "\<exists>p. decode_path_prefix raw = Inr p
     \<and> build_structure raw (path_end_offset p) (transport_codes p) = Some (ok_structure r)
     \<and> ok_inner r = drop (path_end_offset p) raw \<and> path_end_offset p \<le> length raw"
proof -
  from assms obtain p where p: "decode_path_prefix raw = Inr p"
    using parse_rf_packet_cases [of raw] by auto
  with parse_rf_packet_ok [OF p] assms decode_path_prefix_facts(5) [OF p] show ?thesis by auto
qed

text \<open>
  C5: the segments that the packet inspector shows of a parsed packet start at byte 0 and each starts
  right after the previous one ends, for every packet that parses. With a payload the last segment ends
  at the last byte of the packet and the payload detail covers exactly the payload. Without a payload
  there is no payload detail and the last segment, which cannot be empty, ends one byte behind the packet.
\<close>

theorem structure_segments_tile:
  assumes "parse_rf_packet raw = Some (Inr r)"
  shows "segments_chain 0 (segments (ok_structure r))
     \<and> end_byte (last (segments (ok_structure r))) = (if ok_inner r = [] then int (length raw) else int (length raw) - 1)
     \<and> map (\<lambda>s. (start_byte s, end_byte s)) (payload_segments (ok_structure r))
         = (if ok_inner r = [] then [] else [(int (length raw) - int (length (ok_inner r)), int (length raw) - 1)])"
proof -
  from structure_of_parse [OF assms(1)] obtain p :: path_prefix
    where st: "build_structure raw (path_end_offset p) (transport_codes p) = Some (ok_structure r)"
      and i: "ok_inner r = drop (path_end_offset p) raw" and le: "path_end_offset p \<le> length raw"
    by blast
  show ?thesis
  proof (cases "ok_inner r = []")
    case True
    then have "path_end_offset p = length raw" using i le by simp
    with st i True show ?thesis
      by (auto simp: build_structure_def Let_def transport_segments_def split: option.splits
          dest!: sym [of _ "ok_structure r"])
  next
    case False
    then have "path_end_offset p < length raw" using i by auto
    with st i False show ?thesis
      by (auto simp: build_structure_def Let_def transport_segments_def split: option.splits
          dest!: sym [of _ "ok_structure r"])
  qed
qed

lemma structure_segments_tile_witness:
  "let raw = [0x15, 0x01, 0xab, 7, 8]; r = the (case parse_rf_packet raw of Some (Inr r) \<Rightarrow> Some r | _ \<Rightarrow> None)
   in parse_rf_packet raw = Some (Inr r) \<and> ok_inner r = [7, 8]
      \<and> segments_chain 0 (segments (ok_structure r)) \<and> end_byte (last (segments (ok_structure r))) = 4"
proof -
  obtain r where r: "parse_rf_packet [0x15, 0x01, 0xab, 7, 8] = Some (Inr r)" and i: "ok_inner r = [7, 8]"
    using parse_rf_packet_of_layout [of "[0x15, 0x01, 0xab, 7, 8]" "0x15" "[]" "0x01" "[0xab]" "[7, 8]"]
    by (auto simp: path_layout_def has_transport_codes_def path_consts path_len_hops_def path_len_hash_size_def)
  with structure_segments_tile [OF r] show ?thesis by simp
qed

subsection \<open>The fingerprint detects every single-byte change\<close>

lemma crc_bit_cases: "crc_bit c = drop_bit 1 c XOR (if odd c then 0xedb88320 else 0)"
  by (simp add: crc_bit_def and_one_eq odd_iff_mod_2_eq_one [symmetric] mod_2_eq_odd)

lemma crc_bit_top: "bit (crc_bit c) 31 \<longleftrightarrow> odd c"
proof -
  have "\<not> bit (drop_bit 1 c) 31" using bit_imp_le_length [of c 32] by (auto simp: bit_simps)
  moreover have "bit (0xedb88320 :: 32 word) 31" by simp
  ultimately show ?thesis by (simp add: crc_bit_cases bit_simps)
qed

lemma crc_bit_inject: "crc_bit c = crc_bit d \<Longrightarrow> c = d"
proof -
  assume eq: "crc_bit c = crc_bit d"
  then have odd: "odd c \<longleftrightarrow> odd d" using crc_bit_top by metis
  with eq have half: "drop_bit 1 c = drop_bit 1 d"
    unfolding crc_bit_cases by (simp only: xor_cancel)
  show "c = d"
  proof (rule bit_eqI)
    fix n show "bit c n = bit d n"
    proof (cases n)
      case 0
      then show ?thesis using odd by (simp add: bit_0)
    next
      case (Suc m)
      have "bit (drop_bit 1 c) m = bit (drop_bit 1 d) m" by (simp only: half)
      then show ?thesis by (simp add: Suc bit_drop_bit_eq)
    qed
  qed
qed

lemma crc_bits_inject: "(crc_bit ^^ k) c = (crc_bit ^^ k) d \<Longrightarrow> c = d"
  by (induction k) (auto dest: crc_bit_inject)

lemma crc_byte_inject_state: "crc_byte b c = crc_byte b d \<Longrightarrow> c = d"
  unfolding crc_byte_def by (drule crc_bits_inject) (simp only: xor_cancel)

lemma crc_byte_inject_byte: "crc_byte a c = crc_byte b c \<Longrightarrow> a = b"
proof -
  assume "crc_byte a c = crc_byte b c"
  then have "c XOR ucast a = c XOR ucast b" unfolding crc_byte_def by (rule crc_bits_inject)
  then have "(ucast a :: 32 word) = ucast b" by (simp only: xor_cancel)
  then have u: "unat (ucast a :: 32 word) = unat (ucast b :: 32 word)" by simp
  have "unat (ucast x :: 32 word) = unat x" for x :: byte
    using order_less_trans [OF unat_byte_less [of x], of 4294967296]
    by (simp add: unsigned_ucast_eq take_bit_eq_mod)
  with u show "a = b" by (simp add: word_unat_eq_iff)
qed

lemma fold_crc_inject: "fold crc_byte bs c = fold crc_byte bs d \<Longrightarrow> c = d"
  by (induction bs arbitrary: c d) (auto dest: crc_byte_inject_state)

lemma code_upper_hex_digit: "n < 16 \<Longrightarrow> code (upper_hex_digit n) = (if n < 10 then 48 + n else 55 + n)"
  by (simp add: upper_hex_digit_def)

lemma upper_hex_digit_inject: "m < 16 \<Longrightarrow> n < 16 \<Longrightarrow> upper_hex_digit m = upper_hex_digit n \<Longrightarrow> m = n"
  by (drule arg_cong [of _ _ code]) (simp only: code_upper_hex_digit split: if_splits)

lemma upper_hex_inject:
  "m < 16 ^ k \<Longrightarrow> n < 16 ^ k \<Longrightarrow> upper_hex k m = upper_hex k n \<Longrightarrow> m = n"
proof (induction k arbitrary: m n)
  case (Suc k)
  have "m div 16 = n div 16" using Suc by (intro Suc.IH) auto
  moreover have "m mod 16 = n mod 16"
    using Suc.prems(3) by (intro upper_hex_digit_inject) auto
  ultimately show ?case by (metis mult_div_mod_eq)
qed simp

lemma packet_fingerprint_inject:
  "packet_fingerprint_hex xs = packet_fingerprint_hex ys
   \<Longrightarrow> fold crc_byte xs 0xffffffff = fold crc_byte ys 0xffffffff"
proof -
  let ?c = "fold crc_byte xs 0xffffffff" and ?d = "fold crc_byte ys 0xffffffff"
  assume "packet_fingerprint_hex xs = packet_fingerprint_hex ys"
  then have h: "upper_hex 8 (unat (?c XOR 0xffffffff)) = upper_hex 8 (unat (?d XOR 0xffffffff))"
    by (simp only: packet_fingerprint_hex_def)
  have b: "unat (w :: 32 word) < 16 ^ 8" for w
    using unsigned_less [of w] by simp
  from upper_hex_inject [OF b b h] have "?c XOR 0xffffffff = ?d XOR 0xffffffff"
    by (simp only: word_unat_eq_iff)
  then show "?c = ?d" by (simp only: xor_cancel)
qed

text \<open>
  C6: two packets that differ in exactly one byte have different fingerprints, at any position and
  for any length: no single-byte corruption of a packet keeps its CRC-32.
\<close>

theorem fingerprint_single_byte_change:
  "packet_fingerprint_hex (pre @ a # post) = packet_fingerprint_hex (pre @ b # post) \<longleftrightarrow> a = b"
proof
  assume "packet_fingerprint_hex (pre @ a # post) = packet_fingerprint_hex (pre @ b # post)"
  from packet_fingerprint_inject [OF this]
  have "fold crc_byte post (crc_byte a (fold crc_byte pre 0xffffffff))
      = fold crc_byte post (crc_byte b (fold crc_byte pre 0xffffffff))" by simp
  then show "a = b" by (intro crc_byte_inject_byte) (rule fold_crc_inject)
qed simp

subsection \<open>Identities of packets\<close>

lemma payload_type_nibble_less: "payload_type_nibble h < 16"
proof -
  have m: "(15 :: byte) = mask 4" by (simp add: mask_eq_decr_exp)
  have "payload_type_nibble h = unat (drop_bit 2 h AND 15)"
    by (simp add: payload_type_nibble_def path_consts)
  then show ?thesis by (simp only: m unat_and_mask) simp
qed

lemma bytes_equal_iff: "length as = length bs \<Longrightarrow> bytes_equal as bs \<longleftrightarrow> as = bs"
  by (induction as bs rule: list_induct2) auto

lemma path_invariant_ids_equal_iff:
  "path_invariant_payload_ids_equal (path_invariant_payload_id t p) (path_invariant_payload_id u q)
   \<longleftrightarrow> t mod 16 = u mod 16 \<and> p = q"
  by (auto simp: path_invariant_payload_ids_equal_def path_invariant_payload_id_def Let_def bytes_equal_iff)

text \<open>The identity the listeners compute from a received packet.\<close>

definition id_of_parse :: "rf_parse_ok \<Rightarrow> payload_id" where
  "id_of_parse r = path_invariant_payload_id (ok_payload_nibble r) (ok_inner r)"

text \<open>
  C7: two received packets have equal path-invariant identities exactly when their payload types
  and inner payloads agree, whatever their routes, transport codes and paths; in particular a
  collision of the CRC-32 never identifies two different payloads, and a rebroadcast with a longer
  path is recognised.
\<close>

theorem path_invariant_identity:
  assumes "path_layout raw1 h1 codes1 len1 hashes1 inner1" and "path_layout raw2 h2 codes2 len2 hashes2 inner2"
  shows "\<exists>r1 r2. parse_rf_packet raw1 = Some (Inr r1) \<and> parse_rf_packet raw2 = Some (Inr r2)
     \<and> (path_invariant_payload_ids_equal (id_of_parse r1) (id_of_parse r2)
        \<longleftrightarrow> payload_type_nibble h1 = payload_type_nibble h2 \<and> inner1 = inner2)"
proof -
  have nib: "payload_type_nibble h mod 16 = payload_type_nibble h" for h
    by (simp add: payload_type_nibble_less)
  from parse_rf_packet_of_layout [OF assms(1)] parse_rf_packet_of_layout [OF assms(2)]
  obtain r1 r2 where "parse_rf_packet raw1 = Some (Inr r1)" "parse_rf_packet raw2 = Some (Inr r2)"
    "ok_inner r1 = inner1" "ok_inner r2 = inner2"
    "ok_payload_nibble r1 = payload_type_nibble h1" "ok_payload_nibble r2 = payload_type_nibble h2"
    by blast
  then show ?thesis
    by (intro exI [of _ r1] exI [of _ r2])
       (simp add: id_of_parse_def path_invariant_ids_equal_iff nib)
qed

lemma path_invariant_identity_witness:
  "\<exists>r1 r2. parse_rf_packet [0x15, 0x00, 7, 8] = Some (Inr r1)
     \<and> parse_rf_packet [0x15, 0x01, 0xab, 7, 8] = Some (Inr r2)
     \<and> path_invariant_payload_ids_equal (id_of_parse r1) (id_of_parse r2)"
  using path_invariant_identity [of "[0x15, 0x00, 7, 8]" "0x15" "[]" "0x00" "[]" "[7, 8]"
      "[0x15, 0x01, 0xab, 7, 8]" "0x15" "[]" "0x01" "[0xab]" "[7, 8]"]
  by (simp add: path_layout_def has_transport_codes_def path_consts path_len_hops_def path_len_hash_size_def)

end
