(* ===== verification/Group_Text.thy ===== *)
theory Group_Text
  imports Utf8
begin

text \<open>
  The codec of MeshCore channel messages (\<^verbatim>\<open>src/shared/meshcoreGroupText.ts\<close>):
  channel hash, two bytes of MAC, then the ciphertext of the zero-padded plaintext. SHA-256, HMAC
  and AES-ECB are the third-party libraries' and are collected in a record of functions; what the
  round trip relies on, that they keep lengths and that decryption inverts encryption, is a
  hypothesis there. An exception of \<^verbatim>\<open>new DataView\<close> is the result \<open>GtThrow\<close>.
\<close>

record crypto =
  sha256 :: "bytes \<Rightarrow> bytes"
  hmac :: "bytes \<Rightarrow> bytes \<Rightarrow> bytes"
  ecb_encrypt :: "bytes \<Rightarrow> bytes \<Rightarrow> bytes"
  ecb_decrypt :: "bytes \<Rightarrow> bytes \<Rightarrow> bytes"

record group_text_decoded =
  gt_timestamp_sec :: nat
  gt_flags :: nat
  gt_text :: code_points

datatype group_text_result = GtNull | GtThrow | GtDecoded group_text_decoded

definition AES_BLOCK :: nat where "AES_BLOCK = 16"
definition MAC_SIZE :: nat where "MAC_SIZE = 2"
definition HMAC_KEY_SIZE :: nat where "HMAC_KEY_SIZE = 32"
definition CHANNEL_SECRET_SIZE :: nat where "CHANNEL_SECRET_SIZE = 16"
definition PLAINTEXT_HEADER_SIZE :: nat where "PLAINTEXT_HEADER_SIZE = 5"

lemmas group_text_consts = AES_BLOCK_def MAC_SIZE_def HMAC_KEY_SIZE_def CHANNEL_SECRET_SIZE_def
  PLAINTEXT_HEADER_SIZE_def

definition hmac_key :: "bytes \<Rightarrow> bytes" where
  "hmac_key secret = (let k = subarray secret 0 (min (length secret) HMAC_KEY_SIZE)
     in k @ replicate (HMAC_KEY_SIZE - length k) 0)"

definition mac_for :: "crypto \<Rightarrow> bytes \<Rightarrow> bytes \<Rightarrow> bytes" where
  "mac_for cr secret ciphertext = subarray (hmac cr (hmac_key secret) ciphertext) 0 MAC_SIZE"

definition channel_hash :: "crypto \<Rightarrow> bytes \<Rightarrow> byte" where
  "channel_hash cr secret = (case at_opt (sha256 cr secret) 0 of None \<Rightarrow> 0 | Some b \<Rightarrow> b)"

text \<open>\<^verbatim>\<open>while (end > 5 && plain[end - 1] === 0) end--\<close>\<close>

fun trim_end :: "bytes \<Rightarrow> nat \<Rightarrow> nat" where
  "trim_end plain 0 = 0"
| "trim_end plain (Suc n) =
     (if PLAINTEXT_HEADER_SIZE < Suc n \<and> at_opt plain n = Some 0 then trim_end plain n else Suc n)"

definition decode_group_text :: "crypto \<Rightarrow> bytes \<Rightarrow> bytes \<Rightarrow> group_text_result" where
  "decode_group_text cr secret inner =
     (if length secret \<noteq> CHANNEL_SECRET_SIZE then GtNull
      else let cipher_len = int (length inner) - 1 - int MAC_SIZE in
      if cipher_len < int AES_BLOCK \<or> cipher_len mod int AES_BLOCK \<noteq> 0 then GtNull
      else if at_opt inner 0 \<noteq> Some (channel_hash cr secret) then GtNull
      else let mac = subarray inner 1 (1 + MAC_SIZE);
               ciphertext = drop (1 + MAC_SIZE) inner;
               expected = mac_for cr secret ciphertext in
      if at_opt mac 0 \<noteq> at_opt expected 0 \<or> at_opt mac 1 \<noteq> at_opt expected 1 then GtNull
      else let plain = ecb_decrypt cr secret ciphertext in
      if length plain < PLAINTEXT_HEADER_SIZE then GtThrow
      else case (u32_le plain 0, at_opt plain 4) of
        (Some ts, Some fl) \<Rightarrow>
          GtDecoded \<lparr>gt_timestamp_sec = ts, gt_flags = unat fl,
            gt_text = utf8_decode (subarray plain PLAINTEXT_HEADER_SIZE (trim_end plain (length plain)))\<rparr>
      | _ \<Rightarrow> GtThrow)"

definition plain_of :: "int \<Rightarrow> code_points \<Rightarrow> int \<Rightarrow> bytes" where
  "plain_of ts message fl =
     (let body = utf8_encode message;
          raw_len = PLAINTEXT_HEADER_SIZE + length body;
          total = (raw_len + AES_BLOCK - 1) div AES_BLOCK * AES_BLOCK;
          t = nat (ts mod 4294967296)
      in [byte_of (t mod 256), byte_of (t div 256 mod 256), byte_of (t div 65536 mod 256),
          byte_of (t div 16777216 mod 256), byte_of (nat (fl mod 256))]
         @ body @ replicate (total - raw_len) 0)"

definition encode_group_text :: "crypto \<Rightarrow> bytes \<Rightarrow> int \<Rightarrow> code_points \<Rightarrow> int \<Rightarrow> bytes" where
  "encode_group_text cr secret ts message fl =
     (let ciphertext = ecb_encrypt cr secret (plain_of ts message fl);
          mac = mac_for cr secret ciphertext
      in channel_hash cr secret # mac @ replicate (MAC_SIZE - length mac) 0 @ ciphertext)"

lemma decode_group_text_unfold:
  "decode_group_text cr secret inner =
     (if length secret \<noteq> 16 then GtNull
      else if int (length inner) - 3 < 16 \<or> (int (length inner) - 3) mod 16 \<noteq> 0 then GtNull
      else if at_opt inner 0 \<noteq> Some (channel_hash cr secret) then GtNull
      else if at_opt (subarray inner 1 3) 0 \<noteq> at_opt (mac_for cr secret (drop 3 inner)) 0
        \<or> at_opt (subarray inner 1 3) 1 \<noteq> at_opt (mac_for cr secret (drop 3 inner)) 1 then GtNull
      else let plain = ecb_decrypt cr secret (drop 3 inner) in
      if length plain < 5 then GtThrow
      else case (u32_le plain 0, at_opt plain 4) of
        (Some ts, Some fl) \<Rightarrow>
          GtDecoded \<lparr>gt_timestamp_sec = ts, gt_flags = unat fl,
            gt_text = utf8_decode (subarray plain 5 (trim_end plain (length plain)))\<rparr>
      | _ \<Rightarrow> GtThrow)"
proof -
  have "1 + 2 = (3 :: nat)" and "int (length inner) - 1 - int 2 = int (length inner) - 3" and "int 16 = 16"
    by simp_all
  then show ?thesis by (simp only: decode_group_text_def Let_def group_text_consts)
qed

lemma length_minus_3_mod_16: "3 \<le> n \<Longrightarrow> (int n - 3) mod 16 = 0 \<longleftrightarrow> (n - 3) mod 16 = 0"
  by presburger

subsection \<open>The plaintext\<close>

lemma utf8_encode_last_nonzero:
  assumes "t \<noteq> []" and "last t \<noteq> 0"
  shows "utf8_encode t \<noteq> [] \<and> last (utf8_encode t) \<noteq> 0"
proof -
  let ?f = "\<lambda>n. utf8_encode_point (if is_scalar n then n else 0xFFFD)"
  have byte0: "byte_of k = 0 \<longleftrightarrow> k = 0" if "k < 256" for k
    using that by (metis unat_byte_of unsigned_0 byte_of_unat)
  have cont: "128 + n mod 64 < (256 :: nat)" for n
    using mod_less_divisor [of 64 n] by linarith
  have pt: "utf8_encode_point n \<noteq> [] \<and> last (utf8_encode_point n) \<noteq> 0" if "0 < n" for n
    using that by (auto simp: utf8_encode_point_def byte0 cont)
  have e: "utf8_encode t = utf8_encode (butlast t) @ ?f (last t)"
    using assms(1) by (induction t) (auto simp: utf8_encode_def)
  have "0 < (if is_scalar (last t) then last t else 0xFFFD)" using assms(2) by simp
  from pt [OF this] show ?thesis unfolding e by simp
qed

lemma trim_end_zeros:
  assumes "length hd5 = 5" and "body = [] \<or> last body \<noteq> 0"
  shows "trim_end (hd5 @ body @ replicate k 0) (5 + length body + k) = 5 + length body"
proof (induction k)
  case 0
  show ?case
  proof (cases "body = []")
    case True
    then show ?thesis by (simp add: group_text_consts numeral_eq_Suc)
  next
    case False
    then obtain n where n: "length body = Suc n" by (cases body) auto
    have "at_opt (hd5 @ body) (5 + n) = Some (last body)"
      using assms(1) n False by (simp add: at_opt_def nth_append last_conv_nth)
    with assms(2) False have "trim_end (hd5 @ body) (Suc (5 + n)) = Suc (5 + n)"
      by (simp only: trim_end.simps) simp
    then show ?thesis
      by (simp only: n replicate_0 append_Nil2 add_0_right add_Suc_right)
  qed
next
  case (Suc k)
  have a: "at_opt (hd5 @ body @ replicate (Suc k) 0) (5 + length body + k) = Some 0"
    using assms(1) by (simp add: at_opt_def nth_append nth_Cons' del: replicate_Suc)
  have irr: "trim_end (xs @ ys) n = trim_end xs n" if "n \<le> length xs" for xs ys :: bytes and n
    using that by (induction n) (auto simp: at_opt_def nth_append)
  have "trim_end (hd5 @ body @ replicate (Suc k) 0) (5 + length body + k)
      = trim_end ((hd5 @ body @ replicate k 0) @ [0]) (5 + length body + k)"
    by (simp add: replicate_append_same)
  also have "\<dots> = trim_end (hd5 @ body @ replicate k 0) (5 + length body + k)"
    using assms(1) by (intro irr) simp
  finally show ?case using a Suc
    by (simp only: add_Suc_right trim_end.simps) (simp add: group_text_consts)
qed

lemma plain_of_layout:
  "\<exists>k. plain_of ts message fl = take 5 (plain_of ts message fl) @ utf8_encode message @ replicate k 0
     \<and> length (plain_of ts message fl) = 5 + length (utf8_encode message) + k
     \<and> length (plain_of ts message fl) mod 16 = 0 \<and> 16 \<le> length (plain_of ts message fl)"
proof -
  let ?n = "5 + length (utf8_encode message)"
  let ?t = "(?n + 15) div 16 * 16"
  have t: "?n \<le> ?t" by simp
  then have "length (plain_of ts message fl) = ?t"
    by (simp add: plain_of_def Let_def group_text_consts)
  moreover have "16 \<le> ?t" by simp
  ultimately show ?thesis using t
    by (intro exI [of _ "?t - ?n"]) (simp add: plain_of_def Let_def group_text_consts)
qed

lemma plain_of_header:
  "u32_le (plain_of ts message fl) 0 = Some (nat (ts mod 4294967296))
   \<and> at_opt (plain_of ts message fl) 4 = Some (byte_of (nat (fl mod 256)))"
proof -
  define t where "t = nat (ts mod 4294967296)"
  have t: "t < 4294967296" by (simp add: t_def)
  have "plain_of ts message fl = byte_of (t mod 256) # byte_of (t div 256 mod 256)
      # byte_of (t div 65536 mod 256) # byte_of (t div 16777216 mod 256) # byte_of (nat (fl mod 256))
      # drop 5 (plain_of ts message fl)"
    by (simp add: plain_of_def Let_def t_def)
  then show ?thesis
    using base256_digits [OF t] unat_byte_of [of "_ mod 256"] u32_le_Cons4 at_opt_4
    by (metis (no_types, lifting) mod_less_divisor t_def zero_less_numeral)
qed

text \<open>
  C8: a channel message decodes to what was encoded. For a 16-byte secret, a MAC of at least two
  bytes and a cipher that keeps lengths and inverts, encoding a message and decoding the payload with
  the same secret gives the timestamp modulo 2 ^ 32, the flags modulo 256 and the message, provided the
  message is well-formed Unicode, does not end with NUL (padding) and does not start with a byte order
  mark (the decoder strips it).
\<close>

theorem group_text_roundtrip:
  assumes "length secret = 16"
    and "\<And>key msg. 2 \<le> length (hmac cr key msg)"
    and "\<And>m. length m mod 16 = 0 \<Longrightarrow> length (ecb_encrypt cr secret m) = length m"
    and "\<And>m. length m mod 16 = 0 \<Longrightarrow> ecb_decrypt cr secret (ecb_encrypt cr secret m) = m"
    and "\<forall>n \<in> set message. is_scalar n" and "message = [] \<or> last message \<noteq> 0 \<and> hd message \<noteq> 0xFEFF"
  shows "decode_group_text cr secret (encode_group_text cr secret ts message fl)
     = GtDecoded \<lparr>gt_timestamp_sec = nat (ts mod 4294967296), gt_flags = nat (fl mod 256), gt_text = message\<rparr>"
proof -
  define plain where "plain = plain_of ts message fl"
  define c where "c = ecb_encrypt cr secret plain"
  define mac where "mac = mac_for cr secret c"
  obtain k where K: "plain = take 5 plain @ utf8_encode message @ replicate k 0
     \<and> length plain = 5 + length (utf8_encode message) + k \<and> length plain mod 16 = 0 \<and> 16 \<le> length plain"
    unfolding plain_def using plain_of_layout by (rule exE)
  note p = conjunct1 [OF K] and lp = conjunct1 [OF conjunct2 [OF K]]
    and m16 = conjunct1 [OF conjunct2 [OF conjunct2 [OF K]]] conjunct2 [OF conjunct2 [OF conjunct2 [OF K]]]
  have lc: "length c = length plain" unfolding c_def by (rule assms(3) [OF m16(1)])
  have dec: "ecb_decrypt cr secret c = plain" unfolding c_def by (rule assms(4) [OF m16(1)])
  have lm: "length mac = 2" using assms(2) by (simp add: mac_def mac_for_def group_text_consts)
  then obtain m0 m1 where mac: "mac = [m0, m1]" by (auto simp: numeral_2_eq_2 length_Suc_conv)
  have enc: "encode_group_text cr secret ts message fl = channel_hash cr secret # m0 # m1 # c"
    by (simp add: encode_group_text_def Let_def plain_def [symmetric] c_def [symmetric]
        mac_def [symmetric] mac group_text_consts)
  have "utf8_encode message = [] \<or> last (utf8_encode message) \<noteq> 0"
  proof (cases "message = []")
    case True
    then show ?thesis by (simp add: utf8_encode_def)
  next
    case False
    then show ?thesis using utf8_encode_last_nonzero [of message] assms(6) by simp
  qed
  then have te: "trim_end plain (length plain) = 5 + length (utf8_encode message)"
    using trim_end_zeros [of "take 5 plain" "utf8_encode message" k] p lp m16(2) by simp
  have sub: "subarray plain 5 (5 + length (utf8_encode message)) = utf8_encode message"
    using p m16(2) by (metis (no_types, lifting) append_eq_conv_conj append_take_drop_id
        diff_add_inverse subarray_def same_append_eq)
  have dect: "utf8_decode (utf8_encode message) = message"
    using assms(5,6) by (intro utf8_decode_encode) auto
  have fl256: "nat (fl mod 256) < 256" by simp
  define inner where "inner = channel_hash cr secret # m0 # m1 # c"
  have arr: "drop 3 inner = c" "subarray inner 1 3 = mac" "at_opt inner 0 = Some (channel_hash cr secret)"
    and li: "length inner = 3 + length c"
    by (simp_all add: numeral_3_eq_3 subarray_def mac inner_def)
  have len: "(int (length inner) - 3) mod 16 = 0" "\<not> int (length inner) - 3 < 16"
    using m16 lc li length_minus_3_mod_16 [of "length inner"] by simp_all
  show ?thesis
    using plain_of_header [of ts message fl] m16(2) fl256
    by (simp add: enc inner_def [symmetric] decode_group_text_unfold arr len assms(1) te sub dect dec
        mac_def [symmetric] plain_def [symmetric] Let_def del: One_nat_def)
qed

definition toy_crypto :: crypto where
  "toy_crypto = \<lparr>sha256 = (\<lambda>m. [0x42, 0x17]), hmac = (\<lambda>k m. [byte_of (length m mod 256), 7, 9]),
     ecb_encrypt = (\<lambda>k m. map (\<lambda>b. b XOR 0x5a) m), ecb_decrypt = (\<lambda>k m. map (\<lambda>b. b XOR 0x5a) m)\<rparr>"

lemma xor_twice: "map ((\<lambda>b. b XOR c) \<circ> (\<lambda>b. b XOR c)) m = (m :: bytes)"
  by (simp add: comp_def xor.assoc)

lemma group_text_roundtrip_witness:
  "decode_group_text toy_crypto (replicate 16 3)
     (encode_group_text toy_crypto (replicate 16 3) 1700000000 [0x41, 0x3a, 0x20AC, 0x1F600] 0)
   = GtDecoded \<lparr>gt_timestamp_sec = 1700000000, gt_flags = 0, gt_text = [0x41, 0x3a, 0x20AC, 0x1F600]\<rparr>"
  using group_text_roundtrip [of "replicate 16 3" toy_crypto "[0x41, 0x3a, 0x20AC, 0x1F600]" 1700000000 0]
  by (simp add: toy_crypto_def is_scalar_def xor_twice)

text \<open>
  Nothing is decoded that is not authenticated for the channel. A payload is decoded only if it
  is the channel hash of the secret, the first two bytes of the HMAC of the ciphertext under the
  zero-padded secret, and then at least one whole block of ciphertext; everything else is \<open>null\<close>.
\<close>

theorem group_text_authenticated:
  "decode_group_text cr secret inner \<noteq> GtNull \<longleftrightarrow>
   (\<exists>mac ciphertext. length secret = 16 \<and> inner = channel_hash cr secret # mac @ ciphertext
      \<and> length mac = 2 \<and> 16 \<le> length ciphertext \<and> length ciphertext mod 16 = 0
      \<and> (at_opt mac 0, at_opt mac 1) =
          (at_opt (mac_for cr secret ciphertext) 0, at_opt (mac_for cr secret ciphertext) 1))"
proof -
  have fwd: "\<exists>mac ciphertext. length secret = 16 \<and> inner = channel_hash cr secret # mac @ ciphertext
      \<and> length mac = 2 \<and> 16 \<le> length ciphertext \<and> length ciphertext mod 16 = 0
      \<and> (at_opt mac 0, at_opt mac 1) =
          (at_opt (mac_for cr secret ciphertext) 0, at_opt (mac_for cr secret ciphertext) 1)"
    if acc: "decode_group_text cr secret inner \<noteq> GtNull"
  proof -
    from acc have s: "length secret = 16" and len: "19 \<le> length inner"
      and m: "(int (length inner) - 3) mod 16 = 0" and h: "at_opt inner 0 = Some (channel_hash cr secret)"
      and mac: "at_opt (subarray inner 1 3) 0 = at_opt (mac_for cr secret (drop 3 inner)) 0"
        "at_opt (subarray inner 1 3) 1 = at_opt (mac_for cr secret (drop 3 inner)) 1"
      by (auto simp: decode_group_text_unfold split: if_splits)
    have "inner = inner ! 0 # subarray inner 1 3 @ drop 3 inner"
      using len subarray_append_drop [of 1 3 inner] by (cases inner) auto
    moreover have "inner ! 0 = channel_hash cr secret" using h len by (auto simp: at_opt_def split: if_splits)
    moreover have "length (drop 3 inner) mod 16 = 0" using m len length_minus_3_mod_16 [of "length inner"] by simp
    ultimately show ?thesis using s len mac
      by (intro exI [of _ "subarray inner 1 3"] exI [of _ "drop 3 inner"]) auto
  qed
  have bwd: "decode_group_text cr secret inner \<noteq> GtNull"
    if "length secret = 16" "inner = channel_hash cr secret # mac @ ct" "length mac = 2" "16 \<le> length ct"
      "length ct mod 16 = 0" "at_opt mac 0 = at_opt (mac_for cr secret ct) 0"
      "at_opt mac 1 = at_opt (mac_for cr secret ct) 1" for mac ct
  proof -
    from that have sub: "subarray inner 1 3 = mac" "drop 3 inner = ct"
      by (simp_all add: subarray_def numeral_3_eq_3)
    have "(int (length inner) - 3) mod 16 = 0" and "\<not> int (length inner) - 3 < 16"
      using that length_minus_3_mod_16 [of "length inner"] by simp_all
    then show ?thesis using that sub
      by (simp add: decode_group_text_unfold Let_def split: option.splits)
  qed
  show ?thesis using fwd bwd by (metis prod.inject)
qed

end
