(* ===== verification/Connect_Host.thy ===== *)
theory Connect_Host
  imports Js_String
begin

text \<open>
  Hosts and ports that the user types (\<^verbatim>\<open>src/shared/connectHost.ts\<close>, \<^verbatim>\<open>src/shared/tcpPort.ts\<close>):
  validation of DNS names and of IPv4 and IPv6 literals, the local-network predicates, the
  formatting for URLs and sockets, and the parser of \<^verbatim>\<open>host:port\<close>. The main result is the round trip
  of a formatted valid host and port through the parser.
\<close>

subsection \<open>String helpers of the file\<close>

definition starts_with :: "string \<Rightarrow> string \<Rightarrow> bool" where
  "starts_with p s \<longleftrightarrow> take (length p) s = p"

definition ends_with :: "string \<Rightarrow> string \<Rightarrow> bool" where
  "ends_with p s \<longleftrightarrow> length p \<le> length s \<and> drop (length s - length p) s = p"

text \<open>The parts before and after the last occurrence of a character.\<close>

definition after_last :: "char \<Rightarrow> string \<Rightarrow> string" where
  "after_last c s = rev (takeWhile (\<lambda>x. x \<noteq> c) (rev s))"

definition before_last :: "char \<Rightarrow> string \<Rightarrow> string" where
  "before_last c s = rev (tl (dropWhile (\<lambda>x. x \<noteq> c) (rev s)))"

definition js_count :: "char \<Rightarrow> string \<Rightarrow> nat" where
  "js_count c s = length (filter (\<lambda>x. x = c) s)"

lemma after_last_append: "c \<notin> set t \<Longrightarrow> after_last c (s @ c # t) = t"
  by (simp add: after_last_def) (subst takeWhile_append2, auto)

lemma before_last_append: "c \<notin> set t \<Longrightarrow> before_last c (s @ c # t) = s"
  by (simp add: before_last_def) (subst dropWhile_append2, auto)

subsection \<open>TCP ports\<close>

definition TCP_PORT_MIN :: int where "TCP_PORT_MIN = 1"
definition TCP_PORT_MAX :: int where "TCP_PORT_MAX = 65535"

text \<open>
  \<^verbatim>\<open>Number.isInteger\<close> of a parsed integer: it fails for \<^verbatim>\<open>Infinity\<close>, to which \<^verbatim>\<open>parseInt\<close> rounds the
  integers from \<open>2 ^ 1024 - 2 ^ 970\<close> on.
\<close>

definition is_finite_integer :: "int \<Rightarrow> bool" where
  "is_finite_integer n \<longleftrightarrow> \<bar>n\<bar> < 2 ^ 1024 - 2 ^ 970"

definition clamp_tcp_port :: "string + int \<Rightarrow> int \<Rightarrow> int" where
  "clamp_tcp_port value fallback =
     (case (case value of Inl s \<Rightarrow> parse_int10 s | Inr n \<Rightarrow> Some n) of
        None \<Rightarrow> fallback
      | Some n \<Rightarrow> if \<not> is_finite_integer n then fallback else max TCP_PORT_MIN (min TCP_PORT_MAX n))"

definition parse_tcp_port_from_string :: "string \<Rightarrow> int \<Rightarrow> int" where
  "parse_tcp_port_from_string value fallback =
     (case parse_int10 value of
        None \<Rightarrow> fallback
      | Some n \<Rightarrow> if \<not> is_finite_integer n \<or> n < TCP_PORT_MIN \<or> n > TCP_PORT_MAX then fallback else n)"

subsection \<open>Host syntax\<close>

definition strip_connect_host_brackets :: "string \<Rightarrow> string" where
  "strip_connect_host_brackets host =
     (let trimmed = js_trim host in
      if starts_with ''['' trimmed \<and> ends_with '']'' trimmed \<and> length trimmed > 2
      then butlast (tl trimmed) else trimmed)"

definition is_valid_dns_label :: "string \<Rightarrow> bool" where
  "is_valid_dns_label label =
     (if length label = 0 \<or> length label > 63 then False
      else if starts_with ''-'' label \<or> ends_with ''-'' label then False
      else list_all (\<lambda>c. is_alnum c \<or> c = CHR ''-'') label)"

definition is_valid_dns_hostname :: "string \<Rightarrow> bool" where
  "is_valid_dns_hostname host =
     (if length host = 0 \<or> length host > 253 then False
      else let labels = js_split (CHR ''.'') host in
        if list_ex (\<lambda>l. length l = 0) labels then False
        else list_all is_valid_dns_label labels)"

text \<open>The loop over the parts of a dotted quad: \<^verbatim>\<open>/^\d{1,3}$/\<close> and at most 255.\<close>

fun octets_of_parts :: "string list \<Rightarrow> nat list option" where
  "octets_of_parts [] = Some []"
| "octets_of_parts (part # parts) =
     (if \<not> (1 \<le> length part \<and> length part \<le> 3 \<and> list_all is_digit part) then None
      else let n = dec_value part in
        if n > 255 then None
        else map_option (Cons n) (octets_of_parts parts))"

definition parse_ipv4_octets :: "string \<Rightarrow> nat list option" where
  "parse_ipv4_octets host =
     (let parts = js_split (CHR ''.'') host in
      if length parts \<noteq> 4 then None else octets_of_parts parts)"

definition is_valid_ipv4_host :: "string \<Rightarrow> bool" where
  "is_valid_ipv4_host host \<longleftrightarrow> parse_ipv4_octets host \<noteq> None"

definition is_hextet :: "string \<Rightarrow> bool" where
  "is_hextet part \<longleftrightarrow> 1 \<le> length part \<and> length part \<le> 4 \<and> list_all is_hex_digit part"

fun hextets_loop :: "string list \<Rightarrow> nat list option" where
  "hextets_loop [] = Some []"
| "hextets_loop (part # parts) =
     (if \<not> is_hextet part then None else map_option (Cons (hex_value part)) (hextets_loop parts))"

definition hextets_from_parts :: "string list \<Rightarrow> nat list option" where
  "hextets_from_parts parts = (case hextets_loop parts of
     None \<Rightarrow> None | Some hs \<Rightarrow> if length hs = 8 then Some hs else None)"

definition split_nonempty :: "string \<Rightarrow> string list" where
  "split_nonempty s = (if s = [] then [] else js_split (CHR '':'') s)"

definition parse_ipv6_hextets :: "string \<Rightarrow> nat list option" where
  "parse_ipv6_hextets host =
     (let normalized = js_lower (strip_connect_host_brackets host) in
      if CHR '':'' \<notin> set normalized then None
      else let parts = js_split2 (CHR '':'') normalized in
      if length parts > 1 then
        (if length parts \<noteq> 2 then None
         else let head = split_nonempty (parts ! 0);
                  tail = split_nonempty (parts ! 1);
                  missing = 8 - int (length head) - int (length tail)
              in if missing < 0 then None
                 else hextets_from_parts (head @ replicate (nat missing) ''0'' @ tail))
      else let split = js_split (CHR '':'') normalized in
        if length split \<noteq> 8 then None else hextets_from_parts split)"

definition is_valid_ipv6_host :: "string \<Rightarrow> bool" where
  "is_valid_ipv6_host host \<longleftrightarrow> parse_ipv6_hextets host \<noteq> None"

text \<open>\<^verbatim>\<open>/^\d+\.\d+\.\d+\.\d+$/\<close>\<close>

definition dotted_digits :: "string \<Rightarrow> bool" where
  "dotted_digits s \<longleftrightarrow> (let parts = js_split (CHR ''.'') s in
     length parts = 4 \<and> list_all (\<lambda>p. p \<noteq> [] \<and> list_all is_digit p) parts)"

definition is_valid_connect_host :: "string \<Rightarrow> bool" where
  "is_valid_connect_host host =
     (let trimmed = js_trim host in
      if length trimmed = 0 then False
      else let bare = strip_connect_host_brackets trimmed in
        if CHR '':'' \<in> set bare then is_valid_ipv6_host bare
        else if dotted_digits bare then is_valid_ipv4_host bare
        else is_valid_dns_hostname bare)"

subsection \<open>Local networks\<close>

definition is_private_network_host :: "string \<Rightarrow> bool" where
  "is_private_network_host host =
     (case parse_ipv4_octets (strip_connect_host_brackets host) of
        None \<Rightarrow> False
      | Some octets \<Rightarrow> (case (at_opt octets 0, at_opt octets 1) of
            (Some a, Some b) \<Rightarrow>
              (if a = 10 then True
               else if a = 172 \<and> b \<ge> 16 \<and> b \<le> 31 then True
               else a = 192 \<and> b = 168)
          | _ \<Rightarrow> False))"

definition is_unique_local_ipv6 :: "string \<Rightarrow> bool" where
  "is_unique_local_ipv6 host =
     (case parse_ipv6_hextets host of
        None \<Rightarrow> False
      | Some hextets \<Rightarrow> (case at_opt hextets 0 of
            None \<Rightarrow> False
          | Some h \<Rightarrow> h div 256 = 0xfc \<or> h div 256 = 0xfd))"

definition is_link_local_ipv6 :: "string \<Rightarrow> bool" where
  "is_link_local_ipv6 host =
     (case parse_ipv6_hextets host of
        None \<Rightarrow> False
      | Some hextets \<Rightarrow> (case at_opt hextets 0 of
            None \<Rightarrow> False
          | Some h \<Rightarrow> (word_of_nat h :: 32 word) AND 0xffc0 = 0xfe80))"

definition is_loopback_host :: "string \<Rightarrow> bool" where
  "is_loopback_host host =
     (let bare = js_lower (strip_connect_host_brackets host) in
      if bare = ''::1'' then True
      else (case parse_ipv4_octets bare of None \<Rightarrow> False | Some octets \<Rightarrow> at_opt octets 0 = Some 127))"

definition is_mdns_connect_host :: "string \<Rightarrow> bool" where
  "is_mdns_connect_host host =
     (let normalized = js_lower (strip_connect_host_brackets (js_trim host)) in
      if normalized = [] then False
      else normalized = ''meshtastic.local'' \<or> ends_with ''.meshtastic.local'' normalized
        \<or> ends_with ''.local'' normalized)"

definition is_local_connect_host :: "string \<Rightarrow> bool" where
  "is_local_connect_host host =
     (let bare = js_lower (strip_connect_host_brackets (js_trim host)) in
      if bare = [] then False
      else if is_mdns_connect_host bare then True
      else if is_loopback_host bare then True
      else if is_private_network_host bare then True
      else if is_unique_local_ipv6 bare then True
      else is_link_local_ipv6 bare)"

subsection \<open>Formatting and parsing\<close>

definition host_contains_ipv6 :: "string \<Rightarrow> bool" where
  "host_contains_ipv6 host =
     (let bare = strip_connect_host_brackets host in
      if is_valid_ipv4_host bare then False
      else CHR '':'' \<in> set bare \<and> is_valid_ipv6_host bare)"

definition format_host_for_url :: "string \<Rightarrow> nat option \<Rightarrow> string" where
  "format_host_for_url host port =
     (let bare = strip_connect_host_brackets (js_trim host);
          host_part = (if host_contains_ipv6 bare then ''['' @ bare @ '']'' else bare)
      in case port of None \<Rightarrow> host_part | Some p \<Rightarrow> host_part @ '':'' @ dec_string p)"

definition format_host_for_socket :: "string \<Rightarrow> string" where
  "format_host_for_socket host = strip_connect_host_brackets (js_trim host)"

definition format_connect_host_literal :: "string \<Rightarrow> string" where
  "format_connect_host_literal host =
     (let bare = strip_connect_host_brackets (js_trim host) in
      if bare = [] then [] else if host_contains_ipv6 bare then ''['' @ bare @ '']'' else bare)"

definition parse_trailing_port :: "string \<Rightarrow> int option" where
  "parse_trailing_port value =
     (case parse_int10 value of
        None \<Rightarrow> None
      | Some port \<Rightarrow> if port < TCP_PORT_MIN \<or> port > TCP_PORT_MAX then None else Some port)"

text \<open>\<^verbatim>\<open>addr.replace(/^https?:\/\//i, '')\<close> and \<^verbatim>\<open>addr.replace(/\/+$/, '')\<close>.\<close>

definition strip_http_scheme :: "string \<Rightarrow> string" where
  "strip_http_scheme s =
     (if js_lower (take 7 s) = ''http://'' then drop 7 s
      else if js_lower (take 8 s) = ''https://'' then drop 8 s else s)"

definition strip_trailing_slashes :: "string \<Rightarrow> string" where
  "strip_trailing_slashes s = rev (dropWhile (\<lambda>c. c = CHR ''/'') (rev s))"

text \<open>The part for addresses without a usable bracket.\<close>

definition parse_unbracketed :: "string \<Rightarrow> int \<Rightarrow> string \<times> int" where
  "parse_unbracketed addr default_port =
     (if js_count (CHR '':'') addr \<ge> 2 then
        (let maybe_port = after_last (CHR '':'') addr in
         case parse_trailing_port maybe_port of
           None \<Rightarrow> (addr, default_port)
         | Some port \<Rightarrow>
             if length maybe_port > 0 \<and> list_all is_digit maybe_port \<and> port > 255
                \<and> before_last (CHR '':'') addr \<noteq> []
             then (before_last (CHR '':'') addr, port)
             else (addr, default_port))
      else if CHR '':'' \<in> set addr \<and> before_last (CHR '':'') addr \<noteq> [] then
        (case parse_trailing_port (after_last (CHR '':'') addr) of
           None \<Rightarrow> (addr, default_port)
         | Some port \<Rightarrow> (before_last (CHR '':'') addr, port))
      else (addr, default_port))"

definition parse_connect_host_port :: "string \<Rightarrow> int \<Rightarrow> string \<times> int" where
  "parse_connect_host_port input default_port =
     (let addr = strip_trailing_slashes (strip_http_scheme (js_trim input)) in
      if addr = [] then ([], default_port)
      else if starts_with ''['' addr \<and> CHR '']'' \<in> set addr then
        (let inside = takeWhile (\<lambda>c. c \<noteq> CHR '']'') addr;
             host = strip_connect_host_brackets (inside @ '']'');
             tail = drop (length inside + 1) addr
         in if tail = [] then (host, default_port)
            else if starts_with '':'' tail then
              (case parse_trailing_port (tl tail) of
                 None \<Rightarrow> (host, default_port) | Some port \<Rightarrow> (host, port))
            else (host, default_port))
      else parse_unbracketed addr default_port)"

subsection \<open>The characters of a valid host\<close>

definition host_char :: "char \<Rightarrow> bool" where
  "host_char c \<longleftrightarrow> is_alnum c \<or> c = CHR ''-'' \<or> c = CHR ''.''"

definition ipv6_char :: "char \<Rightarrow> bool" where
  "ipv6_char c \<longleftrightarrow> is_hex_digit c \<or> c = CHR '':''"

lemma host_char_plain:
  "host_char c \<Longrightarrow> \<not> is_space c \<and> c \<noteq> CHR ''['' \<and> c \<noteq> CHR '']'' \<and> c \<noteq> CHR ''/'' \<and> c \<noteq> CHR '':''"
  by (auto simp: host_char_def is_alnum_def is_digit_def is_upper_def is_space_def code_def)

lemma ipv6_char_plain:
  "ipv6_char c \<Longrightarrow> \<not> is_space c \<and> c \<noteq> CHR ''['' \<and> c \<noteq> CHR '']'' \<and> c \<noteq> CHR ''/''"
  by (auto simp: ipv6_char_def is_hex_digit_def is_digit_def is_space_def code_def)

lemma dns_hostname_chars: "is_valid_dns_hostname host \<Longrightarrow> \<forall>c \<in> set host. host_char c"
  using js_split_chars [of host "CHR ''.''"]
  by (fastforce simp: is_valid_dns_hostname_def is_valid_dns_label_def list_all_iff host_char_def Let_def
      split: if_splits)

lemma dotted_digits_chars: "dotted_digits host \<Longrightarrow> \<forall>c \<in> set host. host_char c"
  using js_split_chars [of host "CHR ''.''"]
  by (fastforce simp: dotted_digits_def list_all_iff host_char_def is_alnum_def Let_def)

lemma hextets_loop_parts: "hextets_loop parts \<noteq> None \<longleftrightarrow> list_all is_hextet parts"
  by (induction parts) auto

lemma hextets_loop_eq: "list_all is_hextet parts \<Longrightarrow> hextets_loop parts = Some (map hex_value parts)"
  by (induction parts) auto

lemma hextets_from_parts_Some_iff:
  "hextets_from_parts parts = Some hs \<longleftrightarrow>
     list_all is_hextet parts \<and> length parts = 8 \<and> hs = map hex_value parts"
  using hextets_loop_parts [of parts] hextets_loop_eq [of parts]
  by (auto simp: hextets_from_parts_def split: option.splits if_splits)

lemma split_nonempty_chars:
  "list_all is_hextet (split_nonempty s) \<Longrightarrow> \<forall>c \<in> set s. ipv6_char c"
  using js_split_chars [of s "CHR '':''"]
  by (fastforce simp: split_nonempty_def list_all_iff is_hextet_def ipv6_char_def split: if_splits)

text \<open>The two shapes of an accepted IPv6 literal.\<close>

lemma parse_ipv6_hextets_SomeD:
  assumes "parse_ipv6_hextets host = Some hs"
  defines "n \<equiv> js_lower (strip_connect_host_brackets host)"
  shows "(\<exists>a b. js_split2 (CHR '':'') n = [a, b] \<and> list_all is_hextet (split_nonempty a)
            \<and> list_all is_hextet (split_nonempty b)
            \<and> length (split_nonempty a) + length (split_nonempty b) \<le> 8
            \<and> hs = map hex_value (split_nonempty a
                 @ replicate (8 - length (split_nonempty a) - length (split_nonempty b)) ''0''
                 @ split_nonempty b))
       \<or> length (js_split2 (CHR '':'') n) \<le> 1 \<and> list_all is_hextet (js_split (CHR '':'') n)
            \<and> length (js_split (CHR '':'') n) = 8 \<and> hs = map hex_value (js_split (CHR '':'') n)"
proof (cases "length (js_split2 (CHR '':'') n) > 1")
  case True
  with assms have "length (js_split2 (CHR '':'') n) = 2"
    by (auto simp: parse_ipv6_hextets_def Let_def split: if_splits)
  then obtain a b where ab: "js_split2 (CHR '':'') n = [a, b]"
    by (auto simp: numeral_2_eq_2 length_Suc_conv)
  then have "parse_ipv6_hextets host =
      (if CHR '':'' \<notin> set n then None
       else if 8 - int (length (split_nonempty a)) - int (length (split_nonempty b)) < 0 then None
       else hextets_from_parts (split_nonempty a @ replicate
          (nat (8 - int (length (split_nonempty a)) - int (length (split_nonempty b)))) ''0''
          @ split_nonempty b))"
    by (simp add: parse_ipv6_hextets_def Let_def n_def)
  moreover have "nat (8 - int x - int y) = 8 - x - y" for x y by linarith
  ultimately have "hextets_from_parts (split_nonempty a @ replicate
      (8 - length (split_nonempty a) - length (split_nonempty b)) ''0'' @ split_nonempty b) = Some hs"
    and "length (split_nonempty a) + length (split_nonempty b) \<le> 8"
    using assms(1) by (simp_all split: if_splits)
  then show ?thesis using ab by (simp add: hextets_from_parts_Some_iff)
next
  case False
  with assms show ?thesis
    by (auto simp: parse_ipv6_hextets_def Let_def hextets_from_parts_Some_iff split: if_splits)
qed

lemma valid_ipv6_chars:
  assumes "is_valid_ipv6_host host" and "strip_connect_host_brackets host = host"
  shows "\<forall>c \<in> set host. ipv6_char c"
proof -
  from assms obtain hs where hs: "parse_ipv6_hextets host = Some hs"
    by (auto simp: is_valid_ipv6_host_def)
  have "\<forall>c \<in> set (js_lower host). ipv6_char c"
    using parse_ipv6_hextets_SomeD [OF hs] unfolding assms(2)
  proof (elim disjE exE conjE)
    fix a b
    assume "js_split2 (CHR '':'') (js_lower host) = [a, b]"
      and "list_all is_hextet (split_nonempty a)" "list_all is_hextet (split_nonempty b)"
    with js_split2_chars [of "js_lower host" "CHR '':''"] split_nonempty_chars [of a] split_nonempty_chars [of b]
    show ?thesis by (auto simp: ipv6_char_def)
  next
    assume "list_all is_hextet (js_split (CHR '':'') (js_lower host))"
    with split_nonempty_chars [of "js_lower host"] show ?thesis
      by (cases "js_lower host = []") (auto simp: split_nonempty_def)
  qed
  then show ?thesis
    by (auto simp: js_lower_def ipv6_char_def dest: is_hex_digit_lower lower_char_colon)
qed

subsection \<open>Formatting, then parsing\<close>

lemma strip_brackets_id:
  "\<forall>c \<in> set s. \<not> is_space c \<Longrightarrow> \<not> starts_with ''['' s \<Longrightarrow> strip_connect_host_brackets s = s"
  by (simp add: strip_connect_host_brackets_def js_trim_id)

lemma strip_brackets_bracketed:
  "\<forall>c \<in> set s. \<not> is_space c \<Longrightarrow> s \<noteq> [] \<Longrightarrow> strip_connect_host_brackets (''['' @ s @ '']'') = s"
  by (subst strip_connect_host_brackets_def)
     (simp add: js_trim_id is_space_def code_def starts_with_def ends_with_def Let_def)

lemma strip_trailing_slashes_id:
  "s \<noteq> [] \<Longrightarrow> last s \<noteq> CHR ''/'' \<Longrightarrow> strip_trailing_slashes s = s"
  by (cases "rev s") (auto simp: strip_trailing_slashes_def)

lemma strip_http_scheme_id: "CHR ''/'' \<notin> set s \<Longrightarrow> strip_http_scheme s = s"
proof -
  assume s: "CHR ''/'' \<notin> set s"
  have low: "lower_char c = CHR ''/'' \<Longrightarrow> c = CHR ''/''" for c
  proof -
    assume "lower_char c = CHR ''/''"
    then have "code (lower_char c) = 47" by (simp add: code_def)
    then have "code c = code (CHR ''/'')" by (auto simp: lower_char_def Let_def code_def [of "CHR ''/''"] split: if_splits)
    then show ?thesis by simp
  qed
  have "CHR ''/'' \<notin> set (js_lower (take n s))" for n
    using s low by (metis (no_types, lifting) imageE in_set_takeD js_lower_def list.set_map)
  then have "js_lower (take 7 s) \<noteq> ''http://''" "js_lower (take 8 s) \<noteq> ''https://''"
    by (metis list.set_intros)+
  then show ?thesis by (simp add: strip_http_scheme_def)
qed

lemma digit_plain: "is_digit c \<Longrightarrow> \<not> is_space c \<and> c \<noteq> CHR ''/'' \<and> c \<noteq> CHR '':'' \<and> c \<noteq> CHR '']''"
  by (auto simp: is_digit_def is_space_def code_def)

lemma dec_string_plain:
  "\<forall>c \<in> set (dec_string n). \<not> is_space c \<and> c \<noteq> CHR ''/'' \<and> c \<noteq> CHR '':'' \<and> c \<noteq> CHR '']''"
  using dec_string_digits digit_plain by blast

lemma parse_trailing_port_dec:
  "1 \<le> port \<Longrightarrow> port \<le> 65535 \<Longrightarrow> parse_trailing_port (dec_string port) = Some (int port)"
  by (simp add: parse_trailing_port_def TCP_PORT_MIN_def TCP_PORT_MAX_def)

lemma parse_of_plain_host:
  assumes "host \<noteq> []" and "\<forall>c \<in> set host. host_char c" and "1 \<le> port" and "port \<le> 65535"
  shows "parse_connect_host_port (host @ '':'' @ dec_string port) d = (host, int port)"
proof -
  let ?a = "host @ CHR '':'' # dec_string port"
  have plain: "\<forall>c \<in> set ?a. \<not> is_space c \<and> c \<noteq> CHR ''/'' \<and> c \<noteq> CHR '']''"
    using assms(2) host_char_plain dec_string_plain [of port] by (auto simp: is_space_def code_def)
  have colon: "CHR '':'' \<notin> set host" "CHR '':'' \<notin> set (dec_string port)"
    using assms(2) host_char_plain dec_string_plain [of port] by auto
  then have "filter (\<lambda>x. x = CHR '':'') host = []" "filter (\<lambda>x. x = CHR '':'') (dec_string port) = []"
    by (auto simp: filter_empty_conv)
  then have one: "js_count (CHR '':'') ?a = 1" by (simp add: js_count_def)
  have "last ?a \<in> set (dec_string port)" using last_in_set [of "dec_string port"] by simp
  then have "strip_trailing_slashes (strip_http_scheme (js_trim ?a)) = ?a"
    using plain dec_string_plain [of port] by (subst js_trim_id, simp, subst strip_http_scheme_id, blast,
        intro strip_trailing_slashes_id) auto
  moreover have "CHR '']'' \<notin> set ?a" using plain by blast
  moreover have "parse_unbracketed ?a d = (host, int port)"
    using one colon assms(1,3,4)
    by (simp add: parse_unbracketed_def before_last_append after_last_append parse_trailing_port_dec)
  ultimately show ?thesis by (simp add: parse_connect_host_port_def Let_def del: set_append)
qed

lemma parse_of_ipv6_host:
  assumes "host \<noteq> []" and "\<forall>c \<in> set host. ipv6_char c" and "1 \<le> port" and "port \<le> 65535"
  shows "parse_connect_host_port (''['' @ host @ '']:'' @ dec_string port) d = (host, int port)"
proof -
  let ?a = "CHR ''['' # host @ CHR '']'' # CHR '':'' # dec_string port"
  have plain: "\<forall>c \<in> set ?a. \<not> is_space c \<and> c \<noteq> CHR ''/''"
    using assms(2) ipv6_char_plain dec_string_plain [of port] by (auto simp: is_space_def code_def)
  have nb: "CHR '']'' \<notin> set host" and ns: "\<forall>c \<in> set host. \<not> is_space c"
    using assms(2) ipv6_char_plain by blast+
  have "last ?a \<in> set (dec_string port)" using last_in_set [of "dec_string port"] by simp
  then have addr: "strip_trailing_slashes (strip_http_scheme (js_trim ?a)) = ?a"
    using plain dec_string_plain [of port] by (subst js_trim_id, simp, subst strip_http_scheme_id, blast,
        intro strip_trailing_slashes_id) auto
  have tw: "takeWhile (\<lambda>c. c \<noteq> CHR '']'') ?a = CHR ''['' # host"
    using nb by (simp add: takeWhile_append2 [of host]) (subst takeWhile_append2, auto)
  have "strip_connect_host_brackets (CHR ''['' # host @ '']'') = host"
    using strip_brackets_bracketed [OF ns assms(1)] by simp
  then show ?thesis using addr tw assms(3,4)
    by (simp add: parse_connect_host_port_def Let_def starts_with_def parse_trailing_port_dec)
qed

lemma strip_fixed_trim:
  assumes "strip_connect_host_brackets host = host"
  shows "js_trim host = host"
proof (cases "starts_with ''['' (js_trim host) \<and> ends_with '']'' (js_trim host) \<and> length (js_trim host) > 2")
  case True
  then have "length (strip_connect_host_brackets host) = length (js_trim host) - 2"
    by (simp add: strip_connect_host_brackets_def)
  then have "length host = length (js_trim host) - 2" unfolding assms .
  moreover have "length (js_trim host) \<le> length host"
    unfolding js_trim_def by (metis length_dropWhile_le length_rev order_trans)
  moreover have "2 < length (js_trim host)" using True by simp
  ultimately have False by linarith
  then show ?thesis ..
next
  case False
  then show ?thesis using assms by (auto simp: strip_connect_host_brackets_def Let_def)
qed

lemma octets_of_parts_digits:
  "octets_of_parts parts \<noteq> None \<Longrightarrow> list_all (\<lambda>p. list_all is_digit p) parts"
  by (induction parts) (auto simp: Let_def split: if_splits)

lemma ipv4_host_no_colon: "is_valid_ipv4_host host \<Longrightarrow> CHR '':'' \<notin> set host"
proof -
  assume "is_valid_ipv4_host host"
  then have "list_all (\<lambda>p. list_all is_digit p) (js_split (CHR ''.'') host)"
    by (intro octets_of_parts_digits) (auto simp: is_valid_ipv4_host_def parse_ipv4_octets_def Let_def split: if_splits)
  with js_split_chars [of host "CHR ''.''"] digit_plain show ?thesis
    by (fastforce simp: list_all_iff)
qed

text \<open>
  C10: a valid host survives formatting and parsing. For every host that \<^verbatim>\<open>isValidConnectHost\<close>
  accepts, written without surrounding brackets or blanks, and every port from 1 to 65535,
  \<^verbatim>\<open>parseConnectHostPort\<close> reads \<^verbatim>\<open>formatHostForUrl(host, port)\<close> back as exactly that host and port,
  whether the host is a DNS name, an IPv4 literal or an IPv6 literal, and whatever the default port.
\<close>

theorem format_parse_host_port:
  assumes "is_valid_connect_host host" and "strip_connect_host_brackets host = host"
    and "1 \<le> port" and "port \<le> 65535"
  shows "parse_connect_host_port (format_host_for_url host (Some port)) d = (host, int port)"
proof -
  have trim: "js_trim host = host" using strip_fixed_trim [OF assms(2)] .
  have ne: "host \<noteq> []" using assms(1) trim by (auto simp: is_valid_connect_host_def)
  show ?thesis
  proof (cases "CHR '':'' \<in> set host")
    case True
    have v: "is_valid_ipv6_host host"
      using assms(1,2) True trim ne by (simp add: is_valid_connect_host_def)
    have chars: "\<forall>c \<in> set host. ipv6_char c" by (rule valid_ipv6_chars [OF v assms(2)])
    have "\<not> is_valid_ipv4_host host"
      using True ipv4_host_no_colon by blast
    with True v assms(2) trim have "format_host_for_url host (Some port) = ''['' @ host @ '']:'' @ dec_string port"
      by (simp add: format_host_for_url_def host_contains_ipv6_def)
    then show ?thesis using parse_of_ipv6_host [OF ne chars assms(3,4)] by simp
  next
    case False
    have chars: "\<forall>c \<in> set host. host_char c"
      using assms(1,2) False trim ne dns_hostname_chars dotted_digits_chars
      by (auto simp: is_valid_connect_host_def split: if_splits)
    from False assms(2) trim have "format_host_for_url host (Some port) = host @ '':'' @ dec_string port"
      by (simp add: format_host_for_url_def host_contains_ipv6_def)
    then show ?thesis using parse_of_plain_host [OF ne chars assms(3,4)] by simp
  qed
qed

lemma format_parse_host_port_witness:
  "parse_connect_host_port (format_host_for_url ''::1'' (Some 4403)) 80 = (''::1'', 4403)
   \<and> parse_connect_host_port (format_host_for_url ''meshtastic.local'' (Some 4403)) 80
       = (''meshtastic.local'', 4403)"
proof
  have "is_valid_connect_host ''::1''" "strip_connect_host_brackets ''::1'' = ''::1''" by code_simp+
  from format_parse_host_port [OF this, of 4403 80]
  show "parse_connect_host_port (format_host_for_url ''::1'' (Some 4403)) 80 = (''::1'', 4403)" by simp
  have "is_valid_connect_host ''meshtastic.local''"
    "strip_connect_host_brackets ''meshtastic.local'' = ''meshtastic.local''" by code_simp+
  from format_parse_host_port [OF this, of 4403 80]
  show "parse_connect_host_port (format_host_for_url ''meshtastic.local'' (Some 4403)) 80
       = (''meshtastic.local'', 4403)" by simp
qed

end
