(* ===== verification/Ip_Literal.thy ===== *)
theory Ip_Literal
  imports Connect_Host
begin

text \<open>
  The classification of IP literals as globally reachable that guards outgoing requests
  (\<^verbatim>\<open>src/shared/ipLiteral.ts\<close>): the parsers of IPv4 and IPv6 literals, the two IANA special-purpose
  tables, the longest-prefix choice among their entries, and the predicates over host strings.
  IPv4 addresses are 32-bit words; the two BigInt halves of an IPv6 address stay below \<open>2 ^ 64\<close> and
  are 64-bit words. The tables are computed from the CIDR strings of the source by the model's own
  parsers; an unparsable entry, a throw while the module loads, would be missing in the table, and
  a lemma shows that none is.
\<close>

subsection \<open>Parsing literals\<close>

definition literal_ipv4_octets :: "string \<Rightarrow> (nat \<times> nat \<times> nat \<times> nat) option" where
  "literal_ipv4_octets host =
     (let parts = js_split (CHR ''.'') host in
      if length parts \<noteq> 4 then None
      else case octets_of_parts parts of
        None \<Rightarrow> None
      | Some octets \<Rightarrow>
         (case (at_opt octets 0, at_opt octets 1, at_opt octets 2, at_opt octets 3) of
            (Some a, Some b, Some c, Some d) \<Rightarrow> Some (a, b, c, d)
          | _ \<Rightarrow> None))"

definition ipv4_to_int :: "nat \<times> nat \<times> nat \<times> nat \<Rightarrow> 32 word" where
  "ipv4_to_int = (\<lambda>(a, b, c, d). push_bit 24 (word_of_nat a) OR push_bit 16 (word_of_nat b)
     OR push_bit 8 (word_of_nat c) OR word_of_nat d)"

text \<open>\<^verbatim>\<open>Number\<close> of the text after the slash; the tables hold runs of digits only.\<close>

definition split_cidr :: "string \<Rightarrow> (string \<times> nat) option" where
  "split_cidr cidr =
     (let addr = takeWhile (\<lambda>c. c \<noteq> CHR ''/'') cidr;
          rest = drop (length addr + 1) cidr
      in if CHR ''/'' \<notin> set cidr \<or> addr = [] then None
         else if \<not> list_all is_digit rest then None
         else Some (addr, dec_value rest))"

definition ipv4_from_cidr :: "string \<Rightarrow> (32 word \<times> nat) option" where
  "ipv4_from_cidr cidr = (case split_cidr cidr of
     None \<Rightarrow> None
   | Some (addr, prefix_len) \<Rightarrow> (case literal_ipv4_octets addr of
       None \<Rightarrow> None | Some octets \<Rightarrow> Some (ipv4_to_int octets, prefix_len)))"

definition ipv4_in_cidr :: "32 word \<Rightarrow> 32 word \<Rightarrow> nat \<Rightarrow> bool" where
  "ipv4_in_cidr addr network prefix_len =
     (if prefix_len \<le> 0 then True
      else if prefix_len \<ge> 32 then addr = network
      else let m = push_bit (32 - prefix_len) 0xffffffff in addr AND m = network AND m)"

definition parse_hextet :: "string \<Rightarrow> nat option" where
  "parse_hextet part = (if part = [] \<or> \<not> is_hextet part then None else Some (hex_value part))"

definition expand_parts :: "string list \<Rightarrow> string list" where
  "expand_parts raw = concat (map (\<lambda>part. if part = ''v4'' then [''v4a'', ''v4b''] else [part]) raw)"

fun literal_hextets_loop :: "(nat \<times> nat) option \<Rightarrow> string list \<Rightarrow> nat list option" where
  "literal_hextets_loop v4 [] = Some []"
| "literal_hextets_loop v4 (part # parts) =
     (if part = ''v4a'' then
        (case v4 of None \<Rightarrow> None | Some (h, _) \<Rightarrow> map_option (Cons h) (literal_hextets_loop v4 parts))
      else if part = ''v4b'' then
        (case v4 of None \<Rightarrow> None | Some (_, l) \<Rightarrow> map_option (Cons l) (literal_hextets_loop v4 parts))
      else (case parse_hextet part of
              None \<Rightarrow> None | Some h \<Rightarrow> map_option (Cons h) (literal_hextets_loop v4 parts)))"

text \<open>The second half of \<^verbatim>\<open>parseIpv6HextetsForLiteral\<close>: splitting at \<^verbatim>\<open>::\<close> and filling.\<close>

definition expand_hextets :: "string \<Rightarrow> (nat \<times> nat) option \<Rightarrow> nat list option" where
  "expand_hextets normalized v4 =
     (let split = js_split2 (CHR '':'') normalized in
      if length split > 1 then
        (if length split \<noteq> 2 then None
         else let head = expand_parts (split_nonempty (split ! 0));
                  tail = expand_parts (split_nonempty (split ! 1));
                  missing = 8 - int (length head) - int (length tail);
                  parts = head @ replicate (nat missing) ''0'' @ tail
              in if missing < 1 then None
                 else if length parts \<noteq> 8 then None
                 else literal_hextets_loop v4 parts)
      else let expanded = expand_parts (js_split (CHR '':'') normalized) in
        if length expanded \<noteq> 8 then None else literal_hextets_loop v4 expanded)"

definition parse_ipv6_literal :: "string \<Rightarrow> nat list option" where
  "parse_ipv6_literal host =
     (let normalized = js_lower (strip_connect_host_brackets host) in
      if CHR '':'' \<notin> set normalized then None
      else let after = after_last (CHR '':'') normalized in
      if CHR ''.'' \<in> set after then
        (let prefix_part = before_last (CHR '':'') normalized in
         if \<not> list_all (\<lambda>c. is_hex_digit c \<or> c = CHR '':'') prefix_part then None
         else case literal_ipv4_octets after of
           None \<Rightarrow> None
         | Some (a, b, c, d) \<Rightarrow>
             expand_hextets (prefix_part @ '':v4'') (Some (256 * a + b, 256 * c + d)))
      else expand_hextets normalized None)"

subsection \<open>The special-purpose tables\<close>

definition special_purpose_v4_source :: "(string \<times> bool option) list" where
  "special_purpose_v4_source =
    [(''0.0.0.0/8'', Some False), (''0.0.0.0/32'', Some False), (''10.0.0.0/8'', Some False),
     (''100.64.0.0/10'', Some False), (''127.0.0.0/8'', Some False), (''169.254.0.0/16'', Some False),
     (''172.16.0.0/12'', Some False), (''192.0.0.0/24'', Some False), (''192.0.0.0/29'', Some False),
     (''192.0.0.8/32'', Some False), (''192.0.0.9/32'', Some True), (''192.0.0.10/32'', Some True),
     (''192.0.0.170/32'', Some False), (''192.0.0.171/32'', Some False), (''192.0.2.0/24'', Some False),
     (''192.31.196.0/24'', Some True), (''192.52.193.0/24'', Some True), (''192.88.99.0/24'', None),
     (''192.88.99.2/32'', Some False), (''192.168.0.0/16'', Some False), (''192.175.48.0/24'', Some True),
     (''198.18.0.0/15'', Some False), (''198.51.100.0/24'', Some False), (''203.0.113.0/24'', Some False),
     (''240.0.0.0/4'', Some False), (''255.255.255.255/32'', Some False)]"

record cidr4 =
  network4 :: "32 word"
  prefix4 :: nat
  reachable4 :: "bool option"

definition special_purpose_v4 :: "cidr4 list" where
  "special_purpose_v4 = concat (map (\<lambda>(cidr, r). case ipv4_from_cidr cidr of
     None \<Rightarrow> [] | Some (n, p) \<Rightarrow> [\<lparr>network4 = n, prefix4 = p, reachable4 = r\<rparr>]) special_purpose_v4_source)"

definition is_global_ipv4_int :: "32 word \<Rightarrow> bool" where
  "is_global_ipv4_int addr =
     (if ipv4_in_cidr addr (ipv4_to_int (224, 0, 0, 0)) 4 then False
      else case best_scan (\<lambda>e. reachable4 e \<noteq> None \<and> ipv4_in_cidr addr (network4 e) (prefix4 e))
             prefix4 special_purpose_v4 None of
        None \<Rightarrow> True
      | Some e \<Rightarrow> reachable4 e = Some True)"

definition special_purpose_v6_source :: "(string \<times> bool option) list" where
  "special_purpose_v6_source =
    [(''::1/128'', Some False), (''::/128'', Some False), (''::ffff:0:0/96'', Some False),
     (''64:ff9b::/96'', Some True), (''64:ff9b:1::/48'', Some False), (''100::/64'', Some False),
     (''100:0:0:1::/64'', Some False), (''2001::/23'', Some False), (''2001::/32'', Some False),
     (''2001:1::1/128'', Some True), (''2001:1::2/128'', Some True), (''2001:1::3/128'', Some True),
     (''2001:2::/48'', Some False), (''2001:3::/32'', Some True), (''2001:4:112::/48'', Some True),
     (''2001:10::/28'', None), (''2001:20::/28'', Some True), (''2001:30::/28'', Some True),
     (''2001:db8::/32'', Some False), (''2002::/16'', Some False), (''2620:4f:8000::/48'', Some True),
     (''3fff::/20'', Some False), (''5f00::/16'', Some False), (''fc00::/7'', Some False),
     (''fe80::/10'', Some False)]"

record cidr6 =
  network_hi :: "64 word"
  network_lo :: "64 word"
  prefix6 :: nat
  reachable6 :: "bool option"

definition join4 :: "nat list \<Rightarrow> 64 word" where
  "join4 hs = push_bit 48 (word_of_nat (hs ! 0)) OR push_bit 32 (word_of_nat (hs ! 1))
     OR push_bit 16 (word_of_nat (hs ! 2)) OR word_of_nat (hs ! 3)"

definition hextets_to_big_ints :: "nat list \<Rightarrow> 64 word \<times> 64 word" where
  "hextets_to_big_ints hs = (join4 (take 4 hs), join4 (drop 4 hs))"

definition parse_ipv6_cidr :: "string \<Rightarrow> (64 word \<times> 64 word \<times> nat) option" where
  "parse_ipv6_cidr cidr = (case split_cidr cidr of
     None \<Rightarrow> None
   | Some (addr, prefix_len) \<Rightarrow> (case parse_ipv6_literal addr of
       None \<Rightarrow> None
     | Some hs \<Rightarrow> (case hextets_to_big_ints hs of (hi, lo) \<Rightarrow> Some (hi, lo, prefix_len))))"

definition ipv6_in_cidr :: "64 word \<Rightarrow> 64 word \<Rightarrow> 64 word \<Rightarrow> 64 word \<Rightarrow> nat \<Rightarrow> bool" where
  "ipv6_in_cidr hi lo nhi nlo prefix_len =
     (if prefix_len \<le> 0 then True
      else if prefix_len \<ge> 128 then hi = nhi \<and> lo = nlo
      else if prefix_len \<le> 64 then
        (let m = push_bit (64 - prefix_len) (mask prefix_len) in hi AND m = nhi AND m)
      else let lo_prefix = prefix_len - 64;
               m = push_bit (64 - lo_prefix) (mask lo_prefix)
        in hi = nhi \<and> lo AND m = nlo AND m)"

definition special_purpose_v6 :: "cidr6 list" where
  "special_purpose_v6 = concat (map (\<lambda>(cidr, r). case parse_ipv6_cidr cidr of
     None \<Rightarrow> []
   | Some (hi, lo, p) \<Rightarrow> [\<lparr>network_hi = hi, network_lo = lo, prefix6 = p, reachable6 = r\<rparr>])
     special_purpose_v6_source)"

definition in_v6_cidr :: "nat list \<Rightarrow> string \<Rightarrow> bool" where
  "in_v6_cidr hextets cidr = (case (hextets_to_big_ints hextets, parse_ipv6_cidr cidr) of
     ((hi, lo), Some (nhi, nlo, p)) \<Rightarrow> ipv6_in_cidr hi lo nhi nlo p
   | _ \<Rightarrow> False)"

definition embedded_ipv4_from_hextets :: "nat list \<Rightarrow> (32 word) option" where
  "embedded_ipv4_from_hextets hextets =
     (if \<not> in_v6_cidr hextets ''::ffff:0:0/96'' \<and> \<not> in_v6_cidr hextets ''64:ff9b::/96'' then None
      else Some (push_bit 16 (word_of_nat (hextets ! 6)) OR word_of_nat (hextets ! 7)))"

definition is_global_ipv6_hextets :: "nat list \<Rightarrow> bool" where
  "is_global_ipv6_hextets hextets =
     (case embedded_ipv4_from_hextets hextets of
        Some embedded \<Rightarrow> is_global_ipv4_int embedded
      | None \<Rightarrow>
          if \<not> in_v6_cidr hextets ''2000::/3'' then False
          else (case hextets_to_big_ints hextets of (hi, lo) \<Rightarrow>
            (case best_scan (\<lambda>e. reachable6 e \<noteq> None
                     \<and> ipv6_in_cidr hi lo (network_hi e) (network_lo e) (prefix6 e))
                   prefix6 special_purpose_v6 None of
               None \<Rightarrow> True
             | Some e \<Rightarrow> reachable6 e = Some True)))"

subsection \<open>Predicates on host strings\<close>

definition is_valid_ipv4_literal :: "string \<Rightarrow> bool" where
  "is_valid_ipv4_literal host \<longleftrightarrow> literal_ipv4_octets (js_trim (strip_connect_host_brackets host)) \<noteq> None"

definition is_valid_ipv6_literal :: "string \<Rightarrow> bool" where
  "is_valid_ipv6_literal host \<longleftrightarrow> parse_ipv6_literal host \<noteq> None"

definition is_valid_ip_literal :: "string \<Rightarrow> bool" where
  "is_valid_ip_literal host =
     (let bare = js_lower (strip_connect_host_brackets (js_trim host)) in
      if bare = [] then False
      else if CHR '':'' \<in> set bare then is_valid_ipv6_literal bare
      else is_valid_ipv4_literal bare)"

definition is_global_ip_literal :: "string \<Rightarrow> bool option" where
  "is_global_ip_literal host =
     (let bare = js_lower (strip_connect_host_brackets (js_trim host)) in
      if bare = [] then None
      else if CHR '':'' \<in> set bare then
        (case parse_ipv6_literal bare of None \<Rightarrow> None | Some hextets \<Rightarrow> Some (is_global_ipv6_hextets hextets))
      else (case literal_ipv4_octets bare of
              None \<Rightarrow> None | Some octets \<Rightarrow> Some (is_global_ipv4_int (ipv4_to_int octets))))"

definition ip_literal_family :: "string \<Rightarrow> nat option" where
  "ip_literal_family host =
     (let bare = js_lower (strip_connect_host_brackets (js_trim host)) in
      if bare = [] then None
      else if CHR '':'' \<in> set bare then (if is_valid_ipv6_literal bare then Some 6 else None)
      else if is_valid_ipv4_literal bare then Some 4 else None)"

subsection \<open>The tables, computed\<close>

lemma replicate_numeral_Cons: "replicate (numeral k) x = x # replicate (pred_numeral k) x"
  by (simp add: numeral_eq_Suc)

lemmas ipv6_eval = parse_ipv6_literal_def strip_connect_host_brackets_def js_trim_def js_lower_def
  lower_char_def starts_with_def after_last_def expand_hextets_def expand_parts_def
  split_nonempty_def is_space_def code_def chr_def is_hextet_def parse_hextet_def hex_value_def
  hex_digit_val_def is_hex_digit_def is_digit_def replicate_numeral_Cons Let_def

lemmas cidr_eval = ipv4_from_cidr_def split_cidr_def literal_ipv4_octets_def dec_value_def
  digit_val_def ipv4_to_int_def at_opt_def ipv6_eval

lemmas cidr6_eval = parse_ipv6_cidr_def hextets_to_big_ints_def join4_def cidr_eval

lemma special_purpose_v4_eq: "special_purpose_v4 =
 [\<lparr>network4 = 0, prefix4 = 8, reachable4 = Some False\<rparr>,
  \<lparr>network4 = 0, prefix4 = 32, reachable4 = Some False\<rparr>,
  \<lparr>network4 = 167772160, prefix4 = 8, reachable4 = Some False\<rparr>,
  \<lparr>network4 = 1681915904, prefix4 = 10, reachable4 = Some False\<rparr>,
  \<lparr>network4 = 2130706432, prefix4 = 8, reachable4 = Some False\<rparr>,
  \<lparr>network4 = 2851995648, prefix4 = 16, reachable4 = Some False\<rparr>,
  \<lparr>network4 = 2886729728, prefix4 = 12, reachable4 = Some False\<rparr>,
  \<lparr>network4 = 3221225472, prefix4 = 24, reachable4 = Some False\<rparr>,
  \<lparr>network4 = 3221225472, prefix4 = 29, reachable4 = Some False\<rparr>,
  \<lparr>network4 = 3221225480, prefix4 = 32, reachable4 = Some False\<rparr>,
  \<lparr>network4 = 3221225481, prefix4 = 32, reachable4 = Some True\<rparr>,
  \<lparr>network4 = 3221225482, prefix4 = 32, reachable4 = Some True\<rparr>,
  \<lparr>network4 = 3221225642, prefix4 = 32, reachable4 = Some False\<rparr>,
  \<lparr>network4 = 3221225643, prefix4 = 32, reachable4 = Some False\<rparr>,
  \<lparr>network4 = 3221225984, prefix4 = 24, reachable4 = Some False\<rparr>,
  \<lparr>network4 = 3223307264, prefix4 = 24, reachable4 = Some True\<rparr>,
  \<lparr>network4 = 3224682752, prefix4 = 24, reachable4 = Some True\<rparr>,
  \<lparr>network4 = 3227017984, prefix4 = 24, reachable4 = None\<rparr>,
  \<lparr>network4 = 3227017986, prefix4 = 32, reachable4 = Some False\<rparr>,
  \<lparr>network4 = 3232235520, prefix4 = 16, reachable4 = Some False\<rparr>,
  \<lparr>network4 = 3232706560, prefix4 = 24, reachable4 = Some True\<rparr>,
  \<lparr>network4 = 3323068416, prefix4 = 15, reachable4 = Some False\<rparr>,
  \<lparr>network4 = 3325256704, prefix4 = 24, reachable4 = Some False\<rparr>,
  \<lparr>network4 = 3405803776, prefix4 = 24, reachable4 = Some False\<rparr>,
  \<lparr>network4 = 4026531840, prefix4 = 4, reachable4 = Some False\<rparr>,
  \<lparr>network4 = 4294967295, prefix4 = 32, reachable4 = Some False\<rparr>]"
  unfolding special_purpose_v4_def special_purpose_v4_source_def by (simp add: cidr_eval)

lemma no_v4_entry_dropped: "length special_purpose_v4 = length special_purpose_v4_source"
  by (simp add: special_purpose_v4_eq special_purpose_v4_source_def)

lemma special_purpose_v6_eq: "special_purpose_v6 =
 [\<lparr>network_hi = 0, network_lo = 1, prefix6 = 128, reachable6 = Some False\<rparr>,
  \<lparr>network_hi = 0, network_lo = 0, prefix6 = 128, reachable6 = Some False\<rparr>,
  \<lparr>network_hi = 0, network_lo = 281470681743360, prefix6 = 96,
     reachable6 = Some False\<rparr>,
  \<lparr>network_hi = 28428538856079360, network_lo = 0, prefix6 = 96,
     reachable6 = Some True\<rparr>,
  \<lparr>network_hi = 28428538856144896, network_lo = 0, prefix6 = 48,
     reachable6 = Some False\<rparr>,
  \<lparr>network_hi = 72057594037927936, network_lo = 0, prefix6 = 64,
     reachable6 = Some False\<rparr>,
  \<lparr>network_hi = 72057594037927937, network_lo = 0, prefix6 = 64,
     reachable6 = Some False\<rparr>,
  \<lparr>network_hi = 2306124484190404608, network_lo = 0, prefix6 = 23,
     reachable6 = Some False\<rparr>,
  \<lparr>network_hi = 2306124484190404608, network_lo = 0, prefix6 = 32,
     reachable6 = Some False\<rparr>,
  \<lparr>network_hi = 2306124488485371904, network_lo = 1, prefix6 = 128,
     reachable6 = Some True\<rparr>,
  \<lparr>network_hi = 2306124488485371904, network_lo = 2, prefix6 = 128,
     reachable6 = Some True\<rparr>,
  \<lparr>network_hi = 2306124488485371904, network_lo = 3, prefix6 = 128,
     reachable6 = Some True\<rparr>,
  \<lparr>network_hi = 2306124492780339200, network_lo = 0, prefix6 = 48,
     reachable6 = Some False\<rparr>,
  \<lparr>network_hi = 2306124497075306496, network_lo = 0, prefix6 = 32,
     reachable6 = Some True\<rparr>,
  \<lparr>network_hi = 2306124501388230656, network_lo = 0, prefix6 = 48,
     reachable6 = Some True\<rparr>,
  \<lparr>network_hi = 2306124552909881344, network_lo = 0, prefix6 = 28,
     reachable6 = None\<rparr>,
  \<lparr>network_hi = 2306124621629358080, network_lo = 0, prefix6 = 28,
     reachable6 = Some True\<rparr>,
  \<lparr>network_hi = 2306124690348834816, network_lo = 0, prefix6 = 28,
     reachable6 = Some True\<rparr>,
  \<lparr>network_hi = 2306139568115548160, network_lo = 0, prefix6 = 32,
     reachable6 = Some False\<rparr>,
  \<lparr>network_hi = 2306405959167115264, network_lo = 0, prefix6 = 16,
     reachable6 = Some False\<rparr>,
  \<lparr>network_hi = 2747196114145902592, network_lo = 0, prefix6 = 48,
     reachable6 = Some True\<rparr>,
  \<lparr>network_hi = 4611404543450677248, network_lo = 0, prefix6 = 20,
     reachable6 = Some False\<rparr>,
  \<lparr>network_hi = 6845471433603153920, network_lo = 0, prefix6 = 16,
     reachable6 = Some False\<rparr>,
  \<lparr>network_hi = 18158513697557839872, network_lo = 0, prefix6 = 7,
     reachable6 = Some False\<rparr>,
  \<lparr>network_hi = 18338657682652659712, network_lo = 0, prefix6 = 10,
     reachable6 = Some False\<rparr>]"
  unfolding special_purpose_v6_def special_purpose_v6_source_def by (simp add: cidr6_eval)

lemma no_v6_entry_dropped: "length special_purpose_v6 = length special_purpose_v6_source"
  by (simp add: special_purpose_v6_eq special_purpose_v6_source_def)

subsection \<open>Masks are prefixes\<close>

lemma and_push_mask_eq_iff:
  fixes a b :: "'a::len word"
  shows "a AND push_bit k (-1) = b AND push_bit k (-1) \<longleftrightarrow> drop_bit k a = drop_bit k b"
proof
  assume eq: "a AND push_bit k (-1) = b AND push_bit k (-1)"
  show "drop_bit k a = drop_bit k b"
  proof (rule bit_eqI)
    fix n assume "possible_bit TYPE('a word) n"
    have "bit (a AND push_bit k (-1)) (k + n) = bit (b AND push_bit k (-1)) (k + n)" by (simp only: eq)
    then show "bit (drop_bit k a) n = bit (drop_bit k b) n"
      by (auto simp: bit_simps dest: bit_imp_le_length)
  qed
next
  assume eq: "drop_bit k a = drop_bit k b"
  show "a AND push_bit k (-1) = b AND push_bit k (-1)"
  proof (rule bit_eqI)
    fix n
    have "bit (drop_bit k a) (n - k) = bit (drop_bit k b) (n - k)" by (simp only: eq)
    then show "bit (a AND push_bit k (-1)) n = bit (b AND push_bit k (-1)) n"
      by (auto simp: bit_simps)
  qed
qed

lemma ipv4_in_cidr_iff:
  "p \<le> 32 \<Longrightarrow> ipv4_in_cidr a n p \<longleftrightarrow> drop_bit (32 - p) a = drop_bit (32 - p) n"
proof -
  assume p: "p \<le> 32"
  have full: "(0xffffffff :: 32 word) = -1" by simp
  consider "p = 0" | "p = 32" | "0 < p" "p < 32" using p by linarith
  then show ?thesis
  proof cases
    case 1
    have "drop_bit 32 w = 0" for w :: "32 word" by (simp add: drop_bit_eq_zero_iff_not_bit_last not_le bit_simps bit_eq_iff)
    with 1 show ?thesis by (simp add: ipv4_in_cidr_def)
  next
    case 2
    then show ?thesis by (simp add: ipv4_in_cidr_def)
  next
    case 3
    then show ?thesis by (simp only: ipv4_in_cidr_def full and_push_mask_eq_iff Let_def) simp
  qed
qed

lemma drop_bit_coarser:
  "drop_bit m a = drop_bit m b \<Longrightarrow> m \<le> k \<Longrightarrow> drop_bit k a = drop_bit k (b :: 'a::len word)"
proof -
  assume "drop_bit m a = drop_bit m b" and "m \<le> k"
  then have "drop_bit (k - m) (drop_bit m a) = drop_bit (k - m) (drop_bit m b)" by simp
  with \<open>m \<le> k\<close> show ?thesis by (simp add: drop_bit_drop_bit)
qed

lemma prefix4_le: "e \<in> set special_purpose_v4 \<Longrightarrow> prefix4 e \<le> 32"
  by (auto simp: special_purpose_v4_eq)

text \<open>
  An address inside an unreachable block is not global, unless a reachable block at least as long
  lies inside it.
\<close>

lemma not_global_in_block:
  assumes e: "e \<in> set special_purpose_v4" "reachable4 e = Some False"
    and x: "drop_bit (32 - prefix4 e) x = drop_bit (32 - prefix4 e) (network4 e)"
    and sub: "\<forall>f \<in> set special_purpose_v4. prefix4 e \<le> prefix4 f
       \<longrightarrow> drop_bit (32 - prefix4 e) (network4 f) = drop_bit (32 - prefix4 e) (network4 e)
       \<longrightarrow> reachable4 f \<noteq> Some True"
  shows "\<not> is_global_ipv4_int x"
proof -
  let ?P = "\<lambda>f. reachable4 f \<noteq> None \<and> ipv4_in_cidr x (network4 f) (prefix4 f)"
  have Pe: "?P e" using e x by (simp add: ipv4_in_cidr_iff prefix4_le)
  then obtain f where f: "best_scan ?P prefix4 special_purpose_v4 None = Some f"
    using e(1) best_scan_None_iff [of ?P prefix4 special_purpose_v4] by (cases "best_scan ?P prefix4 special_purpose_v4 None") auto
  from best_scan_SomeD [OF f] Pe e(1) have mem: "f \<in> set special_purpose_v4"
    and Pf: "ipv4_in_cidr x (network4 f) (prefix4 f)" and le: "prefix4 e \<le> prefix4 f" by auto
  from Pf have "drop_bit (32 - prefix4 f) x = drop_bit (32 - prefix4 f) (network4 f)"
    using ipv4_in_cidr_iff prefix4_le [OF mem] by blast
  then have "drop_bit (32 - prefix4 e) x = drop_bit (32 - prefix4 e) (network4 f)"
    by (rule drop_bit_coarser) (use le in simp)
  with x sub mem le have "reachable4 f \<noteq> Some True" by auto
  with f show ?thesis by (simp add: is_global_ipv4_int_def)
qed

subsection \<open>Addresses as numbers\<close>

lemma push_bit_or_of_nat:
  assumes "r < 2 ^ n"
  shows "push_bit n (word_of_nat a :: 'a::len word) OR word_of_nat r = word_of_nat (a * 2 ^ n + r)"
proof -
  have "bit (word_of_nat r :: 'a word) m \<Longrightarrow> m < n" for m
  proof (rule ccontr)
    assume b: "bit (word_of_nat r :: 'a word) m" and "\<not> m < n"
    then have "r < 2 ^ m" using assms by (meson less_le_trans not_less power_increasing one_le_numeral)
    moreover have "bit r m" using b by (simp only: bit_of_nat_iff)
    ultimately show False by (simp add: bit_iff_odd)
  qed
  then have "push_bit n (word_of_nat a :: 'a word) + word_of_nat r
      = push_bit n (word_of_nat a) OR word_of_nat r"
    by (intro disjunctive_add) (metis bit_push_bit_iff not_less)
  then show ?thesis by (simp add: push_bit_eq_mult mult.commute)
qed

lemma ipv4_to_int_of_nat:
  "a < 256 \<Longrightarrow> b < 256 \<Longrightarrow> c < 256 \<Longrightarrow> d < 256
   \<Longrightarrow> ipv4_to_int (a, b, c, d) = word_of_nat (a * 16777216 + b * 65536 + c * 256 + d)"
  unfolding ipv4_to_int_def prod.case
  by (subst push_bit_or_of_nat, simp, subst push_bit_or_of_nat, simp, subst push_bit_or_of_nat, simp)
     (simp add: algebra_simps)

lemma unat_word_of_nat_32: "n < 4294967296 \<Longrightarrow> unat (word_of_nat n :: 32 word) = n"
  by (simp add: unat_of_nat take_bit_eq_mod)

lemma unat_ipv4_to_int:
  "a < 256 \<Longrightarrow> b < 256 \<Longrightarrow> c < 256 \<Longrightarrow> d < 256
   \<Longrightarrow> unat (ipv4_to_int (a, b, c, d)) = a * 16777216 + b * 65536 + c * 256 + d"
  by (simp only: ipv4_to_int_of_nat) (rule unat_word_of_nat_32, simp)

lemma private_blocks_not_global:
  assumes "b < 256" "c < 256" "d < 256"
  shows "\<not> is_global_ipv4_int (ipv4_to_int (10, b, c, d))"
    and "\<not> is_global_ipv4_int (ipv4_to_int (127, b, c, d))"
    and "16 \<le> b \<Longrightarrow> b \<le> 31 \<Longrightarrow> \<not> is_global_ipv4_int (ipv4_to_int (172, b, c, d))"
    and "b = 168 \<Longrightarrow> \<not> is_global_ipv4_int (ipv4_to_int (192, b, c, d))"
proof -
  have n: "unat (ipv4_to_int (a, b, c, d)) = a * 16777216 + b * 65536 + c * 256 + d" if "a < 256" for a
    using assms that by (simp add: unat_ipv4_to_int)
  show "\<not> is_global_ipv4_int (ipv4_to_int (10, b, c, d))"
    by (rule not_global_in_block [of "\<lparr>network4 = 167772160, prefix4 = 8, reachable4 = Some False\<rparr>"])
       (use assms n in \<open>simp_all add: special_purpose_v4_eq word_unat_eq_iff unat_shiftr\<close>)
  show "\<not> is_global_ipv4_int (ipv4_to_int (127, b, c, d))"
    by (rule not_global_in_block [of "\<lparr>network4 = 2130706432, prefix4 = 8, reachable4 = Some False\<rparr>"])
       (use assms n in \<open>simp_all add: special_purpose_v4_eq word_unat_eq_iff unat_shiftr\<close>)
  show "\<not> is_global_ipv4_int (ipv4_to_int (172, b, c, d))" if "16 \<le> b" "b \<le> 31"
    by (rule not_global_in_block [of "\<lparr>network4 = 2886729728, prefix4 = 12, reachable4 = Some False\<rparr>"])
       (use assms n that in \<open>simp_all add: special_purpose_v4_eq word_unat_eq_iff unat_shiftr\<close>)
  show "\<not> is_global_ipv4_int (ipv4_to_int (192, b, c, d))" if "b = 168"
    by (rule not_global_in_block [of "\<lparr>network4 = 3232235520, prefix4 = 16, reachable4 = Some False\<rparr>"])
       (use assms n that in \<open>simp_all add: special_purpose_v4_eq word_unat_eq_iff unat_shiftr\<close>)
qed

end
