(* ===== verification/Ip_Guard.thy ===== *)
theory Ip_Guard
  imports Ip_Literal
begin

text \<open>
  What the request guard relies on: no host that \<open>Connect_Host\<close> calls private, loopback, unique
  local or link local is ever classified as globally reachable by \<open>Ip_Literal\<close> (the two files parse
  literals separately), and writing an IPv4 address in its IPv4-mapped IPv6 form does not change
  its classification.
\<close>

subsection \<open>Normal forms of host strings\<close>

lemma js_trim_idem: "js_trim (js_trim s) = js_trim s"
proof -
  have d: "dropWhile P (dropWhile P t) = dropWhile P t" for P :: "char \<Rightarrow> bool" and t
    by (induction t) auto
  define u where "u = dropWhile is_space s"
  define v where "v = rev (dropWhile is_space (rev u))"
  have "v = [] \<or> \<not> is_space (hd v)"
  proof (cases "v = []")
    case False
    have "u = v @ rev (takeWhile is_space (rev u))"
      unfolding v_def by (metis rev_append rev_rev_ident takeWhile_dropWhile_id)
    then have "hd v = hd u" using False by (metis hd_append2)
    moreover have "u \<noteq> []" using False by (auto simp: v_def)
    ultimately show ?thesis unfolding u_def by (metis hd_dropWhile)
  qed simp
  then have "dropWhile is_space v = v" by (cases v) auto
  then show ?thesis unfolding js_trim_def u_def [symmetric] v_def [symmetric]
    by (simp add: v_def d)
qed

lemma strip_brackets_trim [simp]: "strip_connect_host_brackets (js_trim s) = strip_connect_host_brackets s"
  by (simp add: strip_connect_host_brackets_def js_trim_idem)

lemma lower_char_idem [simp]: "lower_char (lower_char c) = lower_char c"
proof -
  have "code (lower_char (lower_char c)) = code (lower_char c)"
    using code_less [of c] by (auto simp: lower_char_def Let_def)
  then show ?thesis by simp
qed

lemma js_lower_idem [simp]: "js_lower (js_lower s) = js_lower s"
  by (simp add: js_lower_def)

lemma lower_char_digit: "is_digit c \<or> c = CHR ''.'' \<Longrightarrow> lower_char c = c"
  by (auto simp: lower_char_def Let_def is_digit_def code_def)

lemma js_lower_digits: "\<forall>c \<in> set s. is_digit c \<or> c = CHR ''.'' \<Longrightarrow> js_lower s = s"
  by (simp add: js_lower_def lower_char_digit map_idI)

lemma octets_chars:
  assumes "octets_of_parts (js_split (CHR ''.'') s) \<noteq> None"
  shows "\<forall>c \<in> set s. is_digit c \<or> c = CHR ''.''"
  using octets_of_parts_digits [OF assms] js_split_chars [of s "CHR ''.''"]
  by (fastforce simp: list_all_iff)

lemma octets_of_parts_facts:
  "octets_of_parts parts = Some os \<Longrightarrow> length os = length parts \<and> (\<forall>n \<in> set os. n < 256)"
  by (induction parts arbitrary: os) (auto simp: Let_def split: if_splits)

lemma literal_of_octets:
  assumes "parse_ipv4_octets s = Some os"
  shows "\<exists>a b c d. os = [a, b, c, d] \<and> literal_ipv4_octets s = Some (a, b, c, d)
     \<and> a < 256 \<and> b < 256 \<and> c < 256 \<and> d < 256"
proof -
  from assms have l: "length (js_split (CHR ''.'') s) = 4" and o: "octets_of_parts (js_split (CHR ''.'') s) = Some os"
    by (auto simp: parse_ipv4_octets_def Let_def split: if_splits)
  from octets_of_parts_facts [OF o] l have "length os = 4" and b: "\<forall>n \<in> set os. n < 256" by auto
  then obtain a b c d where os: "os = [a, b, c, d]" by (auto simp: numeral_eq_Suc length_Suc_conv)
  with l o b show ?thesis by (auto simp: literal_ipv4_octets_def at_opt_def)
qed

lemma ipv4_host_plain:
  assumes "parse_ipv4_octets s = Some os"
  shows "js_lower s = s" and "CHR '':'' \<notin> set s" and "s \<noteq> []"
proof -
  have v: "is_valid_ipv4_host s" using assms by (simp add: is_valid_ipv4_host_def)
  then show "CHR '':'' \<notin> set s" by (rule ipv4_host_no_colon)
  from assms have "\<forall>c \<in> set s. is_digit c \<or> c = CHR ''.''"
    by (intro octets_chars) (auto simp: parse_ipv4_octets_def Let_def split: if_splits)
  then show "js_lower s = s" by (rule js_lower_digits)
  from assms show "s \<noteq> []" by (auto simp: parse_ipv4_octets_def Let_def split: if_splits)
qed

lemma global_of_ipv4:
  assumes "parse_ipv4_octets (strip_connect_host_brackets host) = Some os"
  shows "\<exists>a b c d. os = [a, b, c, d] \<and> a < 256 \<and> b < 256 \<and> c < 256 \<and> d < 256
     \<and> is_global_ip_literal host = Some (is_global_ipv4_int (ipv4_to_int (a, b, c, d)))"
  using literal_of_octets [OF assms] ipv4_host_plain [OF assms]
  by (auto simp: is_global_ip_literal_def Let_def)

subsection \<open>IPv6 literals\<close>

lemma hextet_not_v4: "is_hextet part \<Longrightarrow> part \<noteq> ''v4'' \<and> part \<noteq> ''v4a'' \<and> part \<noteq> ''v4b''"
  by (auto simp: is_hextet_def is_hex_digit_def is_digit_def code_def)

lemma expand_parts_hextets: "list_all is_hextet parts \<Longrightarrow> expand_parts parts = parts"
  by (induction parts) (auto simp: expand_parts_def dest: hextet_not_v4)

lemma parse_hextet_hextet: "is_hextet part \<Longrightarrow> parse_hextet part = Some (hex_value part)"
  by (auto simp: parse_hextet_def is_hextet_def)

lemma literal_loop_hextets:
  "list_all is_hextet parts \<Longrightarrow> literal_hextets_loop v4 parts = Some (map hex_value parts)"
  by (induction parts) (simp_all add: parse_hextet_hextet hextet_not_v4)

lemma is_hextet_zero: "is_hextet ''0''"
  by (simp add: is_hextet_def is_hex_digit_def is_digit_def code_def)

text \<open>Where both files parse an IPv6 literal, they read the same hextets.\<close>

lemma literal_parse_agrees:
  assumes "parse_ipv6_hextets host = Some hs" and "strip_connect_host_brackets host = host"
    and "js_lower host = host" and "CHR ''.'' \<notin> set host"
  shows "parse_ipv6_literal host = None \<or> parse_ipv6_literal host = Some hs"
proof -
  have "CHR ''.'' \<notin> set (after_last (CHR '':'') host)"
    using assms(4) by (auto simp: after_last_def dest: set_takeWhileD)
  then have "parse_ipv6_literal host = None \<or> parse_ipv6_literal host = expand_hextets host None"
    using assms(2,3) by (simp add: parse_ipv6_literal_def)
  moreover have "expand_hextets host None = None \<or> expand_hextets host None = Some hs"
    using parse_ipv6_hextets_SomeD [OF assms(1)] unfolding assms(2,3)
  proof (elim disjE exE conjE)
    fix a b
    assume ab: "js_split2 (CHR '':'') host = [a, b]"
      and h: "list_all is_hextet (split_nonempty a)" "list_all is_hextet (split_nonempty b)"
      and le: "length (split_nonempty a) + length (split_nonempty b) \<le> 8"
      and hs: "hs = map hex_value (split_nonempty a
          @ replicate (8 - length (split_nonempty a) - length (split_nonempty b)) ''0'' @ split_nonempty b)"
    have "nat (8 - int x - int y) = 8 - x - y" for x y by linarith
    moreover have "list_all is_hextet (split_nonempty a
          @ replicate (8 - length (split_nonempty a) - length (split_nonempty b)) ''0'' @ split_nonempty b)"
      using h is_hextet_zero by (auto simp: list_all_iff)
    ultimately show ?thesis
      using literal_loop_hextets [of "split_nonempty a
          @ replicate (8 - length (split_nonempty a) - length (split_nonempty b)) ''0'' @ split_nonempty b" None]
      by (simp add: expand_hextets_def ab expand_parts_hextets h hs Let_def del: map_append)
  next
    assume "length (js_split2 (CHR '':'') host) \<le> 1"
      and "list_all is_hextet (js_split (CHR '':'') host)" "length (js_split (CHR '':'') host) = 8"
      and "hs = map hex_value (js_split (CHR '':'') host)"
    then show ?thesis by (simp add: expand_hextets_def expand_parts_hextets literal_loop_hextets)
  qed
  ultimately show ?thesis by auto
qed

lemma hex_value_hextet: "is_hextet s \<Longrightarrow> hex_value s < 65536"
proof -
  have "\<forall>c \<in> set s. hex_digit_val c < 16 \<Longrightarrow> hex_value s < 16 ^ length s"
    by (induction s rule: rev_induct) (auto simp: hex_value_def)
  moreover assume h: "is_hextet s"
  moreover have "(16 :: nat) ^ length s \<le> 16 ^ 4" using h by (intro power_increasing) (auto simp: is_hextet_def)
  ultimately show ?thesis using hex_digit_val_less by (fastforce simp: is_hextet_def list_all_iff)
qed

lemma parse_ipv6_hextets_shape:
  assumes "parse_ipv6_hextets host = Some hs"
  shows "length hs = 8" and "\<forall>h \<in> set hs. h < 65536"
proof -
  have z: "hex_value ''0'' = 0" by (simp add: hex_value_def hex_digit_val_def is_digit_def code_def)
  from parse_ipv6_hextets_SomeD [OF assms] hex_value_hextet
  show "length hs = 8" "\<forall>h \<in> set hs. h < 65536"
    by (auto simp: list_all_iff z)
qed

lemma join4_of_nat:
  assumes "xs ! 1 < 65536" "xs ! 2 < 65536" "xs ! 3 < 65536"
  shows "join4 xs = word_of_nat (xs ! 0 * 2 ^ 48 + (xs ! 1 * 2 ^ 32 + (xs ! 2 * 2 ^ 16 + xs ! 3)))"
  unfolding join4_def using assms by (simp add: push_bit_or_of_nat del: of_nat_add of_nat_mult)

lemma join4_top:
  assumes "length hs = 8" and "\<forall>h \<in> set hs. h < 65536"
  shows "unat (join4 (take 4 hs)) div 281474976710656 = hs ! 0"
proof -
  have b: "hs ! i < 65536" if "i < 8" for i using assms that by simp
  have "join4 (take 4 hs) = word_of_nat (hs ! 0 * 2 ^ 48 + (hs ! 1 * 2 ^ 32 + (hs ! 2 * 2 ^ 16 + hs ! 3)))"
    using b [of 1] b [of 2] b [of 3] by (subst join4_of_nat) simp_all
  moreover have "unat (word_of_nat n :: 64 word) = n" if "n < 18446744073709551616" for n
    using that by (simp add: unat_of_nat take_bit_eq_mod)
  ultimately show ?thesis using b [of 0] b [of 1] b [of 2] b [of 3]
    by (simp del: of_nat_add of_nat_mult)
qed

lemma push_mask_64: "p \<le> 64 \<Longrightarrow> push_bit (64 - p) (mask p) = (push_bit (64 - p) (-1) :: 64 word)"
  by (rule bit_eqI) (auto simp: bit_simps)

lemma global_unicast_iff:
  assumes "length hs = 8" and "\<forall>h \<in> set hs. h < 65536"
  shows "in_v6_cidr hs ''2000::/3'' \<longleftrightarrow> hs ! 0 div 8192 = 1"
proof -
  have c: "parse_ipv6_cidr ''2000::/3'' = Some (0x2000000000000000, 0, 3)" by (simp add: cidr6_eval)
  have u: "unat (0x2000000000000000 :: 64 word) div 2 ^ 61 = 1" by simp
  have "in_v6_cidr hs ''2000::/3'' \<longleftrightarrow>
      (let m = push_bit (64 - 3) (mask 3) in join4 (take 4 hs) AND m = 0x2000000000000000 AND m)"
    by (simp add: in_v6_cidr_def hextets_to_big_ints_def c ipv6_in_cidr_def)
  also have "\<dots> \<longleftrightarrow> drop_bit (64 - 3) (join4 (take 4 hs)) = drop_bit (64 - 3) 0x2000000000000000"
    by (simp only: Let_def push_mask_64 and_push_mask_eq_iff)
  also have "\<dots> \<longleftrightarrow> unat (join4 (take 4 hs)) div 2 ^ 61 = 1"
    by (simp only: word_unat_eq_iff unat_shiftr) (simp add: u)
  also have "\<dots> \<longleftrightarrow> hs ! 0 div 8192 = 1"
    unfolding join4_top [OF assms, symmetric] by (simp add: div_mult2_eq [symmetric])
  finally show ?thesis .
qed

lemma embedded_prefix:
  assumes "length hs = 8" and "\<forall>h \<in> set hs. h < 65536" and "embedded_ipv4_from_hextets hs \<noteq> None"
  shows "hs ! 0 = 0 \<or> hs ! 0 = 0x64"
proof -
  have c: "parse_ipv6_cidr ''::ffff:0:0/96'' = Some (0, 281470681743360, 96)"
    "parse_ipv6_cidr ''64:ff9b::/96'' = Some (28428538856079360, 0, 96)" by (simp_all add: cidr6_eval)
  from assms(3) have "join4 (take 4 hs) = 0 \<or> join4 (take 4 hs) = 28428538856079360"
    by (auto simp: embedded_ipv4_from_hextets_def in_v6_cidr_def hextets_to_big_ints_def c ipv6_in_cidr_def
        Let_def split: if_splits)
  then show ?thesis using join4_top [OF assms(1,2)] by auto
qed

lemma not_global_v6:
  assumes "length hs = 8" and "\<forall>h \<in> set hs. h < 65536" and "0xfc00 \<le> hs ! 0"
  shows "\<not> is_global_ipv6_hextets hs"
proof -
  have "embedded_ipv4_from_hextets hs = None"
    using embedded_prefix [OF assms(1,2)] assms(3) by (cases "embedded_ipv4_from_hextets hs") auto
  moreover have "hs ! 0 div 8192 \<noteq> 1" using assms(3) by linarith
  then have "\<not> in_v6_cidr hs ''2000::/3''" using global_unicast_iff [OF assms(1,2)] by blast
  ultimately show ?thesis by (simp add: is_global_ipv6_hextets_def)
qed

subsection \<open>Local hosts are not global\<close>

lemma ipv6_host_normal:
  assumes "parse_ipv6_hextets host = Some hs"
  defines "n \<equiv> js_lower (strip_connect_host_brackets host)"
  shows "\<forall>c \<in> set n. ipv6_char c" and "strip_connect_host_brackets n = n" and "js_lower n = n"
    and "parse_ipv6_hextets n = Some hs" and "CHR '':'' \<in> set n"
proof -
  show chars: "\<forall>c \<in> set n. ipv6_char c"
    using parse_ipv6_hextets_SomeD [OF assms(1)] unfolding n_def [symmetric]
  proof (elim disjE exE conjE)
    fix a b
    assume "js_split2 (CHR '':'') n = [a, b]"
      and "list_all is_hextet (split_nonempty a)" "list_all is_hextet (split_nonempty b)"
    with js_split2_chars [of n "CHR '':''"] split_nonempty_chars [of a] split_nonempty_chars [of b]
    show ?thesis by (auto simp: ipv6_char_def)
  next
    assume "list_all is_hextet (js_split (CHR '':'') n)"
    with split_nonempty_chars [of n] show ?thesis by (cases "n = []") (auto simp: split_nonempty_def)
  qed
  have "\<not> starts_with ''['' n"
    using chars ipv6_char_plain by (cases n) (auto simp: starts_with_def)
  then show s: "strip_connect_host_brackets n = n"
    using chars ipv6_char_plain by (intro strip_brackets_id) auto
  show l: "js_lower n = n" by (simp add: n_def)
  show "parse_ipv6_hextets n = Some hs"
    using assms(1) unfolding parse_ipv6_hextets_def n_def [symmetric] s l .
  show "CHR '':'' \<in> set n"
    using assms(1) unfolding parse_ipv6_hextets_def n_def [symmetric] by (auto simp: Let_def split: if_splits)
qed

lemma global_of_ipv6:
  assumes "parse_ipv6_hextets host = Some hs"
  shows "is_global_ip_literal host = None \<or> is_global_ip_literal host = Some (is_global_ipv6_hextets hs)"
proof -
  define n where "n = js_lower (strip_connect_host_brackets host)"
  note N = ipv6_host_normal [OF assms, folded n_def]
  have "CHR ''.'' \<notin> set n"
    using N(1) by (auto simp: ipv6_char_def is_hex_digit_def is_digit_def code_def)
  from literal_parse_agrees [OF N(4) N(2) N(3) this] N(5)
  have "parse_ipv6_literal n = None \<or> parse_ipv6_literal n = Some hs" "n \<noteq> []" by auto
  with N(5) show ?thesis by (auto simp: is_global_ip_literal_def Let_def n_def [symmetric])
qed

lemma link_local_bound: "h < 65536 \<Longrightarrow> (word_of_nat h :: 32 word) AND 0xffc0 = 0xfe80 \<Longrightarrow> 0xfe80 \<le> h"
proof -
  assume h: "h < 65536" and eq: "(word_of_nat h :: 32 word) AND 0xffc0 = 0xfe80"
  have "word_of_nat h AND 0xffc0 \<le> (word_of_nat h :: 32 word)" by (rule word_and_le2)
  then have "unat (0xfe80 :: 32 word) \<le> unat (word_of_nat h :: 32 word)"
    unfolding eq by (simp only: word_le_nat_alt)
  then show ?thesis using h by (simp add: unat_word_of_nat_32)
qed

text \<open>
  C11: no local address passes the guard. A host that \<^verbatim>\<open>connectHost.ts\<close> classifies as private, as
  loopback, as a unique local or as a link local address is never classified as globally reachable
  by \<^verbatim>\<open>isGlobalIpLiteral\<close>, in whatever spelling (case, brackets, blanks, \<^verbatim>\<open>::\<close>) it is written.
\<close>

theorem local_host_not_global:
  assumes "is_private_network_host host \<or> is_loopback_host host \<or> is_unique_local_ipv6 host
     \<or> is_link_local_ipv6 host"
  shows "is_global_ip_literal host \<noteq> Some True"
  using assms
proof (elim disjE)
  assume "is_private_network_host host"
  then obtain os where os: "parse_ipv4_octets (strip_connect_host_brackets host) = Some os"
    by (auto simp: is_private_network_host_def split: option.splits)
  from global_of_ipv4 [OF os] os \<open>is_private_network_host host\<close> private_blocks_not_global
  show ?thesis by (auto simp: is_private_network_host_def at_opt_def split: if_splits)
next
  assume lb: "is_loopback_host host"
  show ?thesis
  proof (cases "js_lower (strip_connect_host_brackets host) = ''::1''")
    case True
    have "parse_ipv6_literal ''::1'' = Some [0, 0, 0, 0, 0, 0, 0, 1]" by (simp add: ipv6_eval)
    moreover have "\<not> is_global_ipv6_hextets [0, 0, 0, 0, 0, 0, 0, 1]"
      using global_unicast_iff [of "[0, 0, 0, 0, 0, 0, 0, 1]"]
      by (simp add: is_global_ipv6_hextets_def embedded_ipv4_from_hextets_def in_v6_cidr_def
          hextets_to_big_ints_def ipv6_in_cidr_def cidr6_eval mask_eq_decr_exp)
    ultimately show ?thesis using True by (simp add: is_global_ip_literal_def)
  next
    case False
    with lb obtain os where os: "parse_ipv4_octets (js_lower (strip_connect_host_brackets host)) = Some os"
      and h: "at_opt os 0 = Some 127"
      by (auto simp: is_loopback_host_def Let_def split: option.splits)
    from literal_of_octets [OF os] ipv4_host_plain [OF os] h private_blocks_not_global
    show ?thesis by (auto simp: is_global_ip_literal_def at_opt_def)
  qed
next
  assume "is_unique_local_ipv6 host"
  then obtain hs where hs: "parse_ipv6_hextets host = Some hs" and d: "hs ! 0 div 256 = 0xfc \<or> hs ! 0 div 256 = 0xfd"
    using parse_ipv6_hextets_shape
    by (auto simp: is_unique_local_ipv6_def at_opt_def split: option.splits)
  then have "0xfc00 \<le> hs ! 0" by linarith
  with not_global_v6 parse_ipv6_hextets_shape [OF hs] global_of_ipv6 [OF hs] show ?thesis by fastforce
next
  assume "is_link_local_ipv6 host"
  then obtain hs where hs: "parse_ipv6_hextets host = Some hs"
    and d: "(word_of_nat (hs ! 0) :: 32 word) AND 0xffc0 = 0xfe80"
    using parse_ipv6_hextets_shape
    by (auto simp: is_link_local_ipv6_def at_opt_def split: option.splits)
  then have "0xfc00 \<le> hs ! 0" using link_local_bound [OF _ d] parse_ipv6_hextets_shape [OF hs] by auto
  with not_global_v6 parse_ipv6_hextets_shape [OF hs] global_of_ipv6 [OF hs] show ?thesis by fastforce
qed

lemma local_host_not_global_witness:
  "is_global_ip_literal ''[::1]'' \<noteq> Some True \<and> is_global_ip_literal '' 192.168.0.7 '' \<noteq> Some True"
proof
  have "is_loopback_host ''[::1]''" by code_simp
  then show "is_global_ip_literal ''[::1]'' \<noteq> Some True" using local_host_not_global by blast
  have "is_private_network_host '' 192.168.0.7 ''"
    by (simp add: is_private_network_host_def parse_ipv4_octets_def cidr_eval ends_with_def)
  then show "is_global_ip_literal '' 192.168.0.7 '' \<noteq> Some True" using local_host_not_global by blast
qed

subsection \<open>IPv4-mapped literals\<close>

definition dotted_quad :: "nat \<Rightarrow> nat \<Rightarrow> nat \<Rightarrow> nat \<Rightarrow> string" where
  "dotted_quad a b c d = js_join (CHR ''.'') (map dec_string [a, b, c, d])"

lemma length_dec_string_octet: "n < 256 \<Longrightarrow> length (dec_string n) \<le> 3"
proof -
  assume n: "n < 256"
  have 1: "length (dec_string m) = 1" if "m < 10" for m using that by (subst dec_string.simps) simp
  have 2: "length (dec_string m) \<le> 2" if "m < 100" for m
    using that 1 [of "m div 10"] by (subst dec_string.simps) auto
  show ?thesis using n 2 [of "n div 10"] by (subst dec_string.simps) auto
qed

lemma dec_string_octet_part:
  "n < 256 \<Longrightarrow> octets_of_parts (dec_string n # parts) = map_option (Cons n) (octets_of_parts parts)"
  using length_dec_string_octet [of n] dec_string_digits [of n]
  by (simp add: list_all_iff Suc_le_eq)

lemma dotted_quad_chars: "\<forall>c \<in> set (dotted_quad a b c d). is_digit c \<or> c = CHR ''.''"
  using dec_string_digits by (auto simp: dotted_quad_def)

lemma dotted_quad_parse:
  assumes "a < 256" "b < 256" "c < 256" "d < 256"
  shows "literal_ipv4_octets (dotted_quad a b c d) = Some (a, b, c, d)"
    and "parse_ipv4_octets (dotted_quad a b c d) = Some [a, b, c, d]"
proof -
  have "CHR ''.'' \<notin> set (dec_string n)" for n
  proof
    assume "CHR ''.'' \<in> set (dec_string n)"
    with dec_string_digits [of n] have "is_digit (CHR ''.'')" by blast
    then show False by (simp add: is_digit_def code_def)
  qed
  then have "\<forall>s \<in> set (map dec_string [a, b, c, d]). CHR ''.'' \<notin> set s" by simp
  then have "js_split (CHR ''.'') (dotted_quad a b c d) = map dec_string [a, b, c, d]"
    unfolding dotted_quad_def by (intro js_split_join) simp_all
  with assms show "literal_ipv4_octets (dotted_quad a b c d) = Some (a, b, c, d)"
    and "parse_ipv4_octets (dotted_quad a b c d) = Some [a, b, c, d]"
    by (simp_all add: literal_ipv4_octets_def parse_ipv4_octets_def dec_string_octet_part at_opt_def del: octets_of_parts.simps(2))
qed

lemma mapped_is_embedded:
  assumes "a < 256" "b < 256" "c < 256" "d < 256"
  shows "is_global_ipv6_hextets [0, 0, 0, 0, 0, 0xffff, 256 * a + b, 256 * c + d]
     = is_global_ipv4_int (ipv4_to_int (a, b, c, d))"
proof -
  let ?hs = "[0, 0, 0, 0, 0, 0xffff, 256 * a + b, 256 * c + d]"
  let ?lo = "256 * a + b" and ?l = "256 * c + d"
  have c96: "parse_ipv6_cidr ''::ffff:0:0/96'' = Some (0, 281470681743360, 96)" by (simp add: cidr6_eval)
  have nat64: "unat (word_of_nat n :: 64 word) = n" if "n < 18446744073709551616" for n
    using that by (simp add: unat_of_nat take_bit_eq_mod)
  have lo: "join4 (drop 4 ?hs) = word_of_nat (0xffff * 2 ^ 32 + (?lo * 2 ^ 16 + ?l))"
    using assms join4_of_nat [of "[0, 0xffff, ?lo, ?l]"] by (simp del: of_nat_add of_nat_mult)
  have "drop_bit 32 (join4 (drop 4 ?hs)) = drop_bit 32 (281470681743360 :: 64 word)"
    unfolding lo word_unat_eq_iff unat_shiftr using assms
    by (subst nat64) (simp_all del: of_nat_add of_nat_mult)
  then have "join4 (drop 4 ?hs) AND push_bit 32 (-1) = 281470681743360 AND push_bit 32 (-1)"
    by (simp only: and_push_mask_eq_iff)
  moreover have "push_bit 32 (mask 32) = (push_bit 32 (-1) :: 64 word)" using push_mask_64 [of 32] by simp
  moreover have "join4 (take 4 ?hs) = 0" by (simp add: join4_def)
  ultimately have "in_v6_cidr ?hs ''::ffff:0:0/96''"
    by (simp only: in_v6_cidr_def hextets_to_big_ints_def c96 prod.case option.case ipv6_in_cidr_def Let_def) simp
  then have "embedded_ipv4_from_hextets ?hs = Some (push_bit 16 (word_of_nat ?lo) OR word_of_nat ?l)"
    by (simp add: embedded_ipv4_from_hextets_def)
  moreover have "push_bit 16 (word_of_nat ?lo) OR word_of_nat ?l = ipv4_to_int (a, b, c, d)"
    using assms by (simp add: push_bit_or_of_nat ipv4_to_int_of_nat del: of_nat_add of_nat_mult) (simp add: algebra_simps)
  ultimately show ?thesis by (simp add: is_global_ipv6_hextets_def)
qed

text \<open>
  The IPv4-mapped spelling cannot be used to get around the guard. For every IPv4 address
  \<open>a.b.c.d\<close>, the literal \<open>::ffff:a.b.c.d\<close> is classified exactly like the literal \<open>a.b.c.d\<close>, and
  both are recognised as literals.
\<close>

theorem mapped_literal_same_class:
  assumes "a < 256" "b < 256" "c < 256" "d < 256"
  shows "is_global_ip_literal (''::ffff:'' @ dotted_quad a b c d) = is_global_ip_literal (dotted_quad a b c d)
     \<and> is_global_ip_literal (dotted_quad a b c d) = Some (is_global_ipv4_int (ipv4_to_int (a, b, c, d)))"
proof -
  let ?q = "dotted_quad a b c d"
  let ?m = "''::ffff:'' @ ?q"
  note P = dotted_quad_parse [OF assms]
  have qc: "CHR '':'' \<notin> set ?q" using dotted_quad_chars [of a b c d] by (auto simp: is_digit_def code_def)
  have dot: "CHR ''.'' \<in> set ?q" by (auto simp: dotted_quad_def)
  have qs: "\<forall>x \<in> set ?q. \<not> is_space x" using dotted_quad_chars [of a b c d] digit_not_space by (auto simp: is_space_def code_def)
  have ql: "js_lower ?q = ?q" using dotted_quad_chars by (rule js_lower_digits)
  have ns: "\<not> starts_with ''['' ?q"
    using dotted_quad_chars [of a b c d] by (cases ?q) (auto simp: starts_with_def is_digit_def code_def)
  have qb: "strip_connect_host_brackets ?q = ?q" by (rule strip_brackets_id [OF qs ns])
  have 4: "is_global_ip_literal ?q = Some (is_global_ipv4_int (ipv4_to_int (a, b, c, d)))"
    using global_of_ipv4 [of ?q "[a, b, c, d]"] P qb by simp
  have ms: "\<forall>x \<in> set ?m. \<not> is_space x" using qs by (simp add: is_space_def code_def)
  have mb: "strip_connect_host_brackets ?m = ?m"
    by (rule strip_brackets_id [OF ms]) (simp add: starts_with_def)
  have ml: "js_lower ?m = ?m" using ql by (simp add: js_lower_def lower_char_def code_def)
  have al: "after_last (CHR '':'') ?m = ?q" "before_last (CHR '':'') ?m = ''::ffff''"
    using after_last_append [OF qc, of "''::ffff''"] before_last_append [OF qc, of "''::ffff''"] by simp_all
  have "expand_hextets ''::ffff:v4'' (Some (256 * a + b, 256 * c + d))
      = Some [0, 0, 0, 0, 0, 0xffff, 256 * a + b, 256 * c + d]"
    by (simp add: ipv6_eval)
  then have "parse_ipv6_literal ?m = Some [0, 0, 0, 0, 0, 0xffff, 256 * a + b, 256 * c + d]"
    unfolding parse_ipv6_literal_def mb ml Let_def al
    using dot P by (simp add: is_hex_digit_def is_digit_def code_def)
  then have "is_global_ip_literal ?m = Some (is_global_ipv4_int (ipv4_to_int (a, b, c, d)))"
    unfolding is_global_ip_literal_def strip_brackets_trim mb ml Let_def
    by (simp add: mapped_is_embedded [OF assms])
  with 4 show ?thesis by simp
qed

lemma mapped_literal_same_class_witness:
  "is_global_ip_literal (''::ffff:'' @ dotted_quad 169 254 169 254)
     = is_global_ip_literal (dotted_quad 169 254 169 254)"
  using mapped_literal_same_class [of 169 254 169 254] by simp

end
