(* ===== verification/Relay_Coverage.thy ===== *)
theory Relay_Coverage
  imports Js_Map Js_String
begin

text \<open>
  The store of relay coverage per sent message
  (\<^verbatim>\<open>src/renderer/lib/relayCoverage/relayCoverageStore.ts\<close>): an object from
  \<^verbatim>\<open>identityId:messageId\<close> to the coverage of the message, with a soft cap on its size. The object is
  an insertion-ordered map; its keys contain a colon, so none is an array index. The clock of an
  update is an argument. Signal values are only copied and compared.
\<close>

datatype relay_coverage_mode = Confirmed | BinaryHeard | Predicted
datatype coverage_protocol = CovMeshcore | CovMeshtastic | CovReticulum

record heard_repeater =
  hr_node_id :: int
  hr_name :: "string option"
  hr_snr :: "int option"
  hr_rssi :: "int option"

record relay_coverage =
  rc_protocol :: coverage_protocol
  rc_mode :: relay_coverage_mode
  rc_heard_repeaters :: "heard_repeater list option"
  rc_broadcast_heard :: "bool option option"
  rc_predicted_relay_hops :: "int option"
  rc_predicted_first_hop :: "string option"
  rc_updated_at :: millis

text \<open>A patch: \<^verbatim>\<open>protocol\<close> and \<^verbatim>\<open>mode\<close> are required, \<open>None\<close> in the others is an absent field.\<close>

record relay_coverage_patch =
  rp_protocol :: coverage_protocol
  rp_mode :: relay_coverage_mode
  rp_heard_repeaters :: "heard_repeater list option"
  rp_broadcast_heard :: "bool option option"
  rp_predicted_relay_hops :: "int option"
  rp_predicted_first_hop :: "string option"

type_synonym coverage_map = "(string, relay_coverage) jsmap"

definition relay_coverage_key :: "string \<Rightarrow> string \<Rightarrow> string" where
  "relay_coverage_key identity_id message_id = identity_id @ '':'' @ message_id"

definition RELAY_COVERAGE_SOFT_CAP :: nat where "RELAY_COVERAGE_SOFT_CAP = 256"

definition or_else :: "'a option \<Rightarrow> 'a option \<Rightarrow> 'a option" where
  "or_else a b = (case a of None \<Rightarrow> b | Some _ \<Rightarrow> a)"

text \<open>The keys to drop: oldest first, without the kept key, until the excess is gone.\<close>

fun keys_to_drop :: "string \<Rightarrow> nat \<Rightarrow> string list \<Rightarrow> string list" where
  "keys_to_drop keep excess [] = []"
| "keys_to_drop keep excess (k # ks) =
     (if excess = 0 then []
      else if k = keep then keys_to_drop keep excess ks
      else k # keys_to_drop keep (excess - 1) ks)"

definition prune_oldest :: "coverage_map \<Rightarrow> string \<Rightarrow> nat \<Rightarrow> coverage_map" where
  "prune_oldest coverage keep soft_cap =
     (if length coverage \<le> soft_cap then coverage
      else let ranked = map fst (sort_key (\<lambda>e. rc_updated_at (snd e)) coverage);
               drop_keys = keys_to_drop keep (length coverage - soft_cap) ranked
      in if drop_keys = [] then coverage
         else filter (\<lambda>e. fst e \<notin> set drop_keys) coverage)"

definition coverage_for :: "coverage_map \<Rightarrow> string \<Rightarrow> string \<Rightarrow> relay_coverage option" where
  "coverage_for coverage identity_id message_id = jm_get coverage (relay_coverage_key identity_id message_id)"

text \<open>\<^verbatim>\<open>{ ...base, ...patch, updatedAt }\<close> with a base that may be the empty object.\<close>

definition merged_entry :: "relay_coverage option \<Rightarrow> relay_coverage_patch \<Rightarrow> millis \<Rightarrow> relay_coverage" where
  "merged_entry base patch now =
     \<lparr>rc_protocol = rp_protocol patch, rc_mode = rp_mode patch,
      rc_heard_repeaters = or_else (rp_heard_repeaters patch) (Option.bind base rc_heard_repeaters),
      rc_broadcast_heard = or_else (rp_broadcast_heard patch) (Option.bind base rc_broadcast_heard),
      rc_predicted_relay_hops =
        or_else (rp_predicted_relay_hops patch) (Option.bind base rc_predicted_relay_hops),
      rc_predicted_first_hop =
        or_else (rp_predicted_first_hop patch) (Option.bind base rc_predicted_first_hop),
      rc_updated_at = now\<rparr>"

definition coverage_set ::
    "string \<Rightarrow> string \<Rightarrow> relay_coverage_patch \<Rightarrow> millis \<Rightarrow> coverage_map \<Rightarrow> coverage_map" where
  "coverage_set identity_id message_id patch now coverage =
     (let k = relay_coverage_key identity_id message_id;
          base = (case jm_get coverage k of
              None \<Rightarrow> None
            | Some prev \<Rightarrow>
                if rc_protocol prev \<noteq> rp_protocol patch \<or> rc_mode prev \<noteq> rp_mode patch then None
                else Some prev);
          with_entry = jm_set k (merged_entry base patch now) coverage
      in prune_oldest with_entry k RELAY_COVERAGE_SOFT_CAP)"

definition coverage_clear_identity :: "string \<Rightarrow> coverage_map \<Rightarrow> coverage_map" where
  "coverage_clear_identity identity_id coverage =
     (let p = identity_id @ '':'' in filter (\<lambda>e. take (length p) (fst e) \<noteq> p) coverage)"

definition coverage_remove :: "string \<Rightarrow> string \<Rightarrow> coverage_map \<Rightarrow> coverage_map" where
  "coverage_remove identity_id message_id coverage =
     (let k = relay_coverage_key identity_id message_id in
      if jm_has coverage k then filter (\<lambda>e. fst e \<noteq> k) coverage else coverage)"

definition repeaters_of :: "relay_coverage \<Rightarrow> heard_repeater list" where
  "repeaters_of c = (case rc_heard_repeaters c of None \<Rightarrow> [] | Some rs \<Rightarrow> rs)"

text \<open>The two loops of the merge: later duplicates of the first list overwrite, the second list only fills.\<close>

definition by_id_of :: "heard_repeater list \<Rightarrow> (int, heard_repeater) jsmap" where
  "by_id_of rs = fold (\<lambda>r m. jm_set (hr_node_id r) r m) rs []"

definition add_missing :: "heard_repeater list \<Rightarrow> (int, heard_repeater) jsmap \<Rightarrow> (int, heard_repeater) jsmap" where
  "add_missing rs m = fold (\<lambda>r m. if jm_has m (hr_node_id r) then m else jm_set (hr_node_id r) r m) rs m"

definition merged_rename :: "relay_coverage \<Rightarrow> relay_coverage \<Rightarrow> millis \<Rightarrow> relay_coverage" where
  "merged_rename from_entry to_entry now =
     \<lparr>rc_protocol = rc_protocol to_entry, rc_mode = rc_mode to_entry,
      rc_heard_repeaters =
        (if rc_mode to_entry = Confirmed \<or> rc_mode from_entry = Confirmed
         then Some (map snd (add_missing (repeaters_of from_entry) (by_id_of (repeaters_of to_entry))))
         else or_else (rc_heard_repeaters to_entry) (rc_heard_repeaters from_entry)),
      rc_broadcast_heard = or_else (rc_broadcast_heard to_entry) (rc_broadcast_heard from_entry),
      rc_predicted_relay_hops = or_else (rc_predicted_relay_hops to_entry) (rc_predicted_relay_hops from_entry),
      rc_predicted_first_hop = or_else (rc_predicted_first_hop to_entry) (rc_predicted_first_hop from_entry),
      rc_updated_at = now\<rparr>"

definition coverage_rename_message ::
    "string \<Rightarrow> string \<Rightarrow> string \<Rightarrow> millis \<Rightarrow> coverage_map \<Rightarrow> coverage_map" where
  "coverage_rename_message identity_id from_id to_id now coverage =
     (if from_id = to_id then coverage
      else let from_key = relay_coverage_key identity_id from_id;
               to_key = relay_coverage_key identity_id to_id
      in case jm_get coverage from_key of
           None \<Rightarrow> coverage
         | Some from_entry \<Rightarrow>
             (let rest = filter (\<lambda>e. fst e \<noteq> from_key) coverage in
              case jm_get coverage to_key of
                Some to_entry \<Rightarrow> jm_set to_key (merged_rename from_entry to_entry now) rest
              | None \<Rightarrow> jm_set to_key (from_entry\<lparr>rc_updated_at := now\<rparr>) rest))"

subsection \<open>The soft cap\<close>

lemma keys_to_drop_props:
  "set (keys_to_drop keep n ks) \<subseteq> set ks" "keep \<notin> set (keys_to_drop keep n ks)"
  "distinct ks \<Longrightarrow> distinct (keys_to_drop keep n ks)"
proof -
  show sub: "set (keys_to_drop keep n ks) \<subseteq> set ks" for n ks
    by (induction keep n ks rule: keys_to_drop.induct) auto
  show "keep \<notin> set (keys_to_drop keep n ks)" by (induction keep n ks rule: keys_to_drop.induct) auto
  show "distinct ks \<Longrightarrow> distinct (keys_to_drop keep n ks)"
    using sub by (induction keep n ks rule: keys_to_drop.induct) (auto dest: subsetD)
qed

lemma keys_to_drop_length:
  "keep \<in> set ks \<Longrightarrow> distinct ks \<Longrightarrow> n < length ks \<Longrightarrow> length (keys_to_drop keep n ks) = n"
proof (induction ks arbitrary: n)
  case (Cons k ks)
  have free: "length (keys_to_drop keep m us) = m" if "keep \<notin> set us" "m \<le> length us" for m us
    using that by (induction keep m us rule: keys_to_drop.induct) auto
  show ?case
  proof (cases "n = 0 \<or> k \<noteq> keep")
    case True
    with Cons show ?thesis by (cases n) auto
  next
    case False
    with Cons.prems free [of ks n] show ?thesis by auto
  qed
qed simp

text \<open>What is dropped stands, in the ranking, before every other key that is kept.\<close>

lemma keys_to_drop_prefix:
  "distinct ks \<Longrightarrow> ks = us @ y # vs \<Longrightarrow> y \<noteq> keep \<Longrightarrow> y \<notin> set (keys_to_drop keep n ks)
     \<Longrightarrow> set (keys_to_drop keep n ks) \<subseteq> set us"
proof (induction us arbitrary: n ks)
  case Nil
  then show ?case by (cases n) auto
next
  case (Cons u us)
  show ?case
  proof (cases "n = 0")
    case True
    with Cons.prems show ?thesis by simp
  next
    case False
    show ?thesis
    proof (cases "u = keep")
      case True
      with Cons.prems False Cons.IH [of "us @ y # vs" n] show ?thesis by auto
    next
      case ne: False
      with Cons.prems False Cons.IH [of "us @ y # vs" "n - 1"] show ?thesis by auto
    qed
  qed
qed

lemma length_filter_not_in:
  assumes "distinct (map fst m)" and "set ds \<subseteq> fst ` set m" and "distinct ds"
  shows "length (filter (\<lambda>e. fst e \<notin> set ds) m) = length m - length ds"
proof -
  have "length (filter (\<lambda>e. fst e \<notin> set ds) m) = length (filter (\<lambda>k. k \<notin> set ds) (map fst m))"
    by (simp add: filter_map comp_def)
  also have "\<dots> = card (set (filter (\<lambda>k. k \<notin> set ds) (map fst m)))"
    using assms(1) by (intro distinct_card [symmetric] distinct_filter)
  also have "set (filter (\<lambda>k. k \<notin> set ds) (map fst m)) = set (map fst m) - set ds" by auto
  also have "card (set (map fst m) - set ds) = card (set (map fst m)) - card (set ds)"
    using assms(2) by (intro card_Diff_subset) simp_all
  also have "\<dots> = length m - length ds"
    using distinct_card [OF assms(1)] distinct_card [OF assms(3)] by (simp only: length_map)
  finally show ?thesis .
qed

lemma ranked_props:
  "set (map fst (sort_key f m)) = fst ` set m" "length (map fst (sort_key f m)) = length m"
  "distinct (map fst m) \<Longrightarrow> distinct (map fst (sort_key f m))"
proof -
  show "distinct (map fst (sort_key f m))" if "distinct (map fst m)"
    using that by (metis distinct_map distinct_sort set_sort)
qed auto

lemma prune_oldest_props:
  assumes "jm_wf m" and "jm_has m keep" and "0 < cap"
  shows "jm_wf (prune_oldest m keep cap)"
    and "length (prune_oldest m keep cap) = min cap (length m)"
    and "jm_get (prune_oldest m keep cap) keep = jm_get m keep"
    and "\<And>k v. (k, v) \<in> set (prune_oldest m keep cap) \<Longrightarrow> (k, v) \<in> set m"
    and "\<And>a b. a \<in> set m \<Longrightarrow> a \<notin> set (prune_oldest m keep cap) \<Longrightarrow> b \<in> set (prune_oldest m keep cap)
       \<Longrightarrow> fst b \<noteq> keep \<Longrightarrow> rc_updated_at (snd a) \<le> rc_updated_at (snd b)"
proof -
  let ?f = "\<lambda>e :: string \<times> relay_coverage. rc_updated_at (snd e)"
  let ?r = "map fst (sort_key ?f m)"
  let ?d = "keys_to_drop keep (length m - cap) ?r"
  have dist: "distinct (map fst m)" using assms(1) by (simp add: jm_wf_def jm_keys_def)
  have eq: "prune_oldest m keep cap = (if length m \<le> cap then m else filter (\<lambda>e. fst e \<notin> set ?d) m)"
    by (auto simp: prune_oldest_def Let_def)
  show "jm_wf (prune_oldest m keep cap)" using assms(1) by (simp add: eq jm_wf_filter)
  have keep: "keep \<in> set ?r" using assms(2) by (simp add: jm_has_def jm_keys_def)
  have dr: "distinct ?r" by (rule ranked_props(3) [OF dist])
  have "length ?d = length m - cap" if "cap < length m"
    using keys_to_drop_length [OF keep dr, of "length m - cap"] that assms(3) by simp
  moreover have "set ?d \<subseteq> fst ` set m" using keys_to_drop_props(1) [of keep _ ?r] by simp
  ultimately show "length (prune_oldest m keep cap) = min cap (length m)"
    using length_filter_not_in [OF dist _ keys_to_drop_props(3) [OF dr]] by (auto simp: eq)
  show "jm_get (prune_oldest m keep cap) keep = jm_get m keep"
    using keys_to_drop_props(2) [of keep "length m - cap" ?r]
    by (auto simp: eq jm_get_filter [OF assms(1)] split: option.splits)
  show "\<And>k v. (k, v) \<in> set (prune_oldest m keep cap) \<Longrightarrow> (k, v) \<in> set m"
    by (auto simp: eq split: if_splits)
  fix a b
  assume a: "a \<in> set m" "a \<notin> set (prune_oldest m keep cap)"
    and b: "b \<in> set (prune_oldest m keep cap)" "fst b \<noteq> keep"
  then have big: "\<not> length m \<le> cap" and da: "fst a \<in> set ?d" and db: "fst b \<notin> set ?d" and bm: "b \<in> set m"
    by (auto simp: eq split: if_splits)
  have "b \<in> set (sort_key ?f m)" using bm by simp
  then obtain us vs where s: "sort_key ?f m = us @ b # vs" by (meson split_list)
  have "set ?d \<subseteq> set (map fst us)"
    by (rule keys_to_drop_prefix [OF dr _ b(2) db]) (simp add: s)
  with da obtain c where c: "c \<in> set us" "fst c = fst a" by auto
  have "c \<in> set m" using c(1) s by (metis Un_iff set_append set_sort)
  with c(2) a(1) dist have "c = a" by (metis eq_key_imp_eq_value prod.collapse)
  moreover have "sorted (map ?f (us @ b # vs))" using sorted_sort_key [of ?f m] by (simp only: s)
  ultimately show "rc_updated_at (snd a) \<le> rc_updated_at (snd b)"
    using c(1) by (auto simp: sorted_append)
qed

text \<open>The previous row of the message is the base of the merge if it has the protocol and mode of the patch.\<close>

definition merge_base :: "coverage_map \<Rightarrow> string \<Rightarrow> relay_coverage_patch \<Rightarrow> relay_coverage option" where
  "merge_base c k patch = (case jm_get c k of
     None \<Rightarrow> None
   | Some prev \<Rightarrow> if rc_protocol prev = rp_protocol patch \<and> rc_mode prev = rp_mode patch then Some prev else None)"

lemma coverage_set_eq:
  "coverage_set i msg patch now c = prune_oldest
     (jm_set (relay_coverage_key i msg) (merged_entry (merge_base c (relay_coverage_key i msg) patch) patch now) c)
     (relay_coverage_key i msg) 256"
  by (auto simp: coverage_set_def merge_base_def Let_def RELAY_COVERAGE_SOFT_CAP_def split: option.split)

lemma coverage_set_shape:
  "\<exists>base. coverage_set i msg patch now c = prune_oldest
     (jm_set (relay_coverage_key i msg) (merged_entry base patch now) c) (relay_coverage_key i msg) 256"
  using coverage_set_eq by blast

lemma coverage_set_same:
  assumes "jm_wf c"
  shows "coverage_for (coverage_set i msg patch now c) i msg
    = Some (merged_entry (merge_base c (relay_coverage_key i msg) patch) patch now)"
  using prune_oldest_props(3) [OF jm.wf_set [OF assms], where keep = "relay_coverage_key i msg"]
  by (simp add: coverage_set_eq coverage_for_def jm_has_get jm_simps)

lemma coverage_set_length:
  assumes "jm_wf c"
  shows "length (coverage_set i msg patch now c)
    = min 256 (length c + (if coverage_for c i msg = None then 1 else 0))"
proof -
  let ?k = "relay_coverage_key i msg"
  have "length (jm_set ?k v c) = length c + (if coverage_for c i msg = None then 1 else 0)" for v
    using arg_cong [OF jm.keys_set [of ?k v c], of length] by (simp add: coverage_for_def jm.keys_get)
  then show ?thesis
    using prune_oldest_props(2) [OF jm.wf_set [OF assms], where keep = ?k and cap = 256]
    by (simp add: coverage_set_eq jm_has_get jm_simps)
qed

lemma coverage_set_inv:
  assumes "jm_wf c" and "length c \<le> 256"
  shows "jm_wf (coverage_set i msg patch now c)" and "length (coverage_set i msg patch now c) \<le> 256"
proof -
  obtain base where b: "coverage_set i msg patch now c = prune_oldest
     (jm_set (relay_coverage_key i msg) (merged_entry base patch now) c) (relay_coverage_key i msg) 256"
    using coverage_set_shape by blast
  have "jm_has (jm_set (relay_coverage_key i msg) (merged_entry base patch now) c) (relay_coverage_key i msg)"
    by (simp add: jm_has_get jm_simps)
  note P = prune_oldest_props [OF jm.wf_set [OF assms(1)] this, where cap = 256]
  show "jm_wf (coverage_set i msg patch now c)" "length (coverage_set i msg patch now c) \<le> 256"
    using P(1,2) by (simp_all add: b)
qed

text \<open>Another message's coverage either stays or is evicted as one of the oldest.\<close>

lemma coverage_set_other:
  assumes "jm_wf c" and "relay_coverage_key i2 msg2 \<noteq> relay_coverage_key i msg"
  shows "coverage_for (coverage_set i msg patch now c) i2 msg2 \<in> {None, coverage_for c i2 msg2}"
proof -
  obtain base where b: "coverage_set i msg patch now c = prune_oldest
     (jm_set (relay_coverage_key i msg) (merged_entry base patch now) c) (relay_coverage_key i msg) 256"
    using coverage_set_shape by blast
  let ?m = "jm_set (relay_coverage_key i msg) (merged_entry base patch now) c"
  have wf: "jm_wf ?m" by (rule jm.wf_set [OF assms(1)])
  have "jm_has ?m (relay_coverage_key i msg)" by (simp add: jm_has_get jm_simps)
  note P = prune_oldest_props [OF wf this, where cap = 256]
  show ?thesis
  proof (cases "coverage_for (coverage_set i msg patch now c) i2 msg2")
    case (Some v)
    then have "jm_get ?m (relay_coverage_key i2 msg2) = Some v"
      using P(4) wf by (auto simp: b coverage_for_def dest!: jm_get_SomeD intro!: jm_get_SomeI)
    with assms(2) Some show ?thesis by (simp add: coverage_for_def jm_simps)
  qed simp
qed

definition coverage_ok :: "coverage_map \<Rightarrow> bool" where
  "coverage_ok c \<longleftrightarrow> jm_wf c \<and> length c \<le> RELAY_COVERAGE_SOFT_CAP"

lemma coverage_ok_filter: "coverage_ok c \<Longrightarrow> coverage_ok (filter P c)"
  by (auto simp: coverage_ok_def jm_wf_filter intro: order_trans [OF length_filter_le])

lemma coverage_remove_ok: "coverage_ok c \<Longrightarrow> coverage_ok (coverage_remove i msg c)"
  by (simp add: coverage_remove_def Let_def coverage_ok_filter)

lemma coverage_clear_ok: "coverage_ok c \<Longrightarrow> coverage_ok (coverage_clear_identity i c)"
  by (simp add: coverage_clear_identity_def Let_def coverage_ok_filter)

lemma coverage_rename_ok:
  assumes "coverage_ok c"
  shows "coverage_ok (coverage_rename_message i a b now c)"
proof -
  let ?fk = "relay_coverage_key i a" and ?rest = "filter (\<lambda>e. fst e \<noteq> relay_coverage_key i a) c"
  have "coverage_ok (jm_set k v ?rest)" if "jm_get c ?fk = Some e" for k v e
  proof -
    from that have "(?fk, e) \<in> set c" by (rule jm_get_SomeD)
    then have "length ?rest < length c" by (rule filter_le_length_less) simp
    moreover have "length (jm_set k v ?rest) \<le> Suc (length ?rest)"
      using jm.size_set [of k v ?rest] by simp
    ultimately show ?thesis
      using assms coverage_ok_filter [OF assms, of "\<lambda>e. fst e \<noteq> ?fk"]
      by (auto simp: coverage_ok_def jm.wf_set)
  qed
  then show ?thesis using assms
    by (auto simp: coverage_rename_message_def Let_def split: option.splits)
qed

lemma coverage_set_ok: "coverage_ok c \<Longrightarrow> coverage_ok (coverage_set i msg patch now c)"
  using coverage_set_inv by (simp add: coverage_ok_def RELAY_COVERAGE_SOFT_CAP_def)

text \<open>The operations of the store, and any sequence of them.\<close>

datatype coverage_op =
    CovSet string string relay_coverage_patch millis
  | CovClearIdentity string
  | CovRemove string string
  | CovRename string string string millis

fun coverage_step :: "coverage_op \<Rightarrow> coverage_map \<Rightarrow> coverage_map" where
  "coverage_step (CovSet i m p t) c = coverage_set i m p t c"
| "coverage_step (CovClearIdentity i) c = coverage_clear_identity i c"
| "coverage_step (CovRemove i m) c = coverage_remove i m c"
| "coverage_step (CovRename i a b t) c = coverage_rename_message i a b t c"

lemma coverage_step_ok: "coverage_ok c \<Longrightarrow> coverage_ok (coverage_step op c)"
  by (cases op) (simp_all add: coverage_set_ok coverage_clear_ok coverage_remove_ok coverage_rename_ok)

interpretation cov: invariant_steps coverage_step coverage_ok "[]"
  by unfold_locales (simp add: coverage_ok_def, rule coverage_step_ok)

text \<open>
  C13: the coverage store stays within its cap and evicts the oldest rows. After any sequence of
  operations from the empty store, writing the coverage of a message leaves all rows up to 256, one
  more than before if the message had none, so nothing is evicted below the cap and one row at most
  above it. The written row can be read back: the patch over the previous row of the message, if
  protocol and mode are the same. Every other row is unchanged or evicted, and no evicted row is newer
  than another row that stayed.
\<close>

theorem coverage_store_capped:
  fixes ops :: "coverage_op list" and i msg :: string and patch :: relay_coverage_patch and now :: millis
  defines "c \<equiv> fold coverage_step ops []"
  defines "c' \<equiv> coverage_set i msg patch now c"
  shows "length c' = min 256 (length c + (if coverage_for c i msg = None then 1 else 0))
    \<and> coverage_for c' i msg = Some (merged_entry (merge_base c (relay_coverage_key i msg) patch) patch now)
    \<and> (\<forall>k \<in> set (jm_keys c) - {relay_coverage_key i msg}. jm_get c' k \<in> {None, jm_get c k})
    \<and> (\<forall>a \<in> set c - set c'. \<forall>b \<in> set c' - {e. fst e = relay_coverage_key i msg}.
         fst a = relay_coverage_key i msg \<or> rc_updated_at (snd a) \<le> rc_updated_at (snd b))"
proof -
  let ?k = "relay_coverage_key i msg"
  have ok: "coverage_ok c" unfolding c_def by (rule cov.fold_inv [OF cov.start_inv])
  then have wf: "jm_wf c" and len: "length c \<le> 256"
    by (simp_all add: coverage_ok_def RELAY_COVERAGE_SOFT_CAP_def)
  obtain base where b: "c' = prune_oldest (jm_set ?k (merged_entry base patch now) c) ?k 256"
    unfolding c'_def using coverage_set_shape by blast
  let ?m = "jm_set ?k (merged_entry base patch now) c"
  have wfm: "jm_wf ?m" by (rule jm.wf_set [OF wf])
  have has: "jm_has ?m ?k" by (simp add: jm_has_get jm_simps)
  note P = prune_oldest_props [OF wfm has, where cap = 256]
  have other: "jm_get c' k \<in> {None, jm_get c k}" if "k \<noteq> ?k" for k
  proof (cases "jm_get c' k")
    case (Some v)
    then have "jm_get ?m k = Some v"
      using P(4) wfm by (auto simp: b dest!: jm_get_SomeD intro!: jm_get_SomeI)
    with that Some show ?thesis by (simp add: jm_simps)
  qed simp
  have old: "rc_updated_at (snd a) \<le> rc_updated_at (snd e)"
    if "a \<in> set c" "a \<notin> set c'" "e \<in> set c'" "fst e \<noteq> ?k" "fst a \<noteq> ?k" for a e
  proof -
    have "jm_get ?m (fst a) = Some (snd a)"
      using that(1,5) jm_get_SomeI [OF wf, of "fst a" "snd a"] by (simp add: jm_simps)
    then have "a \<in> set ?m" using jm_get_SomeD by fastforce
    with P(5) [of a e] that b show ?thesis by simp
  qed
  show ?thesis
  proof (intro conjI ballI)
    show "length c' = min 256 (length c + (if coverage_for c i msg = None then 1 else 0))"
      unfolding c'_def by (rule coverage_set_length [OF wf])
    show "coverage_for c' i msg = Some (merged_entry (merge_base c (relay_coverage_key i msg) patch) patch now)"
      unfolding c'_def by (rule coverage_set_same [OF wf])
  next
    fix k assume "k \<in> set (jm_keys c) - {?k}"
    then show "jm_get c' k \<in> {None, jm_get c k}" by (intro other) simp
  next
    fix a e assume "a \<in> set c - set c'" and "e \<in> set c' - {e. fst e = ?k}"
    then show "fst a = ?k \<or> rc_updated_at (snd a) \<le> rc_updated_at (snd e)" using old [of a e] by blast
  qed
qed

lemma coverage_store_capped_witness:
  "let patch = \<lparr>rp_protocol = CovMeshcore, rp_mode = Confirmed, rp_heard_repeaters = Some [],
        rp_broadcast_heard = None, rp_predicted_relay_hops = None, rp_predicted_first_hop = None\<rparr>;
       c = coverage_step (CovSet ''a'' ''1'' patch 5) []
   in length (coverage_set ''a'' ''2'' patch 7 c) = 2"
proof -
  let ?patch = "\<lparr>rp_protocol = CovMeshcore, rp_mode = Confirmed, rp_heard_repeaters = Some [],
        rp_broadcast_heard = None, rp_predicted_relay_hops = None, rp_predicted_first_hop = None\<rparr>"
  let ?c = "coverage_step (CovSet ''a'' ''1'' ?patch 5) []"
  have "length ?c = 1" "coverage_for ?c ''a'' ''2'' = None"
    by (simp_all add: coverage_set_def prune_oldest_def RELAY_COVERAGE_SOFT_CAP_def jm_set_def jm_get_def
        coverage_for_def relay_coverage_key_def Let_def)
  then show ?thesis
    using coverage_store_capped [of "''a''" "''2''" ?patch 7 "[CovSet ''a'' ''1'' ?patch 5]"] by (simp add: Let_def)
qed

end
