(* ===== verification/Heard_Repeat.thy ===== *)
theory Heard_Repeat
  imports Relay_Coverage Path_Hash Group_Text Meshcore_Packet
begin

text \<open>
  The listener that credits repeaters heard forwarding our own channel message
  (\<^verbatim>\<open>src/renderer/lib/meshcore/heardRepeatTracker.ts\<close>). Its state is the map of open windows, the
  channel secrets, and the coverage store it writes to. The radio's contact list
  (\<^verbatim>\<open>resolveRepeater\<close>, candidates, public keys) is given with each received packet, the clock is an
  argument, and the hash and cipher libraries are the \<open>crypto\<close> record of \<open>Group_Text\<close>. An exception
  of the decoder leaves the listener with the state reached so far, and is reported in the result.
\<close>

definition MESHCORE_HEARD_REPEAT_WINDOW_MS :: millis where "MESHCORE_HEARD_REPEAT_WINDOW_MS = 120000"
definition OWN_GRP_TXT_TIMESTAMP_EARLY_SEC :: int where "OWN_GRP_TXT_TIMESTAMP_EARLY_SEC = 2"

record flood_expectation =
  fe_channel_index :: int
  fe_sender_name :: code_points
  fe_wire_text :: code_points
  fe_sent_at_sec :: int

record pending_window =
  pw_message_id :: string
  pw_identity_id :: string
  pw_opened_at :: millis
  pw_window_ms :: millis
  pw_expect :: "flood_expectation option"
  pw_payload_identity :: "payload_id option"

record heard_state =
  pending :: "(string, pending_window) jsmap"
  secrets :: "(int, bytes) jsmap"
  coverage :: coverage_map

subsection \<open>Secrets and windows\<close>

definition set_channel_secrets :: "(int \<times> bytes) list \<Rightarrow> heard_state \<Rightarrow> heard_state" where
  "set_channel_secrets channels s =
     s\<lparr>secrets := fold (\<lambda>(i, secret) m. if length secret = 16 then jm_set i secret m else m) channels []\<rparr>"

definition clear_channel_secrets :: "heard_state \<Rightarrow> heard_state" where
  "clear_channel_secrets s = s\<lparr>secrets := []\<rparr>"

definition ceil_div :: "int \<Rightarrow> int \<Rightarrow> int" where
  "ceil_div a b = - ((- a) div b)"

text \<open>\<open>None\<close> is an exception raised by the decoder.\<close>

definition grp_txt_matches_expectation ::
    "crypto \<Rightarrow> (int, bytes) jsmap \<Rightarrow> bytes \<Rightarrow> flood_expectation \<Rightarrow> millis \<Rightarrow> bool option" where
  "grp_txt_matches_expectation cr secs inner expect window_ms =
     (case jm_get secs (fe_channel_index expect) of
        None \<Rightarrow> Some False
      | Some secret \<Rightarrow>
          (if length inner = 0 then Some False
           else if at_opt inner 0 \<noteq> Some (channel_hash cr secret) then Some False
           else case decode_group_text cr secret inner of
             GtThrow \<Rightarrow> None
           | GtNull \<Rightarrow> Some False
           | GtDecoded d \<Rightarrow>
               (let latest = fe_sent_at_sec expect + ceil_div window_ms 1000 in
                if int (gt_timestamp_sec d) < fe_sent_at_sec expect - OWN_GRP_TXT_TIMESTAMP_EARLY_SEC
                   \<or> int (gt_timestamp_sec d) > latest then Some False
                else Some (gt_text d = fe_sender_name expect @ [58, 32] @ fe_wire_text expect))))"

definition clear_heard_repeat_window :: "string \<Rightarrow> heard_state \<Rightarrow> heard_state" where
  "clear_heard_repeat_window identity_id s = s\<lparr>pending := jm_delete identity_id (pending s)\<rparr>"

definition clear_heard_repeat_window_if_message :: "string \<Rightarrow> string \<Rightarrow> heard_state \<Rightarrow> heard_state" where
  "clear_heard_repeat_window_if_message identity_id message_id s =
     (case jm_get (pending s) identity_id of
        Some w \<Rightarrow> if pw_message_id w = message_id
          then s\<lparr>pending := jm_delete identity_id (pending s)\<rparr> else s
      | None \<Rightarrow> s)"

definition rename_heard_repeat_window :: "string \<Rightarrow> string \<Rightarrow> string \<Rightarrow> heard_state \<Rightarrow> heard_state" where
  "rename_heard_repeat_window identity_id from_id to_id s =
     (if from_id = to_id then s
      else case jm_get (pending s) identity_id of
        None \<Rightarrow> s
      | Some w \<Rightarrow>
          (if pw_message_id w \<noteq> from_id then s
           else s\<lparr>pending := jm_set identity_id (w\<lparr>pw_message_id := to_id\<rparr>) (pending s)\<rparr>))"

definition confirmed_patch :: "heard_repeater list \<Rightarrow> relay_coverage_patch" where
  "confirmed_patch rs = \<lparr>rp_protocol = CovMeshcore, rp_mode = Confirmed, rp_heard_repeaters = Some rs,
     rp_broadcast_heard = None, rp_predicted_relay_hops = None, rp_predicted_first_hop = None\<rparr>"

definition open_heard_repeat_window ::
    "string \<Rightarrow> string \<Rightarrow> millis \<Rightarrow> millis \<Rightarrow> flood_expectation option \<Rightarrow> millis \<Rightarrow> heard_state \<Rightarrow> heard_state" where
  "open_heard_repeat_window identity_id message_id window_ms opened_at expect now s =
     (let s1 = (case jm_get (pending s) identity_id of
          None \<Rightarrow> s
        | Some prev \<Rightarrow>
            (if opened_at - pw_opened_at prev > pw_window_ms prev
             then s\<lparr>pending := jm_delete identity_id (pending s)\<rparr>
             else if pw_message_id prev \<noteq> message_id then
               (case coverage_for (coverage s) identity_id (pw_message_id prev) of
                  Some prior \<Rightarrow>
                    (if rc_protocol prior = CovMeshcore \<and> rc_mode prior = Confirmed
                        \<and> length (repeaters_of prior) = 0
                     then s\<lparr>coverage := coverage_remove identity_id (pw_message_id prev) (coverage s)\<rparr>
                     else s)
                | None \<Rightarrow> s)
             else s))
      in s1\<lparr>pending := jm_set identity_id
              \<lparr>pw_message_id = message_id, pw_identity_id = identity_id, pw_opened_at = opened_at,
               pw_window_ms = window_ms, pw_expect = expect, pw_payload_identity = None\<rparr> (pending s1),
            coverage := coverage_set identity_id message_id (confirmed_patch []) now (coverage s1)\<rparr>)"

definition active_window :: "string \<Rightarrow> millis \<Rightarrow> heard_state \<Rightarrow> pending_window option \<times> heard_state" where
  "active_window identity_id now s =
     (case jm_get (pending s) identity_id of
        None \<Rightarrow> (None, s)
      | Some w \<Rightarrow>
          (if now - pw_opened_at w > pw_window_ms w
           then (None, s\<lparr>pending := jm_delete identity_id (pending s)\<rparr>)
           else (Some w, s)))"

definition has_open_heard_repeat_window :: "string \<Rightarrow> millis \<Rightarrow> heard_state \<Rightarrow> bool \<times> heard_state" where
  "has_open_heard_repeat_window identity_id now s =
     (case active_window identity_id now s of (w, s') \<Rightarrow> (w \<noteq> None, s'))"

subsection \<open>Matching path segments\<close>

text \<open>\<^verbatim>\<open>sort((a, b) => b.last_heard - a.last_heard)\<close>: stable, freshest first.\<close>

definition freshest_first :: "node_hash_candidate list \<Rightarrow> node_hash_candidate list" where
  "freshest_first = sort_key (\<lambda>n. - last_heard n)"

definition segment_matches_node :: "(int \<Rightarrow> bytes option) \<Rightarrow> bytes \<Rightarrow> node_hash_candidate \<Rightarrow> bool" where
  "segment_matches_node pub_keys segment node =
     (if length segment = 1 then
        (case pub_keys (node_id node) of
           Some (k # _) \<Rightarrow> Some k = at_opt segment 0
         | _ \<Rightarrow> Some (byte_of (meshcore_node_hash (node_id node))) = at_opt segment 0)
      else (case pub_keys (node_id node) of
           None \<Rightarrow> False | Some k \<Rightarrow> prefix_matches k segment))"

definition list_path_prefix_matches ::
    "bytes \<Rightarrow> node_hash_candidate list \<Rightarrow> (int \<Rightarrow> bytes option) \<Rightarrow> int list" where
  "list_path_prefix_matches segment candidates pub_keys =
     (if length segment = 0 \<or> length candidates = 0 then []
      else map node_id (freshest_first (filter (segment_matches_node pub_keys segment) candidates)))"

text \<open>FNV-1a over 32-bit words; the result is read as a signed integer with the top bit set.\<close>

definition synthetic_heard_node_id :: "bytes \<Rightarrow> int" where
  "synthetic_heard_node_id segment =
     sint ((fold (\<lambda>b h. (h XOR ucast b) * 0x01000193) segment (0x811c9dc5 :: 32 word)) OR 0x80000000)"

definition is_synthetic_heard_node_id :: "int \<Rightarrow> bool" where
  "is_synthetic_heard_node_id n \<longleftrightarrow> n < 0"

definition path_segment_hex :: "bytes \<Rightarrow> string" where
  "path_segment_hex segment = concat (map hex2 segment)"

definition path_origin_is_self :: "bytes \<Rightarrow> int \<Rightarrow> nat \<Rightarrow> bytes option \<Rightarrow> bool" where
  "path_origin_is_self first_segment my_node_num hash_size my_pub_key =
     (case first_segment of
        [] \<Rightarrow> False
      | b # _ \<Rightarrow>
          (if hash_size = 1 then
             (case my_pub_key of
                Some (k # _) \<Rightarrow> b = k
              | _ \<Rightarrow> b = byte_of (meshcore_node_hash my_node_num))
           else (case my_pub_key of
                None \<Rightarrow> False
              | Some k \<Rightarrow> \<not> length k < hash_size \<and> prefix_matches k first_segment)))"

subsection \<open>Receiving a packet\<close>

record rx_args =
  rx_identity_id :: string
  rx_is_own_tx :: bool
  rx_treat_as_own_flood :: bool
  rx_path_bytes :: bytes
  rx_hash_size :: nat
  rx_my_node_num :: int
  rx_my_pub_key :: "bytes option"
  rx_payload_identity :: "payload_id option"
  rx_snr :: "int option"
  rx_rssi :: "int option"
  rx_now :: millis
  rx_store_clock :: millis
  rx_candidates :: "node_hash_candidate list"
  rx_pub_keys :: "int \<Rightarrow> bytes option"
  rx_resolve :: "int \<Rightarrow> heard_repeater option"

text \<open>The loop over the nodes matching a segment: the first repeater, and whether self was passed over.\<close>

fun first_repeater :: "rx_args \<Rightarrow> int list \<Rightarrow> bool \<Rightarrow> heard_repeater option \<times> bool" where
  "first_repeater a [] skipped = (None, skipped)"
| "first_repeater a (n # ns) skipped =
     (if n = rx_my_node_num a then first_repeater a ns True
      else case rx_resolve a n of
        Some r \<Rightarrow> (Some r, skipped)
      | None \<Rightarrow> first_repeater a ns skipped)"

definition credited_for_segment :: "rx_args \<Rightarrow> bytes \<Rightarrow> heard_repeater option" where
  "credited_for_segment a segment =
     (let ms = list_path_prefix_matches segment (rx_candidates a) (rx_pub_keys a) in
      case first_repeater a ms False of
        (Some r, _) \<Rightarrow> Some r
      | (None, skipped) \<Rightarrow>
          (let skipped_self = skipped \<or> path_origin_is_self segment (rx_my_node_num a) (rx_hash_size a) (rx_my_pub_key a)
           in if \<not> skipped_self \<and> length ms = 0 \<and> length segment > 0
              then Some \<lparr>hr_node_id = synthetic_heard_node_id segment, hr_name = Some (path_segment_hex segment),
                         hr_snr = None, hr_rssi = None\<rparr>
              else None))"

fun credit_segments ::
    "rx_args \<Rightarrow> bytes list \<Rightarrow> (int, heard_repeater) jsmap \<Rightarrow> bool \<Rightarrow> (int, heard_repeater) jsmap \<times> bool" where
  "credit_segments a [] by_id changed = (by_id, changed)"
| "credit_segments a (segment # rest) by_id changed =
     (case credited_for_segment a segment of
        None \<Rightarrow> credit_segments a rest by_id changed
      | Some r \<Rightarrow>
          (let next = \<lparr>hr_node_id = hr_node_id r, hr_name = hr_name r,
                       hr_snr = or_else (rx_snr a) (hr_snr r), hr_rssi = or_else (rx_rssi a) (hr_rssi r)\<rparr>
           in case jm_get by_id (hr_node_id next) of
                Some ex \<Rightarrow>
                  (if hr_name ex = hr_name next \<and> hr_snr ex = hr_snr next \<and> hr_rssi ex = hr_rssi next
                   then credit_segments a rest by_id changed
                   else credit_segments a rest (jm_set (hr_node_id next) next by_id) True)
              | None \<Rightarrow> credit_segments a rest (jm_set (hr_node_id next) next by_id) True))"

text \<open>Crediting, once the packet is known to be a copy of our own message.\<close>

definition credit_window :: "rx_args \<Rightarrow> pending_window \<Rightarrow> heard_state \<Rightarrow> heard_state" where
  "credit_window a w s =
     (if length (rx_path_bytes a) = 0 then s
      else let segs = split_path_hash_segments (rx_path_bytes a) (rx_hash_size a) in
      if length segs = 0 then s
      else let prev = (case coverage_for (coverage s) (rx_identity_id a) (pw_message_id w) of
                 None \<Rightarrow> [] | Some c \<Rightarrow> repeaters_of c)
      in case credit_segments a segs (by_id_of prev) False of
        (by_id, changed) \<Rightarrow>
          (if \<not> changed \<and> length by_id = length prev then s
           else s\<lparr>coverage := coverage_set (rx_identity_id a) (pw_message_id w)
                    (confirmed_patch (map snd by_id)) (rx_store_clock a) (coverage s)\<rparr>))"

text \<open>Binding the window to a payload; \<open>None\<close> is an exception of the decoder.\<close>

definition bind_window :: "crypto \<Rightarrow> rx_args \<Rightarrow> pending_window \<Rightarrow> heard_state \<Rightarrow> (pending_window \<times> heard_state) option" where
  "bind_window cr a w s =
     (case (pw_payload_identity w, rx_payload_identity a) of
        (None, Some incoming) \<Rightarrow>
          (let own = (if \<not> rx_is_own_tx a \<and> rx_treat_as_own_flood a then
                        (case pw_expect w of
                           None \<Rightarrow> Some False
                         | Some e \<Rightarrow> grp_txt_matches_expectation cr (secrets s) (inner_payload incoming) e (pw_window_ms w))
                      else Some False)
           in case own of
                None \<Rightarrow> None
              | Some own_grp_txt \<Rightarrow>
                  (if rx_is_own_tx a \<or> own_grp_txt then
                     (let w' = w\<lparr>pw_payload_identity := Some incoming\<rparr>
                      in Some (w', s\<lparr>pending := jm_set (rx_identity_id a) w' (pending s)\<rparr>))
                   else Some (w, s)))
      | _ \<Rightarrow> Some (w, s))"

definition record_meshcore_rf_rx :: "crypto \<Rightarrow> rx_args \<Rightarrow> heard_state \<Rightarrow> bool \<times> heard_state" where
  "record_meshcore_rf_rx cr a s =
     (if \<not> rx_is_own_tx a \<and> \<not> rx_treat_as_own_flood a then (False, s)
      else case active_window (rx_identity_id a) (rx_now a) s of
        (None, s1) \<Rightarrow> (False, s1)
      | (Some w0, s1) \<Rightarrow>
          (case bind_window cr a w0 s1 of
             None \<Rightarrow> (True, s1)
           | Some (w, s2) \<Rightarrow>
               (case pw_payload_identity w of
                  Some bound \<Rightarrow>
                    (case rx_payload_identity a of
                       Some incoming \<Rightarrow>
                         (if \<not> path_invariant_payload_ids_equal bound incoming then (False, s2)
                          else (False, credit_window a w s2))
                     | None \<Rightarrow> (False, credit_window a w s2))
                | None \<Rightarrow>
                    (if \<not> rx_is_own_tx a then (False, s2) else (False, credit_window a w s2)))))"

subsection \<open>Roles\<close>

record node_names =
  nn_long_name :: "string option"
  nn_short_name :: "string option"
  nn_hw_model :: "string option"

definition is_heard_repeat_role :: "string option \<Rightarrow> bool" where
  "is_heard_repeat_role hw \<longleftrightarrow> hw = Some ''Repeater'' \<or> hw = Some ''Room''"

definition trimmed_or_none :: "string option \<Rightarrow> string option" where
  "trimmed_or_none s = (case s of None \<Rightarrow> None
     | Some t \<Rightarrow> if js_trim t = [] then None else Some (js_trim t))"

definition resolve_heard_repeater_from_node :: "int \<Rightarrow> node_names option \<Rightarrow> heard_repeater option" where
  "resolve_heard_repeater_from_node n node =
     (case node of
        None \<Rightarrow> None
      | Some nd \<Rightarrow>
          (if \<not> is_heard_repeat_role (nn_hw_model nd) then None
           else Some \<lparr>hr_node_id = n,
                  hr_name = or_else (trimmed_or_none (nn_long_name nd)) (trimmed_or_none (nn_short_name nd)),
                  hr_snr = None, hr_rssi = None\<rparr>))"

subsection \<open>Only copies of our own message are credited\<close>

lemma credit_window_pending [simp]:
  "pending (credit_window a w s) = pending s" "secrets (credit_window a w s) = secrets s"
  by (auto simp: credit_window_def Let_def split: prod.splits)

lemma bind_window_coverage:
  "bind_window cr a w s = Some (w', s') \<Longrightarrow> coverage s' = coverage s"
  by (auto simp: bind_window_def Let_def split: option.splits if_splits)

lemma active_window_cases:
  "active_window i now s = (r, s1) \<Longrightarrow>
     coverage s1 = coverage s
     \<and> (case r of None \<Rightarrow> True
        | Some w \<Rightarrow> s1 = s \<and> jm_get (pending s) i = Some w \<and> now - pw_opened_at w \<le> pw_window_ms w)"
  by (auto simp: active_window_def split: option.splits if_splits)

text \<open>What makes a received payload a copy of the message the window waits for.\<close>

definition decrypts_to_expectation :: "crypto \<Rightarrow> heard_state \<Rightarrow> pending_window \<Rightarrow> payload_id \<Rightarrow> bool" where
  "decrypts_to_expectation cr s w incoming \<longleftrightarrow>
     (\<exists>e secret d. pw_expect w = Some e \<and> jm_get (secrets s) (fe_channel_index e) = Some secret
        \<and> decode_group_text cr secret (inner_payload incoming) = GtDecoded d
        \<and> gt_text d = fe_sender_name e @ [58, 32] @ fe_wire_text e
        \<and> fe_sent_at_sec e - 2 \<le> int (gt_timestamp_sec d)
        \<and> int (gt_timestamp_sec d) \<le> fe_sent_at_sec e + ceil_div (pw_window_ms w) 1000)"

lemma grp_txt_matches_True:
  "grp_txt_matches_expectation cr (secrets s) (inner_payload inc) e (pw_window_ms w) = Some True
   \<Longrightarrow> pw_expect w = Some e \<Longrightarrow> decrypts_to_expectation cr s w inc"
  by (auto simp: grp_txt_matches_expectation_def decrypts_to_expectation_def Let_def
      OWN_GRP_TXT_TIMESTAMP_EARLY_SEC_def split: option.splits if_splits group_text_result.splits)

lemma bind_window_bound:
  assumes "bind_window cr a w s = Some (w', s')" and "pw_payload_identity w' = Some b"
  shows "pw_payload_identity w = Some b
    \<or> pw_payload_identity w = None \<and> rx_payload_identity a = Some b
      \<and> (rx_is_own_tx a \<or> rx_treat_as_own_flood a \<and> decrypts_to_expectation cr s w b)"
  using assms
  by (auto simp: bind_window_def Let_def split: option.splits if_splits intro: grp_txt_matches_True)

lemma bind_window_message: "bind_window cr a w s = Some (w', s') \<Longrightarrow> pw_message_id w' = pw_message_id w"
  by (auto simp: bind_window_def Let_def split: option.splits if_splits)

text \<open>A packet that changes the store goes through the crediting of the open window.\<close>

lemma heard_repeat_only_own_effect:
  assumes "coverage (snd (record_meshcore_rf_rx cr a s)) \<noteq> coverage s"
  shows "\<exists>w w' s'. jm_get (pending s) (rx_identity_id a) = Some w \<and> pw_message_id w' = pw_message_id w
    \<and> coverage s' = coverage s
    \<and> coverage (snd (record_meshcore_rf_rx cr a s)) = coverage (credit_window a w' s')"
proof -
  have own: "rx_is_own_tx a \<or> rx_treat_as_own_flood a"
    by (rule ccontr) (use assms in \<open>simp add: record_meshcore_rf_rx_def\<close>)
  obtain r s1 where aw: "active_window (rx_identity_id a) (rx_now a) s = (r, s1)"
    by (cases "active_window (rx_identity_id a) (rx_now a) s")
  note A = active_window_cases [OF aw]
  with assms own aw obtain w0 where r: "r = Some w0"
    by (cases r) (auto simp: record_meshcore_rf_rx_def)
  with A have s1: "s1 = s" and g: "jm_get (pending s) (rx_identity_id a) = Some w0" by auto
  from assms own aw r s1 obtain w s2 where b: "bind_window cr a w0 s = Some (w, s2)"
    by (cases "bind_window cr a w0 s") (auto simp: record_meshcore_rf_rx_def)
  have "coverage (snd (record_meshcore_rf_rx cr a s)) = coverage (credit_window a w s2)"
    using assms own aw r s1 b bind_window_coverage [OF b]
    by (auto simp: record_meshcore_rf_rx_def split: option.splits if_splits)
  with g bind_window_message [OF b] bind_window_coverage [OF b] show ?thesis by blast
qed

text \<open>What a packet that changes the coverage store has to do with the open window.\<close>

lemma credited_packet_cases:
  assumes "coverage (snd (record_meshcore_rf_rx cr a s)) \<noteq> coverage s"
  shows "\<exists>w. jm_get (pending s) (rx_identity_id a) = Some w
    \<and> rx_now a - pw_opened_at w \<le> pw_window_ms w
    \<and> (rx_is_own_tx a \<or> rx_treat_as_own_flood a)
    \<and> (case (pw_payload_identity w, rx_payload_identity a) of
         (Some bound, Some incoming) \<Rightarrow> path_invariant_payload_ids_equal bound incoming
       | (Some bound, None) \<Rightarrow> True
       | (None, Some incoming) \<Rightarrow> rx_is_own_tx a \<or> decrypts_to_expectation cr s w incoming
       | (None, None) \<Rightarrow> rx_is_own_tx a)"
proof -
  have own: "rx_is_own_tx a \<or> rx_treat_as_own_flood a"
    by (rule ccontr) (use assms in \<open>simp add: record_meshcore_rf_rx_def\<close>)
  obtain r s1 where aw: "active_window (rx_identity_id a) (rx_now a) s = (r, s1)" by (cases "active_window (rx_identity_id a) (rx_now a) s")
  note A = active_window_cases [OF aw]
  with assms own aw obtain w0 where r: "r = Some w0"
    by (cases r) (auto simp: record_meshcore_rf_rx_def)
  with A have s1: "s1 = s" and g: "jm_get (pending s) (rx_identity_id a) = Some w0"
    and t: "rx_now a - pw_opened_at w0 \<le> pw_window_ms w0" by auto
  from assms own aw r s1 obtain w s2 where b: "bind_window cr a w0 s = Some (w, s2)"
    by (cases "bind_window cr a w0 s") (auto simp: record_meshcore_rf_rx_def)
  note cov = bind_window_coverage [OF b]
  show ?thesis
  proof (cases "pw_payload_identity w")
    case None
    with assms own aw r s1 b cov have "rx_is_own_tx a"
      by (auto simp: record_meshcore_rf_rx_def split: if_splits)
    moreover from None b have "pw_payload_identity w0 = None"
      by (auto simp: bind_window_def Let_def split: option.splits if_splits)
    ultimately show ?thesis using g t own by (auto split: option.splits)
  next
    case (Some bound)
    with assms own aw r s1 b cov
    have eq: "\<And>inc. rx_payload_identity a = Some inc \<Longrightarrow> path_invariant_payload_ids_equal bound inc"
      by (auto simp: record_meshcore_rf_rx_def split: if_splits)
    from bind_window_bound [OF b Some] eq show ?thesis using g t own
      by (auto split: option.splits)
  qed
qed

subsection \<open>Runs\<close>

text \<open>The operations on windows, secrets and the coverage store, in any order.\<close>

datatype heard_event =
    HrSecrets "(int \<times> bytes) list"
  | HrClearSecrets
  | HrOpen string string millis millis "flood_expectation option" millis
  | HrClear string
  | HrClearIf string string
  | HrRename string string string
  | HrPoll string millis
  | HrRx rx_args
  | HrCoverage coverage_op

fun heard_step :: "crypto \<Rightarrow> heard_event \<Rightarrow> heard_state \<Rightarrow> heard_state" where
  "heard_step cr (HrSecrets channels) s = set_channel_secrets channels s"
| "heard_step cr HrClearSecrets s = clear_channel_secrets s"
| "heard_step cr (HrOpen i m w opened expect now) s = open_heard_repeat_window i m w opened expect now s"
| "heard_step cr (HrClear i) s = clear_heard_repeat_window i s"
| "heard_step cr (HrClearIf i m) s = clear_heard_repeat_window_if_message i m s"
| "heard_step cr (HrRename i a b) s = rename_heard_repeat_window i a b s"
| "heard_step cr (HrPoll i now) s = snd (has_open_heard_repeat_window i now s)"
| "heard_step cr (HrRx a) s = snd (record_meshcore_rf_rx cr a s)"
| "heard_step cr (HrCoverage cop) s = s\<lparr>coverage := coverage_step cop (coverage s)\<rparr>"

definition no_windows :: heard_state where
  "no_windows = \<lparr>pending = [], secrets = [], coverage = []\<rparr>"

definition heard_run :: "crypto \<Rightarrow> heard_event list \<Rightarrow> heard_state" where
  "heard_run cr es = fold (heard_step cr) es no_windows"

lemma heard_run_snoc [simp]: "heard_run cr (es @ [e]) = heard_step cr e (heard_run cr es)"
  by (simp add: heard_run_def)

fun opens_window :: "string \<Rightarrow> heard_event \<Rightarrow> bool" where
  "opens_window i (HrOpen j _ _ _ _ _) = (j = i)"
| "opens_window i _ = False"

text \<open>
  A payload is confirmed for a window when, since the window was opened, a packet with this payload was
  received that the radio reported as our own transmission, or that decrypted to the expected text.
\<close>

definition confirmed_payload :: "crypto \<Rightarrow> heard_event list \<Rightarrow> string \<Rightarrow> pending_window \<Rightarrow> payload_id \<Rightarrow> bool" where
  "confirmed_payload cr es i w b \<longleftrightarrow> (\<exists>us a vs. es = us @ HrRx a # vs \<and> rx_identity_id a = i \<and> rx_payload_identity a = Some b
     \<and> (rx_is_own_tx a \<or> rx_treat_as_own_flood a \<and> decrypts_to_expectation cr (heard_run cr us) w b)
     \<and> list_all (\<lambda>e. \<not> opens_window i e) vs)"

lemma confirmed_later: "confirmed_payload cr es i w b \<Longrightarrow> \<not> opens_window i e \<Longrightarrow> confirmed_payload cr (es @ [e]) i w b"
proof -
  assume "confirmed_payload cr es i w b" and e: "\<not> opens_window i e"
  then obtain us a vs where "es = us @ HrRx a # vs" "rx_identity_id a = i" "rx_payload_identity a = Some b"
    "rx_is_own_tx a \<or> rx_treat_as_own_flood a \<and> decrypts_to_expectation cr (heard_run cr us) w b"
    "list_all (\<lambda>e. \<not> opens_window i e) vs" by (auto simp: confirmed_payload_def)
  with e show ?thesis
    unfolding confirmed_payload_def by (intro exI [of _ us] exI [of _ a] exI [of _ "vs @ [e]"]) simp
qed

text \<open>What a window waits for is not changed by binding it or renaming its message.\<close>

lemma confirmed_same_window:
  "confirmed_payload cr es i w b \<Longrightarrow> pw_expect w' = pw_expect w \<Longrightarrow> pw_window_ms w' = pw_window_ms w
   \<Longrightarrow> confirmed_payload cr es i w' b"
  by (simp add: confirmed_payload_def decrypts_to_expectation_def)

lemma record_pending:
  assumes "jm_get (pending (snd (record_meshcore_rf_rx cr a s))) i = Some w'" "pw_payload_identity w' = Some b"
  shows "jm_get (pending s) i = Some w'
    \<or> (\<exists>w. jm_get (pending s) i = Some w \<and> i = rx_identity_id a \<and> pw_expect w' = pw_expect w \<and> pw_window_ms w' = pw_window_ms w
         \<and> rx_payload_identity a = Some b \<and> (rx_is_own_tx a \<or> rx_treat_as_own_flood a \<and> decrypts_to_expectation cr s w' b))"
proof (cases "rx_is_own_tx a \<or> rx_treat_as_own_flood a")
  case own: True
  obtain r s1 where aw: "active_window (rx_identity_id a) (rx_now a) s = (r, s1)" by (cases "active_window (rx_identity_id a) (rx_now a) s")
  show ?thesis
  proof (cases r)
    case None
    with aw own assms show ?thesis
      by (auto simp: record_meshcore_rf_rx_def active_window_def jm.get_del split: option.splits if_splits)
  next
    case (Some w0)
    with active_window_cases [OF aw] have s1: "s1 = s" and g: "jm_get (pending s) (rx_identity_id a) = Some w0" by auto
    show ?thesis
    proof (cases "bind_window cr a w0 s")
      case None
      with aw own assms Some s1 show ?thesis by (auto simp: record_meshcore_rf_rx_def)
    next
      case (Some x)
      then obtain w s2 where bw: "bind_window cr a w0 s = Some (w, s2)" by (cases x) auto
      have "pending (snd (record_meshcore_rf_rx cr a s)) = pending s2"
        using aw own \<open>r = Some w0\<close> s1 bw by (auto simp: record_meshcore_rf_rx_def split: option.split)
      moreover have "s2 = s \<or> (w = w0\<lparr>pw_payload_identity := rx_payload_identity a\<rparr>
          \<and> pending s2 = jm_set (rx_identity_id a) w (pending s) \<and> pw_payload_identity w0 = None)"
        using bw by (auto simp: bind_window_def Let_def split: option.splits if_splits)
      ultimately show ?thesis
        using assms g bind_window_bound [OF bw] by (auto simp: jm.get_set decrypts_to_expectation_def split: if_splits)
    qed
  qed
qed (use assms in \<open>simp add: record_meshcore_rf_rx_def\<close>)

lemma other_events_pending:
  assumes "\<And>a. e \<noteq> HrRx a" "jm_get (pending (heard_step cr e s)) i = Some w'" "pw_payload_identity w' = Some b"
  shows "\<not> opens_window i e \<and> (\<exists>w. jm_get (pending s) i = Some w \<and> pw_payload_identity w = Some b
     \<and> pw_expect w' = pw_expect w \<and> pw_window_ms w' = pw_window_ms w)"
proof (cases e)
  case (HrPoll j now)
  then show ?thesis using assms
    by (auto simp: has_open_heard_repeat_window_def active_window_def jm.get_del split: option.splits if_splits)
next
  case (HrOpen j m w opened expect now)
  have "pending (open_heard_repeat_window j m w opened expect now s) = jm_set j
      \<lparr>pw_message_id = m, pw_identity_id = j, pw_opened_at = opened, pw_window_ms = w, pw_expect = expect, pw_payload_identity = None\<rparr> p
    \<Longrightarrow> jm_get p i = jm_get (pending s) i \<or> i = j \<Longrightarrow> ?thesis" for p
    using assms HrOpen by (auto simp: jm.get_set split: if_splits dest: sym)
  moreover have "\<exists>p. pending (open_heard_repeat_window j m w opened expect now s) = jm_set j
      \<lparr>pw_message_id = m, pw_identity_id = j, pw_opened_at = opened, pw_window_ms = w, pw_expect = expect, pw_payload_identity = None\<rparr> p
      \<and> (jm_get p i = jm_get (pending s) i \<or> i = j)"
    by (auto simp: open_heard_repeat_window_def Let_def jm.get_del split: option.split)
  ultimately show ?thesis by blast
qed (use assms in \<open>auto simp: set_channel_secrets_def clear_channel_secrets_def clear_heard_repeat_window_def
    clear_heard_repeat_window_if_message_def rename_heard_repeat_window_def jm.get_del jm.get_set split: option.splits if_splits\<close>)

text \<open>The payload a window is bound to was confirmed since the window was opened.\<close>

lemma bound_is_confirmed:
  "jm_get (pending (heard_run cr es)) i = Some w \<Longrightarrow> pw_payload_identity w = Some b \<Longrightarrow> confirmed_payload cr es i w b"
proof (induction es arbitrary: w rule: rev_induct)
  case Nil
  then show ?case by (simp add: heard_run_def no_windows_def)
next
  case (snoc e es)
  show ?case
  proof (cases "\<exists>a. e = HrRx a")
    case True
    then obtain a where e: "e = HrRx a" by blast
    consider "jm_get (pending (heard_run cr es)) i = Some w"
      | "i = rx_identity_id a \<and> rx_payload_identity a = Some b
         \<and> (rx_is_own_tx a \<or> rx_treat_as_own_flood a \<and> decrypts_to_expectation cr (heard_run cr es) w b)"
      using record_pending [of cr a "heard_run cr es" i w b] snoc.prems by (auto simp: e)
    then show ?thesis
    proof cases
      case 1
      with snoc show ?thesis by (simp add: confirmed_later e)
    next
      case 2
      then show ?thesis unfolding confirmed_payload_def e by (intro exI [of _ es] exI [of _ a] exI [of _ "[]"]) simp
    qed
  next
    case False
    then obtain w0 where "\<not> opens_window i e" "jm_get (pending (heard_run cr es)) i = Some w0" "pw_payload_identity w0 = Some b"
      "pw_expect w = pw_expect w0" "pw_window_ms w = pw_window_ms w0"
      using other_events_pending [of e cr "heard_run cr es" i w b] snoc.prems by auto
    with snoc.IH [of w0] show ?thesis by (auto intro: confirmed_later confirmed_same_window)
  qed
qed

text \<open>
  C14: nobody else's traffic is counted as heard, as long as the payload of the packet was recognised.
  After any operations on windows, secrets and coverage, if receiving a packet with a payload identity
  changes the coverage store, then a window of this identity is open and has not expired, the packet is
  our own transmission or a channel flood, and its payload is our message: the window is bound to a
  payload that is the packet's byte for byte, and since the window was opened that payload came in a
  packet of our own or in one that decrypts to the text we sent, with a timestamp close to the sending;
  or the window is not bound yet and this packet is such a packet.
\<close>

theorem heard_repeat_only_own_message:
  fixes cr :: crypto and es :: "heard_event list" and a :: rx_args
  defines "s \<equiv> heard_run cr es"
  assumes "rx_payload_identity a = Some incoming"
    and "coverage (snd (record_meshcore_rf_rx cr a s)) \<noteq> coverage s"
  shows "\<exists>w. jm_get (pending s) (rx_identity_id a) = Some w
    \<and> rx_now a - pw_opened_at w \<le> pw_window_ms w
    \<and> (rx_is_own_tx a \<or> rx_treat_as_own_flood a)
    \<and> (case pw_payload_identity w of
         Some bound \<Rightarrow> path_invariant_payload_ids_equal bound incoming \<and> confirmed_payload cr es (rx_identity_id a) w bound
       | None \<Rightarrow> rx_is_own_tx a \<or> decrypts_to_expectation cr s w incoming)"
proof -
  from credited_packet_cases [OF assms(3)] obtain w where w: "jm_get (pending s) (rx_identity_id a) = Some w"
    "rx_now a - pw_opened_at w \<le> pw_window_ms w" "rx_is_own_tx a \<or> rx_treat_as_own_flood a"
    "case (pw_payload_identity w, rx_payload_identity a) of
         (Some bound, Some incoming) \<Rightarrow> path_invariant_payload_ids_equal bound incoming
       | (Some bound, None) \<Rightarrow> True
       | (None, Some incoming) \<Rightarrow> rx_is_own_tx a \<or> decrypts_to_expectation cr s w incoming
       | (None, None) \<Rightarrow> rx_is_own_tx a" by blast
  have "pw_payload_identity w = Some b \<Longrightarrow> confirmed_payload cr es (rx_identity_id a) w b" for b
    using w(1) bound_is_confirmed by (simp add: s_def)
  with w assms(2) show ?thesis by (intro exI [of _ w]) (auto split: option.splits)
qed

definition demo_state :: heard_state where
  "demo_state = open_heard_repeat_window ''id'' ''m1'' 120000 1000
     (Some \<lparr>fe_channel_index = 0, fe_sender_name = [0x41], fe_wire_text = [0x68, 0x69], fe_sent_at_sec = 1\<rparr>) 1000
     \<lparr>pending = [], secrets = [], coverage = []\<rparr>"

definition demo_rx :: rx_args where
  "demo_rx = \<lparr>rx_identity_id = ''id'', rx_is_own_tx = True, rx_treat_as_own_flood = False,
     rx_path_bytes = [0xab], rx_hash_size = 1, rx_my_node_num = 7, rx_my_pub_key = None,
     rx_payload_identity = None, rx_snr = Some 4, rx_rssi = None, rx_now = 2000, rx_store_clock = 2000,
     rx_candidates = [], rx_pub_keys = (\<lambda>_. None), rx_resolve = (\<lambda>_. None)\<rparr>"

lemmas heard_eval = demo_state_def demo_rx_def open_heard_repeat_window_def record_meshcore_rf_rx_def
  active_window_def bind_window_def credit_window_def credited_for_segment_def by_id_of_def
  list_path_prefix_matches_def path_origin_is_self_def split_path_hash_segments_def
  split_segments_from.simps subarray_def coverage_set_def coverage_for_def prune_oldest_def
  RELAY_COVERAGE_SOFT_CAP_def merged_entry_def confirmed_patch_def or_else_def repeaters_of_def
  jm_get_def jm_set_def relay_coverage_key_def meshcore_node_hash_def byte_of_def Let_def

definition demo_known_rx :: rx_args where
  "demo_known_rx = demo_rx\<lparr>rx_payload_identity := Some (path_invariant_payload_id 5 [1])\<rparr>"

lemma demo_state_run: "demo_state = heard_run cr [HrOpen ''id'' ''m1'' 120000 1000
     (Some \<lparr>fe_channel_index = 0, fe_sender_name = [0x41], fe_wire_text = [0x68, 0x69], fe_sent_at_sec = 1\<rparr>) 1000]"
  by (simp add: heard_run_def demo_state_def no_windows_def)

lemma heard_repeat_only_own_message_witness:
  "coverage (snd (record_meshcore_rf_rx toy_crypto demo_known_rx demo_state)) \<noteq> coverage demo_state
   \<and> (\<exists>w. jm_get (pending demo_state) ''id'' = Some w \<and> 2000 - pw_opened_at w \<le> pw_window_ms w)"
proof -
  have ch: "coverage (snd (record_meshcore_rf_rx toy_crypto demo_known_rx demo_state)) \<noteq> coverage demo_state"
    by (simp add: demo_known_rx_def heard_eval path_invariant_payload_ids_equal_def bytes_equal_iff)
  have "rx_payload_identity demo_known_rx = Some (path_invariant_payload_id 5 [1])" by (simp add: demo_known_rx_def)
  from heard_repeat_only_own_message [OF this, of toy_crypto, OF ch [unfolded demo_state_run [of toy_crypto]]] ch show ?thesis
    by (auto simp: demo_known_rx_def demo_rx_def demo_state_run [of toy_crypto])
qed

text \<open>
  A flood whose payload was not recognised is credited all the same while the window is bound, whatever
  message it carries.
\<close>

lemma unrecognised_flood_credited:
  assumes "jm_get (pending s) (rx_identity_id a) = Some w" "pw_payload_identity w = Some bound"
    and "rx_now a - pw_opened_at w \<le> pw_window_ms w" "rx_treat_as_own_flood a" "rx_payload_identity a = None"
  shows "record_meshcore_rf_rx cr a s = (False, credit_window a w s)"
  using assms by (simp add: record_meshcore_rf_rx_def active_window_def bind_window_def)

subsection \<open>Who is credited\<close>

lemma first_repeater_resolved:
  "fst (first_repeater a ns skipped) = Some r \<Longrightarrow> \<exists>n \<in> set ns. n \<noteq> rx_my_node_num a \<and> rx_resolve a n = Some r"
  by (induction ns arbitrary: skipped) (auto split: if_splits option.splits)

lemma synthetic_negative: "synthetic_heard_node_id segment < 0"
proof -
  let ?h = "fold (\<lambda>b h. (h XOR ucast b) * 0x01000193) segment (0x811c9dc5 :: 32 word)"
  have "bit (?h OR 0x80000000) 31" by (simp add: bit_or_iff)
  then show ?thesis
    by (simp add: synthetic_heard_node_id_def bit_last_iff [symmetric])
qed

text \<open>A repeater the packet may be credited to: one of the contacts, not ourselves, or a placeholder.\<close>

definition creditable :: "rx_args \<Rightarrow> heard_repeater \<Rightarrow> bool" where
  "creditable a r \<longleftrightarrow>
     (\<exists>n r0. n \<noteq> rx_my_node_num a \<and> rx_resolve a n = Some r0
        \<and> hr_node_id r = hr_node_id r0 \<and> hr_name r = hr_name r0)
     \<or> is_synthetic_heard_node_id (hr_node_id r)"

lemma credited_for_segment_cases:
  assumes "credited_for_segment a segment = Some r"
  shows "(\<exists>n. n \<noteq> rx_my_node_num a \<and> rx_resolve a n = Some r) \<or> hr_node_id r < 0"
  using assms first_repeater_resolved [of a "list_path_prefix_matches segment (rx_candidates a) (rx_pub_keys a)" False]
  by (auto simp: credited_for_segment_def Let_def synthetic_negative split: prod.splits option.splits if_splits)

lemma credit_segments_values:
  "credit_segments a segs m ch = (m', ch') \<Longrightarrow> r \<in> snd ` set m' \<Longrightarrow> r \<in> snd ` set m \<or> creditable a r"
proof (induction segs arbitrary: m ch)
  case (Cons segment rest)
  show ?case
  proof (cases "credited_for_segment a segment")
    case None
    with Cons show ?thesis by auto
  next
    case (Some r0)
    define nx where "nx = \<lparr>hr_node_id = hr_node_id r0, hr_name = hr_name r0,
      hr_snr = or_else (rx_snr a) (hr_snr r0), hr_rssi = or_else (rx_rssi a) (hr_rssi r0)\<rparr>"
    have "creditable a nx"
      using credited_for_segment_cases [OF Some]
      by (auto simp: creditable_def nx_def is_synthetic_heard_node_id_def)
    moreover have "credit_segments a rest m ch = (m', ch')
        \<or> credit_segments a rest (jm_set (hr_node_id nx) nx m) True = (m', ch')"
      using Cons.prems(1) Some by (auto simp: nx_def Let_def split: option.splits if_splits)
    ultimately show ?thesis
      using Cons.IH [of m ch] Cons.IH [of "jm_set (hr_node_id nx) nx m" True] Cons.prems(2)
        jm_set_values [of "hr_node_id nx" nx m] by blast
  qed
qed simp

lemma credit_window_repeaters:
  assumes "jm_wf (coverage s)"
    and "coverage_for (coverage (credit_window a w s)) (rx_identity_id a) (pw_message_id w) = Some c"
    and "r \<in> set (repeaters_of c)"
  shows "creditable a r
    \<or> (\<exists>c0. coverage_for (coverage s) (rx_identity_id a) (pw_message_id w) = Some c0 \<and> r \<in> set (repeaters_of c0))"
proof -
  let ?old = "case coverage_for (coverage s) (rx_identity_id a) (pw_message_id w) of None \<Rightarrow> [] | Some c \<Rightarrow> repeaters_of c"
  let ?segs = "split_path_hash_segments (rx_path_bytes a) (rx_hash_size a)"
  obtain m ch where m: "credit_segments a ?segs (by_id_of ?old) False = (m, ch)"
    by (cases "credit_segments a ?segs (by_id_of ?old) False")
  have cases: "coverage (credit_window a w s) = coverage s
      \<or> coverage (credit_window a w s) = coverage_set (rx_identity_id a) (pw_message_id w)
          (confirmed_patch (map snd m)) (rx_store_clock a) (coverage s)"
    using m by (auto simp: credit_window_def Let_def split: prod.splits)
  show ?thesis
  proof (cases "coverage (credit_window a w s) = coverage s")
    case True
    with assms show ?thesis by auto
  next
    case False
    with cases obtain base where "c = merged_entry base (confirmed_patch (map snd m)) (rx_store_clock a)"
      using coverage_set_same [OF assms(1), of "rx_identity_id a" "pw_message_id w" "confirmed_patch (map snd m)" "rx_store_clock a"]
        assms(2) by auto
    then have "r \<in> snd ` set m"
      using assms(3) by (simp add: repeaters_of_def merged_entry_def confirmed_patch_def or_else_def)
    from credit_segments_values [OF m this] have "r \<in> snd ` set (by_id_of ?old) \<or> creditable a r" .
    moreover have "snd ` set (by_id_of ?old) \<subseteq> set ?old"
      using fold_jm_set_values [of hr_node_id ?old "[]"] by (simp add: by_id_of_def)
    ultimately show ?thesis by (auto split: option.splits)
  qed
qed

text \<open>
  Only forwarders are credited, and never our own node. Every repeater in the coverage of the
  message after a packet was received either stood there before, or was found in the contact list
  under a number different from ours, or is a placeholder with a negative number for a path hash
  that no contact matches.
\<close>

theorem heard_repeat_credits_forwarders:
  assumes "jm_wf (coverage s)" and "jm_get (pending s) (rx_identity_id a) = Some w"
    and "coverage_for (coverage (snd (record_meshcore_rf_rx cr a s))) (rx_identity_id a) (pw_message_id w) = Some c"
    and "r \<in> set (repeaters_of c)"
  shows "creditable a r
    \<or> (\<exists>c0. coverage_for (coverage s) (rx_identity_id a) (pw_message_id w) = Some c0 \<and> r \<in> set (repeaters_of c0))"
proof (cases "coverage (snd (record_meshcore_rf_rx cr a s)) = coverage s")
  case True
  with assms show ?thesis by auto
next
  case False
  from heard_repeat_only_own_effect [OF False] obtain w' s' where
    "coverage s' = coverage s" "pw_message_id w' = pw_message_id w"
    and "coverage (snd (record_meshcore_rf_rx cr a s)) = coverage (credit_window a w' s')"
    using assms(2) by auto
  with credit_window_repeaters [of s' a w' c r] assms show ?thesis by simp
qed

lemma heard_repeat_credits_forwarders_witness:
  "\<exists>c r. coverage_for (coverage (snd (record_meshcore_rf_rx toy_crypto demo_rx demo_state))) ''id'' ''m1'' = Some c
     \<and> r \<in> set (repeaters_of c) \<and> creditable demo_rx r"
proof -
  obtain c where c: "coverage_for (coverage (snd (record_meshcore_rf_rx toy_crypto demo_rx demo_state))) ''id'' ''m1'' = Some c"
    "repeaters_of c \<noteq> []" by (simp add: heard_eval)
  then obtain r where r: "r \<in> set (repeaters_of c)" by (cases "repeaters_of c") auto
  have wf: "jm_wf (coverage demo_state)" by (simp add: heard_eval jm_wf_def jm_keys_def)
  obtain w where w: "jm_get (pending demo_state) ''id'' = Some w" "pw_message_id w = ''m1''"
    by (simp add: heard_eval)
  have none: "coverage_for (coverage demo_state) ''id'' ''m1'' = Some c0 \<Longrightarrow> repeaters_of c0 = []" for c0
    by (auto simp: heard_eval)
  from heard_repeat_credits_forwarders [OF wf, of demo_rx w toy_crypto c r] c(1) r w none
  have "creditable demo_rx r" by (auto simp: demo_rx_def)
  with c(1) r show ?thesis by blast
qed

end
