(* ===== verification/Ble_Mac.thy ===== *)
theory Ble_Mac
  imports Js_String
begin

text \<open>
  Bluetooth identifiers (\<^verbatim>\<open>src/shared/normalizeBleMac.ts\<close>): the strict shape of a MAC address, the
  normal form under which connections are registered, and the comparison of identifiers in any
  punctuation. Normalising is idempotent, and two MAC spellings have one normal form exactly when
  they name the same device.
\<close>

definition is_hex_char :: "char option \<Rightarrow> bool" where
  "is_hex_char ch = (case ch of None \<Rightarrow> False
     | Some c \<Rightarrow> 48 \<le> code c \<and> code c \<le> 57 \<or> 65 \<le> code c \<and> code c \<le> 70 \<or> 97 \<le> code c \<and> code c \<le> 102)"

text \<open>The loop over the six octets of the long form, from octet \<open>i\<close> on.\<close>

definition octet_ok :: "string \<Rightarrow> char \<Rightarrow> nat \<Rightarrow> bool" where
  "octet_ok s sep i =
     (let off = i * 3 in
      if \<not> is_hex_char (at_opt s off) \<or> \<not> is_hex_char (at_opt s (off + 1)) then False
      else if i < 5 \<and> at_opt s (off + 2) \<noteq> Some sep then False
      else True)"

definition is_strict_ble_mac_shape :: "string \<Rightarrow> bool" where
  "is_strict_ble_mac_shape s =
     (if length s = 12 then list_all (\<lambda>i. is_hex_char (at_opt s i)) [0..<12]
      else if length s \<noteq> 17 then False
      else case at_opt s 2 of
        None \<Rightarrow> False
      | Some sep \<Rightarrow>
          (if sep \<noteq> CHR '':'' \<and> sep \<noteq> CHR ''-'' then False
           else list_all (octet_ok s sep) [0..<6]))"

text \<open>\<^verbatim>\<open>/^[0-9a-f]{8}-[0-9a-f]{4}-[0-9a-f]{4}-[0-9a-f]{4}-[0-9a-f]{12}$/i\<close>\<close>

definition is_uuid :: "string \<Rightarrow> bool" where
  "is_uuid s \<longleftrightarrow> (let parts = js_split (CHR ''-'') s in
     map length parts = [8, 4, 4, 4, 12] \<and> list_all (list_all is_hex_digit) parts)"

definition ble_id_match_key :: "string \<Rightarrow> string" where
  "ble_id_match_key s = js_lower (filter is_hex_digit (js_trim s))"

definition ble_id_hex_digits :: "string \<Rightarrow> string" where
  "ble_id_hex_digits s = ble_id_match_key s"

definition ble_ids_match :: "string \<Rightarrow> string \<Rightarrow> bool" where
  "ble_ids_match a b =
     (let ka = ble_id_match_key a; kb = ble_id_match_key b in length ka > 0 \<and> ka = kb)"

text \<open>\<^verbatim>\<open>hex.match(/.{1,2}/g)\<close>\<close>

fun pairs_of :: "string \<Rightarrow> string list" where
  "pairs_of [] = []"
| "pairs_of [a] = [[a]]"
| "pairs_of (a # b # s) = [a, b] # pairs_of s"

definition normalize_ble_mac :: "string \<Rightarrow> string" where
  "normalize_ble_mac mac =
     (let trimmed = js_trim mac in
      if trimmed = [] then trimmed
      else if is_uuid trimmed then js_lower (filter (\<lambda>c. c \<noteq> CHR ''-'') trimmed)
      else if \<not> is_strict_ble_mac_shape trimmed then js_lower trimmed
      else js_join (CHR '':'') (pairs_of (ble_id_hex_digits trimmed)))"

definition is_twelve_hex_ble_mac :: "string \<Rightarrow> bool" where
  "is_twelve_hex_ble_mac s = is_strict_ble_mac_shape (js_trim s)"

definition format_ble_device_id_for_display :: "string \<Rightarrow> string" where
  "format_ble_device_id_for_display s =
     (let trimmed = js_trim s in
      if trimmed = [] then trimmed
      else if is_twelve_hex_ble_mac trimmed then normalize_ble_mac trimmed
      else trimmed)"

record picker_identity_input =
  pi_device_id :: string
  pi_address :: "string option"
  pi_cached_mac :: "string option"

record picker_identity =
  pi_display :: string
  pi_is_mac :: bool

fun first_mac :: "string option list \<Rightarrow> string option" where
  "first_mac [] = None"
| "first_mac (c # cs) =
     (let trimmed = (case c of None \<Rightarrow> [] | Some t \<Rightarrow> js_trim t) in
      if trimmed = [] then first_mac cs
      else if is_twelve_hex_ble_mac trimmed then Some trimmed
      else first_mac cs)"

definition resolve_ble_picker_identity :: "picker_identity_input \<Rightarrow> picker_identity" where
  "resolve_ble_picker_identity inp =
     (case first_mac [pi_address inp, pi_cached_mac inp, Some (pi_device_id inp)] of
        Some trimmed \<Rightarrow> \<lparr>pi_display = format_ble_device_id_for_display trimmed, pi_is_mac = True\<rparr>
      | None \<Rightarrow> \<lparr>pi_display = format_ble_device_id_for_display (js_trim (pi_device_id inp)), pi_is_mac = False\<rparr>)"

subsection \<open>The strict shape\<close>

lemma is_hex_char_Some: "is_hex_char (Some c) \<longleftrightarrow> is_hex_digit c"
  by (auto simp: is_hex_char_def is_hex_digit_def is_digit_def)

lemma length_12: "length s = 12 \<Longrightarrow> \<exists>a b c d e f g h i j k l. s = [a, b, c, d, e, f, g, h, i, j, k, l]"
  by (auto simp: numeral_eq_Suc length_Suc_conv)

lemma length_17: "length s = 17 \<Longrightarrow>
   \<exists>a b x c d y e f z g h u i j v k l. s = [a, b, x, c, d, y, e, f, z, g, h, u, i, j, v, k, l]"
  by (auto simp: numeral_eq_Suc length_Suc_conv)

lemma upt_12: "[0..<12] = [0, 1, 2, 3, 4, 5, 6, 7, 8, 9, 10, 11 :: nat]" and upt_6: "[0..<6] = [0, 1, 2, 3, 4, 5 :: nat]"
  by (simp_all add: upt_rec)

lemma strict_shape_12:
  "is_strict_ble_mac_shape [a, b, c, d, e, f, g, h, i, j, k, l]
     \<longleftrightarrow> list_all is_hex_digit [a, b, c, d, e, f, g, h, i, j, k, l]"
  by (simp add: is_strict_ble_mac_shape_def upt_12 at_opt_def is_hex_char_Some)

lemma strict_shape_17:
  "is_strict_ble_mac_shape [a, b, x, c, d, y, e, f, z, g, h, u, i, j, v, k, l]
     \<longleftrightarrow> (x = CHR '':'' \<or> x = CHR ''-'') \<and> y = x \<and> z = x \<and> u = x \<and> v = x
        \<and> list_all is_hex_digit [a, b, c, d, e, f, g, h, i, j, k, l]"
  by (simp add: is_strict_ble_mac_shape_def upt_6 at_opt_def is_hex_char_Some octet_ok_def) blast

text \<open>An accepted address is twelve hexadecimal digits, bare or with one separator five times.\<close>

lemma strict_shape_cases:
  assumes "is_strict_ble_mac_shape s"
  obtains a b c d e f g h i j k l
  where "list_all is_hex_digit [a, b, c, d, e, f, g, h, i, j, k, l]"
    and "filter is_hex_digit s = [a, b, c, d, e, f, g, h, i, j, k, l]"
    and "js_trim s = s"
proof -
  have sp: "x = CHR '':'' \<or> x = CHR ''-'' \<Longrightarrow> \<not> is_hex_digit x \<and> \<not> is_space x" for x
    by (auto simp: is_hex_digit_def is_digit_def is_space_def code_def)
  from assms have "length s = 12 \<or> length s = 17" by (auto simp: is_strict_ble_mac_shape_def split: if_splits)
  then show ?thesis
  proof
    assume "length s = 12"
    from length_12 [OF this] obtain a b c d e f g h i j k l
      where s: "s = [a, b, c, d, e, f, g, h, i, j, k, l]" by blast
    with assms have x: "list_all is_hex_digit [a, b, c, d, e, f, g, h, i, j, k, l]" by (simp only: strict_shape_12)
    then have "\<forall>c \<in> set s. \<not> is_space c" using hex_digit_not_space unfolding s list_all_iff by blast
    then show ?thesis using x that [OF x] by (simp add: s js_trim_id)
  next
    assume "length s = 17"
    from length_17 [OF this] obtain a b x c d y e f z g h u i j v k l
      where s: "s = [a, b, x, c, d, y, e, f, z, g, h, u, i, j, v, k, l]" by blast
    with assms have x: "list_all is_hex_digit [a, b, c, d, e, f, g, h, i, j, k, l]"
      and sep: "x = CHR '':'' \<or> x = CHR ''-''" "y = x" "z = x" "u = x" "v = x" by (simp_all only: strict_shape_17)
    have "\<forall>c \<in> set s. \<not> is_space c"
      using x sp [OF sep(1)] hex_digit_not_space unfolding s sep(2-5) list_all_iff by auto
    then show ?thesis using x that [OF x] sp [OF sep(1)] by (simp add: s sep(2-5) js_trim_id)
  qed
qed

lemma lower_hex: "is_hex_digit c \<Longrightarrow> is_hex_digit (lower_char c)"
  by (auto simp: is_hex_digit_def is_digit_def lower_char_def Let_def)

lemma strict_not_uuid: "is_strict_ble_mac_shape s \<Longrightarrow> \<not> is_uuid s"
proof
  assume sh: "is_strict_ble_mac_shape s" and "is_uuid s"
  then have m: "map length (js_split (CHR ''-'') s) = [8, 4, 4, 4, 12]" by (simp add: is_uuid_def Let_def)
  have "length (js_join c xs) = sum_list (map length xs) + (length xs - 1)" for c xs
    by (induction c xs rule: js_join.induct) auto
  moreover have "length (js_split (CHR ''-'') s) = 5" using arg_cong [OF m, of length] by simp
  ultimately have "length (js_join (CHR ''-'') (js_split (CHR ''-'') s)) = 36" using m by simp
  then have "length s = 36" by (simp only: js_join_split)
  with sh show False by (auto simp: is_strict_ble_mac_shape_def split: if_splits)
qed

lemma normalize_of_strict:
  assumes "is_strict_ble_mac_shape (js_trim s)"
  shows "normalize_ble_mac s = js_join (CHR '':'') (pairs_of (ble_id_match_key s))"
    and "filter is_hex_digit (normalize_ble_mac s) = ble_id_match_key s"
    and "is_strict_ble_mac_shape (normalize_ble_mac s)"
    and "js_lower (normalize_ble_mac s) = normalize_ble_mac s"
    and "length (ble_id_match_key s) = 12"
proof -
  from assms obtain a b c d e f g h i j k l
    where x: "list_all is_hex_digit [a, b, c, d, e, f, g, h, i, j, k, l]"
      and f: "filter is_hex_digit (js_trim s) = [a, b, c, d, e, f, g, h, i, j, k, l]"
      and t: "js_trim (js_trim s) = js_trim s"
    by (rule strict_shape_cases)
  have "js_trim s \<noteq> []" using f by auto
  then show n: "normalize_ble_mac s = js_join (CHR '':'') (pairs_of (ble_id_match_key s))"
    using assms strict_not_uuid [OF assms] t
    by (simp add: normalize_ble_mac_def ble_id_hex_digits_def ble_id_match_key_def Let_def)
  have k: "ble_id_match_key s = map lower_char [a, b, c, d, e, f, g, h, i, j, k, l]"
    by (simp add: ble_id_match_key_def f js_lower_def)
  show "length (ble_id_match_key s) = 12" by (simp add: k)
  have ll: "lower_char (lower_char c) = lower_char c" for c
  proof -
    have "code (lower_char (lower_char c)) = code (lower_char c)"
      using code_less [of c] by (auto simp: lower_char_def Let_def)
    then show ?thesis by simp
  qed
  have lc: "lower_char (CHR '':'') = CHR '':''" and hc: "\<not> is_hex_digit (CHR '':'')"
    by (simp_all add: lower_char_def code_def is_hex_digit_def is_digit_def)
  show "filter is_hex_digit (normalize_ble_mac s) = ble_id_match_key s"
    using x by (simp add: n k lower_hex hc)
  show "is_strict_ble_mac_shape (normalize_ble_mac s)"
    using x by (simp add: n k strict_shape_17 lower_hex)
  show "js_lower (normalize_ble_mac s) = normalize_ble_mac s"
    by (simp add: n k js_lower_def ll lc)
qed

lemma filter_map_lower: "js_lower s = s \<Longrightarrow> js_lower (filter P s) = filter P s"
  by (induction s) (auto simp: js_lower_def)

text \<open>
  The normal form of a Bluetooth address identifies the device. Two addresses in the strict
  MAC shape, whatever their separators and letter case, have the same normal form exactly when
  their hexadecimal digits agree, the normal form is again such an address, and normalising it
  changes nothing.
\<close>

theorem normalize_mac_identifies:
  assumes "is_twelve_hex_ble_mac a" and "is_twelve_hex_ble_mac b"
  shows "(normalize_ble_mac a = normalize_ble_mac b \<longleftrightarrow> ble_ids_match a b)
    \<and> is_twelve_hex_ble_mac (normalize_ble_mac a)
    \<and> normalize_ble_mac (normalize_ble_mac a) = normalize_ble_mac a"
proof -
  have sa: "is_strict_ble_mac_shape (js_trim a)" and sb: "is_strict_ble_mac_shape (js_trim b)"
    using assms by (simp_all add: is_twelve_hex_ble_mac_def)
  note A = normalize_of_strict [OF sa] and B = normalize_of_strict [OF sb]
  have "normalize_ble_mac a = normalize_ble_mac b \<longleftrightarrow> ble_id_match_key a = ble_id_match_key b"
    using A(1,2) B(1,2) by metis
  then have eq: "normalize_ble_mac a = normalize_ble_mac b \<longleftrightarrow> ble_ids_match a b"
    using A(5) by (auto simp: ble_ids_match_def Let_def)
  have t: "js_trim (normalize_ble_mac a) = normalize_ble_mac a"
    using strict_shape_cases [OF A(3)] by metis
  then have "ble_id_match_key (normalize_ble_mac a) = ble_id_match_key a"
    using A(2,4) by (metis ble_id_match_key_def filter_map_lower)
  moreover have "is_strict_ble_mac_shape (js_trim (normalize_ble_mac a))" using A(3) t by simp
  ultimately show ?thesis
    using eq A(1) normalize_of_strict(1) [of "normalize_ble_mac a"] by (simp add: is_twelve_hex_ble_mac_def)
qed

lemma normalize_mac_identifies_witness:
  "normalize_ble_mac ''AA-BB-CC-00-11-22'' = normalize_ble_mac ''aabbcc001122''"
proof -
  have "is_twelve_hex_ble_mac ''AA-BB-CC-00-11-22''" "is_twelve_hex_ble_mac ''aabbcc001122''"
    and "ble_ids_match ''AA-BB-CC-00-11-22'' ''aabbcc001122''" by code_simp+
  with normalize_mac_identifies [OF this(1,2)] show ?thesis by blast
qed

end
