(* ===== verification/Ble_Coexistence.thy ===== *)
theory Ble_Coexistence
  imports Ble_Mac Js_Map
begin

text \<open>
  The registry that lets several Bluetooth stacks share one adapter
  (\<^verbatim>\<open>src/main/ble-coexistence-coordinator.ts\<close>): who owns which peripheral, and the lease of the
  scan. The links that the GATT sidecar reports are an argument, since the proxy is another process.
  \<^verbatim>\<open>acquireScan\<close> sets and clears its in-flight promise without waiting in between, so between two
  steps of the machine it is always null and the operation is one step. The lease is shown to
  implement a counter per owner of which at most one is positive.
\<close>

datatype peripheral_owner = GattMeshtastic | GattMeshcore | OwnerReticulum
datatype scan_owner = ScanGatt | ScanReticulum

datatype coexistence_error =
    BlePeripheralConflictError string peripheral_owner
  | BleScanBusyError scan_owner

record coexistence =
  connections :: "(string, peripheral_owner) jsmap"
  scan_owner_of :: "scan_owner option"
  scan_owner_depth :: nat
  noble_yield_decision_pending :: bool

record coexistence_view =
  view_connections :: "(string \<times> peripheral_owner) list"
  view_scan_owner :: "scan_owner option"
  view_noble_yield :: bool

definition coexistence_init :: coexistence where
  "coexistence_init = \<lparr>connections = [], scan_owner_of = None, scan_owner_depth = 0,
     noble_yield_decision_pending = False\<rparr>"

definition coex_get_state :: "(string \<times> peripheral_owner) list \<Rightarrow> coexistence \<Rightarrow> coexistence_view" where
  "coex_get_state gatt s =
     \<lparr>view_connections = fold (\<lambda>(mac, owner) m.
        let key = normalize_ble_mac mac in if key \<noteq> [] then jm_set key owner m else m) gatt (connections s),
      view_scan_owner = scan_owner_of s, view_noble_yield = noble_yield_decision_pending s\<rparr>"

definition set_noble_yield_pending :: "bool \<Rightarrow> coexistence \<Rightarrow> coexistence" where
  "set_noble_yield_pending p s = s\<lparr>noble_yield_decision_pending := p\<rparr>"

definition existing_owner :: "(string \<times> peripheral_owner) list \<Rightarrow> string \<Rightarrow> coexistence \<Rightarrow> peripheral_owner option" where
  "existing_owner gatt key s =
     map_option snd (find (\<lambda>(mac, owner). mac = key) (view_connections (coex_get_state gatt s)))"

definition coex_register ::
    "(string \<times> peripheral_owner) list \<Rightarrow> string \<Rightarrow> peripheral_owner \<Rightarrow> coexistence
      \<Rightarrow> coexistence_error + coexistence" where
  "coex_register gatt mac owner s =
     (let key = normalize_ble_mac mac in
      if key = [] then Inr s
      else case existing_owner gatt key s of
        Some ex \<Rightarrow>
          (if ex \<noteq> owner then Inl (BlePeripheralConflictError key ex)
           else Inr (s\<lparr>connections := jm_set key owner (connections s)\<rparr>))
      | None \<Rightarrow> Inr (s\<lparr>connections := jm_set key owner (connections s)\<rparr>))"

definition coex_unregister :: "string \<Rightarrow> peripheral_owner \<Rightarrow> coexistence \<Rightarrow> coexistence" where
  "coex_unregister mac owner s =
     (let key = normalize_ble_mac mac in
      if key = [] then s
      else if jm_get (connections s) key = Some owner
        then s\<lparr>connections := jm_delete key (connections s)\<rparr>
      else s)"

definition assert_can_connect ::
    "(string \<times> peripheral_owner) list \<Rightarrow> peripheral_owner \<Rightarrow> string \<Rightarrow> coexistence \<Rightarrow> coexistence_error option" where
  "assert_can_connect gatt owner mac s =
     (if scan_owner_of s = Some ScanReticulum \<and> (owner = GattMeshtastic \<or> owner = GattMeshcore)
      then Some (BleScanBusyError ScanReticulum)
      else let key = normalize_ble_mac mac in
      if key = [] then None
      else case existing_owner gatt key s of
        Some ex \<Rightarrow> if ex \<noteq> owner then Some (BlePeripheralConflictError key ex) else None
      | None \<Rightarrow> None)"

definition acquire_scan :: "scan_owner \<Rightarrow> coexistence \<Rightarrow> coexistence_error + coexistence" where
  "acquire_scan owner s =
     (if scan_owner_of s = Some owner then Inr (s\<lparr>scan_owner_depth := scan_owner_depth s + 1\<rparr>)
      else case scan_owner_of s of
        Some other \<Rightarrow> Inl (BleScanBusyError other)
      | None \<Rightarrow> Inr (s\<lparr>scan_owner_of := Some owner, scan_owner_depth := 1\<rparr>))"

definition release_scan :: "scan_owner \<Rightarrow> coexistence \<Rightarrow> coexistence" where
  "release_scan owner s =
     (if scan_owner_of s \<noteq> Some owner then s
      else if scan_owner_depth s > 1 then s\<lparr>scan_owner_depth := scan_owner_depth s - 1\<rparr>
      else s\<lparr>scan_owner_depth := 0, scan_owner_of := None\<rparr>)"

text \<open>
  \<^verbatim>\<open>withScan\<close>: the operation runs between acquire and release; its outcome, a value or an
  exception, is passed on after the release.
\<close>

definition with_scan ::
    "scan_owner \<Rightarrow> (coexistence \<Rightarrow> 'r \<times> coexistence) \<Rightarrow> coexistence \<Rightarrow> (coexistence_error + 'r) \<times> coexistence" where
  "with_scan owner operation s =
     (case acquire_scan owner s of
        Inl e \<Rightarrow> (Inl e, s)
      | Inr s1 \<Rightarrow> (case operation s1 of (r, s2) \<Rightarrow> (Inr r, release_scan owner s2)))"

subsection \<open>The lease as counters\<close>

definition scan_counts :: "coexistence \<Rightarrow> scan_owner \<Rightarrow> nat" where
  "scan_counts s o' = (if scan_owner_of s = Some o' then scan_owner_depth s else 0)"

definition scan_ok :: "coexistence \<Rightarrow> bool" where
  "scan_ok s \<longleftrightarrow> (scan_owner_of s = None \<longleftrightarrow> scan_owner_depth s = 0) \<and> jm_wf (connections s)"

datatype coex_event =
    EvRegister "(string \<times> peripheral_owner) list" string peripheral_owner
  | EvUnregister string peripheral_owner
  | EvAcquire scan_owner
  | EvRelease scan_owner
  | EvYield bool

fun coex_step :: "coex_event \<Rightarrow> coexistence \<Rightarrow> coexistence" where
  "coex_step (EvRegister g mac o') s = (case coex_register g mac o' s of Inl _ \<Rightarrow> s | Inr s' \<Rightarrow> s')"
| "coex_step (EvUnregister mac o') s = coex_unregister mac o' s"
| "coex_step (EvAcquire o') s = (case acquire_scan o' s of Inl _ \<Rightarrow> s | Inr s' \<Rightarrow> s')"
| "coex_step (EvRelease o') s = release_scan o' s"
| "coex_step (EvYield b) s = set_noble_yield_pending b s"

lemma coex_register_cases:
  "coex_register g mac o' s = Inr s' \<Longrightarrow>
     s' = s \<or> s' = s\<lparr>connections := jm_set (normalize_ble_mac mac) o' (connections s)\<rparr>"
  by (auto simp: coex_register_def Let_def split: option.splits if_splits)

lemma coex_step_ok: "scan_ok s \<Longrightarrow> scan_ok (coex_step e s)"
  by (cases e)
     (auto simp: scan_ok_def acquire_scan_def release_scan_def set_noble_yield_pending_def
       coex_unregister_def Let_def jm.wf_set jm.wf_del dest!: coex_register_cases
       split: sum.splits option.splits if_splits)

interpretation coex: invariant_steps coex_step scan_ok coexistence_init
  by unfold_locales (simp_all add: coex_step_ok, simp add: scan_ok_def coexistence_init_def)

text \<open>
  C17: the scan lease is exclusive and nests. In every state the coordinator can reach, at most one
  owner holds the lease; acquiring succeeds exactly when no other owner holds it, and then raises
  the owner's count by one; otherwise it fails naming a holder; releasing lowers the count of the
  owner by one, and a release by anyone else changes nothing.
\<close>

theorem scan_lease_counts:
  fixes es :: "coex_event list"
  defines "s \<equiv> fold coex_step es coexistence_init"
  shows "(case acquire_scan p s of
        Inr s' \<Rightarrow> (\<forall>q. q = p \<or> scan_counts s q = 0) \<and> scan_counts s' = (scan_counts s)(p := scan_counts s p + 1)
      | Inl e \<Rightarrow> (\<exists>q. q \<noteq> p \<and> 0 < scan_counts s q \<and> e = BleScanBusyError q))
    \<and> scan_counts (release_scan p s) = (scan_counts s)(p := scan_counts s p - 1)
    \<and> card {q. 0 < scan_counts s q} \<le> 1"
proof -
  have "scan_ok s" unfolding s_def by (rule coex.fold_inv [OF coex.start_inv])
  then have ok: "scan_owner_of s = None \<longleftrightarrow> scan_owner_depth s = 0" by (simp add: scan_ok_def)
  have acq: "case acquire_scan p s of
        Inr s' \<Rightarrow> (\<forall>q. q = p \<or> scan_counts s q = 0) \<and> scan_counts s' = (scan_counts s)(p := scan_counts s p + 1)
      | Inl e \<Rightarrow> (\<exists>q. q \<noteq> p \<and> 0 < scan_counts s q \<and> e = BleScanBusyError q)"
  proof (cases "scan_owner_of s")
    case None
    with ok show ?thesis by (auto simp: acquire_scan_def scan_counts_def fun_eq_iff)
  next
    case (Some q)
    with ok show ?thesis by (auto simp: acquire_scan_def scan_counts_def fun_eq_iff)
  qed
  have rel: "scan_counts (release_scan p s) = (scan_counts s)(p := scan_counts s p - 1)"
    by (auto simp: release_scan_def scan_counts_def fun_eq_iff)
  have "{q. 0 < scan_counts s q} \<subseteq> (case scan_owner_of s of None \<Rightarrow> {} | Some o' \<Rightarrow> {o'})"
    by (auto simp: scan_counts_def split: if_splits)
  then have "card {q. 0 < scan_counts s q} \<le> card (case scan_owner_of s of None \<Rightarrow> {} | Some o' \<Rightarrow> {o'})"
    by (intro card_mono) (auto split: option.splits)
  also have "\<dots> \<le> 1" by (simp split: option.splits)
  finally show ?thesis using acq rel by blast
qed

text \<open>
  The lease taken for one operation is given back. Whether the operation returns or raises, if
  it leaves the lease as it found it then so does \<^verbatim>\<open>withScan\<close>, in every state the coordinator can
  reach; and if another owner holds the lease the operation is not run at all.
\<close>

theorem with_scan_restores:
  assumes "s = fold coex_step es coexistence_init"
    and "\<And>s1. scan_owner_of (snd (operation s1)) = scan_owner_of s1
       \<and> scan_owner_depth (snd (operation s1)) = scan_owner_depth s1"
    and "with_scan owner operation s = (r, s')"
  shows "scan_owner_of s' = scan_owner_of s \<and> scan_owner_depth s' = scan_owner_depth s
    \<and> (case r of Inl _ \<Rightarrow> s' = s | Inr _ \<Rightarrow> scan_owner_of s \<in> {None, Some owner})"
proof -
  have "scan_ok s" unfolding assms(1) by (rule coex.fold_inv [OF coex.start_inv])
  then have ok: "scan_owner_of s = None \<longleftrightarrow> scan_owner_depth s = 0" by (simp add: scan_ok_def)
  show ?thesis
  proof (cases "acquire_scan owner s")
    case (Inl e)
    with assms(3) show ?thesis by (auto simp: with_scan_def)
  next
    case (Inr s1)
    obtain v s2 where op: "operation s1 = (v, s2)" by (cases "operation s1")
    with assms(2) [of s1] have "scan_owner_of s2 = scan_owner_of s1" "scan_owner_depth s2 = scan_owner_depth s1"
      by simp_all
    with Inr op ok assms(3) show ?thesis
      by (auto simp: with_scan_def acquire_scan_def release_scan_def split: option.splits if_splits)
  qed
qed

lemma find_map_of: "map_option snd (find (\<lambda>(mac, owner). mac = key) l) = map_of l key"
  by (induction l) auto

lemma view_get:
  "jm_get (view_connections (coex_get_state g s)) k = Some q \<Longrightarrow>
     (\<exists>mac. (mac, q) \<in> set g \<and> normalize_ble_mac mac = k) \<or> jm_get (connections s) k = Some q"
proof -
  have "jm_get (fold (\<lambda>(mac, owner) m. let key = normalize_ble_mac mac in if key \<noteq> [] then jm_set key owner m else m) g m0) k = Some q
     \<Longrightarrow> (\<exists>mac. (mac, q) \<in> set g \<and> normalize_ble_mac mac = k) \<or> jm_get m0 k = Some q" for m0
  proof (induction g arbitrary: m0)
    case (Cons e g)
    obtain mac owner where e: "e = (mac, owner)" by (cases e)
    from Cons.IH [of "let key = normalize_ble_mac mac in if key \<noteq> [] then jm_set key owner m0 else m0"] Cons.prems
    show ?case by (auto simp: e Let_def jm_simps split: if_splits)
  qed simp
  then show "jm_get (view_connections (coex_get_state g s)) k = Some q \<Longrightarrow> ?thesis"
    by (simp add: coex_get_state_def)
qed

lemma view_keeps:
  "jm_get (connections s) k \<noteq> None \<Longrightarrow> jm_get (view_connections (coex_get_state g s)) k \<noteq> None"
proof -
  have "jm_get m0 k \<noteq> None \<Longrightarrow> jm_get (fold (\<lambda>(mac, owner) m. let key = normalize_ble_mac mac in if key \<noteq> [] then jm_set key owner m else m) g m0) k \<noteq> None" for m0
    by (induction g arbitrary: m0) (auto simp: Let_def jm_simps)
  then show "jm_get (connections s) k \<noteq> None \<Longrightarrow> ?thesis" by (simp add: coex_get_state_def)
qed

text \<open>
  Nobody takes a peripheral away from its owner. In any step, a registered owner loses a
  peripheral only by unregistering it, or to a new owner for whom the GATT sidecar already reports
  a live link to that device.
\<close>

theorem ownership_kept:
  assumes "jm_get (connections s) k = Some o1" and "jm_get (connections (coex_step e s)) k \<noteq> Some o1"
  shows "(\<exists>mac. e = EvUnregister mac o1 \<and> normalize_ble_mac mac = k)
    \<or> (\<exists>g mac o2 mac2. e = EvRegister g mac o2 \<and> normalize_ble_mac mac = k
         \<and> (mac2, o2) \<in> set g \<and> normalize_ble_mac mac2 = k)"
proof (cases e)
  case (EvRegister g mac o2)
  let ?k = "normalize_ble_mac mac"
  from assms EvRegister have k: "?k = k" "o2 \<noteq> o1" and r: "coex_register g mac o2 s = Inr (s\<lparr>connections := jm_set ?k o2 (connections s)\<rparr>)"
    by (auto simp: jm_simps split: sum.splits if_splits dest!: coex_register_cases)
  have ex: "existing_owner g k s = jm_get (view_connections (coex_get_state g s)) k"
    by (simp add: existing_owner_def find_map_of jm_get_def)
  obtain q where q: "jm_get (view_connections (coex_get_state g s)) k = Some q"
    using view_keeps [of s k g] assms(1) by auto
  have "?k \<noteq> []" using assms EvRegister by (auto simp: coex_register_def)
  then have "q = o2"
    using r k(1) q ex by (auto simp: coex_register_def Let_def split: if_splits)
  with view_get [OF q] k assms(1) EvRegister show ?thesis by auto
next
  case (EvUnregister mac o2)
  with assms show ?thesis by (auto simp: coex_unregister_def Let_def jm_simps split: if_splits)
qed (use assms in \<open>auto simp: acquire_scan_def release_scan_def set_noble_yield_pending_def split: sum.splits option.splits if_splits\<close>)

definition demo_coex :: coexistence where
  "demo_coex = fold coex_step [EvRegister [] ''aabbcc001122'' OwnerReticulum, EvAcquire ScanGatt] coexistence_init"

lemma scan_lease_counts_witness:
  "card {q. 0 < scan_counts (fold coex_step [EvAcquire ScanGatt] coexistence_init) q} \<le> 1
   \<and> scan_counts (release_scan ScanGatt (fold coex_step [EvAcquire ScanGatt] coexistence_init)) ScanGatt = 0"
  using scan_lease_counts [of ScanGatt "[EvAcquire ScanGatt]"]
  by (simp add: acquire_scan_def coexistence_init_def scan_counts_def)

lemma with_scan_restores_witness:
  "scan_owner_of (snd (with_scan ScanGatt (\<lambda>t. (3 :: nat, t)) demo_coex)) = scan_owner_of demo_coex"
  using with_scan_restores [of demo_coex "[EvRegister [] ''aabbcc001122'' OwnerReticulum, EvAcquire ScanGatt]"
      "\<lambda>t. (3 :: nat, t)" ScanGatt] by (simp add: demo_coex_def prod_eq_iff)

lemma ownership_kept_witness:
  "jm_get (connections demo_coex) ''aa:bb:cc:00:11:22'' = Some OwnerReticulum
   \<and> (\<exists>mac. EvUnregister ''AA:BB:CC:00:11:22'' OwnerReticulum = EvUnregister mac OwnerReticulum
        \<and> normalize_ble_mac mac = ''aa:bb:cc:00:11:22'')"
proof
  show a: "jm_get (connections demo_coex) ''aa:bb:cc:00:11:22'' = Some OwnerReticulum" by code_simp
  have "jm_get (connections (coex_step (EvUnregister ''AA:BB:CC:00:11:22'' OwnerReticulum) demo_coex)) ''aa:bb:cc:00:11:22'' \<noteq> Some OwnerReticulum"
    by code_simp
  from ownership_kept [OF a this]
  show "\<exists>mac. EvUnregister ''AA:BB:CC:00:11:22'' OwnerReticulum = EvUnregister mac OwnerReticulum
        \<and> normalize_ble_mac mac = ''aa:bb:cc:00:11:22''" by auto
qed

end
