(* ===== verification/Rf_Reconnect.thy ===== *)
theory Rf_Reconnect
  imports Mesh_Prelude
begin

text \<open>
  The reconnect scheduler of a LoRa link (\<^verbatim>\<open>src/renderer/lib/rfReconnectController.ts\<close>) and the latch
  that stops it after an exhausted budget (\<^verbatim>\<open>src/renderer/lib/bleReconnectExhaustLatch.ts\<close>). Each
  method is one event, since none waits. A scheduled microtask outlives \<^verbatim>\<open>cancel\<close>, so the state
  counts the callbacks that are queued; each of them runs as an event of its own. An event answers
  with what its caller acts on: whether to start an owner, to schedule a follow-up, or to run.
\<close>

datatype reconnect_phase = PhIdle | PhBackoff | PhOpening

record reconnect_state =
  phase :: reconnect_phase
  generation :: nat
  attempt :: int
  is_reconnecting :: bool
  dirty :: bool
  attempt_active :: bool
  schedule_pending :: bool
  queued_microtasks :: nat

definition reconnect_init :: reconnect_state where
  "reconnect_init = \<lparr>phase = PhIdle, generation = 0, attempt = 0, is_reconnecting = False,
     dirty = False, attempt_active = False, schedule_pending = False, queued_microtasks = 0\<rparr>"

definition on_link_lost :: "reconnect_state \<Rightarrow> bool \<times> nat \<times> reconnect_state" where
  "on_link_lost s =
     (let s1 = s\<lparr>generation := generation s + 1\<rparr> in
      if is_reconnecting s1 then (False, generation s1, s1\<lparr>dirty := True\<rparr>)
      else (True, generation s1, s1\<lparr>is_reconnecting := True, dirty := False\<rparr>))"

definition rc_cancel :: "reconnect_state \<Rightarrow> reconnect_state" where
  "rc_cancel s = s\<lparr>generation := generation s + 1, is_reconnecting := False, dirty := False,
     attempt_active := False, attempt := 0, phase := PhIdle, schedule_pending := False\<rparr>"

definition mark_success :: "reconnect_state \<Rightarrow> reconnect_state" where
  "mark_success s = s\<lparr>is_reconnecting := False, dirty := False, attempt_active := False,
     attempt := 0, phase := PhIdle\<rparr>"

definition mark_exhausted :: "reconnect_state \<Rightarrow> reconnect_state" where
  "mark_exhausted s = s\<lparr>is_reconnecting := False, dirty := False, attempt_active := False, phase := PhIdle\<rparr>"

definition begin_attempt :: "int \<Rightarrow> reconnect_state \<Rightarrow> nat \<times> reconnect_state" where
  "begin_attempt n s = (let s1 = s\<lparr>attempt := n, attempt_active := True, phase := PhBackoff\<rparr> in (generation s1, s1))"

definition begin_opening :: "reconnect_state \<Rightarrow> reconnect_state" where
  "begin_opening s = s\<lparr>phase := PhOpening\<rparr>"

text \<open>\<open>None\<close> is a call without \<^verbatim>\<open>keepReconnecting\<close>; the first component is \<^verbatim>\<open>shouldSchedule\<close>.\<close>

definition end_attempt :: "bool option \<Rightarrow> reconnect_state \<Rightarrow> bool \<times> nat \<times> reconnect_state" where
  "end_attempt keep_opt s =
     (let s1 = s\<lparr>attempt_active := False, phase := PhIdle\<rparr>;
          keep = (case keep_opt of Some k \<Rightarrow> k | None \<Rightarrow> is_reconnecting s1)
      in if \<not> keep then (False, generation s1, s1\<lparr>dirty := False, is_reconnecting := False\<rparr>)
         else if dirty s1 then (True, generation s1, s1\<lparr>dirty := False\<rparr>)
         else (False, generation s1, s1))"

definition schedule_owner :: "reconnect_state \<Rightarrow> reconnect_state" where
  "schedule_owner s =
     (if schedule_pending s then s
      else s\<lparr>schedule_pending := True, queued_microtasks := queued_microtasks s + 1\<rparr>)"

text \<open>The queued callback; the result tells whether it calls \<^verbatim>\<open>run\<close>.\<close>

definition run_microtask :: "reconnect_state \<Rightarrow> bool \<times> reconnect_state" where
  "run_microtask s =
     (if queued_microtasks s = 0 then (False, s)
      else let s1 = s\<lparr>queued_microtasks := queued_microtasks s - 1, schedule_pending := False\<rparr> in
      if \<not> is_reconnecting s1 then (False, s1)
      else if attempt_active s1 then (False, s1\<lparr>dirty := True\<rparr>)
      else (True, s1))"

definition mark_dirty :: "reconnect_state \<Rightarrow> reconnect_state" where
  "mark_dirty s = s\<lparr>dirty := True\<rparr>"

subsection \<open>The machine\<close>

datatype rc_event =
    LinkLost | Cancel | MarkSuccess | MarkExhausted | BeginAttempt int | BeginOpening
  | EndAttempt "bool option" | ScheduleOwner | RunMicrotask | MarkDirty

text \<open>What an event asks its caller to do.\<close>

datatype rc_output = OutNone | OutStartOwner | OutSchedule | OutRun

fun rc_exec :: "rc_event \<Rightarrow> reconnect_state \<Rightarrow> rc_output \<times> reconnect_state" where
  "rc_exec LinkLost s = (case on_link_lost s of (b, _, s') \<Rightarrow> (if b then OutStartOwner else OutNone, s'))"
| "rc_exec Cancel s = (OutNone, rc_cancel s)"
| "rc_exec MarkSuccess s = (OutNone, mark_success s)"
| "rc_exec MarkExhausted s = (OutNone, mark_exhausted s)"
| "rc_exec (BeginAttempt n) s = (OutNone, snd (begin_attempt n s))"
| "rc_exec BeginOpening s = (OutNone, begin_opening s)"
| "rc_exec (EndAttempt k) s = (case end_attempt k s of (b, _, s') \<Rightarrow> (if b then OutSchedule else OutNone, s'))"
| "rc_exec ScheduleOwner s = (OutNone, schedule_owner s)"
| "rc_exec RunMicrotask s = (case run_microtask s of (b, s') \<Rightarrow> (if b then OutRun else OutNone, s'))"
| "rc_exec MarkDirty s = (OutNone, mark_dirty s)"

lemmas rc_defs [step_simps] = on_link_lost_def rc_cancel_def mark_success_def mark_exhausted_def
  begin_attempt_def begin_opening_def end_attempt_def schedule_owner_def run_microtask_def
  mark_dirty_def Let_def

text \<open>The state with the number of owners asked for and of cycles that ended so far.\<close>

record rc_trace =
  tr_state :: reconnect_state
  tr_owner_starts :: nat
  tr_cycle_ends :: nat

definition trace_init :: rc_trace where
  "trace_init = \<lparr>tr_state = reconnect_init, tr_owner_starts = 0, tr_cycle_ends = 0\<rparr>"

definition trace_step :: "rc_event \<Rightarrow> rc_trace \<Rightarrow> rc_trace" where
  "trace_step e t =
     (case rc_exec e (tr_state t) of
        (out, s') \<Rightarrow>
          \<lparr>tr_state = s',
           tr_owner_starts = tr_owner_starts t + (if out = OutStartOwner then 1 else 0),
           tr_cycle_ends = tr_cycle_ends t + (if is_reconnecting (tr_state t) \<and> \<not> is_reconnecting s' then 1 else 0)\<rparr>)"

text \<open>The only event that starts a cycle asks for exactly one owner.\<close>

lemma exec_starts_cycle:
  "rc_exec e s = (out, s') \<Longrightarrow>
     (out = OutStartOwner \<longleftrightarrow> e = LinkLost \<and> \<not> is_reconnecting s)
     \<and> (\<not> is_reconnecting s \<longrightarrow> (is_reconnecting s' \<longleftrightarrow> out = OutStartOwner))
     \<and> (out = OutRun \<longrightarrow> is_reconnecting s \<and> \<not> attempt_active s)
     \<and> generation s \<le> generation s'"
  by (cases e) (auto simp: step_simps split: if_splits option.splits)

definition trace_ok :: "rc_trace \<Rightarrow> bool" where
  "trace_ok t \<longleftrightarrow>
     tr_owner_starts t = tr_cycle_ends t + (if is_reconnecting (tr_state t) then 1 else 0)"

lemma trace_step_ok: "trace_ok t \<Longrightarrow> trace_ok (trace_step e t)"
  using exec_starts_cycle [of e "tr_state t" "fst (rc_exec e (tr_state t))" "snd (rc_exec e (tr_state t))"]
  by (auto simp: trace_ok_def trace_step_def split: prod.splits)

interpretation rc: invariant_steps trace_step trace_ok trace_init
  by unfold_locales (simp_all add: trace_step_ok, simp add: trace_ok_def trace_init_def reconnect_init_def)

text \<open>
  C20: there is one reconnect owner per cycle. After any sequence of link losses, attempts,
  schedules, microtasks, cancellations and results, in any order, the number of owners that
  \<^verbatim>\<open>onLinkLost\<close> has asked its callers to start is the number of reconnect cycles that ended, plus
  one if a cycle is under way; so no second owner is ever started inside a cycle, and a scheduled
  callback calls \<^verbatim>\<open>run\<close> only inside a cycle and while no attempt is active.
\<close>

theorem single_owner_per_cycle:
  fixes es :: "rc_event list"
  defines "t \<equiv> fold trace_step es trace_init"
  shows "tr_owner_starts t = tr_cycle_ends t + (if is_reconnecting (tr_state t) then 1 else 0)
    \<and> fst (rc_exec RunMicrotask (tr_state t)) =
        (if 0 < queued_microtasks (tr_state t) \<and> is_reconnecting (tr_state t) \<and> \<not> attempt_active (tr_state t)
         then OutRun else OutNone)"
proof -
  have "trace_ok t" unfolding t_def by (rule rc.fold_inv [OF rc.start_inv])
  then show ?thesis by (auto simp: trace_ok_def step_simps)
qed

subsection \<open>A drop during an attempt is not forgotten\<close>

text \<open>The events that end a cycle or settle an attempt.\<close>

definition settles :: "rc_event \<Rightarrow> bool" where
  "settles e \<longleftrightarrow> (case e of Cancel \<Rightarrow> True | MarkSuccess \<Rightarrow> True | MarkExhausted \<Rightarrow> True
     | EndAttempt _ \<Rightarrow> True | _ \<Rightarrow> False)"

lemma dirty_stays:
  "is_reconnecting s \<Longrightarrow> dirty s \<Longrightarrow> \<not> settles e \<Longrightarrow>
     is_reconnecting (snd (rc_exec e s)) \<and> dirty (snd (rc_exec e s))"
  by (cases e) (auto simp: step_simps settles_def)

lemma dirty_stays_run:
  "is_reconnecting s \<Longrightarrow> dirty s \<Longrightarrow> list_all (\<lambda>e. \<not> settles e) es \<Longrightarrow>
     is_reconnecting (fold (\<lambda>e s. snd (rc_exec e s)) es s) \<and> dirty (fold (\<lambda>e s. snd (rc_exec e s)) es s)"
proof (induction es arbitrary: s)
  case (Cons e es)
  then show ?case using dirty_stays [of s e] by simp
qed simp

text \<open>The events that cannot mark a cycle dirty: no loss, no marking, no coalesced callback.\<close>

definition keeps_clean :: "rc_event \<Rightarrow> bool" where
  "keeps_clean e \<longleftrightarrow> e \<noteq> LinkLost \<and> e \<noteq> MarkDirty \<and> e \<noteq> RunMicrotask"

lemma clean_stays: "\<not> dirty s \<Longrightarrow> keeps_clean e \<Longrightarrow> \<not> dirty (snd (rc_exec e s))"
  by (cases e) (auto simp: step_simps keeps_clean_def split: option.splits)

lemma clean_stays_run:
  "\<not> dirty s \<Longrightarrow> list_all keeps_clean es \<Longrightarrow> \<not> dirty (fold (\<lambda>e s. snd (rc_exec e s)) es s)"
proof (induction es arbitrary: s)
  case (Cons e es)
  then show ?case using clean_stays [of s e] by simp
qed simp

lemma end_attempt_clean: "\<not> dirty s \<Longrightarrow> fst (rc_exec (EndAttempt k) s) = OutNone"
  by (simp add: step_simps split: option.splits)

lemma end_attempt_dirty:
  assumes "is_reconnecting s" and "dirty s"
  shows "fst (rc_exec (EndAttempt k) s) = (if k = Some False then OutNone else OutSchedule)"
    and "is_reconnecting (snd (rc_exec (EndAttempt k) s)) \<longleftrightarrow> k \<noteq> Some False"
    and "\<not> dirty (snd (rc_exec (EndAttempt k) s))"
  using assms by (auto simp: step_simps split: option.splits)

text \<open>
  C21: a link loss during a reconnect cycle is answered by exactly one follow-up, or ends with the
  cycle. Suppose the link is lost while a cycle is under way, and then anything happens that does
  not settle the attempt or end the cycle. When the attempt then ends, with any value of
  \<^verbatim>\<open>keepReconnecting\<close> or none: it asks for a follow-up schedule exactly if the caller did not say
  \<^verbatim>\<open>keepReconnecting: false\<close>; the cycle goes on exactly in that case, and otherwise the loss is
  dropped with the cycle and the next link loss starts an owner of its own. Either way the loss is
  used up: until another link loss, dirty mark or queued callback, however many attempts begin and
  end, and with whatever argument, no end of an attempt asks for another follow-up.
\<close>

theorem drop_flushed_once:
  fixes es later :: "rc_event list" and s :: reconnect_state and k k' :: "bool option"
  assumes "is_reconnecting s" and "list_all (\<lambda>e. \<not> settles e) es" and "list_all keeps_clean later"
  defines "s1 \<equiv> fold (\<lambda>e s. snd (rc_exec e s)) es (snd (rc_exec LinkLost s))"
  defines "s2 \<equiv> snd (rc_exec (EndAttempt k) s1)"
  defines "s3 \<equiv> fold (\<lambda>e s. snd (rc_exec e s)) later s2"
  shows "fst (rc_exec (EndAttempt k) s1) = (if k = Some False then OutNone else OutSchedule)
    \<and> (is_reconnecting s2 \<longleftrightarrow> k \<noteq> Some False)
    \<and> fst (rc_exec LinkLost s2) = (if k = Some False then OutStartOwner else OutNone)
    \<and> fst (rc_exec (EndAttempt k') s3) = OutNone"
proof -
  have "is_reconnecting (snd (rc_exec LinkLost s)) \<and> dirty (snd (rc_exec LinkLost s))"
    using assms(1) by (simp add: step_simps)
  then have s1: "is_reconnecting s1" "dirty s1"
    using dirty_stays_run assms(2) by (simp_all add: s1_def)
  note ended = end_attempt_dirty [OF s1, of k, folded s2_def]
  have "\<not> dirty s3" unfolding s3_def by (rule clean_stays_run [OF ended(3) assms(3)])
  moreover have "fst (rc_exec LinkLost s2) = (if is_reconnecting s2 then OutNone else OutStartOwner)"
    by (simp add: step_simps)
  ultimately show ?thesis using ended(1,2) end_attempt_clean by auto
qed

lemma drop_flushed_once_witness:
  "let s = snd (rc_exec LinkLost reconnect_init);
       s1 = fold (\<lambda>e s. snd (rc_exec e s)) [BeginOpening, ScheduleOwner, RunMicrotask] (snd (rc_exec LinkLost s));
       s3 = fold (\<lambda>e s. snd (rc_exec e s)) [BeginAttempt 2, BeginOpening] (snd (rc_exec (EndAttempt (Some True)) s1))
   in fst (rc_exec (EndAttempt (Some True)) s1) = OutSchedule
    \<and> fst (rc_exec (EndAttempt (Some True)) s3) = OutNone"
  using drop_flushed_once [of "snd (rc_exec LinkLost reconnect_init)" "[BeginOpening, ScheduleOwner, RunMicrotask]"
      "[BeginAttempt 2, BeginOpening]" "Some True" "Some True"]
  by (simp add: step_simps reconnect_init_def settles_def keeps_clean_def)

subsection \<open>The exhaustion latch\<close>

definition latch_is_exhausted :: "bool \<Rightarrow> bool" where "latch_is_exhausted l = l"
definition latch_mark_exhausted :: "bool \<Rightarrow> bool" where "latch_mark_exhausted l = True"
definition latch_clear :: "bool \<Rightarrow> bool" where "latch_clear l = False"

definition should_skip_after_exhaustion :: "bool \<Rightarrow> bool \<Rightarrow> bool" where
  "should_skip_after_exhaustion ble_exhausted reconnecting =
     (if \<not> ble_exhausted then False else if reconnecting then False else True)"

datatype nudge = SkipInProgress | Nudge

definition prepare_noble_yield_nudge :: "bool \<Rightarrow> bool \<Rightarrow> bool \<Rightarrow> nudge \<times> bool" where
  "prepare_noble_yield_nudge latch reconnecting connect_in_progress =
     (if reconnecting \<or> connect_in_progress then (SkipInProgress, latch) else (Nudge, latch_clear latch))"

datatype link_status = StDisconnected | StOther

definition should_ignore_noble_disconnect :: "bool \<Rightarrow> link_status option \<Rightarrow> bool option \<Rightarrow> bool" where
  "should_ignore_noble_disconnect reconnecting status loss =
     (if reconnecting then False else status = Some StDisconnected \<and> loss = Some True)"

end
