(* ===== verification/Path_History.thy ===== *)
theory Path_History
  imports Complex_Main Js_Map Js_String
begin

text \<open>
  The in-memory history of routing paths per contact (\<^verbatim>\<open>src/renderer/stores/pathHistoryStore.ts\<close>):
  recorded paths and outcomes, the weighted score, the choice of the best path, and the eviction of
  the contacts that were touched longest ago. Scores are exact rationals where the code computes
  with doubles. The rows that the database returns are arguments; a row carries the result of
  \<^verbatim>\<open>JSON.parse\<close> on its stored bytes (\<open>None\<close> when it raises). Writing back to the database is a call
  out of the process whose result is only logged, and is not part of the state; the optional database
  id of a record is never read and is left out.
\<close>

definition MAX_CONTACTS :: nat where "MAX_CONTACTS = 50"

record path_record =
  pr_node_id :: int
  pr_path_hash :: string
  pr_hop_count :: int
  pr_path_bytes :: bytes
  pr_was_flood :: bool
  pr_success_count :: int
  pr_failure_count :: int
  pr_trip_time_ms :: rat
  pr_route_weight :: rat
  pr_last_success_ts :: "millis option"
  pr_created_at :: millis
  pr_updated_at :: millis

record path_history_row =
  wr_node_id :: int
  wr_path_hash :: string
  wr_hop_count :: int
  wr_path_bytes :: "bytes option"
  wr_was_flood :: int
  wr_success_count :: int
  wr_failure_count :: int
  wr_trip_time_ms :: rat
  wr_route_weight :: rat
  wr_last_success_ts :: "millis option"
  wr_created_at :: millis
  wr_updated_at :: millis

definition row_to_record :: "path_history_row \<Rightarrow> path_record" where
  "row_to_record row =
     \<lparr>pr_node_id = wr_node_id row, pr_path_hash = wr_path_hash row, pr_hop_count = wr_hop_count row,
      pr_path_bytes = (case wr_path_bytes row of None \<Rightarrow> [] | Some bs \<Rightarrow> bs),
      pr_was_flood = (wr_was_flood row = 1),
      pr_success_count = wr_success_count row, pr_failure_count = wr_failure_count row,
      pr_trip_time_ms = wr_trip_time_ms row, pr_route_weight = wr_route_weight row,
      pr_last_success_ts = wr_last_success_ts row, pr_created_at = wr_created_at row,
      pr_updated_at = wr_updated_at row\<rparr>"

definition compute_path_hash :: "bytes \<Rightarrow> string" where
  "compute_path_hash path_bytes = concat (map hex2 path_bytes)"

subsection \<open>The score\<close>

record path_score =
  ps_reliability :: rat
  ps_latency :: rat
  ps_freshness :: rat
  ps_route_weight :: rat
  ps_total :: rat

definition age_in_days :: "path_record \<Rightarrow> millis \<Rightarrow> rat" where
  "age_in_days r now =
     (case pr_last_success_ts r of
        None \<Rightarrow> 30
      | Some t \<Rightarrow> if t = 0 then 30 else of_int (now - t) / of_int (24 * 60 * 60 * 1000))"

definition compute_score :: "path_record \<Rightarrow> rat \<Rightarrow> rat \<Rightarrow> millis \<Rightarrow> path_score" where
  "compute_score r fastest_ms highest_weight now =
     (let total_attempts = pr_success_count r + pr_failure_count r;
          reliability = of_int (pr_success_count r + 1) / of_int (total_attempts + 2);
          latency = (if pr_trip_time_ms r > 0 \<and> fastest_ms > 0
                     then min 1 (fastest_ms / pr_trip_time_ms r) else 3 / 5);
          freshness = 1 / (1 + age_in_days r now);
          route_weight = (if highest_weight > 0 then min 1 (pr_route_weight r / highest_weight) else 1);
          total = reliability * (45 / 100) + latency * (25 / 100) + freshness * (1 / 10)
            + route_weight * (2 / 10)
      in \<lparr>ps_reliability = reliability, ps_latency = latency, ps_freshness = freshness,
          ps_route_weight = route_weight, ps_total = total\<rparr>)"

subsection \<open>The store\<close>

record path_history =
  records :: "(int, path_record list) jsmap"
  lru_order :: "int list"

definition path_history_init :: path_history where
  "path_history_init = \<lparr>records = [], lru_order = []\<rparr>"

fun evict_lru :: "(int, path_record list) jsmap \<Rightarrow> int list \<Rightarrow> (int, path_record list) jsmap \<times> int list" where
  "evict_lru recs [] = (recs, [])"
| "evict_lru recs (i # lru) =
     (if length (i # lru) > MAX_CONTACTS then evict_lru (jm_delete i recs) lru else (recs, i # lru))"

definition touch_lru :: "int list \<Rightarrow> int \<Rightarrow> int list" where
  "touch_lru lru node = filter (\<lambda>i. i \<noteq> node) lru @ [node]"

definition get_weighted_paths :: "(int, path_record list) jsmap \<Rightarrow> (int \<times> rat \<times> bytes) list" where
  "get_weighted_paths recs = concat (map (\<lambda>(node, path_list).
     case best_scan (\<lambda>r. \<not> pr_route_weight r \<le> 0) pr_route_weight path_list None of
       None \<Rightarrow> []
     | Some best \<Rightarrow> [(node, pr_route_weight best, pr_path_bytes best)]) recs)"

text \<open>\<^verbatim>\<open>findIndex\<close> on the path hash, and the list with one element replaced.\<close>

fun find_hash :: "string \<Rightarrow> path_record list \<Rightarrow> nat option" where
  "find_hash h [] = None"
| "find_hash h (r # rs) = (if pr_path_hash r = h then Some 0 else map_option Suc (find_hash h rs))"

definition record_path_updated ::
    "int \<Rightarrow> bytes \<Rightarrow> int \<Rightarrow> bool \<Rightarrow> rat \<Rightarrow> millis \<Rightarrow> path_history \<Rightarrow> path_history" where
  "record_path_updated node path_bytes hop_count was_flood route_weight now s =
     (let path_hash = compute_path_hash path_bytes;
          existing = (case jm_get (records s) node of None \<Rightarrow> [] | Some rs \<Rightarrow> rs);
          updated = (case find_hash path_hash existing of
              Some idx \<Rightarrow> take idx existing
                @ [(existing ! idx)\<lparr>pr_hop_count := hop_count, pr_was_flood := was_flood,
                     pr_route_weight := route_weight, pr_updated_at := now\<rparr>]
                @ drop (idx + 1) existing
            | None \<Rightarrow> existing
                @ [\<lparr>pr_node_id = node, pr_path_hash = path_hash, pr_hop_count = hop_count,
                    pr_path_bytes = path_bytes, pr_was_flood = was_flood, pr_success_count = 0,
                    pr_failure_count = 0, pr_trip_time_ms = 0, pr_route_weight = route_weight,
                    pr_last_success_ts = None, pr_created_at = now, pr_updated_at = now\<rparr>])
      in case evict_lru (jm_set node updated (records s)) (touch_lru (lru_order s) node) of
           (recs, lru) \<Rightarrow> \<lparr>records = recs, lru_order = lru\<rparr>)"

definition outcome_record :: "bool \<Rightarrow> rat option \<Rightarrow> millis \<Rightarrow> path_record \<Rightarrow> path_record" where
  "outcome_record success trip_time now prev =
     (if success then
        prev\<lparr>pr_success_count := pr_success_count prev + 1,
             pr_trip_time_ms := (case trip_time of
                 Some t \<Rightarrow> if t \<noteq> 0 \<and> t > 0 \<and> (pr_trip_time_ms prev = 0 \<or> t < pr_trip_time_ms prev)
                   then t else pr_trip_time_ms prev
               | None \<Rightarrow> pr_trip_time_ms prev),
             pr_last_success_ts := Some now, pr_updated_at := now\<rparr>
      else prev\<lparr>pr_failure_count := pr_failure_count prev + 1, pr_updated_at := now\<rparr>)"

definition record_outcome ::
    "int \<Rightarrow> string \<Rightarrow> bool \<Rightarrow> rat option \<Rightarrow> millis \<Rightarrow> path_history \<Rightarrow> path_history" where
  "record_outcome node path_hash success trip_time now s =
     (case jm_get (records s) node of
        None \<Rightarrow> s
      | Some existing \<Rightarrow>
          (case find_hash path_hash existing of
             None \<Rightarrow> s
           | Some idx \<Rightarrow>
               (let new_list = take idx existing @ [outcome_record success trip_time now (existing ! idx)]
                      @ drop (idx + 1) existing
                in s\<lparr>records := jm_set node new_list (records s)\<rparr>)))"

record path_selection =
  sel_path_bytes :: bytes
  sel_hop_count :: int
  sel_path_hash :: string
  sel_use_flood :: bool

fun best_loop ::
    "rat \<Rightarrow> rat \<Rightarrow> millis \<Rightarrow> path_record list \<Rightarrow> path_record option \<Rightarrow> rat \<Rightarrow> path_record option" where
  "best_loop fastest highest now [] best best_score = best"
| "best_loop fastest highest now (r # rs) best best_score =
     (let total = ps_total (compute_score r fastest highest now) in
      if total > best_score then best_loop fastest highest now rs (Some r) total
      else best_loop fastest highest now rs best best_score)"

definition fastest_known :: "path_record list \<Rightarrow> rat" where
  "fastest_known recs =
     (let positive = map pr_trip_time_ms (filter (\<lambda>r. pr_trip_time_ms r > 0) recs)
      in if positive = [] then 0 else fold min (tl positive) (hd positive))"

definition highest_known :: "path_record list \<Rightarrow> rat" where
  "highest_known recs = fold max (map pr_route_weight recs) 0"

definition select_best_path :: "int \<Rightarrow> millis \<Rightarrow> path_history \<Rightarrow> path_selection option" where
  "select_best_path node now s =
     (case jm_get (records s) node of
        None \<Rightarrow> None
      | Some recs \<Rightarrow>
          (if length recs = 0 then None
           else map_option (\<lambda>best. \<lparr>sel_path_bytes = pr_path_bytes best, sel_hop_count = pr_hop_count best,
                    sel_path_hash = pr_path_hash best,
                    sel_use_flood = (pr_was_flood best \<and> pr_success_count best = 0)\<rparr>)
                  (best_loop (fastest_known recs) (highest_known recs) now recs None (-1))))"

text \<open>The database answers with its rows, or \<open>None\<close> when the call fails.\<close>

definition load_for_node :: "int \<Rightarrow> path_history_row list option \<Rightarrow> path_history \<Rightarrow> path_history" where
  "load_for_node node db_rows s =
     (case db_rows of
        None \<Rightarrow> s
      | Some rows \<Rightarrow>
          (if length rows = 0 then s
           else case evict_lru (jm_set node (map row_to_record rows) (records s)) (touch_lru (lru_order s) node) of
             (recs, lru) \<Rightarrow> \<lparr>records = recs, lru_order = lru\<rparr>))"

definition ensure_best_path_loaded ::
    "int \<Rightarrow> path_history_row list option \<Rightarrow> millis \<Rightarrow> path_history \<Rightarrow> path_selection option \<times> path_history" where
  "ensure_best_path_loaded node db_rows now s =
     (case select_best_path node now s of
        Some sel \<Rightarrow> (Some sel, s)
      | None \<Rightarrow> (let s1 = load_for_node node db_rows s in (select_best_path node now s1, s1)))"

fun group_rows ::
    "path_history_row list \<Rightarrow> (int, path_record list) jsmap \<Rightarrow> (int, millis) jsmap
      \<Rightarrow> (int, path_record list) jsmap \<times> (int, millis) jsmap" where
  "group_rows [] by_node latest = (by_node, latest)"
| "group_rows (row # rows) by_node latest =
     (let n = wr_node_id row;
          list = (case jm_get by_node n of None \<Rightarrow> [] | Some l \<Rightarrow> l);
          prev = (case jm_get latest n of None \<Rightarrow> 0 | Some t \<Rightarrow> t)
      in group_rows rows (jm_set n (list @ [row_to_record row]) by_node)
           (if wr_updated_at row > prev then jm_set n (wr_updated_at row) latest else latest))"

definition load_all_from_db :: "path_history_row list option \<Rightarrow> path_history \<Rightarrow> path_history" where
  "load_all_from_db db_rows s =
     (case db_rows of
        None \<Rightarrow> s
      | Some rows \<Rightarrow>
          (if length rows = 0 then s
           else case group_rows rows [] [] of
             (by_node, latest) \<Rightarrow>
               (let by_recency = sort_key (\<lambda>i. - (case jm_get latest i of None \<Rightarrow> 0 | Some t \<Rightarrow> t)) (jm_keys by_node);
                    lru = take MAX_CONTACTS by_recency;
                    recs = fold (\<lambda>i m. case jm_get by_node i of None \<Rightarrow> m | Some l \<Rightarrow> jm_set i l m) lru []
                in \<lparr>records = recs, lru_order = lru\<rparr>)))"

definition clear_for_node :: "int \<Rightarrow> path_history \<Rightarrow> path_history" where
  "clear_for_node node s =
     \<lparr>records = jm_delete node (records s), lru_order = filter (\<lambda>i. i \<noteq> node) (lru_order s)\<rparr>"

definition clear_all :: "path_history \<Rightarrow> path_history" where
  "clear_all s = \<lparr>records = [], lru_order = []\<rparr>"

subsection \<open>The best path\<close>

definition path_total :: "path_record list \<Rightarrow> millis \<Rightarrow> path_record \<Rightarrow> rat" where
  "path_total recs now r = ps_total (compute_score r (fastest_known recs) (highest_known recs) now)"

definition selection_of :: "path_record \<Rightarrow> path_selection" where
  "selection_of r = \<lparr>sel_path_bytes = pr_path_bytes r, sel_hop_count = pr_hop_count r,
     sel_path_hash = pr_path_hash r, sel_use_flood = (pr_was_flood r \<and> pr_success_count r = 0)\<rparr>"

text \<open>What the writers of the store keep: counts and weights are not negative, and no success lies ahead.\<close>

definition plausible :: "millis \<Rightarrow> path_record \<Rightarrow> bool" where
  "plausible now r \<longleftrightarrow> 0 \<le> pr_success_count r \<and> 0 \<le> pr_failure_count r \<and> 0 \<le> pr_route_weight r
     \<and> (case pr_last_success_ts r of None \<Rightarrow> True | Some t \<Rightarrow> t \<le> now)"

lemma ratio_unit:
  fixes a b :: int
  assumes "0 \<le> a" "0 \<le> b"
  shows "0 \<le> (of_int (a + 1) / of_int (a + b + 2) :: rat)" "(of_int (a + 1) / of_int (a + b + 2) :: rat) \<le> 1"
proof -
  have p: "0 < (of_int (a + b + 2) :: rat)" and n: "0 \<le> (of_int (a + 1) :: rat)"
    using assms by (simp_all only: of_int_0_less_iff of_int_0_le_iff)
  have "(of_int (a + 1) :: rat) \<le> of_int (a + b + 2)" using assms by (simp only: of_int_le_iff)
  with p n show "0 \<le> (of_int (a + 1) / of_int (a + b + 2) :: rat)"
    "(of_int (a + 1) / of_int (a + b + 2) :: rat) \<le> 1"
    by (simp_all only: divide_nonneg_pos divide_le_eq_1_pos)
qed

lemma freshness_unit: "0 \<le> (x :: rat) \<Longrightarrow> 0 \<le> 1 / (1 + x) \<and> 1 / (1 + x) \<le> 1"
  by (simp add: divide_le_eq_1)

lemma score_parts:
  "ps_reliability (compute_score r f h now)
     = of_int (pr_success_count r + 1) / of_int (pr_success_count r + pr_failure_count r + 2)"
  "ps_latency (compute_score r f h now)
     = (if pr_trip_time_ms r > 0 \<and> f > 0 then min 1 (f / pr_trip_time_ms r) else 3 / 5)"
  "ps_freshness (compute_score r f h now) = 1 / (1 + age_in_days r now)"
  "ps_route_weight (compute_score r f h now) = (if h > 0 then min 1 (pr_route_weight r / h) else 1)"
  by (simp_all only: compute_score_def Let_def path_score.simps)

lemma score_unit:
  assumes "plausible now r"
  shows "0 \<le> ps_reliability (compute_score r f h now)" "ps_reliability (compute_score r f h now) \<le> 1"
    "0 \<le> ps_latency (compute_score r f h now)" "ps_latency (compute_score r f h now) \<le> 1"
    "0 \<le> ps_freshness (compute_score r f h now)" "ps_freshness (compute_score r f h now) \<le> 1"
    "0 \<le> ps_route_weight (compute_score r f h now)" "ps_route_weight (compute_score r f h now) \<le> 1"
proof -
  have age: "0 \<le> age_in_days r now"
    using assms by (auto simp: plausible_def age_in_days_def split: option.splits)
  show "0 \<le> ps_reliability (compute_score r f h now)" "ps_reliability (compute_score r f h now) \<le> 1"
    using ratio_unit [of "pr_success_count r" "pr_failure_count r"] assms
    unfolding score_parts plausible_def by blast+
  show "0 \<le> ps_freshness (compute_score r f h now)" "ps_freshness (compute_score r f h now) \<le> 1"
    unfolding score_parts using freshness_unit [OF age] by blast+
qed (use assms in \<open>simp_all add: score_parts plausible_def\<close>)

lemma total_eq:
  "ps_total (compute_score r f h now) =
     ps_reliability (compute_score r f h now) * (45 / 100) + ps_latency (compute_score r f h now) * (25 / 100)
     + ps_freshness (compute_score r f h now) * (1 / 10) + ps_route_weight (compute_score r f h now) * (2 / 10)"
  by (simp add: compute_score_def Let_def)

lemma total_unit:
  assumes "plausible now r"
  shows "0 \<le> ps_total (compute_score r f h now) \<and> ps_total (compute_score r f h now) \<le> 1"
  using score_unit [OF assms, of f h] unfolding total_eq by linarith

lemma best_loop_scan:
  "best_loop f h now rs (Some b) (ps_total (compute_score b f h now))
     = best_scan (\<lambda>_. True) (\<lambda>r. ps_total (compute_score r f h now)) rs (Some b)"
  by (induction rs arbitrary: b) (auto simp: Let_def)

lemma best_loop_first:
  "-1 < ps_total (compute_score r f h now) \<Longrightarrow>
     best_loop f h now (r # rs) None (-1)
       = best_scan (\<lambda>_. True) (\<lambda>r. ps_total (compute_score r f h now)) (r # rs) None"
  by (simp add: Let_def best_loop_scan)

text \<open>
  C22: the path chosen for a contact is one of its best. For a contact with recorded paths whose
  counts and weights are not negative and whose last successes are not in the future, the store
  always selects a path, it belongs to a record of that contact, no record of the contact has a
  higher total score, and the scores of all records lie between 0 and 1. Flooding is suggested
  exactly for a chosen path that was discovered by flooding and never succeeded.
\<close>

theorem select_best_path_optimal:
  assumes "jm_get (records s) node = Some recs" "recs \<noteq> []" "list_all (plausible now) recs"
  shows "\<exists>best \<in> set recs. select_best_path node now s = Some (selection_of best)
    \<and> list_all (\<lambda>r. path_total recs now r \<le> path_total recs now best) recs
    \<and> list_all (\<lambda>r. 0 \<le> path_total recs now r \<and> path_total recs now r \<le> 1) recs"
proof -
  obtain r rs where recs: "recs = r # rs" using assms(2) by (cases recs) auto
  let ?f = "fastest_known recs" and ?h = "highest_known recs"
  have unit: "\<forall>r \<in> set recs. 0 \<le> path_total recs now r \<and> path_total recs now r \<le> 1"
    using assms(3) total_unit by (auto simp: list_all_iff path_total_def)
  then have "-1 < path_total recs now r" using recs by (auto intro: less_le_trans [of _ 0])
  then have "best_loop ?f ?h now recs None (-1) = best_scan (\<lambda>_. True) (path_total recs now) recs None"
    unfolding recs path_total_def by (rule best_loop_first)
  moreover from assms(2) have "best_scan (\<lambda>_. True) (path_total recs now) recs None \<noteq> None"
    by (simp add: best_scan_None_iff)
  then obtain best where best: "best_scan (\<lambda>_. True) (path_total recs now) recs None = Some best" by blast
  ultimately have "select_best_path node now s = Some (selection_of best)"
    using assms(1,2) by (simp add: select_best_path_def selection_of_def)
  with best_scan_SomeD [OF best] unit show ?thesis by (auto simp: list_all_iff)
qed

definition sample_paths :: path_history where
  "sample_paths = record_outcome 7 ''0c'' True (Some 900) 60
     (record_path_updated 7 [12] 1 False 1 50 (record_path_updated 7 [10, 11] 2 True 1 40 path_history_init))"

lemmas ph_eval = record_path_updated_def record_outcome_def outcome_record_def path_history_init_def compute_path_hash_def
  touch_lru_def jm_get_def jm_set_def MAX_CONTACTS_def Let_def

lemma sample_paths_records:
  "\<exists>a b. jm_get (records sample_paths) 7 = Some [a, b] \<and> plausible 100 a \<and> plausible 100 b"
  by (simp add: sample_paths_def ph_eval plausible_def hex2_def hex_digit_def)

lemma select_best_path_optimal_witness:
  "\<exists>sel. select_best_path 7 100 sample_paths = Some sel"
proof -
  obtain a b where "jm_get (records sample_paths) 7 = Some [a, b]" "plausible 100 a" "plausible 100 b"
    using sample_paths_records by blast
  then show ?thesis using select_best_path_optimal [of sample_paths 7 "[a, b]" 100] by auto
qed

subsection \<open>The bounded set of contacts\<close>

datatype ph_event =
    PathUpdated int bytes int bool rat millis
  | Outcome int string bool "rat option" millis
  | LoadForNode int "path_history_row list option"
  | EnsureBest int "path_history_row list option" millis
  | LoadAll "path_history_row list option"
  | ClearForNode int
  | ClearAll

fun ph_step :: "ph_event \<Rightarrow> path_history \<Rightarrow> path_history" where
  "ph_step (PathUpdated n bs h f w t) s = record_path_updated n bs h f w t s"
| "ph_step (Outcome n h ok trip t) s = record_outcome n h ok trip t s"
| "ph_step (LoadForNode n rows) s = load_for_node n rows s"
| "ph_step (EnsureBest n rows t) s = snd (ensure_best_path_loaded n rows t s)"
| "ph_step (LoadAll rows) s = load_all_from_db rows s"
| "ph_step (ClearForNode n) s = clear_for_node n s"
| "ph_step ClearAll s = clear_all s"

definition ph_inv :: "path_history \<Rightarrow> bool" where
  "ph_inv s \<longleftrightarrow> distinct (lru_order s) \<and> length (lru_order s) \<le> MAX_CONTACTS
     \<and> jm_wf (records s) \<and> set (jm_keys (records s)) = set (lru_order s)"

lemma evict_lru_eq:
  "evict_lru recs lru =
     (fold jm_delete (take (length lru - MAX_CONTACTS) lru) recs, drop (length lru - MAX_CONTACTS) lru)"
proof (induction recs lru rule: evict_lru.induct)
  case (2 recs i lru)
  then show ?case by (cases "length (i # lru) > MAX_CONTACTS") (auto simp: Suc_diff_le)
qed simp

lemma keys_fold_delete: "jm_keys (fold jm_delete ks m) = filter (\<lambda>j. j \<notin> set ks) (jm_keys m)"
proof (induction ks arbitrary: m)
  case (Cons k ks)
  show ?case unfolding fold_simps comp_apply Cons.IH jm.keys_del by (auto intro: filter_cong)
qed simp

lemma get_fold_delete: "k \<notin> set ks \<Longrightarrow> jm_get (fold jm_delete ks m) k = jm_get m k"
  by (induction ks arbitrary: m) (auto simp: jm.get_del)

lemma wf_fold_delete: "jm_wf m \<Longrightarrow> jm_wf (fold jm_delete ks m)"
  by (simp add: jm_wf_def keys_fold_delete)

text \<open>Storing a list for a contact, marking it as the youngest, and evicting.\<close>

lemma evict_touched:
  fixes s :: path_history and node :: int and v :: "path_record list"
  assumes "ph_inv s"
  defines "e \<equiv> evict_lru (jm_set node v (records s)) (touch_lru (lru_order s) node)"
  shows "ph_inv \<lparr>records = fst e, lru_order = snd e\<rparr>" and "jm_get (fst e) node = Some v"
proof -
  let ?lru = "touch_lru (lru_order s) node" and ?m = "jm_set node v (records s)"
  define k where "k = length ?lru - MAX_CONTACTS"
  from assms have inv: "distinct (lru_order s)" "jm_wf (records s)"
    "set (jm_keys (records s)) = set (lru_order s)" by (simp_all add: ph_inv_def)
  have e: "e = (fold jm_delete (take k ?lru) ?m, drop k ?lru)" by (simp add: e_def k_def evict_lru_eq)
  have d: "distinct ?lru" and wf: "jm_wf ?m" and set_eq: "set (jm_keys ?m) = set ?lru"
    using inv by (auto simp: touch_lru_def jm.wf_set jm.keys_set)
  have split: "set ?lru = set (take k ?lru) \<union> set (drop k ?lru)" "set (take k ?lru) \<inter> set (drop k ?lru) = {}"
    using d by (metis append_take_drop_id set_append, metis append_take_drop_id distinct_append)
  show "ph_inv \<lparr>records = fst e, lru_order = snd e\<rparr>"
    using d wf split set_eq by (auto simp: ph_inv_def e keys_fold_delete wf_fold_delete k_def)
  have "k < length ?lru" by (simp add: k_def touch_lru_def MAX_CONTACTS_def)
  moreover have "last ?lru = node" by (simp add: touch_lru_def)
  ultimately have "node \<in> set (drop k ?lru)" by (metis drop_eq_Nil last_drop last_in_set leD)
  with split have "node \<notin> set (take k ?lru)" by blast
  then have "jm_get (fold jm_delete (take k ?lru) ?m) node = jm_get ?m node"
    by (rule get_fold_delete)
  then show "jm_get (fst e) node = Some v" by (simp add: e jm.get_set)
qed

lemma evict_touched_last:
  "last (snd (evict_lru m (touch_lru lru node))) = node"
  by (simp add: evict_lru_eq touch_lru_def MAX_CONTACTS_def last_drop)

lemma ph_step_record_path_updated:
  assumes "ph_inv s"
  shows "ph_inv (record_path_updated n bs h f w t s)"
  using evict_touched(1) [OF assms] by (simp add: record_path_updated_def Let_def case_prod_beta)

lemma ph_step_record_outcome:
  assumes "ph_inv s"
  shows "ph_inv (record_outcome n h ok trip t s)"
  using assms jm.keys_get [of n "records s"]
  by (auto simp: record_outcome_def ph_inv_def jm.wf_set jm.keys_set Let_def split: option.splits)

lemma ph_step_load_for_node:
  assumes "ph_inv s"
  shows "ph_inv (load_for_node n rows s)"
  using assms evict_touched(1) [OF assms] by (simp add: load_for_node_def case_prod_beta split: option.splits)

lemma group_rows_wf: "jm_wf by_node \<Longrightarrow> jm_wf (fst (group_rows rows by_node latest))"
  by (induction rows by_node latest rule: group_rows.induct) (simp_all add: Let_def jm.wf_set)

lemma copy_rows:
  assumes "distinct ks" "set ks \<subseteq> set (jm_keys src)" "set ks \<inter> set (jm_keys m) = {}"
  shows "jm_keys (fold (\<lambda>i m. case jm_get src i of None \<Rightarrow> m | Some l \<Rightarrow> jm_set i l m) ks m) = jm_keys m @ ks"
  using assms
proof (induction ks arbitrary: m)
  case (Cons k ks)
  then obtain l where "jm_get src k = Some l" using jm.keys_get [of k src] by auto
  with Cons show ?case by (auto simp: jm.keys_set)
qed simp

lemma ph_step_load_all:
  assumes "ph_inv s"
  shows "ph_inv (load_all_from_db rows s)"
proof (cases "rows = None \<or> rows = Some []")
  case True
  with assms show ?thesis by (auto simp: load_all_from_db_def)
next
  case False
  then obtain rs where rs: "rows = Some rs" "rs \<noteq> []" by (cases rows) auto
  obtain by_node latest where g: "group_rows rs [] [] = (by_node, latest)" by (cases "group_rows rs [] []")
  let ?lru = "take MAX_CONTACTS (sort_key (\<lambda>i. - (case jm_get latest i of None \<Rightarrow> 0 | Some t \<Rightarrow> t)) (jm_keys by_node))"
  have "jm_wf by_node" using group_rows_wf [of "[]" rs "[]"] g by simp
  then have d: "distinct ?lru" by (simp add: jm_wf_def)
  have sub: "set ?lru \<subseteq> set (jm_keys by_node)" by (metis set_sort set_take_subset)
  have "jm_keys (fold (\<lambda>i m. case jm_get by_node i of None \<Rightarrow> m | Some l \<Rightarrow> jm_set i l m) ?lru []) = ?lru"
    using copy_rows [OF d sub, of "[]"] by simp
  with d rs g show ?thesis by (simp add: load_all_from_db_def ph_inv_def jm_wf_def Let_def)
qed

lemma ph_step_inv: "ph_inv s \<Longrightarrow> ph_inv (ph_step e s)"
proof (cases e)
  case (EnsureBest n rows t)
  moreover assume "ph_inv s"
  ultimately show ?thesis
    by (simp add: ensure_best_path_loaded_def ph_step_load_for_node Let_def split: option.splits)
next
  case (ClearForNode n)
  moreover assume "ph_inv s"
  ultimately show ?thesis
    by (auto simp: clear_for_node_def ph_inv_def jm.wf_del jm.keys_del
        intro: order_trans [OF length_filter_le])
next
  case ClearAll
  then show ?thesis by (simp add: clear_all_def ph_inv_def)
qed (simp_all add: ph_step_record_path_updated ph_step_record_outcome ph_step_load_for_node ph_step_load_all)

interpretation ph: invariant_steps ph_step ph_inv path_history_init
  by unfold_locales (simp_all add: ph_step_inv, simp add: ph_inv_def path_history_init_def)

lemma find_hash_Some_iff: "find_hash h rs \<noteq> None \<longleftrightarrow> h \<in> pr_path_hash ` set rs"
  by (induction rs) auto

lemma find_hash_SomeD: "find_hash h rs = Some i \<Longrightarrow> i < length rs \<and> pr_path_hash (rs ! i) = h"
  by (induction rs arbitrary: i) (auto split: if_splits)

lemma find_hash_replace:
  "find_hash h rs = Some i \<Longrightarrow> pr_path_hash r = h \<Longrightarrow> find_hash h (take i rs @ [r] @ drop (i + 1) rs) = Some i"
  by (induction rs arbitrary: i) (auto split: if_splits)

text \<open>
  C23: the history never holds more than 50 contacts, and never forgets the one it just heard of.
  After any sequence of operations, whatever the database returned, the recency list names exactly
  the stored contacts, each once, and at most 50; recording a path then leaves its contact youngest,
  with a record of that path.
\<close>

theorem path_history_bounded:
  fixes es :: "ph_event list" and node :: int and bs :: bytes and n :: int and f :: bool and w :: rat and t :: millis
  defines "s \<equiv> fold ph_step es path_history_init"
  defines "s' \<equiv> record_path_updated node bs n f w t s"
  shows "length (lru_order s) \<le> 50 \<and> distinct (lru_order s) \<and> jm_wf (records s)
    \<and> set (jm_keys (records s)) = set (lru_order s)
    \<and> last (lru_order s') = node
    \<and> (case jm_get (records s') node of
         None \<Rightarrow> False | Some rs \<Rightarrow> find_hash (compute_path_hash bs) rs \<noteq> None)"
proof -
  have inv: "ph_inv s" unfolding s_def by (rule ph.fold_inv [OF ph.start_inv])
  have "last (lru_order s') = node"
    by (simp add: s'_def record_path_updated_def Let_def case_prod_beta evict_touched_last)
  moreover have "(case jm_get (records s') node of
         None \<Rightarrow> False | Some rs \<Rightarrow> find_hash (compute_path_hash bs) rs \<noteq> None)"
    unfolding s'_def record_path_updated_def Let_def case_prod_beta path_history.simps
      evict_touched(2) [OF inv] option.simps find_hash_Some_iff
    by (auto split: option.splits dest: find_hash_SomeD)
  ultimately show ?thesis using inv by (simp add: ph_inv_def MAX_CONTACTS_def)
qed

subsection \<open>Outcomes\<close>

lemma outcome_record_hash [simp]: "pr_path_hash (outcome_record ok trip t r) = pr_path_hash r"
  by (simp add: outcome_record_def)

lemma record_outcome_at:
  assumes "jm_get (records s) node = Some rs" "find_hash h rs = Some i"
  shows "\<exists>rs'. jm_get (records (record_outcome node h ok trip t s)) node = Some rs'
    \<and> find_hash h rs' = Some i \<and> rs' ! i = outcome_record ok trip t (rs ! i)"
proof (intro exI conjI)
  let ?rs = "take i rs @ [outcome_record ok trip t (rs ! i)] @ drop (i + 1) rs"
  note i = find_hash_SomeD [OF assms(2)]
  show "jm_get (records (record_outcome node h ok trip t s)) node = Some ?rs"
    using assms by (simp add: record_outcome_def jm.get_set)
  show "find_hash h ?rs = Some i" using i by (intro find_hash_replace [OF assms(2)]) simp
  show "?rs ! i = outcome_record ok trip t (rs ! i)" using i by (simp add: nth_append)
qed

type_synonym outcome = "bool \<times> rat option \<times> millis"

text \<open>The positive trip times reported with a success.\<close>

definition known_trips :: "outcome list \<Rightarrow> rat list" where
  "known_trips os = concat (map (\<lambda>(ok, trip, _). case trip of
     None \<Rightarrow> [] | Some x \<Rightarrow> if ok \<and> 0 < x then [x] else []) os)"

definition shorter_trip :: "rat \<Rightarrow> rat \<Rightarrow> rat" where
  "shorter_trip x y = (if y = 0 \<or> x < y then x else y)"

lemma fold_shorter_trip_pos:
  "list_all (\<lambda>x. 0 < x) xs \<Longrightarrow> 0 < y \<Longrightarrow> fold shorter_trip xs y = fold min xs y"
proof (induction xs arbitrary: y)
  case (Cons x xs)
  then have "shorter_trip x y = min x y" "0 < min x y" by (auto simp: shorter_trip_def)
  with Cons show ?case by simp
qed simp

lemma fold_shorter_trip:
  assumes "list_all (\<lambda>x. 0 < x) xs"
  shows "fold shorter_trip xs 0 = (if xs = [] then 0 else Min (set xs))"
proof (cases xs)
  case (Cons x ys)
  then have "fold shorter_trip xs 0 = fold shorter_trip ys x" by (simp add: shorter_trip_def)
  also have "\<dots> = Min (set (x # ys))"
    using assms Cons by (simp only: Min.set_eq_fold) (simp add: fold_shorter_trip_pos)
  finally show ?thesis using Cons by simp
qed simp

lemma known_trips_pos: "list_all (\<lambda>x. 0 < x) (known_trips os)"
  by (induction os) (auto simp: known_trips_def list_all_iff split: option.splits if_splits)

definition apply_outcomes :: "int \<Rightarrow> string \<Rightarrow> outcome list \<Rightarrow> path_history \<Rightarrow> path_history" where
  "apply_outcomes node h os s = fold (\<lambda>(ok, trip, t). record_outcome node h ok trip t) os s"

lemma apply_outcomes_at:
  "jm_get (records s) node = Some rs \<Longrightarrow> find_hash h rs = Some i \<Longrightarrow>
     \<exists>rs'. jm_get (records (apply_outcomes node h os s)) node = Some rs' \<and> find_hash h rs' = Some i
       \<and> pr_success_count (rs' ! i) = pr_success_count (rs ! i) + int (length (filter fst os))
       \<and> pr_failure_count (rs' ! i) = pr_failure_count (rs ! i) + int (length (filter (\<lambda>p. \<not> fst p) os))
       \<and> pr_trip_time_ms (rs' ! i) = fold shorter_trip (known_trips os) (pr_trip_time_ms (rs ! i))"
proof (induction os arbitrary: s rs)
  case (Cons p os)
  obtain ok trip t where p: "p = (ok, trip, t)" by (cases p)
  obtain rs1 where 1: "jm_get (records (record_outcome node h ok trip t s)) node = Some rs1"
    "find_hash h rs1 = Some i" "rs1 ! i = outcome_record ok trip t (rs ! i)"
    using record_outcome_at [OF Cons.prems] by blast
  from Cons.IH [OF 1(1,2)] show ?case unfolding 1(3)
    by (auto simp: p apply_outcomes_def known_trips_def outcome_record_def shorter_trip_def split: option.splits)
qed (simp add: apply_outcomes_def known_trips_def)

text \<open>
  The outcomes of a path are counted exactly. After any sequence of delivery outcomes for a
  recorded path without a known trip time, its success and failure counts have grown by the number
  of successes and failures in the sequence, and its trip time is the smallest positive trip time
  reported with a success, or still unknown if there was none.
\<close>

theorem outcomes_counted:
  assumes "jm_get (records s) node = Some rs" "find_hash h rs = Some i" "pr_trip_time_ms (rs ! i) = 0"
  shows "\<exists>rs'. jm_get (records (apply_outcomes node h os s)) node = Some rs' \<and> find_hash h rs' = Some i
       \<and> pr_success_count (rs' ! i) = pr_success_count (rs ! i) + int (length (filter fst os))
       \<and> pr_failure_count (rs' ! i) = pr_failure_count (rs ! i) + int (length (filter (\<lambda>p. \<not> fst p) os))
       \<and> pr_trip_time_ms (rs' ! i) = (if known_trips os = [] then 0 else Min (set (known_trips os)))"
  using apply_outcomes_at [OF assms(1,2), of os]
  unfolding assms(3) fold_shorter_trip [OF known_trips_pos] .

lemma outcomes_counted_witness:
  "\<exists>rs'. jm_get (records (apply_outcomes 7 (compute_path_hash [12]) [(True, Some 900, 60), (False, None, 61), (True, Some 400, 62)]
      (record_path_updated 7 [12] 1 False 1 50 path_history_init))) 7 = Some rs'
     \<and> pr_success_count (rs' ! 0) = 2 \<and> pr_failure_count (rs' ! 0) = 1 \<and> pr_trip_time_ms (rs' ! 0) = 400"
proof -
  let ?s = "record_path_updated 7 [12] 1 False 1 50 path_history_init"
  obtain r where r: "jm_get (records ?s) 7 = Some [r]" "find_hash (compute_path_hash [12]) [r] = Some 0"
    "pr_trip_time_ms ([r] ! 0) = 0" "pr_success_count r = 0" "pr_failure_count r = 0"
    by (simp add: ph_eval)
  from outcomes_counted [OF r(1-3), of "[(True, Some 900, 60), (False, None, 61), (True, Some 400, 62)]"]
  show ?thesis by (auto simp: r known_trips_def)
qed

end
