(* ===== verification/Rate_Window.thy ===== *)
theory Rate_Window
  imports Mesh_Prelude
begin

text \<open>
  What the rolling-window limiters of the program share. A limiter is a step function that answers
  whether it accepts an event; the locale asks that it accepts only when it remembers fewer than
  \<open>n\<close> accepted times of the window, and that it does not forget an accepted time that is still in the
  window. Then no window of that length contains more than \<open>n\<close> accepted events.
\<close>

fun accepted_times :: "('e \<Rightarrow> 's \<Rightarrow> bool \<times> 's) \<Rightarrow> ('e \<Rightarrow> int) \<Rightarrow> 'e list \<Rightarrow> 's \<Rightarrow> int list" where
  "accepted_times step tm [] s = []"
| "accepted_times step tm (e # es) s =
     (if fst (step e s) then [tm e] else []) @ accepted_times step tm es (snd (step e s))"

definition run_events :: "('e \<Rightarrow> 's \<Rightarrow> bool \<times> 's) \<Rightarrow> 'e list \<Rightarrow> 's \<Rightarrow> 's" where
  "run_events step es s = fold (\<lambda>e s. snd (step e s)) es s"

lemma run_events_simps [simp]:
  "run_events step [] s = s" "run_events step (e # es) s = run_events step es (snd (step e s))"
  by (simp_all add: run_events_def)

lemma run_events_snoc [simp]: "run_events step (es @ [e]) s = snd (step e (run_events step es s))"
  by (simp add: run_events_def)

lemma accepted_times_snoc [simp]:
  "accepted_times step tm (es @ [e]) s =
     accepted_times step tm es s @ (if fst (step e (run_events step es s)) then [tm e] else [])"
  by (induction es arbitrary: s) simp_all

lemma filter_ge_filter_ge: "low \<le> (lo :: int) \<Longrightarrow> filter (\<lambda>x. lo \<le> x) (filter (\<lambda>x. low \<le> x) ts) = filter (\<lambda>x. lo \<le> x) ts"
  by (auto intro: filter_cong)

lemma accepted_times_sub: "set (accepted_times step tm es s) \<subseteq> tm ` set es"
  by (induction es arbitrary: s) auto

lemma accepted_times_sorted: "sorted (map tm es) \<Longrightarrow> sorted (accepted_times step tm es s)"
  using accepted_times_sub by (induction es arbitrary: s) (fastforce simp: sorted_append)+

definition within :: "int \<Rightarrow> int \<Rightarrow> int list \<Rightarrow> int list" where
  "within lo hi ts = filter (\<lambda>x. lo \<le> x \<and> x \<le> hi) ts"

text \<open>Every accepted time closes a window that holds at most \<open>n\<close> accepted times.\<close>

definition windows_ok :: "int \<Rightarrow> nat \<Rightarrow> int list \<Rightarrow> bool" where
  "windows_ok w n ts \<longleftrightarrow>
     (\<forall>us t vs. ts = us @ t # vs \<longrightarrow> length (filter (\<lambda>x. t - w \<le> x) (us @ [t])) \<le> n)"

lemma windows_ok_Nil [simp]: "windows_ok w n []"
  by (simp add: windows_ok_def)

lemma windows_ok_snoc:
  "windows_ok w n ts \<Longrightarrow> 0 \<le> w \<Longrightarrow> length (filter (\<lambda>x. t - w \<le> x) ts) < n \<Longrightarrow> windows_ok w n (ts @ [t])"
  unfolding windows_ok_def by (auto simp: append_eq_append_conv2 append_eq_Cons_conv Cons_eq_append_conv)

lemma windows_ok_window:
  assumes ok: "windows_ok w n ts" and "sorted ts"
  shows "length (within c (c + w) ts) \<le> n"
proof (cases "within c (c + w) ts")
  case Nil
  then show ?thesis by simp
next
  case (Cons y ys)
  let ?early = "takeWhile (\<lambda>x. x \<le> c + w) ts" and ?late = "dropWhile (\<lambda>x. x \<le> c + w) ts"
  have late: "within c (c + w) ?late = []"
  proof (cases ?late)
    case (Cons z zs)
    then have "c + w < z" by (metis dropWhile_eq_Cons_conv not_le)
    moreover have "sorted ?late" using assms(2) by (rule sorted_dropWhile)
    ultimately show ?thesis using Cons by (auto simp: within_def filter_empty_conv)
  next
    case Nil
    then show ?thesis by (simp only: within_def filter.simps)
  qed
  have eq: "within c (c + w) ts = within c (c + w) ?early"
    using late by (metis append_Nil2 filter_append takeWhile_dropWhile_id within_def)
  with Cons have "?early \<noteq> []" by (auto simp: within_def)
  then obtain us t where early: "?early = us @ [t]" by (metis rev_exhaust)
  then have "t \<le> c + w" by (metis in_set_conv_decomp set_takeWhileD)
  have "length (within c (c + w) ?early) \<le> length (filter (\<lambda>x. t - w \<le> x) (us @ [t]))"
    unfolding early within_def using \<open>t \<le> c + w\<close> by (intro length_filter_mono) auto
  also have "\<dots> \<le> n"
    using ok early takeWhile_dropWhile_id [of "\<lambda>x. x \<le> c + w" ts] unfolding windows_ok_def
    by (metis append.assoc append_Cons append_Nil)
  finally show ?thesis using eq by simp
qed

locale windowed_limiter =
  fixes step :: "'e \<Rightarrow> 's \<Rightarrow> bool \<times> 's"
    and tm :: "'e \<Rightarrow> int"
    and adm :: "'e \<Rightarrow> bool"
    and inv :: "'s \<Rightarrow> bool"
    and recent :: "'s \<Rightarrow> int list"
    and w :: int
    and n :: nat
  assumes step_inv: "inv s \<Longrightarrow> adm e \<Longrightarrow> inv (snd (step e s))"
    and accept_below: "inv s \<Longrightarrow> adm e \<Longrightarrow> fst (step e s) \<Longrightarrow> length (filter (\<lambda>x. tm e - w \<le> x) (recent s)) < n"
    and recent_kept: "inv s \<Longrightarrow> adm e \<Longrightarrow>
      subseq (filter (\<lambda>x. tm e - w \<le> x) (recent s) @ (if fst (step e s) then [tm e] else []))
        (recent (snd (step e s)))"
    and window_nonneg: "inv s \<Longrightarrow> 0 \<le> w"
begin

lemma windows_ok_from:
  assumes "inv s" "list_all adm es" "sorted (map tm es)"
    "windows_ok w n got" "subseq (filter (\<lambda>x. low \<le> x) got) (recent s)"
    "list_all (\<lambda>e. low \<le> tm e - w) es"
  shows "windows_ok w n (got @ accepted_times step tm es s)"
  using assms
proof (induction es arbitrary: s got low)
  case (Cons e es)
  let ?s' = "snd (step e s)" and ?new = "if fst (step e s) then [tm e] else []"
  from Cons.prems have inv: "inv s" and adm: "adm e" and low: "low \<le> tm e - w" by simp_all
  have two: "filter (\<lambda>x. tm e - w \<le> x) got = filter (\<lambda>x. tm e - w \<le> x) (filter (\<lambda>x. low \<le> x) got)"
    using low by (simp only: filter_ge_filter_ge)
  then have sub: "subseq (filter (\<lambda>x. tm e - w \<le> x) got) (filter (\<lambda>x. tm e - w \<le> x) (recent s))"
    using Cons.prems(5) by (simp only: subseq_filter)
  have ok: "windows_ok w n (got @ ?new)"
  proof (cases "fst (step e s)")
    case True
    then have "length (filter (\<lambda>x. tm e - w \<le> x) got) < n"
      using list_emb_length [OF sub] accept_below [OF inv adm True] by linarith
    then show ?thesis using Cons.prems(4) window_nonneg [OF inv] True by (simp add: windows_ok_snoc)
  qed (simp add: Cons.prems(4))
  have "subseq (filter (\<lambda>x. tm e - w \<le> x) (got @ ?new)) (recent ?s')"
    using subseq_order.trans [OF list_emb_append_mono [OF sub subseq_order.refl [of ?new]] recent_kept [OF inv adm]]
      window_nonneg [OF inv] by simp
  from Cons.IH [OF step_inv [OF inv adm] _ _ ok this] Cons.prems show ?case by (simp add: list_all_iff)
qed simp

lemma window_bound:
  assumes "inv s" "list_all adm es" "sorted (map tm es)"
  shows "length (within c (c + w) (accepted_times step tm es s)) \<le> n"
proof (cases es)
  case (Cons e es')
  have "list_all (\<lambda>x. tm e - w \<le> tm x - w) es" using assms(3) Cons by (auto simp: list_all_iff)
  from windows_ok_from [OF assms, of "[]", OF _ _ this]
  have "windows_ok w n (accepted_times step tm es s)" by simp
  then show ?thesis by (rule windows_ok_window [OF _ accepted_times_sorted [OF assms(3)]])
qed (simp add: within_def)

end

end
