(* ===== verification/Throttles.thy ===== *)
theory Throttles
  imports Rate_Window Js_Map
begin

text \<open>
  Three guards against bursts: the rolling-window limiter of IPC calls
  (\<^verbatim>\<open>src/main/ipcRateLimit.ts\<close>), the registry of packets already handled
  (\<^verbatim>\<open>src/renderer/lib/drivers/packetDedupeRegistry.ts\<close>) and the throttle of emergency alert tones
  (\<^verbatim>\<open>src/renderer/lib/mecp/mecpAlertThrottle.ts\<close>). The clock is an argument of every operation.
\<close>

subsection \<open>IPC rate limit\<close>

text \<open>The state is \<^verbatim>\<open>timestamps\<close>; the first component tells whether the call passes or throws.\<close>

definition check_or_throw :: "nat \<Rightarrow> int \<Rightarrow> millis \<Rightarrow> millis list \<Rightarrow> bool \<times> millis list" where
  "check_or_throw max_calls window_ms now timestamps =
     (let cutoff = now - window_ms;
          kept = dropWhile (\<lambda>oldest. oldest < cutoff) timestamps
      in if length kept \<ge> max_calls then (False, kept) else (True, kept @ [now]))"

text \<open>
  With a clock that does not go back, the timestamps are sorted, and dropping from the front keeps
  exactly the calls of the window.
\<close>

definition ipc_inv :: "int \<Rightarrow> millis \<times> millis list \<Rightarrow> bool" where
  "ipc_inv window_ms s \<longleftrightarrow> 0 \<le> window_ms \<and> sorted (snd s) \<and> list_all (\<lambda>t. t \<le> fst s) (snd s)"

text \<open>The limiter with the time of the last call; a call at an earlier time is outside the model.\<close>

definition ipc_step :: "nat \<Rightarrow> int \<Rightarrow> millis \<Rightarrow> millis \<times> millis list \<Rightarrow> bool \<times> (millis \<times> millis list)" where
  "ipc_step n w now s = (if now < fst s then (False, s)
     else case check_or_throw n w now (snd s) of (ok, ts) \<Rightarrow> (ok, (now, ts)))"

lemma check_or_throw_sorted:
  "sorted ts \<Longrightarrow> check_or_throw n w now ts =
     (let kept = filter (\<lambda>t. now - w \<le> t) ts in
      (length kept < n, if length kept < n then kept @ [now] else kept))"
  by (simp add: check_or_throw_def dropWhile_filter_sorted Let_def not_le)

lemma ipc_step_inv:
  "ipc_inv w s \<Longrightarrow> ipc_inv w (snd (ipc_step n w now s))"
  by (auto simp: ipc_inv_def ipc_step_def check_or_throw_sorted Let_def list_all_iff sorted_append
      intro: sorted_wrt_filter order_trans split: prod.splits)

interpretation ipc: windowed_limiter "ipc_step n w" "\<lambda>t. t" "\<lambda>_. True" "ipc_inv w" snd w n for n w
proof
  fix s e
  assume inv: "ipc_inv w s"
  show "ipc_inv w (snd (ipc_step n w e s))" by (rule ipc_step_inv [OF inv])
  from inv have srt: "sorted (snd s)" by (simp add: ipc_inv_def)
  show "fst (ipc_step n w e s) \<Longrightarrow> length (filter (\<lambda>x. e - w \<le> x) (snd s)) < n"
    by (simp add: ipc_step_def check_or_throw_sorted [OF srt] Let_def split: if_splits)
  show "subseq (filter (\<lambda>x. e - w \<le> x) (snd s) @ (if fst (ipc_step n w e s) then [e] else []))
      (snd (snd (ipc_step n w e s)))"
    by (simp add: ipc_step_def check_or_throw_sorted [OF srt] Let_def)
  show "0 \<le> w" using inv by (simp add: ipc_inv_def)
qed

text \<open>On a clock that does not go back, the limiter with the last time is the limiter of the code.\<close>

lemma ipc_step_code:
  "sorted (t0 # ts) \<Longrightarrow>
     accepted_times (ipc_step n w) (\<lambda>t. t) ts (t0, st) = accepted_times (check_or_throw n w) (\<lambda>t. t) ts st
     \<and> snd (run_events (ipc_step n w) ts (t0, st)) = run_events (check_or_throw n w) ts st"
proof (induction ts arbitrary: t0 st)
  case (Cons t ts)
  have "ipc_step n w t (t0, st) = (fst (check_or_throw n w t st), (t, snd (check_or_throw n w t st)))"
    using Cons.prems by (simp add: ipc_step_def case_prod_beta)
  with Cons show ?case by simp
qed simp

text \<open>What the limiter holds are the accepted calls of the last window.\<close>

lemma ipc_holds_accepted:
  assumes "sorted ts" "0 \<le> w"
  shows "run_events (check_or_throw n w) ts [] =
    (if ts = [] then [] else filter (\<lambda>x. last ts - w \<le> x) (accepted_times (check_or_throw n w) (\<lambda>t. t) ts []))"
  using assms
proof (induction ts rule: rev_induct)
  case (snoc t ts)
  let ?acc = "accepted_times (check_or_throw n w) (\<lambda>t. t) ts []" and ?st = "run_events (check_or_throw n w) ts []"
  have srt: "sorted ts" using snoc.prems by (simp add: sorted_append)
  have st: "?st = (if ts = [] then [] else filter (\<lambda>x. last ts - w \<le> x) ?acc)" by (rule snoc.IH [OF srt snoc.prems(2)])
  have "sorted ?acc" using srt by (intro accepted_times_sorted) simp
  then have "sorted ?st" unfolding st by (simp add: sorted_wrt_filter)
  moreover have "ts \<noteq> [] \<Longrightarrow> last ts \<le> t" using snoc.prems by (simp add: sorted_append)
  then have "filter (\<lambda>x. t - w \<le> x) ?st = filter (\<lambda>x. t - w \<le> x) ?acc"
    unfolding st by (auto simp: filter_ge_filter_ge simp del: filter_filter)
  ultimately show ?case using snoc.prems(2) by (auto simp: check_or_throw_sorted Let_def)
qed simp

text \<open>
  C25: the IPC limiter passes a call exactly when it may. With a clock that does not go back, a call
  passes if and only if fewer than the allowed number of calls passed in the window that ends with
  it, so no window of that length, wherever it starts, ever contains more passed calls than allowed.
\<close>

theorem ipc_limiter_exact:
  fixes n :: nat and w start now :: int and ts :: "int list"
  assumes "sorted (ts @ [now])" and "0 \<le> w"
  defines "passed \<equiv> accepted_times (check_or_throw n w) (\<lambda>t. t) ts []"
  shows "(fst (check_or_throw n w now (run_events (check_or_throw n w) ts []))
      \<longleftrightarrow> length (within (now - w) now passed) < n)
    \<and> length (within start (start + w) passed) \<le> n"
proof -
  let ?st = "run_events (check_or_throw n w) ts []"
  have srt: "sorted ts" and le: "\<forall>t \<in> set ts. t \<le> now" using assms(1) by (simp_all add: sorted_append)
  have st: "?st = (if ts = [] then [] else filter (\<lambda>x. last ts - w \<le> x) passed)"
    unfolding passed_def by (rule ipc_holds_accepted [OF srt assms(2)])
  have sub: "\<forall>t \<in> set passed. t \<le> now" using accepted_times_sub [of "check_or_throw n w" "\<lambda>t. t" ts "[]"] le
    by (auto simp: passed_def)
  have "sorted passed" using srt accepted_times_sorted [of "\<lambda>t. t" ts] by (simp add: passed_def)
  then have "sorted ?st" unfolding st by (simp add: sorted_wrt_filter)
  moreover have "filter (\<lambda>x. now - w \<le> x) ?st = within (now - w) now passed"
  proof (cases "ts = []")
    case False
    then have "last ts - w \<le> now - w" using le by simp
    moreover have "filter (\<lambda>x. now - w \<le> x) passed = within (now - w) now passed"
      unfolding within_def using sub by (intro filter_cong) auto
    ultimately show ?thesis using False by (simp add: st filter_ge_filter_ge del: filter_filter)
  qed (simp add: passed_def within_def)
  ultimately have "fst (check_or_throw n w now ?st) \<longleftrightarrow> length (within (now - w) now passed) < n"
    by (simp add: check_or_throw_sorted Let_def)
  moreover have "length (within start (start + w) passed) \<le> n"
  proof (cases ts)
    case (Cons t ts')
    have "passed = accepted_times (ipc_step n w) (\<lambda>t. t) ts (t, [])"
      using ipc_step_code [of t ts n w "[]"] srt Cons by (simp add: passed_def)
    then show ?thesis
      using ipc.window_bound [of w "(t, [])" ts start n] srt assms(2) by (simp add: ipc_inv_def list_all_iff)
  qed (simp add: passed_def within_def)
  ultimately show ?thesis by blast
qed

lemma ipc_limiter_exact_witness:
  "\<not> fst (check_or_throw 2 1000 900 (run_events (check_or_throw 2 1000) [0, 500] []))
   \<and> fst (check_or_throw 2 1000 1400 (run_events (check_or_throw 2 1000) [0, 500] []))"
  using ipc_limiter_exact [of "[0, 500]" 900 1000 2 0] ipc_limiter_exact [of "[0, 500]" 1400 1000 2 0]
  by (simp add: check_or_throw_def within_def)

subsection \<open>Packets already handled\<close>

type_synonym seen_map = "(string, millis) jsmap"

definition ttl_of :: "int \<Rightarrow> int" where "ttl_of ttl_ms = max 0 ttl_ms"
definition cap_of :: "int \<Rightarrow> nat" where "cap_of max_entries = nat (max 1 max_entries)"

text \<open>Expired keys go first, then the oldest until the cap is met.\<close>

definition prune_seen :: "int \<Rightarrow> int \<Rightarrow> millis \<Rightarrow> seen_map \<Rightarrow> seen_map" where
  "prune_seen ttl_ms max_entries now m =
     jm_evict (cap_of max_entries) (filter (\<lambda>(_, recorded_at). \<not> now - recorded_at \<ge> ttl_of ttl_ms) m)"

definition is_fresh :: "int \<Rightarrow> string \<Rightarrow> millis \<Rightarrow> seen_map \<Rightarrow> bool" where
  "is_fresh ttl_ms key now m =
     (case jm_get m key of None \<Rightarrow> False | Some recorded_at \<Rightarrow> now - recorded_at < ttl_of ttl_ms)"

definition mark_seen :: "int \<Rightarrow> int \<Rightarrow> string \<Rightarrow> millis \<Rightarrow> seen_map \<Rightarrow> bool \<times> seen_map" where
  "mark_seen ttl_ms max_entries key now m =
     (is_fresh ttl_ms key now m, prune_seen ttl_ms max_entries now (jm_set key now (jm_delete key m)))"

definition has_seen :: "int \<Rightarrow> string \<Rightarrow> millis \<Rightarrow> seen_map \<Rightarrow> bool" where
  "has_seen ttl_ms key now m = is_fresh ttl_ms key now m"

definition clear_seen :: "seen_map \<Rightarrow> seen_map" where
  "clear_seen m = []"

definition size_seen :: "int \<Rightarrow> int \<Rightarrow> millis \<Rightarrow> seen_map \<Rightarrow> nat \<times> seen_map" where
  "size_seen ttl_ms max_entries now m =
     (let m' = prune_seen ttl_ms max_entries now m in (length m', m'))"

definition mark_all :: "int \<Rightarrow> int \<Rightarrow> (string \<times> millis) list \<Rightarrow> seen_map \<Rightarrow> seen_map" where
  "mark_all ttl_ms max_entries es m = fold (\<lambda>(k, t) m. snd (mark_seen ttl_ms max_entries k t m)) es m"

lemma cap_pos: "0 < cap_of max_entries"
  by (simp add: cap_of_def)

lemma update_fresh: "\<forall>p \<in> set n. fst p \<noteq> k \<Longrightarrow> AList.update k v n = n @ [(k, v)]"
  by (induction n) auto

lemma jm_refresh: "jm_wf m \<Longrightarrow> jm_set k v (jm_delete k m) = filter (\<lambda>p. fst p \<noteq> k) m @ [(k, v)]"
proof -
  have "jm_delete k m = filter (\<lambda>p. fst p \<noteq> k) m"
    by (induction m) (auto simp: jm_delete_def)
  then show ?thesis by (simp add: jm_set_def update_fresh)
qed

lemma prune_seen_wf: "jm_wf m \<Longrightarrow> jm_wf (prune_seen ttl mx now m)"
  by (simp add: prune_seen_def jm_evict_wf jm_wf_filter)

lemma mark_seen_wf: "jm_wf m \<Longrightarrow> jm_wf (snd (mark_seen ttl mx k now m))"
  by (simp add: mark_seen_def prune_seen_wf jm.wf_refresh)

lemma mark_seen_size: "length (snd (mark_seen ttl mx k now m)) \<le> cap_of mx"
  by (simp add: mark_seen_def prune_seen_def jm_evict_length)

lemma mark_all_wf_size:
  "jm_wf m \<Longrightarrow> length m \<le> cap_of mx \<Longrightarrow>
     jm_wf (mark_all ttl mx es m) \<and> length (mark_all ttl mx es m) \<le> cap_of mx"
  by (induction es arbitrary: m) (auto simp: mark_all_def mark_seen_wf mark_seen_size)

text \<open>
  The entry of a key stays while everything behind it fits into the cap: the entries behind it have
  keys marked since, and none of them is the key itself.
\<close>

definition holds_since :: "string \<Rightarrow> millis \<Rightarrow> string set \<Rightarrow> seen_map \<Rightarrow> bool" where
  "holds_since k t0 others m \<longleftrightarrow> jm_wf m \<and>
     (\<exists>us t vs. m = us @ (k, t) # vs \<and> t0 \<le> t \<and> fst ` set vs \<subseteq> others - {k})"

lemma holds_since_get: "holds_since k t0 others m \<Longrightarrow> \<exists>t. jm_get m k = Some t \<and> t0 \<le> t"
  unfolding holds_since_def using jm_get_SomeI by fastforce

lemma holds_since_prune:
  assumes "holds_since k t0 others m" "now - t0 < ttl_of ttl" "finite others" "card (others - {k}) < cap_of mx"
  shows "holds_since k t0 others (prune_seen ttl mx now m)"
proof -
  let ?P = "\<lambda>(_, r). \<not> now - r \<ge> ttl_of ttl"
  obtain us t vs where m: "m = us @ (k, t) # vs" "t0 \<le> t" "fst ` set vs \<subseteq> others - {k}" and wf: "jm_wf m"
    using assms(1) unfolding holds_since_def by blast
  let ?vs = "filter ?P vs"
  have f: "filter ?P m = filter ?P us @ (k, t) # ?vs" using m assms(2) by simp
  have "distinct (map fst ?vs)" using wf m(1) by (simp add: jm_wf_def jm_keys_def distinct_map_filter)
  then have "length ?vs = card (fst ` set ?vs)" by (metis distinct_card length_map list.set_map)
  also have "\<dots> \<le> card (others - {k})" using m(3) assms(3) by (intro card_mono) auto
  finally have "length (filter ?P m) - cap_of mx \<le> length (filter ?P us)"
    unfolding f using assms(4) by simp
  then have "prune_seen ttl mx now m = drop (length (filter ?P m) - cap_of mx) (filter ?P us) @ (k, t) # ?vs"
    by (simp add: prune_seen_def jm_evict_def f)
  moreover have "fst ` set ?vs \<subseteq> others - {k}" using m(3) by auto
  ultimately show ?thesis using m(2) prune_seen_wf [OF wf] unfolding holds_since_def by blast
qed

lemma holds_since_refresh:
  assumes "holds_since k t0 others m" "j \<in> others" "t0 \<le> now"
  shows "holds_since k t0 others (jm_set j now (jm_delete j m))"
proof -
  obtain us t vs where m: "m = us @ (k, t) # vs" "t0 \<le> t" "fst ` set vs \<subseteq> others - {k}" and wf: "jm_wf m"
    using assms(1) unfolding holds_since_def by blast
  have eq: "jm_set j now (jm_delete j m) = filter (\<lambda>p. fst p \<noteq> j) m @ [(j, now)]" by (rule jm_refresh [OF wf])
  show ?thesis
  proof (cases "j = k")
    case True
    then show ?thesis using jm.wf_refresh [OF wf, of j now] assms(3)
      unfolding holds_since_def eq by (intro conjI exI [of _ "filter (\<lambda>p. fst p \<noteq> j) m"] exI [of _ now] exI [of _ "[]"]) auto
  next
    case False
    then have "jm_set j now (jm_delete j m)
        = filter (\<lambda>p. fst p \<noteq> j) us @ (k, t) # (filter (\<lambda>p. fst p \<noteq> j) vs @ [(j, now)])"
      using eq m(1) by simp
    moreover have "fst ` set (filter (\<lambda>p. fst p \<noteq> j) vs @ [(j, now)]) \<subseteq> others - {k}"
      using m(3) assms(2) False by auto
    ultimately show ?thesis using jm.wf_refresh [OF wf, of j now] m(2) unfolding holds_since_def by blast
  qed
qed

lemma holds_since_mark_all:
  assumes "holds_since k t0 others m" "finite others" "card (others - {k}) < cap_of mx"
    "fst ` set es \<subseteq> others" "list_all (\<lambda>(_, t). t0 \<le> t \<and> t - t0 < ttl_of ttl) es"
  shows "holds_since k t0 others (mark_all ttl mx es m)"
  using assms
proof (induction es arbitrary: m)
  case (Cons e es)
  obtain j t where e: "e = (j, t)" by (cases e)
  have "holds_since k t0 others (snd (mark_seen ttl mx j t m))"
    unfolding mark_seen_def snd_conv using Cons.prems e
    by (intro holds_since_prune holds_since_refresh) auto
  from Cons.IH [OF this] Cons.prems e show ?case by (simp add: mark_all_def)
qed (simp add: mark_all_def)

text \<open>
  C26: within the time to live, a marked packet is recognised unless the cap was reached. After a
  packet key is marked, and then any other keys, each at a time within the time to live, marking
  the key again reports it as seen whenever fewer distinct other keys were marked in between than
  the cap allows; and the registry never holds more entries than the cap.
\<close>

theorem dedupe_no_late_duplicate:
  fixes m :: seen_map and es :: "(string \<times> millis) list" and ttl mx :: int and key :: string and t0 :: millis
  assumes "jm_wf m" "length m \<le> cap_of mx"
    and "list_all (\<lambda>(_, t). t0 \<le> t \<and> t - t0 < ttl_of ttl) (es @ [(key, now)])"
    and "length (remdups (filter (\<lambda>j. j \<noteq> key) (map fst es))) < cap_of mx"
  defines "m' \<equiv> mark_all ttl mx es (snd (mark_seen ttl mx key t0 m))"
  shows "fst (mark_seen ttl mx key now m') \<and> length m' \<le> cap_of mx"
proof
  let ?m0 = "jm_set key t0 (jm_delete key m)" and ?others = "set (map fst es)"
  have c: "card (?others - {key}) < cap_of mx"
    using assms(4) by (simp add: length_remdups_card_conv set_diff_eq)
  have ttl: "0 < ttl_of ttl" "t0 \<le> now" "now - t0 < ttl_of ttl" using assms(3) by auto
  have "holds_since key t0 ?others ?m0"
    unfolding holds_since_def jm_refresh [OF assms(1)] using jm.wf_refresh [OF assms(1), of key t0]
    by (intro conjI exI [of _ "filter (\<lambda>p. fst p \<noteq> key) m"] exI [of _ t0] exI [of _ "[]"])
       (simp_all add: jm_refresh [OF assms(1)])
  then have "holds_since key t0 ?others (snd (mark_seen ttl mx key t0 m))"
    unfolding mark_seen_def snd_conv using c ttl(1) by (intro holds_since_prune) auto
  then have "holds_since key t0 ?others m'"
    unfolding m'_def using c assms(3) by (intro holds_since_mark_all) (auto simp: list_all_iff)
  from holds_since_get [OF this] obtain t where "jm_get m' key = Some t" "t0 \<le> t" by blast
  then show "fst (mark_seen ttl mx key now m')" using ttl(3) by (simp add: mark_seen_def is_fresh_def)
  show "length m' \<le> cap_of mx"
    unfolding m'_def using mark_all_wf_size [OF mark_seen_wf [OF assms(1)] mark_seen_size] by blast
qed

lemma dedupe_no_late_duplicate_witness:
  "fst (mark_seen 1000 2 ''a'' 900 (mark_all 1000 2 [(''b'', 100), (''b'', 200)] (snd (mark_seen 1000 2 ''a'' 0 []))))"
  using dedupe_no_late_duplicate [of "[]" 2 0 1000 "[(''b'', 100), (''b'', 200)]" "''a''" 900]
  by (simp add: cap_of_def ttl_of_def)

subsection \<open>Alert tones\<close>

definition MECP_ALERT_THROTTLE_MAX :: nat where "MECP_ALERT_THROTTLE_MAX = 3"
definition MECP_ALERT_THROTTLE_WINDOW_MS :: int where "MECP_ALERT_THROTTLE_WINDOW_MS = 600000"
definition MECP_ALERT_FLOOD_MAX_SENDERS :: nat where "MECP_ALERT_FLOOD_MAX_SENDERS = 5"
definition MECP_ALERT_FLOOD_WINDOW_MS :: int where "MECP_ALERT_FLOOD_WINDOW_MS = 60000"
definition MAX_TRACKED_SENDERS :: nat where "MAX_TRACKED_SENDERS = 1000"

datatype throttle_notice = NoticeSender | NoticeFlood

record throttle_decision =
  td_alert :: bool
  td_notify :: "throttle_notice option"

record sender_window =
  sw_alerts :: "millis list"
  sw_notified_at :: "millis option"

record mecp_throttle =
  mt_senders :: "(string, sender_window) jsmap"
  mt_recent :: "(string \<times> millis) list"
  mt_flood_notified :: "millis option"

definition mecp_init :: mecp_throttle where
  "mecp_init = \<lparr>mt_senders = [], mt_recent = [], mt_flood_notified = None\<rparr>"

definition prune_senders :: "millis \<Rightarrow> (string, sender_window) jsmap \<Rightarrow> (string, sender_window) jsmap" where
  "prune_senders now m =
     (if length m \<le> MAX_TRACKED_SENDERS then m
      else jm_evict MAX_TRACKED_SENDERS
        (filter (\<lambda>(_, w). \<not> list_all (\<lambda>t. now - t > MECP_ALERT_THROTTLE_WINDOW_MS) (sw_alerts w)) m))"

definition sender_alerts_in_window :: "string \<Rightarrow> millis \<Rightarrow> mecp_throttle \<Rightarrow> millis list" where
  "sender_alerts_in_window key now s =
     filter (\<lambda>t. now - t \<le> MECP_ALERT_THROTTLE_WINDOW_MS)
       (case jm_get (mt_senders s) key of None \<Rightarrow> [] | Some w \<Rightarrow> sw_alerts w)"

definition flood_active :: "string \<Rightarrow> millis \<Rightarrow> mecp_throttle \<Rightarrow> bool" where
  "flood_active key now s =
     (let others = remdups (map fst (filter (\<lambda>(k, t). now - t \<le> MECP_ALERT_FLOOD_WINDOW_MS \<and> k \<noteq> key) (mt_recent s)))
      in length others \<ge> MECP_ALERT_FLOOD_MAX_SENDERS)"

definition is_mecp_alert_throttled :: "string \<Rightarrow> millis \<Rightarrow> mecp_throttle \<Rightarrow> bool" where
  "is_mecp_alert_throttled key now s \<longleftrightarrow>
     length (sender_alerts_in_window key now s) \<ge> MECP_ALERT_THROTTLE_MAX \<or> flood_active key now s"

definition record_mecp_alert :: "string \<Rightarrow> millis \<Rightarrow> mecp_throttle \<Rightarrow> throttle_decision \<times> mecp_throttle" where
  "record_mecp_alert key now s =
     (let in_window = sender_alerts_in_window key now s;
          prev = jm_get (mt_senders s) key;
          sender_throttled = length in_window \<ge> MECP_ALERT_THROTTLE_MAX;
          flooded = (\<not> sender_throttled \<and> flood_active key now s);
          recent = filter (\<lambda>(_, t). now - t \<le> MECP_ALERT_FLOOD_WINDOW_MS) (mt_recent s) @ [(key, now)];
          notified_at = (case prev of None \<Rightarrow> None | Some w \<Rightarrow> sw_notified_at w);
          tell_sender = (sender_throttled \<and>
            (case notified_at of None \<Rightarrow> True | Some t \<Rightarrow> now - t > MECP_ALERT_THROTTLE_WINDOW_MS));
          tell_flood = (\<not> sender_throttled \<and> flooded \<and>
            (case mt_flood_notified s of None \<Rightarrow> True | Some t \<Rightarrow> now - t > MECP_ALERT_FLOOD_WINDOW_MS));
          notified_at' = (if tell_sender then Some now else notified_at);
          flood_notified = (if tell_flood then Some now else mt_flood_notified s);
          is_new_sender = (jm_get (mt_senders s) key = None);
          senders1 = (if flooded \<and> is_new_sender then mt_senders s
            else jm_set key \<lparr>sw_alerts = in_window @ [now], sw_notified_at = notified_at'\<rparr> (mt_senders s))
      in (\<lparr>td_alert = (\<not> sender_throttled \<and> \<not> flooded),
            td_notify = (if tell_sender then Some NoticeSender else if tell_flood then Some NoticeFlood else None)\<rparr>,
          \<lparr>mt_senders = prune_senders now senders1, mt_recent = recent, mt_flood_notified = flood_notified\<rparr>))"

text \<open>
  An alert of any sender as a step that accepts the alerts of one sender which sound. While no more
  senders alert than are tracked, nobody is evicted.
\<close>

definition mecp_step :: "string \<Rightarrow> string \<times> millis \<Rightarrow> mecp_throttle \<Rightarrow> bool \<times> mecp_throttle" where
  "mecp_step k e s = (case record_mecp_alert (fst e) (snd e) s of (d, s') \<Rightarrow> (td_alert d \<and> fst e = k, s'))"

definition alerts_of :: "string \<Rightarrow> mecp_throttle \<Rightarrow> millis list" where
  "alerts_of k s = (case jm_get (mt_senders s) k of None \<Rightarrow> [] | Some w \<Rightarrow> sw_alerts w)"

definition mecp_inv :: "string set \<Rightarrow> mecp_throttle \<Rightarrow> bool" where
  "mecp_inv K s \<longleftrightarrow> finite K \<and> card K \<le> MAX_TRACKED_SENDERS \<and> jm_wf (mt_senders s) \<and> set (jm_keys (mt_senders s)) \<subseteq> K"

lemma prune_senders_id:
  assumes "finite K" "card K \<le> MAX_TRACKED_SENDERS" "jm_wf m" "set (jm_keys m) \<subseteq> K"
  shows "prune_senders now m = m"
proof -
  have "length m = card (set (jm_keys m))" using assms(3) by (simp add: jm_wf_def distinct_card)
  also have "\<dots> \<le> card K" using assms(1,4) by (rule card_mono)
  finally show ?thesis using assms(2) by (simp add: prune_senders_def)
qed

lemma record_mecp_alert_senders:
  assumes "mecp_inv K s" "key \<in> K"
  shows "mecp_inv K (snd (record_mecp_alert key now s))"
    and "alerts_of k (snd (record_mecp_alert key now s)) =
      (if k = key \<and> \<not> (td_alert (fst (record_mecp_alert key now s)) = False \<and> jm_get (mt_senders s) key = None)
       then sender_alerts_in_window key now s @ [now] else alerts_of k s)"
proof -
  let ?r = "record_mecp_alert key now s"
  let ?thr = "length (sender_alerts_in_window key now s) \<ge> MECP_ALERT_THROTTLE_MAX"
  let ?fl = "\<not> ?thr \<and> flood_active key now s"
  have new: "jm_get (mt_senders s) key = None \<Longrightarrow> \<not> ?thr"
    by (simp add: sender_alerts_in_window_def MECP_ALERT_THROTTLE_MAX_def)
  have "\<exists>w. sw_alerts w = sender_alerts_in_window key now s @ [now]
    \<and> mt_senders (snd ?r) = prune_senders now
       (if ?fl \<and> jm_get (mt_senders s) key = None then mt_senders s else jm_set key w (mt_senders s))"
    unfolding record_mecp_alert_def Let_def snd_conv mecp_throttle.simps
    by (rule exI, rule conjI [rotated], rule refl) simp
  then obtain w where w: "sw_alerts w = sender_alerts_in_window key now s @ [now]"
    "mt_senders (snd ?r) = prune_senders now
       (if ?fl \<and> jm_get (mt_senders s) key = None then mt_senders s else jm_set key w (mt_senders s))"
    by blast
  let ?m = "if ?fl \<and> jm_get (mt_senders s) key = None then mt_senders s else jm_set key w (mt_senders s)"
  have m: "jm_wf ?m" "set (jm_keys ?m) \<subseteq> K"
    using assms by (auto simp: mecp_inv_def jm.wf_set jm.keys_set)
  have eq: "mt_senders (snd ?r) = ?m"
    unfolding w(2) by (rule prune_senders_id [OF _ _ m]) (use assms(1) in \<open>simp_all add: mecp_inv_def\<close>)
  show "mecp_inv K (snd ?r)" using assms(1) m unfolding mecp_inv_def eq by blast
  have "td_alert (fst ?r) \<longleftrightarrow> \<not> ?thr \<and> \<not> ?fl"
    by (simp add: record_mecp_alert_def Let_def)
  then show "alerts_of k (snd ?r) =
      (if k = key \<and> \<not> (td_alert (fst ?r) = False \<and> jm_get (mt_senders s) key = None)
       then sender_alerts_in_window key now s @ [now] else alerts_of k s)"
    using new by (auto simp: alerts_of_def eq jm.get_set w(1))
qed

lemma sender_alerts_eq:
  "sender_alerts_in_window k now s = filter (\<lambda>t. now - MECP_ALERT_THROTTLE_WINDOW_MS \<le> t) (alerts_of k s)"
  unfolding sender_alerts_in_window_def alerts_of_def by (intro filter_cong) auto

lemma mecp_step_parts:
  "fst (mecp_step k e s) \<longleftrightarrow> td_alert (fst (record_mecp_alert (fst e) (snd e) s)) \<and> fst e = k"
  "snd (mecp_step k e s) = snd (record_mecp_alert (fst e) (snd e) s)"
  by (simp_all add: mecp_step_def case_prod_beta)

lemma td_alert_below:
  "td_alert (fst (record_mecp_alert k now s)) \<Longrightarrow>
     length (sender_alerts_in_window k now s) < MECP_ALERT_THROTTLE_MAX"
  by (auto simp: record_mecp_alert_def Let_def)

interpretation mecp: windowed_limiter "mecp_step k" snd "\<lambda>e. fst e \<in> K" "mecp_inv K" "alerts_of k"
    MECP_ALERT_THROTTLE_WINDOW_MS MECP_ALERT_THROTTLE_MAX for k K
proof
  fix s :: mecp_throttle and e :: "string \<times> millis"
  assume inv: "mecp_inv K s" and e: "fst e \<in> K"
  note rec = record_mecp_alert_senders [OF inv e, where now = "snd e"]
  show "mecp_inv K (snd (mecp_step k e s))" by (simp add: mecp_step_parts rec(1))
  show "fst (mecp_step k e s) \<Longrightarrow>
      length (filter (\<lambda>x. snd e - MECP_ALERT_THROTTLE_WINDOW_MS \<le> x) (alerts_of k s)) < MECP_ALERT_THROTTLE_MAX"
    using td_alert_below by (auto simp: mecp_step_parts sender_alerts_eq)
  show "subseq (filter (\<lambda>x. snd e - MECP_ALERT_THROTTLE_WINDOW_MS \<le> x) (alerts_of k s)
        @ (if fst (mecp_step k e s) then [snd e] else [])) (alerts_of k (snd (mecp_step k e s)))"
    unfolding mecp_step_parts rec(2)
    by (auto simp: sender_alerts_eq subseq_filter_left list_emb_append2)
next
  show "0 \<le> MECP_ALERT_THROTTLE_WINDOW_MS" by (simp add: MECP_ALERT_THROTTLE_WINDOW_MS_def)
qed

text \<open>
  C27: a sender cannot sound the alarm more than three times in ten minutes. For every sequence of
  alerts on a clock that does not go back, from at most 1000 different senders, every window of ten
  minutes contains at most three alerts of one sender that sound.
\<close>

theorem mecp_alerts_limited:
  fixes es :: "(string \<times> millis) list" and k :: string and start :: millis
  assumes "sorted (map snd es)" "length (remdups (map fst es)) \<le> 1000"
  shows "length (within start (start + 600000) (accepted_times (mecp_step k) snd es mecp_init)) \<le> 3"
proof -
  have "mecp_inv (fst ` set es) mecp_init"
    using assms(2) by (simp add: mecp_inv_def mecp_init_def MAX_TRACKED_SENDERS_def length_remdups_card_conv)
  from mecp.window_bound [OF this _ assms(1), of start k] show ?thesis
    by (simp add: list_all_iff MECP_ALERT_THROTTLE_WINDOW_MS_def MECP_ALERT_THROTTLE_MAX_def)
qed

lemma mecp_alerts_limited_witness:
  "length (within 0 600000 (accepted_times (mecp_step ''a'') snd
     [(''a'', 0), (''a'', 10), (''b'', 20), (''a'', 30), (''a'', 40)] mecp_init)) \<le> 3"
  using mecp_alerts_limited [of "[(''a'', 0), (''a'', 10), (''b'', 20), (''a'', 30), (''a'', 40)]" 0 "''a''"]
  by simp

end
