(* ===== verification/Backoff.thy ===== *)
theory Backoff
  imports Complex_Main Rate_Window Js_Map Js_String
begin

text \<open>
  The retry policies: per-hub cooldown of automatic joins
  (\<^verbatim>\<open>src/renderer/lib/rrcHubAutoJoinBackoff.ts\<close>), omission of failed propagation targets
  (\<^verbatim>\<open>src/renderer/lib/reticulum/reticulumPropagationSyncBackoff.ts\<close>), the backoff of rate-limited
  proxy calls (\<^verbatim>\<open>reticulumProxyRateLimitBackoff.ts\<close>) and the MQTT reconnect delay
  (\<^verbatim>\<open>src/shared/mqttReconnectSchedule.ts\<close>). The locale \<open>cooldown\<close> is what the callers of the first
  three rely on: after a failure the same target is blocked for a while, whatever happens to others.
  \<^verbatim>\<open>Math.random()\<close> is an argument, a number in \<open>[0, 1)\<close>.
\<close>

subsection \<open>The contract of a cooldown\<close>

text \<open>
  The strictest use of a cooldown, not a function of the program: a caller that asks first and reports
  every attempt as failed at once. The step answers whether it attempts the watched target. \<open>ident\<close> is the key under which a target is remembered.
\<close>

definition attempt_step ::
    "('k \<Rightarrow> int \<Rightarrow> 's \<Rightarrow> bool \<times> 's) \<Rightarrow> ('k \<Rightarrow> int \<Rightarrow> 's \<Rightarrow> 's) \<Rightarrow> ('k \<Rightarrow> 'n) \<Rightarrow> 'k \<Rightarrow> 'k \<times> int \<Rightarrow> 's \<Rightarrow> bool \<times> 's" where
  "attempt_step check report ident k e s =
     (case check (fst e) (snd e) s of
        (blocked, s1) \<Rightarrow> if blocked then (False, s1)
          else (ident (fst e) = ident k, report (fst e) (snd e) s1))"

definition spaced :: "int \<Rightarrow> int list \<Rightarrow> bool" where
  "spaced d ts \<longleftrightarrow> sorted_wrt (\<lambda>a b. a + d \<le> b) ts"

locale cooldown =
  fixes check :: "'k \<Rightarrow> int \<Rightarrow> 's \<Rightarrow> bool \<times> 's"
    and report :: "'k \<Rightarrow> int \<Rightarrow> 's \<Rightarrow> 's"
    and ident :: "'k \<Rightarrow> 'n"
    and valid :: "'k \<Rightarrow> bool"
    and inv :: "'s \<Rightarrow> bool"
    and d :: int
  assumes inv_check: "inv s \<Longrightarrow> inv (snd (check k t s))"
    and inv_note: "inv s \<Longrightarrow> inv (report k t s)"
    and check_pure: "inv s \<Longrightarrow> t \<le> t' \<Longrightarrow> fst (check k t' (snd (check j t s))) = fst (check k t' s)"
    and note_blocks: "inv s \<Longrightarrow> valid k \<Longrightarrow> ident j = ident k \<Longrightarrow> \<not> fst (check j t s) \<Longrightarrow> t \<le> t' \<Longrightarrow> t' < t + d \<Longrightarrow> fst (check k t' (report j t s))"
    and note_other: "inv s \<Longrightarrow> ident j \<noteq> ident k \<Longrightarrow> t \<le> t' \<Longrightarrow> fst (check k t' s) \<Longrightarrow> fst (check k t' (report j t s))"
    and check_ident: "ident j = ident k \<Longrightarrow> check j t s = check k t s"
begin

text \<open>After an attempt of the target at \<open>t0\<close>, every later attempt comes at least \<open>d\<close> later.\<close>

lemma attempts_after:
  assumes "inv s" "valid k" "sorted (map snd es)" "list_all (\<lambda>e. low \<le> snd e) es"
    "\<And>t'. low \<le> t' \<Longrightarrow> t' < t0 + d \<Longrightarrow> fst (check k t' s)"
  shows "list_all (\<lambda>t. t0 + d \<le> t) (accepted_times (attempt_step check report ident k) snd es s)
    \<and> spaced d (accepted_times (attempt_step check report ident k) snd es s)"
  using assms
proof (induction es arbitrary: s low t0)
  case (Cons e es)
  obtain j t where e: "e = (j, t)" by (cases e)
  let ?s1 = "snd (check j t s)" and ?s' = "snd (attempt_step check report ident k e s)"
  note inv1 = inv_check [OF Cons.prems(1), of j t]
  have s': "?s' = (if fst (check j t s) then ?s1 else report j t ?s1)"
    and acc: "fst (attempt_step check report ident k e s) \<longleftrightarrow> \<not> fst (check j t s) \<and> ident j = ident k"
    by (auto simp: attempt_step_def e case_prod_beta)
  have inv': "inv ?s'" using inv1 inv_note by (simp add: s')
  have le: "low \<le> t" "list_all (\<lambda>e. t \<le> snd e) es" "sorted (map snd es)"
    using Cons.prems(3,4) e by (auto simp: list_all_iff)
  have not1: "fst (check j t ?s1) = fst (check j t s)" by (rule check_pure [OF Cons.prems(1)]) simp
  show ?case
  proof (cases "\<not> fst (check j t s) \<and> ident j = ident k")
    case True
    then have "t0 + d \<le> t" using Cons.prems(5) [of t] le(1) check_ident [of j k t s] by force
    have "fst (check k t' ?s')" if "t \<le> t'" "t' < t + d" for t'
      using note_blocks [OF inv1 Cons.prems(2), of j t t'] True that not1 by (simp add: s')
    from Cons.IH [OF inv' Cons.prems(2) le(3,2) this] True \<open>t0 + d \<le> t\<close> acc show ?thesis
      by (auto simp: e spaced_def list_all_iff) 
  next
    case False
    have "fst (check k t' ?s')" if "t \<le> t'" "t' < t0 + d" for t'
    proof -
      have 1: "fst (check k t' ?s1)"
        using Cons.prems(5) [of t'] le(1) that check_pure [OF Cons.prems(1) that(1)] by simp
      show ?thesis
      proof (cases "fst (check j t s)")
        case True
        with 1 show ?thesis by (simp add: s')
      next
        case nb: False
        with False have "ident j \<noteq> ident k" by simp
        from note_other [OF inv1 this that(1) 1] nb show ?thesis by (simp add: s')
      qed
    qed
    note ih = Cons.IH [OF inv' Cons.prems(2) le(3,2) this]
    from acc False have "\<not> fst (attempt_step check report ident k e s)" by blast
    with ih show ?thesis by simp
  qed
qed (simp add: spaced_def)

lemma attempts_spaced:
  assumes "inv s" "valid k" "sorted (map snd es)"
  shows "spaced d (accepted_times (attempt_step check report ident k) snd es s)"
proof (cases es)
  case (Cons e es')
  have "list_all (\<lambda>x. snd e \<le> snd x) es" using assms(3) Cons by (auto simp: list_all_iff)
  from attempts_after [OF assms this, of "snd e - d"] show ?thesis by simp
qed (simp add: spaced_def)

end

subsection \<open>RRC hub auto-join\<close>

definition RRC_AUTO_JOIN_GIVE_UP_AFTER :: nat where "RRC_AUTO_JOIN_GIVE_UP_AFTER = 5"
definition RRC_AUTO_JOIN_COOLDOWN_STEPS_MS :: "int list" where
  "RRC_AUTO_JOIN_COOLDOWN_STEPS_MS = [30000, 60000, 120000, 300000, 900000]"
definition RRC_AUTO_JOIN_FAILURE_COALESCE_MS :: int where "RRC_AUTO_JOIN_FAILURE_COALESCE_MS = 5000"

record hub_backoff =
  hb_consecutive_failures :: nat
  hb_next_eligible_at_ms :: millis
  hb_given_up :: bool
  hb_last_failure_at_ms :: millis

type_synonym hub_map = "(string, hub_backoff) jsmap"

definition norm_hub :: "string \<Rightarrow> string" where
  "norm_hub hub = js_lower (js_trim hub)"

definition cooldown_ms_for_failure_count :: "nat \<Rightarrow> int" where
  "cooldown_ms_for_failure_count n =
     RRC_AUTO_JOIN_COOLDOWN_STEPS_MS ! (min (n - 1) (length RRC_AUTO_JOIN_COOLDOWN_STEPS_MS - 1))"

definition is_rrc_hub_auto_join_blocked :: "string \<Rightarrow> millis \<Rightarrow> hub_map \<Rightarrow> bool" where
  "is_rrc_hub_auto_join_blocked hub now m =
     (let h = norm_hub hub in
      if h = [] then False
      else case jm_get m h of
             None \<Rightarrow> False
           | Some st \<Rightarrow> if hb_given_up st then True else now < hb_next_eligible_at_ms st)"

definition record_rrc_hub_auto_join_failure :: "string \<Rightarrow> millis \<Rightarrow> hub_map \<Rightarrow> hub_map" where
  "record_rrc_hub_auto_join_failure hub now m =
     (let h = norm_hub hub in
      if h = [] then m
      else
        (let prev = jm_get m h in
         if (case prev of None \<Rightarrow> False
             | Some p \<Rightarrow> now - hb_last_failure_at_ms p < RRC_AUTO_JOIN_FAILURE_COALESCE_MS)
         then m
         else
           (let consecutive = (case prev of None \<Rightarrow> 0 | Some p \<Rightarrow> hb_consecutive_failures p) + 1 in
            if consecutive \<ge> RRC_AUTO_JOIN_GIVE_UP_AFTER
            then jm_set h \<lparr>hb_consecutive_failures = consecutive, hb_next_eligible_at_ms = 0,
                   hb_given_up = True, hb_last_failure_at_ms = now\<rparr> m
            else jm_set h \<lparr>hb_consecutive_failures = consecutive,
                   hb_next_eligible_at_ms = now + cooldown_ms_for_failure_count consecutive,
                   hb_given_up = False, hb_last_failure_at_ms = now\<rparr> m)))"

definition clear_rrc_hub_auto_join_backoff :: "string \<Rightarrow> hub_map \<Rightarrow> hub_map" where
  "clear_rrc_hub_auto_join_backoff hub m =
     (let h = norm_hub hub in if h = [] then m else jm_delete h m)"

text \<open>Which failure reasons count. The regular expressions are literal words, found in any case.\<close>

definition mentions :: "string \<Rightarrow> string \<Rightarrow> bool" where
  "mentions w s \<longleftrightarrow> list_ex (\<lambda>t. take (length w) t = w) (suffixes (js_lower s))"

definition is_rrc_link_proof_not_ready :: "string option \<Rightarrow> bool" where
  "is_rrc_link_proof_not_ready reason = (case reason of None \<Rightarrow> False | Some r \<Rightarrow>
     if r = [] then False else mentions ''link proof'' r \<or> mentions ''timed out waiting for link'' r)"

definition is_rrc_path_not_ready :: "string option \<Rightarrow> bool" where
  "is_rrc_path_not_ready reason = (case reason of None \<Rightarrow> False | Some r \<Rightarrow>
     if r = [] then False else mentions ''path not ready'' r)"

definition is_rrc_live_not_ready :: "string option \<Rightarrow> bool" where
  "is_rrc_live_not_ready reason = (case reason of None \<Rightarrow> False | Some r \<Rightarrow>
     if r = [] then False else mentions ''requires live rns-stack'' r)"

definition is_rrc_backoff_worthy_reason :: "string option \<Rightarrow> bool" where
  "is_rrc_backoff_worthy_reason reason = (case reason of None \<Rightarrow> True | Some r \<Rightarrow>
     if r = [] then True
     else if mentions ''local_disconnect'' r then False
     else if mentions ''cancelled'' r then False
     else if is_rrc_live_not_ready reason then False
     else if is_rrc_link_proof_not_ready reason then False
     else if is_rrc_path_not_ready reason then False
     else True)"

definition hub_inv :: "hub_map \<Rightarrow> bool" where
  "hub_inv m \<longleftrightarrow> (\<forall>h st. jm_get m h = Some st \<longrightarrow>
     hb_given_up st \<or> hb_last_failure_at_ms st + 30000 \<le> hb_next_eligible_at_ms st)"

lemma cooldown_min: "30000 \<le> cooldown_ms_for_failure_count n"
proof -
  have "min (n - 1) 4 \<in> {0, 1, 2, 3, 4}" by auto
  then show ?thesis by (auto simp: cooldown_ms_for_failure_count_def RRC_AUTO_JOIN_COOLDOWN_STEPS_MS_def)
qed

lemma hub_inv_failure: "hub_inv m \<Longrightarrow> hub_inv (record_rrc_hub_auto_join_failure hub now m)"
  using cooldown_min by (auto simp: hub_inv_def record_rrc_hub_auto_join_failure_def Let_def jm.get_set)

lemma hub_failure_blocks:
  assumes "hub_inv m" "norm_hub k \<noteq> []" "norm_hub j = norm_hub k"
    "\<not> is_rrc_hub_auto_join_blocked j t m" "t \<le> t'" "t' < t + 30000"
  shows "is_rrc_hub_auto_join_blocked k t' (record_rrc_hub_auto_join_failure j t m)"
proof (cases "jm_get m (norm_hub k)")
  case None
  with assms cooldown_min [of 1] show ?thesis
    by (auto simp: is_rrc_hub_auto_join_blocked_def record_rrc_hub_auto_join_failure_def Let_def jm.get_set)
next
  case (Some st)
  with assms have "\<not> hb_given_up st" "hb_next_eligible_at_ms st \<le> t"
    by (auto simp: is_rrc_hub_auto_join_blocked_def Let_def split: if_splits)
  with assms(1) Some have "\<not> t - hb_last_failure_at_ms st < RRC_AUTO_JOIN_FAILURE_COALESCE_MS"
    by (force simp: hub_inv_def RRC_AUTO_JOIN_FAILURE_COALESCE_MS_def)
  with Some assms cooldown_min [of "hb_consecutive_failures st + 1"] show ?thesis
    by (auto simp: is_rrc_hub_auto_join_blocked_def record_rrc_hub_auto_join_failure_def Let_def jm.get_set)
qed

lemma hub_failure_other:
  "norm_hub j \<noteq> norm_hub k \<Longrightarrow>
     is_rrc_hub_auto_join_blocked k t' (record_rrc_hub_auto_join_failure j t m) = is_rrc_hub_auto_join_blocked k t' m"
  by (auto simp: is_rrc_hub_auto_join_blocked_def record_rrc_hub_auto_join_failure_def Let_def jm.get_set
      split: option.splits)

definition rrc_check :: "string \<Rightarrow> millis \<Rightarrow> hub_map \<Rightarrow> bool \<times> hub_map" where
  "rrc_check hub now m = (is_rrc_hub_auto_join_blocked hub now m, m)"

interpretation rrc: cooldown rrc_check record_rrc_hub_auto_join_failure norm_hub "\<lambda>k. norm_hub k \<noteq> []" hub_inv 30000
  by unfold_locales
     (simp_all add: rrc_check_def hub_inv_failure hub_failure_blocks hub_failure_other,
      simp add: is_rrc_hub_auto_join_blocked_def)

definition hub_count :: "string \<Rightarrow> hub_map \<Rightarrow> nat" where
  "hub_count h m = (case jm_get m h of None \<Rightarrow> 0 | Some st \<Rightarrow> hb_consecutive_failures st)"

definition give_up_inv :: "hub_map \<Rightarrow> bool" where
  "give_up_inv m \<longleftrightarrow> (\<forall>h st. jm_get m h = Some st \<longrightarrow>
     (hb_given_up st \<longleftrightarrow> RRC_AUTO_JOIN_GIVE_UP_AFTER \<le> hb_consecutive_failures st))"

lemma give_up_inv_failure: "give_up_inv m \<Longrightarrow> give_up_inv (record_rrc_hub_auto_join_failure hub now m)"
  by (auto simp: give_up_inv_def record_rrc_hub_auto_join_failure_def Let_def jm.get_set)

lemma hub_count_attempt:
  assumes "hub_inv m" "give_up_inv m" "norm_hub k \<noteq> []" "\<not> is_rrc_hub_auto_join_blocked k t m"
  shows "hub_count (norm_hub k) m < 5"
    "hub_count (norm_hub k) (record_rrc_hub_auto_join_failure k t m) = Suc (hub_count (norm_hub k) m)"
proof -
  show "hub_count (norm_hub k) m < 5"
    using assms(2-4) by (auto simp: hub_count_def give_up_inv_def is_rrc_hub_auto_join_blocked_def Let_def
        RRC_AUTO_JOIN_GIVE_UP_AFTER_def split: option.splits if_splits)
  show "hub_count (norm_hub k) (record_rrc_hub_auto_join_failure k t m) = Suc (hub_count (norm_hub k) m)"
  proof (cases "jm_get m (norm_hub k)")
    case (Some st)
    with assms have "\<not> t - hb_last_failure_at_ms st < RRC_AUTO_JOIN_FAILURE_COALESCE_MS"
      by (force simp: hub_inv_def RRC_AUTO_JOIN_FAILURE_COALESCE_MS_def is_rrc_hub_auto_join_blocked_def
          Let_def split: if_splits)
    with Some assms(3) show ?thesis
      by (simp add: hub_count_def record_rrc_hub_auto_join_failure_def Let_def jm.get_set)
  qed (use assms(3) in \<open>simp add: hub_count_def record_rrc_hub_auto_join_failure_def Let_def jm.get_set
      RRC_AUTO_JOIN_FAILURE_COALESCE_MS_def RRC_AUTO_JOIN_GIVE_UP_AFTER_def\<close>)
qed

lemma hub_failure_cong: "norm_hub j = norm_hub k \<Longrightarrow>
    record_rrc_hub_auto_join_failure j t m = record_rrc_hub_auto_join_failure k t m"
  by (simp add: record_rrc_hub_auto_join_failure_def)

lemma hub_count_other: "norm_hub j \<noteq> norm_hub k \<Longrightarrow>
    hub_count (norm_hub k) (record_rrc_hub_auto_join_failure j t m) = hub_count (norm_hub k) m"
  by (simp add: hub_count_def record_rrc_hub_auto_join_failure_def Let_def jm.get_set)

lemma attempts_until_give_up:
  assumes "hub_inv m" "give_up_inv m" "norm_hub k \<noteq> []"
  shows "length (accepted_times (attempt_step rrc_check record_rrc_hub_auto_join_failure norm_hub k) snd es m)
    \<le> 5 - hub_count (norm_hub k) m"
  using assms
proof (induction es arbitrary: m)
  case (Cons e es)
  obtain j t where e: "e = (j, t)" by (cases e)
  let ?step = "attempt_step rrc_check record_rrc_hub_auto_join_failure norm_hub k"
  have step: "?step e m = (if is_rrc_hub_auto_join_blocked j t m then (False, m)
      else (norm_hub j = norm_hub k, record_rrc_hub_auto_join_failure j t m))"
    by (simp add: attempt_step_def rrc_check_def e)
  show ?case
  proof (cases "is_rrc_hub_auto_join_blocked j t m")
    case True
    with Cons.IH [OF Cons.prems] show ?thesis by (simp add: step)
  next
    case False
    note ih = Cons.IH [OF hub_inv_failure [OF Cons.prems(1)] give_up_inv_failure [OF Cons.prems(2)] Cons.prems(3), of j t]
    show ?thesis
    proof (cases "norm_hub j = norm_hub k")
      case True
      have nb: "\<not> is_rrc_hub_auto_join_blocked k t m"
        using False True by (simp add: is_rrc_hub_auto_join_blocked_def)
      show ?thesis using ih hub_count_attempt [OF Cons.prems nb] False True
        by (simp add: step hub_failure_cong [OF True] le_diff_conv2)
    next
      case other: False
      with ih False show ?thesis by (simp add: step hub_count_other)
    qed
  qed
qed simp

text \<open>
  What the cooldown promises to a caller that asks before every attempt and reports each as failed at
  once: for every sequence of requests for any hubs on a clock that does not go back, the attempts on
  one hub (under any spelling of its name) are at least 30 seconds apart, and there are at most five.
  The automatic join of the program (\<^verbatim>\<open>useRrcStartupAutoConnect.ts\<close>) is not such a caller: it reports a
  failure when the attempt ends, and none for a cancelled or transient one.
\<close>

theorem rrc_attempts_limited:
  fixes es :: "(string \<times> millis) list"
  assumes "norm_hub hub \<noteq> []" "sorted (map snd es)"
  defines "attempts \<equiv> accepted_times (attempt_step rrc_check record_rrc_hub_auto_join_failure norm_hub hub) snd es []"
  shows "spaced 30000 attempts \<and> length attempts \<le> 5"
proof
  show "spaced 30000 attempts"
    unfolding attempts_def by (rule rrc.attempts_spaced [OF _ assms(1,2)]) (simp add: hub_inv_def)
  show "length attempts \<le> 5"
    unfolding attempts_def using attempts_until_give_up [of "[]" hub es] assms(1)
    by (simp add: hub_inv_def give_up_inv_def hub_count_def)
qed

lemma rrc_attempts_limited_witness:
  "spaced 30000 (accepted_times (attempt_step rrc_check record_rrc_hub_auto_join_failure norm_hub ''ab'') snd
     [(''ab'', 0), ('' AB'', 10000), (''cd'', 20000), (''ab'', 30000)] [])"
proof -
  have "norm_hub ''ab'' \<noteq> []" by code_simp
  then show ?thesis
    using rrc_attempts_limited [of "''ab''" "[(''ab'', 0), ('' AB'', 10000), (''cd'', 20000), (''ab'', 30000)]"]
    by simp
qed

text \<open>
  The cooldown of a hub follows its failures. After failures of a hub without a record that are
  at least five seconds apart, fewer than five of them block it until the cooldown step of their
  number has passed since the last one, and five or more block it for good; another report within
  five seconds of the last one changes nothing, and clearing the hub unblocks it.
\<close>

theorem rrc_cooldown_steps:
  fixes ts :: "millis list" and m :: hub_map
  assumes "norm_hub hub \<noteq> []" "jm_get m (norm_hub hub) = None" "spaced 5000 (ts @ [t])"
  defines "m' \<equiv> fold (record_rrc_hub_auto_join_failure hub) (ts @ [t]) m"
  shows "(is_rrc_hub_auto_join_blocked hub now m' \<longleftrightarrow>
      5 \<le> length (ts @ [t]) \<or> now < t + [30000, 60000, 120000, 300000, 900000] ! length ts)
    \<and> record_rrc_hub_auto_join_failure hub (min t' (t + 4999)) m' = m'
    \<and> \<not> is_rrc_hub_auto_join_blocked hub now (clear_rrc_hub_auto_join_backoff hub m')"
proof -
  let ?h = "norm_hub hub"
  have rec: "\<exists>st. jm_get (fold (record_rrc_hub_auto_join_failure hub) (ts @ [t]) m) ?h = Some st
      \<and> hb_consecutive_failures st = length (ts @ [t]) \<and> hb_last_failure_at_ms st = t
      \<and> (hb_given_up st \<longleftrightarrow> 5 \<le> length (ts @ [t]))
      \<and> (length (ts @ [t]) < 5 \<longrightarrow> hb_next_eligible_at_ms st = t + cooldown_ms_for_failure_count (length (ts @ [t])))"
    using assms(3)
  proof (induction ts arbitrary: t rule: rev_induct)
    case Nil
    show ?case using assms(1,2)
      by (simp add: record_rrc_hub_auto_join_failure_def Let_def jm.get_set RRC_AUTO_JOIN_GIVE_UP_AFTER_def)
  next
    case (snoc u ts)
    from snoc.prems have sp: "spaced 5000 (ts @ [u])" "u + 5000 \<le> t" by (auto simp: spaced_def sorted_wrt_append)
    define F where "F = fold (record_rrc_hub_auto_join_failure hub) (ts @ [u]) m"
    from snoc.IH [OF sp(1)] obtain st where
      st: "jm_get F ?h = Some st" "hb_consecutive_failures st = length (ts @ [u])" "hb_last_failure_at_ms st = u"
      unfolding F_def by blast
    have "fold (record_rrc_hub_auto_join_failure hub) ((ts @ [u]) @ [t]) m = record_rrc_hub_auto_join_failure hub t F"
      unfolding F_def by simp
    then show ?case using st sp(2) assms(1) unfolding record_rrc_hub_auto_join_failure_def [of hub t F]
      by (simp only:) (simp add: Let_def jm.get_set RRC_AUTO_JOIN_GIVE_UP_AFTER_def RRC_AUTO_JOIN_FAILURE_COALESCE_MS_def)
  qed
  then obtain st where st: "jm_get m' ?h = Some st" "hb_last_failure_at_ms st = t"
    "hb_given_up st \<longleftrightarrow> 5 \<le> length (ts @ [t])"
    "length (ts @ [t]) < 5 \<longrightarrow> hb_next_eligible_at_ms st = t + cooldown_ms_for_failure_count (length (ts @ [t]))"
    unfolding m'_def by blast
  have "length (ts @ [t]) < 5 \<Longrightarrow>
      cooldown_ms_for_failure_count (length (ts @ [t])) = [30000, 60000, 120000, 300000, 900000] ! length ts"
    by (simp add: cooldown_ms_for_failure_count_def RRC_AUTO_JOIN_COOLDOWN_STEPS_MS_def)
  then have "is_rrc_hub_auto_join_blocked hub now m' \<longleftrightarrow>
      5 \<le> length (ts @ [t]) \<or> now < t + [30000, 60000, 120000, 300000, 900000] ! length ts"
    using st assms(1) by (auto simp: is_rrc_hub_auto_join_blocked_def not_le)
  moreover have "record_rrc_hub_auto_join_failure hub (min t' (t + 4999)) m' = m'"
  proof -
    have "min t' (t + 4999) - t < 5000" by linarith
    then show ?thesis using st assms(1)
      by (simp add: record_rrc_hub_auto_join_failure_def RRC_AUTO_JOIN_FAILURE_COALESCE_MS_def Let_def)
  qed
  moreover have "\<not> is_rrc_hub_auto_join_blocked hub now (clear_rrc_hub_auto_join_backoff hub m')"
    using assms(1) by (simp add: is_rrc_hub_auto_join_blocked_def clear_rrc_hub_auto_join_backoff_def jm.get_del)
  ultimately show ?thesis by blast
qed

lemma rrc_cooldown_steps_witness:
  "is_rrc_hub_auto_join_blocked ''ab'' 69999 (fold (record_rrc_hub_auto_join_failure ''ab'') [0, 10000] [])
   \<and> \<not> is_rrc_hub_auto_join_blocked ''ab'' 70000 (fold (record_rrc_hub_auto_join_failure ''ab'') [0, 10000] [])"
proof -
  have "norm_hub ''ab'' \<noteq> []" by code_simp
  then show ?thesis
    using rrc_cooldown_steps [of "''ab''" "[]" "[0]" 10000 69999] rrc_cooldown_steps [of "''ab''" "[]" "[0]" 10000 70000]
    by (simp add: spaced_def)
qed

subsection \<open>Propagation sync targets\<close>

definition PROPAGATION_SYNC_BACKOFF_MS :: int where "PROPAGATION_SYNC_BACKOFF_MS = 900000"
definition PROPAGATION_SYNC_LAZY_CLEANUP :: nat where "PROPAGATION_SYNC_LAZY_CLEANUP = 64"

type_synonym failure_map = "(string, millis) jsmap"

definition backoff_key :: "string \<Rightarrow> string" where
  "backoff_key id_text = js_lower id_text"

definition sweep_expired :: "millis \<Rightarrow> failure_map \<Rightarrow> failure_map" where
  "sweep_expired now m = filter (\<lambda>(_, t). \<not> now - t \<ge> PROPAGATION_SYNC_BACKOFF_MS) m"

definition note_propagation_failure :: "string \<Rightarrow> millis \<Rightarrow> failure_map \<Rightarrow> failure_map" where
  "note_propagation_failure id_text now m =
     (if length id_text = 0 then m
      else let m1 = jm_set (backoff_key id_text) now m in
        if length m1 \<ge> PROPAGATION_SYNC_LAZY_CLEANUP then sweep_expired now m1 else m1)"

definition clear_propagation_failure :: "string \<Rightarrow> failure_map \<Rightarrow> failure_map" where
  "clear_propagation_failure id_text m = jm_delete (backoff_key id_text) m"

definition reset_propagation_failures :: "failure_map \<Rightarrow> failure_map" where
  "reset_propagation_failures m = []"

definition has_recent_propagation_failure :: "string \<Rightarrow> millis \<Rightarrow> failure_map \<Rightarrow> bool \<times> failure_map" where
  "has_recent_propagation_failure id_text now m =
     (case jm_get m (backoff_key id_text) of
        None \<Rightarrow> (False, m)
      | Some t \<Rightarrow> if now - t \<ge> PROPAGATION_SYNC_BACKOFF_MS then (False, jm_delete (backoff_key id_text) m)
          else (True, m))"

fun omit_recently_failed :: "('a \<Rightarrow> string) \<Rightarrow> 'a list \<Rightarrow> millis \<Rightarrow> failure_map \<Rightarrow> 'a list \<times> failure_map" where
  "omit_recently_failed key_of [] now m = ([], m)"
| "omit_recently_failed key_of (x # xs) now m =
     (case has_recent_propagation_failure (key_of x) now m of
        (recent, m1) \<Rightarrow> (case omit_recently_failed key_of xs now m1 of
          (ys, m2) \<Rightarrow> (if recent then ys else x # ys, m2)))"

lemma has_recent_fst:
  "fst (has_recent_propagation_failure k t m) \<longleftrightarrow>
     (case jm_get m (backoff_key k) of None \<Rightarrow> False | Some t0 \<Rightarrow> t - t0 < PROPAGATION_SYNC_BACKOFF_MS)"
  by (auto simp: has_recent_propagation_failure_def not_le split: option.splits)

lemma has_recent_wf: "jm_wf m \<Longrightarrow> jm_wf (snd (has_recent_propagation_failure k t m))"
  by (auto simp: has_recent_propagation_failure_def jm.wf_del split: option.splits)

lemma has_recent_pure:
  "t \<le> t' \<Longrightarrow> fst (has_recent_propagation_failure k t' (snd (has_recent_propagation_failure j t m)))
     = fst (has_recent_propagation_failure k t' m)"
  unfolding has_recent_fst
  by (auto simp: has_recent_propagation_failure_def jm.get_del split: option.splits)

lemma sweep_get: "jm_wf m \<Longrightarrow> jm_get (sweep_expired now m) k =
    (case jm_get m k of None \<Rightarrow> None | Some t \<Rightarrow> if now - t < PROPAGATION_SYNC_BACKOFF_MS then Some t else None)"
  by (simp add: sweep_expired_def jm_get_filter not_le split: option.splits)

lemma note_propagation_get:
  assumes "jm_wf m" "j \<noteq> []" "now \<le> t'"
  shows "fst (has_recent_propagation_failure k t' (note_propagation_failure j now m)) \<longleftrightarrow>
    (if backoff_key j = backoff_key k then t' - now < PROPAGATION_SYNC_BACKOFF_MS
     else fst (has_recent_propagation_failure k t' m))"
  using assms jm.wf_set [OF assms(1), of "backoff_key j" now]
  by (auto simp: has_recent_fst note_propagation_failure_def Let_def sweep_get jm.get_set split: option.splits if_splits)

lemma backoff_key_Nil: "backoff_key j = [] \<longleftrightarrow> j = []"
  by (simp add: backoff_key_def js_lower_def)

lemma note_propagation_wf: "jm_wf m \<Longrightarrow> jm_wf (note_propagation_failure j t m)"
  by (simp add: note_propagation_failure_def Let_def jm.wf_set sweep_expired_def jm_wf_filter)

interpretation psync: cooldown has_recent_propagation_failure note_propagation_failure backoff_key
    "\<lambda>k. k \<noteq> []" jm_wf PROPAGATION_SYNC_BACKOFF_MS
proof
  fix m :: failure_map and j k :: string and t t' :: millis
  assume wf: "jm_wf m"
  show "jm_wf (snd (has_recent_propagation_failure k t m))" by (rule has_recent_wf [OF wf])
  show "jm_wf (note_propagation_failure k t m)" by (rule note_propagation_wf [OF wf])
  assume le: "t \<le> t'"
  show "fst (has_recent_propagation_failure k t' (snd (has_recent_propagation_failure j t m)))
      = fst (has_recent_propagation_failure k t' m)" by (rule has_recent_pure [OF le])
  show "fst (has_recent_propagation_failure k t' (note_propagation_failure j t m))"
    if "backoff_key j \<noteq> backoff_key k" "fst (has_recent_propagation_failure k t' m)"
    using note_propagation_get [OF wf _ le, of j k] that by (cases "j = []") (simp_all add: note_propagation_failure_def)
  show "fst (has_recent_propagation_failure k t' (note_propagation_failure j t m))"
    if "k \<noteq> []" "backoff_key j = backoff_key k" "t' < t + PROPAGATION_SYNC_BACKOFF_MS"
    using note_propagation_get [OF wf _ le, of j k] that backoff_key_Nil [of j] backoff_key_Nil [of k] by auto
next
  fix m :: failure_map and j k :: string and t :: millis
  assume "backoff_key j = backoff_key k"
  then show "has_recent_propagation_failure j t m = has_recent_propagation_failure k t m"
    by (simp only: has_recent_propagation_failure_def)
qed

lemma omit_recently_failed_eq:
  "fst (omit_recently_failed key_of xs now m)
     = filter (\<lambda>x. \<not> fst (has_recent_propagation_failure (key_of x) now m)) xs"
proof (induction xs arbitrary: m)
  case (Cons x xs)
  have "filter (\<lambda>y. \<not> fst (has_recent_propagation_failure (key_of y) now
          (snd (has_recent_propagation_failure (key_of x) now m)))) xs
      = filter (\<lambda>y. \<not> fst (has_recent_propagation_failure (key_of y) now m)) xs"
    by (simp add: has_recent_pure)
  then show ?case using Cons.IH by (simp add: case_prod_beta)
qed simp

text \<open>
  A failed propagation target is left out of the cascade for fifteen minutes and no longer.
  Right after a failure of a target is noted, the targets that remain of any candidate list at a
  later time are those that remained before, minus the failed one (in any letter case) for less
  than fifteen minutes, plus it again from then on; the lazy cleanup of the table never brings a
  target back early nor drops one that did not fail.
\<close>

theorem omit_failed_target:
  assumes "jm_wf m" "failed \<noteq> []" "t \<le> now"
  shows "fst (omit_recently_failed key_of xs now (note_propagation_failure failed t m)) =
    filter (\<lambda>x. if backoff_key (key_of x) = backoff_key failed then t + 900000 \<le> now
      else \<not> fst (has_recent_propagation_failure (key_of x) now m)) xs"
  unfolding omit_recently_failed_eq using note_propagation_get [OF assms]
  by (intro filter_cong) (auto simp: PROPAGATION_SYNC_BACKOFF_MS_def)

lemma omit_failed_target_witness:
  "fst (omit_recently_failed id [''Ab'', ''c''] 899999 (note_propagation_failure ''aB'' 0 [])) = [''c'']"
proof -
  have "backoff_key ''Ab'' = backoff_key ''aB''" "backoff_key ''c'' \<noteq> backoff_key ''aB''" by code_simp+
  then show ?thesis
    using omit_failed_target [of "[]" "''aB''" 0 899999 id "[''Ab'', ''c'']"] by (simp add: has_recent_fst)
qed

subsection \<open>Rate-limited proxy calls\<close>

definition DEFAULT_BACKOFF_MS :: int where "DEFAULT_BACKOFF_MS = 5000"
definition MAX_BACKOFF_MS :: int where "MAX_BACKOFF_MS = 60000"

datatype proxy_bucket = BucketShared | BucketLxmfRecent

record bucket_state =
  bk_until_ms :: millis
  bk_consecutive_hits :: nat

record proxy_backoff =
  pb_shared :: bucket_state
  pb_lxmf_recent :: bucket_state

definition proxy_backoff_init :: proxy_backoff where
  "proxy_backoff_init = \<lparr>pb_shared = \<lparr>bk_until_ms = 0, bk_consecutive_hits = 0\<rparr>,
     pb_lxmf_recent = \<lparr>bk_until_ms = 0, bk_consecutive_hits = 0\<rparr>\<rparr>"

fun bucket_of :: "proxy_bucket \<Rightarrow> proxy_backoff \<Rightarrow> bucket_state" where
  "bucket_of BucketShared s = pb_shared s"
| "bucket_of BucketLxmfRecent s = pb_lxmf_recent s"

fun set_bucket :: "proxy_bucket \<Rightarrow> bucket_state \<Rightarrow> proxy_backoff \<Rightarrow> proxy_backoff" where
  "set_bucket BucketShared b s = s\<lparr>pb_shared := b\<rparr>"
| "set_bucket BucketLxmfRecent b s = s\<lparr>pb_lxmf_recent := b\<rparr>"

definition is_bucket_active :: "proxy_bucket \<Rightarrow> millis \<Rightarrow> proxy_backoff \<Rightarrow> bool" where
  "is_bucket_active bucket now s \<longleftrightarrow> now < bk_until_ms (bucket_of bucket s)"

definition remaining_for_bucket :: "proxy_bucket \<Rightarrow> millis \<Rightarrow> proxy_backoff \<Rightarrow> int" where
  "remaining_for_bucket bucket now s = max 0 (bk_until_ms (bucket_of bucket s) - now)"

definition is_proxy_backoff_active :: "proxy_bucket option \<Rightarrow> millis \<Rightarrow> proxy_backoff \<Rightarrow> bool" where
  "is_proxy_backoff_active bucket now s =
     (case bucket of
        None \<Rightarrow> is_bucket_active BucketShared now s \<or> is_bucket_active BucketLxmfRecent now s
      | Some b \<Rightarrow> is_bucket_active b now s)"

definition proxy_backoff_remaining_ms :: "proxy_bucket option \<Rightarrow> millis \<Rightarrow> proxy_backoff \<Rightarrow> int" where
  "proxy_backoff_remaining_ms bucket now s =
     (case bucket of
        None \<Rightarrow> max (remaining_for_bucket BucketShared now s) (remaining_for_bucket BucketLxmfRecent now s)
      | Some b \<Rightarrow> remaining_for_bucket b now s)"

text \<open>\<^verbatim>\<open>Math.round\<close> rounds halves up; \<open>r\<close> is the random number.\<close>

definition apply_jitter :: "rat \<Rightarrow> int \<Rightarrow> int" where
  "apply_jitter r delay_ms = \<lfloor>of_int delay_ms * (9 / 10 + r * (2 / 10)) + 1 / 2\<rfloor>"

definition note_proxy_rate_limit_hit :: "rat \<Rightarrow> proxy_bucket \<Rightarrow> millis \<Rightarrow> proxy_backoff \<Rightarrow> int \<times> proxy_backoff" where
  "note_proxy_rate_limit_hit r bucket now s =
     (let st = bucket_of bucket s;
          hits = min (bk_consecutive_hits st + 1) 6;
          base = min (DEFAULT_BACKOFF_MS * 2 ^ (hits - 1)) MAX_BACKOFF_MS;
          delay = min MAX_BACKOFF_MS (max DEFAULT_BACKOFF_MS (apply_jitter r base))
      in (delay, set_bucket bucket
            \<lparr>bk_until_ms = max (bk_until_ms st) (now + delay), bk_consecutive_hits = hits\<rparr> s))"

definition clear_proxy_backoff :: "proxy_bucket option \<Rightarrow> proxy_backoff \<Rightarrow> proxy_backoff" where
  "clear_proxy_backoff bucket s =
     (let zero = \<lparr>bk_until_ms = 0, bk_consecutive_hits = 0\<rparr> in
      case bucket of
        None \<Rightarrow> set_bucket BucketLxmfRecent zero (set_bucket BucketShared zero s)
      | Some b \<Rightarrow> set_bucket b zero s)"

text \<open>Whether an error is a rate-limit error is decided on its log text.\<close>

definition note_proxy_error_if_rate_limited ::
    "rat \<Rightarrow> string \<Rightarrow> proxy_bucket \<Rightarrow> millis \<Rightarrow> proxy_backoff \<Rightarrow> bool \<times> proxy_backoff" where
  "note_proxy_error_if_rate_limited r err_text bucket now s =
     (if \<not> mentions ''rate limit exceeded'' err_text then (False, s)
      else (True, snd (note_proxy_rate_limit_hit r bucket now s)))"

lemma bucket_of_set [simp]: "bucket_of a (set_bucket b x s) = (if a = b then x else bucket_of a s)"
  by (cases a; cases b) simp_all

lemma delay_bounds:
  "DEFAULT_BACKOFF_MS \<le> fst (note_proxy_rate_limit_hit r b now s)"
  "fst (note_proxy_rate_limit_hit r b now s) \<le> MAX_BACKOFF_MS"
  by (simp_all add: note_proxy_rate_limit_hit_def Let_def DEFAULT_BACKOFF_MS_def MAX_BACKOFF_MS_def)

definition proxy_check :: "proxy_bucket \<Rightarrow> millis \<Rightarrow> proxy_backoff \<Rightarrow> bool \<times> proxy_backoff" where
  "proxy_check b now s = (is_proxy_backoff_active (Some b) now s, s)"

definition proxy_hit :: "rat \<Rightarrow> proxy_bucket \<Rightarrow> millis \<Rightarrow> proxy_backoff \<Rightarrow> proxy_backoff" where
  "proxy_hit r b now s = snd (note_proxy_rate_limit_hit r b now s)"

lemma proxy_hit_until:
  "bk_until_ms (bucket_of k (proxy_hit r b now s)) =
     (if k = b then max (bk_until_ms (bucket_of k s)) (now + fst (note_proxy_rate_limit_hit r b now s))
      else bk_until_ms (bucket_of k s))"
  by (simp add: proxy_hit_def note_proxy_rate_limit_hit_def Let_def)

interpretation proxy: cooldown proxy_check "proxy_hit r" "\<lambda>b. b" "\<lambda>_. True" "\<lambda>_. True" DEFAULT_BACKOFF_MS for r
  using delay_bounds(1)
  by unfold_locales
     (auto simp: proxy_check_def is_proxy_backoff_active_def is_bucket_active_def proxy_hit_until
       intro: less_le_trans simp: less_max_iff_disj)

text \<open>
  A rate-limited proxy call is not repeated for at least five seconds and its backoff lasts at
  most a minute. For every sequence of calls of both buckets on a clock that does not go back, when
  each call is made only while its bucket is not blocked and is answered with a rate-limit error,
  calls of one bucket are at least five seconds apart; one more hit at any time blocks its bucket
  until between five seconds and a minute later, unless it was blocked longer already, whatever the
  random jitter, and leaves the other bucket alone.
\<close>

theorem proxy_calls_spaced:
  assumes "sorted (map snd es)"
  shows "spaced 5000 (accepted_times (attempt_step proxy_check (proxy_hit r) (\<lambda>b. b) b) snd es s)
    \<and> bk_until_ms (bucket_of b (proxy_hit r b now s)) \<in>
        {max (bk_until_ms (bucket_of b s)) (now + 5000)..max (bk_until_ms (bucket_of b s)) (now + 60000)}
    \<and> (b = b' \<or> bucket_of b' (proxy_hit r b now s) = bucket_of b' s)"
proof (intro conjI)
  show "spaced 5000 (accepted_times (attempt_step proxy_check (proxy_hit r) (\<lambda>b. b) b) snd es s)"
    using proxy.attempts_spaced [OF TrueI TrueI assms, of r b s] by (simp add: DEFAULT_BACKOFF_MS_def)
  show "bk_until_ms (bucket_of b (proxy_hit r b now s)) \<in>
        {max (bk_until_ms (bucket_of b s)) (now + 5000)..max (bk_until_ms (bucket_of b s)) (now + 60000)}"
    using delay_bounds [of r b now s] by (simp add: proxy_hit_until DEFAULT_BACKOFF_MS_def MAX_BACKOFF_MS_def max_def)
  show "b = b' \<or> bucket_of b' (proxy_hit r b now s) = bucket_of b' s"
    by (simp add: proxy_hit_def note_proxy_rate_limit_hit_def Let_def)
qed

lemma proxy_calls_spaced_witness:
  "spaced 5000 (accepted_times (attempt_step proxy_check (proxy_hit (1 / 2)) (\<lambda>b. b) BucketShared) snd
     [(BucketShared, 0), (BucketLxmfRecent, 10), (BucketShared, 4000), (BucketShared, 9000)] proxy_backoff_init)"
  using proxy_calls_spaced [of "[(BucketShared, 0), (BucketLxmfRecent, 10), (BucketShared, 4000), (BucketShared, 9000)]" "1 / 2"]
  by simp

subsection \<open>MQTT reconnect delay\<close>

datatype mesh_protocol = ProtoMeshtastic | ProtoMeshcore | ProtoReticulum

definition MQTT_RECONNECT_EXPONENTIAL_BASE_MS :: int where "MQTT_RECONNECT_EXPONENTIAL_BASE_MS = 60000"
definition MQTT_RECONNECT_EXPONENTIAL_CAP_MS :: int where "MQTT_RECONNECT_EXPONENTIAL_CAP_MS = 2700000"
definition MQTT_RECONNECT_MESHTASTIC_CONNACK_FAST_MS :: int where "MQTT_RECONNECT_MESHTASTIC_CONNACK_FAST_MS = 250"
definition MQTT_RECONNECT_MESHCORE_IMMEDIATE_BASE_MS :: int where "MQTT_RECONNECT_MESHCORE_IMMEDIATE_BASE_MS = 500"
definition MQTT_RECONNECT_MESHCORE_IMMEDIATE_JITTER_MS :: int where "MQTT_RECONNECT_MESHCORE_IMMEDIATE_JITTER_MS = 2000"

definition apply_positive_jitter_ms :: "rat \<Rightarrow> int \<Rightarrow> int" where
  "apply_positive_jitter_ms r delay_ms =
     (let spread = \<lfloor>of_int delay_ms * (1 / 10 :: rat)\<rfloor> in
      if spread \<le> 0 then delay_ms else delay_ms + \<lfloor>r * of_int (spread + 1)\<rfloor>)"

text \<open>\<open>None\<close> is the \<^verbatim>\<open>RangeError\<close>.\<close>

definition compute_mqtt_exponential_delay :: "rat \<Rightarrow> int \<Rightarrow> int option" where
  "compute_mqtt_exponential_delay r attempt =
     (if attempt < 1 then None
      else Some (apply_positive_jitter_ms r
        (min MQTT_RECONNECT_EXPONENTIAL_CAP_MS (MQTT_RECONNECT_EXPONENTIAL_BASE_MS * 2 ^ nat (attempt - 1)))))"

record mqtt_delay_params =
  md_protocol :: mesh_protocol
  md_attempt :: int
  md_connack_fast :: bool
  md_first_immediate :: bool

definition compute_mqtt_reconnect_delay :: "rat \<Rightarrow> mqtt_delay_params \<Rightarrow> int option" where
  "compute_mqtt_reconnect_delay r p =
     (if md_protocol p = ProtoMeshtastic \<and> md_attempt p = 1 \<and> md_connack_fast p
      then Some MQTT_RECONNECT_MESHTASTIC_CONNACK_FAST_MS
      else if md_protocol p = ProtoMeshcore \<and> md_attempt p = 1 \<and> md_first_immediate p
      then Some (MQTT_RECONNECT_MESHCORE_IMMEDIATE_BASE_MS
        + \<lfloor>r * of_int MQTT_RECONNECT_MESHCORE_IMMEDIATE_JITTER_MS\<rfloor>)
      else compute_mqtt_exponential_delay r (md_attempt p))"

lemma random_floor:
  fixes r :: rat
  assumes "0 \<le> r" "r < 1" "0 < n"
  shows "0 \<le> \<lfloor>r * of_int n\<rfloor>" "\<lfloor>r * of_int n\<rfloor> < n"
proof -
  show "0 \<le> \<lfloor>r * of_int n\<rfloor>" using assms by simp
  have "r * of_int n < of_int n" using assms by simp
  then show "\<lfloor>r * of_int n\<rfloor> < n" by (simp add: floor_less_iff)
qed

lemma jitter_bounds:
  assumes "0 \<le> r" "r < 1" "0 \<le> raw"
  shows "raw \<le> apply_positive_jitter_ms r raw" "10 * apply_positive_jitter_ms r raw \<le> 11 * raw"
proof -
  let ?spread = "\<lfloor>of_int raw * (1 / 10 :: rat)\<rfloor>"
  have s: "10 * ?spread \<le> raw" by linarith
  have "\<not> ?spread \<le> 0 \<Longrightarrow> 0 \<le> \<lfloor>r * of_int (?spread + 1)\<rfloor> \<and> \<lfloor>r * of_int (?spread + 1)\<rfloor> < ?spread + 1"
    using random_floor [OF assms(1,2), of "?spread + 1"] by simp
  with s assms(3) show "raw \<le> apply_positive_jitter_ms r raw" "10 * apply_positive_jitter_ms r raw \<le> 11 * raw"
    unfolding apply_positive_jitter_ms_def Let_def by (auto simp del: of_int_add)
qed

text \<open>
  The wait before an MQTT reconnect grows and stays bounded. For every attempt from 1 on and
  every random number there is a delay; without the fast first retry it is at least the capped
  doubling of one minute and at most a tenth above it, so between 60 seconds and 49.5 minutes, and
  the fast first retries wait from 250 milliseconds to 2.5 seconds.
\<close>

theorem mqtt_delay_bounds:
  assumes "0 \<le> r" "r < 1" "1 \<le> md_attempt p"
  defines "raw \<equiv> min 2700000 (60000 * 2 ^ nat (md_attempt p - 1)) :: int"
  shows "\<exists>delay. compute_mqtt_reconnect_delay r p = Some delay
    \<and> (if md_attempt p = 1 \<and> (md_protocol p = ProtoMeshtastic \<and> md_connack_fast p
          \<or> md_protocol p = ProtoMeshcore \<and> md_first_immediate p)
       then 250 \<le> delay \<and> delay < 2500
       else 60000 \<le> raw \<and> raw \<le> delay \<and> 10 * delay \<le> 11 * raw \<and> delay \<le> 2970000)"
proof -
  have "(1 :: int) \<le> 2 ^ nat (md_attempt p - 1)" by simp
  then have raw: "60000 \<le> raw" "raw \<le> 2700000" unfolding raw_def by simp_all
  have jit: "raw \<le> apply_positive_jitter_ms r raw" "10 * apply_positive_jitter_ms r raw \<le> 11 * raw"
    using jitter_bounds [OF assms(1,2)] raw by simp_all
  have imm: "0 \<le> \<lfloor>r * 2000\<rfloor>" "\<lfloor>r * 2000\<rfloor> < 2000"
    using random_floor [OF assms(1,2), of 2000] by simp_all
  have exp: "compute_mqtt_exponential_delay r (md_attempt p) = Some (apply_positive_jitter_ms r raw)"
    using assms(3) by (simp add: compute_mqtt_exponential_delay_def raw_def
        MQTT_RECONNECT_EXPONENTIAL_CAP_MS_def MQTT_RECONNECT_EXPONENTIAL_BASE_MS_def)
  show ?thesis unfolding compute_mqtt_reconnect_delay_def exp
    using raw jit imm
    by (auto simp: MQTT_RECONNECT_MESHTASTIC_CONNACK_FAST_MS_def MQTT_RECONNECT_MESHCORE_IMMEDIATE_BASE_MS_def
        MQTT_RECONNECT_MESHCORE_IMMEDIATE_JITTER_MS_def)
qed

lemma mqtt_delay_bounds_witness:
  "\<exists>delay. compute_mqtt_reconnect_delay (1 / 2) \<lparr>md_protocol = ProtoMeshcore, md_attempt = 7,
      md_connack_fast = False, md_first_immediate = True\<rparr> = Some delay \<and> 2700000 \<le> delay \<and> delay \<le> 2970000"
  using mqtt_delay_bounds [of "1 / 2" "\<lparr>md_protocol = ProtoMeshcore, md_attempt = 7, md_connack_fast = False,
    md_first_immediate = True\<rparr>"] by auto

end
