(* ===== verification/Cayenne_Lpp.thy ===== *)
theory Cayenne_Lpp
  imports Complex_Main Mesh_Prelude Js_String
begin

text \<open>
  The decoder of Cayenne Low Power Payloads (\<^verbatim>\<open>src/renderer/lib/meshtastic/cayenneLpp.ts\<close>): a list of
  records \<open>channel, type, data\<close>, whose data length depends on the type. Scaled values are exact
  rationals where the code computes with doubles. A type of the table carries its decoder, as in
  the code.
\<close>

datatype cayenne_kind =
    DigitalInput | DigitalOutput | AnalogInput | AnalogOutput | Illuminance | Presence | Temperature
  | Humidity | Accelerometer | Barometer | Gyrometer | Gps | Percentage | Concentration | Power
  | Distance | Energy | Direction | UnixTime | Switch

record cayenne_reading =
  cy_channel :: nat
  cy_type_id :: nat
  cy_kind :: cayenne_kind
  cy_values :: "(string \<times> rat) list"
  cy_unit :: string

record cayenne_result =
  cy_readings :: "cayenne_reading list"
  cy_truncated :: bool

record cayenne_type_spec =
  ts_kind :: cayenne_kind
  ts_size :: nat
  ts_unit :: string
  ts_decode :: "bytes \<Rightarrow> (string \<times> rat) list"

subsection \<open>Big-endian fields\<close>

definition u8_at :: "bytes \<Rightarrow> nat \<Rightarrow> nat" where
  "u8_at v i = unat (v ! i)"

definition u16_be :: "bytes \<Rightarrow> nat \<Rightarrow> nat" where
  "u16_be v i = 256 * u8_at v i + u8_at v (i + 1)"

definition i16_be :: "bytes \<Rightarrow> nat \<Rightarrow> int" where
  "i16_be v i = to_signed 16 (u16_be v i)"

definition u32_be :: "bytes \<Rightarrow> nat \<Rightarrow> nat" where
  "u32_be v i = 65536 * u16_be v i + u16_be v (i + 2)"

definition i24 :: "bytes \<Rightarrow> nat \<Rightarrow> int" where
  "i24 v i =
     (let raw = 65536 * u8_at v i + 256 * u8_at v (i + 1) + u8_at v (i + 2) in
      if raw div 8388608 mod 2 = 1 then int raw - 16777216 else int raw)"

definition round_digits :: "rat \<Rightarrow> nat \<Rightarrow> rat" where
  "round_digits x digits = (let f = 10 ^ digits in of_int \<lfloor>x * f + 1 / 2\<rfloor> / f)"

definition scalar :: "cayenne_kind \<Rightarrow> nat \<Rightarrow> string \<Rightarrow> (bytes \<Rightarrow> rat) \<Rightarrow> cayenne_type_spec" where
  "scalar k n u read = \<lparr>ts_kind = k, ts_size = n, ts_unit = u, ts_decode = (\<lambda>v. [(''value'', read v)])\<rparr>"

definition vec3 :: "cayenne_kind \<Rightarrow> string \<Rightarrow> rat \<Rightarrow> cayenne_type_spec" where
  "vec3 k u scale = \<lparr>ts_kind = k, ts_size = 6, ts_unit = u,
     ts_decode = (\<lambda>v. map (\<lambda>(n, i). (n, round_digits (of_int (i16_be v (i * 2)) / scale) 3))
       [(''x'', 0), (''y'', 1), (''z'', 2)])\<rparr>"

definition degree_sign :: string where "degree_sign = [chr 176]"

definition cayenne_types :: "(nat \<times> cayenne_type_spec) list" where
  "cayenne_types =
    [(0, scalar DigitalInput 1 '''' (\<lambda>v. of_nat (u8_at v 0))),
     (1, scalar DigitalOutput 1 '''' (\<lambda>v. of_nat (u8_at v 0))),
     (2, scalar AnalogInput 2 '''' (\<lambda>v. round_digits (of_int (i16_be v 0) / 100) 2)),
     (3, scalar AnalogOutput 2 '''' (\<lambda>v. round_digits (of_int (i16_be v 0) / 100) 2)),
     (101, scalar Illuminance 2 ''lx'' (\<lambda>v. of_nat (u16_be v 0))),
     (102, scalar Presence 1 '''' (\<lambda>v. of_nat (u8_at v 0))),
     (103, scalar Temperature 2 (degree_sign @ ''C'') (\<lambda>v. round_digits (of_int (i16_be v 0) / 10) 1)),
     (104, scalar Humidity 1 ''%'' (\<lambda>v. round_digits (of_nat (u8_at v 0) / 2) 1)),
     (113, vec3 Accelerometer ''G'' 1000),
     (115, scalar Barometer 2 ''hPa'' (\<lambda>v. round_digits (of_nat (u16_be v 0) / 10) 1)),
     (120, scalar Percentage 1 ''%'' (\<lambda>v. of_nat (u8_at v 0))),
     (125, scalar Concentration 2 ''ppm'' (\<lambda>v. of_nat (u16_be v 0))),
     (128, scalar Power 2 ''W'' (\<lambda>v. of_nat (u16_be v 0))),
     (130, scalar Distance 4 ''m'' (\<lambda>v. round_digits (of_nat (u32_be v 0) / 1000) 3)),
     (131, scalar Energy 4 ''kWh'' (\<lambda>v. round_digits (of_nat (u32_be v 0) / 1000) 3)),
     (132, scalar Direction 2 degree_sign (\<lambda>v. of_nat (u16_be v 0))),
     (133, scalar UnixTime 4 '''' (\<lambda>v. of_nat (u32_be v 0))),
     (134, vec3 Gyrometer (degree_sign @ ''/s'') 100),
     (136, \<lparr>ts_kind = Gps, ts_size = 9, ts_unit = '''',
        ts_decode = (\<lambda>v. [(''lat'', round_digits (of_int (i24 v 0) / 10000) 4),
                         (''lon'', round_digits (of_int (i24 v 3) / 10000) 4),
                         (''alt'', round_digits (of_int (i24 v 6) / 100) 2)])\<rparr>),
     (142, scalar Switch 1 '''' (\<lambda>v. of_nat (u8_at v 0)))]"

definition cayenne_spec :: "nat \<Rightarrow> cayenne_type_spec option" where
  "cayenne_spec type_id = map_of cayenne_types type_id"

subsection \<open>The loop over the records\<close>

function decode_cayenne_from :: "bytes \<Rightarrow> nat \<Rightarrow> cayenne_reading list \<Rightarrow> cayenne_result" where
  "decode_cayenne_from bs offset readings =
     (if offset < length bs then
        (if offset + 2 > length bs then \<lparr>cy_readings = readings, cy_truncated = True\<rparr>
         else
           (let channel = u8_at bs offset; type_id = u8_at bs (offset + 1) in
            case cayenne_spec type_id of
              None \<Rightarrow> \<lparr>cy_readings = readings, cy_truncated = True\<rparr>
            | Some spec \<Rightarrow>
                (if offset + 2 + ts_size spec > length bs then \<lparr>cy_readings = readings, cy_truncated = True\<rparr>
                 else decode_cayenne_from bs (offset + (2 + ts_size spec))
                   (readings @ [\<lparr>cy_channel = channel, cy_type_id = type_id, cy_kind = ts_kind spec,
                      cy_values = ts_decode spec (subarray bs (offset + 2) (offset + 2 + ts_size spec)),
                      cy_unit = ts_unit spec\<rparr>]))))
      else \<lparr>cy_readings = readings, cy_truncated = False\<rparr>)"
  by pat_completeness auto
termination
  by (relation "measure (\<lambda>(bs, offset, _). length bs - offset)") auto

declare decode_cayenne_from.simps [simp del]

definition decode_cayenne_lpp :: "bytes \<Rightarrow> cayenne_result" where
  "decode_cayenne_lpp bs = decode_cayenne_from bs 0 []"

definition kind_name :: "cayenne_kind \<Rightarrow> string" where
  "kind_name k = (case k of
       DigitalInput \<Rightarrow> ''digitalInput'' | DigitalOutput \<Rightarrow> ''digitalOutput'' | AnalogInput \<Rightarrow> ''analogInput''
     | AnalogOutput \<Rightarrow> ''analogOutput'' | Illuminance \<Rightarrow> ''illuminance'' | Presence \<Rightarrow> ''presence''
     | Temperature \<Rightarrow> ''temperature'' | Humidity \<Rightarrow> ''humidity'' | Accelerometer \<Rightarrow> ''accelerometer''
     | Barometer \<Rightarrow> ''barometer'' | Gyrometer \<Rightarrow> ''gyrometer'' | Gps \<Rightarrow> ''gps'' | Percentage \<Rightarrow> ''percentage''
     | Concentration \<Rightarrow> ''concentration'' | Power \<Rightarrow> ''power'' | Distance \<Rightarrow> ''distance''
     | Energy \<Rightarrow> ''energy'' | Direction \<Rightarrow> ''direction'' | UnixTime \<Rightarrow> ''unixTime'' | Switch \<Rightarrow> ''switch'')"

definition cayenne_series_key :: "cayenne_reading \<Rightarrow> string \<Rightarrow> string" where
  "cayenne_series_key r field =
     (if field = ''value'' then kind_name (cy_kind r) @ ''#'' @ dec_string (cy_channel r)
      else kind_name (cy_kind r) @ ''#'' @ dec_string (cy_channel r) @ ''.'' @ field)"

subsection \<open>The wire format\<close>

text \<open>A record of the format, and the reading it stands for.\<close>

type_synonym cayenne_record = "byte \<times> byte \<times> bytes"

definition record_ok :: "cayenne_record \<Rightarrow> bool" where
  "record_ok r = (case r of (_, t, d) \<Rightarrow>
     (case cayenne_spec (unat t) of None \<Rightarrow> False | Some spec \<Rightarrow> length d = ts_size spec))"

definition wire_record :: "cayenne_record \<Rightarrow> bytes" where
  "wire_record r = (case r of (c, t, d) \<Rightarrow> c # t # d)"

definition reading_of :: "cayenne_record \<Rightarrow> cayenne_reading" where
  "reading_of r = (case r of (c, t, d) \<Rightarrow>
     (let spec = the (cayenne_spec (unat t)) in
      \<lparr>cy_channel = unat c, cy_type_id = unat t, cy_kind = ts_kind spec, cy_values = ts_decode spec d,
       cy_unit = ts_unit spec\<rparr>))"

text \<open>Bytes that do not begin with a whole record of a known type.\<close>

definition no_record :: "bytes \<Rightarrow> bool" where
  "no_record bs = (case bs of c # t # rest \<Rightarrow>
       (case cayenne_spec (unat t) of None \<Rightarrow> True | Some spec \<Rightarrow> length rest < ts_size spec)
     | _ \<Rightarrow> True)"

lemma drop_two: "i + 2 \<le> length bs \<Longrightarrow> drop i bs = bs ! i # bs ! (i + 1) # drop (i + 2) bs"
  by (simp add: Cons_nth_drop_Suc)

lemma decode_stops:
  assumes "no_record (drop i bs)" "i \<le> length bs"
  shows "decode_cayenne_from bs i rs = \<lparr>cy_readings = rs, cy_truncated = (drop i bs \<noteq> [])\<rparr>"
proof (cases "i + 2 \<le> length bs")
  case True
  then show ?thesis using assms
    by (auto simp: decode_cayenne_from.simps [of bs i] no_record_def drop_two u8_at_def Let_def split: option.splits)
next
  case False
  then show ?thesis using assms by (auto simp: decode_cayenne_from.simps [of bs i])
qed

lemma decode_record:
  assumes "drop i bs = wire_record r @ rest" "record_ok r"
  shows "decode_cayenne_from bs i rs = decode_cayenne_from bs (i + length (wire_record r)) (rs @ [reading_of r])"
proof -
  obtain c t d where r: "r = (c, t, d)" by (cases r)
  obtain spec where spec: "cayenne_spec (unat t) = Some spec" "length d = ts_size spec"
    using assms(2) by (auto simp: record_ok_def r split: option.splits)
  have len: "length bs - i = 2 + length d + length rest"
    using arg_cong [OF assms(1), of length] by (simp add: wire_record_def r)
  then have le: "i + 2 \<le> length bs" by simp
  have "bs ! i = c" "bs ! (i + 1) = t" "drop (i + 2) bs = d @ rest"
    using assms(1) drop_two [OF le] by (simp_all add: wire_record_def r)
  then show ?thesis using spec len le
    by (simp add: decode_cayenne_from.simps [of bs i] u8_at_def Let_def subarray_def wire_record_def reading_of_def r)
qed

lemma decode_records:
  "drop i bs = concat (map wire_record recs) @ tail \<Longrightarrow> i \<le> length bs \<Longrightarrow> list_all record_ok recs \<Longrightarrow> no_record tail \<Longrightarrow>
     decode_cayenne_from bs i rs = \<lparr>cy_readings = rs @ map reading_of recs, cy_truncated = (tail \<noteq> [])\<rparr>"
proof (induction recs arbitrary: i rs)
  case Nil
  then show ?case using decode_stops [of i bs rs] by simp
next
  case (Cons r recs)
  let ?j = "i + length (wire_record r)"
  from Cons.prems have d: "drop i bs = wire_record r @ (concat (map wire_record recs) @ tail)" by simp
  have "drop ?j bs = drop (length (wire_record r)) (drop i bs)" by (simp add: add.commute)
  then have "drop ?j bs = concat (map wire_record recs) @ tail" unfolding d by simp
  moreover have "?j \<le> length bs"
    using arg_cong [OF d, of length] Cons.prems(2) by simp
  ultimately show ?case
    using Cons.IH [of ?j "rs @ [reading_of r]"] Cons.prems decode_record [OF d] by simp
qed

text \<open>Every byte string is a list of records and a rest that does not begin with one.\<close>

lemma cayenne_split: "\<exists>recs tail. list_all record_ok recs \<and> no_record tail \<and> bs = concat (map wire_record recs) @ tail"
proof (induction bs rule: length_induct)
  case (1 bs)
  show ?case
  proof (cases "no_record bs")
    case True
    then show ?thesis by (intro exI [of _ "[]"] exI [of _ bs]) simp
  next
    case False
    then obtain c t rest spec where bs: "bs = c # t # rest" "cayenne_spec (unat t) = Some spec" "ts_size spec \<le> length rest"
      by (auto simp: no_record_def not_less split: list.splits option.splits)
    let ?r = "(c, t, take (ts_size spec) rest)" and ?rest = "drop (ts_size spec) rest"
    have "length ?rest < length bs" by (simp add: bs(1))
    with 1 obtain recs tail where
      "list_all record_ok recs" "no_record tail" "?rest = concat (map wire_record recs) @ tail" by blast
    moreover have "record_ok ?r" using bs by (simp add: record_ok_def)
    moreover have "bs = wire_record ?r @ ?rest" by (simp add: wire_record_def bs(1))
    ultimately show ?thesis by (intro exI [of _ "?r # recs"] exI [of _ tail]) simp
  qed
qed

text \<open>
  C33: the decoder reads exactly the records of the format. For every byte string, decoding gives
  some readings and a truncation flag if and only if the bytes are a sequence of whole records of
  known types whose readings those are, followed by a rest that begins with no such record, and the
  flag says whether that rest is empty. In particular decoding always returns, whatever the bytes.
\<close>

theorem decode_cayenne_iff:
  "decode_cayenne_lpp bs = \<lparr>cy_readings = readings, cy_truncated = trunc\<rparr> \<longleftrightarrow>
     (\<exists>recs tail. list_all record_ok recs \<and> no_record tail \<and> bs = concat (map wire_record recs) @ tail
        \<and> readings = map reading_of recs \<and> trunc = (tail \<noteq> []))"
proof -
  have dec: "decode_cayenne_lpp bs = \<lparr>cy_readings = map reading_of recs, cy_truncated = (tail \<noteq> [])\<rparr>"
    if "list_all record_ok recs" "no_record tail" "bs = concat (map wire_record recs) @ tail" for recs tail
    using decode_records [of 0 bs recs tail "[]"] that by (simp add: decode_cayenne_lpp_def)
  show ?thesis
  proof
    assume d: "decode_cayenne_lpp bs = \<lparr>cy_readings = readings, cy_truncated = trunc\<rparr>"
    obtain recs tail where t: "list_all record_ok recs" "no_record tail" "bs = concat (map wire_record recs) @ tail"
      using cayenne_split by blast
    from dec [OF t] d have "readings = map reading_of recs" "trunc = (tail \<noteq> [])" by simp_all
    with t show "\<exists>recs tail. list_all record_ok recs \<and> no_record tail \<and> bs = concat (map wire_record recs) @ tail
        \<and> readings = map reading_of recs \<and> trunc = (tail \<noteq> [])" by blast
  next
    assume "\<exists>recs tail. list_all record_ok recs \<and> no_record tail \<and> bs = concat (map wire_record recs) @ tail
        \<and> readings = map reading_of recs \<and> trunc = (tail \<noteq> [])"
    with dec show "decode_cayenne_lpp bs = \<lparr>cy_readings = readings, cy_truncated = trunc\<rparr>" by blast
  qed
qed

end
