(* ===== verification/Release_Version.thy ===== *)
theory Release_Version
  imports Mesh_Prelude Js_String
begin

text \<open>
  The choice of the latest published release (\<^verbatim>\<open>src/shared/githubReleaseVersion.ts\<close>). The rows come
  from a web service, so their fields have any type; an exception is a \<open>release_error\<close>. A regular
  expression \<^verbatim>\<open>^v(\d+)\.(\d+)\.(\d+)$\<close> is a split at the dots into three parts of digits.
\<close>

datatype release_value = RvUndefined | RvNull | RvBool bool | RvString string | RvOther

record release_row =
  rr_tag_name :: release_value
  rr_name :: release_value
  rr_draft :: release_value
  rr_prerelease :: release_value
  rr_html_url :: release_value

record release_pick =
  rp_tag :: string
  rp_version :: string
  rp_release_url :: string

datatype release_error = UnsafeComponent | UnsafeTag

definition max_safe_integer :: nat where "max_safe_integer = 9007199254740991"

definition all_digits :: "string \<Rightarrow> bool" where
  "all_digits s \<longleftrightarrow> s \<noteq> [] \<and> list_all is_digit s"

definition has_release_visibility_fields :: "release_row \<Rightarrow> bool" where
  "has_release_visibility_fields r \<longleftrightarrow>
     (case (rr_draft r, rr_prerelease r) of (RvBool _, RvBool _) \<Rightarrow> True | _ \<Rightarrow> False)"

definition trusted_semver_component :: "string \<Rightarrow> release_error + nat" where
  "trusted_semver_component raw =
     (if \<not> all_digits raw then Inl UnsafeComponent
      else if dec_value raw > max_safe_integer then Inl UnsafeComponent
      else Inr (dec_value raw))"

text \<open>The three groups of \<^verbatim>\<open>X.Y.Z\<close>.\<close>

definition safe_release_name :: "string \<Rightarrow> (string \<times> string \<times> string) option" where
  "safe_release_name s =
     (case js_split (CHR ''.'') s of
        [a, b, c] \<Rightarrow> if all_digits a \<and> all_digits b \<and> all_digits c then Some (a, b, c) else None
      | _ \<Rightarrow> None)"

definition tag_groups :: "string \<Rightarrow> (string \<times> string \<times> string) option" where
  "tag_groups s = (case s of [] \<Rightarrow> None | c # rest \<Rightarrow> if c = CHR ''v'' then safe_release_name rest else None)"

definition version_text :: "nat \<Rightarrow> nat \<Rightarrow> nat \<Rightarrow> string" where
  "version_text a b c = dec_string a @ ''.'' @ dec_string b @ ''.'' @ dec_string c"

definition trusted_version :: "string \<times> string \<times> string \<Rightarrow> release_error + string" where
  "trusted_version g =
     (case g of (a, b, c) \<Rightarrow>
       (case trusted_semver_component a of
          Inl e \<Rightarrow> Inl e
        | Inr x \<Rightarrow>
            (case trusted_semver_component b of
               Inl e \<Rightarrow> Inl e
             | Inr y \<Rightarrow>
                 (case trusted_semver_component c of
                    Inl e \<Rightarrow> Inl e
                  | Inr z \<Rightarrow> Inr (CHR ''v'' # version_text x y z)))))"

definition trusted_release_tag :: "release_value \<Rightarrow> release_error + string" where
  "trusted_release_tag tag =
     (case tag of
        RvString s \<Rightarrow> (case tag_groups s of None \<Rightarrow> Inl UnsafeTag | Some g \<Rightarrow> trusted_version g)
      | _ \<Rightarrow> Inl UnsafeTag)"

definition tag_numbers :: "string \<Rightarrow> nat list" where
  "tag_numbers trusted = map dec_value (js_split (CHR ''.'') (drop 1 trusted))"

definition part_at :: "nat list \<Rightarrow> nat \<Rightarrow> int" where
  "part_at ns i = (case at_opt ns i of None \<Rightarrow> 0 | Some n \<Rightarrow> int n)"

text \<open>The loop over the parts \<open>i .. 2\<close>.\<close>

fun compare_parts :: "nat list \<Rightarrow> nat list \<Rightarrow> nat list \<Rightarrow> int" where
  "compare_parts pa pb [] = 0"
| "compare_parts pa pb (i # is) =
     (if part_at pa i \<noteq> part_at pb i then part_at pa i - part_at pb i else compare_parts pa pb is)"

definition compare_release_tags :: "string \<Rightarrow> string \<Rightarrow> release_error + int" where
  "compare_release_tags a b =
     (case trusted_release_tag (RvString a) of
        Inl e \<Rightarrow> Inl e
      | Inr ta \<Rightarrow>
          (case trusted_release_tag (RvString b) of
             Inl e \<Rightarrow> Inl e
           | Inr tb \<Rightarrow> Inr (compare_parts (tag_numbers ta) (tag_numbers tb) [0, 1, 2])))"

definition is_untagged_placeholder_tag :: "release_value \<Rightarrow> bool" where
  "is_untagged_placeholder_tag tag =
     (case tag of RvString s \<Rightarrow> js_lower (take 9 s) = ''untagged-'' | _ \<Rightarrow> False)"

definition release_git_tag_from_row ::
    "release_row option \<Rightarrow> bool \<Rightarrow> bool \<Rightarrow> release_error + string option" where
  "release_git_tag_from_row release include_drafts include_prereleases =
     (case release of
        None \<Rightarrow> Inr None
      | Some r \<Rightarrow>
          (if \<not> has_release_visibility_fields r then Inr None
           else if \<not> include_drafts \<and> rr_draft r = RvBool True then Inr None
           else if \<not> include_prereleases \<and> rr_prerelease r = RvBool True then Inr None
           else if (case rr_tag_name r of RvString s \<Rightarrow> tag_groups s \<noteq> None | _ \<Rightarrow> False)
           then map_sum id Some (trusted_release_tag (rr_tag_name r))
           else
             (let tag = rr_tag_name r;
                  tag_missing = (tag = RvUndefined \<or> tag = RvNull \<or> tag = RvString []);
                  tag_untagged = is_untagged_placeholder_tag tag
              in if \<not> tag_missing \<and> \<not> tag_untagged then Inr None
                 else case rr_name r of
                     RvString nm \<Rightarrow>
                       (case safe_release_name nm of
                          None \<Rightarrow> Inr None
                        | Some g \<Rightarrow>
                            (case trusted_version g of
                               Inl e \<Rightarrow> Inl e
                             | Inr t \<Rightarrow> map_sum id Some (trusted_release_tag (RvString t))))
                   | _ \<Rightarrow> Inr None)))"

definition published_release_git_tag :: "release_row option \<Rightarrow> release_error + string option" where
  "published_release_git_tag release = release_git_tag_from_row release False False"

definition version_from_trusted_tag :: "string \<Rightarrow> release_error + string" where
  "version_from_trusted_tag tag = map_sum id (drop 1) (trusted_release_tag (RvString tag))"

fun release_candidates :: "release_row list \<Rightarrow> string option \<Rightarrow> release_error + release_pick list" where
  "release_candidates [] exclude = Inr []"
| "release_candidates (r # rs) exclude =
     (case published_release_git_tag (Some r) of
        Inl e \<Rightarrow> Inl e
      | Inr None \<Rightarrow> release_candidates rs exclude
      | Inr (Some tag) \<Rightarrow>
          (if tag = [] \<or> (case exclude of None \<Rightarrow> False | Some x \<Rightarrow> x \<noteq> [] \<and> tag = x)
           then release_candidates rs exclude
           else case rr_html_url r of
               RvString url \<Rightarrow>
                 (if url = [] then release_candidates rs exclude
                  else case version_from_trusted_tag tag of
                      Inl e \<Rightarrow> Inl e
                    | Inr v \<Rightarrow> map_sum id (\<lambda>cs. \<lparr>rp_tag = tag, rp_version = v, rp_release_url = url\<rparr> # cs)
                        (release_candidates rs exclude))
             | _ \<Rightarrow> release_candidates rs exclude))"

text \<open>\<^verbatim>\<open>Array.prototype.sort\<close> is stable; with a consistent comparator it is the stable insertion sort.\<close>

fun insort_cmp :: "('a \<Rightarrow> 'a \<Rightarrow> int) \<Rightarrow> 'a \<Rightarrow> 'a list \<Rightarrow> 'a list" where
  "insort_cmp cmp x [] = [x]"
| "insort_cmp cmp x (y # ys) = (if cmp x y \<le> 0 then x # y # ys else y # insort_cmp cmp x ys)"

definition js_sort :: "('a \<Rightarrow> 'a \<Rightarrow> int) \<Rightarrow> 'a list \<Rightarrow> 'a list" where
  "js_sort cmp xs = foldr (insort_cmp cmp) xs []"

text \<open>The tags of the candidates are trusted, so comparing them does not raise.\<close>

definition newer_first :: "release_pick \<Rightarrow> release_pick \<Rightarrow> int" where
  "newer_first a b = (case compare_release_tags (rp_tag b) (rp_tag a) of Inl _ \<Rightarrow> 0 | Inr n \<Rightarrow> n)"

definition pick_latest_published_release ::
    "release_row list \<Rightarrow> string option \<Rightarrow> release_error + release_pick option" where
  "pick_latest_published_release releases exclude =
     (case release_candidates releases exclude of
        Inl e \<Rightarrow> Inl e
      | Inr cs \<Rightarrow> (if length cs = 0 then Inr None else Inr (at_opt (js_sort newer_first cs) 0)))"

definition strip_leading_v :: "string \<Rightarrow> string" where
  "strip_leading_v s = (case s of [] \<Rightarrow> [] | c # cs \<Rightarrow> if c = CHR ''v'' then cs else s)"

definition semver_gt :: "string \<Rightarrow> string \<Rightarrow> release_error + bool" where
  "semver_gt remote local =
     map_sum id (\<lambda>n. n > 0) (compare_release_tags (CHR ''v'' # strip_leading_v remote) (CHR ''v'' # strip_leading_v local))"

subsection \<open>Trusted tags\<close>

definition version_tag :: "nat \<times> nat \<times> nat \<Rightarrow> string" where
  "version_tag v = (case v of (x, y, z) \<Rightarrow> CHR ''v'' # version_text x y z)"

definition safe_version :: "nat \<times> nat \<times> nat \<Rightarrow> bool" where
  "safe_version v = (case v of (x, y, z) \<Rightarrow> x \<le> max_safe_integer \<and> y \<le> max_safe_integer \<and> z \<le> max_safe_integer)"

lemma dec_string_no_dot: "CHR ''.'' \<notin> set (dec_string n)"
  using dec_string_digits [of n] by (auto simp: is_digit_def code_def)

lemma split_version_text: "js_split (CHR ''.'') (version_text x y z) = [dec_string x, dec_string y, dec_string z]"
  by (simp add: version_text_def js_split_append js_split_no_sep dec_string_no_dot)

lemma all_digits_dec_string [simp]: "all_digits (dec_string n)"
  using dec_string_digits [of n] by (simp add: all_digits_def list_all_iff)

lemma component_safe: "trusted_semver_component raw = Inr n \<Longrightarrow> n \<le> max_safe_integer"
  by (auto simp: trusted_semver_component_def split: if_splits)

lemma trusted_version_safe:
  assumes "trusted_version g = Inr t"
  shows "\<exists>v. safe_version v \<and> t = version_tag v"
proof -
  obtain a b c where "g = (a, b, c)" by (cases g)
  with assms obtain x y z where "trusted_semver_component a = Inr x" "trusted_semver_component b = Inr y"
    "trusted_semver_component c = Inr z" "t = CHR ''v'' # version_text x y z"
    by (auto simp: trusted_version_def split: sum.splits)
  then have "safe_version (x, y, z) \<and> t = version_tag (x, y, z)"
    by (simp add: safe_version_def version_tag_def component_safe)
  then show ?thesis by blast
qed

lemma trusted_release_tag_safe: "trusted_release_tag x = Inr t \<Longrightarrow> \<exists>v. safe_version v \<and> t = version_tag v"
  by (auto simp: trusted_release_tag_def dest!: trusted_version_safe split: release_value.splits option.splits)

lemma trusted_version_tag: "safe_version v \<Longrightarrow> trusted_release_tag (RvString (version_tag v)) = Inr (version_tag v)"
  by (cases v) (simp add: trusted_release_tag_def version_tag_def tag_groups_def safe_release_name_def
      split_version_text trusted_version_def trusted_semver_component_def safe_version_def)

lemma tag_numbers_version: "tag_numbers (version_tag (x, y, z)) = [x, y, z]"
  by (simp add: tag_numbers_def version_tag_def split_version_text)

text \<open>The order of versions, most significant part first.\<close>

definition version_le :: "nat \<times> nat \<times> nat \<Rightarrow> nat \<times> nat \<times> nat \<Rightarrow> bool" where
  "version_le v w = (case (v, w) of ((a, b, c), (x, y, z)) \<Rightarrow> a < x \<or> a = x \<and> (b < y \<or> b = y \<and> c \<le> z))"

lemma version_le_refl [simp]: "version_le v v"
  by (simp add: version_le_def split: prod.splits)

lemma version_le_trans: "version_le u v \<Longrightarrow> version_le v w \<Longrightarrow> version_le u w"
  by (auto simp: version_le_def split: prod.splits)

lemma version_le_total: "version_le v w \<or> version_le w v"
  by (auto simp: version_le_def split: prod.splits)

lemma compare_versions:
  assumes "safe_version v" "safe_version w"
  shows "\<exists>n. compare_release_tags (version_tag v) (version_tag w) = Inr n
    \<and> (n \<le> 0 \<longleftrightarrow> version_le v w) \<and> (0 \<le> n \<longleftrightarrow> version_le w v)"
proof -
  obtain a b c x y z where "v = (a, b, c)" "w = (x, y, z)" by (cases v, cases w)
  with assms show ?thesis
    by (auto simp: compare_release_tags_def trusted_version_tag tag_numbers_version part_at_def at_opt_def
        version_le_def)
qed

subsection \<open>Sorting\<close>

lemma set_insort_cmp [simp]: "set (insort_cmp cmp x ys) = insert x (set ys)"
  by (induction ys) auto

lemma set_js_sort [simp]: "set (js_sort cmp xs) = set xs"
  unfolding js_sort_def by (induction xs) simp_all

definition cmp_order :: "('a \<Rightarrow> 'a \<Rightarrow> int) \<Rightarrow> 'a set \<Rightarrow> bool" where
  "cmp_order cmp S \<longleftrightarrow>
     (\<forall>a \<in> S. \<forall>b \<in> S. \<forall>c \<in> S. cmp a b \<le> 0 \<longrightarrow> cmp b c \<le> 0 \<longrightarrow> cmp a c \<le> 0)
     \<and> (\<forall>a \<in> S. \<forall>b \<in> S. cmp a b \<le> 0 \<or> cmp b a \<le> 0)"

lemma cmp_order_mono: "cmp_order cmp T \<Longrightarrow> S \<subseteq> T \<Longrightarrow> cmp_order cmp S"
  unfolding cmp_order_def by (meson subsetD)

lemma cmp_orderD:
  "cmp_order cmp S \<Longrightarrow> a \<in> S \<Longrightarrow> b \<in> S \<Longrightarrow> c \<in> S \<Longrightarrow> cmp a b \<le> 0 \<Longrightarrow> cmp b c \<le> 0 \<Longrightarrow> cmp a c \<le> 0"
  "cmp_order cmp S \<Longrightarrow> a \<in> S \<Longrightarrow> b \<in> S \<Longrightarrow> \<not> cmp a b \<le> 0 \<Longrightarrow> cmp b a \<le> 0"
  unfolding cmp_order_def by blast+

lemma sorted_insort_cmp:
  "cmp_order cmp (insert x (set ys)) \<Longrightarrow> sorted_wrt (\<lambda>a b. cmp a b \<le> 0) ys \<Longrightarrow>
     sorted_wrt (\<lambda>a b. cmp a b \<le> 0) (insort_cmp cmp x ys)"
proof (induction ys)
  case (Cons y ys)
  show ?case
  proof (cases "cmp x y \<le> 0")
    case True
    have "cmp x z \<le> 0" if "z \<in> set ys" for z
      using cmp_orderD(1) [OF Cons.prems(1), of x y z] True that Cons.prems(2) by simp
    with True Cons.prems(2) show ?thesis by simp
  next
    case False
    have "cmp y x \<le> 0" using cmp_orderD(2) [OF Cons.prems(1), of x y] False by simp
    moreover have "sorted_wrt (\<lambda>a b. cmp a b \<le> 0) (insort_cmp cmp x ys)"
      using Cons.prems by (intro Cons.IH) (auto elim: cmp_order_mono)
    ultimately show ?thesis using False Cons.prems(2) by simp
  qed
qed simp

lemma js_sort_Cons [simp]: "js_sort cmp (x # xs) = insort_cmp cmp x (js_sort cmp xs)"
  by (simp add: js_sort_def)

lemma js_sort_sorted: "cmp_order cmp (set xs) \<Longrightarrow> sorted_wrt (\<lambda>a b. cmp a b \<le> 0) (js_sort cmp xs)"
proof (induction xs)
  case (Cons x xs)
  have "cmp_order cmp (set xs)" by (rule cmp_order_mono [OF Cons.prems]) auto
  from sorted_insort_cmp [OF _ Cons.IH [OF this]] Cons.prems show ?case by simp
qed (simp add: js_sort_def)

subsection \<open>The latest release\<close>

text \<open>What a row offers: its tag, version and page, if it is published, linked and not excluded.\<close>

definition offer_of :: "string option \<Rightarrow> release_row \<Rightarrow> release_pick option" where
  "offer_of exclude r =
     (case published_release_git_tag (Some r) of
        Inr (Some tag) \<Rightarrow>
          (case rr_html_url r of
             RvString url \<Rightarrow> if url = [] \<or> exclude = Some tag then None
               else Some \<lparr>rp_tag = tag, rp_version = drop 1 tag, rp_release_url = url\<rparr>
           | _ \<Rightarrow> None)
      | _ \<Rightarrow> None)"

lemma map_sum_Inr: "map_sum id f x = Inr y \<longleftrightarrow> (\<exists>z. x = Inr z \<and> y = f z)"
  by (cases x) auto

lemma published_tag_safe: "published_release_git_tag r = Inr (Some t) \<Longrightarrow> \<exists>v. safe_version v \<and> t = version_tag v"
  by (auto simp: published_release_git_tag_def release_git_tag_from_row_def Let_def map_sum_Inr
      split: option.splits if_splits release_value.splits sum.splits dest!: trusted_release_tag_safe)

lemma published_tag_visible:
  "published_release_git_tag (Some r) = Inr (Some t) \<Longrightarrow> rr_draft r = RvBool False \<and> rr_prerelease r = RvBool False"
  by (auto simp: published_release_git_tag_def release_git_tag_from_row_def has_release_visibility_fields_def
      split: if_splits release_value.splits)

lemma release_candidates_offers:
  "release_candidates rs exclude = Inr cs \<Longrightarrow> cs = List.map_filter (offer_of exclude) rs"
proof (induction rs arbitrary: cs)
  case (Cons r rs)
  show ?case
  proof (cases "published_release_git_tag (Some r)")
    case (Inl e)
    with Cons.prems show ?thesis by simp
  next
    case (Inr topt)
    show ?thesis
    proof (cases topt)
      case None
      with Inr Cons show ?thesis by (simp add: map_filter_simps offer_of_def)
    next
      case (Some tag)
      obtain v where v: "safe_version v" "tag = version_tag v" using published_tag_safe Inr Some by blast
      have ne: "tag \<noteq> []" by (cases v) (simp add: v(2) version_tag_def)
      have ver: "version_from_trusted_tag tag = Inr (drop 1 tag)"
        by (simp add: version_from_trusted_tag_def v trusted_version_tag)
      from Inr Some Cons ne ver show ?thesis
        by (auto simp: map_filter_simps offer_of_def map_sum_Inr split: option.splits if_splits release_value.splits)
    qed
  qed
qed (simp add: map_filter_simps)

lemma offer_published: "offer_of exclude r = Some p \<Longrightarrow> published_release_git_tag (Some r) = Inr (Some (rp_tag p))"
  by (auto simp: offer_of_def split: sum.splits option.splits release_value.splits if_splits)

lemma offer_safe: "offer_of exclude r = Some p \<Longrightarrow> \<exists>v. safe_version v \<and> rp_tag p = version_tag v"
  by (rule published_tag_safe [OF offer_published])

lemma newer_first_versions:
  "safe_version v \<Longrightarrow> safe_version w \<Longrightarrow> rp_tag p = version_tag v \<Longrightarrow> rp_tag q = version_tag w \<Longrightarrow>
     newer_first p q \<le> 0 \<longleftrightarrow> version_le w v"
  using compare_versions [of w v] by (auto simp: newer_first_def)

lemma newer_first_order:
  assumes "\<forall>p \<in> S. \<exists>v. safe_version v \<and> rp_tag p = version_tag v"
  shows "cmp_order newer_first S"
proof -
  from assms obtain f where f: "\<forall>p \<in> S. safe_version (f p) \<and> rp_tag p = version_tag (f p)" by metis
  then have "newer_first p q \<le> 0 \<longleftrightarrow> version_le (f q) (f p)" if "p \<in> S" "q \<in> S" for p q
    using newer_first_versions that by blast
  then show ?thesis unfolding cmp_order_def using version_le_trans version_le_total by blast
qed

text \<open>
  The release offered for an update is the newest published one. When the choice succeeds with
  a release, it comes from a row of the list that is neither draft nor prerelease, has a page and is
  not the excluded tag, its tag is \<^verbatim>\<open>vX.Y.Z\<close> with its version as the rest, and no row of the list
  offers a greater version, compared as numbers part by part, the first part first (so \<^verbatim>\<open>1.10.0\<close> is after
  \<^verbatim>\<open>1.9.0\<close>); it succeeds without a release only if no row offers one.
\<close>

theorem pick_latest_release:
  assumes "pick_latest_published_release releases exclude = Inr picked"
  shows "case picked of
      None \<Rightarrow> list_all (\<lambda>r. offer_of exclude r = None) releases
    | Some p \<Rightarrow>
        (\<exists>r \<in> set releases. offer_of exclude r = Some p \<and> rr_draft r = RvBool False \<and> rr_prerelease r = RvBool False)
        \<and> (\<exists>x y z. rp_tag p = CHR ''v'' # version_text x y z \<and> rp_version p = version_text x y z)
        \<and> exclude \<noteq> Some (rp_tag p)
        \<and> list_all (\<lambda>r. case offer_of exclude r of None \<Rightarrow> True
            | Some q \<Rightarrow> \<exists>v w. rp_tag p = version_tag v \<and> rp_tag q = version_tag w \<and> version_le w v) releases"
proof -
  obtain cs where cs: "release_candidates releases exclude = Inr cs"
    using assms by (auto simp: pick_latest_published_release_def split: sum.splits)
  have eq: "cs = List.map_filter (offer_of exclude) releases" by (rule release_candidates_offers [OF cs])
  have mem: "q \<in> set cs \<longleftrightarrow> (\<exists>r \<in> set releases. offer_of exclude r = Some q)" for q
    unfolding eq by (induction releases) (auto simp: map_filter_simps split: option.splits)
  show ?thesis
  proof (cases "cs = []")
    case True
    then have "picked = None" using assms by (simp add: pick_latest_published_release_def cs)
    moreover have "offer_of exclude r = None" if "r \<in> set releases" for r
      using mem True that by (cases "offer_of exclude r") auto
    ultimately show ?thesis by (simp add: list_all_iff)
  next
    case False
    let ?sorted = "js_sort newer_first cs"
    have ne: "?sorted \<noteq> []" using False by (metis set_empty set_js_sort)
    then obtain p ps where sorted: "?sorted = p # ps" by (cases ?sorted) auto
    then have picked: "picked = Some p"
      using assms False by (simp add: pick_latest_published_release_def cs)
    have safe: "\<forall>q \<in> set cs. \<exists>v. safe_version v \<and> rp_tag q = version_tag v"
      using mem offer_safe by blast
    have p: "p \<in> set cs" using sorted by (metis list.set_intros(1) set_js_sort)
    have first: "newer_first p q \<le> 0" if "q \<in> set cs" for q
    proof -
      from safe p obtain v where "safe_version v" "rp_tag p = version_tag v" by blast
      then have "newer_first p p \<le> 0" by (simp add: newer_first_versions)
      moreover have "q = p \<or> q \<in> set ps" using that sorted by (metis set_ConsD set_js_sort)
      ultimately show ?thesis
        using js_sort_sorted [OF newer_first_order [OF safe]] sorted by auto
    qed
    obtain r where r: "r \<in> set releases" "offer_of exclude r = Some p" using mem p by blast
    then have vis: "rr_draft r = RvBool False \<and> rr_prerelease r = RvBool False" "exclude \<noteq> Some (rp_tag p)"
      "rp_version p = drop 1 (rp_tag p)"
      by (auto simp: offer_of_def dest: published_tag_visible split: sum.splits option.splits release_value.splits if_splits)
    obtain x y z where xyz: "safe_version (x, y, z)" "rp_tag p = version_tag (x, y, z)" using safe p by (metis prod_cases3)
    have "case offer_of exclude r' of None \<Rightarrow> True
        | Some q \<Rightarrow> \<exists>v w. rp_tag p = version_tag v \<and> rp_tag q = version_tag w \<and> version_le w v"
      if "r' \<in> set releases" for r'
    proof (cases "offer_of exclude r'")
      case (Some q)
      then have q: "q \<in> set cs" using mem that by blast
      with safe obtain w where w: "safe_version w" "rp_tag q = version_tag w" by blast
      from first [OF q] have "version_le w (x, y, z)" using newer_first_versions [OF xyz(1) w(1) xyz(2) w(2)] by blast
      with xyz(2) w(2) have "\<exists>v w. rp_tag p = version_tag v \<and> rp_tag q = version_tag w \<and> version_le w v" by blast
      with Some show ?thesis by simp
    qed simp
    with r vis xyz picked show ?thesis
      by (auto simp: list_all_iff version_tag_def)
  qed
qed

definition demo_releases :: "release_row list" where
  "demo_releases = map (\<lambda>(v, draft). \<lparr>rr_tag_name = RvString (version_tag v), rr_name = RvNull, rr_draft = RvBool draft,
       rr_prerelease = RvBool False, rr_html_url = RvString ''page''\<rparr>)
     [((1, 9, 0), False), ((1, 10, 0), False), ((2, 0, 0), True)]"

lemma tag_groups_version: "\<exists>g. tag_groups (version_tag v) = Some g"
  by (cases v) (simp add: version_tag_def tag_groups_def safe_release_name_def split_version_text)

lemma version_tag_neq_Nil: "version_tag v \<noteq> []"
  by (cases v) (simp add: version_tag_def)

lemma published_version_tag:
  "safe_version v \<Longrightarrow> published_release_git_tag (Some \<lparr>rr_tag_name = RvString (version_tag v), rr_name = nm,
     rr_draft = RvBool False, rr_prerelease = RvBool False, rr_html_url = u\<rparr>) = Inr (Some (version_tag v))"
  using tag_groups_version [of v]
  by (auto simp: published_release_git_tag_def release_git_tag_from_row_def has_release_visibility_fields_def
      trusted_version_tag)

lemma demo_releases_pick: "pick_latest_published_release demo_releases None
    = Inr (Some \<lparr>rp_tag = version_tag (1, 10, 0), rp_version = drop 1 (version_tag (1, 10, 0)), rp_release_url = ''page''\<rparr>)"
proof -
  have safe: "safe_version (1, 9, 0)" "safe_version (1, 10, 0)" by (simp_all add: safe_version_def max_safe_integer_def)
  have draft: "published_release_git_tag (Some \<lparr>rr_tag_name = RvString (version_tag (2, 0, 0)), rr_name = RvNull,
     rr_draft = RvBool True, rr_prerelease = RvBool False, rr_html_url = RvString ''page''\<rparr>) = Inr None"
    by (simp add: published_release_git_tag_def release_git_tag_from_row_def has_release_visibility_fields_def)
  show ?thesis using safe
    by (simp add: pick_latest_published_release_def demo_releases_def published_version_tag draft version_tag_neq_Nil
        version_from_trusted_tag_def trusted_version_tag newer_first_def compare_release_tags_def tag_numbers_version
        part_at_def at_opt_def js_sort_def del: One_nat_def)
qed

lemma pick_latest_release_witness:
  "\<exists>r \<in> set demo_releases. rr_draft r = RvBool False
     \<and> pick_latest_published_release demo_releases None
       = Inr (Some \<lparr>rp_tag = version_tag (1, 10, 0), rp_version = drop 1 (version_tag (1, 10, 0)), rp_release_url = ''page''\<rparr>)"
  using pick_latest_release [OF demo_releases_pick] demo_releases_pick by auto

end
