(* ===== verification/Tx_Echo_Filter.thy ===== *)
theory Tx_Echo_Filter
  imports Mesh_Prelude
begin

text \<open>
  The filter of echoed companion frames (\<^verbatim>\<open>src/renderer/lib/meshcoreCompanionTxEchoFilter.ts\<close>): an
  inbound frame equal to a recently sent one is dropped, and a lone \<^verbatim>\<open>0x0a\<close>, which may be the echo of
  \<^verbatim>\<open>SyncNextMessage\<close> or the answer \<^verbatim>\<open>NoMoreMessages\<close>, is held until the next frame or a timer
  decides. The timer is a flag of the state, its callback an event; a cleared timer does not fire.
\<close>

definition MC_RESP_NO_MORE_MESSAGES :: byte where "MC_RESP_NO_MORE_MESSAGES = 10"
definition TX_ECHO_TTL_MS :: int where "TX_ECHO_TTL_MS = 500"
definition MAX_RECENT_TX :: nat where "MAX_RECENT_TX = 16"

record echo_filter =
  ef_recent :: "(bytes \<times> millis) list"
  ef_pending_sync_next :: bool
  ef_held :: "bytes option"
  ef_hold_timer :: bool

definition echo_init :: echo_filter where
  "echo_init = \<lparr>ef_recent = [], ef_pending_sync_next = False, ef_held = None, ef_hold_timer = False\<rparr>"

datatype echo_decision = EchoDrop | EchoHold | EchoDeliver

definition is_lone_no_more :: "bytes \<Rightarrow> bool" where
  "is_lone_no_more frame \<longleftrightarrow> length frame = 1 \<and> frame ! 0 = MC_RESP_NO_MORE_MESSAGES"

text \<open>\<^verbatim>\<open>framesEqual\<close> compares lengths, then byte by byte.\<close>

definition frames_equal :: "bytes \<Rightarrow> bytes \<Rightarrow> bool" where
  "frames_equal a b \<longleftrightarrow> length a = length b \<and> list_all (\<lambda>i. a ! i = b ! i) [0..<length a]"

definition ef_prune :: "millis \<Rightarrow> echo_filter \<Rightarrow> echo_filter" where
  "ef_prune now s = s\<lparr>ef_recent := filter (\<lambda>(_, t). now - t \<le> TX_ECHO_TTL_MS) (ef_recent s)\<rparr>"

definition note_outbound :: "bytes \<Rightarrow> millis \<Rightarrow> echo_filter \<Rightarrow> echo_filter" where
  "note_outbound frame now s =
     (let s1 = ef_prune now s;
          pushed = ef_recent s1 @ [(frame, now)];
          s2 = s1\<lparr>ef_recent := (if length pushed > MAX_RECENT_TX then tl pushed else pushed)\<rparr>
      in if is_lone_no_more frame then s2\<lparr>ef_pending_sync_next := True\<rparr> else s2)"

definition is_echo :: "bytes \<Rightarrow> millis \<Rightarrow> echo_filter \<Rightarrow> bool \<times> echo_filter" where
  "is_echo inbound now s =
     (if is_lone_no_more inbound then (False, s)
      else let s1 = ef_prune now s in (list_ex (\<lambda>(frame, _). frames_equal frame inbound) (ef_recent s1), s1))"

definition clear_hold :: "echo_filter \<Rightarrow> echo_filter" where
  "clear_hold s = s\<lparr>ef_hold_timer := False, ef_held := None\<rparr>"

text \<open>The part of \<^verbatim>\<open>ingest\<close> after the test for a held frame.\<close>

definition ingest_unheld :: "bytes \<Rightarrow> millis \<Rightarrow> echo_filter \<Rightarrow> echo_decision \<times> echo_filter" where
  "ingest_unheld inbound now s =
     (if ef_pending_sync_next s \<and> is_lone_no_more inbound
      then (EchoHold, s\<lparr>ef_held := Some inbound, ef_hold_timer := True\<rparr>)
      else case is_echo inbound now s of
        (echo, s1) \<Rightarrow> (if echo then EchoDrop else EchoDeliver, s1))"

definition ingest :: "bytes \<Rightarrow> millis \<Rightarrow> echo_filter \<Rightarrow> echo_decision \<times> echo_filter" where
  "ingest inbound now s =
     (if ef_held s \<noteq> None then
        (case is_echo inbound now s of
           (echo, s1) \<Rightarrow>
             (if echo then (EchoDrop, s1)
              else let s2 = clear_hold s1 in
                if length inbound > 1 then (EchoDeliver, s2)
                else if is_lone_no_more inbound then (EchoDeliver, s2\<lparr>ef_pending_sync_next := False\<rparr>)
                else ingest_unheld inbound now s2))
      else ingest_unheld inbound now s)"

text \<open>The callback of the hold timer; the result is the frame it delivers.\<close>

definition hold_expired :: "echo_filter \<Rightarrow> bytes option \<times> echo_filter" where
  "hold_expired s =
     (if \<not> ef_hold_timer s then (None, s)
      else (ef_held s, s\<lparr>ef_held := None, ef_hold_timer := False, ef_pending_sync_next := False\<rparr>))"

subsection \<open>The patched connection\<close>

text \<open>What passes a patched connection, and the frames that reach the receiver behind it.\<close>

datatype echo_event = SendFrame bytes millis | RecvFrame bytes millis | HoldTimer

fun echo_step :: "echo_event \<Rightarrow> echo_filter \<times> bytes list \<Rightarrow> echo_filter \<times> bytes list" where
  "echo_step (SendFrame f t) (s, out) = (note_outbound f t s, out)"
| "echo_step (RecvFrame f t) (s, out) =
     (case ingest f t s of (d, s') \<Rightarrow> (s', if d = EchoDeliver then out @ [f] else out))"
| "echo_step HoldTimer (s, out) =
     (case hold_expired s of (held, s') \<Rightarrow> (s', case held of None \<Rightarrow> out | Some f \<Rightarrow> out @ [f]))"

definition echo_run :: "echo_event list \<Rightarrow> echo_filter \<times> bytes list" where
  "echo_run es = fold echo_step es (echo_init, [])"

fun inbound_of :: "echo_event list \<Rightarrow> bytes list" where
  "inbound_of [] = []"
| "inbound_of (RecvFrame f t # es) = f # inbound_of es"
| "inbound_of (_ # es) = inbound_of es"

fun outbound_of :: "echo_event list \<Rightarrow> bytes list" where
  "outbound_of [] = []"
| "outbound_of (SendFrame f t # es) = f # outbound_of es"
| "outbound_of (_ # es) = outbound_of es"

lemma inbound_of_append [simp]: "inbound_of (es @ fs) = inbound_of es @ inbound_of fs"
  by (induction es rule: inbound_of.induct) auto

lemma outbound_of_append [simp]: "outbound_of (es @ fs) = outbound_of es @ outbound_of fs"
  by (induction es rule: outbound_of.induct) auto

lemma frames_equal_iff [simp]: "frames_equal a b \<longleftrightarrow> a = b"
  by (auto simp: frames_equal_def list_all_iff intro: nth_equalityI)

text \<open>A frame that is certainly no echo.\<close>

definition never_sent :: "bytes list \<Rightarrow> bytes \<Rightarrow> bool" where
  "never_sent sent f \<longleftrightarrow> \<not> is_lone_no_more f \<and> f \<notin> set sent"

definition held_frames :: "echo_filter \<Rightarrow> bytes list" where
  "held_frames s = (case ef_held s of None \<Rightarrow> [] | Some f \<Rightarrow> [f])"

definition echo_inv :: "echo_event list \<Rightarrow> echo_filter \<times> bytes list \<Rightarrow> bool" where
  "echo_inv es st \<longleftrightarrow> (case st of (s, out) \<Rightarrow>
     fst ` set (ef_recent s) \<subseteq> set (outbound_of es) \<and> length (ef_recent s) \<le> MAX_RECENT_TX
     \<and> (ef_held s = None \<or> ef_hold_timer s \<and> (\<exists>f. ef_held s = Some f \<and> is_lone_no_more f))
     \<and> subseq (out @ held_frames s) (inbound_of es))"

lemma is_echo_snd: "ef_recent (snd (is_echo f t s)) = filter (\<lambda>(_, u). is_lone_no_more f \<or> t - u \<le> TX_ECHO_TTL_MS) (ef_recent s)"
  by (simp add: is_echo_def ef_prune_def Let_def)

lemma is_echo_fields:
  "ef_held (snd (is_echo f t s)) = ef_held s" "ef_hold_timer (snd (is_echo f t s)) = ef_hold_timer s"
  "ef_pending_sync_next (snd (is_echo f t s)) = ef_pending_sync_next s"
  by (simp_all add: is_echo_def ef_prune_def Let_def)

lemma is_echo_sent: "fst (is_echo f t s) \<Longrightarrow> f \<in> fst ` set (ef_recent s) \<and> \<not> is_lone_no_more f"
  by (force simp: is_echo_def ef_prune_def Let_def list_ex_iff split: if_splits)

lemma is_echo_recent: "set (ef_recent (snd (is_echo f t s))) \<subseteq> set (ef_recent s)"
  "length (ef_recent (snd (is_echo f t s))) \<le> length (ef_recent s)"
  by (auto simp: is_echo_snd)

lemma clear_hold_fields [simp]:
  "ef_held (clear_hold s) = None" "ef_recent (clear_hold s) = ef_recent s"
  "ef_pending_sync_next (clear_hold s) = ef_pending_sync_next s"
  by (simp_all add: clear_hold_def)

lemma lone_length: "is_lone_no_more f \<Longrightarrow> length f = 1"
  by (simp add: is_lone_no_more_def)

lemma ingest_unheld_spec:
  assumes "ingest_unheld f t s = (d, s')" "ef_held s = None"
  shows "set (ef_recent s') \<subseteq> set (ef_recent s) \<and> length (ef_recent s') \<le> length (ef_recent s)"
    "case d of
       EchoDrop \<Rightarrow> f \<in> fst ` set (ef_recent s) \<and> \<not> is_lone_no_more f \<and> ef_held s' = None
     | EchoHold \<Rightarrow> is_lone_no_more f \<and> ef_held s' = Some f \<and> ef_hold_timer s'
     | EchoDeliver \<Rightarrow> ef_held s' = None"
  using assms is_echo_recent [of f t s] is_echo_sent [of f t s] is_echo_fields(1) [of f t s]
  by (auto simp: ingest_unheld_def split: if_splits prod.splits)

lemma ingest_spec:
  assumes "ingest f t s = (d, s')"
  shows "set (ef_recent s') \<subseteq> set (ef_recent s) \<and> length (ef_recent s') \<le> length (ef_recent s)"
    and "case d of
       EchoDrop \<Rightarrow> f \<in> fst ` set (ef_recent s) \<and> \<not> is_lone_no_more f
         \<and> (ef_held s' = ef_held s \<and> ef_hold_timer s' = ef_hold_timer s \<or> ef_held s' = None)
     | EchoHold \<Rightarrow> is_lone_no_more f \<and> ef_held s = None \<and> ef_held s' = Some f \<and> ef_hold_timer s'
     | EchoDeliver \<Rightarrow> ef_held s' = None"
proof -
  let ?A = "set (ef_recent s') \<subseteq> set (ef_recent s) \<and> length (ef_recent s') \<le> length (ef_recent s)"
  let ?B = "case d of
       EchoDrop \<Rightarrow> f \<in> fst ` set (ef_recent s) \<and> \<not> is_lone_no_more f
         \<and> (ef_held s' = ef_held s \<and> ef_hold_timer s' = ef_hold_timer s \<or> ef_held s' = None)
     | EchoHold \<Rightarrow> is_lone_no_more f \<and> ef_held s = None \<and> ef_held s' = Some f \<and> ef_hold_timer s'
     | EchoDeliver \<Rightarrow> ef_held s' = None"
  obtain echo s1 where e: "is_echo f t s = (echo, s1)" by (cases "is_echo f t s")
  have e': "set (ef_recent s1) \<subseteq> set (ef_recent s)" "length (ef_recent s1) \<le> length (ef_recent s)"
    "echo \<Longrightarrow> f \<in> fst ` set (ef_recent s) \<and> \<not> is_lone_no_more f"
    "ef_held s1 = ef_held s" "ef_hold_timer s1 = ef_hold_timer s"
    using is_echo_recent [of f t s] is_echo_sent [of f t s] is_echo_fields [of f t s] by (simp_all add: e)
  have "?A \<and> ?B" if "ef_held s = None"
  proof -
    have "ingest_unheld f t s = (d, s')" using assms that by (simp add: ingest_def)
    from ingest_unheld_spec [OF this that] that show ?thesis by (auto split: echo_decision.splits)
  qed
  moreover have "?A \<and> ?B" if held: "ef_held s \<noteq> None"
  proof (cases "echo \<or> length f > 1 \<or> is_lone_no_more f")
    case True
    then have "s' = s1 \<and> echo \<and> d = EchoDrop
        \<or> d = EchoDeliver \<and> ef_recent s' = ef_recent s1 \<and> ef_held s' = None"
      using assms held by (simp add: ingest_def e Let_def split: if_splits) auto
    then show ?thesis using e' by (elim disjE conjE) simp_all
  next
    case False
    then have u: "ingest_unheld f t (clear_hold s1) = (d, s')" using assms held e by (auto simp: ingest_def)
    note sp = ingest_unheld_spec [OF u clear_hold_fields(1)]
    have "set (ef_recent s') \<subseteq> set (ef_recent s1)" "length (ef_recent s') \<le> length (ef_recent s1)"
      using sp(1) by simp_all
    with e' have ?A by auto
    moreover have ?B using sp(2) False e'(1) by (cases d) auto
    ultimately show ?thesis ..
  qed
  ultimately have "?A \<and> ?B" by blast
  then show ?A ?B by blast+
qed

lemma note_outbound_spec:
  "ef_held (note_outbound f t s) = ef_held s" "ef_hold_timer (note_outbound f t s) = ef_hold_timer s"
  "set (ef_recent (note_outbound f t s)) \<subseteq> insert (f, t) (set (ef_recent s))"
  "length (ef_recent s) \<le> MAX_RECENT_TX \<Longrightarrow> length (ef_recent (note_outbound f t s)) \<le> MAX_RECENT_TX"
proof -
  let ?kept = "filter (\<lambda>(_, u). t - u \<le> TX_ECHO_TTL_MS) (ef_recent s)"
  have r: "ef_recent (note_outbound f t s) =
      (if length (?kept @ [(f, t)]) > MAX_RECENT_TX then tl (?kept @ [(f, t)]) else ?kept @ [(f, t)])"
    by (simp add: note_outbound_def ef_prune_def Let_def)
  show "ef_held (note_outbound f t s) = ef_held s" "ef_hold_timer (note_outbound f t s) = ef_hold_timer s"
    by (simp_all add: note_outbound_def ef_prune_def Let_def)
  have "set (tl (?kept @ [(f, t)])) \<subseteq> set (?kept @ [(f, t)])" by (cases "?kept @ [(f, t)]") auto
  then show "set (ef_recent (note_outbound f t s)) \<subseteq> insert (f, t) (set (ef_recent s))"
    unfolding r by auto
  have "length ?kept \<le> length (ef_recent s)" by (rule length_filter_le)
  then show "length (ef_recent s) \<le> MAX_RECENT_TX \<Longrightarrow> length (ef_recent (note_outbound f t s)) \<le> MAX_RECENT_TX"
    unfolding r by (auto intro: order_trans [OF length_filter_le])
qed

lemma held_frames_simps [simp]:
  "ef_held s = None \<Longrightarrow> held_frames s = []" "ef_held s = Some f \<Longrightarrow> held_frames s = [f]"
  by (simp_all add: held_frames_def)

lemma subseq_snoc: "subseq xs ys \<Longrightarrow> subseq xs (ys @ [y])"
  by (metis subseq_order.trans list_emb_prefix subseq_order.refl)

text \<open>A frame of the run that was never sent, and is not the held byte, passes at once.\<close>

lemma echo_step_inv:
  assumes "echo_inv es st"
  shows "echo_inv (es @ [e]) (echo_step e st)"
proof -
  obtain s out where st: "st = (s, out)" by (cases st)
  from assms have inv: "fst ` set (ef_recent s) \<subseteq> set (outbound_of es)" "length (ef_recent s) \<le> MAX_RECENT_TX"
    "ef_held s = None \<or> ef_hold_timer s \<and> (\<exists>f. ef_held s = Some f \<and> is_lone_no_more f)"
    "subseq (out @ held_frames s) (inbound_of es)" by (simp_all add: echo_inv_def st)
  show ?thesis
  proof (cases e)
    case (SendFrame f t)
    have "held_frames (note_outbound f t s) = held_frames s" by (simp add: held_frames_def note_outbound_spec)
    moreover have "fst ` set (ef_recent (note_outbound f t s)) \<subseteq> set (outbound_of (es @ [SendFrame f t]))"
      using image_mono [OF note_outbound_spec(3) [of f t s], of fst] inv(1) by auto
    ultimately show ?thesis using inv(2-4) note_outbound_spec(4) [of s f t]
      by (auto simp: echo_inv_def st SendFrame note_outbound_spec(1,2))
  next
    case (RecvFrame f t)
    obtain d s' where i: "ingest f t s = (d, s')" by (cases "ingest f t s")
    note sp = ingest_spec [OF i]
    have out1: "subseq out (inbound_of es)"
      by (rule subseq_order.trans [OF list_emb_prefix [OF subseq_order.refl] inv(4)])
    have out: "subseq out (inbound_of es)" "subseq (out @ [f]) (inbound_of es @ [f])"
      by (rule out1, rule list_emb_append_mono [OF out1 subseq_order.refl])
    have rec: "fst ` set (ef_recent s') \<subseteq> set (outbound_of es)" "length (ef_recent s') \<le> MAX_RECENT_TX"
      using sp(1) inv(1,2) by auto
    show ?thesis
    proof (cases d)
      case EchoDrop
      have "subseq (out @ held_frames s') (inbound_of es)"
        using sp(2) EchoDrop inv(4) out(1) by (auto simp: held_frames_def)
      then have "subseq (out @ held_frames s') (inbound_of es @ [f])" by (rule subseq_snoc)
      then show ?thesis using rec sp(2) EchoDrop inv(3) by (auto simp: echo_inv_def st RecvFrame i)
    next
      case EchoHold
      then show ?thesis using rec sp(2) out(2) by (auto simp: echo_inv_def st RecvFrame i)
    next
      case EchoDeliver
      then show ?thesis using rec sp(2) out(2) by (auto simp: echo_inv_def st RecvFrame i)
    qed
  next
    case HoldTimer
    show ?thesis using inv by (auto simp: echo_inv_def st HoldTimer hold_expired_def held_frames_def)
  qed
qed

lemma echo_run_inv: "echo_inv es (echo_run es)"
proof (induction es rule: rev_induct)
  case Nil
  show ?case by (simp add: echo_inv_def echo_run_def echo_init_def held_frames_def)
next
  case (snoc e es)
  from echo_step_inv [OF this, of e] show ?case by (simp add: echo_run_def)
qed

lemma echo_run_keeps:
  "set (outbound_of es) \<subseteq> set sent \<Longrightarrow>
     filter (never_sent sent) (snd (echo_run es)) = filter (never_sent sent) (inbound_of es)"
proof (induction es rule: rev_induct)
  case (snoc e es)
  obtain s out where st: "echo_run es = (s, out)" by (cases "echo_run es")
  then have run: "echo_run (es @ [e]) = echo_step e (s, out)" by (simp add: echo_run_def)
  from echo_run_inv [of es] have inv: "fst ` set (ef_recent s) \<subseteq> set (outbound_of es)"
    "ef_held s = None \<or> (\<exists>f. ef_held s = Some f \<and> is_lone_no_more f)" by (auto simp: echo_inv_def st)
  have ih: "filter (never_sent sent) out = filter (never_sent sent) (inbound_of es)"
    and sub: "set (outbound_of es) \<subseteq> set sent" using snoc st by simp_all
  show ?case
  proof (cases e)
    case (RecvFrame f t)
    obtain d s' where i: "ingest f t s = (d, s')" by (cases "ingest f t s")
    from ingest_spec(2) [OF i] inv(1) sub have "d \<noteq> EchoDeliver \<Longrightarrow> \<not> never_sent sent f"
      by (cases d) (auto simp: never_sent_def)
    then show ?thesis using ih by (auto simp: run [unfolded RecvFrame] RecvFrame i)
  next
    case HoldTimer
    have "filter (never_sent sent) (held_frames s) = []" using inv(2) by (auto simp: held_frames_def never_sent_def)
    then show ?thesis using ih by (auto simp: run [unfolded HoldTimer] HoldTimer hold_expired_def held_frames_def split: option.splits)
  next
    case (SendFrame f t)
    then show ?thesis using ih by (simp add: run [unfolded SendFrame])
  qed
qed (simp add: echo_run_def)

text \<open>A remembered frame stays remembered for its time to live, unless sixteen more are sent.\<close>

definition remembers :: "bytes \<Rightarrow> millis \<Rightarrow> nat \<Rightarrow> echo_filter \<Rightarrow> bool" where
  "remembers f t k s \<longleftrightarrow> (\<exists>older newer. ef_recent s = older @ (f, t) # newer \<and> length newer \<le> k)"

definition event_until :: "millis \<Rightarrow> echo_event \<Rightarrow> bool" where
  "event_until t e = (case e of SendFrame f u \<Rightarrow> u \<le> t | RecvFrame f u \<Rightarrow> u \<le> t | HoldTimer \<Rightarrow> True)"

lemma remembers_filter:
  assumes "remembers f t k s" "P (f, t)" "ef_recent s' = filter P (ef_recent s)"
  shows "remembers f t k s'"
proof -
  from assms(1) obtain older newer where "ef_recent s = older @ (f, t) # newer" "length newer \<le> k"
    by (auto simp: remembers_def)
  with assms(2,3) have "ef_recent s' = filter P older @ (f, t) # filter P newer" "length (filter P newer) \<le> k"
    by (simp_all add: le_trans [OF length_filter_le])
  then show ?thesis unfolding remembers_def by blast
qed

lemma remembers_sent:
  "remembers f t 0 (note_outbound f t s)"
proof -
  have "ef_recent (note_outbound f t s) =
      (let kept = ef_recent (ef_prune t s) in if length kept < MAX_RECENT_TX then kept @ [(f, t)] else tl (kept @ [(f, t)]))"
    by (auto simp: note_outbound_def ef_prune_def Let_def)
  moreover have "tl (kept @ [(f, t)]) = tl kept @ [(f, t)]" if "kept \<noteq> []" for kept
    using that by (cases kept) simp_all
  ultimately show ?thesis by (cases "ef_recent (ef_prune t s)") (auto simp: remembers_def Let_def MAX_RECENT_TX_def)
qed

lemma remembers_send:
  assumes "remembers f t k s" "k < 15" "u \<le> t + TX_ECHO_TTL_MS" 
  shows "remembers f t (Suc k) (note_outbound g u s)"
proof -
  have "remembers f t k (ef_prune u s)"
    by (rule remembers_filter [OF assms(1)]) (use assms(3) in \<open>auto simp: ef_prune_def\<close>)
  then obtain older newer where r: "ef_recent (ef_prune u s) = older @ (f, t) # newer" "length newer \<le> k"
    by (auto simp: remembers_def)
  then have "ef_recent (note_outbound g u s) =
      (if length older + length newer < 15 then older else tl older) @ (f, t) # (newer @ [(g, u)])"
    using assms(2) by (cases older) (auto simp: note_outbound_def Let_def MAX_RECENT_TX_def)
  moreover have "length (newer @ [(g, u)]) \<le> Suc k" using r(2) by simp
  ultimately show ?thesis unfolding remembers_def by blast
qed

lemma ef_recent_ingest:
  "ef_recent (snd (ingest f u s)) = ef_recent s \<or>
   ef_recent (snd (ingest f u s)) = filter (\<lambda>(_, v). u - v \<le> TX_ECHO_TTL_MS) (ef_recent s)"
  by (auto simp: ingest_def ingest_unheld_def is_echo_def ef_prune_def Let_def intro: filter_cong
      split: prod.splits if_splits)

lemma remembers_ingest:
  assumes "remembers f t k s" "u \<le> t + TX_ECHO_TTL_MS"
  shows "remembers f t k (snd (ingest g u s))"
  using ef_recent_ingest [of g u s]
proof
  assume "ef_recent (snd (ingest g u s)) = ef_recent s"
  then show ?thesis using assms(1) by (simp add: remembers_def)
next
  assume *: "ef_recent (snd (ingest g u s)) = filter (\<lambda>(_, v). u - v \<le> TX_ECHO_TTL_MS) (ef_recent s)"
  show ?thesis by (rule remembers_filter [OF assms(1) _ *]) (use assms(2) in auto)
qed

lemma remembers_run:
  "remembers f t k (fst st) \<Longrightarrow> k + length (outbound_of es) < 16 \<Longrightarrow> list_all (event_until (t + TX_ECHO_TTL_MS)) es
   \<Longrightarrow> remembers f t (k + length (outbound_of es)) (fst (fold echo_step es st))"
proof (induction es arbitrary: k st)
  case (Cons e es)
  obtain s out where st: "st = (s, out)" by (cases st)
  show ?case
  proof (cases e)
    case (SendFrame g u)
    then have "remembers f t (Suc k) (fst (echo_step e st))"
      using Cons.prems remembers_send [of f t k s u g] by (simp add: st event_until_def)
    from Cons.IH [OF this] Cons.prems SendFrame show ?thesis by simp
  next
    case (RecvFrame g u)
    then have "remembers f t k (fst (echo_step e st))"
      using Cons.prems remembers_ingest [of f t k s u g] by (simp add: st event_until_def split_beta)
    from Cons.IH [OF this] Cons.prems RecvFrame show ?thesis by simp
  next
    case HoldTimer
    then have "remembers f t k (fst (echo_step e st))"
      using Cons.prems by (simp add: st hold_expired_def remembers_def split: prod.splits)
    from Cons.IH [OF this] Cons.prems HoldTimer show ?thesis by simp
  qed
qed simp

lemma remembered_is_dropped:
  assumes "remembers f t k s" "u \<le> t + TX_ECHO_TTL_MS" "\<not> is_lone_no_more f"
  shows "fst (ingest f u s) = EchoDrop"
proof -
  have "(f, t) \<in> set (ef_recent s)" using assms(1) by (auto simp: remembers_def)
  then have "fst (is_echo f u s')" if "ef_recent s' = ef_recent s" for s'
    using assms(2,3) that by (force simp: is_echo_def ef_prune_def Let_def list_ex_iff)
  from this [of s] assms(3) show ?thesis by (auto simp: ingest_def ingest_unheld_def split: prod.splits)
qed

text \<open>
  C35: the filter drops the echoes and nothing else. For every sequence of sent frames, received
  frames and timer callbacks, in any order and at any times, the frames delivered are a subsequence of
  those received, in their order and each at most once; among them are all received frames that equal
  no frame sent so far and are not the ambiguous single byte; at most 16 sent frames are remembered. A
  frame, other than that byte, that comes back within 500 ms of being sent is not delivered, whatever
  happened in between, if fewer than sixteen other frames were sent meanwhile.
\<close>

theorem echo_filter_transparent:
  fixes es :: "echo_event list"
  shows "subseq (snd (echo_run es)) (inbound_of es)
    \<and> filter (never_sent (outbound_of es)) (snd (echo_run es)) = filter (never_sent (outbound_of es)) (inbound_of es)
    \<and> length (ef_recent (fst (echo_run es))) \<le> 16
    \<and> (\<forall>f t later u. \<not> is_lone_no_more f \<and> list_all (event_until (t + 500)) later
          \<and> length (outbound_of later) < 16 \<and> u \<le> t + 500
        \<longrightarrow> snd (echo_run (es @ SendFrame f t # later @ [RecvFrame f u]))
          = snd (echo_run (es @ SendFrame f t # later)))"
proof (intro conjI allI impI)
  from echo_run_inv [of es] have inv: "subseq (snd (echo_run es) @ held_frames (fst (echo_run es))) (inbound_of es)"
    "length (ef_recent (fst (echo_run es))) \<le> MAX_RECENT_TX" by (auto simp: echo_inv_def split: prod.splits)
  show "subseq (snd (echo_run es)) (inbound_of es)"
    by (rule subseq_order.trans [OF list_emb_prefix [OF subseq_order.refl] inv(1)])
  show "length (ef_recent (fst (echo_run es))) \<le> 16" using inv(2) by (simp add: MAX_RECENT_TX_def)
  show "filter (never_sent (outbound_of es)) (snd (echo_run es)) = filter (never_sent (outbound_of es)) (inbound_of es)"
    by (rule echo_run_keeps) simp
next
  fix f t later u
  assume h: "\<not> is_lone_no_more f \<and> list_all (event_until (t + 500)) later
    \<and> length (outbound_of later) < 16 \<and> u \<le> t + 500"
  define st where "st = echo_run (es @ SendFrame f t # later)"
  have "remembers f t 0 (fst (echo_step (SendFrame f t) (echo_run es)))"
    using remembers_sent by (cases "echo_run es") simp
  from remembers_run [OF this, of later] h have "remembers f t (length (outbound_of later)) (fst st)"
    by (simp add: st_def echo_run_def TX_ECHO_TTL_MS_def)
  from remembered_is_dropped [OF this, of u] h have "fst (ingest f u (fst st)) = EchoDrop"
    by (simp add: TX_ECHO_TTL_MS_def)
  then have "snd (echo_step (RecvFrame f u) st) = snd st" by (cases st) (simp add: split_beta)
  then show "snd (echo_run (es @ SendFrame f t # later @ [RecvFrame f u])) = snd (echo_run (es @ SendFrame f t # later))"
    by (simp add: st_def echo_run_def)
qed

lemma echo_filter_transparent_witness:
  "snd (echo_run ([SendFrame [1, 2] 0, RecvFrame [7] 5] @ SendFrame [3, 4] 10 # [SendFrame [5] 20] @ [RecvFrame [3, 4] 400])) = [[7]]"
proof -
  have "snd (echo_run ([SendFrame [1, 2] 0, RecvFrame [7] 5] @ SendFrame [3, 4] 10 # [SendFrame [5] 20] @ [RecvFrame [3, 4] 400]))
      = snd (echo_run ([SendFrame [1, 2] 0, RecvFrame [7] 5] @ SendFrame [3, 4] 10 # [SendFrame [5] 20]))"
    using echo_filter_transparent [of "[SendFrame [1, 2] 0, RecvFrame [7] 5]", THEN conjunct2, THEN conjunct2, THEN conjunct2, rule_format,
      of "[3, 4]" 10 "[SendFrame [5] 20]" 400] by (simp add: is_lone_no_more_def event_until_def)
  also have "\<dots> = [[7]]" by code_simp
  finally show ?thesis .
qed

end
