(* ===== verification/Ai_Chunks.thy ===== *)
theory Ai_Chunks
  imports Ai_Prompt
begin

text \<open>
  Packing a transcript into chunks that each fit one summary prompt
  (\<^verbatim>\<open>src/shared/aiSummaryChunking.ts\<close>, budgets of \<^verbatim>\<open>src/shared/ai-types.ts\<close>).
\<close>

definition AI_MAX_MESSAGES :: nat where "AI_MAX_MESSAGES = 500"
definition AI_ON_DEVICE_MAX_PROMPT_BYTES :: nat where "AI_ON_DEVICE_MAX_PROMPT_BYTES = 3500"
definition AI_ENDPOINT_MAX_PROMPT_BYTES :: nat where "AI_ENDPOINT_MAX_PROMPT_BYTES = 64000"
definition AI_OS_MAX_CHARS :: nat where "AI_OS_MAX_CHARS = 9000"
definition AI_BUNDLED_MAX_CHARS :: nat where "AI_BUNDLED_MAX_CHARS = 20000"
definition AI_ENDPOINT_MAX_CHARS :: nat where "AI_ENDPOINT_MAX_CHARS = 60000"

datatype ai_engine = OsEngine | BundledEngine | LocalEngine | RemoteEngine

definition max_chars_of :: "ai_engine \<Rightarrow> nat" where
  "max_chars_of engine =
     (if engine = OsEngine then AI_OS_MAX_CHARS else if engine = BundledEngine then AI_BUNDLED_MAX_CHARS else AI_ENDPOINT_MAX_CHARS)"

definition max_prompt_bytes_of :: "ai_engine \<Rightarrow> nat" where
  "max_prompt_bytes_of engine =
     (if engine = OsEngine \<or> engine = BundledEngine then AI_ON_DEVICE_MAX_PROMPT_BYTES else AI_ENDPOINT_MAX_PROMPT_BYTES)"

text \<open>What one call of the packer has fixed: the environment, the frame and the budgets.\<close>

record packer =
  pk_env :: intl_env
  pk_frame :: prompt_frame
  pk_engine :: ai_engine

definition prompt_bytes :: "summary_prompt \<Rightarrow> int" where
  "prompt_bytes p = int (utf8_len (sp_system p @ sp_user p))"

definition empty_prompt :: "packer \<Rightarrow> prompt_error + summary_prompt" where
  "empty_prompt pk = build_prompt (pk_env pk) (pk_frame pk) None None []"

text \<open>Bytes and units a message adds to a prompt, measured on the prompts with and without it.\<close>

definition cost :: "packer \<Rightarrow> summary_message \<Rightarrow> prompt_error + (int \<times> int)" where
  "cost pk m =
     (case empty_prompt pk of Inl e \<Rightarrow> Inl e | Inr blank \<Rightarrow>
       (case build_prompt (pk_env pk) (pk_frame pk) None None [m] of Inl e \<Rightarrow> Inl e | Inr prompt \<Rightarrow>
         Inr (prompt_bytes prompt - prompt_bytes blank + 1,
              int (length (sp_user prompt)) - int (length (sp_user blank)) + 1)))"

definition framing_bytes :: "packer \<Rightarrow> int" where
  "framing_bytes pk = (case empty_prompt pk of Inl _ \<Rightarrow> 0 | Inr blank \<Rightarrow> prompt_bytes blank)"

definition fits :: "packer \<Rightarrow> int \<times> int \<Rightarrow> bool" where
  "fits pk amount \<longleftrightarrow> fst amount + framing_bytes pk \<le> int (max_prompt_bytes_of (pk_engine pk))
     \<and> snd amount \<le> int (max_chars_of (pk_engine pk))"

record pack_state =
  ps_chunks :: "summary_message list list"
  ps_current :: "summary_message list"
  ps_bytes :: int
  ps_chars :: int

definition append_message :: "packer \<Rightarrow> summary_message \<Rightarrow> pack_state \<Rightarrow> prompt_error + pack_state" where
  "append_message pk m s =
     (case cost pk m of Inl e \<Rightarrow> Inl e | Inr amount \<Rightarrow>
       let s1 = (if ps_current s \<noteq> [] \<and>
                    (length (ps_current s) \<ge> AI_MAX_MESSAGES
                     \<or> ps_bytes s + fst amount > int (max_prompt_bytes_of (pk_engine pk))
                     \<or> ps_chars s + snd amount > int (max_chars_of (pk_engine pk)))
                 then \<lparr>ps_chunks = ps_chunks s @ [ps_current s], ps_current = [], ps_bytes = framing_bytes pk, ps_chars = 0\<rparr>
                 else s)
       in Inr (s1\<lparr>ps_current := ps_current s1 @ [m], ps_bytes := ps_bytes s1 + fst amount, ps_chars := ps_chars s1 + snd amount\<rparr>))"

definition with_body :: "summary_message \<Rightarrow> utf16 list \<Rightarrow> summary_message" where
  "with_body m cs = m\<lparr>sm_body := concat cs\<rparr>"

text \<open>The binary search for the longest prefix of the remaining characters that fits.\<close>

function longest_fit :: "packer \<Rightarrow> summary_message \<Rightarrow> utf16 list \<Rightarrow> nat \<Rightarrow> nat \<Rightarrow> prompt_error + nat" where
  "longest_fit pk m rest low high =
     (if low < high then
        let mid = (low + high + 1) div 2 in
        case cost pk (with_body m (take mid rest)) of Inl e \<Rightarrow> Inl e
        | Inr amount \<Rightarrow> if fits pk amount then longest_fit pk m rest mid high else longest_fit pk m rest low (mid - 1)
      else Inr low)"
  by pat_completeness auto
termination by (relation "measure (\<lambda>(pk, m, rest, low, high). high - low)") auto

text \<open>Cutting a message that fits no prompt of its own; \<open>rest\<close> is \<^verbatim>\<open>body.slice(start)\<close>.\<close>

function split_message :: "packer \<Rightarrow> summary_message \<Rightarrow> utf16 list \<Rightarrow> pack_state \<Rightarrow> prompt_error + pack_state" where
  "split_message pk m rest s =
     (if rest = [] then Inr s
      else
        case longest_fit pk m rest 0 (min (length rest) (min (max_chars_of (pk_engine pk)) (max_prompt_bytes_of (pk_engine pk)))) of
          Inl e \<Rightarrow> Inl e
        | Inr low \<Rightarrow>
            if low = 0 then Inl TooLarge
            else case append_message pk (with_body m (take low rest)) s of
                Inl e \<Rightarrow> Inl e
              | Inr s1 \<Rightarrow> split_message pk m (drop low rest) s1)"
  by pat_completeness auto
termination by (relation "measure (\<lambda>(pk, m, rest, s). length rest)") auto

definition pack_message :: "packer \<Rightarrow> summary_message \<Rightarrow> pack_state \<Rightarrow> prompt_error + pack_state" where
  "pack_message pk m s =
     (case cost pk m of Inl e \<Rightarrow> Inl e | Inr amount \<Rightarrow>
       if fits pk amount then append_message pk m s
       else let body = char_list (sm_body m) in
         case split_message pk m body s of Inl e \<Rightarrow> Inl e
         | Inr s1 \<Rightarrow> if body = [] then Inl TooLarge else Inr s1)"

fun pack_messages :: "packer \<Rightarrow> summary_message list \<Rightarrow> pack_state \<Rightarrow> prompt_error + pack_state" where
  "pack_messages pk [] s = Inr s"
| "pack_messages pk (m # ms) s = (case pack_message pk m s of Inl e \<Rightarrow> Inl e | Inr s1 \<Rightarrow> pack_messages pk ms s1)"

definition pack_ai_summary_chunks :: "packer \<Rightarrow> summary_message list \<Rightarrow> prompt_error + summary_message list list" where
  "pack_ai_summary_chunks pk messages =
     (if messages = [] then Inr []
      else case empty_prompt pk of Inl e \<Rightarrow> Inl e
      | Inr blank \<Rightarrow>
          if framing_bytes pk \<ge> int (max_prompt_bytes_of (pk_engine pk)) then Inl TooLarge
          else
            case pack_messages pk (sort_key sm_at messages) \<lparr>ps_chunks = [], ps_current = [], ps_bytes = framing_bytes pk, ps_chars = 0\<rparr> of
              Inl e \<Rightarrow> Inl e
            | Inr s \<Rightarrow> Inr (if ps_current s = [] then ps_chunks s else ps_chunks s @ [ps_current s]))"

declare longest_fit.simps [simp del] split_message.simps [simp del]

text \<open>The digests of the chunks as messages of the next round.\<close>

definition digest_messages :: "utf16 list \<Rightarrow> summary_message list" where
  "digest_messages digests =
     map (\<lambda>(index, body). \<lparr>sm_at = int index + 1, sm_sender = u16 (''Part '' @ dec_string (index + 1)), sm_body = body\<rparr>)
       (enumerate 0 digests)"

definition pack_ai_digest_chunks :: "packer \<Rightarrow> utf16 list \<Rightarrow> prompt_error + summary_message list list" where
  "pack_ai_digest_chunks pk digests =
     pack_ai_summary_chunks (pk\<lparr>pk_frame := (pk_frame pk)\<lparr>pf_mode := Some ReducePass\<rparr>\<rparr>) (digest_messages digests)"

text \<open>The frame of a caller that gives no context.\<close>

definition default_frame :: prompt_frame where
  "default_frame = \<lparr>pf_label = [], pf_protocol = [], pf_surface = [], pf_locale = u16 ''en'', pf_mode = None, pf_digests = None\<rparr>"

definition needs_multi_pass :: "intl_env \<Rightarrow> ai_engine \<Rightarrow> summary_message list \<Rightarrow> prompt_error + bool" where
  "needs_multi_pass env engine messages =
     (case pack_ai_summary_chunks \<lparr>pk_env = env, pk_frame = default_frame, pk_engine = engine\<rparr> messages of
        Inl e \<Rightarrow> Inl e | Inr chunks \<Rightarrow> Inr (length chunks > 1))"


subsection \<open>Costs\<close>

abbreviation stamped :: "packer \<Rightarrow> summary_message \<Rightarrow> bool" where
  "stamped pk \<equiv> has_stamp (pk_env pk)"

definition bytes_of :: "packer \<Rightarrow> summary_message \<Rightarrow> nat" where
  "bytes_of pk m = line_bytes (pk_env pk) (pk_frame pk) m"

definition units_of :: "packer \<Rightarrow> summary_message \<Rightarrow> nat" where
  "units_of pk m = line_units (pk_env pk) (pk_frame pk) m"

definition frame_of :: "packer \<Rightarrow> nat" where
  "frame_of pk = frame_bytes (pk_env pk) (pk_frame pk)"

lemma empty_prompt_ok: "empty_prompt pk =
    Inr \<lparr>sp_system = system_prompt (frame_mode (pk_frame pk)), sp_user = prefix_of (pk_env pk) (pk_frame pk) @ suffix_of (pk_frame pk),
      sp_included = 0, sp_truncated = False\<rparr>"
  unfolding empty_prompt_def by (subst build_prompt_all) (simp_all add: above_def)

lemma framing_bytes_eq: "framing_bytes pk = int (frame_of pk)"
  by (simp add: framing_bytes_def empty_prompt_ok prompt_bytes_def frame_of_def frame_bytes_def)

lemma cost_eq: "cost pk m = (if stamped pk m then Inr (int (bytes_of pk m), int (units_of pk m)) else Inl MissingZone)"
proof (cases "stamped pk m")
  case True
  then have "build_prompt (pk_env pk) (pk_frame pk) None None [m] = Inr
      \<lparr>sp_system = system_prompt (frame_mode (pk_frame pk)),
       sp_user = prefix_of (pk_env pk) (pk_frame pk) @ line_at (pk_env pk) (pk_frame pk) m @ suffix_of (pk_frame pk),
       sp_included = 1, sp_truncated = False\<rparr>"
    by (subst build_prompt_all) (simp_all add: above_def)
  with True show ?thesis
    using utf8_len_around [OF last_prefix(2) hd_suffix(2) last_prefix(1) hd_suffix(1)]
    by (simp add: cost_def empty_prompt_ok prompt_bytes_def bytes_of_def units_of_def line_bytes_def line_units_def)
next
  case False
  then have "build_prompt (pk_env pk) (pk_frame pk) None None [m] = Inl MissingZone"
    using select_lines_no_stamp [of None None "[m]"] by (simp add: build_prompt_def Let_def line_of_cases)
  with False show ?thesis by (simp add: cost_def empty_prompt_ok)
qed

definition fits_prompt :: "packer \<Rightarrow> summary_message \<Rightarrow> bool" where
  "fits_prompt pk m \<longleftrightarrow> frame_of pk + bytes_of pk m \<le> max_prompt_bytes_of (pk_engine pk)
     \<and> units_of pk m \<le> max_chars_of (pk_engine pk)"

lemma fits_eq: "fits pk (int (bytes_of pk m), int (units_of pk m)) = fits_prompt pk m"
  by (auto simp: fits_def fits_prompt_def framing_bytes_eq)

lemma stamped_with_body [simp]: "stamped pk (with_body m cs) = stamped pk m"
  by (simp add: has_stamp_def with_body_def)

subsection \<open>Chunks within the budget\<close>

definition chunk_ok :: "packer \<Rightarrow> summary_message list \<Rightarrow> bool" where
  "chunk_ok pk c \<longleftrightarrow> c \<noteq> [] \<and> length c \<le> AI_MAX_MESSAGES \<and> list_all (stamped pk) c
     \<and> frame_of pk + sum_list (map (bytes_of pk) c) \<le> max_prompt_bytes_of (pk_engine pk)
     \<and> sum_list (map (units_of pk) c) \<le> max_chars_of (pk_engine pk)"

definition packed :: "pack_state \<Rightarrow> summary_message list" where
  "packed s = concat (ps_chunks s) @ ps_current s"

definition pack_ok :: "packer \<Rightarrow> pack_state \<Rightarrow> bool" where
  "pack_ok pk s \<longleftrightarrow> list_all (chunk_ok pk) (ps_chunks s) \<and> (ps_current s = [] \<or> chunk_ok pk (ps_current s))
     \<and> ps_bytes s = int (frame_of pk + sum_list (map (bytes_of pk) (ps_current s)))
     \<and> ps_chars s = int (sum_list (map (units_of pk) (ps_current s)))"

lemma append_message_ok:
  assumes "pack_ok pk s" "stamped pk m" "fits_prompt pk m"
  shows "\<exists>s'. append_message pk m s = Inr s' \<and> pack_ok pk s' \<and> packed s' = packed s @ [m]"
proof -
  define full where "full \<longleftrightarrow> ps_current s \<noteq> [] \<and> (length (ps_current s) \<ge> AI_MAX_MESSAGES
      \<or> ps_bytes s + int (bytes_of pk m) > int (max_prompt_bytes_of (pk_engine pk))
      \<or> ps_chars s + int (units_of pk m) > int (max_chars_of (pk_engine pk)))"
  have single: "chunk_ok pk [m]"
    using assms(2,3) by (simp add: chunk_ok_def fits_prompt_def AI_MAX_MESSAGES_def)
  show ?thesis
  proof (cases full)
    case True
    let ?s' = "\<lparr>ps_chunks = ps_chunks s @ [ps_current s], ps_current = [m],
      ps_bytes = int (frame_of pk) + int (bytes_of pk m), ps_chars = int (units_of pk m)\<rparr>"
    have "append_message pk m s = Inr ?s'"
      using True assms(2) by (simp add: append_message_def cost_eq full_def framing_bytes_eq Let_def)
    moreover have "pack_ok pk ?s'" using True assms(1) single by (auto simp: pack_ok_def full_def)
    ultimately show ?thesis by (auto simp: packed_def)
  next
    case False
    let ?s' = "s\<lparr>ps_current := ps_current s @ [m], ps_bytes := ps_bytes s + int (bytes_of pk m), ps_chars := ps_chars s + int (units_of pk m)\<rparr>"
    have "append_message pk m s = Inr ?s'"
      using False assms(2) by (simp add: append_message_def cost_eq Let_def full_def [symmetric])
    moreover have "chunk_ok pk (ps_current s @ [m])"
    proof (cases "ps_current s = []")
      case False
      with \<open>\<not> full\<close> assms(1,2) show ?thesis by (auto simp: full_def pack_ok_def chunk_ok_def)
    qed (use single in simp)
    then have "pack_ok pk ?s'" using assms(1) by (auto simp: pack_ok_def)
    ultimately show ?thesis by (auto simp: packed_def)
  qed
qed

subsection \<open>Cutting long messages\<close>

lemma longest_fit_spec:
  assumes "low \<le> high" "stamped pk m"
  shows "\<exists>k. longest_fit pk m rest low high = Inr k \<and> low \<le> k \<and> k \<le> high
    \<and> (k = low \<or> fits_prompt pk (with_body m (take k rest)))
    \<and> (low < high \<and> fits_prompt pk (with_body m (take (low + 1) rest)) \<longrightarrow> low < k)"
  using assms(1)
proof (induction "high - low" arbitrary: low high rule: less_induct)
  case less
  show ?case
  proof (cases "low < high")
    case True
    define mid where "mid = (low + high + 1) div 2"
    have mid: "low < mid" "mid \<le> high" using True by (auto simp: mid_def)
    have step: "longest_fit pk m rest low high =
        (if fits_prompt pk (with_body m (take mid rest)) then longest_fit pk m rest mid high else longest_fit pk m rest low (mid - 1))"
      using True assms(2)
      by (subst longest_fit.simps) (simp add: cost_eq fits_eq Let_def flip: mid_def del: One_nat_def)
    show ?thesis
    proof (cases "fits_prompt pk (with_body m (take mid rest))")
      case yes: True
      have "high - mid < high - low" using mid by simp
      from less.hyps [OF this mid(2)] show ?thesis using step yes mid by auto
    next
      case no: False
      have "mid - 1 - low < high - low" "low \<le> mid - 1" using mid by auto
      note ih = less.hyps [OF this]
      have "low < mid - 1" if "fits_prompt pk (with_body m (take (low + 1) rest))"
      proof -
        from that no have "mid \<noteq> low + 1" by auto
        then show ?thesis using mid by simp
      qed
      with ih step no mid show ?thesis by auto
    qed
  qed (use less.prems in \<open>simp add: longest_fit.simps\<close>)
qed

text \<open>The parts a message is cut into.\<close>

definition cut_of :: "summary_message \<Rightarrow> summary_message list \<Rightarrow> bool" where
  "cut_of m ps \<longleftrightarrow> ps \<noteq> [] \<and> concat (map sm_body ps) = sm_body m
     \<and> list_all (\<lambda>p. sm_at p = sm_at m \<and> sm_sender p = sm_sender m) ps"

lemma with_body_fields [simp]:
  "sm_at (with_body m cs) = sm_at m" "sm_sender (with_body m cs) = sm_sender m" "sm_body (with_body m cs) = concat cs"
  by (simp_all add: with_body_def)

lemma split_message_ok:
  assumes "pack_ok pk s" "stamped pk m" "list_all (\<lambda>c. fits_prompt pk (with_body m [c])) rest"
    "0 < max_chars_of (pk_engine pk)" "0 < max_prompt_bytes_of (pk_engine pk)"
  shows "\<exists>s' ps. split_message pk m rest s = Inr s' \<and> pack_ok pk s' \<and> packed s' = packed s @ ps
    \<and> (rest \<noteq> [] \<longrightarrow> ps \<noteq> []) \<and> concat (map sm_body ps) = concat rest
    \<and> list_all (\<lambda>p. sm_at p = sm_at m \<and> sm_sender p = sm_sender m) ps"
  using assms(1,3)
proof (induction "length rest" arbitrary: rest s rule: less_induct)
  case less
  show ?case
  proof (cases "rest = []")
    case True
    have "split_message pk m rest s = Inr s" by (simp add: split_message.simps True)
    with less.prems(1) True show ?thesis by (intro exI [of _ s] exI [of _ "[]"]) simp
  next
    case False
    define high where "high = min (length rest) (min (max_chars_of (pk_engine pk)) (max_prompt_bytes_of (pk_engine pk)))"
    have "take (0 + 1) rest = [hd rest]" "hd rest \<in> set rest" using False by (simp_all add: neq_Nil_conv take_Suc)
    with less.prems(2) have one: "fits_prompt pk (with_body m (take (0 + 1) rest))" by (simp only: list_all_iff)
    have "0 < high" using False assms(4,5) by (simp add: high_def)
    with longest_fit_spec [of 0 high pk m rest] one assms(2) obtain k where k: "longest_fit pk m rest 0 high = Inr k"
      "0 < k" "k \<le> high" "fits_prompt pk (with_body m (take k rest))" by auto
    from append_message_ok [OF less.prems(1) _ k(4)] assms(2) obtain s1 where s1:
      "append_message pk (with_body m (take k rest)) s = Inr s1" "pack_ok pk s1" "packed s1 = packed s @ [with_body m (take k rest)]"
      by auto
    have "length (drop k rest) < length rest" using k(2) False by simp
    moreover have "list_all (\<lambda>c. fits_prompt pk (with_body m [c])) (drop k rest)"
      using less.prems(2) by (auto simp: list_all_iff dest: in_set_dropD)
    ultimately obtain s' ps where ps: "split_message pk m (drop k rest) s1 = Inr s'" "pack_ok pk s'" "packed s' = packed s1 @ ps"
      "concat (map sm_body ps) = concat (drop k rest)" "list_all (\<lambda>p. sm_at p = sm_at m \<and> sm_sender p = sm_sender m) ps"
      using less.hyps s1(2) by blast
    have "split_message pk m rest s = Inr s'"
      by (subst split_message.simps) (use False k(1,2) s1(1) ps(1) in \<open>simp add: high_def\<close>)
    moreover have "concat (map sm_body (with_body m (take k rest) # ps)) = concat rest"
      by (simp add: ps(4) flip: concat_append)
    ultimately show ?thesis using ps s1(3)
      by (intro exI [of _ s'] exI [of _ "with_body m (take k rest) # ps"]) simp
  qed
qed

text \<open>A message that can be packed: it fits alone, or each of its characters does.\<close>

definition packable :: "packer \<Rightarrow> summary_message \<Rightarrow> bool" where
  "packable pk m \<longleftrightarrow> stamped pk m \<and>
     (fits_prompt pk m
      \<or> sm_body m \<noteq> [] \<and> list_all (\<lambda>c. fits_prompt pk (with_body m [c])) (char_list (sm_body m)))"

lemma char_list_Nil_iff [simp]: "char_list s = [] \<longleftrightarrow> s = []"
  by (induction s rule: char_list.induct) auto

lemma budgets_positive: "0 < max_chars_of e" "0 < max_prompt_bytes_of e"
  by (simp_all add: max_chars_of_def max_prompt_bytes_of_def AI_OS_MAX_CHARS_def AI_BUNDLED_MAX_CHARS_def
      AI_ENDPOINT_MAX_CHARS_def AI_ON_DEVICE_MAX_PROMPT_BYTES_def AI_ENDPOINT_MAX_PROMPT_BYTES_def)

lemma pack_message_ok:
  assumes "pack_ok pk s" "packable pk m"
  shows "\<exists>s' ps. pack_message pk m s = Inr s' \<and> pack_ok pk s' \<and> packed s' = packed s @ ps \<and> cut_of m ps"
proof (cases "fits_prompt pk m")
  case True
  have st: "stamped pk m" using assms(2) by (simp add: packable_def)
  from append_message_ok [OF assms(1) st True] obtain s' where
    "append_message pk m s = Inr s'" "pack_ok pk s'" "packed s' = packed s @ [m]" by blast
  then show ?thesis using st True
    by (intro exI [of _ s'] exI [of _ "[m]"]) (simp add: pack_message_def cost_eq fits_eq cut_of_def)
next
  case False
  with assms(2) have st: "stamped pk m" and b: "sm_body m \<noteq> []"
    "list_all (\<lambda>c. fits_prompt pk (with_body m [c])) (char_list (sm_body m))" by (simp_all add: packable_def)
  from split_message_ok [OF assms(1) st b(2) budgets_positive] b(1) obtain s' ps where
    "split_message pk m (char_list (sm_body m)) s = Inr s'" "pack_ok pk s'" "packed s' = packed s @ ps" "cut_of m ps"
    by (auto simp: cut_of_def)
  then show ?thesis using st False b(1)
    by (intro exI [of _ s'] exI [of _ ps]) (simp add: pack_message_def cost_eq fits_eq Let_def)
qed

lemma pack_messages_ok:
  "pack_ok pk s \<Longrightarrow> list_all (packable pk) ms \<Longrightarrow>
   \<exists>s' pss. pack_messages pk ms s = Inr s' \<and> pack_ok pk s' \<and> packed s' = packed s @ concat pss \<and> list_all2 cut_of ms pss"
proof (induction ms arbitrary: s)
  case Nil
  then show ?case by (intro exI [of _ s] exI [of _ "[]"]) simp
next
  case (Cons m ms)
  from pack_message_ok [OF Cons.prems(1), of m] Cons.prems(2) obtain s1 ps where
    s1: "pack_message pk m s = Inr s1" "pack_ok pk s1" "packed s1 = packed s @ ps" "cut_of m ps" by auto
  from Cons.IH [OF s1(2)] Cons.prems(2) obtain s' pss where
    "pack_messages pk ms s1 = Inr s'" "pack_ok pk s'" "packed s' = packed s1 @ concat pss" "list_all2 cut_of ms pss" by auto
  with s1 show ?case by (intro exI [of _ s'] exI [of _ "ps # pss"]) simp
qed

text \<open>What every chunk guarantees: its prompt, built with the same budgets, leaves nothing out.\<close>

definition prompt_complete :: "packer \<Rightarrow> summary_message list \<Rightarrow> bool" where
  "prompt_complete pk c \<longleftrightarrow>
     (case build_prompt (pk_env pk) (pk_frame pk) (Some (max_chars_of (pk_engine pk))) (Some (max_prompt_bytes_of (pk_engine pk))) c of
        Inl _ \<Rightarrow> False | Inr p \<Rightarrow> sp_included p = length c \<and> \<not> sp_truncated p)"

lemma chunk_ok_prompt: "chunk_ok pk c \<Longrightarrow> prompt_complete pk c"
  unfolding prompt_complete_def chunk_ok_def
  by (subst build_prompt_all)
    (auto simp: above_def list_all_iff bytes_of_def [abs_def] units_of_def [abs_def] frame_of_def)

text \<open>
  C37: packing a transcript terminates and loses nothing. Unless the frame alone exceeds the budget or
  some message neither fits a prompt nor consists of characters that each fit one, the packer returns
  chunks; in order, they hold the messages by time, each whole or cut into consecutive parts of its
  text with its sender and time; and each chunk is not empty, has at most 500 messages, and the prompt
  that the main process builds for it with the same budgets includes all of them.
\<close>

theorem packed_chunks_complete:
  assumes "frame_of pk < max_prompt_bytes_of (pk_engine pk)" "list_all (packable pk) messages"
  shows "\<exists>chunks pieces. pack_ai_summary_chunks pk messages = Inr chunks
    \<and> concat chunks = concat pieces \<and> list_all2 cut_of (sort_key sm_at messages) pieces
    \<and> list_all (\<lambda>c. c \<noteq> [] \<and> length c \<le> 500 \<and> prompt_complete pk c) chunks"
proof (cases "messages = []")
  case True
  then show ?thesis by (intro exI [of _ "[]"]) (simp add: pack_ai_summary_chunks_def)
next
  case False
  define s0 where "s0 = \<lparr>ps_chunks = [], ps_current = [], ps_bytes = framing_bytes pk, ps_chars = 0\<rparr>"
  have "pack_ok pk s0" "packed s0 = []" by (simp_all add: s0_def pack_ok_def packed_def framing_bytes_eq)
  moreover have "list_all (packable pk) (sort_key sm_at messages)" using assms(2) by (simp add: list_all_iff)
  ultimately obtain s pss where s: "pack_messages pk (sort_key sm_at messages) s0 = Inr s" "pack_ok pk s"
    "packed s = concat pss" "list_all2 cut_of (sort_key sm_at messages) pss" using pack_messages_ok by fastforce
  define chunks where "chunks = (if ps_current s = [] then ps_chunks s else ps_chunks s @ [ps_current s])"
  have "pack_ai_summary_chunks pk messages = Inr chunks"
    using False assms(1) s(1) by (simp add: pack_ai_summary_chunks_def empty_prompt_ok framing_bytes_eq chunks_def s0_def)
  moreover have "concat chunks = concat pss" using s(3) by (auto simp: chunks_def packed_def)
  moreover have "list_all (chunk_ok pk) chunks" using s(2) by (auto simp: chunks_def pack_ok_def)
  then have "list_all (\<lambda>c. c \<noteq> [] \<and> length c \<le> 500 \<and> prompt_complete pk c) chunks"
    by (rule list.pred_mono_strong) (auto simp: chunk_ok_def AI_MAX_MESSAGES_def intro: chunk_ok_prompt)
  ultimately show ?thesis using s(4) by blast
qed

subsection \<open>An example\<close>

lemma utf8_len_le: "utf8_len s \<le> 3 * length s"
  by (induction s rule: utf8_len.induct) auto

lemma length_u16 [simp]: "length (u16 s) = length s"
  by (simp add: u16_def)

definition demo_packer :: packer where
  "demo_packer = \<lparr>pk_env = demo_env, pk_frame = demo_frame, pk_engine = RemoteEngine\<rparr>"

lemma demo_frame_bound: "frame_of demo_packer \<le> 10000"
proof -
  have "length (meta_of demo_env demo_frame) \<le> 400"
    using json_string_length [of "u16 ''general''"] json_string_length [of "u16 ''meshcore''"] json_string_length [of "u16 ''channel''"]
      json_string_length [of "u16 ''en''"] json_string_length [of "u16 ''UTC''"] json_string_length [of "u16 ''final''"]
    by (simp add: meta_of_def demo_env_def demo_frame_def frame_mode_def mode_name_def)
  then have "length (prefix_of demo_env demo_frame) \<le> 500"
    by (simp add: prefix_shape begin_marker_def demo_frame_def frame_digests_def frame_mode_def)
  moreover have "length (suffix_of demo_frame) \<le> 200"
    by (simp add: suffix_of_def user_suffix_def demo_frame_def frame_digests_def frame_mode_def)
  moreover have "length (system_prompt (frame_mode demo_frame)) \<le> 900"
    by (simp add: system_prompt_def demo_frame_def frame_mode_def)
  ultimately show ?thesis
    using utf8_len_le [of "system_prompt (frame_mode demo_frame) @ prefix_of demo_env demo_frame @ suffix_of demo_frame"]
    by (simp add: frame_of_def frame_bytes_def demo_packer_def)
qed

lemma demo_packable: "sm_sender m = sm_sender forging_message \<Longrightarrow> sm_body m = sm_body forging_message \<Longrightarrow> packable demo_packer m"
proof -
  assume m: "sm_sender m = sm_sender forging_message" "sm_body m = sm_body forging_message"
  have st: "stamped demo_packer m" by (simp add: has_stamp_def demo_packer_def demo_env_def u16_def)
  have "stamp_of demo_env (sm_at m) = Inr (u16 ''2025-01-02 03:04 UTC+00:00'')"
    by (simp add: stamp_of_def demo_env_def u16_def code_def)
  then have "length (line_at demo_env demo_frame m) \<le> 400"
    using json_string_length [of "take 120 (sm_sender forging_message)"] json_string_length [of "sm_body forging_message"]
    by (simp add: line_at_def line_of_def demo_frame_def frame_digests_def frame_mode_def m)
      (simp add: forging_message_def)
  then have "bytes_of demo_packer m \<le> 1201" "units_of demo_packer m \<le> 401"
    using utf8_len_le [of "line_at demo_env demo_frame m"]
    by (simp_all add: bytes_of_def units_of_def line_bytes_def line_units_def demo_packer_def)
  with demo_frame_bound have "fits_prompt demo_packer m"
    by (simp add: fits_prompt_def max_prompt_bytes_of_def max_chars_of_def demo_packer_def
        AI_ENDPOINT_MAX_CHARS_def AI_ENDPOINT_MAX_PROMPT_BYTES_def)
  with st show ?thesis by (simp add: packable_def)
qed

lemma packed_chunks_complete_witness:
  "\<exists>chunks pieces. pack_ai_summary_chunks demo_packer [forging_message, forging_message\<lparr>sm_at := -5\<rparr>] = Inr chunks
    \<and> concat chunks = concat pieces \<and> length pieces = 2"
proof -
  have "frame_of demo_packer < max_prompt_bytes_of (pk_engine demo_packer)"
    using demo_frame_bound by (simp add: demo_packer_def max_prompt_bytes_of_def AI_ENDPOINT_MAX_PROMPT_BYTES_def)
  moreover have "list_all (packable demo_packer) [forging_message, forging_message\<lparr>sm_at := -5\<rparr>]"
    by (simp add: demo_packable)
  ultimately obtain chunks pieces where
    c: "pack_ai_summary_chunks demo_packer [forging_message, forging_message\<lparr>sm_at := -5\<rparr>] = Inr chunks"
    "concat chunks = concat pieces" "list_all2 cut_of (sort_key sm_at [forging_message, forging_message\<lparr>sm_at := -5\<rparr>]) pieces"
    using packed_chunks_complete [of demo_packer "[forging_message, forging_message\<lparr>sm_at := -5\<rparr>]"] by blast
  from list_all2_lengthD [OF c(3)] have "length pieces = 2" by (simp only: length_sort list.size)
  with c show ?thesis by blast
qed

end
