(* ===== verification/Rncp_Dedup.thy ===== *)
theory Rncp_Dedup
  imports Js_String Js_Map Utf8
begin

text \<open>
  Which control messages of a peer have already had their side effects
  (\<^verbatim>\<open>src/renderer/lib/rncpLxmfControlSideEffectDedup.ts\<close>, message hashes of
  \<^verbatim>\<open>src/renderer/lib/reticulum/messageHash.ts\<close>). A message is reserved before its effect starts, then
  committed, or released so that it can be tried again; a reservation carries a token, so that a late
  commit or release cannot touch a newer one. The clock is an argument.
\<close>

definition RNCP_LXMF_CONTROL_HANDLED_TTL_MS :: millis where "RNCP_LXMF_CONTROL_HANDLED_TTL_MS = 2 * 3600000"
definition HANDLED_CAP :: nat where "HANDLED_CAP = 500"
definition ALREADY_ENABLED_PEER_CAP :: nat where "ALREADY_ENABLED_PEER_CAP = 500"
definition RNCP_REQUEST_ENABLE_COOLDOWN_MS :: millis where "RNCP_REQUEST_ENABLE_COOLDOWN_MS = 10 * 60 * 1000"

record dedup_entry =
  de_at :: millis
  de_token :: nat
  de_committed :: bool

record reservation =
  rv_key :: string
  rv_token :: nat

type_synonym dedup_table = "(string, dedup_entry) jsmap"

record rncp_dedup =
  rd_handled :: dedup_table
  rd_shares :: dedup_table
  rd_retry :: "string list"
  rd_handled_seq :: nat
  rd_peer_seq :: nat

definition rncp_init :: rncp_dedup where
  "rncp_init = \<lparr>rd_handled = [], rd_shares = [], rd_retry = [], rd_handled_seq = 1, rd_peer_seq = 1\<rparr>"

subsection \<open>Keys\<close>

definition hex_only :: "string \<Rightarrow> string" where
  "hex_only s = js_lower (filter is_hex_digit s)"

definition normalize_message_hash :: "string \<Rightarrow> string option" where
  "normalize_message_hash h = (let key = hex_only h in if length key \<ge> 16 then Some key else None)"

definition normalize_peer :: "string \<Rightarrow> string option" where
  "normalize_peer h = (let key = hex_only h in if length key = 32 then Some key else None)"

text \<open>FNV-1a on 128 bits, of the UTF-8 form.\<close>

definition stable_hash128_hex :: "code_points \<Rightarrow> string" where
  "stable_hash128_hex input =
     pad_start 32 (CHR ''0'') (hex_string (unat (fold (\<lambda>b h. (h XOR ucast b) * 0x100000001b3)
       (utf8_encode input) (0xcbf29ce484222325 :: 128 word))))"

definition compute_reticulum_message_hash :: "string \<Rightarrow> int \<Rightarrow> code_points \<Rightarrow> string" where
  "compute_reticulum_message_hash sender t body =
     stable_hash128_hex (map code sender @ map code '':'' @ map code (int_string t) @ map code '':'' @ body)"

definition resolve_control_hash :: "string option \<Rightarrow> string option \<Rightarrow> int option \<Rightarrow> code_points option \<Rightarrow> string option" where
  "resolve_control_hash message_hash sender_hash timestamp body =
     (let wire = (case message_hash of None \<Rightarrow> [] | Some h \<Rightarrow> hex_only h) in
      if wire \<noteq> [] \<and> length wire \<ge> 16 then Some wire
      else
        let sender = (case sender_hash of None \<Rightarrow> [] | Some h \<Rightarrow> hex_only h);
            content = (case body of None \<Rightarrow> [] | Some t \<Rightarrow> t)
        in case timestamp of
             None \<Rightarrow> None
           | Some ts \<Rightarrow> if sender = [] then None else Some (compute_reticulum_message_hash sender ts content))"

subsection \<open>The tables\<close>

text \<open>The entry the eviction loop removes: the first of those with the smallest time.\<close>

fun oldest_key :: "dedup_table \<Rightarrow> (string \<times> millis) option \<Rightarrow> string option" where
  "oldest_key [] best = map_option fst best"
| "oldest_key ((k, e) # m) best =
     oldest_key m (case best of None \<Rightarrow> Some (k, de_at e) | Some (k', a) \<Rightarrow> if de_at e < a then Some (k, de_at e) else best)"

fun evict_oldest :: "nat \<Rightarrow> nat \<Rightarrow> dedup_table \<Rightarrow> dedup_table" where
  "evict_oldest 0 cap m = m"
| "evict_oldest (Suc fuel) cap m =
     (if length m > cap
      then case oldest_key m None of None \<Rightarrow> m | Some k \<Rightarrow> evict_oldest fuel cap (jm_delete k m)
      else m)"

definition prune_map_by_ttl_and_cap :: "dedup_table \<Rightarrow> millis \<Rightarrow> millis \<Rightarrow> nat \<Rightarrow> dedup_table" where
  "prune_map_by_ttl_and_cap m now ttl cap =
     (let live = filter (\<lambda>(_, e). \<not> now - de_at e > ttl) m in evict_oldest (length live) cap live)"

definition commit_in :: "reservation \<Rightarrow> millis \<Rightarrow> dedup_table \<Rightarrow> dedup_table option" where
  "commit_in r now m =
     (case jm_get m (rv_key r) of
        None \<Rightarrow> None
      | Some e \<Rightarrow> if de_token e \<noteq> rv_token r then None
          else Some (jm_set (rv_key r) (e\<lparr>de_committed := True, de_at := now\<rparr>) m))"

definition release_in :: "reservation \<Rightarrow> dedup_table \<Rightarrow> dedup_table option" where
  "release_in r m =
     (case jm_get m (rv_key r) of
        None \<Rightarrow> None
      | Some e \<Rightarrow> if de_token e \<noteq> rv_token r then None else Some (jm_delete (rv_key r) m))"

subsection \<open>Control messages\<close>

definition prune_handled :: "millis \<Rightarrow> rncp_dedup \<Rightarrow> rncp_dedup" where
  "prune_handled now s = s\<lparr>rd_handled := prune_map_by_ttl_and_cap (rd_handled s) now RNCP_LXMF_CONTROL_HANDLED_TTL_MS HANDLED_CAP\<rparr>"

definition try_reserve_handled :: "string \<Rightarrow> millis \<Rightarrow> rncp_dedup \<Rightarrow> reservation option \<times> rncp_dedup" where
  "try_reserve_handled message_hash now s =
     (case normalize_message_hash message_hash of
        None \<Rightarrow> (None, s)
      | Some key \<Rightarrow>
          let s1 = prune_handled now s;
              busy = (case jm_get (rd_handled s1) key of None \<Rightarrow> False
                | Some prev \<Rightarrow> now - de_at prev \<le> RNCP_LXMF_CONTROL_HANDLED_TTL_MS)
          in if busy then (None, s1)
             else
               let token = rd_handled_seq s1 in
               (Some \<lparr>rv_key = key, rv_token = token\<rparr>,
                s1\<lparr>rd_handled_seq := token + 1,
                   rd_handled := jm_set key \<lparr>de_at = now, de_token = token, de_committed = False\<rparr> (rd_handled s1)\<rparr>))"

definition commit_handled :: "reservation \<Rightarrow> millis \<Rightarrow> rncp_dedup \<Rightarrow> rncp_dedup" where
  "commit_handled r now s =
     (case commit_in r now (rd_handled s) of None \<Rightarrow> s
      | Some m \<Rightarrow> s\<lparr>rd_handled := m, rd_retry := filter (\<lambda>k. k \<noteq> rv_key r) (rd_retry s)\<rparr>)"

definition set_add :: "'a \<Rightarrow> 'a list \<Rightarrow> 'a list" where
  "set_add x xs = (if x \<in> set xs then xs else xs @ [x])"

definition release_handled :: "reservation \<Rightarrow> rncp_dedup \<Rightarrow> rncp_dedup" where
  "release_handled r s =
     (case release_in r (rd_handled s) of None \<Rightarrow> s
      | Some m \<Rightarrow>
          let retry = set_add (rv_key r) (rd_retry s) in
          s\<lparr>rd_handled := m, rd_retry := drop (length retry - HANDLED_CAP) retry\<rparr>)"

definition take_retry_allowed :: "string \<Rightarrow> rncp_dedup \<Rightarrow> bool \<times> rncp_dedup" where
  "take_retry_allowed message_hash s =
     (case normalize_message_hash message_hash of
        None \<Rightarrow> (False, s)
      | Some key \<Rightarrow> if key \<notin> set (rd_retry s) then (False, s)
          else (True, s\<lparr>rd_retry := filter (\<lambda>k. k \<noteq> key) (rd_retry s)\<rparr>))"

definition try_mark_handled :: "string \<Rightarrow> millis \<Rightarrow> rncp_dedup \<Rightarrow> bool \<times> rncp_dedup" where
  "try_mark_handled message_hash now s =
     (case try_reserve_handled message_hash now s of
        (None, s1) \<Rightarrow> (False, s1)
      | (Some r, s1) \<Rightarrow> (True, commit_handled r now s1))"

subsection \<open>Automatic shares with a peer\<close>

definition prune_already_enabled_peers :: "millis \<Rightarrow> rncp_dedup \<Rightarrow> rncp_dedup" where
  "prune_already_enabled_peers now s =
     s\<lparr>rd_shares := prune_map_by_ttl_and_cap (rd_shares s) now RNCP_REQUEST_ENABLE_COOLDOWN_MS ALREADY_ENABLED_PEER_CAP\<rparr>"

definition try_reserve_share :: "string \<Rightarrow> millis \<Rightarrow> rncp_dedup \<Rightarrow> reservation option \<times> rncp_dedup" where
  "try_reserve_share peer now s =
     (case normalize_peer peer of
        None \<Rightarrow> (None, s)
      | Some key \<Rightarrow>
          let s1 = prune_already_enabled_peers now s;
              busy = (case jm_get (rd_shares s1) key of None \<Rightarrow> False
                | Some prev \<Rightarrow> now - de_at prev < RNCP_REQUEST_ENABLE_COOLDOWN_MS)
          in if busy then (None, s1)
             else
               let token = rd_peer_seq s1 in
               (Some \<lparr>rv_key = key, rv_token = token\<rparr>,
                s1\<lparr>rd_peer_seq := token + 1,
                   rd_shares := jm_set key \<lparr>de_at = now, de_token = token, de_committed = False\<rparr> (rd_shares s1)\<rparr>))"

definition commit_share :: "reservation \<Rightarrow> millis \<Rightarrow> rncp_dedup \<Rightarrow> rncp_dedup" where
  "commit_share r now s = (case commit_in r now (rd_shares s) of None \<Rightarrow> s | Some m \<Rightarrow> s\<lparr>rd_shares := m\<rparr>)"

definition release_share :: "reservation \<Rightarrow> rncp_dedup \<Rightarrow> rncp_dedup" where
  "release_share r s = (case release_in r (rd_shares s) of None \<Rightarrow> s | Some m \<Rightarrow> s\<lparr>rd_shares := m\<rparr>)"

definition try_consume_share :: "string \<Rightarrow> millis \<Rightarrow> rncp_dedup \<Rightarrow> bool \<times> rncp_dedup" where
  "try_consume_share peer now s =
     (case try_reserve_share peer now s of
        (None, s1) \<Rightarrow> (False, s1)
      | (Some r, s1) \<Rightarrow> (True, commit_share r now s1))"

datatype rncp_event =
    TryReserve string millis | Commit reservation millis | Release reservation | TakeRetry string | TryMark string millis
  | TryReserveShare string millis | CommitShare reservation millis | ReleaseShare reservation | TryConsumeShare string millis

fun rncp_step :: "rncp_event \<Rightarrow> rncp_dedup \<Rightarrow> rncp_dedup" where
  "rncp_step (TryReserve h t) s = snd (try_reserve_handled h t s)"
| "rncp_step (Commit r t) s = commit_handled r t s"
| "rncp_step (Release r) s = release_handled r s"
| "rncp_step (TakeRetry h) s = snd (take_retry_allowed h s)"
| "rncp_step (TryMark h t) s = snd (try_mark_handled h t s)"
| "rncp_step (TryReserveShare h t) s = snd (try_reserve_share h t s)"
| "rncp_step (CommitShare r t) s = commit_share r t s"
| "rncp_step (ReleaseShare r) s = release_share r s"
| "rncp_step (TryConsumeShare h t) s = snd (try_consume_share h t s)"

definition rncp_run :: "rncp_event list \<Rightarrow> rncp_dedup" where
  "rncp_run es = fold rncp_step es rncp_init"


subsection \<open>A table of reservations\<close>

text \<open>
  Both tables follow one protocol, stated as a machine on a table and its next token: an entry is
  busy while its age is \<open>fresh\<close>, and pruning drops the entries older than \<open>ttl\<close>.
\<close>

datatype table_op = OpReserve string millis | OpCommit reservation millis | OpRelease reservation | OpMark string millis | OpSkip

definition table_reserve :: "(millis \<Rightarrow> bool) \<Rightarrow> millis \<Rightarrow> nat \<Rightarrow> string \<Rightarrow> millis \<Rightarrow> dedup_table \<times> nat
    \<Rightarrow> reservation option \<times> dedup_table \<times> nat" where
  "table_reserve fresh ttl cap key now st =
     (let m = prune_map_by_ttl_and_cap (fst st) now ttl cap in
      if (case jm_get m key of None \<Rightarrow> False | Some e \<Rightarrow> fresh (now - de_at e)) then (None, m, snd st)
      else (Some \<lparr>rv_key = key, rv_token = snd st\<rparr>,
            jm_set key \<lparr>de_at = now, de_token = snd st, de_committed = False\<rparr> m, snd st + 1))"

definition table_commit :: "reservation \<Rightarrow> millis \<Rightarrow> dedup_table \<times> nat \<Rightarrow> dedup_table \<times> nat" where
  "table_commit r now st = (case commit_in r now (fst st) of None \<Rightarrow> st | Some m \<Rightarrow> (m, snd st))"

fun table_step :: "(millis \<Rightarrow> bool) \<Rightarrow> millis \<Rightarrow> nat \<Rightarrow> table_op \<Rightarrow> dedup_table \<times> nat \<Rightarrow> dedup_table \<times> nat" where
  "table_step fresh ttl cap (OpReserve k t) st = snd (table_reserve fresh ttl cap k t st)"
| "table_step fresh ttl cap (OpCommit r t) st = table_commit r t st"
| "table_step fresh ttl cap (OpRelease r) st = (case release_in r (fst st) of None \<Rightarrow> st | Some m \<Rightarrow> (m, snd st))"
| "table_step fresh ttl cap (OpMark k t) st =
     (case table_reserve fresh ttl cap k t st of (None, st') \<Rightarrow> st' | (Some r, st') \<Rightarrow> table_commit r t st')"
| "table_step fresh ttl cap OpSkip st = st"

text \<open>Eviction.\<close>

lemma oldest_key_first:
  "oldest_key m best = Some k \<Longrightarrow>
     (\<exists>older e newer. m = older @ (k, e) # newer \<and> (\<forall>x \<in> set older. de_at e < de_at (snd x))
        \<and> (\<forall>x \<in> set newer. de_at e \<le> de_at (snd x)) \<and> (case best of None \<Rightarrow> True | Some b \<Rightarrow> de_at e < snd b))
     \<or> (\<exists>a. best = Some (k, a) \<and> (\<forall>x \<in> set m. a \<le> de_at (snd x)))"
proof (induction m arbitrary: best)
  case (Cons x m)
  obtain k1 e1 where x: "x = (k1, e1)" by (cases x)
  define b where "b = (case best of None \<Rightarrow> Some (k1, de_at e1) | Some (k', a) \<Rightarrow> if de_at e1 < a then Some (k1, de_at e1) else best)"
  have "oldest_key m b = Some k" using Cons.prems by (simp add: x b_def)
  from Cons.IH [OF this] consider
      (inside) older e newer where "m = older @ (k, e) # newer" "\<forall>x \<in> set older. de_at e < de_at (snd x)"
        "\<forall>x \<in> set newer. de_at e \<le> de_at (snd x)" "case b of None \<Rightarrow> True | Some c \<Rightarrow> de_at e < snd c"
    | (kept) a where "b = Some (k, a)" "\<forall>x \<in> set m. a \<le> de_at (snd x)" by blast
  then show ?case
  proof cases
    case inside
    then have "de_at e < de_at e1 \<and> (case best of None \<Rightarrow> True | Some c \<Rightarrow> de_at e < snd c)"
      by (auto simp: b_def split: option.splits prod.splits if_splits)
    with inside have "x # m = (x # older) @ (k, e) # newer \<and> (\<forall>y \<in> set (x # older). de_at e < de_at (snd y))
        \<and> (\<forall>y \<in> set newer. de_at e \<le> de_at (snd y)) \<and> (case best of None \<Rightarrow> True | Some c \<Rightarrow> de_at e < snd c)"
      by (simp add: x)
    then show ?thesis by blast
  next
    case kept
    show ?thesis
    proof (cases "best = Some (k, a) \<and> a \<le> de_at e1")
      case True
      with kept show ?thesis by (auto simp: x)
    next
      case False
      with kept have "k1 = k" "a = de_at e1" "case best of None \<Rightarrow> True | Some c \<Rightarrow> de_at e1 < snd c"
        by (auto simp: b_def split: option.splits prod.splits if_splits)
      with kept have "x # m = [] @ (k, e1) # m \<and> (\<forall>y \<in> set []. de_at e1 < de_at (snd y))
          \<and> (\<forall>y \<in> set m. de_at e1 \<le> de_at (snd y)) \<and> (case best of None \<Rightarrow> True | Some c \<Rightarrow> de_at e1 < snd c)"
        by (simp add: x)
      then show ?thesis by blast
    qed
  qed
qed simp

lemma jm_wf_delete: "jm_wf m \<Longrightarrow> jm_wf (jm_delete k m)"
  by (rule jm.wf_del)

lemma jm_delete_filter: "jm_delete k m = filter (\<lambda>x. fst x \<noteq> k) m"
  by (induction m) (auto simp: jm_delete_def)

lemma evict_oldest_wf: "jm_wf m \<Longrightarrow> jm_wf (evict_oldest n cap m)"
  by (induction n cap m rule: evict_oldest.induct) (auto simp: jm_wf_delete split: option.splits)

lemma evict_oldest_sub: "set (evict_oldest n cap m) \<subseteq> set m"
proof (induction n cap m rule: evict_oldest.induct)
  case (2 n cap m)
  show ?case
  proof (cases "length m > cap \<and> oldest_key m None \<noteq> None")
    case True
    then obtain k where k: "oldest_key m None = Some k" "length m > cap" by auto
    have "set (jm_delete k m) \<subseteq> set m" by (auto simp: jm_delete_filter)
    with "2.IH" [OF k(2,1)] have "set (evict_oldest n cap (jm_delete k m)) \<subseteq> set m" by (rule order_trans)
    with k show ?thesis by simp
  qed (auto split: option.splits)
qed simp

lemma prune_wf: "jm_wf m \<Longrightarrow> jm_wf (prune_map_by_ttl_and_cap m now ttl cap)"
  by (simp add: prune_map_by_ttl_and_cap_def Let_def evict_oldest_wf jm_wf_filter)

lemma prune_sub: "set (prune_map_by_ttl_and_cap m now ttl cap) \<subseteq> {x \<in> set m. now - de_at (snd x) \<le> ttl}"
  using evict_oldest_sub by (fastforce simp: prune_map_by_ttl_and_cap_def Let_def)

text \<open>
  The entry of a reservation made at time \<open>t\<close> is present, and every other entry is one of the keys
  \<open>touched\<close> since, or is evicted before it.
\<close>

definition keeps_parts :: "reservation \<Rightarrow> millis \<Rightarrow> string set \<Rightarrow> dedup_table \<Rightarrow> dedup_entry \<Rightarrow> dedup_table \<Rightarrow> bool" where
  "keeps_parts r t touched older e newer \<longleftrightarrow> de_token e = rv_token r \<and> t \<le> de_at e
     \<and> (\<forall>x \<in> set older. fst x \<in> touched \<or> de_at (snd x) \<le> t)
     \<and> (\<forall>x \<in> set newer. fst x \<in> touched \<or> de_at (snd x) < t)"

definition keeps :: "reservation \<Rightarrow> millis \<Rightarrow> string set \<Rightarrow> dedup_table \<Rightarrow> bool" where
  "keeps r t touched m \<longleftrightarrow> jm_wf m \<and>
     (\<exists>older e newer. m = older @ (rv_key r, e) # newer \<and> keeps_parts r t touched older e newer)"

lemma keepsI: "jm_wf (older @ (rv_key r, e) # newer) \<Longrightarrow> keeps_parts r t touched older e newer
    \<Longrightarrow> keeps r t touched (older @ (rv_key r, e) # newer)"
  unfolding keeps_def by blast

lemma keepsE:
  assumes "keeps r t touched m"
  obtains older e newer where "m = older @ (rv_key r, e) # newer" "jm_wf m" "keeps_parts r t touched older e newer"
  using assms unfolding keeps_def by blast

lemma wf_split:
  assumes "jm_wf (older @ (k, e) # newer)"
  shows "k \<notin> fst ` set older" "k \<notin> fst ` set newer" "distinct (map fst (older @ newer))"
  using assms by (auto simp: jm_wf_def jm_keys_def)

lemma split_unique:
  assumes "older @ (k, e) # newer = o2 @ (k, e2) # n2" "jm_wf (older @ (k, e) # newer)"
  shows "o2 = older \<and> e2 = e \<and> n2 = newer"
proof -
  have "takeWhile (\<lambda>x. fst x \<noteq> k) (as @ (k, c) # bs) = as \<and> dropWhile (\<lambda>x. fst x \<noteq> k) (as @ (k, c) # bs) = (k, c) # bs"
    if "k \<notin> fst ` set as" for as c bs
    using that by (induction as) auto
  note tw = this
  have "k \<notin> fst ` set older" "k \<notin> fst ` set o2"
    using wf_split(1) [OF assms(2)] wf_split(1) [OF assms(2) [unfolded assms(1)]] by simp_all
  from tw [OF this(1), of e newer] tw [OF this(2), of e2 n2] assms(1) show ?thesis by (metis list.inject prod.inject)
qed

lemma keeps_mono: "keeps r t A m \<Longrightarrow> A \<subseteq> B \<Longrightarrow> keeps r t B m"
  unfolding keeps_def keeps_parts_def by blast

lemma keeps_get:
  assumes "keeps r t touched m"
  obtains e where "jm_get m (rv_key r) = Some e" "de_token e = rv_token r" "t \<le> de_at e"
proof -
  from assms obtain older e newer where m: "m = older @ (rv_key r, e) # newer" "jm_wf m" "keeps_parts r t touched older e newer"
    by (rule keepsE)
  then have "jm_get m (rv_key r) = Some e" by (intro jm_get_SomeI) simp_all
  with m(3) that show thesis by (simp add: keeps_parts_def)
qed

lemma keeps_filter:
  assumes "keeps r t touched m" "\<And>e. de_token e = rv_token r \<Longrightarrow> t \<le> de_at e \<Longrightarrow> P (rv_key r, e)"
  shows "keeps r t touched (filter P m)"
proof -
  from assms(1) obtain older e newer where m: "m = older @ (rv_key r, e) # newer" "jm_wf m" "keeps_parts r t touched older e newer"
    by (rule keepsE)
  have f: "filter P m = filter P older @ (rv_key r, e) # filter P newer"
    using m(3) assms(2) [of e] by (simp add: m(1) keeps_parts_def)
  have "keeps_parts r t touched (filter P older) e (filter P newer)" using m(3) by (simp add: keeps_parts_def)
  then show ?thesis using jm_wf_filter [OF m(2), of P] unfolding f by (intro keepsI)
qed

lemma keeps_not_oldest:
  assumes k: "keeps r t touched m" and c: "finite touched" "card touched < cap" "cap < length m"
  shows "oldest_key m None \<noteq> Some (rv_key r)"
proof
  assume "oldest_key m None = Some (rv_key r)"
  from oldest_key_first [OF this] obtain o2 e2 n2 where d2: "m = o2 @ (rv_key r, e2) # n2"
    "\<forall>x \<in> set o2. de_at e2 < de_at (snd x)" "\<forall>x \<in> set n2. de_at e2 \<le> de_at (snd x)" by auto
  from k obtain older e newer where d: "m = older @ (rv_key r, e) # newer" "jm_wf m" "keeps_parts r t touched older e newer"
    by (rule keepsE)
  have eqs: "o2 = older \<and> e2 = e \<and> n2 = newer" by (rule split_unique) (use d(1,2) d2(1) in simp_all)
  have "fst x \<in> touched" if "x \<in> set (older @ newer)" for x
    using d2(2,3) d(3) that eqs by (fastforce simp: keeps_parts_def)
  then have "card (fst ` set (older @ newer)) \<le> card touched" using c(1) by (intro card_mono) auto
  moreover have "card (fst ` set (older @ newer)) = length older + length newer"
    using distinct_card [OF wf_split(3) [OF d(2) [unfolded d(1)]]] by (simp add: image_Un)
  ultimately show False using c(2,3) d(1) by simp
qed

lemma keeps_evict:
  "keeps r t touched m \<Longrightarrow> finite touched \<Longrightarrow> card touched < cap \<Longrightarrow> keeps r t touched (evict_oldest n cap m)"
proof (induction n cap m rule: evict_oldest.induct)
  case (2 n cap m)
  show ?case
  proof (cases "length m > cap \<and> oldest_key m None \<noteq> None")
    case True
    then obtain k where k: "oldest_key m None = Some k" "length m > cap" by auto
    with keeps_not_oldest [OF 2(2-4)] have "k \<noteq> rv_key r" by auto
    then have "keeps r t touched (jm_delete k m)"
      unfolding jm_delete_filter by (intro keeps_filter [OF 2(2)]) simp
    from "2.IH" [OF k(2,1) this 2(3,4)] k show ?thesis by simp
  qed (use 2(2) in \<open>auto split: option.splits\<close>)
qed simp

lemma keeps_prune:
  assumes "keeps r t touched m" "finite touched" "card touched < cap" "now - t \<le> ttl"
  shows "keeps r t touched (prune_map_by_ttl_and_cap m now ttl cap)"
  unfolding prune_map_by_ttl_and_cap_def Let_def
  by (intro keeps_evict keeps_filter [OF assms(1)] assms(2,3)) (use assms(4) in auto)


subsection \<open>Updates\<close>

lemma set_in_older: "k \<in> fst ` set older \<Longrightarrow> jm_set k v (older @ rest) = jm_set k v older @ rest"
  unfolding jm_set_def by (induction older) auto

lemma set_past_older: "k \<notin> fst ` set older \<Longrightarrow> jm_set k v (older @ rest) = older @ jm_set k v rest"
  unfolding jm_set_def by (induction older) auto

lemma set_entries: "x \<in> set (jm_set k v m) \<Longrightarrow> x = (k, v) \<or> x \<in> set m"
  unfolding jm_set_def by (induction m) (auto split: if_splits)

lemma jm_set_Cons: "jm_set k v (x # m) = (if fst x = k then (k, v) # m else x # jm_set k v m)"
  by (cases x) (simp add: jm_set_def)

lemma keeps_set_other:
  assumes "keeps r t touched m" "k \<noteq> rv_key r"
  shows "keeps r t (insert k touched) (jm_set k v m)"
proof -
  from assms(1) obtain older e newer where m: "m = older @ (rv_key r, e) # newer" "jm_wf m" "keeps_parts r t touched older e newer"
    by (rule keepsE)
  from jm.wf_set [OF m(2)] have wf: "jm_wf (jm_set k v m)" .
  have parts: "keeps_parts r t (insert k touched) o' e n'"
    if "\<And>x. x \<in> set o' \<Longrightarrow> x = (k, v) \<or> x \<in> set older" "\<And>x. x \<in> set n' \<Longrightarrow> x = (k, v) \<or> x \<in> set newer" for o' n'
    using m(3) that unfolding keeps_parts_def by (metis fst_conv insert_iff)
  show ?thesis
  proof (cases "k \<in> fst ` set older")
    case True
    with m(1) have "jm_set k v m = jm_set k v older @ (rv_key r, e) # newer" by (simp add: set_in_older)
    with wf parts [of "jm_set k v older" newer] set_entries [of _ k v older] show ?thesis by (metis keepsI)
  next
    case False
    with m(1) assms(2) have "jm_set k v m = older @ (rv_key r, e) # jm_set k v newer" by (simp add: set_past_older jm_set_Cons)
    with wf parts [of older "jm_set k v newer"] set_entries [of _ k v newer] show ?thesis by (metis keepsI)
  qed
qed

lemma keeps_set_same:
  assumes "keeps r t touched m" "t \<le> de_at e'" "de_token e' = rv_token r"
  shows "keeps r t touched (jm_set (rv_key r) e' m)"
proof -
  from assms(1) obtain older e newer where m: "m = older @ (rv_key r, e) # newer" "jm_wf m" "keeps_parts r t touched older e newer"
    by (rule keepsE)
  have "jm_set (rv_key r) e' m = older @ (rv_key r, e') # newer"
    using wf_split(1) [OF m(2) [unfolded m(1)]] by (simp add: m(1) set_past_older jm_set_Cons)
  moreover have "keeps_parts r t touched older e' newer" using m(3) assms(2,3) by (simp add: keeps_parts_def)
  ultimately show ?thesis using jm.wf_set [OF m(2), of "rv_key r" e'] keepsI by metis
qed

subsection \<open>Operations on a table\<close>

text \<open>When an operation leaves a reservation made at \<open>t\<close> alone, and the keys it touches.\<close>

fun op_within :: "reservation \<Rightarrow> millis \<Rightarrow> (millis \<Rightarrow> bool) \<Rightarrow> table_op \<Rightarrow> bool" where
  "op_within r t fresh (OpReserve k u) \<longleftrightarrow> t \<le> u \<and> fresh (u - t)"
| "op_within r t fresh (OpMark k u) \<longleftrightarrow> t \<le> u \<and> fresh (u - t)"
| "op_within r t fresh (OpCommit q u) \<longleftrightarrow> t \<le> u"
| "op_within r t fresh (OpRelease q) \<longleftrightarrow> q \<noteq> r"
| "op_within r t fresh OpSkip \<longleftrightarrow> True"

fun op_keys :: "table_op \<Rightarrow> string list" where
  "op_keys (OpReserve k u) = [k]"
| "op_keys (OpMark k u) = [k]"
| "op_keys (OpCommit q u) = [rv_key q]"
| "op_keys _ = []"

lemma keeps_commit:
  assumes "keeps r t touched (fst st)" "t \<le> u"
  shows "keeps r t (touched \<union> ({rv_key q} - {rv_key r})) (fst (table_commit q u st))"
proof (cases "commit_in q u (fst st)")
  case None
  with assms(1) show ?thesis by (auto simp: table_commit_def intro: keeps_mono)
next
  case (Some m)
  then obtain e where e: "jm_get (fst st) (rv_key q) = Some e" "de_token e = rv_token q"
    "m = jm_set (rv_key q) (e\<lparr>de_committed := True, de_at := u\<rparr>) (fst st)"
    by (auto simp: commit_in_def split: option.splits if_splits)
  have "keeps r t (touched \<union> ({rv_key q} - {rv_key r})) m"
  proof (cases "rv_key q = rv_key r")
    case True
    from assms(1) obtain e' where "jm_get (fst st) (rv_key r) = Some e'" "de_token e' = rv_token r" by (rule keeps_get)
    with e True have "keeps r t touched m" using assms by (simp add: keeps_set_same)
    with True show ?thesis by simp
  next
    case False
    with keeps_set_other [OF assms(1), of "rv_key q"] e(3) show ?thesis by (simp add: insert_Diff_if)
  qed
  with Some show ?thesis by (simp add: table_commit_def)
qed

lemma table_commit_sub:
  "jm_wf (fst st) \<Longrightarrow> jm_wf (fst (table_commit q u st))"
  "x \<in> set (fst (table_commit q u st)) \<Longrightarrow> x \<in> set (fst st) \<or> de_at (snd x) = u"
  by (auto simp: table_commit_def commit_in_def jm.wf_set dest!: set_entries split: option.splits if_splits)

lemma table_reserve_sub:
  "jm_wf (fst st) \<Longrightarrow> jm_wf (fst (snd (table_reserve fresh ttl cap k u st)))"
  "x \<in> set (fst (snd (table_reserve fresh ttl cap k u st))) \<Longrightarrow> x \<in> set (fst st) \<or> de_at (snd x) = u"
  by (auto simp: table_reserve_def Let_def prune_wf jm.wf_set dest!: set_entries dest: subsetD [OF prune_sub] split: if_splits)

text \<open>All operations up to a time leave only entries up to that time.\<close>

fun op_before :: "millis \<Rightarrow> table_op \<Rightarrow> bool" where
  "op_before t (OpReserve k u) \<longleftrightarrow> u \<le> t"
| "op_before t (OpMark k u) \<longleftrightarrow> u \<le> t"
| "op_before t (OpCommit q u) \<longleftrightarrow> u \<le> t"
| "op_before t _ \<longleftrightarrow> True"

definition table_before :: "millis \<Rightarrow> dedup_table \<Rightarrow> bool" where
  "table_before t m \<longleftrightarrow> jm_wf m \<and> (\<forall>x \<in> set m. de_at (snd x) \<le> t)"

lemma table_before_step:
  "table_before t (fst st) \<Longrightarrow> op_before t o' \<Longrightarrow> table_before t (fst (table_step fresh ttl cap o' st))"
proof (cases o')
  case (OpReserve k u)
  assume "table_before t (fst st)" "op_before t o'"
  then show ?thesis using table_reserve_sub [where st = st and k = k and u = u] by (fastforce simp: table_before_def OpReserve)
next
  case (OpCommit q u)
  assume "table_before t (fst st)" "op_before t o'"
  then show ?thesis using table_commit_sub [where st = st and q = q and u = u] by (fastforce simp: table_before_def OpCommit)
next
  case (OpMark k u)
  assume "table_before t (fst st)" "op_before t o'"
  then have "table_before t (fst (snd (table_reserve fresh ttl cap k u st)))" "u \<le> t"
    using table_reserve_sub [where st = st and k = k and u = u] by (fastforce simp: table_before_def OpMark)+
  then show ?thesis using table_commit_sub [where st = "snd (table_reserve fresh ttl cap k u st)" and u = u]
    by (fastforce simp: table_before_def OpMark split: prod.splits option.splits)
qed (auto simp: table_before_def release_in_def jm_delete_filter jm_wf_filter split: option.splits if_splits)

definition other_keys :: "('e \<Rightarrow> table_op) \<Rightarrow> reservation \<Rightarrow> 'e list \<Rightarrow> string list" where
  "other_keys f r es = filter (\<lambda>k. k \<noteq> rv_key r) (concat (map (op_keys \<circ> f) es))"

locale reservation_protocol =
  fixes fresh :: "millis \<Rightarrow> bool" and ttl :: millis and cap :: nat and slack :: millis
    and step :: "'e \<Rightarrow> 's \<Rightarrow> 's" and view :: "'s \<Rightarrow> dedup_table \<times> nat" and op_of :: "'e \<Rightarrow> table_op" and start :: 's
  assumes fresh_ttl: "fresh a \<Longrightarrow> a \<le> ttl"
    and fresh_down: "fresh a \<Longrightarrow> b \<le> a \<Longrightarrow> fresh b"
    and stale: "\<not> fresh a \<Longrightarrow> a \<le> ttl \<Longrightarrow> 0 < slack"
    and slack_pos: "0 \<le> slack" and cap_pos: "0 < cap"
    and view_step: "view (step e s) = table_step fresh ttl cap (op_of e) (view s)"
    and view_start: "fst (view start) = []"
begin

lemma reserve_keeps:
  assumes "keeps r t touched (fst st)" "finite touched" "card touched < cap" "fresh (u - t)"
  shows "keeps r t (touched \<union> ({k} - {rv_key r})) (fst (snd (table_reserve fresh ttl cap k u st)))"
    "fst (table_reserve fresh ttl cap (rv_key r) u st) = None"
proof -
  let ?m = "prune_map_by_ttl_and_cap (fst st) u ttl cap"
  have k: "keeps r t touched ?m" by (rule keeps_prune [OF assms(1-3) fresh_ttl [OF assms(4)]])
  then obtain e where e: "jm_get ?m (rv_key r) = Some e" "t \<le> de_at e" by (rule keeps_get)
  have busy: "fresh (u - de_at e)" by (rule fresh_down [OF assms(4)]) (use e(2) in simp)
  then show "fst (table_reserve fresh ttl cap (rv_key r) u st) = None" by (simp add: table_reserve_def e(1))
  show "keeps r t (touched \<union> ({k} - {rv_key r})) (fst (snd (table_reserve fresh ttl cap k u st)))"
  proof (cases "k = rv_key r")
    case True
    then show ?thesis using k busy by (simp add: table_reserve_def e(1))
  next
    case False
    have "keeps r t (insert k touched) ?m" by (rule keeps_mono [OF k subset_insertI])
    then show ?thesis using keeps_set_other [OF k False] False by (simp add: table_reserve_def Let_def insert_Diff_if)
  qed
qed

lemma step_keeps:
  assumes "keeps r t touched (fst st)" "finite touched" "card touched < cap" "op_within r t fresh o'"
  shows "keeps r t (touched \<union> (set (op_keys o') - {rv_key r})) (fst (table_step fresh ttl cap o' st))"
proof (cases o')
  case (OpReserve k u)
  then show ?thesis using reserve_keeps(1) [OF assms(1-3), of u k] assms(4) by simp
next
  case (OpCommit q u)
  then show ?thesis using keeps_commit [OF assms(1), of u q] assms(4) by simp
next
  case (OpRelease q)
  show ?thesis
  proof (cases "release_in q (fst st)")
    case (Some m)
    then obtain e where e: "jm_get (fst st) (rv_key q) = Some e" "de_token e = rv_token q" "m = filter (\<lambda>x. fst x \<noteq> rv_key q) (fst st)"
      by (auto simp: release_in_def jm_delete_filter split: option.splits if_splits)
    obtain e' where "jm_get (fst st) (rv_key r) = Some e'" "de_token e' = rv_token r" using assms(1) by (rule keeps_get)
    with e assms(4) have "rv_key q \<noteq> rv_key r" by (auto simp: OpRelease)
    then have "keeps r t touched m" unfolding e(3) by (intro keeps_filter [OF assms(1)]) simp
    with Some show ?thesis by (simp add: OpRelease)
  qed (use assms(1) in \<open>simp add: OpRelease\<close>)
next
  case (OpMark k u)
  obtain q st' where res: "table_reserve fresh ttl cap k u st = (q, st')" by (cases "table_reserve fresh ttl cap k u st")
  have kp: "keeps r t (touched \<union> ({k} - {rv_key r})) (fst st')"
    using reserve_keeps(1) [OF assms(1-3), of u k] assms(4) by (simp add: OpMark res)
  have "rv_key r' = k" if "q = Some r'" for r'
    using res that by (auto simp: table_reserve_def Let_def split: if_splits)
  then show ?thesis using kp keeps_commit [OF kp, of u] assms(4)
    by (auto simp: OpMark res split: option.splits intro: keeps_mono)
qed (use assms(1) in simp)

lemma run_keeps:
  "keeps r t {} (fst (view s)) \<Longrightarrow> list_all (op_within r t fresh \<circ> op_of) es \<Longrightarrow> length (other_keys op_of r es) < cap
   \<Longrightarrow> keeps r t (set (other_keys op_of r es)) (fst (view (fold step es s)))"
proof (induction es rule: rev_induct)
  case (snoc e es)
  then have "keeps r t (set (other_keys op_of r es)) (fst (view (fold step es s)))" "length (other_keys op_of r es) < cap"
    by (simp_all add: other_keys_def)
  moreover from this(2) have "card (set (other_keys op_of r es)) < cap" using card_length [of "other_keys op_of r es"] by simp
  ultimately have "keeps r t (set (other_keys op_of r es) \<union> (set (op_keys (op_of e)) - {rv_key r})) (fst (view (fold step (es @ [e]) s)))"
    using snoc.prems(2) by (simp add: view_step step_keeps)
  then show ?case by (rule keeps_mono) (auto simp: other_keys_def)
qed (simp add: other_keys_def)

lemma reservation_starts:
  assumes "table_reserve fresh ttl cap k t st = (Some r, st')" "table_before (t - slack) (fst st)"
  shows "keeps r t {} (fst st')" "rv_key r = k"
proof -
  let ?m = "prune_map_by_ttl_and_cap (fst st) t ttl cap" and ?e = "\<lparr>de_at = t, de_token = snd st, de_committed = False\<rparr>"
  have free: "\<not> (case jm_get ?m k of None \<Rightarrow> False | Some e \<Rightarrow> fresh (t - de_at e))" and r: "r = \<lparr>rv_key = k, rv_token = snd st\<rparr>"
    and st': "fst st' = jm_set k ?e ?m"
    using assms(1) by (auto simp: table_reserve_def Let_def split: if_splits)
  show "rv_key r = k" by (simp add: r)
  have wf: "jm_wf ?m" and bound: "\<And>x. x \<in> set ?m \<Longrightarrow> de_at (snd x) \<le> t - slack \<and> t - de_at (snd x) \<le> ttl"
    using assms(2) prune_sub [of "fst st" t ttl cap] by (auto simp: table_before_def prune_wf)
  have wf': "jm_wf (jm_set k ?e ?m)" by (rule jm.wf_set [OF wf])
  show "keeps r t {} (fst st')"
  proof (cases "k \<in> fst ` set ?m")
    case False
    then have "jm_set k ?e ?m = ?m @ (k, ?e) # []" using set_past_older [of k ?m ?e "[]"] by (simp add: jm_set_def)
    moreover have "de_at (snd x) \<le> t" if "x \<in> set ?m" for x using bound [OF that] slack_pos by linarith
    then have "keeps_parts r t {} ?m ?e []" by (auto simp: keeps_parts_def r)
    ultimately show ?thesis using wf' keepsI [of ?m r ?e "[]"] by (simp add: st' r)
  next
    case True
    then obtain older e newer where m: "?m = older @ (k, e) # newer" by (force dest: split_list)
    have "jm_get ?m k = Some e" by (rule jm_get_SomeI [OF wf]) (simp add: m)
    with free have "\<not> fresh (t - de_at e)" by simp
    moreover have "t - de_at e \<le> ttl" using bound [of "(k, e)"] m by simp
    ultimately have "0 < slack" by (rule stale)
    then have "de_at (snd x) < t" if "x \<in> set ?m" for x using bound [OF that] by linarith
    then have "keeps_parts r t {} older ?e newer" by (auto simp: keeps_parts_def r m intro: less_imp_le)
    moreover have "jm_set k ?e ?m = older @ (k, ?e) # newer"
      using wf_split(1) [OF wf [unfolded m]] by (simp add: m set_past_older jm_set_Cons)
    ultimately show ?thesis using wf' keepsI [of older r ?e newer] by (simp add: st' r)
  qed
qed

lemma run_before:
  assumes "list_all (op_before t \<circ> op_of) es"
  shows "table_before t (fst (view (fold step es start)))"
  using assms
proof (induction es rule: rev_induct)
  case Nil
  show ?case by (simp add: view_start table_before_def)
next
  case (snoc e es)
  then show ?case by (simp add: view_step table_before_step)
qed

text \<open>The contract: while a reservation stands, its key cannot be reserved again.\<close>

lemma reserved_once:
  assumes "list_all (op_before (t - slack) \<circ> op_of) earlier"
    and "table_reserve fresh ttl cap k t (view (fold step earlier start)) = (Some r, view s)"
    and "list_all (op_within r t fresh \<circ> op_of) later" "length (other_keys op_of r later) < cap" "fresh (u - t)"
  shows "fst (table_reserve fresh ttl cap k u (view (fold step later s))) = None"
proof -
  note st = reservation_starts [OF assms(2) run_before [OF assms(1)]]
  have kp: "keeps r t (set (other_keys op_of r later)) (fst (view (fold step later s)))"
    by (rule run_keeps [OF st(1) assms(3,4)])
  have "card (set (other_keys op_of r later)) < cap" using card_length [of "other_keys op_of r later"] assms(4) by simp
  from reserve_keeps(2) [OF kp _ this assms(5)] st(2) show ?thesis by simp
qed

end


subsection \<open>The two tables of the program\<close>

definition handled_op :: "rncp_event \<Rightarrow> table_op" where
  "handled_op e = (case e of
     TryReserve h t \<Rightarrow> (case normalize_message_hash h of None \<Rightarrow> OpSkip | Some k \<Rightarrow> OpReserve k t)
   | TryMark h t \<Rightarrow> (case normalize_message_hash h of None \<Rightarrow> OpSkip | Some k \<Rightarrow> OpMark k t)
   | Commit r t \<Rightarrow> OpCommit r t | Release r \<Rightarrow> OpRelease r | _ \<Rightarrow> OpSkip)"

definition share_op :: "rncp_event \<Rightarrow> table_op" where
  "share_op e = (case e of
     TryReserveShare h t \<Rightarrow> (case normalize_peer h of None \<Rightarrow> OpSkip | Some k \<Rightarrow> OpReserve k t)
   | TryConsumeShare h t \<Rightarrow> (case normalize_peer h of None \<Rightarrow> OpSkip | Some k \<Rightarrow> OpMark k t)
   | CommitShare r t \<Rightarrow> OpCommit r t | ReleaseShare r \<Rightarrow> OpRelease r | _ \<Rightarrow> OpSkip)"

definition handled_view :: "rncp_dedup \<Rightarrow> dedup_table \<times> nat" where
  "handled_view s = (rd_handled s, rd_handled_seq s)"

definition share_view :: "rncp_dedup \<Rightarrow> dedup_table \<times> nat" where
  "share_view s = (rd_shares s, rd_peer_seq s)"

definition handled_fresh :: "millis \<Rightarrow> bool" where "handled_fresh a \<longleftrightarrow> a \<le> RNCP_LXMF_CONTROL_HANDLED_TTL_MS"
definition share_fresh :: "millis \<Rightarrow> bool" where "share_fresh a \<longleftrightarrow> a < RNCP_REQUEST_ENABLE_COOLDOWN_MS"

lemma try_reserve_handled_view:
  assumes "normalize_message_hash h = Some k"
  shows "fst (try_reserve_handled h t s)
      = fst (table_reserve handled_fresh RNCP_LXMF_CONTROL_HANDLED_TTL_MS HANDLED_CAP k t (handled_view s))"
    "handled_view (snd (try_reserve_handled h t s))
      = snd (table_reserve handled_fresh RNCP_LXMF_CONTROL_HANDLED_TTL_MS HANDLED_CAP k t (handled_view s))"
  using assms by (simp_all add: try_reserve_handled_def table_reserve_def handled_view_def prune_handled_def handled_fresh_def
      Let_def split: option.splits)

lemma try_reserve_share_view:
  assumes "normalize_peer h = Some k"
  shows "fst (try_reserve_share h t s)
      = fst (table_reserve share_fresh RNCP_REQUEST_ENABLE_COOLDOWN_MS ALREADY_ENABLED_PEER_CAP k t (share_view s))"
    "share_view (snd (try_reserve_share h t s))
      = snd (table_reserve share_fresh RNCP_REQUEST_ENABLE_COOLDOWN_MS ALREADY_ENABLED_PEER_CAP k t (share_view s))"
  using assms by (simp_all add: try_reserve_share_def table_reserve_def share_view_def prune_already_enabled_peers_def share_fresh_def
      Let_def split: option.splits)

lemma commit_views:
  "handled_view (commit_handled r t s) = table_commit r t (handled_view s)" "share_view (commit_handled r t s) = share_view s"
  "share_view (commit_share r t s) = table_commit r t (share_view s)" "handled_view (commit_share r t s) = handled_view s"
  by (simp_all add: commit_handled_def commit_share_def table_commit_def handled_view_def share_view_def split: option.splits)

lemma release_views:
  "handled_view (release_handled r s) = (case release_in r (rd_handled s) of None \<Rightarrow> handled_view s | Some m \<Rightarrow> (m, rd_handled_seq s))"
  "share_view (release_share r s) = (case release_in r (rd_shares s) of None \<Rightarrow> share_view s | Some m \<Rightarrow> (m, rd_peer_seq s))"
  "share_view (release_handled r s) = share_view s" "handled_view (release_share r s) = handled_view s"
  by (simp_all add: release_handled_def release_share_def handled_view_def share_view_def Let_def split: option.splits)

lemma other_views:
  "share_view (snd (try_reserve_handled h t s)) = share_view s" "handled_view (snd (try_reserve_share h t s)) = handled_view s"
  "handled_view (snd (take_retry_allowed h s)) = handled_view s" "share_view (snd (take_retry_allowed h s)) = share_view s"
  by (simp_all add: try_reserve_handled_def try_reserve_share_def take_retry_allowed_def prune_handled_def
      prune_already_enabled_peers_def handled_view_def share_view_def Let_def split: option.splits)

lemma mark_views:
  "handled_view (snd (try_mark_handled h t s)) = handled_view (rncp_step (case fst (try_reserve_handled h t s) of
     None \<Rightarrow> TryReserve h t | Some r \<Rightarrow> Commit r t) (case fst (try_reserve_handled h t s) of None \<Rightarrow> s | Some r \<Rightarrow> snd (try_reserve_handled h t s)))"
  "share_view (snd (try_mark_handled h t s)) = share_view s"
  "handled_view (snd (try_consume_share h t s)) = handled_view s"
  by (auto simp: try_mark_handled_def try_consume_share_def commit_views other_views split: prod.splits option.splits)
    (metis other_views(1,2) snd_conv)+

lemma handled_sim:
  "handled_view (rncp_step e s) = table_step handled_fresh RNCP_LXMF_CONTROL_HANDLED_TTL_MS HANDLED_CAP (handled_op e) (handled_view s)"
proof (cases e)
  case (TryReserve h t)
  show ?thesis
  proof (cases "normalize_message_hash h")
    case None
    then show ?thesis by (simp add: TryReserve handled_op_def try_reserve_handled_def)
  qed (simp add: TryReserve handled_op_def try_reserve_handled_view)
next
  case (TryMark h t)
  show ?thesis
  proof (cases "normalize_message_hash h")
    case None
    then show ?thesis by (simp add: TryMark handled_op_def try_mark_handled_def try_reserve_handled_def)
  next
    case (Some k)
    obtain q s1 where q: "try_reserve_handled h t s = (q, s1)" by (cases "try_reserve_handled h t s")
    from try_reserve_handled_view [OF Some, of t s] have
      "table_reserve handled_fresh RNCP_LXMF_CONTROL_HANDLED_TTL_MS HANDLED_CAP k t (handled_view s) = (q, handled_view s1)"
      by (simp add: q prod_eq_iff)
    then show ?thesis by (cases q) (simp_all add: TryMark handled_op_def Some try_mark_handled_def q commit_views)
  qed
qed (simp_all add: handled_op_def commit_views release_views other_views mark_views, simp_all add: handled_view_def split: option.splits)

lemma share_sim:
  "share_view (rncp_step e s) = table_step share_fresh RNCP_REQUEST_ENABLE_COOLDOWN_MS ALREADY_ENABLED_PEER_CAP (share_op e) (share_view s)"
proof (cases e)
  case (TryReserveShare h t)
  show ?thesis
  proof (cases "normalize_peer h")
    case None
    then show ?thesis by (simp add: TryReserveShare share_op_def try_reserve_share_def)
  qed (simp add: TryReserveShare share_op_def try_reserve_share_view)
next
  case (TryConsumeShare h t)
  show ?thesis
  proof (cases "normalize_peer h")
    case None
    then show ?thesis by (simp add: TryConsumeShare share_op_def try_consume_share_def try_reserve_share_def)
  next
    case (Some k)
    obtain q s1 where q: "try_reserve_share h t s = (q, s1)" by (cases "try_reserve_share h t s")
    from try_reserve_share_view [OF Some, of t s] have
      "table_reserve share_fresh RNCP_REQUEST_ENABLE_COOLDOWN_MS ALREADY_ENABLED_PEER_CAP k t (share_view s) = (q, share_view s1)"
      by (simp add: q prod_eq_iff)
    then show ?thesis by (cases q) (simp_all add: TryConsumeShare share_op_def Some try_consume_share_def q commit_views)
  qed
qed (simp_all add: share_op_def commit_views release_views other_views mark_views, simp_all add: share_view_def split: option.splits)

interpretation handled: reservation_protocol handled_fresh RNCP_LXMF_CONTROL_HANDLED_TTL_MS HANDLED_CAP 0 rncp_step handled_view
    handled_op rncp_init
  by unfold_locales (rule handled_sim | simp add: handled_fresh_def HANDLED_CAP_def handled_view_def rncp_init_def)+

interpretation shares: reservation_protocol share_fresh RNCP_REQUEST_ENABLE_COOLDOWN_MS ALREADY_ENABLED_PEER_CAP 1 rncp_step share_view
    share_op rncp_init
  by unfold_locales (rule share_sim | simp add: share_fresh_def ALREADY_ENABLED_PEER_CAP_def share_view_def rncp_init_def)+

text \<open>A share with a peer, likewise: at most one in the cooldown unless the reservation is released.\<close>

lemma share_slot_once:
  assumes "try_reserve_share h t (rncp_run earlier) = (Some r, s)" "list_all (op_before (t - 1) \<circ> share_op) earlier"
    and "list_all (op_within r t share_fresh \<circ> share_op) later" "length (other_keys share_op r later) < 500"
    and "normalize_peer h' = normalize_peer h" "u - t < 10 * 60000"
  shows "fst (try_reserve_share h' u (fold rncp_step later s)) = None \<and> \<not> fst (try_consume_share h' u (fold rncp_step later s))"
proof -
  from assms(1) obtain k where k: "normalize_peer h = Some k" by (cases "normalize_peer h") (simp_all add: try_reserve_share_def)
  from try_reserve_share_view [OF k, of t "rncp_run earlier"] assms(1) have
    "table_reserve share_fresh RNCP_REQUEST_ENABLE_COOLDOWN_MS ALREADY_ENABLED_PEER_CAP k t (share_view (fold rncp_step earlier rncp_init))
      = (Some r, share_view s)" by (simp add: prod_eq_iff rncp_run_def)
  from shares.reserved_once [OF assms(2) this assms(3), of u] assms(4,6)
  have "fst (table_reserve share_fresh RNCP_REQUEST_ENABLE_COOLDOWN_MS ALREADY_ENABLED_PEER_CAP k u (share_view (fold rncp_step later s))) = None"
    by (simp add: ALREADY_ENABLED_PEER_CAP_def share_fresh_def RNCP_REQUEST_ENABLE_COOLDOWN_MS_def)
  then have "fst (try_reserve_share h' u (fold rncp_step later s)) = None" using try_reserve_share_view(1) k assms(5) by simp
  then show ?thesis by (auto simp: try_consume_share_def split: prod.splits option.splits)
qed

lemma handled_slot_once:
  assumes "try_reserve_handled h t (rncp_run earlier) = (Some r, s)" "list_all (op_before t \<circ> handled_op) earlier"
    and "list_all (op_within r t handled_fresh \<circ> handled_op) later" "length (other_keys handled_op r later) < 500"
    and "normalize_message_hash h' = normalize_message_hash h" "u - t \<le> 2 * 3600000"
  shows "fst (try_reserve_handled h' u (fold rncp_step later s)) = None \<and> \<not> fst (try_mark_handled h' u (fold rncp_step later s))"
proof -
  from assms(1) obtain k where k: "normalize_message_hash h = Some k"
    by (cases "normalize_message_hash h") (simp_all add: try_reserve_handled_def)
  from try_reserve_handled_view [OF k, of t "rncp_run earlier"] assms(1) have
    res: "table_reserve handled_fresh RNCP_LXMF_CONTROL_HANDLED_TTL_MS HANDLED_CAP k t (handled_view (fold rncp_step earlier rncp_init))
      = (Some r, handled_view s)" by (simp add: prod_eq_iff rncp_run_def)
  have "fst (table_reserve handled_fresh RNCP_LXMF_CONTROL_HANDLED_TTL_MS HANDLED_CAP k u (handled_view (fold rncp_step later s))) = None"
    by (rule handled.reserved_once [OF _ res assms(3)])
      (use assms(2,4,6) in \<open>simp_all add: HANDLED_CAP_def handled_fresh_def RNCP_LXMF_CONTROL_HANDLED_TTL_MS_def\<close>)
  then have "fst (try_reserve_handled h' u (fold rncp_step later s)) = None" using try_reserve_handled_view(1) k assms(5) by simp
  then show ?thesis by (auto simp: try_mark_handled_def split: prod.splits option.splits)
qed

text \<open>
  C38: a control message has its side effects at most once. After its hash was reserved at time \<open>t\<close>,
  neither a second reservation nor a combined reserve-and-commit of the same hash, in any spelling,
  succeeds within two hours, whatever happens in between, unless exactly this reservation is released;
  stale commits and releases of other reservations, also of the same hash, do not matter. Likewise for
  the share slot of a peer: after it was reserved, no second reservation and no reserve-and-commit for
  the same peer succeeds for ten minutes, unless that reservation is released. In both cases the clock
  does not go back (for the share slot, operations before the reservation are at least a millisecond
  earlier), and the only limit is the cap of the table: fewer than 500 operations on other keys.
\<close>

theorem control_message_handled_once:
  shows "(try_reserve_handled h t (rncp_run earlier) = (Some r, s) \<and> list_all (op_before t \<circ> handled_op) earlier
      \<and> list_all (op_within r t handled_fresh \<circ> handled_op) later \<and> length (other_keys handled_op r later) < 500
      \<and> normalize_message_hash h' = normalize_message_hash h \<and> u - t \<le> 2 * 3600000
    \<longrightarrow> fst (try_reserve_handled h' u (fold rncp_step later s)) = None \<and> \<not> fst (try_mark_handled h' u (fold rncp_step later s)))
   \<and> (try_reserve_share h t (rncp_run earlier) = (Some r, s) \<and> list_all (op_before (t - 1) \<circ> share_op) earlier
      \<and> list_all (op_within r t share_fresh \<circ> share_op) later \<and> length (other_keys share_op r later) < 500
      \<and> normalize_peer h' = normalize_peer h \<and> u - t < 10 * 60000
    \<longrightarrow> fst (try_reserve_share h' u (fold rncp_step later s)) = None \<and> \<not> fst (try_consume_share h' u (fold rncp_step later s)))"
  using handled_slot_once share_slot_once by blast

definition demo_hash :: string where "demo_hash = ''00112233445566aa''"

definition demo_peer :: string where "demo_peer = ''00112233445566778899aabbccddeeff''"

lemma control_message_handled_once_witness:
  "fst (try_reserve_handled ''00:11:22:33:44:55:66:AA'' 5000
     (fold rncp_step [Release \<lparr>rv_key = demo_hash, rv_token = 7\<rparr>, TryMark ''ffffffffffffffff'' 20, Commit \<lparr>rv_key = demo_hash, rv_token = 1\<rparr> 30]
       (snd (try_reserve_handled demo_hash 10 (rncp_run []))))) = None
   \<and> \<not> fst (try_consume_share demo_peer 5000
     (fold rncp_step [ReleaseShare \<lparr>rv_key = demo_peer, rv_token = 7\<rparr>] (snd (try_reserve_share demo_peer 10 (rncp_run [])))))"
proof
  have r: "fst (try_reserve_handled demo_hash 10 (rncp_run [])) = Some \<lparr>rv_key = demo_hash, rv_token = 1\<rparr>" by code_simp
  define s where "s = snd (try_reserve_handled demo_hash 10 (rncp_run []))"
  define later where "later = [Release \<lparr>rv_key = demo_hash, rv_token = 7\<rparr>, TryMark ''ffffffffffffffff'' 20,
    Commit \<lparr>rv_key = demo_hash, rv_token = 1\<rparr> 30]"
  have 1: "try_reserve_handled demo_hash 10 (rncp_run []) = (Some \<lparr>rv_key = demo_hash, rv_token = 1\<rparr>, s)"
    using r by (simp add: prod_eq_iff s_def)
  have 2: "list_all (op_before 10 \<circ> handled_op) []" by simp
  have 3: "list_all (op_within \<lparr>rv_key = demo_hash, rv_token = 1\<rparr> 10 handled_fresh \<circ> handled_op) later"
    unfolding later_def by code_simp
  have "other_keys handled_op \<lparr>rv_key = demo_hash, rv_token = 1\<rparr> later = [''ffffffffffffffff'']"
    unfolding later_def by code_simp
  then have 4: "length (other_keys handled_op \<lparr>rv_key = demo_hash, rv_token = 1\<rparr> later) < 500" by simp
  have 5: "normalize_message_hash ''00:11:22:33:44:55:66:AA'' = normalize_message_hash demo_hash" by code_simp
  have 6: "(5000 :: millis) - 10 \<le> 2 * 3600000" by simp
  from control_message_handled_once [THEN conjunct1, THEN mp, OF conjI [OF 1 conjI [OF 2 conjI [OF 3 conjI [OF 4 conjI [OF 5 6]]]]]]
  show "fst (try_reserve_handled ''00:11:22:33:44:55:66:AA'' 5000
     (fold rncp_step [Release \<lparr>rv_key = demo_hash, rv_token = 7\<rparr>, TryMark ''ffffffffffffffff'' 20, Commit \<lparr>rv_key = demo_hash, rv_token = 1\<rparr> 30]
       (snd (try_reserve_handled demo_hash 10 (rncp_run []))))) = None"
    by (simp add: s_def later_def)
next
  let ?r = "\<lparr>rv_key = demo_peer, rv_token = 1\<rparr>" and ?later = "[ReleaseShare \<lparr>rv_key = demo_peer, rv_token = 7\<rparr>]"
  define s where "s = snd (try_reserve_share demo_peer 10 (rncp_run []))"
  have "fst (try_reserve_share demo_peer 10 (rncp_run [])) = Some ?r" by code_simp
  then have 1: "try_reserve_share demo_peer 10 (rncp_run []) = (Some ?r, s)" by (simp add: prod_eq_iff s_def)
  have 2: "list_all (op_before (10 - 1) \<circ> share_op) []" by simp
  have 3: "list_all (op_within ?r 10 share_fresh \<circ> share_op) ?later" by code_simp
  have "other_keys share_op ?r ?later = []" by code_simp
  then have 4: "length (other_keys share_op ?r ?later) < 500" by simp
  have 5: "normalize_peer demo_peer = normalize_peer demo_peer" by (rule refl)
  have 6: "(5000 :: millis) - 10 < 10 * 60000" by simp
  from control_message_handled_once [THEN conjunct2, THEN mp, OF conjI [OF 1 conjI [OF 2 conjI [OF 3 conjI [OF 4 conjI [OF 5 6]]]]]]
  show "\<not> fst (try_consume_share demo_peer 5000
     (fold rncp_step [ReleaseShare \<lparr>rv_key = demo_peer, rv_token = 7\<rparr>] (snd (try_reserve_share demo_peer 10 (rncp_run [])))))"
    by (simp add: s_def)
qed

end
