(* ===== verification/Proxy_Path.thy ===== *)
theory Proxy_Path
  imports Complex_Main Js_String Js_Map
begin

text \<open>
  The gate between the renderer and the local Reticulum sidecar
  (\<^verbatim>\<open>src/main/reticulum-proxy-path.ts\<close>): which HTTP paths a renderer may have forwarded, with the
  protected routes of \<^verbatim>\<open>src/shared/games-types.ts\<close>, \<^verbatim>\<open>src/shared/reticulum-voice-memo-types.ts\<close>,
  \<^verbatim>\<open>src/main/reticulum-remote-paths.ts\<close> and \<^verbatim>\<open>src/main/reticulum-config-paths.ts\<close>, and the request
  timeouts. \<^verbatim>\<open>decodeURIComponent\<close> and the WHATWG \<^verbatim>\<open>URL\<close> parser are arguments; nothing is assumed of them.
\<close>

record url_parts =
  up_username :: string
  up_password :: string
  up_host :: string
  up_pathname :: string

text \<open>\<open>None\<close> is a thrown error. The base of the parser is \<^verbatim>\<open>http://127.0.0.1\<close>.\<close>

record url_lib =
  ul_decode :: "string \<Rightarrow> string option"
  ul_parse :: "string \<Rightarrow> url_parts option"

datatype proxy_error =
    PathRequired | PathTooLong | InvalidEncoding | InvalidSegments | PrefixRequired | InternalUnavailable
  | FactoryResetOnly | VoiceAudioOnly | VoiceMemoOnly | GamesOnly | RncpPickerOnly | NomadPickerOnly

datatype http_method = GET | POST | PUT | DELETE

record proxy_options =
  po_allow_factory_reset :: bool
  po_allow_dedicated_routes :: bool
  po_method :: "http_method option"

definition RETICULUM_PROXY_PATH_PREFIX :: string where "RETICULUM_PROXY_PATH_PREFIX = ''/api/v1/''"
definition RETICULUM_INTERNAL_PATH_PREFIX :: string where "RETICULUM_INTERNAL_PATH_PREFIX = ''/api/v1/internal/''"
definition RETICULUM_FACTORY_RESET_PATH :: string where "RETICULUM_FACTORY_RESET_PATH = ''/api/v1/system/factory-reset''"
definition RNCP_LISTENER_STATUS_API_PATH :: string where "RNCP_LISTENER_STATUS_API_PATH = ''/api/v1/rncp/listener''"
definition VOICE_AUDIO_API_PATH :: string where "VOICE_AUDIO_API_PATH = ''/api/v1/voice/audio''"
definition GAMES_API_PREFIX :: string where "GAMES_API_PREFIX = ''/api/v1/games/''"
definition NOMAD_CONTENT_SOURCE_API_PATH :: string where
  "NOMAD_CONTENT_SOURCE_API_PATH = ''/api/v1/nomadnetwork/serving/content-source''"
definition VOICE_MEMO_API_PATHS :: "string list" where
  "VOICE_MEMO_API_PATHS = [''/api/v1/voice/memo/start'', ''/api/v1/voice/memo/audio'', ''/api/v1/voice/memo/stop'', ''/api/v1/voice/memo/cancel'']"
definition RNCP_PICKER_GATED_API_PATHS :: "string list" where
  "RNCP_PICKER_GATED_API_PATHS = [''/api/v1/rncp/send'', ''/api/v1/rncp/fetch'', ''/api/v1/rncp/listener'']"

subsection \<open>Strings\<close>

text \<open>\<^verbatim>\<open>s.slice(0, i)\<close> and \<^verbatim>\<open>s.slice(i)\<close> for the first place \<open>i\<close> of a character, if it occurs.\<close>

definition before_char :: "char \<Rightarrow> string \<Rightarrow> string" where
  "before_char c s = takeWhile (\<lambda>d. d \<noteq> c) s"

definition from_char :: "char \<Rightarrow> string \<Rightarrow> string" where
  "from_char c s = dropWhile (\<lambda>d. d \<noteq> c) s"

definition strip_slashes :: "string \<Rightarrow> string" where
  "strip_slashes s = rev (dropWhile (\<lambda>c. c = CHR ''/'') (rev s))"

text \<open>Trailing slashes, but never the first character.\<close>

fun strip_end_slashes :: "string \<Rightarrow> nat \<Rightarrow> string" where
  "strip_end_slashes p 0 = p"
| "strip_end_slashes p (Suc n) = (if length p > 1 \<and> last p = CHR ''/'' then strip_end_slashes (butlast p) n else p)"

definition contains :: "string \<Rightarrow> string \<Rightarrow> bool" where
  "contains needle s \<longleftrightarrow> list_ex (\<lambda>i. take (length needle) (drop i s) = needle) [0..<Suc (length s)]"

subsection \<open>Protected routes\<close>

definition is_games_api_path :: "string \<Rightarrow> bool" where
  "is_games_api_path api_path =
     (let path_only = before_char (CHR ''?'') api_path in
      path_only = ''/api/v1/games'' \<or> prefix GAMES_API_PREFIX path_only)"

definition is_voice_memo_api_path :: "string \<Rightarrow> bool" where
  "is_voice_memo_api_path api_path = (hd (js_split (CHR ''?'') api_path) \<in> set VOICE_MEMO_API_PATHS)"

definition normalize_api_path :: "string \<Rightarrow> string" where
  "normalize_api_path api_path = strip_slashes (before_char (CHR ''?'') api_path)"

definition is_rncp_picker_gated_api_path :: "string \<Rightarrow> bool" where
  "is_rncp_picker_gated_api_path api_path =
     (let normalized = normalize_api_path api_path in
      normalized \<in> set RNCP_PICKER_GATED_API_PATHS \<or> list_ex (\<lambda>p. suffix p normalized) RNCP_PICKER_GATED_API_PATHS)"

definition is_nomad_content_source_api_path :: "string \<Rightarrow> bool" where
  "is_nomad_content_source_api_path api_path =
     (let normalized = normalize_api_path api_path in
      normalized = NOMAD_CONTENT_SOURCE_API_PATH \<or> suffix ''/nomadnetwork/serving/content-source'' normalized)"

subsection \<open>The gate\<close>

definition pathname_for_proxy_checks :: "url_lib \<Rightarrow> string \<Rightarrow> proxy_error + string" where
  "pathname_for_proxy_checks lib path =
     (case ul_parse lib path of
        None \<Rightarrow> Inl InvalidEncoding
      | Some url \<Rightarrow>
          if up_username url \<noteq> [] \<or> up_password url \<noteq> [] \<or> up_host url \<noteq> ''127.0.0.1'' then Inl InvalidSegments
          else Inr (up_pathname url))"

definition split_proxy_path :: "url_lib \<Rightarrow> string \<Rightarrow> proxy_error + (string \<times> string)" where
  "split_proxy_path lib api_path =
     (let trimmed = js_trim api_path in
      if trimmed = [] then Inl PathRequired
      else if length trimmed > 2048 then Inl PathTooLong
      else
        let without_fragment = hd (js_split (CHR ''#'') trimmed);
            raw_path = before_char (CHR ''?'') without_fragment;
            query = from_char (CHR ''?'') without_fragment;
            path = (if prefix ''/'' raw_path then raw_path else ''/'' @ raw_path)
        in case ul_decode lib path of
             None \<Rightarrow> Inl InvalidEncoding
           | Some decoded \<Rightarrow>
               let no_hash = before_char (CHR ''#'') decoded;
                   late_query = from_char (CHR ''?'') no_hash;
                   query = (if query = [] then late_query else query)
               in case pathname_for_proxy_checks lib (before_char (CHR ''?'') no_hash) of
                    Inl e \<Rightarrow> Inl e
                  | Inr pathname \<Rightarrow> Inr (strip_end_slashes pathname (length pathname), query))"

definition assert_dedicated_proxy_route :: "string \<Rightarrow> http_method option \<Rightarrow> proxy_error option" where
  "assert_dedicated_proxy_route path meth =
     (if path = VOICE_AUDIO_API_PATH then Some VoiceAudioOnly
      else if is_voice_memo_api_path path then Some VoiceMemoOnly
      else if is_games_api_path path then Some GamesOnly
      else if is_rncp_picker_gated_api_path path \<and> \<not> (meth = Some GET \<and> path = RNCP_LISTENER_STATUS_API_PATH) then Some RncpPickerOnly
      else if is_nomad_content_source_api_path path then Some NomadPickerOnly
      else None)"

definition assert_reticulum_proxy_path :: "url_lib \<Rightarrow> string \<Rightarrow> proxy_options \<Rightarrow> proxy_error + string" where
  "assert_reticulum_proxy_path lib api_path opts =
     (case split_proxy_path lib api_path of
        Inl e \<Rightarrow> Inl e
      | Inr (path, query) \<Rightarrow>
          if \<not> prefix RETICULUM_PROXY_PATH_PREFIX path then Inl PrefixRequired
          else if contains ''..'' path \<or> contains [CHR 0x5c] path \<or> contains [CHR 0x00] path then Inl InvalidSegments
          else if path = butlast RETICULUM_INTERNAL_PATH_PREFIX \<or> prefix RETICULUM_INTERNAL_PATH_PREFIX path then Inl InternalUnavailable
          else if path = RETICULUM_FACTORY_RESET_PATH \<and> \<not> po_allow_factory_reset opts then Inl FactoryResetOnly
          else if \<not> po_allow_dedicated_routes opts
          then (case assert_dedicated_proxy_route path (po_method opts) of Some e \<Rightarrow> Inl e | None \<Rightarrow> Inr (path @ query))
          else Inr (path @ query))"

subsection \<open>Timeouts\<close>

definition RETICULUM_PROXY_GET_TIMEOUT_MS :: millis where "RETICULUM_PROXY_GET_TIMEOUT_MS = 10000"
definition RETICULUM_TRANSPORT_QUERY_GET_TIMEOUT_MS :: millis where "RETICULUM_TRANSPORT_QUERY_GET_TIMEOUT_MS = 30000"
definition NOMAD_PATH_LOOKUP_SECS :: int where "NOMAD_PATH_LOOKUP_SECS = 15"
definition NOMAD_TCP_LINK_ESTABLISH_SECS :: int where "NOMAD_TCP_LINK_ESTABLISH_SECS = 15"
definition NOMAD_TCP_TRANSFER_GRACE_SECS :: int where "NOMAD_TCP_TRANSFER_GRACE_SECS = 15"
definition NOMAD_RF_PER_HOP_TIMEOUT_SECS :: int where "NOMAD_RF_PER_HOP_TIMEOUT_SECS = 6"
definition NOMAD_RF_FIRST_HOP_SECS :: int where "NOMAD_RF_FIRST_HOP_SECS = 6"
definition NOMAD_RF_TRANSFER_GRACE_SECS :: int where "NOMAD_RF_TRANSFER_GRACE_SECS = 30"
definition NOMAD_RF_MAX_OVERALL_SECS :: int where "NOMAD_RF_MAX_OVERALL_SECS = 180"
definition NOMAD_PROXY_GET_TIMEOUT_MS :: millis where "NOMAD_PROXY_GET_TIMEOUT_MS = (NOMAD_RF_MAX_OVERALL_SECS + 5) * 1000"

definition TRANSPORT_QUERY_GET_PATHS :: "string list" where
  "TRANSPORT_QUERY_GET_PATHS =
     [''/api/v1/peers'', ''/api/v1/interfaces'', ''/api/v1/topology'', ''/api/v1/packets'', ''/api/v1/lxmf/recent'']"

definition is_transport_query_get_path :: "string \<Rightarrow> bool" where
  "is_transport_query_get_path normalized = list_ex (\<lambda>p. normalized = p \<or> prefix (p @ ''/'') normalized) TRANSPORT_QUERY_GET_PATHS"

definition nomad_page_proxy_timeout_ms :: "string \<Rightarrow> millis" where
  "nomad_page_proxy_timeout_ms api_path = NOMAD_PROXY_GET_TIMEOUT_MS"

definition compute_proxy_get_timeout_ms :: "string \<Rightarrow> millis" where
  "compute_proxy_get_timeout_ms api_path =
     (let trimmed = js_trim api_path;
          path_only = hd (js_split (CHR ''?'') trimmed);
          normalized = (if prefix ''/'' path_only then path_only else ''/'' @ path_only)
      in if contains ''/api/v1/nomadnetwork/page/'' normalized \<or> contains ''/api/v1/nomadnetwork/file/'' normalized
            \<or> contains ''/api/v1/nomadnetwork/media/'' normalized
         then nomad_page_proxy_timeout_ms trimmed
         else if normalized = ''/api/v1/rrc/status'' \<or> normalized = ''/api/v1/rrc/rooms'' then RETICULUM_TRANSPORT_QUERY_GET_TIMEOUT_MS
         else if is_transport_query_get_path normalized then RETICULUM_TRANSPORT_QUERY_GET_TIMEOUT_MS
         else RETICULUM_PROXY_GET_TIMEOUT_MS)"

definition proxy_get_timeout_ms :: "string \<Rightarrow> (string, millis) jsmap \<Rightarrow> millis \<times> (string, millis) jsmap" where
  "proxy_get_timeout_ms api_path cache =
     (case jm_get cache api_path of
        Some t \<Rightarrow> (t, cache)
      | None \<Rightarrow> let t = compute_proxy_get_timeout_ms api_path in (t, jm_set api_path t cache))"

datatype egress_via = ViaRf | ViaTcp | ViaNetwork

definition parse_egress_via :: "string option \<Rightarrow> egress_via" where
  "parse_egress_via v =
     (if v = Some ''ble'' then ViaRf
      else if v = Some ''rf'' then ViaRf else if v = Some ''tcp'' then ViaTcp else ViaNetwork)"

text \<open>\<open>None\<close> is a number that is not finite.\<close>

definition bounded_nomad_hops :: "rat option \<Rightarrow> int" where
  "bounded_nomad_hops hops =
     (case hops of None \<Rightarrow> 8 | Some h \<Rightarrow> max 1 (min 32 (if h < 0 then - \<lfloor>- h\<rfloor> else \<lfloor>h\<rfloor>)))"

definition nomad_page_overall_timeout_secs :: "egress_via \<Rightarrow> rat option \<Rightarrow> int" where
  "nomad_page_overall_timeout_secs via hops =
     (if via = ViaRf then
        min NOMAD_RF_MAX_OVERALL_SECS
          (NOMAD_PATH_LOOKUP_SECS + (NOMAD_RF_FIRST_HOP_SECS + NOMAD_RF_PER_HOP_TIMEOUT_SECS * bounded_nomad_hops hops)
           + NOMAD_RF_TRANSFER_GRACE_SECS)
      else NOMAD_PATH_LOOKUP_SECS + NOMAD_TCP_LINK_ESTABLISH_SECS + NOMAD_TCP_TRANSFER_GRACE_SECS)"


subsection \<open>What the gate lets through\<close>

lemma strip_end_slashes_last:
  "length p \<le> n \<Longrightarrow> 1 < length (strip_end_slashes p n) \<Longrightarrow> last (strip_end_slashes p n) \<noteq> CHR ''/''"
  by (induction p n rule: strip_end_slashes.induct) (auto simp: le_diff_conv)

lemma contains_char: "contains [c] s \<longleftrightarrow> c \<in> set s"
proof
  assume "contains [c] s"
  then obtain i where "take (length [c]) (drop i s) = [c]" by (auto simp: contains_def list_ex_iff simp del: take_Suc)
  then have "c \<in> set (take (length [c]) (drop i s))" by simp
  then show "c \<in> set s" by (blast dest: in_set_takeD in_set_dropD)
next
  assume "c \<in> set s"
  then obtain i where "i < length s" "s ! i = c" by (auto simp: in_set_conv_nth)
  then have "take (length [c]) (drop i s) = [c]" "i \<in> set [0..<Suc (length s)]" by (simp_all add: Cons_nth_drop_Suc [symmetric])
  then show "contains [c] s" unfolding contains_def list_ex_iff by blast
qed

lemma contains_iff: "contains needle s \<longleftrightarrow> (\<exists>a b. s = a @ needle @ b)"
proof
  assume "contains needle s"
  then obtain i where "take (length needle) (drop i s) = needle" by (auto simp: contains_def list_ex_iff)
  then have "s = take i s @ needle @ drop (length needle) (drop i s)" by (metis append_take_drop_id)
  then show "\<exists>a b. s = a @ needle @ b" by blast
next
  assume "\<exists>a b. s = a @ needle @ b"
  then obtain a b where "s = a @ needle @ b" by blast
  then have "take (length needle) (drop (length a) s) = needle" "length a \<in> set [0..<Suc (length s)]" by auto
  then show "contains needle s" unfolding contains_def list_ex_iff by blast
qed

lemma split_query:
  assumes "split_proxy_path lib api_path = Inr (path, query)"
  shows "query = [] \<or> hd query = CHR ''?''" "CHR ''#'' \<notin> set query"
proof -
  have no_hash: "CHR ''#'' \<notin> set (from_char c (before_char (CHR ''#'') s))" for c s
    using set_dropWhileD set_takeWhileD by (fastforce simp: from_char_def before_char_def)
  have first: "from_char c s = [] \<or> hd (from_char c s) = c" for c s
    unfolding from_char_def using hd_dropWhile [of "\<lambda>d. d \<noteq> c" s] by (cases "dropWhile (\<lambda>d. d \<noteq> c) s = []") auto
  have frag: "CHR ''#'' \<notin> set (from_char c (hd (js_split (CHR ''#'') s)))" for c s
    using js_split_parts_no_sep [of "CHR ''#''" s] set_dropWhileD by (fastforce simp: from_char_def)
  from assms obtain decoded where "query = (let q = from_char (CHR ''?'') (hd (js_split (CHR ''#'') (js_trim api_path))) in
      if q = [] then from_char (CHR ''?'') (before_char (CHR ''#'') decoded) else q)"
    by (auto simp: split_proxy_path_def Let_def split: if_splits option.splits sum.splits)
  then show "query = [] \<or> hd query = CHR ''?''" "CHR ''#'' \<notin> set query"
    using first no_hash frag by (auto simp: Let_def split: if_splits)
qed

text \<open>The host of the accepted path is the sidecar's, and no trailing slash is left.\<close>

lemma split_path:
  assumes "split_proxy_path lib api_path = Inr (path, query)"
  shows "1 < length path \<Longrightarrow> last path \<noteq> CHR ''/''"
    "\<exists>asked url. ul_parse lib asked = Some url \<and> up_host url = ''127.0.0.1'' \<and> up_username url = [] \<and> up_password url = []
       \<and> path = strip_end_slashes (up_pathname url) (length (up_pathname url))"
proof -
  from assms obtain pathname asked where p: "pathname_for_proxy_checks lib asked = Inr pathname"
    "path = strip_end_slashes pathname (length pathname)"
    by (auto simp: split_proxy_path_def Let_def split: if_splits option.splits sum.splits)
  then show "1 < length path \<Longrightarrow> last path \<noteq> CHR ''/''" using strip_end_slashes_last [of pathname "length pathname"] by simp
  from p show "\<exists>asked url. ul_parse lib asked = Some url \<and> up_host url = ''127.0.0.1'' \<and> up_username url = [] \<and> up_password url = []
       \<and> path = strip_end_slashes (up_pathname url) (length (up_pathname url))"
    by (auto simp: pathname_for_proxy_checks_def split: option.splits if_splits)
qed

text \<open>The rules an accepted path has to obey, in the order in which a violation is reported.\<close>

definition proxy_rules :: "proxy_options \<Rightarrow> (proxy_error \<times> (string \<Rightarrow> bool)) list" where
  "proxy_rules opts =
     [(PrefixRequired, \<lambda>p. prefix ''/api/v1/'' p),
      (InvalidSegments, \<lambda>p. \<not> (\<exists>a b. p = a @ ''..'' @ b) \<and> CHR 0x5c \<notin> set p \<and> CHR 0x00 \<notin> set p),
      (InternalUnavailable, \<lambda>p. p \<noteq> ''/api/v1/internal'' \<and> \<not> prefix ''/api/v1/internal/'' p),
      (FactoryResetOnly, \<lambda>p. p \<noteq> ''/api/v1/system/factory-reset'' \<or> po_allow_factory_reset opts),
      (VoiceAudioOnly, \<lambda>p. p \<noteq> ''/api/v1/voice/audio'' \<or> po_allow_dedicated_routes opts),
      (VoiceMemoOnly, \<lambda>p. \<not> is_voice_memo_api_path p \<or> po_allow_dedicated_routes opts),
      (GamesOnly, \<lambda>p. \<not> is_games_api_path p \<or> po_allow_dedicated_routes opts),
      (RncpPickerOnly, \<lambda>p. \<not> is_rncp_picker_gated_api_path p \<or> po_allow_dedicated_routes opts
         \<or> po_method opts = Some GET \<and> p = ''/api/v1/rncp/listener''),
      (NomadPickerOnly, \<lambda>p. \<not> is_nomad_content_source_api_path p \<or> po_allow_dedicated_routes opts)]"

lemmas proxy_constants = RETICULUM_PROXY_PATH_PREFIX_def RETICULUM_INTERNAL_PATH_PREFIX_def RETICULUM_FACTORY_RESET_PATH_def
  VOICE_AUDIO_API_PATH_def RNCP_LISTENER_STATUS_API_PATH_def

lemma find_Cons: "find P (x # xs) = (if P x then Some x else find P xs)"
  by simp

text \<open>
  C39: what the gate forwards and why it refuses. Whatever the decoder and the URL parser do, a
  forwarded string is a path of the sidecar's own host followed by a query that starts with a question
  mark, if there is one, and holds no fragment; the path is not empty, does not end in a slash and obeys
  every rule: it is under the API prefix, without dot segments, backslashes or NUL, not internal, and
  not a destructive or dedicated route unless the caller is its dedicated handler. A refusal names
  either why the string could not be split or the first rule the path breaks.
\<close>

theorem proxy_path_verdict:
  "case assert_reticulum_proxy_path lib api_path opts of
     Inr forwarded \<Rightarrow>
       (\<exists>path query. forwarded = path @ query \<and> split_proxy_path lib api_path = Inr (path, query)
          \<and> (query = [] \<or> hd query = CHR ''?'') \<and> CHR ''#'' \<notin> set query
          \<and> last path \<noteq> CHR ''/'' \<and> list_all (\<lambda>(_, rule). rule path) (proxy_rules opts)
          \<and> (\<exists>asked url. ul_parse lib asked = Some url \<and> up_host url = ''127.0.0.1''
               \<and> up_username url = [] \<and> up_password url = [] \<and> prefix path (up_pathname url)))
   | Inl e \<Rightarrow>
       split_proxy_path lib api_path = Inl e
       \<or> (\<exists>path query. split_proxy_path lib api_path = Inr (path, query)
            \<and> map_option fst (find (\<lambda>(_, rule). \<not> rule path) (proxy_rules opts)) = Some e)"
proof (cases "split_proxy_path lib api_path")
  case (Inl e)
  then show ?thesis by (simp add: assert_reticulum_proxy_path_def)
next
  case (Inr pq)
  obtain path query where pq: "pq = (path, query)" by (cases pq)
  note split = Inr [unfolded pq]
  have verdict: "assert_reticulum_proxy_path lib api_path opts =
      (case find (\<lambda>(_, rule). \<not> rule path) (proxy_rules opts) of Some (e, _) \<Rightarrow> Inl e | None \<Rightarrow> Inr (path @ query))"
    by (simp add: assert_reticulum_proxy_path_def split proxy_constants assert_dedicated_proxy_route_def proxy_rules_def
        contains_char contains_iff [of "''..''"] split: option.splits) blast
  show ?thesis
  proof (cases "find (\<lambda>(_, rule). \<not> rule path) (proxy_rules opts)")
    case None
    then have rules: "list_all (\<lambda>(_, rule). rule path) (proxy_rules opts)" by (auto simp: find_None_iff list_all_iff)
    then have "prefix ''/api/v1/'' path" by (simp add: proxy_rules_def)
    then have "1 < length path" by (auto dest: prefix_length_le)
    note sp = split_path [OF split]
    have shorter: "prefix (strip_end_slashes p n) p" for p n
      by (induction p n rule: strip_end_slashes.induct) (auto intro: prefix_order.trans [OF _ prefixeq_butlast])
    from sp(2) shorter have "\<exists>asked url. ul_parse lib asked = Some url \<and> up_host url = ''127.0.0.1''
        \<and> up_username url = [] \<and> up_password url = [] \<and> prefix path (up_pathname url)" by blast
    with rules sp(1) [OF \<open>1 < length path\<close>] split_query [OF split] split show ?thesis by (auto simp: verdict None)
  next
    case (Some er)
    then show ?thesis by (cases er) (simp add: verdict split)
  qed
qed

text \<open>The main process waits longer for a page than the sidecar's own deadline.\<close>

lemma nomad_timeout_covers_deadline: "nomad_page_overall_timeout_secs via hops * 1000 < nomad_page_proxy_timeout_ms p"
  by (simp add: nomad_page_overall_timeout_secs_def nomad_page_proxy_timeout_ms_def NOMAD_PROXY_GET_TIMEOUT_MS_def
      NOMAD_RF_MAX_OVERALL_SECS_def NOMAD_PATH_LOOKUP_SECS_def NOMAD_TCP_LINK_ESTABLISH_SECS_def NOMAD_TCP_TRANSFER_GRACE_SECS_def min_less_iff_disj)

lemma proxy_get_timeout_cached:
  "snd (proxy_get_timeout_ms p c) = c' \<Longrightarrow> \<forall>q t. jm_get c q = Some t \<longrightarrow> t = compute_proxy_get_timeout_ms q
   \<Longrightarrow> fst (proxy_get_timeout_ms p c) = compute_proxy_get_timeout_ms p
     \<and> (\<forall>q t. jm_get c' q = Some t \<longrightarrow> t = compute_proxy_get_timeout_ms q)"
  by (auto simp: proxy_get_timeout_ms_def Let_def jm_simps split: option.splits if_splits)

end
