(* ===== verification/Auto_Resend.thy ===== *)
theory Auto_Resend
  imports Js_String Js_Map
begin

text \<open>
  Automatic resends of failed messages (\<^verbatim>\<open>src/renderer/lib/autoResend/autoResendController.ts\<close>,
  \<^verbatim>\<open>autoResendPolicy.ts\<close>): which sends of this session are tracked, when a failed one is scheduled
  again, and how each tracked send ends. The message store is part of the state as a function from
  identity and message id; its notifications, the timers and the clock are events. The send function
  of the caller is an event argument: its result, and what the store reported while it ran. The timer
  of a key runs exactly while the key has an entry, so it is not a state component of its own. What
  outcome listeners do is not modelled.
\<close>

definition REGULAR_MESSAGE_MAX_AUTO_RESENDS :: nat where "REGULAR_MESSAGE_MAX_AUTO_RESENDS = 3"
definition AUTO_RESEND_DELAYS_MS :: "millis list" where "AUTO_RESEND_DELAYS_MS = [15000, 60000, 180000]"
definition MAX_TRACKED_OUTBOUND :: nat where "MAX_TRACKED_OUTBOUND = 500"
definition MESHTASTIC_BROADCAST_NODE_NUM :: nat where "MESHTASTIC_BROADCAST_NODE_NUM = 0xffffffff"

definition auto_resend_delay_ms :: "nat \<Rightarrow> millis" where
  "auto_resend_delay_ms attempt = AUTO_RESEND_DELAYS_MS ! (min (max attempt 1) (length AUTO_RESEND_DELAYS_MS) - 1)"

datatype radio_protocol = Meshtastic | Meshcore | Reticulum
datatype message_status = Sending | Acked | Failed | OtherStatus
datatype resend_result = OutcomeAcked | OutcomeGaveUp

record message_record =
  mr_id :: string
  mr_to :: nat
  mr_payload :: string
  mr_channel_index :: int
  mr_tapback :: bool
  mr_reply_to :: "string option"
  mr_status :: message_status
  mr_room_server :: "nat option"
  mr_hash :: "string option"
  mr_reply_hash :: "string option"

record tracked_outbound =
  to_identity :: string
  to_protocol :: radio_protocol
  to_resends_used :: nat
  to_origin :: string

record resend_entry =
  re_identity :: string
  re_protocol :: radio_protocol
  re_message :: string
  re_attempt :: nat
  re_next_at :: millis

record resend_outcome =
  ro_identity :: string
  ro_protocol :: radio_protocol
  ro_origin :: string
  ro_result :: resend_result

record resend_args =
  ra_text :: string
  ra_channel_index :: int
  ra_destination :: "nat option"
  ra_reply_to :: "string option"
  ra_retry_of :: string

text \<open>Fixed for a session: the parser of emergency messages and the protocol of an identity.\<close>

record resend_env =
  ax_is_mecp :: "string \<Rightarrow> bool"
  ax_protocol_of :: "string \<Rightarrow> radio_protocol option"

record auto_resend =
  ar_entries :: "(string, resend_entry) jsmap"
  ar_tracked :: "(string, tracked_outbound) jsmap"
  ar_records :: "string \<Rightarrow> string \<Rightarrow> message_record option"
  ar_started :: bool
  ar_outcomes :: "resend_outcome list"
  ar_sent :: "(radio_protocol \<times> resend_args) list"

definition resend_init :: auto_resend where
  "resend_init = \<lparr>ar_entries = [], ar_tracked = [], ar_records = (\<lambda>_ _. None), ar_started = True, ar_outcomes = [], ar_sent = []\<rparr>"

subsection \<open>Helpers\<close>

definition protocol_name :: "radio_protocol \<Rightarrow> string" where
  "protocol_name p = (case p of Meshtastic \<Rightarrow> ''meshtastic'' | Meshcore \<Rightarrow> ''meshcore'' | Reticulum \<Rightarrow> ''reticulum'')"

definition auto_resend_key :: "radio_protocol \<Rightarrow> string \<Rightarrow> string" where
  "auto_resend_key p message_id = protocol_name p @ '':'' @ message_id"

definition auto_resend_message_id :: "string option \<Rightarrow> string option \<Rightarrow> nat option \<Rightarrow> string option" where
  "auto_resend_message_id store_id message_hash packet_id =
     (case store_id of Some s \<Rightarrow> Some s | None \<Rightarrow>
       (case message_hash of Some h \<Rightarrow> Some h | None \<Rightarrow> map_option dec_string packet_id))"

definition has_channel_delivery_ack :: "radio_protocol \<Rightarrow> bool" where
  "has_channel_delivery_ack p \<longleftrightarrow> p \<noteq> Meshcore"

definition is_broadcast_node_num :: "nat \<Rightarrow> bool" where
  "is_broadcast_node_num n \<longleftrightarrow> n mod 2 ^ 32 = MESHTASTIC_BROADCAST_NODE_NUM"

definition is_group_channel_record :: "message_record \<Rightarrow> bool" where
  "is_group_channel_record m \<longleftrightarrow>
     mr_channel_index m \<ge> 0 \<and> mr_room_server m = None \<and> (mr_to m = 0 \<or> is_broadcast_node_num (mr_to m))"

definition is_auto_resend_eligible :: "resend_env \<Rightarrow> radio_protocol \<Rightarrow> message_record \<Rightarrow> bool" where
  "is_auto_resend_eligible env p m =
     (if mr_tapback m then False
      else if mr_room_server m \<noteq> None then False
      else if ax_is_mecp env (mr_payload m) then False
      else if is_group_channel_record m \<and> \<not> has_channel_delivery_ack p then False
      else True)"

definition resend_args_for :: "message_record \<Rightarrow> resend_args" where
  "resend_args_for m =
     (let is_channel = is_group_channel_record m \<or> is_broadcast_node_num (mr_to m) in
      \<lparr>ra_text = mr_payload m, ra_channel_index = mr_channel_index m,
       ra_destination = (if is_channel then None else Some (mr_to m)),
       ra_reply_to = (case mr_reply_hash m of Some h \<Rightarrow> Some h | None \<Rightarrow> mr_reply_to m),
       ra_retry_of = (case mr_hash m of Some h \<Rightarrow> h | None \<Rightarrow> mr_id m)\<rparr>)"

definition emit_outcome :: "tracked_outbound \<Rightarrow> resend_result \<Rightarrow> auto_resend \<Rightarrow> auto_resend" where
  "emit_outcome info result s =
     s\<lparr>ar_outcomes := ar_outcomes s @ [\<lparr>ro_identity = to_identity info, ro_protocol = to_protocol info,
        ro_origin = to_origin info, ro_result = result\<rparr>]\<rparr>"

definition track_outbound :: "string \<Rightarrow> tracked_outbound \<Rightarrow> auto_resend \<Rightarrow> auto_resend" where
  "track_outbound key info s =
     (let kept = (if length (ar_tracked s) \<ge> MAX_TRACKED_OUTBOUND \<and> \<not> jm_has (ar_tracked s) key
                  then (case jm_keys (ar_tracked s) of [] \<Rightarrow> ar_tracked s | oldest # _ \<Rightarrow> jm_delete oldest (ar_tracked s))
                  else ar_tracked s)
      in s\<lparr>ar_tracked := jm_set key info kept\<rparr>)"

definition untrack :: "string \<Rightarrow> auto_resend \<Rightarrow> auto_resend" where
  "untrack key s = s\<lparr>ar_tracked := jm_delete key (ar_tracked s)\<rparr>"

definition clear_entry :: "string \<Rightarrow> auto_resend \<Rightarrow> auto_resend" where
  "clear_entry key s = s\<lparr>ar_entries := jm_delete key (ar_entries s)\<rparr>"

definition schedule :: "string \<Rightarrow> tracked_outbound \<Rightarrow> string \<Rightarrow> millis \<Rightarrow> auto_resend \<Rightarrow> auto_resend" where
  "schedule key info message_id now s =
     (let attempt = to_resends_used info + 1 in
      s\<lparr>ar_entries := jm_set key \<lparr>re_identity = to_identity info, re_protocol = to_protocol info, re_message = message_id,
         re_attempt = attempt, re_next_at = now + auto_resend_delay_ms attempt\<rparr> (ar_entries s)\<rparr>)"

subsection \<open>Operations\<close>

text \<open>The loop over a snapshot of the tracked sends; \<open>had_entry\<close> are the keys with an entry when it started.\<close>

fun evaluate_loop :: "millis \<Rightarrow> string list \<Rightarrow> (string, tracked_outbound) jsmap \<Rightarrow> auto_resend \<Rightarrow> auto_resend" where
  "evaluate_loop now had_entry [] s = s"
| "evaluate_loop now had_entry ((key, info) # rest) s =
     (let message_id = drop (length (protocol_name (to_protocol info)) + 1) key in
      case ar_records s (to_identity info) message_id of
        None \<Rightarrow> evaluate_loop now had_entry rest s
      | Some m \<Rightarrow>
          if mr_status m = Acked
          then evaluate_loop now had_entry rest (emit_outcome info OutcomeAcked (clear_entry key (untrack key s)))
          else if mr_status m \<noteq> Failed \<or> key \<in> set had_entry then evaluate_loop now had_entry rest s
          else if to_resends_used info \<ge> REGULAR_MESSAGE_MAX_AUTO_RESENDS
          then evaluate_loop now had_entry rest (emit_outcome info OutcomeGaveUp (untrack key s))
          else evaluate_loop now had_entry rest (schedule key info message_id now s))"

definition evaluate_tracked_outbound :: "millis \<Rightarrow> auto_resend \<Rightarrow> auto_resend" where
  "evaluate_tracked_outbound now s = evaluate_loop now (jm_keys (ar_entries s)) (ar_tracked s) s"

text \<open>The subscription to the store.\<close>

definition on_store_changed :: "millis \<Rightarrow> auto_resend \<Rightarrow> auto_resend" where
  "on_store_changed now s = (if ar_started s \<and> ar_tracked s \<noteq> [] then evaluate_tracked_outbound now s else s)"

definition on_renamed :: "resend_env \<Rightarrow> string \<Rightarrow> string \<Rightarrow> string \<Rightarrow> millis \<Rightarrow> auto_resend \<Rightarrow> auto_resend" where
  "on_renamed env identity from_id to_id now s =
     (case ax_protocol_of env identity of
        None \<Rightarrow> s
      | Some p \<Rightarrow>
          let from_key = auto_resend_key p from_id in
          case jm_get (ar_tracked s) from_key of
            None \<Rightarrow> s
          | Some info \<Rightarrow>
              let had = jm_has (ar_entries s) from_key;
                  s1 = track_outbound (auto_resend_key p to_id) info (clear_entry from_key (untrack from_key s))
              in if had then evaluate_tracked_outbound now s1 else s1)"

definition on_added :: "resend_env \<Rightarrow> string \<Rightarrow> message_record \<Rightarrow> auto_resend \<Rightarrow> auto_resend" where
  "on_added env identity m s =
     (if mr_status m \<noteq> Sending then s
      else case ax_protocol_of env identity of
        None \<Rightarrow> s
      | Some p \<Rightarrow>
          if \<not> is_auto_resend_eligible env p m then s
          else
            let key = auto_resend_key p (mr_id m) in
            if jm_has (ar_tracked s) key then s
            else track_outbound key \<lparr>to_identity = identity, to_protocol = p, to_resends_used = 0, to_origin = mr_id m\<rparr> s)"

datatype store_event =
    StoreAdded string message_record
  | StoreRenamed string string string
  | StoreChanged "string \<Rightarrow> string \<Rightarrow> message_record option"

fun store_step :: "resend_env \<Rightarrow> millis \<Rightarrow> store_event \<Rightarrow> auto_resend \<Rightarrow> auto_resend" where
  "store_step env now (StoreAdded identity m) s = (if ar_started s then on_added env identity m s else s)"
| "store_step env now (StoreRenamed identity from_id to_id) s =
     (if ar_started s then on_renamed env identity from_id to_id now s else s)"
| "store_step env now (StoreChanged recs) s = on_store_changed now (s\<lparr>ar_records := recs\<rparr>)"

text \<open>Dropping the failed bubble that a resend replaces; the row in the database is left out.\<close>

definition remove_superseded_bubble :: "radio_protocol \<Rightarrow> string \<Rightarrow> string \<Rightarrow> millis \<Rightarrow> auto_resend \<Rightarrow> auto_resend" where
  "remove_superseded_bubble p identity message_id now s =
     (if p = Reticulum then s
      else on_store_changed now (s\<lparr>ar_records := (ar_records s)(identity := (ar_records s identity)(message_id := None))\<rparr>))"

text \<open>How the send function ended: an exception, nothing sent, or the new store id.\<close>

datatype send_result = SendThrew | SendReturned "string option"

definition new_id_of :: "send_result \<Rightarrow> string option" where
  "new_id_of r = (case r of SendThrew \<Rightarrow> None | SendReturned None \<Rightarrow> None | SendReturned (Some i) \<Rightarrow> if i = [] then None else Some i)"

definition finish_resend :: "resend_entry \<Rightarrow> tracked_outbound \<Rightarrow> send_result \<Rightarrow> millis \<Rightarrow> auto_resend \<Rightarrow> auto_resend" where
  "finish_resend entry info result now s =
     (case new_id_of result of
        None \<Rightarrow> emit_outcome info OutcomeGaveUp s
      | Some new_id \<Rightarrow>
          let s1 = track_outbound (auto_resend_key (re_protocol entry) new_id)
                \<lparr>to_identity = re_identity entry, to_protocol = re_protocol entry, to_resends_used = re_attempt entry,
                 to_origin = to_origin info\<rparr> s
          in if new_id \<noteq> re_message entry
             then remove_superseded_bubble (re_protocol entry) (re_identity entry) (re_message entry) now s1
             else s1)"

text \<open>The timer callback up to the call of the send function: what it sends, and the state meanwhile.\<close>

definition start_resend :: "string \<Rightarrow> auto_resend \<Rightarrow> (resend_entry \<times> tracked_outbound) option \<times> auto_resend" where
  "start_resend key s =
     (let s1 = clear_entry key s in
      case jm_get (ar_entries s) key of
        None \<Rightarrow> (None, s1)
      | Some entry \<Rightarrow>
          if \<not> ar_started s then (None, s1)
          else case ar_records s1 (re_identity entry) (re_message entry) of
            None \<Rightarrow> (None, s1)
          | Some m \<Rightarrow>
              if mr_status m \<noteq> Failed then (None, s1)
              else
                let info = (case jm_get (ar_tracked s1) key of Some i \<Rightarrow> i | None \<Rightarrow>
                      \<lparr>to_identity = re_identity entry, to_protocol = re_protocol entry,
                       to_resends_used = re_attempt entry - 1, to_origin = re_message entry\<rparr>);
                    s2 = untrack key s1
                in (Some (entry, info), s2\<lparr>ar_sent := ar_sent s2 @ [(re_protocol entry, resend_args_for m)]\<rparr>))"

definition fire_resend :: "resend_env \<Rightarrow> string \<Rightarrow> store_event list \<Rightarrow> send_result \<Rightarrow> millis \<Rightarrow> auto_resend \<Rightarrow> auto_resend" where
  "fire_resend env key during result now s =
     (case start_resend key s of
        (None, s1) \<Rightarrow> s1
      | (Some (entry, info), s1) \<Rightarrow> finish_resend entry info result now (fold (store_step env now) during s1))"

definition cancel_auto_resend :: "radio_protocol \<Rightarrow> string \<Rightarrow> auto_resend \<Rightarrow> auto_resend" where
  "cancel_auto_resend p message_id s =
     (let key = auto_resend_key p message_id in untrack key (clear_entry key s))"

datatype resend_event =
    StoreEvent store_event millis
  | TimerFired string "store_event list" send_result millis
  | CancelRetry radio_protocol string
  | Teardown

fun resend_step :: "resend_env \<Rightarrow> resend_event \<Rightarrow> auto_resend \<Rightarrow> auto_resend" where
  "resend_step env (StoreEvent e now) s = store_step env now e s"
| "resend_step env (TimerFired key during result now) s = fire_resend env key during result now s"
| "resend_step env (CancelRetry p message_id) s = cancel_auto_resend p message_id s"
| "resend_step env Teardown s = s\<lparr>ar_started := False\<rparr>"


subsection \<open>Sums over keys\<close>

text \<open>The sum of a weight with finite support over the keys outside \<open>X\<close>.\<close>

definition tot :: "string set \<Rightarrow> (string \<Rightarrow> nat) \<Rightarrow> nat" where
  "tot X w = (\<Sum>k \<in> {k. w k \<noteq> 0} - X. w k)"

definition fin_supp :: "(string \<Rightarrow> nat) \<Rightarrow> bool" where
  "fin_supp w \<longleftrightarrow> finite {k. w k \<noteq> 0}"

lemma tot_superset: "finite K \<Longrightarrow> {k. w k \<noteq> 0} \<subseteq> K \<Longrightarrow> tot X w = (\<Sum>k \<in> K - X. w k)"
  unfolding tot_def by (rule sum.mono_neutral_left) auto

lemma tot_le:
  assumes "fin_supp w" "fin_supp g" "\<And>k. k \<notin> X \<Longrightarrow> w' k \<le> w k + g k" "fin_supp w'"
  shows "tot X w' \<le> tot X w + tot X g"
proof -
  define K where "K = {k. w k \<noteq> 0} \<union> {k. g k \<noteq> 0} \<union> {k. w' k \<noteq> 0}"
  have K: "finite K" using assms by (simp add: K_def fin_supp_def)
  have "(\<Sum>k \<in> K - X. w' k) \<le> (\<Sum>k \<in> K - X. w k + g k)" by (rule sum_mono) (use assms(3) in blast)
  moreover have "tot X w = (\<Sum>k \<in> K - X. w k)" "tot X g = (\<Sum>k \<in> K - X. g k)" "tot X w' = (\<Sum>k \<in> K - X. w' k)"
    by (rule tot_superset [OF K], force simp: K_def)+
  ultimately show ?thesis by (simp add: sum.distrib)
qed

lemma tot_mono: "fin_supp w \<Longrightarrow> fin_supp w' \<Longrightarrow> (\<And>k. k \<notin> X \<Longrightarrow> w' k \<le> w k) \<Longrightarrow> tot X w' \<le> tot X w"
  using tot_le [of w "\<lambda>_. 0" X w'] by (simp add: fin_supp_def tot_def)

lemma tot_remove:
  assumes "fin_supp w" "a \<notin> X"
  shows "tot X w = tot (insert a X) w + w a"
proof -
  define K where "K = insert a {k. w k \<noteq> 0}"
  have K: "finite K" "{k. w k \<noteq> 0} \<subseteq> K" using assms by (auto simp: K_def fin_supp_def)
  have "tot X w = (\<Sum>k \<in> insert a (K - insert a X). w k)"
    unfolding tot_superset [OF K] by (rule sum.cong) (use assms(2) in \<open>auto simp: K_def\<close>)
  also have "\<dots> = w a + (\<Sum>k \<in> K - insert a X. w k)" by (rule sum.insert) (use K in auto)
  finally show ?thesis unfolding tot_superset [OF K] by simp
qed

lemma tot_inside: "a \<in> X \<Longrightarrow> tot (insert a X) w = tot X w"
  by (simp add: insert_absorb)

subsection \<open>Budgets\<close>

text \<open>
  The resends a key can still cause, and whether it can still cause an outcome; both count a key
  with a scheduled resend even when its tracking was evicted.
\<close>

definition key_weight :: "auto_resend \<Rightarrow> string \<Rightarrow> nat" where
  "key_weight s k = max (case jm_get (ar_entries s) k of None \<Rightarrow> 0 | Some e \<Rightarrow> 4 - re_attempt e)
     (case jm_get (ar_tracked s) k of None \<Rightarrow> 0 | Some i \<Rightarrow> 3 - to_resends_used i)"

definition key_live :: "auto_resend \<Rightarrow> string \<Rightarrow> nat" where
  "key_live s k = (if jm_get (ar_entries s) k \<noteq> None \<or> jm_get (ar_tracked s) k \<noteq> None then 1 else 0)"

definition send_budget :: "string set \<Rightarrow> auto_resend \<Rightarrow> nat" where
  "send_budget X s = length (ar_sent s) + tot X (key_weight s)"

definition outcome_budget :: "string set \<Rightarrow> auto_resend \<Rightarrow> nat" where
  "outcome_budget X s = length (ar_outcomes s) + tot X (key_live s)"

lemma live_finite: "finite {k. jm_get m k \<noteq> None}"
proof -
  have "{k. jm_get m k \<noteq> None} = set (jm_keys m)" using jm.keys_get [of _ m] by auto
  then show ?thesis by simp
qed

lemma fin_supp_weights [simp]: "fin_supp (key_weight s)" "fin_supp (key_live s)"
proof -
  have f: "finite ({k. jm_get (ar_entries s) k \<noteq> None} \<union> {k. jm_get (ar_tracked s) k \<noteq> None})" by (intro finite_UnI live_finite)
  show "fin_supp (key_weight s)" "fin_supp (key_live s)"
    unfolding fin_supp_def by (rule finite_subset [OF _ f], force simp: key_weight_def key_live_def split: option.splits if_splits)+
qed

definition resend_inv :: "auto_resend \<Rightarrow> bool" where
  "resend_inv s \<longleftrightarrow> jm_wf (ar_entries s) \<and> jm_wf (ar_tracked s) \<and> length (ar_tracked s) \<le> MAX_TRACKED_OUTBOUND
     \<and> (\<forall>k i. jm_get (ar_tracked s) k = Some i \<longrightarrow> (\<exists>m. k = auto_resend_key (to_protocol i) m))
     \<and> (\<forall>k e. jm_get (ar_entries s) k = Some e \<longrightarrow> 1 \<le> re_attempt e \<and> re_attempt e \<le> 3)"

lemma resend_invD:
  assumes "resend_inv s"
  shows "jm_wf (ar_entries s)" "jm_wf (ar_tracked s)" "length (ar_tracked s) \<le> MAX_TRACKED_OUTBOUND"
    "jm_get (ar_tracked s) k = Some i \<Longrightarrow> \<exists>m. k = auto_resend_key (to_protocol i) m"
    "jm_get (ar_entries s) k = Some e \<Longrightarrow> 1 \<le> re_attempt e \<and> re_attempt e \<le> 3"
  using assms by (auto simp: resend_inv_def)

lemma auto_resend_key_inject: "auto_resend_key p a = auto_resend_key q b \<Longrightarrow> p = q \<and> a = b"
  by (cases p; cases q) (simp_all add: auto_resend_key_def protocol_name_def)

lemma drop_auto_resend_key [simp]: "drop (Suc (length (protocol_name p))) (auto_resend_key p m) = m"
  by (simp add: auto_resend_key_def)

lemma length_delete_le: "length (jm_delete k m) \<le> length m"
  using jm.size_del [of k m] by simp

lemma clear_entry_simps [simp]:
  "ar_tracked (clear_entry k s) = ar_tracked s" "ar_entries (clear_entry k s) = jm_delete k (ar_entries s)"
  "ar_sent (clear_entry k s) = ar_sent s" "ar_outcomes (clear_entry k s) = ar_outcomes s"
  "ar_records (clear_entry k s) = ar_records s" "ar_started (clear_entry k s) = ar_started s"
  by (simp_all add: clear_entry_def)

lemma untrack_simps [simp]:
  "ar_tracked (untrack k s) = jm_delete k (ar_tracked s)" "ar_entries (untrack k s) = ar_entries s"
  "ar_sent (untrack k s) = ar_sent s" "ar_outcomes (untrack k s) = ar_outcomes s"
  "ar_records (untrack k s) = ar_records s" "ar_started (untrack k s) = ar_started s"
  by (simp_all add: untrack_def)

lemma emit_outcome_simps [simp]:
  "ar_tracked (emit_outcome i r s) = ar_tracked s" "ar_entries (emit_outcome i r s) = ar_entries s"
  "ar_sent (emit_outcome i r s) = ar_sent s" "length (ar_outcomes (emit_outcome i r s)) = Suc (length (ar_outcomes s))"
  "ar_records (emit_outcome i r s) = ar_records s" "ar_started (emit_outcome i r s) = ar_started s"
  by (simp_all add: emit_outcome_def)

lemma schedule_simps [simp]:
  "ar_tracked (schedule k i m now s) = ar_tracked s" "ar_sent (schedule k i m now s) = ar_sent s"
  "ar_outcomes (schedule k i m now s) = ar_outcomes s" "ar_records (schedule k i m now s) = ar_records s"
  "ar_started (schedule k i m now s) = ar_started s"
  by (simp_all add: schedule_def Let_def)

lemma track_outbound_simps [simp]:
  "ar_entries (track_outbound k i s) = ar_entries s" "ar_sent (track_outbound k i s) = ar_sent s"
  "ar_outcomes (track_outbound k i s) = ar_outcomes s" "ar_records (track_outbound k i s) = ar_records s"
  "ar_started (track_outbound k i s) = ar_started s"
  by (simp_all add: track_outbound_def Let_def)

lemma track_outbound_get:
  "jm_get (ar_tracked (track_outbound k i s)) k = Some i"
  "j \<noteq> k \<Longrightarrow> jm_get (ar_tracked (track_outbound k i s)) j \<in> {None, jm_get (ar_tracked s) j}"
  by (auto simp: track_outbound_def Let_def jm_simps split: list.splits)

lemma track_outbound_inv:
  assumes "resend_inv s" "k = auto_resend_key (to_protocol i) m"
  shows "resend_inv (track_outbound k i s)"
proof -
  define kept where "kept = (if length (ar_tracked s) \<ge> MAX_TRACKED_OUTBOUND \<and> \<not> jm_has (ar_tracked s) k
      then (case jm_keys (ar_tracked s) of [] \<Rightarrow> ar_tracked s | oldest # _ \<Rightarrow> jm_delete oldest (ar_tracked s)) else ar_tracked s)"
  have t: "ar_tracked (track_outbound k i s) = jm_set k i kept" by (simp add: track_outbound_def Let_def kept_def)
  note inv = resend_invD [OF assms(1)]
  have wf: "jm_wf kept" using inv(2) by (auto simp: kept_def jm.wf_del split: list.splits)
  have get: "jm_get kept j \<in> {None, jm_get (ar_tracked s) j}" for j
    by (auto simp: kept_def jm_simps split: list.splits)
  have "length (jm_set k i kept) \<le> MAX_TRACKED_OUTBOUND"
  proof (cases "jm_has (ar_tracked s) k")
    case True
    then have "kept = ar_tracked s" by (simp add: kept_def)
    with True inv(3) jm.size_set_present [of k kept i] show ?thesis by (simp add: jm_has_def)
  next
    case False
    have "length kept < MAX_TRACKED_OUTBOUND"
    proof (cases "length (ar_tracked s) \<ge> MAX_TRACKED_OUTBOUND")
      case True
      then have "ar_tracked s \<noteq> []" by (auto simp: MAX_TRACKED_OUTBOUND_def)
      then obtain oldest rest where "jm_keys (ar_tracked s) = oldest # rest" by (cases "jm_keys (ar_tracked s)") (auto simp: jm_keys_def)
      moreover from this have "length (ar_tracked s) = Suc (length rest)" by (metis length_Cons length_jm_keys)
      ultimately show ?thesis using True False inv(3) jm.size_del_present [of oldest "ar_tracked s"] by (simp add: kept_def)
    qed (use False in \<open>simp add: kept_def\<close>)
    with jm.size_set [of k i kept] show ?thesis by simp
  qed
  with inv wf get assms show ?thesis unfolding resend_inv_def t
    by (simp add: jm.wf_set) (metis (no_types, lifting) fun_upd_apply insertE jm.get_set option.distinct(1) option.inject singletonD)
qed


subsection \<open>Evaluation keeps within the budgets\<close>

text \<open>Nothing happens to the keys of \<open>X\<close>: the store does not yet report how their sends ended.\<close>

definition undecided :: "string set \<Rightarrow> (string \<Rightarrow> string \<Rightarrow> message_record option) \<Rightarrow> bool" where
  "undecided X recs \<longleftrightarrow> (\<forall>p m identity r. auto_resend_key p m \<in> X \<longrightarrow> recs identity m = Some r
     \<longrightarrow> mr_status r \<noteq> Acked \<and> mr_status r \<noteq> Failed)"

definition steady :: "string set \<Rightarrow> auto_resend \<Rightarrow> auto_resend \<Rightarrow> bool" where
  "steady X s s' \<longleftrightarrow> resend_inv s' \<and> ar_sent s' = ar_sent s \<and> ar_records s' = ar_records s \<and> ar_started s' = ar_started s
     \<and> (\<forall>k. key_weight s' k \<le> key_weight s k) \<and> (\<forall>k. key_live s' k \<le> key_live s k)
     \<and> outcome_budget X s' \<le> outcome_budget X s
     \<and> (\<forall>k \<in> X. jm_get (ar_entries s') k = jm_get (ar_entries s) k)"

lemma steady_refl [simp]: "resend_inv s \<Longrightarrow> steady X s s"
  by (simp add: steady_def)

lemma steady_trans: "steady X s s' \<Longrightarrow> steady X s' s'' \<Longrightarrow> steady X s s''"
  unfolding steady_def by (intro conjI allI ballI; (elim conjE)?; (simp; fail | metis order_trans))

lemma resend_inv_clear: "resend_inv s \<Longrightarrow> resend_inv (clear_entry k s)"
  by (auto simp: resend_inv_def jm.wf_del jm_simps)

lemma resend_inv_untrack: "resend_inv s \<Longrightarrow> resend_inv (untrack k s)"
  using length_delete_le [of k "ar_tracked s"] by (auto simp: resend_inv_def jm.wf_del jm_simps)

lemma resend_inv_emit: "resend_inv (emit_outcome i r s) = resend_inv s"
  by (simp add: resend_inv_def)

lemma outcome_used:
  assumes "k \<notin> X" "key_live s k = 1" "key_live s' k = 0" "\<And>j. key_live s' j \<le> key_live s j"
    "length (ar_outcomes s') = Suc (length (ar_outcomes s))"
  shows "outcome_budget X s' \<le> outcome_budget X s"
proof -
  have "tot X (key_live s) = tot (insert k X) (key_live s) + 1" "tot X (key_live s') = tot (insert k X) (key_live s')"
    using tot_remove [of "key_live s" k X] tot_remove [of "key_live s'" k X] assms(1-3) by simp_all
  moreover have "tot (insert k X) (key_live s') \<le> tot (insert k X) (key_live s)" by (rule tot_mono) (simp_all add: assms(4))
  ultimately show ?thesis by (simp add: outcome_budget_def assms(5))
qed

lemma no_outcome:
  "(\<And>j. key_live s' j \<le> key_live s j) \<Longrightarrow> ar_outcomes s' = ar_outcomes s \<Longrightarrow> outcome_budget X s' \<le> outcome_budget X s"
  by (auto simp: outcome_budget_def intro: tot_mono)

definition evaluate_one :: "millis \<Rightarrow> string list \<Rightarrow> string \<times> tracked_outbound \<Rightarrow> auto_resend \<Rightarrow> auto_resend" where
  "evaluate_one now had_entry x s =
     (case x of (key, info) \<Rightarrow>
       let message_id = drop (length (protocol_name (to_protocol info)) + 1) key in
       case ar_records s (to_identity info) message_id of
         None \<Rightarrow> s
       | Some m \<Rightarrow>
           if mr_status m = Acked then emit_outcome info OutcomeAcked (clear_entry key (untrack key s))
           else if mr_status m \<noteq> Failed \<or> key \<in> set had_entry then s
           else if to_resends_used info \<ge> REGULAR_MESSAGE_MAX_AUTO_RESENDS then emit_outcome info OutcomeGaveUp (untrack key s)
           else schedule key info message_id now s)"

lemma evaluate_loop_fold: "evaluate_loop now had xs s = fold (evaluate_one now had) xs s"
  by (induction now had xs s rule: evaluate_loop.induct)
    (auto simp: evaluate_one_def Let_def split: option.splits)

lemma evaluate_one_steady:
  assumes inv: "resend_inv s" and tr: "jm_get (ar_tracked s) key = Some info"
    and had: "key \<notin> set had \<Longrightarrow> jm_get (ar_entries s) key = None" and und: "undecided X (ar_records s)"
  shows "steady X s (evaluate_one now had (key, info) s)"
    and "j \<noteq> key \<Longrightarrow> jm_get (ar_tracked (evaluate_one now had (key, info) s)) j = jm_get (ar_tracked s) j"
    and "j \<noteq> key \<Longrightarrow> jm_get (ar_entries (evaluate_one now had (key, info) s)) j = jm_get (ar_entries s) j"
proof -
  obtain mid where key: "key = auto_resend_key (to_protocol info) mid" using resend_invD(4) [OF inv tr] by blast
  have live: "key_live s key = 1" by (simp add: key_live_def tr)
  let ?s = "evaluate_one now had (key, info) s"
  have "steady X s ?s \<and> (\<forall>j. j \<noteq> key \<longrightarrow> jm_get (ar_tracked ?s) j = jm_get (ar_tracked s) j)
      \<and> (\<forall>j. j \<noteq> key \<longrightarrow> jm_get (ar_entries ?s) j = jm_get (ar_entries s) j)"
  proof (cases "ar_records s (to_identity info) mid")
    case None
    then have "?s = s" by (simp add: evaluate_one_def key)
    then show ?thesis using inv by simp
  next
    case (Some m)
    consider (acked) "mr_status m = Acked" | (idle) "mr_status m \<noteq> Acked" "mr_status m \<noteq> Failed \<or> key \<in> set had"
      | (spent) "mr_status m = Failed" "key \<notin> set had" "to_resends_used info \<ge> 3"
      | (again) "mr_status m = Failed" "key \<notin> set had" "to_resends_used info < 3" by linarith
    then show ?thesis
    proof cases
      case acked
      then have s': "?s = emit_outcome info OutcomeAcked (clear_entry key (untrack key s))"
        using Some by (simp add: evaluate_one_def key)
      have "key \<notin> X" using und Some acked by (auto simp: undecided_def key)
      then have "outcome_budget X ?s \<le> outcome_budget X s"
        by (rule outcome_used [OF _ live]) (auto simp: s' key_live_def jm_simps)
      moreover have "resend_inv ?s" unfolding s' by (simp add: resend_inv_emit resend_inv_clear resend_inv_untrack inv)
      ultimately show ?thesis using \<open>key \<notin> X\<close> unfolding steady_def
        by (auto simp: s' key_weight_def key_live_def jm_simps)
    next
      case idle
      then have "?s = s" using Some by (simp add: evaluate_one_def key)
      then show ?thesis using inv by simp
    next
      case spent
      then have s': "?s = emit_outcome info OutcomeGaveUp (untrack key s)"
        using Some by (simp add: evaluate_one_def key REGULAR_MESSAGE_MAX_AUTO_RESENDS_def)
      have "key \<notin> X" using und Some spent by (auto simp: undecided_def key)
      then have "outcome_budget X ?s \<le> outcome_budget X s"
        by (rule outcome_used [OF _ live]) (use had spent in \<open>auto simp: s' key_live_def jm_simps\<close>)
      moreover have "resend_inv ?s" unfolding s' by (simp add: resend_inv_emit resend_inv_untrack inv)
      ultimately show ?thesis unfolding steady_def
        by (auto simp: s' key_weight_def key_live_def jm_simps)
    next
      case again
      define e where "e = \<lparr>re_identity = to_identity info, re_protocol = to_protocol info, re_message = mid,
        re_attempt = to_resends_used info + 1, re_next_at = now + auto_resend_delay_ms (to_resends_used info + 1)\<rparr>"
      have s': "?s = s\<lparr>ar_entries := jm_set key e (ar_entries s)\<rparr>"
        using again Some by (simp add: evaluate_one_def key REGULAR_MESSAGE_MAX_AUTO_RESENDS_def schedule_def e_def Let_def)
      have "key \<notin> X" using und Some again by (auto simp: undecided_def key)
      moreover have "resend_inv ?s" using inv again unfolding resend_inv_def s'
        by (auto simp: jm.wf_set jm_simps e_def)
      moreover have "outcome_budget X ?s \<le> outcome_budget X s"
        by (rule no_outcome) (auto simp: s' key_live_def jm_simps tr)
      ultimately show ?thesis unfolding steady_def
        by (auto simp: s' key_weight_def key_live_def jm_simps tr e_def)
    qed
  qed
  then show "steady X s ?s" "j \<noteq> key \<Longrightarrow> jm_get (ar_tracked ?s) j = jm_get (ar_tracked s) j"
    "j \<noteq> key \<Longrightarrow> jm_get (ar_entries ?s) j = jm_get (ar_entries s) j" by blast+
qed

lemma evaluate_fold_steady:
  assumes "resend_inv s" "undecided X (ar_records s)" "distinct (map fst xs)"
    "\<And>k i. (k, i) \<in> set xs \<Longrightarrow> jm_get (ar_tracked s) k = Some i"
    "\<And>k. k \<in> fst ` set xs \<Longrightarrow> k \<notin> set had \<Longrightarrow> jm_get (ar_entries s) k = None"
  shows "steady X s (fold (evaluate_one now had) xs s)"
  using assms
proof (induction xs arbitrary: s)
  case (Cons x xs)
  obtain key info where x: "x = (key, info)" by (cases x)
  let ?s = "evaluate_one now had (key, info) s"
  have one: "steady X s ?s" "\<And>j. j \<noteq> key \<Longrightarrow> jm_get (ar_tracked ?s) j = jm_get (ar_tracked s) j"
    "\<And>j. j \<noteq> key \<Longrightarrow> jm_get (ar_entries ?s) j = jm_get (ar_entries s) j"
    by (rule evaluate_one_steady [OF Cons.prems(1)], use Cons.prems in \<open>auto simp: x\<close>)+
  have "steady X ?s (fold (evaluate_one now had) xs ?s)"
  proof (rule Cons.IH)
    show "resend_inv ?s" "undecided X (ar_records ?s)" using one(1) Cons.prems(2) by (simp_all add: steady_def)
    show "distinct (map fst xs)" using Cons.prems(3) by simp
    have ne: "k \<noteq> key" if "k \<in> fst ` set xs" for k using that Cons.prems(3) by (auto simp: x)
    show "jm_get (ar_tracked ?s) k = Some i" if "(k, i) \<in> set xs" for k i
      using one(2) ne Cons.prems(4) that by (metis fst_conv image_eqI list.set_intros(2))
    show "jm_get (ar_entries ?s) k = None" if "k \<in> fst ` set xs" "k \<notin> set had" for k
      using one(3) ne Cons.prems(5) that by auto
  qed
  with one(1) show ?case by (auto simp: x intro: steady_trans)
qed simp

lemma evaluate_steady:
  assumes "resend_inv s" "undecided X (ar_records s)"
  shows "steady X s (evaluate_tracked_outbound now s)"
  unfolding evaluate_tracked_outbound_def evaluate_loop_fold
proof (rule evaluate_fold_steady [OF assms])
  show "distinct (map fst (ar_tracked s))" using resend_invD(2) [OF assms(1)] by (simp add: jm_wf_def jm_keys_def)
  show "jm_get (ar_tracked s) k = Some i" if "(k, i) \<in> set (ar_tracked s)" for k i
    using jm_get_SomeI [OF resend_invD(2) [OF assms(1)] that] .
  show "jm_get (ar_entries s) k = None" if "k \<notin> set (jm_keys (ar_entries s))" for k
    using that jm.keys_get [of k "ar_entries s"] by simp
qed

lemma on_store_changed_steady:
  "resend_inv s \<Longrightarrow> undecided X (ar_records s) \<Longrightarrow> steady X s (on_store_changed now s)"
  by (simp add: on_store_changed_def evaluate_steady)


subsection \<open>Store events\<close>

text \<open>A step that stays within the budgets outside \<open>X\<close> plus \<open>n\<close> new sends.\<close>

definition grows :: "string set \<Rightarrow> nat \<Rightarrow> auto_resend \<Rightarrow> auto_resend \<Rightarrow> bool" where
  "grows X n s s' \<longleftrightarrow> resend_inv s' \<and> send_budget X s' \<le> send_budget X s + 3 * n
     \<and> outcome_budget X s' \<le> outcome_budget X s + n
     \<and> (\<forall>k \<in> X. jm_get (ar_entries s') k = jm_get (ar_entries s) k)"

lemma grows_refl [simp]: "resend_inv s \<Longrightarrow> grows X n s s"
  by (simp add: grows_def)

lemma grows_trans: "grows X m s s' \<Longrightarrow> grows X n s' s'' \<Longrightarrow> grows X (m + n) s s''"
  by (auto simp: grows_def)

lemma steady_grows: "steady X s s' \<Longrightarrow> grows X 0 s s'"
  by (auto simp: steady_def grows_def send_budget_def intro: tot_mono)

lemma tot_add_one:
  assumes "fin_supp w" "fin_supp w'" "\<And>j. j \<noteq> k \<Longrightarrow> w' j \<le> w j" "w' k \<le> w k + c"
  shows "tot X w' \<le> tot X w + c"
proof (cases "k \<in> X")
  case True
  have "tot X w' \<le> tot X w" by (rule tot_mono; use assms True in metis)
  then show ?thesis by simp
next
  case False
  have "tot (insert k X) w' \<le> tot (insert k X) w" by (rule tot_mono) (use assms in auto)
  with tot_remove [OF assms(1) False] tot_remove [OF assms(2) False] assms(4) show ?thesis by simp
qed

lemma tot_move:
  assumes "fin_supp w" "fin_supp w'" "a \<notin> X" "\<And>j. j \<noteq> a \<Longrightarrow> j \<noteq> b \<Longrightarrow> w' j \<le> w j"
    "a \<noteq> b \<Longrightarrow> w' a = 0 \<and> w' b \<le> w b + w a" "a = b \<Longrightarrow> w' a \<le> w a"
  shows "tot X w' \<le> tot X w"
proof (cases "a = b")
  case True
  show ?thesis by (rule tot_mono; use assms True in metis)
next
  case False
  have "tot (insert a X) w' \<le> tot (insert a X) w + w a"
    by (rule tot_add_one [where k = b]) (use assms False in \<open>auto, metis le_zero_eq zero_le\<close>)
  with tot_remove [OF assms(1,3)] tot_remove [OF assms(2,3)] assms(5) [OF False] show ?thesis by simp
qed

text \<open>Tracking a send: its own key gets the weight of its remaining resends, no other key gains.\<close>

lemma track_outbound_weights:
  "j \<noteq> k \<Longrightarrow> key_weight (track_outbound k i s) j \<le> key_weight s j"
  "j \<noteq> k \<Longrightarrow> key_live (track_outbound k i s) j \<le> key_live s j"
  "key_weight (track_outbound k i s) k
     = max (case jm_get (ar_entries s) k of None \<Rightarrow> 0 | Some e \<Rightarrow> 4 - re_attempt e) (3 - to_resends_used i)"
  "key_live (track_outbound k i s) k = 1"
  using track_outbound_get(2) [of j k i s]
  by (auto simp: key_weight_def key_live_def track_outbound_get(1) split: option.splits)

lemma key_live_le: "key_live s k \<le> 1"
  by (simp add: key_live_def)

lemma track_outbound_grows:
  assumes "resend_inv s" "k = auto_resend_key (to_protocol i) m"
  shows "grows X 1 s (track_outbound k i s)"
proof -
  have "tot X (key_weight (track_outbound k i s)) \<le> tot X (key_weight s) + 3"
    by (rule tot_add_one [where k = k]) (simp_all add: track_outbound_weights, auto simp: key_weight_def max_def split: option.splits)
  moreover have "tot X (key_live (track_outbound k i s)) \<le> tot X (key_live s) + 1"
    by (rule tot_add_one [where k = k]) (simp_all add: track_outbound_weights)
  ultimately show ?thesis using track_outbound_inv [OF assms]
    by (simp add: grows_def send_budget_def outcome_budget_def)
qed

lemma track_outbound_inside:
  assumes "resend_inv s" "k = auto_resend_key (to_protocol i) m" "k \<in> X"
  shows "grows X 0 s (track_outbound k i s)"
proof -
  have "tot X (key_weight (track_outbound k i s)) \<le> tot X (key_weight s)"
    "tot X (key_live (track_outbound k i s)) \<le> tot X (key_live s)"
    using assms(3) by (auto intro!: tot_mono track_outbound_weights)
  with track_outbound_inv [OF assms(1,2)] show ?thesis by (simp add: grows_def send_budget_def outcome_budget_def)
qed

text \<open>
  A message that counts as a send of its own: just added as being sent, no tapback, no room post, no
  emergency message, and on MeshCore not to a channel (such a message never fails).
\<close>

definition regular_send :: "resend_env \<Rightarrow> radio_protocol \<Rightarrow> message_record \<Rightarrow> bool" where
  "regular_send env p m \<longleftrightarrow> mr_status m = Sending \<and> \<not> mr_tapback m \<and> mr_room_server m = None \<and> \<not> ax_is_mecp env (mr_payload m)
     \<and> (p = Meshcore \<longrightarrow> mr_channel_index m < 0 \<or> mr_to m \<noteq> 0 \<and> mr_to m mod 2 ^ 32 \<noteq> 2 ^ 32 - 1)"

lemma eligible_regular:
  "mr_status m = Sending \<Longrightarrow> is_auto_resend_eligible env p m \<longleftrightarrow> regular_send env p m"
  by (auto simp: is_auto_resend_eligible_def regular_send_def is_group_channel_record_def has_channel_delivery_ack_def
      is_broadcast_node_num_def MESHTASTIC_BROADCAST_NODE_NUM_def)

lemma on_added_grows:
  assumes "resend_inv s"
  shows "grows X (case ax_protocol_of env identity of None \<Rightarrow> 0
      | Some p \<Rightarrow> if auto_resend_key p (mr_id m) \<in> X \<or> \<not> regular_send env p m then 0 else 1)
    s (on_added env identity m s)"
proof (cases "ax_protocol_of env identity")
  case None
  then show ?thesis using assms by (simp add: on_added_def)
next
  case (Some p)
  show ?thesis
  proof (cases "regular_send env p m")
    case True
    then show ?thesis using assms Some eligible_regular [of m env p]
      by (auto simp: on_added_def Let_def intro!: track_outbound_inside track_outbound_grows [simplified])
  next
    case False
    then have "on_added env identity m s = s" using Some eligible_regular [of m env p] by (simp add: on_added_def)
    with False Some assms show ?thesis by simp
  qed
qed

lemma renamed_state_grows:
  assumes inv: "resend_inv s" and tr: "jm_get (ar_tracked s) a = Some i" and "a \<notin> X"
    and b: "b = auto_resend_key (to_protocol i) m"
  shows "grows X 0 s (track_outbound b i (clear_entry a (untrack a s)))" (is "grows X 0 s ?s")
proof -
  let ?u = "clear_entry a (untrack a s)"
  have u: "resend_inv ?u" by (simp add: inv resend_inv_clear resend_inv_untrack)
  have other: "key_weight ?s j \<le> key_weight s j" "key_live ?s j \<le> key_live s j" if "j \<noteq> a" "j \<noteq> b" for j
    using track_outbound_weights(1,2) [OF that(2), of i ?u] that by (auto simp: key_weight_def key_live_def jm_simps)
  have self: "key_weight ?s b \<le> key_weight s b + key_weight s a" "key_live ?s b \<le> key_live s b + key_live s a"
    unfolding track_outbound_weights(3,4) by (auto simp: key_weight_def key_live_def jm_simps tr split: option.splits)
  have gone: "key_weight ?s a = 0 \<and> key_live ?s a = 0" if "a \<noteq> b"
    using track_outbound_weights(1,2) [OF that, of i ?u] by (simp add: key_weight_def [of ?u] key_live_def [of ?u] jm_simps)
  have same: "key_weight ?s a \<le> key_weight s a \<and> key_live ?s a \<le> key_live s a" if "a = b"
    unfolding that [symmetric] track_outbound_weights by (simp add: key_weight_def key_live_def jm_simps tr)
  have "tot X (key_weight ?s) \<le> tot X (key_weight s)" "tot X (key_live ?s) \<le> tot X (key_live s)"
    by (rule tot_move [where a = a and b = b]; use assms(3) other self gone same in force)+
  moreover have "jm_get (ar_entries ?s) k = jm_get (ar_entries s) k" if "k \<in> X" for k
    using that assms(3) by (auto simp: jm_simps)
  ultimately show ?thesis using track_outbound_inv [OF u b] by (simp add: grows_def send_budget_def outcome_budget_def)
qed


lemma on_renamed_grows:
  assumes inv: "resend_inv s" and und: "undecided X (ar_records s)"
    and key: "\<And>p. ax_protocol_of env identity = Some p \<Longrightarrow> auto_resend_key p from_id \<notin> X"
  shows "grows X 0 s (on_renamed env identity from_id to_id now s)"
proof (cases "ax_protocol_of env identity")
  case None
  then show ?thesis using inv by (simp add: on_renamed_def)
next
  case (Some p)
  show ?thesis
  proof (cases "jm_get (ar_tracked s) (auto_resend_key p from_id)")
    case None
    then show ?thesis using inv Some by (simp add: on_renamed_def)
  next
    case (Some i)
    let ?s1 = "track_outbound (auto_resend_key p to_id) i (clear_entry (auto_resend_key p from_id) (untrack (auto_resend_key p from_id) s))"
    have "to_protocol i = p" using resend_invD(4) [OF inv Some] auto_resend_key_inject by metis
    then have s1: "grows X 0 s ?s1"
      by (intro renamed_state_grows [OF inv Some, where m = to_id]) (simp_all add: key \<open>ax_protocol_of env identity = Some p\<close>)
    moreover have "grows X 0 ?s1 (evaluate_tracked_outbound now ?s1)"
      by (rule steady_grows, rule evaluate_steady) (use s1 und in \<open>simp_all add: grows_def\<close>)
    ultimately have "grows X 0 s (evaluate_tracked_outbound now ?s1)" using grows_trans [of X 0 s ?s1 0] by simp
    with s1 show ?thesis by (simp add: on_renamed_def Let_def Some \<open>ax_protocol_of env identity = Some p\<close>)
  qed
qed

text \<open>What a store event adds: one for a new regular send outside \<open>X\<close>.\<close>

definition sends_added :: "resend_env \<Rightarrow> string set \<Rightarrow> store_event \<Rightarrow> nat" where
  "sends_added env X e = (case e of
     StoreAdded identity m \<Rightarrow>
       (case ax_protocol_of env identity of None \<Rightarrow> 0
        | Some p \<Rightarrow> if auto_resend_key p (mr_id m) \<in> X \<or> \<not> regular_send env p m then 0 else 1)
   | _ \<Rightarrow> 0)"

text \<open>No event of the list renames a key of \<open>X\<close>, or evaluates while a key of \<open>X\<close> is decided.\<close>

definition records_after :: "store_event \<Rightarrow> (string \<Rightarrow> string \<Rightarrow> message_record option) \<Rightarrow> string \<Rightarrow> string \<Rightarrow> message_record option" where
  "records_after e recs = (case e of StoreChanged recs' \<Rightarrow> recs' | _ \<Rightarrow> recs)"

definition leaves_open :: "resend_env \<Rightarrow> string set \<Rightarrow> (string \<Rightarrow> string \<Rightarrow> message_record option) \<Rightarrow> store_event \<Rightarrow> bool" where
  "leaves_open env X recs e = (case e of
     StoreAdded _ _ \<Rightarrow> True
   | StoreRenamed identity from_id _ \<Rightarrow> undecided X recs \<and>
       (case ax_protocol_of env identity of None \<Rightarrow> True | Some p \<Rightarrow> auto_resend_key p from_id \<notin> X)
   | StoreChanged recs' \<Rightarrow> undecided X recs')"

fun all_leave_open :: "resend_env \<Rightarrow> string set \<Rightarrow> (string \<Rightarrow> string \<Rightarrow> message_record option) \<Rightarrow> store_event list \<Rightarrow> bool" where
  "all_leave_open env X recs [] = True"
| "all_leave_open env X recs (e # es) \<longleftrightarrow> leaves_open env X recs e \<and> all_leave_open env X (records_after e recs) es"

lemma undecided_none [simp]: "undecided {} recs"
  by (simp add: undecided_def)

lemma leaves_open_none [simp]: "leaves_open env {} recs e"
  by (simp add: leaves_open_def split: store_event.splits option.splits)

lemma all_leave_open_none [simp]: "all_leave_open env {} recs es"
  by (induction es arbitrary: recs) simp_all

lemma evaluate_frame [simp]:
  "ar_records (evaluate_tracked_outbound now s) = ar_records s" "ar_sent (evaluate_tracked_outbound now s) = ar_sent s"
  "ar_started (evaluate_tracked_outbound now s) = ar_started s"
proof -
  have "ar_records (evaluate_loop now had xs s) = ar_records s \<and> ar_sent (evaluate_loop now had xs s) = ar_sent s
      \<and> ar_started (evaluate_loop now had xs s) = ar_started s" for had xs
    by (induction now had xs s rule: evaluate_loop.induct) (auto simp: Let_def split: option.splits)
  then show "ar_records (evaluate_tracked_outbound now s) = ar_records s" "ar_sent (evaluate_tracked_outbound now s) = ar_sent s"
    "ar_started (evaluate_tracked_outbound now s) = ar_started s" by (simp_all add: evaluate_tracked_outbound_def)
qed

lemma store_step_records:
  "ar_records (store_step env now e s) = (case e of StoreChanged recs \<Rightarrow> recs | _ \<Rightarrow> ar_records s)"
  by (cases e) (auto simp: on_added_def on_renamed_def on_store_changed_def Let_def split: option.splits)

lemma store_step_grows:
  assumes "resend_inv s" "leaves_open env X (ar_records s) e"
  shows "grows X (sends_added env X e) s (store_step env now e s)"
proof (cases e)
  case (StoreAdded identity m)
  have "grows X (sends_added env X e) s (on_added env identity m s)"
    using on_added_grows [OF assms(1)] by (simp add: StoreAdded sends_added_def)
  moreover have "grows X (sends_added env X e) s s" using assms(1) by (simp add: grows_def)
  ultimately show ?thesis by (simp add: StoreAdded)
next
  case (StoreRenamed identity from_id to_id)
  then have "grows X 0 s (on_renamed env identity from_id to_id now s)"
    by (intro on_renamed_grows) (use assms in \<open>auto simp: leaves_open_def\<close>)
  then show ?thesis using assms(1) by (simp add: StoreRenamed sends_added_def)
next
  case (StoreChanged recs)
  have inv: "resend_inv (s\<lparr>ar_records := recs\<rparr>)" using assms(1) by (simp add: resend_inv_def)
  have "grows X 0 (s\<lparr>ar_records := recs\<rparr>) (on_store_changed now (s\<lparr>ar_records := recs\<rparr>))"
    by (rule steady_grows, rule on_store_changed_steady [OF inv]) (use assms(2) in \<open>simp add: StoreChanged leaves_open_def\<close>)
  then show ?thesis
    by (simp add: StoreChanged sends_added_def grows_def send_budget_def outcome_budget_def key_weight_def [abs_def] key_live_def [abs_def])
qed

lemma store_steps_grow:
  assumes "resend_inv s" "all_leave_open env X (ar_records s) es"
  shows "grows X (sum_list (map (sends_added env X) es)) s (fold (store_step env now) es s)"
  using assms
proof (induction es arbitrary: s)
  case (Cons e es)
  from Cons.prems have one: "grows X (sends_added env X e) s (store_step env now e s)" by (simp add: store_step_grows)
  have "grows X (sum_list (map (sends_added env X) es)) (store_step env now e s) (fold (store_step env now) es (store_step env now e s))"
    by (rule Cons.IH) (use one Cons.prems in \<open>simp_all add: grows_def store_step_records records_after_def del: store_step.simps\<close>)
  from grows_trans [OF one this] show ?case by simp
qed simp


subsection \<open>Resends\<close>

lemma start_resend_none:
  assumes "resend_inv s" "start_resend key s = (None, s1)"
  shows "grows {} 0 s s1"
proof -
  have s1: "s1 = clear_entry key s" using assms(2)
    by (auto simp: start_resend_def Let_def split: option.splits if_splits)
  have "key_weight s1 j \<le> key_weight s j" "key_live s1 j \<le> key_live s j" for j
    by (auto simp: s1 key_weight_def key_live_def jm_simps)
  then show ?thesis using resend_inv_clear [OF assms(1)]
    by (auto simp: grows_def send_budget_def outcome_budget_def s1 intro!: tot_mono)
qed

lemma start_resend_some:
  assumes "start_resend key s = (Some (entry, info), s1)"
  shows "jm_get (ar_entries s) key = Some entry" "ar_entries s1 = jm_delete key (ar_entries s)"
    "ar_tracked s1 = jm_delete key (ar_tracked s)" "length (ar_sent s1) = Suc (length (ar_sent s))"
    "ar_outcomes s1 = ar_outcomes s" "ar_records s1 = ar_records s"
  using assms by (auto simp: start_resend_def Let_def split: option.splits if_splits)

lemma start_resend_inv: "resend_inv s \<Longrightarrow> start_resend key s = (Some (entry, info), s1) \<Longrightarrow> resend_inv s1"
  using length_delete_le [of key "ar_tracked s"]
  by (auto simp: resend_inv_def start_resend_some jm.wf_del jm_simps)

lemma start_resend_weights:
  assumes "start_resend key s = (Some (entry, info), s1)"
  shows "key_weight s1 key = 0" "key_live s1 key = 0" "key_weight s key \<ge> 4 - re_attempt entry" "key_live s key = 1"
    "j \<noteq> key \<Longrightarrow> key_weight s1 j = key_weight s j" "j \<noteq> key \<Longrightarrow> key_live s1 j = key_live s j"
  using start_resend_some [OF assms] by (simp_all add: key_weight_def key_live_def jm_simps)

text \<open>A resend that ends without a new message: its key pays for the resend and for the outcome.\<close>

lemma resend_failed_grows:
  assumes inv: "resend_inv s" and start: "start_resend key s = (Some (entry, info), s1)" and "grows {} n s1 s2"
  shows "grows {} n s (emit_outcome info OutcomeGaveUp s2)"
proof -
  have attempt: "4 - re_attempt entry \<ge> 1" using resend_invD(5) [OF inv start_resend_some(1) [OF start]] by linarith
  have "tot {} (key_weight s1) + 1 \<le> tot {} (key_weight s)" "tot {} (key_live s1) + 1 \<le> tot {} (key_live s)"
  proof -
    have "tot {key} (key_weight s1) \<le> tot {key} (key_weight s)" "tot {key} (key_live s1) \<le> tot {key} (key_live s)"
      by (rule tot_mono; simp add: start_resend_weights [OF start])+
    then show "tot {} (key_weight s1) + 1 \<le> tot {} (key_weight s)" "tot {} (key_live s1) + 1 \<le> tot {} (key_live s)"
      using tot_remove [of "key_weight s1" key "{}"] tot_remove [of "key_weight s" key "{}"]
        tot_remove [of "key_live s1" key "{}"] tot_remove [of "key_live s" key "{}"]
        start_resend_weights(1-4) [OF start] attempt by simp_all
  qed
  with assms(3) show ?thesis
    by (simp add: grows_def resend_inv_emit send_budget_def outcome_budget_def start_resend_some [OF start]
        key_weight_def [abs_def] key_live_def [abs_def])
qed

text \<open>A resend that returned a message: the key of the new message takes over what is left.\<close>

lemma resend_sent_grows:
  assumes inv: "resend_inv s" and start: "start_resend key s = (Some (entry, info), s1)"
    and during: "grows {b} n s1 s2" and b: "b = auto_resend_key (to_protocol i) m" and used: "to_resends_used i = re_attempt entry"
  shows "grows {} n s (track_outbound b i s2)"
proof -
  let ?s3 = "track_outbound b i s2"
  have attempt: "4 - re_attempt entry = Suc (3 - re_attempt entry)"
    using resend_invD(5) [OF inv start_resend_some(1) [OF start]] by linarith
  have inside: "grows {b} 0 s2 ?s3" by (rule track_outbound_inside [OF _ b]) (use during in \<open>simp_all add: grows_def\<close>)
  have new: "grows {b} n s1 ?s3" using grows_trans [OF during inside] by simp
  have entry_b: "jm_get (ar_entries s2) b = jm_get (ar_entries s1) b" using during by (simp add: grows_def)
  have weight_b: "key_weight ?s3 b \<le> max (key_weight s1 b) (3 - re_attempt entry)"
    unfolding track_outbound_weights(3) entry_b used by (simp add: key_weight_def split: option.split)
  have live_b: "key_live ?s3 b = 1" by (rule track_outbound_weights)
  have out: "tot {b} (key_weight s1) + key_weight ?s3 b + 1 \<le> tot {} (key_weight s)"
    "tot {b} (key_live s1) + 1 \<le> tot {} (key_live s)"
  proof -
    note w = start_resend_weights [OF start]
    have rest: "tot {key, b} (key_weight s1) \<le> tot {key, b} (key_weight s)" "tot {key, b} (key_live s1) \<le> tot {key, b} (key_live s)"
      by (auto intro!: tot_mono simp: w)
    have "tot {b} (key_weight s1) + key_weight ?s3 b + 1 \<le> tot {} (key_weight s) \<and> tot {b} (key_live s1) + 1 \<le> tot {} (key_live s)"
    proof (cases "b = key")
      case True
      with rest weight_b attempt w(1-4) show ?thesis
        using tot_remove [of "key_weight s" key "{}"] tot_remove [of "key_live s" key "{}"] by simp
    next
      case False
      then have "key \<notin> {b}" by simp
      note rm = tot_remove [OF fin_supp_weights(1) this, of s1] tot_remove [OF fin_supp_weights(1) this, of s]
        tot_remove [OF fin_supp_weights(2) this, of s1] tot_remove [OF fin_supp_weights(2) this, of s]
        tot_remove [of "key_weight s" b "{}"] tot_remove [of "key_live s" b "{}"]
      have "key_weight ?s3 b \<le> key_weight s b + (3 - re_attempt entry)" using weight_b w(5) [OF False] by simp
      with rest attempt w(1-4) rm show ?thesis by simp
    qed
    then show "tot {b} (key_weight s1) + key_weight ?s3 b + 1 \<le> tot {} (key_weight s)" "tot {b} (key_live s1) + 1 \<le> tot {} (key_live s)"
      by blast+
  qed
  show ?thesis
    using new out live_b tot_remove [of "key_weight ?s3" b "{}"] tot_remove [of "key_live ?s3" b "{}"]
    by (simp add: grows_def send_budget_def outcome_budget_def start_resend_some [OF start])
qed

lemma superseded_grows: "resend_inv s \<Longrightarrow> grows {} 0 s (remove_superseded_bubble p identity m now s)"
  using store_step_grows [of s env "{}" "StoreChanged ((ar_records s)(identity := (ar_records s identity)(m := None)))" now for env]
  by (simp add: remove_superseded_bubble_def sends_added_def)

text \<open>The key of the message a resend produces.\<close>

definition own_keys :: "resend_event \<Rightarrow> auto_resend \<Rightarrow> string set" where
  "own_keys e s = (case e of
     TimerFired key during result now \<Rightarrow>
       (case (jm_get (ar_entries s) key, new_id_of result) of
          (Some entry, Some new_id) \<Rightarrow> {auto_resend_key (re_protocol entry) new_id}
        | _ \<Rightarrow> {})
   | _ \<Rightarrow> {})"

definition new_sends :: "resend_env \<Rightarrow> resend_event \<Rightarrow> auto_resend \<Rightarrow> nat" where
  "new_sends env e s = (case e of
     StoreEvent se now \<Rightarrow> sends_added env {} se
   | TimerFired key during result now \<Rightarrow> sum_list (map (sends_added env (own_keys e s)) during)
   | _ \<Rightarrow> 0)"

definition resend_quiet :: "resend_env \<Rightarrow> resend_event \<Rightarrow> auto_resend \<Rightarrow> bool" where
  "resend_quiet env e s = (case e of
     TimerFired key during result now \<Rightarrow> all_leave_open env (own_keys e s) (ar_records s) during
   | _ \<Rightarrow> True)"

lemma fire_resend_grows:
  assumes inv: "resend_inv s" and quiet: "resend_quiet env (TimerFired key during result now) s"
  shows "grows {} (new_sends env (TimerFired key during result now) s) s (fire_resend env key during result now s)"
    (is "grows {} ?n s _")
proof (cases "start_resend key s")
  case (Pair started s1)
  show ?thesis
  proof (cases started)
    case None
    then have "grows {} 0 s s1" using start_resend_none [OF inv] Pair by simp
    then show ?thesis using Pair None by (simp add: fire_resend_def grows_def)
  next
    case (Some ei)
    obtain entry info where ei: "ei = (entry, info)" by (cases ei)
    have start: "start_resend key s = (Some (entry, info), s1)" using Pair Some ei by simp
    note st = start_resend_some [OF start]
    let ?X = "own_keys (TimerFired key during result now) s"
    let ?s2 = "fold (store_step env now) during s1"
    have during: "grows ?X ?n s1 ?s2"
      using store_steps_grow [OF start_resend_inv [OF inv start], of env ?X during now] quiet
      by (simp add: resend_quiet_def new_sends_def st)
    show ?thesis
    proof (cases "new_id_of result")
      case None
      then have "?X = {}" by (simp add: own_keys_def st)
      with during None resend_failed_grows [OF inv start] show ?thesis
        by (simp add: fire_resend_def start finish_resend_def)
    next
      case (Some new_id)
      then have X: "?X = {auto_resend_key (re_protocol entry) new_id}" by (simp add: own_keys_def st)
      let ?i = "\<lparr>to_identity = re_identity entry, to_protocol = re_protocol entry, to_resends_used = re_attempt entry, to_origin = to_origin info\<rparr>"
      let ?s3 = "track_outbound (auto_resend_key (re_protocol entry) new_id) ?i ?s2"
      have s3: "grows {} ?n s ?s3"
        by (rule resend_sent_grows [OF inv start during [unfolded X], of ?i new_id]) simp_all
      moreover have "grows {} 0 ?s3 (remove_superseded_bubble p identity m now ?s3)" for p identity m
        by (rule superseded_grows) (use s3 in \<open>simp add: grows_def\<close>)
      ultimately have "grows {} ?n s (remove_superseded_bubble p identity m now ?s3)" for p identity m
        using grows_trans [of "{}" ?n s ?s3 0] by simp
      with s3 show ?thesis by (cases "new_id = re_message entry") (simp_all add: fire_resend_def start finish_resend_def Some Let_def)
    qed
  qed
qed

lemma cancel_grows: "resend_inv s \<Longrightarrow> grows {} 0 s (cancel_auto_resend p m s)"
  by (auto simp: grows_def cancel_auto_resend_def Let_def send_budget_def outcome_budget_def resend_inv_clear resend_inv_untrack
      key_weight_def key_live_def jm_simps intro!: tot_mono)

lemma resend_step_grows:
  assumes "resend_inv s" "resend_quiet env e s"
  shows "grows {} (new_sends env e s) s (resend_step env e s)"
proof (cases e)
  case (StoreEvent se now)
  then show ?thesis using store_step_grows [OF assms(1), of env "{}"] by (simp add: new_sends_def del: store_step.simps)
next
  case (TimerFired key during result now)
  then show ?thesis using fire_resend_grows assms by simp
next
  case (CancelRetry p m)
  then show ?thesis using cancel_grows assms(1) by (simp add: new_sends_def)
next
  case Teardown
  then show ?thesis using assms(1)
    by (simp add: new_sends_def grows_def resend_inv_def send_budget_def outcome_budget_def key_weight_def [abs_def] key_live_def [abs_def])
qed

fun resend_run :: "resend_env \<Rightarrow> resend_event list \<Rightarrow> auto_resend \<Rightarrow> auto_resend" where
  "resend_run env [] s = s"
| "resend_run env (e # es) s = resend_run env es (resend_step env e s)"

fun run_sends :: "resend_env \<Rightarrow> resend_event list \<Rightarrow> auto_resend \<Rightarrow> nat" where
  "run_sends env [] s = 0"
| "run_sends env (e # es) s = new_sends env e s + run_sends env es (resend_step env e s)"

fun run_quiet :: "resend_env \<Rightarrow> resend_event list \<Rightarrow> auto_resend \<Rightarrow> bool" where
  "run_quiet env [] s = True"
| "run_quiet env (e # es) s \<longleftrightarrow> resend_quiet env e s \<and> run_quiet env es (resend_step env e s)"

lemma resend_run_grows:
  "resend_inv s \<Longrightarrow> run_quiet env es s \<Longrightarrow> grows {} (run_sends env es s) s (resend_run env es s)"
proof (induction es arbitrary: s)
  case (Cons e es)
  then have one: "grows {} (new_sends env e s) s (resend_step env e s)" by (simp add: resend_step_grows)
  have "grows {} (run_sends env es (resend_step env e s)) (resend_step env e s) (resend_run env es (resend_step env e s))"
    by (rule Cons.IH) (use one Cons.prems in \<open>simp_all add: grows_def\<close>)
  from grows_trans [OF one this] show ?case by simp
qed simp


subsection \<open>The bound\<close>

text \<open>
  C40: however sends fail, are renamed, resent, cancelled or evicted: a session never resends more
  than three times per regular message that was added to the store as being sent, reports at most one
  outcome per such message, and never tracks more than 500 sends. Only regular messages count: a
  tapback, a room post, an emergency message, a MeshCore channel message, a received message or one of
  an unknown identity is never resent on its own account. The message that a resend itself adds does
  not count either. The run has to be quiet: while a resend runs, that is until the send function
  has returned the id of the new message, the store does not decide that message (acknowledge or fail
  it) in a state that is evaluated, and does not rename it.
\<close>

theorem auto_resends_bounded:
  assumes "run_quiet env events resend_init"
  shows "length (ar_sent (resend_run env events resend_init))
       \<le> REGULAR_MESSAGE_MAX_AUTO_RESENDS * run_sends env events resend_init
     \<and> length (ar_outcomes (resend_run env events resend_init)) \<le> run_sends env events resend_init
     \<and> length (ar_tracked (resend_run env events resend_init)) \<le> MAX_TRACKED_OUTBOUND"
proof -
  have "resend_inv resend_init" by (simp add: resend_inv_def resend_init_def)
  from resend_run_grows [OF this assms]
  have "grows {} (run_sends env events resend_init) resend_init (resend_run env events resend_init)" .
  moreover have "send_budget {} resend_init = 0" "outcome_budget {} resend_init = 0"
    by (simp_all add: send_budget_def outcome_budget_def resend_init_def tot_def key_weight_def key_live_def)
  ultimately show ?thesis
    by (simp add: grows_def resend_invD(3) REGULAR_MESSAGE_MAX_AUTO_RESENDS_def) (simp add: send_budget_def outcome_budget_def)
qed


definition witness_env :: resend_env where
  "witness_env = \<lparr>ax_is_mecp = (\<lambda>_. False), ax_protocol_of = (\<lambda>_. Some Meshcore)\<rparr>"

definition witness_record :: "string \<Rightarrow> message_status \<Rightarrow> message_record" where
  "witness_record i st = \<lparr>mr_id = i, mr_to = 7, mr_payload = ''hi'', mr_channel_index = -1, mr_tapback = False,
     mr_reply_to = None, mr_status = st, mr_room_server = None, mr_hash = None, mr_reply_hash = None\<rparr>"

definition witness_store :: "(string \<times> message_status) list \<Rightarrow> string \<Rightarrow> string \<Rightarrow> message_record option" where
  "witness_store xs = (\<lambda>identity i. map_option (witness_record i) (map_of xs i))"

text \<open>A direct message that fails, is resent after fifteen seconds as message 2, and is acknowledged.\<close>

definition witness_events :: "resend_event list" where
  "witness_events =
    [StoreEvent (StoreAdded ''me'' (witness_record ''1'' Sending)) 0,
     StoreEvent (StoreChanged (witness_store [(''1'', Failed)])) 1000,
     TimerFired ''meshcore:1''
       [StoreAdded ''me'' (witness_record ''2'' Sending), StoreChanged (witness_store [(''1'', Failed), (''2'', Sending)])]
       (SendReturned (Some ''2'')) 16000,
     StoreEvent (StoreChanged (witness_store [(''2'', Acked)])) 20000]"

lemma witness_undecided: "undecided {''meshcore:2''} (witness_store [(''1'', Failed), (''2'', Sending)])"
  unfolding undecided_def
proof (intro allI impI)
  fix p m identity r
  assume k: "auto_resend_key p m \<in> {''meshcore:2''}" and r: "witness_store [(''1'', Failed), (''2'', Sending)] identity m = Some r"
  from k have "m = ''2''" using auto_resend_key_inject [of p m Meshcore "''2''"] by (simp add: auto_resend_key_def [of Meshcore] protocol_name_def)
  with r show "mr_status r \<noteq> Acked \<and> mr_status r \<noteq> Failed" by (auto simp: witness_store_def witness_record_def)
qed

lemmas witness_eval = witness_events_def witness_env_def witness_store_def witness_record_def resend_init_def resend_quiet_def
  on_added_def on_store_changed_def evaluate_tracked_outbound_def is_auto_resend_eligible_def is_group_channel_record_def
  is_broadcast_node_num_def MESHTASTIC_BROADCAST_NODE_NUM_def auto_resend_key_def protocol_name_def track_outbound_def
  MAX_TRACKED_OUTBOUND_def Let_def untrack_def clear_entry_def schedule_def emit_outcome_def
  auto_resend_delay_ms_def AUTO_RESEND_DELAYS_MS_def REGULAR_MESSAGE_MAX_AUTO_RESENDS_def
  fire_resend_def start_resend_def finish_resend_def remove_superseded_bubble_def new_id_of_def resend_args_for_def
  own_keys_def leaves_open_def records_after_def new_sends_def sends_added_def has_channel_delivery_ack_def regular_send_def

lemma witness_run:
  "run_quiet witness_env witness_events resend_init"
  "run_sends witness_env witness_events resend_init = 1"
  "length (ar_sent (resend_run witness_env witness_events resend_init)) = 1"
  "map ro_result (ar_outcomes (resend_run witness_env witness_events resend_init)) = [OutcomeAcked]"
  using witness_undecided by (simp_all add: witness_eval jm_set_def jm_delete_def jm_keys_def jm_has_def jm_get_def)


theorem auto_resends_bounded_witness:
  "length (ar_sent (resend_run witness_env witness_events resend_init)) = 1
   \<and> length (ar_outcomes (resend_run witness_env witness_events resend_init)) \<le> 1"
  using auto_resends_bounded [OF witness_run(1)] witness_run(2,3) by simp

end
