(* ===== verification/Js_Date.thy ===== *)
theory Js_Date
  imports Mesh_Prelude
begin

text \<open>
  The calendar of the JavaScript \<^verbatim>\<open>Date\<close>: days are counted from 1970-01-01 in the proleptic
  Gregorian calendar, months from 0. A time zone is a pair of functions between milliseconds since
  the epoch and local milliseconds; its rules are an argument. Times outside the range of \<^verbatim>\<open>Date\<close>
  are not modelled.
\<close>

definition MS_PER_DAY :: int where "MS_PER_DAY = 86400000"
definition MS_PER_HOUR :: int where "MS_PER_HOUR = 3600000"

definition is_leap :: "int \<Rightarrow> bool" where
  "is_leap y \<longleftrightarrow> y mod 4 = 0 \<and> (y mod 100 \<noteq> 0 \<or> y mod 400 = 0)"

definition day_from_year :: "int \<Rightarrow> int" where
  "day_from_year y = 365 * (y - 1970) + (y - 1969) div 4 - (y - 1901) div 100 + (y - 1601) div 400"

text \<open>The day of the year on which a month starts; month 12 is the length of the year.\<close>

definition month_start :: "bool \<Rightarrow> int \<Rightarrow> int" where
  "month_start leap m =
     (if m \<le> 0 then 0 else if m = 1 then 31
      else (if leap then 1 else 0) +
        (if m = 2 then 59 else if m = 3 then 90 else if m = 4 then 120 else if m = 5 then 151 else if m = 6 then 181
         else if m = 7 then 212 else if m = 8 then 243 else if m = 9 then 273 else if m = 10 then 304
         else if m = 11 then 334 else 365))"

text \<open>\<^verbatim>\<open>MakeDay\<close>: months and days out of range carry over; a year of two digits is meant in the last century.\<close>

definition make_full_year :: "int \<Rightarrow> int" where
  "make_full_year y = (if 0 \<le> y \<and> y \<le> 99 then 1900 + y else y)"

definition make_day :: "int \<Rightarrow> int \<Rightarrow> int \<Rightarrow> int" where
  "make_day y m d = (let ym = make_full_year y + m div 12 in day_from_year ym + month_start (is_leap ym) (m mod 12) + d - 1)"

definition year_of_day :: "int \<Rightarrow> int" where
  "year_of_day n =
     (let y = 1970 + (400 * n) div 146097 in
      if day_from_year (y + 1) \<le> n then y + 1 else if day_from_year y \<le> n then y else y - 1)"

fun last_month_from :: "bool \<Rightarrow> int \<Rightarrow> nat \<Rightarrow> int" where
  "last_month_from leap within 0 = 0"
| "last_month_from leap within (Suc m) =
     (if month_start leap (int (Suc m)) \<le> within then int (Suc m) else last_month_from leap within m)"

definition month_of_day :: "int \<Rightarrow> int" where
  "month_of_day n = (let y = year_of_day n in last_month_from (is_leap y) (n - day_from_year y) 11)"

definition date_of_day :: "int \<Rightarrow> int" where
  "date_of_day n = (let y = year_of_day n in n - day_from_year y - month_start (is_leap y) (month_of_day n) + 1)"

definition weekday_of_day :: "int \<Rightarrow> int" where
  "weekday_of_day n = (n + 4) mod 7"

record time_zone =
  tz_local :: "int \<Rightarrow> int"
  tz_utc :: "int \<Rightarrow> int"

definition local_day :: "time_zone \<Rightarrow> int \<Rightarrow> int" where
  "local_day z ms = tz_local z ms div MS_PER_DAY"

definition get_full_year :: "time_zone \<Rightarrow> int \<Rightarrow> int" where "get_full_year z ms = year_of_day (local_day z ms)"
definition get_month :: "time_zone \<Rightarrow> int \<Rightarrow> int" where "get_month z ms = month_of_day (local_day z ms)"
definition get_date :: "time_zone \<Rightarrow> int \<Rightarrow> int" where "get_date z ms = date_of_day (local_day z ms)"
definition get_day :: "time_zone \<Rightarrow> int \<Rightarrow> int" where "get_day z ms = weekday_of_day (local_day z ms)"
definition get_hours :: "time_zone \<Rightarrow> int \<Rightarrow> int" where "get_hours z ms = tz_local z ms div MS_PER_HOUR mod 24"

text \<open>\<^verbatim>\<open>new Date(y, m, d, hh, mm, 0, 0).getTime()\<close>.\<close>

definition date_ms :: "time_zone \<Rightarrow> int \<Rightarrow> int \<Rightarrow> int \<Rightarrow> int \<Rightarrow> int \<Rightarrow> int" where
  "date_ms z y m d hh mm = tz_utc z (make_day y m d * MS_PER_DAY + hh * MS_PER_HOUR + mm * 60000)"

subsection \<open>Years\<close>

lemma div_succ: "0 < k \<Longrightarrow> (x + 1) div k = x div k + (if (x + 1) mod k = 0 then 1 else 0)" for x k :: int
proof -
  assume k: "0 < k"
  have x: "x + 1 = k * (x div k) + (x mod k + 1)" by simp
  have m: "0 \<le> x mod k" "x mod k < k" using k by simp_all
  show ?thesis
  proof (cases "x mod k + 1 = k")
    case True
    have "x + 1 = k * (x div k) + k" using x unfolding True .
    then have e: "x + 1 = (x div k + 1) * k" by (simp only: distrib_left mult_1_right mult.commute)
    have "((x div k + 1) * k) div k = x div k + 1" "((x div k + 1) * k) mod k = 0" using k by simp_all
    then show ?thesis unfolding e [symmetric] by (simp only: refl if_True)
  next
    case False
    then have "(x + 1) div k = x div k" "(x + 1) mod k = x mod k + 1"
      using m by (auto intro!: int_div_pos_eq int_mod_pos_eq x)
    then show ?thesis using m by simp
  qed
qed

lemma div_step:
  fixes x x' y k c :: int
  assumes "0 < k" "x' = x + 1" "x' = y + k * c"
  shows "x' div k = x div k + (if y mod k = 0 then 1 else 0)"
proof -
  have "x' mod k = y mod k" unfolding assms(3) by (rule mod_mult_self2)
  with div_succ [OF assms(1), of x] assms(2) show ?thesis by simp
qed

lemma day_from_year_Suc: "day_from_year (y + 1) = day_from_year y + (if is_leap y then 366 else 365)"
proof -
  have a: "(y + 1 - 1969) div 4 = (y - 1969) div 4 + (if y mod 4 = 0 then 1 else 0)"
    by (rule div_step [where c = "-492"]) simp_all
  have b: "(y + 1 - 1901) div 100 = (y - 1901) div 100 + (if y mod 100 = 0 then 1 else 0)"
    by (rule div_step [where c = "-19"]) simp_all
  have c: "(y + 1 - 1601) div 400 = (y - 1601) div 400 + (if y mod 400 = 0 then 1 else 0)"
    by (rule div_step [where c = "-4"]) simp_all
  have "y mod 400 mod 100 = y mod 100" "y mod 100 mod 4 = y mod 4" by (rule mod_mod_cancel, simp)+
  then have d: "y mod 400 = 0 \<Longrightarrow> y mod 100 = 0" "y mod 100 = 0 \<Longrightarrow> y mod 4 = 0" by auto
  show ?thesis unfolding day_from_year_def a b c is_leap_def using d
    by (cases "y mod 4 = 0"; cases "y mod 100 = 0"; cases "y mod 400 = 0") simp_all
qed

lemma div_bounds: "0 < k \<Longrightarrow> k * (x div k) \<le> x \<and> x < k * (x div k) + k" for x k :: int
proof -
  assume "0 < k"
  then have "0 \<le> x mod k" "x mod k < k" by simp_all
  moreover have "x = k * (x div k) + x mod k" by simp
  ultimately show ?thesis by linarith
qed

lemma day_from_year_bounds:
  "146097 * (y - 1970) - 610 \<le> 400 * day_from_year y" "400 * day_from_year y \<le> 146097 * (y - 1970) + 600"
proof -
  define a b c where "a = (y - 1969) div 4" and "b = (y - 1901) div 100" and "c = (y - 1601) div 400"
  have "4 * a \<le> y - 1969" "y - 1969 < 4 * a + 4" "100 * b \<le> y - 1901" "y - 1901 < 100 * b + 100"
    "400 * c \<le> y - 1601" "y - 1601 < 400 * c + 400"
    using div_bounds [of 4 "y - 1969"] div_bounds [of 100 "y - 1901"] div_bounds [of 400 "y - 1601"]
    by (simp_all add: a_def b_def c_def)
  moreover have "day_from_year y = 365 * (y - 1970) + a - b + c" by (simp add: day_from_year_def a_def b_def c_def)
  ultimately show "146097 * (y - 1970) - 610 \<le> 400 * day_from_year y" "400 * day_from_year y \<le> 146097 * (y - 1970) + 600"
    by (simp_all add: algebra_simps)
qed

lemma day_from_year_mono: "y \<le> y' \<Longrightarrow> day_from_year y \<le> day_from_year y'"
proof (induction "nat (y' - y)" arbitrary: y')
  case (Suc n)
  then have "day_from_year y \<le> day_from_year (y' - 1)" by simp
  also have "\<dots> \<le> day_from_year y'" using day_from_year_Suc [of "y' - 1"] by (simp split: if_splits)
  finally show ?case .
qed simp

lemma year_of_day: "day_from_year (year_of_day n) \<le> n \<and> n < day_from_year (year_of_day n + 1)"
proof -
  define y where "y = 1970 + (400 * n) div 146097"
  have q: "146097 * (y - 1970) \<le> 400 * n" "400 * n < 146097 * (y - 1970) + 146097"
    using div_bounds [of 146097 "400 * n"] by (simp_all add: y_def)
  have low: "day_from_year (y - 1) \<le> n" using q day_from_year_bounds(2) [of "y - 1"] by (simp add: algebra_simps)
  have up: "n < day_from_year (y + 2)" using q day_from_year_bounds(1) [of "y + 2"] by (simp add: algebra_simps)
  have "year_of_day n = (if day_from_year (y + 1) \<le> n then y + 1 else if day_from_year y \<le> n then y else y - 1)"
    by (simp add: year_of_day_def y_def Let_def)
  with low up show ?thesis by (auto simp: algebra_simps)
qed

subsection \<open>Months and days\<close>

lemma month_start_Suc:
  assumes "0 \<le> m" "m \<le> 11"
  shows "month_start leap m < month_start leap (m + 1)"
proof -
  have "m \<in> {0, 1, 2, 3, 4, 5, 6, 7, 8, 9, 10, 11}" using assms unfolding insert_iff empty_iff by arith
  then show ?thesis by (auto simp: month_start_def)
qed

lemma month_start_mono:
  assumes "0 \<le> m" "m \<le> m'" "m' \<le> 12"
  shows "month_start leap m \<le> month_start leap m'"
  using assms(2,3)
proof (induction "nat (m' - m)" arbitrary: m')
  case (Suc n)
  then have "m \<le> m' - 1" by simp
  with Suc have "month_start leap m \<le> month_start leap (m' - 1)" by simp
  also have "\<dots> \<le> month_start leap m'" using month_start_Suc [of "m' - 1" leap] Suc.prems assms(1) \<open>m \<le> m' - 1\<close> by simp
  finally show ?case .
qed simp

lemma month_start_ends: "month_start leap 0 = 0" "month_start leap 12 = (if leap then 366 else 365)"
  by (simp_all add: month_start_def)

lemma last_month_from:
  "0 \<le> within \<Longrightarrow> within < month_start leap (int (Suc m)) \<Longrightarrow>
   last_month_from leap within m \<in> {0..int m} \<and> month_start leap (last_month_from leap within m) \<le> within
   \<and> within < month_start leap (last_month_from leap within m + 1)"
proof (induction m)
  case 0
  then show ?case by (simp add: month_start_ends)
next
  case (Suc m)
  then show ?case by (auto simp: algebra_simps)
qed

definition days_in_month :: "int \<Rightarrow> int \<Rightarrow> int" where
  "days_in_month y m = month_start (is_leap y) (m + 1) - month_start (is_leap y) m"

text \<open>The parts of a day determine it and are in range.\<close>

lemma day_parts:
  "0 \<le> month_of_day n" "month_of_day n \<le> 11" "1 \<le> date_of_day n" "date_of_day n \<le> days_in_month (year_of_day n) (month_of_day n)"
  "day_from_year (year_of_day n) + month_start (is_leap (year_of_day n)) (month_of_day n) + date_of_day n - 1 = n"
proof -
  let ?y = "year_of_day n"
  have "0 \<le> n - day_from_year ?y" "n - day_from_year ?y < month_start (is_leap ?y) (int (Suc 11))"
    using year_of_day [of n] day_from_year_Suc [of ?y] by (simp_all add: month_start_ends)
  from last_month_from [OF this]
  have m: "month_of_day n \<in> {0..11}" "month_start (is_leap ?y) (month_of_day n) \<le> n - day_from_year ?y"
    "n - day_from_year ?y < month_start (is_leap ?y) (month_of_day n + 1)" by (simp_all add: month_of_day_def Let_def)
  then show "0 \<le> month_of_day n" "month_of_day n \<le> 11" "1 \<le> date_of_day n"
    "date_of_day n \<le> days_in_month ?y (month_of_day n)"
    "day_from_year ?y + month_start (is_leap ?y) (month_of_day n) + date_of_day n - 1 = n"
    by (simp_all add: date_of_day_def Let_def days_in_month_def)
qed

lemma year_unique:
  assumes "day_from_year y \<le> n" "n < day_from_year (y + 1)"
  shows "year_of_day n = y"
proof -
  have "\<not> year_of_day n + 1 \<le> y" "\<not> y + 1 \<le> year_of_day n"
    using day_from_year_mono [of "year_of_day n + 1" y] day_from_year_mono [of "y + 1" "year_of_day n"] year_of_day [of n] assms
    by (auto simp del: not_le)
  then show ?thesis by simp
qed

lemma month_unique:
  assumes "0 \<le> m" "m \<le> 11" "0 \<le> m'" "m' \<le> 11" "month_start leap m \<le> w" "w < month_start leap (m + 1)"
    "month_start leap m' \<le> w" "w < month_start leap (m' + 1)"
  shows "m = m'"
proof -
  have "\<not> m + 1 \<le> m'" "\<not> m' + 1 \<le> m"
    using month_start_mono [of "m + 1" m' leap] month_start_mono [of "m' + 1" m leap] assms by auto
  then show ?thesis by simp
qed

text \<open>\<^verbatim>\<open>MakeDay\<close> and the parts of a day are inverse to each other, after the years of two digits.\<close>

lemma parts_of_day:
  assumes "0 \<le> m" "m \<le> 11" "1 \<le> d" "d \<le> days_in_month y m" "n = day_from_year y + month_start (is_leap y) m + d - 1"
  shows "year_of_day n = y" "month_of_day n = m" "date_of_day n = d"
proof -
  let ?l = "is_leap y"
  have "0 \<le> month_start ?l m" "month_start ?l (m + 1) \<le> month_start ?l 12"
    using month_start_mono [of 0 m ?l] month_start_mono [of "m + 1" 12 ?l] assms by (simp_all add: month_start_ends)
  then show y: "year_of_day n = y"
    using assms by (intro year_unique) (simp_all add: day_from_year_Suc days_in_month_def month_start_ends split: if_splits)
  have "month_start ?l (month_of_day n) \<le> n - day_from_year y" "n - day_from_year y < month_start ?l (month_of_day n + 1)"
    using day_parts(3,4,5) [of n] y by (simp_all add: days_in_month_def)
  then show m: "month_of_day n = m"
    by (rule month_unique [OF day_parts(1,2) assms(1,2)]) (use assms in \<open>simp_all add: days_in_month_def\<close>)
  show "date_of_day n = d" using day_parts(5) [of n] y m assms(5) by simp
qed

lemma make_day_of_parts:
  assumes "100 \<le> year_of_day n"
  shows "make_day (year_of_day n) (month_of_day n) (date_of_day n + k) = n + k"
proof -
  have "make_full_year (year_of_day n) = year_of_day n" using assms by (simp add: make_full_year_def)
  moreover have "month_of_day n div 12 = 0" "month_of_day n mod 12 = month_of_day n" using day_parts(1,2) [of n] by simp_all
  ultimately show ?thesis using day_parts(5) [of n] by (simp add: make_day_def Let_def)
qed

end
