(* ===== verification/Recurrence.thy ===== *)
theory Recurrence
  imports Js_Date Js_String
begin

text \<open>
  When a scheduled broadcast is due next
  (\<^verbatim>\<open>src/renderer/lib/scheduledBroadcasts/recurrence.ts\<close>): the recurrence rules in local wall-clock
  time, as searches over the days of the calendar that give up after 1000 candidates.
\<close>

datatype broadcast_interval = Hourly | Daily | Weekly | Biweekly | Monthly

record broadcast_rule =
  br_interval :: broadcast_interval
  br_time_of_day_min :: int
  br_weekday :: "int option"
  br_day_of_month :: "int option"
  br_anchor_ymd :: "string option"

definition MAX_CANDIDATES :: nat where "MAX_CANDIDATES = 1000"

definition split_time_of_day :: "int \<Rightarrow> (int \<times> int) option" where
  "split_time_of_day t = (if t < 0 \<or> t > 1439 then None else Some (t div 60, t mod 60))"

definition ymd_parts :: "string \<Rightarrow> (int \<times> int \<times> int) option" where
  "ymd_parts ymd =
     (if length ymd = 10 \<and> list_all is_digit (take 4 ymd) \<and> ymd ! 4 = CHR ''-'' \<and> list_all is_digit (take 2 (drop 5 ymd))
         \<and> ymd ! 7 = CHR ''-'' \<and> list_all is_digit (drop 8 ymd)
      then
        let y = int (dec_value (take 4 ymd)); mo = int (dec_value (take 2 (drop 5 ymd))); d = int (dec_value (drop 8 ymd)) in
        if mo < 1 \<or> mo > 12 \<or> d < 1 \<or> d > 31 then None else Some (y, mo - 1, d)
      else None)"

definition monday_week_index :: "time_zone \<Rightarrow> int \<Rightarrow> int" where
  "monday_week_index z ms =
     (let day = get_day z ms; days_from_monday = (day + 6) mod 7;
          monday = date_ms z (get_full_year z ms) (get_month z ms) (get_date z ms - days_from_monday) 0 0
      in monday div (7 * 24 * 60 * 60 * 1000))"

definition at_local :: "time_zone \<Rightarrow> int \<Rightarrow> int \<Rightarrow> int \<Rightarrow> int \<Rightarrow> int \<Rightarrow> int" where
  "at_local z y m d hh mm = date_ms z y m d hh mm"

definition js_days_in_month :: "time_zone \<Rightarrow> int \<Rightarrow> int \<Rightarrow> int" where
  "js_days_in_month z y m = get_date z (date_ms z y (m + 1) 0 0 0)"

definition next_day :: "time_zone \<Rightarrow> int \<Rightarrow> int \<Rightarrow> int \<Rightarrow> int \<times> int \<times> int" where
  "next_day z y m d = (let ms = date_ms z y m (d + 1) 0 0 in (get_full_year z ms, get_month z ms, get_date z ms))"

fun next_hourly_from :: "time_zone \<Rightarrow> int \<Rightarrow> int \<Rightarrow> nat \<Rightarrow> int \<Rightarrow> int \<Rightarrow> int \<Rightarrow> int \<Rightarrow> int option" where
  "next_hourly_from z after minute 0 y m d h = None"
| "next_hourly_from z after minute (Suc fuel) y m d h =
     (let candidate = at_local z y m d h minute in
      if candidate > after then Some candidate
      else if h + 1 > 23 then (case next_day z y m d of (y', m', d') \<Rightarrow> next_hourly_from z after minute fuel y' m' d' 0)
      else next_hourly_from z after minute fuel y m d (h + 1))"

definition next_hourly :: "time_zone \<Rightarrow> int \<Rightarrow> int \<Rightarrow> int option" where
  "next_hourly z after minute =
     next_hourly_from z after minute MAX_CANDIDATES (get_full_year z after) (get_month z after) (get_date z after) (get_hours z after)"

fun next_daily_from :: "time_zone \<Rightarrow> int \<Rightarrow> int \<Rightarrow> int \<Rightarrow> nat \<Rightarrow> int \<Rightarrow> int \<Rightarrow> int \<Rightarrow> int option" where
  "next_daily_from z after hh mm 0 y m d = None"
| "next_daily_from z after hh mm (Suc fuel) y m d =
     (let candidate = at_local z y m d hh mm in
      if candidate > after then Some candidate
      else case next_day z y m d of (y', m', d') \<Rightarrow> next_daily_from z after hh mm fuel y' m' d')"

definition next_daily :: "time_zone \<Rightarrow> int \<Rightarrow> int \<Rightarrow> int \<Rightarrow> int option" where
  "next_daily z after hh mm =
     next_daily_from z after hh mm MAX_CANDIDATES (get_full_year z after) (get_month z after) (get_date z after)"

fun next_weekly_from :: "time_zone \<Rightarrow> int \<Rightarrow> int \<Rightarrow> int \<Rightarrow> int \<Rightarrow> nat \<Rightarrow> int \<Rightarrow> int \<Rightarrow> int \<Rightarrow> int option" where
  "next_weekly_from z after weekday hh mm 0 y m d = None"
| "next_weekly_from z after weekday hh mm (Suc fuel) y m d =
     (let probe = date_ms z y m d 0 0; candidate = at_local z y m d hh mm in
      if get_day z probe = weekday \<and> candidate > after then Some candidate
      else case next_day z y m d of (y', m', d') \<Rightarrow> next_weekly_from z after weekday hh mm fuel y' m' d')"

definition next_weekly :: "time_zone \<Rightarrow> int \<Rightarrow> int \<Rightarrow> int \<Rightarrow> int \<Rightarrow> int option" where
  "next_weekly z after weekday hh mm =
     next_weekly_from z after weekday hh mm MAX_CANDIDATES (get_full_year z after) (get_month z after) (get_date z after)"

fun next_biweekly_from ::
    "time_zone \<Rightarrow> int \<Rightarrow> int \<Rightarrow> int \<Rightarrow> int \<Rightarrow> int \<Rightarrow> nat \<Rightarrow> int \<Rightarrow> int \<Rightarrow> int \<Rightarrow> int option" where
  "next_biweekly_from z after weekday hh mm anchor_week 0 y m d = None"
| "next_biweekly_from z after weekday hh mm anchor_week (Suc fuel) y m d =
     (let probe = date_ms z y m d 0 0; candidate = at_local z y m d hh mm in
      if get_day z probe = weekday \<and> candidate > after \<and> \<bar>monday_week_index z candidate - anchor_week\<bar> mod 2 = 0
      then Some candidate
      else case next_day z y m d of (y', m', d') \<Rightarrow> next_biweekly_from z after weekday hh mm anchor_week fuel y' m' d')"

definition next_biweekly :: "time_zone \<Rightarrow> int \<Rightarrow> int \<Rightarrow> int \<Rightarrow> int \<Rightarrow> int \<Rightarrow> int option" where
  "next_biweekly z after weekday hh mm anchor_ms =
     next_biweekly_from z after weekday hh mm (monday_week_index z anchor_ms) MAX_CANDIDATES
       (get_full_year z after) (get_month z after) (get_date z after)"

fun next_monthly_from :: "time_zone \<Rightarrow> int \<Rightarrow> int \<Rightarrow> int \<Rightarrow> int \<Rightarrow> nat \<Rightarrow> int \<Rightarrow> int \<Rightarrow> int option" where
  "next_monthly_from z after mday hh mm 0 y m = None"
| "next_monthly_from z after mday hh mm (Suc fuel) y m =
     (let candidate = at_local z y m mday hh mm in
      if mday \<le> js_days_in_month z y m \<and> get_full_year z candidate = y \<and> get_month z candidate = m
         \<and> get_date z candidate = mday \<and> candidate > after
      then Some candidate
      else if m + 1 > 11 then next_monthly_from z after mday hh mm fuel (y + 1) 0
      else next_monthly_from z after mday hh mm fuel y (m + 1))"

definition next_monthly :: "time_zone \<Rightarrow> int \<Rightarrow> int \<Rightarrow> int \<Rightarrow> int \<Rightarrow> int option" where
  "next_monthly z after mday hh mm =
     next_monthly_from z after mday hh mm MAX_CANDIDATES (get_full_year z after) (get_month z after)"

definition valid_weekday :: "int option \<Rightarrow> bool" where
  "valid_weekday w = (case w of None \<Rightarrow> False | Some d \<Rightarrow> 0 \<le> d \<and> d \<le> 6)"

definition compute_next_due :: "time_zone \<Rightarrow> broadcast_rule \<Rightarrow> int \<Rightarrow> int option" where
  "compute_next_due z rule after =
     (case split_time_of_day (br_time_of_day_min rule) of
        None \<Rightarrow> None
      | Some (hh, mm) \<Rightarrow>
          (case br_interval rule of
             Hourly \<Rightarrow> next_hourly z after mm
           | Daily \<Rightarrow> next_daily z after hh mm
           | Weekly \<Rightarrow>
               if \<not> valid_weekday (br_weekday rule) then None
               else next_weekly z after (the (br_weekday rule)) hh mm
           | Biweekly \<Rightarrow>
               if \<not> valid_weekday (br_weekday rule) then None
               else
                 let given = (case br_anchor_ymd rule of None \<Rightarrow> None | Some a \<Rightarrow> if a = [] then None else Some a);
                     anchor = (case given of None \<Rightarrow> None | Some a \<Rightarrow> ymd_parts a)
                 in if anchor = None \<and> given \<noteq> None then None
                    else
                      let anchor_ms = (case anchor of
                            Some (y, m, d) \<Rightarrow> at_local z y m d 0 0
                          | None \<Rightarrow> at_local z (get_full_year z after) (get_month z after) (get_date z after) 0 0)
                      in next_biweekly z after (the (br_weekday rule)) hh mm anchor_ms
           | Monthly \<Rightarrow>
               (case br_day_of_month rule of
                  None \<Rightarrow> None
                | Some mday \<Rightarrow> if mday < 1 \<or> mday > 31 then None else next_monthly z after mday hh mm)))"

fun advance_from :: "time_zone \<Rightarrow> broadcast_rule \<Rightarrow> int \<Rightarrow> nat \<Rightarrow> int \<Rightarrow> int option" where
  "advance_from z rule now 0 cursor = None"
| "advance_from z rule now (Suc fuel) cursor =
     (case compute_next_due z rule cursor of
        None \<Rightarrow> None
      | Some next_ms \<Rightarrow> if next_ms > now then Some next_ms else advance_from z rule now fuel next_ms)"

definition advance_past_due :: "time_zone \<Rightarrow> broadcast_rule \<Rightarrow> int \<Rightarrow> int \<Rightarrow> int option" where
  "advance_past_due z rule due_at now =
     (if due_at > now then Some due_at else advance_from z rule now MAX_CANDIDATES due_at)"

definition first_due_at :: "time_zone \<Rightarrow> broadcast_rule \<Rightarrow> int \<Rightarrow> int option" where
  "first_due_at z rule from_ms =
     (case compute_next_due z rule (from_ms - 1) of
        None \<Rightarrow> None
      | Some next_ms \<Rightarrow> if next_ms \<ge> from_ms then Some next_ms else compute_next_due z rule from_ms)"

subsection \<open>Zones and days\<close>

text \<open>
  What the searches rely on, as \<^verbatim>\<open>Date\<close> documents it. A wall-clock time of an instant, read back, is
  the first instant that shows it (a time that a backward change repeats is read as the earlier of
  the two). A wall-clock time that a forward change skips is moved forward: by one hour, or within
  its clock hour, and within its day. Wall-clock times that exist are in the order of their
  instants, and the offset is at most a day. A zone with a spring-forward and a fall-back change
  satisfies this (\<open>dst_zone_ok\<close> below); a zone that skips more than an hour at once, or skips the
  hour before midnight, or a whole day, does not.
\<close>

definition shown_as :: "time_zone \<Rightarrow> int \<Rightarrow> int" where
  "shown_as z l = tz_local z (tz_utc z l)"

definition zone_ok :: "time_zone \<Rightarrow> bool" where
  "zone_ok z \<longleftrightarrow>
     (\<forall>t. tz_utc z (tz_local z t) \<le> t \<and> shown_as z (tz_local z t) = tz_local z t)
     \<and> (\<forall>l. tz_utc z (shown_as z l) = tz_utc z l)
     \<and> (\<forall>a b. a \<le> b \<longrightarrow> shown_as z a = a \<longrightarrow> shown_as z b = b \<longrightarrow> tz_utc z a \<le> tz_utc z b)
     \<and> (\<forall>l. shown_as z l = l + MS_PER_HOUR \<or> l \<le> shown_as z l \<and> shown_as z l div MS_PER_HOUR = l div MS_PER_HOUR)
     \<and> (\<forall>l. shown_as z l div MS_PER_DAY = l div MS_PER_DAY)
     \<and> (\<forall>l. \<bar>tz_utc z l - l\<bar> \<le> MS_PER_DAY) \<and> (\<forall>t. \<bar>tz_local z t - t\<bar> \<le> MS_PER_DAY)"

lemma zone_okD:
  assumes "zone_ok z"
  shows "shown_as z a \<le> shown_as z b \<Longrightarrow> tz_utc z a \<le> tz_utc z b"
    "tz_utc z (tz_local z t) \<le> t \<and> shown_as z (tz_local z t) = tz_local z t"
    "l - MS_PER_DAY \<le> tz_utc z l" "tz_utc z l \<le> l + MS_PER_DAY" "t - MS_PER_DAY \<le> tz_local z t"
    "t \<le> tz_local z t + MS_PER_DAY" "local_day z (tz_utc z l) = l div MS_PER_DAY"
    "shown_as z l = l + MS_PER_HOUR \<or> l \<le> shown_as z l \<and> shown_as z l div MS_PER_HOUR = l div MS_PER_HOUR"
    "tz_utc z (shown_as z l) = tz_utc z l"
proof -
  have "\<bar>tz_utc z l - l\<bar> \<le> MS_PER_DAY" "\<bar>tz_local z t - t\<bar> \<le> MS_PER_DAY" using assms by (auto simp: zone_ok_def)
  then show "l - MS_PER_DAY \<le> tz_utc z l" "tz_utc z l \<le> l + MS_PER_DAY" "t - MS_PER_DAY \<le> tz_local z t"
    "t \<le> tz_local z t + MS_PER_DAY" by linarith+
  show "tz_utc z a \<le> tz_utc z b" if "shown_as z a \<le> shown_as z b"
  proof -
    have "shown_as z (shown_as z l) = shown_as z l" "tz_utc z (shown_as z l) = tz_utc z l" for l
      using assms unfolding zone_ok_def by (metis shown_as_def)+
    moreover have "tz_utc z c \<le> tz_utc z d" if "c \<le> d" "shown_as z c = c" "shown_as z d = d" for c d
      using assms that unfolding zone_ok_def by blast
    ultimately show ?thesis using that by metis
  qed
  show "local_day z (tz_utc z l) = l div MS_PER_DAY" using assms by (simp add: zone_ok_def local_day_def shown_as_def)
  show "shown_as z l = l + MS_PER_HOUR \<or> l \<le> shown_as z l \<and> shown_as z l div MS_PER_HOUR = l div MS_PER_HOUR"
    "tz_utc z (shown_as z l) = tz_utc z l"
    "tz_utc z (tz_local z t) \<le> t \<and> shown_as z (tz_local z t) = tz_local z t"
    using assms unfolding zone_ok_def by blast+
qed

lemma utc_day_mono:
  assumes "zone_ok z" "a div MS_PER_DAY < b div MS_PER_DAY"
  shows "tz_utc z a \<le> tz_utc z b"
proof (rule zone_okD(1) [OF assms(1)])
  have "shown_as z l div MS_PER_DAY = l div MS_PER_DAY" for l
    using zone_okD(7) [OF assms(1), of l] by (simp add: local_day_def shown_as_def)
  then have "shown_as z a div MS_PER_DAY < shown_as z b div MS_PER_DAY" using assms(2) by simp
  then show "shown_as z a \<le> shown_as z b"
    using zdiv_mono1 [of "shown_as z b" "shown_as z a" MS_PER_DAY] by (simp add: MS_PER_DAY_def)
qed

definition day_time :: "time_zone \<Rightarrow> int \<Rightarrow> int \<Rightarrow> int" where
  "day_time z tod n = tz_utc z (n * MS_PER_DAY + tod * 60000)"

lemma day_time_div: "0 \<le> tod \<Longrightarrow> tod \<le> 1439 \<Longrightarrow> (n * MS_PER_DAY + tod * 60000) div MS_PER_DAY = n"
  by (simp add: MS_PER_DAY_def)

lemma year_ge: "day_from_year y \<le> n \<Longrightarrow> y \<le> year_of_day n"
  using year_of_day [of n] day_from_year_mono [of "year_of_day n + 1" y] by linarith

lemma at_local_parts:
  assumes "100 \<le> year_of_day n" "tod = hh * 60 + mm"
  shows "at_local z (year_of_day n) (month_of_day n) (date_of_day n) hh mm = day_time z tod n"
  using make_day_of_parts [OF assms(1), of 0]
  by (simp add: at_local_def date_ms_def day_time_def MS_PER_HOUR_def assms(2) algebra_simps)

lemma next_day_parts:
  assumes "zone_ok z" "100 \<le> year_of_day n"
  shows "next_day z (year_of_day n) (month_of_day n) (date_of_day n)
    = (year_of_day (n + 1), month_of_day (n + 1), date_of_day (n + 1))"
  using make_day_of_parts [OF assms(2), of 1] zone_okD(7) [OF assms(1), of "(n + 1) * MS_PER_DAY"]
  by (simp add: next_day_def date_ms_def get_full_year_def get_month_def get_date_def MS_PER_DAY_def)

subsection \<open>Searching an increasing sequence of candidates\<close>

fun first_hit :: "(int \<Rightarrow> int option) \<Rightarrow> nat \<Rightarrow> int \<Rightarrow> int option" where
  "first_hit c 0 n = None"
| "first_hit c (Suc fuel) n = (case c n of Some t \<Rightarrow> Some t | None \<Rightarrow> first_hit c fuel (n + 1))"

definition hit :: "(int \<Rightarrow> bool) \<Rightarrow> (int \<Rightarrow> int) \<Rightarrow> int \<Rightarrow> int \<Rightarrow> int option" where
  "hit P f after n = (if P n \<and> f n > after then Some (f n) else None)"

text \<open>\<open>t\<close> is the least candidate after \<open>after\<close>.\<close>

definition least_after :: "(int \<Rightarrow> bool) \<Rightarrow> (int \<Rightarrow> int) \<Rightarrow> int \<Rightarrow> int option \<Rightarrow> bool" where
  "least_after P f after r \<longleftrightarrow> (\<exists>n. r = Some (f n) \<and> P n \<and> after < f n \<and> (\<forall>k. P k \<longrightarrow> after < f k \<longrightarrow> f n \<le> f k))"

text \<open>An earlier candidate may also be the same instant as the first one.\<close>

lemma first_hit_least:
  assumes incr: "\<And>a b. a \<le> b \<Longrightarrow> P a \<Longrightarrow> P b \<Longrightarrow> f a \<le> f b"
    and past: "\<And>k. k < n0 \<Longrightarrow> P k \<Longrightarrow> f k \<le> after \<or> P n0 \<and> f k = f n0"
    and some: "n0 \<le> n" "n < n0 + int fuel" "P n" "after < f n"
  shows "least_after P f after (first_hit (hit P f after) fuel n0)"
  using past some(1,2)
proof (induction fuel arbitrary: n0)
  case (Suc fuel)
  show ?case
  proof (cases "P n0 \<and> after < f n0")
    case True
    moreover have "f n0 \<le> f k" if "P k" "after < f k" for k
      using Suc.prems(1) [of k] incr [of n0 k] True that by (cases "k < n0") auto
    ultimately show ?thesis by (auto simp: least_after_def hit_def)
  next
    case False
    then have "n \<noteq> n0" using some(3,4) by auto
    have "least_after P f after (first_hit (hit P f after) fuel (n0 + 1))"
    proof (rule Suc.IH)
      show "f k \<le> after \<or> P (n0 + 1) \<and> f k = f (n0 + 1)" if "k < n0 + 1" "P k" for k
        using Suc.prems(1) [of k] False that by (cases "k = n0") auto
    qed (use Suc.prems \<open>n \<noteq> n0\<close> in auto)
    with False show ?thesis by (auto simp: hit_def [of P f after n0])
  qed
qed simp

lemma year_next: "100 \<le> year_of_day n \<Longrightarrow> 100 \<le> year_of_day (n + 1)"
  using year_ge [of 100 "n + 1"] year_of_day [of n] day_from_year_mono [of 100 "year_of_day n"] by linarith

lemma next_daily_hits:
  assumes "zone_ok z" "tod = hh * 60 + mm" "100 \<le> year_of_day n"
  shows "next_daily_from z after hh mm fuel (year_of_day n) (month_of_day n) (date_of_day n)
    = first_hit (hit (\<lambda>_. True) (day_time z tod) after) fuel n"
  using assms(3)
proof (induction fuel arbitrary: n)
  case (Suc fuel)
  with year_next have "100 \<le> year_of_day (n + 1)" by blast
  with Suc show ?case
    by (simp add: Let_def at_local_parts [OF _ assms(2)] next_day_parts [OF assms(1)] hit_def)
qed simp

lemma probe_day:
  assumes "zone_ok z" "100 \<le> year_of_day n"
  shows "get_day z (date_ms z (year_of_day n) (month_of_day n) (date_of_day n) 0 0) = weekday_of_day n"
  using make_day_of_parts [OF assms(2), of 0] zone_okD(7) [OF assms(1), of "n * MS_PER_DAY"]
  by (simp add: date_ms_def get_day_def MS_PER_DAY_def)

lemma next_weekly_hits:
  assumes "zone_ok z" "tod = hh * 60 + mm" "100 \<le> year_of_day n"
  shows "next_weekly_from z after weekday hh mm fuel (year_of_day n) (month_of_day n) (date_of_day n)
    = first_hit (hit (\<lambda>n. weekday_of_day n = weekday) (day_time z tod) after) fuel n"
  using assms(3)
proof (induction fuel arbitrary: n)
  case (Suc fuel)
  with year_next have "100 \<le> year_of_day (n + 1)" by blast
  with Suc show ?case
    by (simp add: Let_def at_local_parts [OF _ assms(2)] next_day_parts [OF assms(1)] probe_day [OF assms(1)] hit_def)
qed simp

text \<open>Weeks from Monday to Sunday.\<close>

definition week_of_day :: "int \<Rightarrow> int" where
  "week_of_day n = (n + 3) div 7"

lemma monday_week_index:
  assumes "zone_ok z" "local_day z ms = n" "100 \<le> year_of_day n"
  shows "monday_week_index z ms = week_of_day n - 1"
proof -
  have "(n + 10) mod 7 = (n + 3) mod 7" using mod_add_self2 [of "n + 3" 7] by (simp add: add.assoc)
  then have dfm: "(weekday_of_day n + 6) mod 7 = (n + 3) mod 7"
    by (simp add: weekday_of_day_def mod_simps add.assoc)
  have mon: "n - (n + 3) mod 7 = 7 * week_of_day n - 3"
    using minus_mod_eq_mult_div [of "n + 3" 7] by (simp add: week_of_day_def)
  let ?m = "tz_utc z ((7 * week_of_day n - 3) * MS_PER_DAY)"
  have "monday_week_index z ms = ?m div (7 * 24 * 60 * 60 * 1000)"
    using make_day_of_parts [OF assms(3), of "- ((n + 3) mod 7)"] dfm mon
    by (simp add: monday_week_index_def Let_def get_day_def get_full_year_def get_month_def get_date_def assms(2) date_ms_def)
  also have "\<dots> = week_of_day n - 1"
    using zone_okD(3,4) [OF assms(1), of "(7 * week_of_day n - 3) * MS_PER_DAY"]
    by (intro int_div_pos_eq [where r = "?m - (week_of_day n - 1) * 604800000"]) (simp_all add: MS_PER_DAY_def)
  finally show ?thesis .
qed

definition biweekly_day :: "int \<Rightarrow> int \<Rightarrow> int \<Rightarrow> bool" where
  "biweekly_day weekday anchor n \<longleftrightarrow> weekday_of_day n = weekday \<and> (week_of_day n - week_of_day anchor) mod 2 = 0"

lemma abs_mod_2: "\<bar>x\<bar> mod 2 = x mod 2" for x :: int
  by (cases "0 \<le> x") (simp_all, presburger)

lemma next_biweekly_hits:
  assumes "zone_ok z" "tod = hh * 60 + mm" "0 \<le> tod" "tod \<le> 1439" "100 \<le> year_of_day n" "aw = week_of_day anchor - 1"
  shows "next_biweekly_from z after weekday hh mm aw fuel (year_of_day n) (month_of_day n) (date_of_day n)
    = first_hit (hit (biweekly_day weekday anchor) (day_time z tod) after) fuel n"
  using assms(5)
proof (induction fuel arbitrary: n)
  case (Suc fuel)
  with year_next have "100 \<le> year_of_day (n + 1)" by blast
  moreover have "local_day z (day_time z tod n) = n"
    using zone_okD(7) [OF assms(1)] day_time_div [OF assms(3,4)] by (simp add: day_time_def)
  then have "monday_week_index z (day_time z tod n) = week_of_day n - 1"
    using monday_week_index [OF assms(1)] Suc.prems by simp
  ultimately show ?case using Suc
    by (auto simp: Let_def at_local_parts [OF _ assms(2)] next_day_parts [OF assms(1)] probe_day [OF assms(1)]
        hit_def biweekly_day_def assms(6) abs_mod_2)
qed simp


text \<open>Hours are numbered through.\<close>

definition hour_time :: "time_zone \<Rightarrow> int \<Rightarrow> int \<Rightarrow> int" where
  "hour_time z minute k = tz_utc z (k * MS_PER_HOUR + minute * 60000)"

lemma next_hourly_hits:
  assumes "zone_ok z" "100 \<le> year_of_day n" "0 \<le> h" "h \<le> 23"
  shows "next_hourly_from z after minute fuel (year_of_day n) (month_of_day n) (date_of_day n) h
    = first_hit (hit (\<lambda>_. True) (hour_time z minute) after) fuel (24 * n + h)"
  using assms(2,3,4)
proof (induction fuel arbitrary: n h)
  case (Suc fuel)
  let ?c = "hour_time z minute (24 * n + h)"
  have "make_day (year_of_day n) (month_of_day n) (date_of_day n) * MS_PER_DAY + h * MS_PER_HOUR = (24 * n + h) * MS_PER_HOUR"
    using make_day_of_parts [OF Suc.prems(1), of 0] by (simp add: MS_PER_HOUR_def MS_PER_DAY_def)
  then have at: "at_local z (year_of_day n) (month_of_day n) (date_of_day n) h minute = ?c"
    by (simp add: at_local_def date_ms_def hour_time_def)
  show ?case
  proof (cases "after < ?c")
    case True
    then show ?thesis by (simp add: Let_def at hit_def)
  next
    case False
    then have skip: "first_hit (hit (\<lambda>_. True) (hour_time z minute) after) (Suc fuel) (24 * n + h)
        = first_hit (hit (\<lambda>_. True) (hour_time z minute) after) fuel (24 * n + h + 1)"
      by (simp add: hit_def [of _ _ _ "24 * n + h"])
    show ?thesis
    proof (cases "h = 23")
      case True
      have "24 * n + h + 1 = 24 * (n + 1) + 0" using True by simp
      then show ?thesis using Suc.IH [of "n + 1" 0] Suc.prems(1) year_next False
        unfolding skip by (simp add: Let_def at True next_day_parts [OF assms(1)] del: first_hit.simps)
          (simp add: Let_def at [unfolded True] next_day_parts [OF assms(1)] add.commute del: first_hit.simps)
    next
      case h: False
      have "24 * n + h + 1 = 24 * n + (h + 1)" by simp
      then show ?thesis using Suc.IH [of n "h + 1"] Suc.prems h False
        unfolding skip \<open>24 * n + h + 1 = _\<close> by (simp add: Let_def at del: first_hit.simps)
    qed
  qed
qed simp

text \<open>Months are numbered through as well.\<close>

definition month_first :: "int \<Rightarrow> int" where
  "month_first i = day_from_year (i div 12) + month_start (is_leap (i div 12)) (i mod 12)"

definition month_len :: "int \<Rightarrow> int" where
  "month_len i = days_in_month (i div 12) (i mod 12)"

lemma next_month:
  "i mod 12 = 11 \<Longrightarrow> (i + 1) div 12 = i div 12 + 1 \<and> (i + 1) mod 12 = 0"
  "i mod 12 \<noteq> 11 \<Longrightarrow> (i + 1) div 12 = i div 12 \<and> (i + 1) mod 12 = i mod 12 + 1" for i :: int
proof -
  define q r where "q = i div 12" and "r = i mod 12"
  have i: "i = 12 * q + r" "0 \<le> r" "r < 12" by (simp_all add: q_def r_def)
  show "(i + 1) div 12 = i div 12 + 1 \<and> (i + 1) mod 12 = 0" if "i mod 12 = 11"
    using that i int_div_pos_eq [of "i + 1" 12 "q + 1" 0] int_mod_pos_eq [of "i + 1" 12 "q + 1" 0]
    by (simp add: q_def [symmetric] r_def [symmetric])
  show "(i + 1) div 12 = i div 12 \<and> (i + 1) mod 12 = i mod 12 + 1" if "i mod 12 \<noteq> 11"
    using that i int_div_pos_eq [of "i + 1" 12 q "r + 1"] int_mod_pos_eq [of "i + 1" 12 q "r + 1"]
    by (simp add: q_def [symmetric] r_def [symmetric])
qed

lemma month_first_Suc: "month_first (i + 1) = month_first i + month_len i"
proof (cases "i mod 12 = 11")
  case True
  then have "(i + 1) div 12 = i div 12 + 1" "(i + 1) mod 12 = 0" using next_month(1) by blast+
  then show ?thesis by (simp add: month_first_def month_len_def days_in_month_def True day_from_year_Suc month_start_ends)
next
  case False
  then have "(i + 1) div 12 = i div 12" "(i + 1) mod 12 = i mod 12 + 1" using next_month(2) by blast+
  then show ?thesis by (simp add: month_first_def month_len_def days_in_month_def)
qed

lemma month_cases: "i mod 12 \<in> {0, 1, 2, 3, 4, 5, 6, 7, 8, 9, 10, 11}" for i :: int
  using pos_mod_sign [of 12 i] pos_mod_bound [of 12 i] unfolding insert_iff empty_iff by arith

lemma month_len_bounds: "28 \<le> month_len i" "month_len i \<le> 31"
  using month_cases [of i] by (auto simp: month_len_def days_in_month_def month_start_def)

lemma long_month: "month_len i = 31 \<or> month_len (i + 1) = 31"
proof -
  have "(i + 1) mod 12 = (if i mod 12 = 11 then 0 else i mod 12 + 1)" using next_month [of i] by simp
  then show ?thesis using month_cases [of i] by (auto simp: month_len_def days_in_month_def month_start_def)
qed

lemma month_first_mono: "i \<le> j \<Longrightarrow> month_first i \<le> month_first j"
proof (induction "nat (j - i)" arbitrary: j)
  case (Suc k)
  then have "i \<le> j - 1" by simp
  with Suc have "month_first i \<le> month_first (j - 1)" by simp
  then show ?case using month_first_Suc [of "j - 1"] month_len_bounds(1) [of "j - 1"] by simp
qed simp

definition month_index :: "int \<Rightarrow> int" where
  "month_index n = 12 * year_of_day n + month_of_day n"

lemma month_index_parts: "month_index n div 12 = year_of_day n" "month_index n mod 12 = month_of_day n"
  using day_parts(1,2) [of n] by (simp_all add: month_index_def)

lemma month_index_day: "month_first (month_index n) + date_of_day n - 1 = n" "date_of_day n \<le> month_len (month_index n)"
  using day_parts(4,5) [of n] by (simp_all add: month_first_def month_index_parts month_len_def)

lemma date_in_month:
  assumes "1 \<le> d" "d \<le> month_len i"
  shows "month_index (month_first i + d - 1) = i" "date_of_day (month_first i + d - 1) = d"
proof -
  have m: "0 \<le> i mod 12" "i mod 12 \<le> 11" using pos_mod_bound [of 12 i] by simp_all
  note p = parts_of_day [OF m assms(1), of "i div 12" "month_first i + d - 1"]
  show "month_index (month_first i + d - 1) = i" "date_of_day (month_first i + d - 1) = d"
    using p assms(2) by (simp_all add: month_index_def month_first_def month_len_def)
qed


lemma make_day_month:
  assumes "100 \<le> i div 12"
  shows "make_day (i div 12) (i mod 12) d = month_first i + d - 1" "make_day (i div 12) (i mod 12 + 1) 0 = month_first (i + 1) - 1"
proof -
  have y: "make_full_year (i div 12) = i div 12" using assms by (simp add: make_full_year_def)
  then show "make_day (i div 12) (i mod 12) d = month_first i + d - 1"
    by (simp add: make_day_def month_first_def Let_def)
  show "make_day (i div 12) (i mod 12 + 1) 0 = month_first (i + 1) - 1"
  proof (cases "i mod 12 = 11")
    case True
    with next_month(1) y show ?thesis by (simp add: make_day_def month_first_def Let_def)
  next
    case False
    then have "(i mod 12 + 1) div 12 = 0" "(i mod 12 + 1) mod 12 = i mod 12 + 1"
      using pos_mod_sign [of 12 i] pos_mod_bound [of 12 i] by (auto intro: div_pos_pos_trivial mod_pos_pos_trivial)
    with next_month(2) [OF False] y show ?thesis by (simp add: make_day_def month_first_def Let_def)
  qed
qed

definition month_time :: "time_zone \<Rightarrow> int \<Rightarrow> int \<Rightarrow> int \<Rightarrow> int" where
  "month_time z tod mday i = day_time z tod (month_first i + mday - 1)"

lemma next_monthly_hits:
  assumes "zone_ok z" "tod = hh * 60 + mm" "0 \<le> tod" "tod \<le> 1439" "1 \<le> mday" "100 \<le> i div 12"
  shows "next_monthly_from z after mday hh mm fuel (i div 12) (i mod 12)
    = first_hit (hit (\<lambda>i. mday \<le> month_len i) (month_time z tod mday) after) fuel i"
  using assms(6)
proof (induction fuel arbitrary: i)
  case (Suc fuel)
  have at: "at_local z (i div 12) (i mod 12) mday hh mm = month_time z tod mday i"
    by (simp add: at_local_def date_ms_def month_time_def day_time_def make_day_month(1) [OF Suc.prems] MS_PER_HOUR_def assms(2) ac_simps)
  have "local_day z (date_ms z (i div 12) (i mod 12 + 1) 0 0 0) = month_first i + month_len i - 1"
    using make_day_month(2) [OF Suc.prems] zone_okD(7) [OF assms(1), of "(month_first i + month_len i - 1) * MS_PER_DAY"]
    by (simp add: date_ms_def month_first_Suc MS_PER_DAY_def)
  then have len: "js_days_in_month z (i div 12) (i mod 12) = month_len i"
    using date_in_month(2) [of "month_len i" i] month_len_bounds(1) [of i] by (simp add: js_days_in_month_def get_date_def)
  have cand: "local_day z (month_time z tod mday i) = month_first i + mday - 1"
    using zone_okD(7) [OF assms(1)] day_time_div [OF assms(3,4)] by (simp add: month_time_def day_time_def)
  have same: "get_full_year z (month_time z tod mday i) = i div 12" "get_month z (month_time z tod mday i) = i mod 12"
    "get_date z (month_time z tod mday i) = mday" if "mday \<le> month_len i"
    using date_in_month [OF assms(5) that] month_index_parts [of "month_first i + mday - 1"]
    by (simp_all add: get_full_year_def get_month_def get_date_def cand)
  have this_month: "(mday \<le> month_len i \<and> get_full_year z (month_time z tod mday i) = i div 12
      \<and> get_month z (month_time z tod mday i) = i mod 12 \<and> get_date z (month_time z tod mday i) = mday
      \<and> after < month_time z tod mday i) = (mday \<le> month_len i \<and> after < month_time z tod mday i)"
    using same by blast
  show ?case
  proof (cases "mday \<le> month_len i \<and> after < month_time z tod mday i")
    case True
    with this_month show ?thesis by (simp add: Let_def at len hit_def)
  next
    case False
    have "100 \<le> (i + 1) div 12" using Suc.prems next_month [of i] by (cases "i mod 12 = 11") simp_all
    note IH = Suc.IH [OF this]
    have skip: "first_hit (hit (\<lambda>i. mday \<le> month_len i) (month_time z tod mday) after) (Suc fuel) i
        = first_hit (hit (\<lambda>i. mday \<le> month_len i) (month_time z tod mday) after) fuel (i + 1)"
      using False by (auto simp: hit_def [of _ _ _ i])
    have step: "next_monthly_from z after mday hh mm (Suc fuel) (i div 12) (i mod 12)
        = (if i mod 12 + 1 > 11 then next_monthly_from z after mday hh mm fuel (i div 12 + 1) 0
           else next_monthly_from z after mday hh mm fuel (i div 12) (i mod 12 + 1))"
      unfolding next_monthly_from.simps Let_def at len this_month using False by (simp only: if_False)
    show ?thesis
    proof (cases "i mod 12 = 11")
      case True
      with IH next_month(1) [OF True] show ?thesis unfolding step skip by simp
    next
      case False
      then have "\<not> i mod 12 + 1 > 11" using pos_mod_bound [of 12 i] by linarith
      with IH next_month(2) [OF False] show ?thesis unfolding step skip by (simp only: if_False)
    qed
  qed
qed simp

subsection \<open>Every search finds the least occurrence\<close>

lemma local_day_bounds:
  assumes "zone_ok z"
  shows "l < local_day z after * MS_PER_DAY \<Longrightarrow> tz_utc z l \<le> after"
    "(local_day z after + 3) * MS_PER_DAY \<le> l \<Longrightarrow> after < tz_utc z l"
proof -
  have d: "local_day z after * MS_PER_DAY \<le> tz_local z after" "tz_local z after < (local_day z after + 1) * MS_PER_DAY"
    using div_bounds [of MS_PER_DAY "tz_local z after"] by (simp_all add: local_day_def MS_PER_DAY_def)
  show "tz_utc z l \<le> after" if "l < local_day z after * MS_PER_DAY"
  proof -
    have "l div MS_PER_DAY < tz_local z after div MS_PER_DAY"
      using that div_bounds [of MS_PER_DAY l] by (simp add: local_day_def MS_PER_DAY_def)
    then have "tz_utc z l \<le> tz_utc z (tz_local z after)" by (rule utc_day_mono [OF assms])
    with zone_okD(2) [OF assms, of after] show ?thesis by linarith
  qed
  show "after < tz_utc z l" if "(local_day z after + 3) * MS_PER_DAY \<le> l"
    using that d zone_okD(3) [OF assms, of l] zone_okD(6) [OF assms, of after] by (simp add: MS_PER_DAY_def)
qed

lemma day_time_bounds:
  assumes "zone_ok z" "0 \<le> tod" "tod \<le> 1439"
  shows "n < local_day z after \<Longrightarrow> day_time z tod n \<le> after" "local_day z after + 3 \<le> n \<Longrightarrow> after < day_time z tod n"
    "a \<le> b \<Longrightarrow> day_time z tod a \<le> day_time z tod b"
proof -
  show "day_time z tod n \<le> after" if "n < local_day z after"
    unfolding day_time_def by (rule local_day_bounds(1) [OF assms(1)]) (use that assms(2,3) in \<open>simp add: MS_PER_DAY_def\<close>)
  show "after < day_time z tod n" if "local_day z after + 3 \<le> n"
    unfolding day_time_def by (rule local_day_bounds(2) [OF assms(1)]) (use that assms(2,3) in \<open>simp add: MS_PER_DAY_def\<close>)
  show "day_time z tod a \<le> day_time z tod b" if "a \<le> b"
  proof (cases "a = b")
    case False
    with that show ?thesis unfolding day_time_def
      by (intro utc_day_mono [OF assms(1)]) (simp add: day_time_div [OF assms(2,3)])
  qed simp
qed

lemma day_search:
  assumes "zone_ok z" "0 \<le> tod" "tod \<le> 1439" "local_day z after + 3 \<le> n" "n < local_day z after + 1000" "P n"
  shows "least_after P (day_time z tod) after (first_hit (hit P (day_time z tod) after) MAX_CANDIDATES (local_day z after))"
  by (rule first_hit_least [where n = n]) (use assms day_time_bounds [OF assms(1-3)] in \<open>auto simp: MAX_CANDIDATES_def\<close>)

lemma shown_hour:
  assumes "zone_ok z" "0 \<le> minute" "minute \<le> 59"
  defines "l \<equiv> \<lambda>k. k * MS_PER_HOUR + minute * 60000"
  shows "l k \<le> shown_as z (l k)" "shown_as z (l k) = l (k + 1) \<or> shown_as z (l k) < (k + 1) * MS_PER_HOUR"
proof -
  have "l k div MS_PER_HOUR = k" using assms(2,3) by (simp add: l_def MS_PER_HOUR_def)
  then have "shown_as z (l k) = l (k + 1) \<or> l k \<le> shown_as z (l k) \<and> shown_as z (l k) div MS_PER_HOUR = k"
    using zone_okD(8) [OF assms(1), of "l k"] by (simp add: l_def algebra_simps)
  then show "l k \<le> shown_as z (l k)" "shown_as z (l k) = l (k + 1) \<or> shown_as z (l k) < (k + 1) * MS_PER_HOUR"
    using div_bounds [of MS_PER_HOUR "shown_as z (l k)"] by (auto simp: l_def MS_PER_HOUR_def)
qed

lemma hour_time_mono:
  assumes "zone_ok z" "0 \<le> minute" "minute \<le> 59" "a \<le> b"
  shows "hour_time z minute a \<le> hour_time z minute b"
proof (cases "a = b")
  case False
  have "(a + 1) * MS_PER_HOUR \<le> b * MS_PER_HOUR" using assms(4) False by (intro mult_right_mono) (simp_all add: MS_PER_HOUR_def)
  then show ?thesis
    unfolding hour_time_def using shown_hour [OF assms(1-3), of a] shown_hour(1) [OF assms(1-3), of b] assms(2)
    by (intro zone_okD(1) [OF assms(1)]) auto
qed simp

text \<open>A skipped hour is the same instant as the hour after it, where the search starts.\<close>

lemma hour_time_past:
  assumes "zone_ok z" "0 \<le> minute" "minute \<le> 59" "k < tz_local z after div MS_PER_HOUR"
  shows "hour_time z minute k \<le> after \<or> hour_time z minute k = hour_time z minute (tz_local z after div MS_PER_HOUR)"
proof -
  define h where "h = tz_local z after div MS_PER_HOUR"
  let ?l = "\<lambda>k. k * MS_PER_HOUR + minute * 60000"
  have h: "h * MS_PER_HOUR \<le> tz_local z after"
    using div_bounds [of MS_PER_HOUR "tz_local z after"] by (simp add: h_def MS_PER_HOUR_def)
  have up: "j * MS_PER_HOUR \<le> tz_local z after" if "j \<le> h" for j
    using mult_right_mono [OF that, of MS_PER_HOUR] h by (simp add: MS_PER_HOUR_def)
  consider "shown_as z (?l k) \<le> tz_local z after" | "k + 1 = h" "shown_as z (?l k) = ?l h"
  proof (cases "shown_as z (?l k) = ?l (k + 1) \<and> k + 1 \<noteq> h")
    case True
    then have "k + 2 \<le> h" using assms(4) by (simp add: h_def)
    then show ?thesis using up [of "k + 2"] True assms(3) that(1) by (simp add: MS_PER_HOUR_def)
  next
    case False
    have "k + 1 \<le> h" using assms(4) by (simp add: h_def)
    then show ?thesis using up [of "k + 1"] False shown_hour(2) [OF assms(1-3), of k] that by fastforce
  qed
  then show ?thesis
  proof cases
    case 1
    then have "tz_utc z (?l k) \<le> tz_utc z (tz_local z after)"
      using zone_okD(2) [OF assms(1), of after] by (intro zone_okD(1) [OF assms(1)]) simp
    with zone_okD(2) [OF assms(1), of after] show ?thesis by (simp add: hour_time_def)
  next
    case 2
    then show ?thesis using zone_okD(9) [OF assms(1), of "?l k"] by (simp add: hour_time_def h_def [symmetric])
  qed
qed

lemma hour_search:
  assumes "zone_ok z" "0 \<le> minute" "minute \<le> 59"
  shows "least_after (\<lambda>_. True) (hour_time z minute) after
    (first_hit (hit (\<lambda>_. True) (hour_time z minute) after) MAX_CANDIDATES (tz_local z after div MS_PER_HOUR))"
proof (rule first_hit_least [where n = "tz_local z after div MS_PER_HOUR + 49"])
  let ?h = "tz_local z after div MS_PER_HOUR"
  have h: "?h * MS_PER_HOUR \<le> tz_local z after" "tz_local z after < (?h + 1) * MS_PER_HOUR"
    using div_bounds [of MS_PER_HOUR "tz_local z after"] by (simp_all add: MS_PER_HOUR_def)
  show "hour_time z minute a \<le> hour_time z minute b" if "a \<le> b" for a b
    by (rule hour_time_mono [OF assms that])
  show "hour_time z minute k \<le> after \<or> True \<and> hour_time z minute k = hour_time z minute ?h" if "k < ?h" for k
    using hour_time_past [OF assms that] by simp
  show "after < hour_time z minute (?h + 49)"
    using h assms(2) zone_okD(3) [OF assms(1), of "(?h + 49) * MS_PER_HOUR + minute * 60000"] zone_okD(6) [OF assms(1), of after]
    by (simp add: hour_time_def MS_PER_HOUR_def MS_PER_DAY_def)
qed (simp_all add: MAX_CANDIDATES_def)


lemma month_time_day: "month_time z tod mday i = day_time z tod (month_first i + mday - 1)"
  by (simp add: month_time_def)

lemma month_day_less: "i < j \<Longrightarrow> mday \<le> month_len i \<Longrightarrow> month_first i + mday - 1 < month_first j"
  using month_first_Suc [of i] month_first_mono [of "i + 1" j] by simp

lemma month_search:
  assumes "zone_ok z" "0 \<le> tod" "tod \<le> 1439" "1 \<le> mday" "mday \<le> 31"
  shows "least_after (\<lambda>i. mday \<le> month_len i) (month_time z tod mday) after
    (first_hit (hit (\<lambda>i. mday \<le> month_len i) (month_time z tod mday) after) MAX_CANDIDATES (month_index (local_day z after)))"
proof -
  note db = day_time_bounds [OF assms(1-3)]
  let ?d = "local_day z after" and ?i = "month_index (local_day z after)"
  have d: "month_first ?i \<le> ?d" "?d < month_first (?i + 1)"
    using month_index_day [of ?d] day_parts(3) [of ?d] month_first_Suc [of ?i] by simp_all
  obtain n where n: "?i + 2 \<le> n" "n \<le> ?i + 3" "mday \<le> month_len n"
    using long_month [of "?i + 2"] assms(5) by (metis add.assoc add_left_mono numeral_Bit1 numeral_One one_add_one one_le_numeral order_refl semiring_norm(26) semiring_norm(28) add_numeral_left)
  show ?thesis
  proof (rule first_hit_least [where n = n])
    show "month_time z tod mday a \<le> month_time z tod mday b" if "a \<le> b" for a b
      unfolding month_time_def using month_first_mono [OF that] by (intro db(3)) simp
    show "month_time z tod mday k \<le> after \<or> mday \<le> month_len ?i \<and> month_time z tod mday k = month_time z tod mday ?i"
      if "k < ?i" "mday \<le> month_len k" for k
      unfolding month_time_def using month_day_less [OF that] d(1) by (intro disjI1 db(1)) simp
    have "month_first (?i + 2) = month_first (?i + 1) + month_len (?i + 1)" using month_first_Suc [of "?i + 1"] by (simp add: add.assoc)
    then have "?d + 3 \<le> month_first n + mday - 1"
      using month_first_mono [OF n(1)] month_len_bounds(1) [of "?i + 1"] d(2) assms(4) by simp
    then show "after < month_time z tod mday n" unfolding month_time_def by (rule db(2))
  qed (use n in \<open>simp_all add: MAX_CANDIDATES_def\<close>)
qed

lemma weekday_exists:
  assumes "0 \<le> w" "w \<le> 6"
  shows "\<exists>n. m \<le> n \<and> n \<le> m + 6 \<and> weekday_of_day n = w"
proof (intro exI conjI)
  let ?k = "(w - (m + 4)) mod 7"
  show "m \<le> m + ?k" "m + ?k \<le> m + 6" using pos_mod_bound [of 7 "w - (m + 4)"] by simp_all
  have "m + ?k + 4 = m + 4 + ?k" by simp
  then have "(m + ?k + 4) mod 7 = (m + 4 + ?k) mod 7" by (rule arg_cong)
  also have "\<dots> = w mod 7" by (simp add: mod_add_right_eq)
  finally show "weekday_of_day (m + ?k) = w" using assms by (simp add: weekday_of_day_def)
qed

lemma week_later: "weekday_of_day (n + 7) = weekday_of_day n" "week_of_day (n + 7) = week_of_day n + 1"
proof -
  have "n + 7 + 4 = n + 4 + 7" "n + 7 + 3 = n + 3 + 7" by simp_all
  moreover have "(n + 4 + 7) mod 7 = (n + 4) mod 7" by (rule mod_add_self2)
  moreover have "(n + 3 + 7) div 7 = (n + 3) div 7 + 1" by (rule div_add_self2) simp
  ultimately show "weekday_of_day (n + 7) = weekday_of_day n" "week_of_day (n + 7) = week_of_day n + 1"
    unfolding weekday_of_day_def week_of_day_def by simp_all
qed

lemma biweekly_exists:
  assumes "0 \<le> w" "w \<le> 6"
  shows "\<exists>n. m \<le> n \<and> n \<le> m + 13 \<and> biweekly_day w a n"
proof -
  obtain n where n: "m \<le> n" "n \<le> m + 6" "weekday_of_day n = w" using weekday_exists [OF assms] by blast
  have "(week_of_day n - week_of_day a) mod 2 = 0 \<or> (week_of_day n + 1 - week_of_day a) mod 2 = 0" by presburger
  then show ?thesis
  proof
    assume "(week_of_day n - week_of_day a) mod 2 = 0"
    with n show ?thesis by (intro exI [of _ n]) (simp add: biweekly_day_def)
  next
    assume "(week_of_day n + 1 - week_of_day a) mod 2 = 0"
    with n show ?thesis by (intro exI [of _ "n + 7"]) (simp add: biweekly_day_def week_later)
  qed
qed

subsection \<open>The occurrences of a rule\<close>

definition given_anchor :: "broadcast_rule \<Rightarrow> string option" where
  "given_anchor rule = (case br_anchor_ymd rule of None \<Rightarrow> None | Some a \<Rightarrow> if a = [] then None else Some a)"

definition valid_rule :: "broadcast_rule \<Rightarrow> bool" where
  "valid_rule rule \<longleftrightarrow> 0 \<le> br_time_of_day_min rule \<and> br_time_of_day_min rule \<le> 1439 \<and>
     (case br_interval rule of
        Weekly \<Rightarrow> valid_weekday (br_weekday rule)
      | Biweekly \<Rightarrow> valid_weekday (br_weekday rule) \<and> (case given_anchor rule of None \<Rightarrow> True | Some a \<Rightarrow> ymd_parts a \<noteq> None)
      | Monthly \<Rightarrow> (case br_day_of_month rule of None \<Rightarrow> False | Some d \<Rightarrow> 1 \<le> d \<and> d \<le> 31)
      | _ \<Rightarrow> True)"

text \<open>The day whose week a biweekly rule counts from; without an anchor the current week.\<close>

definition anchor_day :: "broadcast_rule \<Rightarrow> int \<Rightarrow> int" where
  "anchor_day rule today = (case given_anchor rule of None \<Rightarrow> today
     | Some a \<Rightarrow> (case ymd_parts a of None \<Rightarrow> today | Some (y, m, d) \<Rightarrow> make_day y m d))"

definition rule_day :: "broadcast_rule \<Rightarrow> int \<Rightarrow> int \<Rightarrow> bool" where
  "rule_day rule today n = (case br_interval rule of
     Weekly \<Rightarrow> br_weekday rule = Some (weekday_of_day n)
   | Biweekly \<Rightarrow> br_weekday rule = Some (weekday_of_day n) \<and> (week_of_day n - week_of_day (anchor_day rule today)) mod 2 = 0
   | Monthly \<Rightarrow> br_day_of_month rule = Some (date_of_day n)
   | _ \<Rightarrow> True)"

definition is_occurrence :: "time_zone \<Rightarrow> broadcast_rule \<Rightarrow> int \<Rightarrow> int \<Rightarrow> bool" where
  "is_occurrence z rule today t \<longleftrightarrow>
     (if br_interval rule = Hourly then \<exists>k. t = hour_time z (br_time_of_day_min rule mod 60) k
      else \<exists>n. rule_day rule today n \<and> t = day_time z (br_time_of_day_min rule) n)"

definition next_occurrence :: "time_zone \<Rightarrow> broadcast_rule \<Rightarrow> int \<Rightarrow> int option \<Rightarrow> bool" where
  "next_occurrence z rule after r \<longleftrightarrow> (case r of None \<Rightarrow> False | Some t \<Rightarrow>
     after < t \<and> is_occurrence z rule (local_day z after) t
     \<and> (\<forall>u. is_occurrence z rule (local_day z after) u \<longrightarrow> after < u \<longrightarrow> t \<le> u))"

lemma least_after_next:
  assumes "least_after P f after r" "\<And>t. is_occurrence z rule (local_day z after) t \<longleftrightarrow> (\<exists>n. P n \<and> t = f n)"
  shows "next_occurrence z rule after r"
  using assms by (auto simp: least_after_def next_occurrence_def)


lemma split_time_of_day:
  "split_time_of_day t = (if 0 \<le> t \<and> t \<le> 1439 then Some (t div 60, t mod 60) else None)"
  by (simp add: split_time_of_day_def)

lemma recent_year:
  assumes "zone_ok z" "0 \<le> after"
  shows "100 \<le> year_of_day (local_day z after)"
proof -
  have "- MS_PER_DAY \<le> tz_local z after" using zone_okD(5) [OF assms(1), of after] assms(2) by simp
  then have "-1 \<le> local_day z after" unfolding local_day_def
    using zdiv_mono1 [of "- MS_PER_DAY" "tz_local z after" MS_PER_DAY] by (simp add: MS_PER_DAY_def)
  moreover have "day_from_year 100 \<le> -1" by (simp add: day_from_year_def)
  ultimately show ?thesis by (intro year_ge) linarith
qed

lemma ymd_year:
  assumes "ymd_parts a = Some (y, m, d)"
  shows "100 \<le> year_of_day (make_day y m d)"
proof -
  have p: "0 \<le> y" "0 \<le> m" "m \<le> 11" "1 \<le> d" using assms by (auto simp: ymd_parts_def Let_def split: if_splits)
  then have "100 \<le> make_full_year y" by (simp add: make_full_year_def)
  then have "day_from_year 100 \<le> day_from_year (make_full_year y)" by (rule day_from_year_mono)
  moreover have "0 \<le> month_start (is_leap (make_full_year y)) m"
    using month_start_mono [of 0 m "is_leap (make_full_year y)"] p by (simp add: month_start_ends)
  ultimately show ?thesis using p by (intro year_ge) (simp add: make_day_def Let_def)
qed

lemma anchor_week:
  assumes "zone_ok z" "0 \<le> after" "case given_anchor rule of None \<Rightarrow> True | Some a \<Rightarrow> ymd_parts a \<noteq> None"
  shows "monday_week_index z (case (case given_anchor rule of None \<Rightarrow> None | Some a \<Rightarrow> ymd_parts a) of
        Some (y, m, d) \<Rightarrow> at_local z y m d 0 0
      | None \<Rightarrow> at_local z (get_full_year z after) (get_month z after) (get_date z after) 0 0)
    = week_of_day (anchor_day rule (local_day z after)) - 1"
proof -
  have midnight: "local_day z (at_local z y m d 0 0) = make_day y m d" for y m d
    using zone_okD(7) [OF assms(1), of "make_day y m d * MS_PER_DAY"] by (simp add: at_local_def date_ms_def MS_PER_DAY_def)
  note today = recent_year [OF assms(1,2)]
  show ?thesis
  proof (cases "given_anchor rule")
    case None
    then show ?thesis
      using monday_week_index [OF assms(1) midnight] make_day_of_parts [OF today, of 0] today
      by (simp add: anchor_day_def get_full_year_def get_month_def get_date_def)
  next
    case (Some a)
    then obtain y m d where "ymd_parts a = Some (y, m, d)" using assms(3) by auto
    with Some show ?thesis using monday_week_index [OF assms(1) midnight] ymd_year by (simp add: anchor_day_def)
  qed
qed

text \<open>Each interval, searched from the current day.\<close>

lemma interval_searches:
  assumes z: "zone_ok z" "0 \<le> after" and tod: "0 \<le> tod" "tod \<le> 1439"
  shows "least_after (\<lambda>_. True) (hour_time z (tod mod 60)) after (next_hourly z after (tod mod 60))"
    and "least_after (\<lambda>_. True) (day_time z tod) after (next_daily z after (tod div 60) (tod mod 60))"
    and "0 \<le> w \<Longrightarrow> w \<le> 6 \<Longrightarrow>
      least_after (\<lambda>n. weekday_of_day n = w) (day_time z tod) after (next_weekly z after w (tod div 60) (tod mod 60))"
    and "0 \<le> w \<Longrightarrow> w \<le> 6 \<Longrightarrow> monday_week_index z ms = week_of_day a - 1 \<Longrightarrow>
      least_after (biweekly_day w a) (day_time z tod) after (next_biweekly z after w (tod div 60) (tod mod 60) ms)"
    and "1 \<le> mday \<Longrightarrow> mday \<le> 31 \<Longrightarrow>
      least_after (\<lambda>i. mday \<le> month_len i) (month_time z tod mday) after (next_monthly z after mday (tod div 60) (tod mod 60))"
proof -
  let ?d = "local_day z after"
  have y: "100 \<le> year_of_day ?d" by (rule recent_year [OF z])
  have t: "tod = tod div 60 * 60 + tod mod 60" by simp
  have h: "24 * ?d + get_hours z after = tz_local z after div MS_PER_HOUR"
  proof -
    have "?d = tz_local z after div MS_PER_HOUR div 24"
      unfolding local_day_def MS_PER_DAY_def MS_PER_HOUR_def by (simp add: zdiv_zmult2_eq [symmetric])
    then show ?thesis by (simp add: get_hours_def)
  qed
  have h': "0 \<le> get_hours z after" "get_hours z after \<le> 23"
    using pos_mod_bound [of 24 "tz_local z after div MS_PER_HOUR"] by (simp_all add: get_hours_def)
  have minute: "0 \<le> tod mod 60" "tod mod 60 \<le> 59" using pos_mod_bound [of 60 tod] by simp_all
  note parts = get_full_year_def get_month_def get_date_def
  show "least_after (\<lambda>_. True) (hour_time z (tod mod 60)) after (next_hourly z after (tod mod 60))"
    using hour_search [OF z(1) minute] next_hourly_hits [OF z(1) y h'] by (simp add: next_hourly_def parts h)
  show "least_after (\<lambda>_. True) (day_time z tod) after (next_daily z after (tod div 60) (tod mod 60))"
    using day_search [OF z(1) tod, of after "?d + 3"] next_daily_hits [OF z(1) t y] by (simp add: next_daily_def parts)
  show "least_after (\<lambda>n. weekday_of_day n = w) (day_time z tod) after (next_weekly z after w (tod div 60) (tod mod 60))"
    if "0 \<le> w" "w \<le> 6"
  proof -
    note w = that
    obtain n where "?d + 3 \<le> n" "n \<le> ?d + 3 + 6" "weekday_of_day n = w" using weekday_exists [OF w] by blast
    then show ?thesis using day_search [OF z(1) tod, of after n] next_weekly_hits [OF z(1) t y]
      by (simp add: next_weekly_def parts)
  qed
  show "least_after (biweekly_day w a) (day_time z tod) after (next_biweekly z after w (tod div 60) (tod mod 60) ms)"
    if "0 \<le> w" "w \<le> 6" "monday_week_index z ms = week_of_day a - 1"
  proof -
    note w = that
    obtain n where "?d + 3 \<le> n" "n \<le> ?d + 3 + 13" "biweekly_day w a n" using biweekly_exists [OF w(1,2)] by blast
    then show ?thesis using day_search [OF z(1) tod, of after n] next_biweekly_hits [OF z(1) t tod y w(3)]
      by (simp add: next_biweekly_def parts)
  qed
  show "least_after (\<lambda>i. mday \<le> month_len i) (month_time z tod mday) after (next_monthly z after mday (tod div 60) (tod mod 60))"
    if "1 \<le> mday" "mday \<le> 31"
    using month_search [OF z(1) tod that] next_monthly_hits [OF z(1) t tod that(1), of "month_index ?d"] y
    by (simp add: next_monthly_def parts month_index_parts)
qed

lemma month_days:
  "1 \<le> mday \<Longrightarrow> (\<exists>i. mday \<le> month_len i \<and> t = month_time z tod mday i) \<longleftrightarrow> (\<exists>n. date_of_day n = mday \<and> t = day_time z tod n)"
proof (intro iffI; elim exE conjE)
  fix i assume "1 \<le> mday" "mday \<le> month_len i" "t = month_time z tod mday i"
  then show "\<exists>n. date_of_day n = mday \<and> t = day_time z tod n"
    using date_in_month(2) unfolding month_time_def by blast
next
  fix n assume "date_of_day n = mday" "t = day_time z tod n"
  then show "\<exists>i. mday \<le> month_len i \<and> t = month_time z tod mday i"
    using month_index_day [of n] by (intro exI [of _ "month_index n"]) (simp add: month_time_def)
qed


text \<open>
  C30: in every time zone with the documented laws of \<open>zone_ok\<close>, daylight-saving changes included, and
  from every instant since 1970: a rule with a valid time of day, weekday, day of month and anchor
  always has a next due time, the first of its wall-clock occurrences strictly after the given
  instant; any other rule has none. An occurrence is the instant \<^verbatim>\<open>Date\<close> gives for the rule's
  time on each hour, each day, each given weekday, each given weekday of every second week from the
  anchor's, or each month that has the given day; a time that is skipped counts where \<^verbatim>\<open>Date\<close> moves
  it, a time that is repeated counts once. The search of 1000 candidates is always enough.
\<close>

theorem next_due_is_next_occurrence:
  assumes "zone_ok z" "0 \<le> after"
  shows "if valid_rule rule then next_occurrence z rule after (compute_next_due z rule after)
    else compute_next_due z rule after = None"
proof (cases "valid_rule rule")
  case True
  define tod where "tod = br_time_of_day_min rule"
  have tod: "0 \<le> tod" "tod \<le> 1439" using True by (simp_all add: valid_rule_def tod_def)
  then have hm: "split_time_of_day tod = Some (tod div 60, tod mod 60)" by (simp add: split_time_of_day)
  note search = interval_searches [OF assms tod]
  note occ = is_occurrence_def rule_day_def tod_def [symmetric] compute_next_due_def
  note next_is = least_after_next [where z = z and rule = rule]
  have "next_occurrence z rule after (compute_next_due z rule after)"
  proof (cases "br_interval rule")
    case Hourly
    then show ?thesis using next_is [OF search(1)] by (simp add: hm occ)
  next
    case Daily
    then show ?thesis using next_is [OF search(2)] by (simp add: hm occ)
  next
    case Weekly
    with True obtain w where w: "br_weekday rule = Some w" "0 \<le> w" "w \<le> 6"
      by (auto simp: valid_rule_def valid_weekday_def split: option.splits)
    then show ?thesis using next_is [OF search(3) [OF w(2,3)]] Weekly
      by (simp add: hm occ valid_weekday_def eq_commute [of w])
  next
    case Biweekly
    with True obtain w where w: "br_weekday rule = Some w" "0 \<le> w" "w \<le> 6"
      by (auto simp: valid_rule_def valid_weekday_def split: option.splits)
    have anchor: "case given_anchor rule of None \<Rightarrow> True | Some a \<Rightarrow> ymd_parts a \<noteq> None"
      using True Biweekly by (simp add: valid_rule_def)
    let ?ms = "case (case given_anchor rule of None \<Rightarrow> None | Some a \<Rightarrow> ymd_parts a) of
        Some (y, m, d) \<Rightarrow> at_local z y m d 0 0
      | None \<Rightarrow> at_local z (get_full_year z after) (get_month z after) (get_date z after) 0 0"
    have "compute_next_due z rule after = next_biweekly z after w (tod div 60) (tod mod 60) ?ms"
      using anchor Biweekly w
      by (auto simp: compute_next_due_def tod_def [symmetric] hm Let_def valid_weekday_def given_anchor_def [symmetric] split: option.splits)
    then show ?thesis using next_is [OF search(4) [OF w(2,3) anchor_week [OF assms anchor]]] Biweekly w
      by (simp add: is_occurrence_def rule_day_def tod_def [symmetric] biweekly_day_def eq_commute [of w])
  next
    case Monthly
    with True obtain d where d: "br_day_of_month rule = Some d" "1 \<le> d" "d \<le> 31"
      by (auto simp: valid_rule_def split: option.splits)
    then show ?thesis using next_is [OF search(5) [OF d(2,3)]] Monthly
      by (simp add: hm occ month_days eq_commute [of d])
  qed
  with True show ?thesis by simp
next
  case False
  then show ?thesis
    by (auto simp: valid_rule_def compute_next_due_def split_time_of_day Let_def given_anchor_def
        split: broadcast_interval.splits option.splits if_splits)
qed


definition fixed_zone :: "int \<Rightarrow> time_zone" where
  "fixed_zone offset = \<lparr>tz_local = (\<lambda>t. t + offset), tz_utc = (\<lambda>l. l - offset)\<rparr>"

lemma fixed_zone_ok: "\<bar>offset\<bar> \<le> MS_PER_DAY \<Longrightarrow> zone_ok (fixed_zone offset)"
  by (simp add: zone_ok_def fixed_zone_def shown_as_def)

text \<open>
  A zone that is one hour ahead of its standard offset between two instants: the clock goes from
  \<open>spring + offset\<close> to an hour later, and from \<open>autumn + offset + 1 hour\<close> to an hour earlier.
\<close>

definition dst_zone :: "int \<Rightarrow> int \<Rightarrow> int \<Rightarrow> time_zone" where
  "dst_zone offset spring autumn =
     \<lparr>tz_local = (\<lambda>t. if spring \<le> t \<and> t < autumn then t + offset + MS_PER_HOUR else t + offset),
      tz_utc = (\<lambda>l. if spring + offset + MS_PER_HOUR \<le> l \<and> l < autumn + offset + MS_PER_HOUR
                    then l - offset - MS_PER_HOUR else l - offset)\<rparr>"

lemma dst_shown:
  assumes "spring + 2 * MS_PER_HOUR \<le> autumn"
  shows "shown_as (dst_zone offset spring autumn) l =
    (if spring + offset \<le> l \<and> l < spring + offset + MS_PER_HOUR then l + MS_PER_HOUR else l)"
  using assms by (auto simp: shown_as_def dst_zone_def MS_PER_HOUR_def)

lemma dst_zone_ok:
  assumes "\<bar>offset\<bar> \<le> MS_PER_DAY - MS_PER_HOUR" "spring + 2 * MS_PER_HOUR \<le> autumn"
    "(spring + offset) mod MS_PER_DAY \<le> MS_PER_DAY - 2 * MS_PER_HOUR"
  shows "zone_ok (dst_zone offset spring autumn)"
proof -
  have day: "(l + MS_PER_HOUR) div MS_PER_DAY = l div MS_PER_DAY" if "spring + offset \<le> l" "l < spring + offset + MS_PER_HOUR" for l
  proof -
    define q where "q = (spring + offset) div MS_PER_DAY"
    have "spring + offset = q * MS_PER_DAY + (spring + offset) mod MS_PER_DAY" by (simp add: q_def)
    moreover have "0 \<le> (spring + offset) mod MS_PER_DAY" by (simp add: MS_PER_DAY_def)
    ultimately have "l div MS_PER_DAY = q" "(l + MS_PER_HOUR) div MS_PER_DAY = q"
      using that assms(3)
      by (auto intro!: int_div_pos_eq [where r = "l - q * MS_PER_DAY"] int_div_pos_eq [where r = "l + MS_PER_HOUR - q * MS_PER_DAY"]
          simp: MS_PER_DAY_def MS_PER_HOUR_def)
    then show ?thesis by simp
  qed
  show ?thesis
    unfolding zone_ok_def dst_shown [OF assms(2)] using assms(1,2) day
    by (auto simp: dst_zone_def MS_PER_HOUR_def MS_PER_DAY_def)
qed

text \<open>
  Denver in 2024: standard time is seven hours behind, daylight-saving time runs from 10 March 09:00 to
  3 November 08:00 UTC. A daily rule for 02:30, after 9 March 12:00 local time: on 10 March there is no
  02:30, and the rule is due at the instant that is shown as 03:30.
\<close>

definition denver_2024 :: time_zone where
  "denver_2024 = dst_zone (-25200000) 1710061200000 1730620800000"

definition demo_rule :: broadcast_rule where
  "demo_rule = \<lparr>br_interval = Daily, br_time_of_day_min = 150, br_weekday = None, br_day_of_month = None, br_anchor_ymd = None\<rparr>"

lemma denver_2024_ok: "zone_ok denver_2024"
  unfolding denver_2024_def by (rule dst_zone_ok) (simp_all add: MS_PER_DAY_def MS_PER_HOUR_def)

theorem next_due_is_next_occurrence_witness:
  "next_occurrence denver_2024 demo_rule 1710010800000 (compute_next_due denver_2024 demo_rule 1710010800000)
   \<and> compute_next_due denver_2024 demo_rule 1710010800000 = Some 1710063000000"
proof -
  have "valid_rule demo_rule" by (simp add: valid_rule_def demo_rule_def)
  then have "next_occurrence denver_2024 demo_rule 1710010800000 (compute_next_due denver_2024 demo_rule 1710010800000)"
    using next_due_is_next_occurrence [OF denver_2024_ok, of 1710010800000 demo_rule] by simp
  moreover have "compute_next_due denver_2024 demo_rule 1710010800000 = Some 1710063000000" by code_simp
  ultimately show ?thesis ..
qed

subsection \<open>Long absences\<close>

text \<open>
  An hourly rule that was due a thousand hours ago or more is not advanced: the loop gives up after
  1000 occurrences, all of them past.
\<close>

lemma hourly_step:
  assumes "br_interval rule = Hourly" "0 \<le> br_time_of_day_min rule" "br_time_of_day_min rule \<le> 1439" "\<bar>offset\<bar> \<le> MS_PER_DAY"
    "c = hour_time (fixed_zone offset) (br_time_of_day_min rule mod 60) k" "0 \<le> c"
  shows "compute_next_due (fixed_zone offset) rule c = Some (c + MS_PER_HOUR)"
proof -
  let ?z = "fixed_zone offset" and ?m = "br_time_of_day_min rule mod 60"
  have at: "hour_time ?z ?m j = c + (j - k) * MS_PER_HOUR" for j
    by (simp add: hour_time_def fixed_zone_def assms(5) left_diff_distrib)
  have "least_after (\<lambda>_. True) (hour_time ?z ?m) c (next_hourly ?z c ?m)"
    by (rule interval_searches(1) [OF fixed_zone_ok [OF assms(4)] assms(6,2,3)])
  then obtain n where n: "next_hourly ?z c ?m = Some (hour_time ?z ?m n)" "c < hour_time ?z ?m n"
    "\<And>j. c < hour_time ?z ?m j \<Longrightarrow> hour_time ?z ?m n \<le> hour_time ?z ?m j"
    by (auto simp: least_after_def)
  have "k < n" using n(2) by (simp add: at MS_PER_HOUR_def)
  moreover have "n \<le> k + 1" using n(3) [of "k + 1"] by (simp add: at MS_PER_HOUR_def)
  ultimately have "n = k + 1" by simp
  with n(1) assms(1-3) show ?thesis by (simp add: compute_next_due_def split_time_of_day at)
qed

lemma advance_from_gives_up:
  assumes "br_interval rule = Hourly" "0 \<le> br_time_of_day_min rule" "br_time_of_day_min rule \<le> 1439" "\<bar>offset\<bar> \<le> MS_PER_DAY"
    "c = hour_time (fixed_zone offset) (br_time_of_day_min rule mod 60) k" "0 \<le> c" "c + int fuel * MS_PER_HOUR \<le> now"
  shows "advance_from (fixed_zone offset) rule now fuel c = None"
  using assms(5-7)
proof (induction fuel arbitrary: c k)
  case (Suc fuel)
  have le: "c + MS_PER_HOUR + int fuel * MS_PER_HOUR \<le> now" using Suc.prems(3) by (simp add: algebra_simps)
  have "advance_from (fixed_zone offset) rule now fuel (c + MS_PER_HOUR) = None"
    by (rule Suc.IH [of _ "k + 1"]) (use Suc.prems(1,2) le in \<open>simp_all add: hour_time_def fixed_zone_def MS_PER_HOUR_def\<close>)
  moreover have "c + MS_PER_HOUR \<le> now" using le by (simp add: MS_PER_HOUR_def)
  ultimately show ?case using hourly_step [OF assms(1-4) Suc.prems(1,2)] by simp
qed simp

theorem advance_past_due_gives_up:
  assumes "br_interval rule = Hourly" "0 \<le> br_time_of_day_min rule" "br_time_of_day_min rule \<le> 1439" "\<bar>offset\<bar> \<le> MS_PER_DAY"
    "due = hour_time (fixed_zone offset) (br_time_of_day_min rule mod 60) k" "0 \<le> due" "due + 1000 * MS_PER_HOUR \<le> now"
  shows "advance_past_due (fixed_zone offset) rule due now = None"
proof -
  have "due \<le> now" using assms(7) by (simp add: MS_PER_HOUR_def)
  moreover have "due + int MAX_CANDIDATES * MS_PER_HOUR \<le> now" using assms(7) by (simp add: MAX_CANDIDATES_def)
  ultimately show ?thesis using advance_from_gives_up [OF assms(1-6)] by (simp add: advance_past_due_def)
qed

subsection \<open>Results are later\<close>

text \<open>In every time zone, also one without the laws above: what a search returns is after the given instant.\<close>

lemma searches_later:
  "next_hourly_from z after mi fuel y m d h = Some n \<Longrightarrow> after < n"
  "next_daily_from z after hh mm fuel y m d = Some n \<Longrightarrow> after < n"
  "next_weekly_from z after weekday hh mm fuel y m d = Some n \<Longrightarrow> after < n"
  "next_biweekly_from z after weekday hh mm week fuel y m d = Some n \<Longrightarrow> after < n"
  "next_monthly_from z after mday hh mm fuel y m = Some n \<Longrightarrow> after < n"
proof -
  show "next_hourly_from z after mi fuel y m d h = Some n \<Longrightarrow> after < n"
    by (induction z after mi fuel y m d h rule: next_hourly_from.induct) (auto simp: Let_def split: if_splits prod.splits)
  show "next_daily_from z after hh mm fuel y m d = Some n \<Longrightarrow> after < n"
    by (induction z after hh mm fuel y m d rule: next_daily_from.induct) (auto simp: Let_def split: if_splits prod.splits)
  show "next_weekly_from z after weekday hh mm fuel y m d = Some n \<Longrightarrow> after < n"
    by (induction z after weekday hh mm fuel y m d rule: next_weekly_from.induct) (auto simp: Let_def split: if_splits prod.splits)
  show "next_biweekly_from z after weekday hh mm week fuel y m d = Some n \<Longrightarrow> after < n"
    by (induction z after weekday hh mm week fuel y m d rule: next_biweekly_from.induct) (auto simp: Let_def split: if_splits prod.splits)
  show "next_monthly_from z after mday hh mm fuel y m = Some n \<Longrightarrow> after < n"
    by (induction z after mday hh mm fuel y m rule: next_monthly_from.induct) (auto simp: Let_def split: if_splits)
qed

lemma compute_next_due_later: "compute_next_due z rule after = Some n \<Longrightarrow> after < n"
  by (auto simp: compute_next_due_def next_hourly_def next_daily_def next_weekly_def next_biweekly_def next_monthly_def Let_def
      split: option.splits prod.splits broadcast_interval.splits if_splits dest: searches_later)

lemma advance_from_later: "advance_from z rule now fuel cursor = Some n \<Longrightarrow> now < n"
  by (induction z rule now fuel cursor rule: advance_from.induct) (auto split: option.splits if_splits)

lemma advance_past_due_later: "advance_past_due z rule due_at now = Some n \<Longrightarrow> now < n"
  by (auto simp: advance_past_due_def split: if_splits dest: advance_from_later)

end
