(* ===== verification/Broadcast_Store.thy ===== *)
theory Broadcast_Store
  imports Recurrence Ai_Prompt
begin

text \<open>
  The durable slots of scheduled broadcasts: the requests of the renderer that the main process
  answers (\<^verbatim>\<open>src/main/ipc/scheduled-broadcast-handlers.ts\<close>), with the validation of their untyped
  arguments, the merge of a patch into a row and the claim of a due time. An untyped argument is a
  \<open>js_value\<close>; numbers are integers or not finite. A text column that holds JSON is the value it
  parses to, or nothing when it does not parse.
\<close>

subsection \<open>Untyped values\<close>

datatype js_value =
    JUndefined
  | JNull
  | JBool bool
  | JNumber int
  | JNotFinite
  | JString string
  | JArray "js_value list"
  | JObject "(string \<times> js_value) list"

fun js_prop :: "js_value \<Rightarrow> string \<Rightarrow> js_value" where
  "js_prop (JObject ps) name = (case map_of ps name of None \<Rightarrow> JUndefined | Some v \<Rightarrow> v)"
| "js_prop _ name = JUndefined"

text \<open>\<^verbatim>\<open>typeof v === 'object'\<close> for a truthy \<open>v\<close>.\<close>

fun is_js_object :: "js_value \<Rightarrow> bool" where
  "is_js_object (JArray vs) = True"
| "is_js_object (JObject ps) = True"
| "is_js_object _ = False"

fun is_js_string :: "js_value \<Rightarrow> bool" where
  "is_js_string (JString s) = True"
| "is_js_string _ = False"

fun is_js_bool :: "js_value \<Rightarrow> bool" where
  "is_js_bool (JBool b) = True"
| "is_js_bool _ = False"

fun sep_join :: "'a list \<Rightarrow> 'a list list \<Rightarrow> 'a list" where
  "sep_join sep [] = []"
| "sep_join sep [x] = x"
| "sep_join sep (x # y # xs) = x @ sep @ sep_join sep (y # xs)"

definition int_text :: "int \<Rightarrow> string" where
  "int_text i = (if i < 0 then ''-'' else []) @ dec_string (nat \<bar>i\<bar>)"

text \<open>\<^verbatim>\<open>String(v)\<close>: an array is the text of its elements, separated by commas.\<close>

fun js_to_string :: "js_value \<Rightarrow> string" where
  "js_to_string JUndefined = ''undefined''"
| "js_to_string JNull = ''null''"
| "js_to_string (JBool b) = (if b then ''true'' else ''false'')"
| "js_to_string (JNumber i) = int_text i"
| "js_to_string JNotFinite = ''NaN''"
| "js_to_string (JString s) = s"
| "js_to_string (JArray vs) = sep_join '','' (map (\<lambda>v. if v = JUndefined \<or> v = JNull then [] else js_to_string v) vs)"
| "js_to_string (JObject ps) = ''[object Object]''"

text \<open>\<^verbatim>\<open>JSON.stringify(v)\<close>; an undefined property is left out, an undefined element is \<^verbatim>\<open>null\<close>.\<close>

fun json_text :: "js_value \<Rightarrow> utf16" where
  "json_text JUndefined = u16 ''null''"
| "json_text JNull = u16 ''null''"
| "json_text (JBool b) = u16 (if b then ''true'' else ''false'')"
| "json_text (JNumber i) = u16 (int_text i)"
| "json_text JNotFinite = u16 ''null''"
| "json_text (JString s) = json_string (u16 s)"
| "json_text (JArray vs) = [91] @ sep_join [44] (map json_text vs) @ [93]"
| "json_text (JObject ps) =
     [123] @ sep_join [44] (map (\<lambda>(k, t). json_string (u16 k) @ [58] @ t)
        (map (\<lambda>p. (fst p, json_text (snd p))) (filter (\<lambda>p. snd p \<noteq> JUndefined) ps))) @ [125]"

fun sequence_results :: "('e + 'a) list \<Rightarrow> 'e + 'a list" where
  "sequence_results [] = Inr []"
| "sequence_results (Inl e # rs) = Inl e"
| "sequence_results (Inr v # rs) = (case sequence_results rs of Inl e \<Rightarrow> Inl e | Inr vs \<Rightarrow> Inr (v # vs))"

subsection \<open>Rows\<close>

definition SCHEDULED_BROADCAST_SLOT_COUNT :: int where "SCHEDULED_BROADCAST_SLOT_COUNT = 12"
definition SCHEDULED_BROADCAST_MAX_TARGETS :: nat where "SCHEDULED_BROADCAST_MAX_TARGETS = 8"
definition SCHEDULED_BROADCAST_TEXT_MAX :: nat where "SCHEDULED_BROADCAST_TEXT_MAX = 2000"
definition SCHEDULED_BROADCAST_LABEL_MAX :: nat where "SCHEDULED_BROADCAST_LABEL_MAX = 48"
definition TARGETS_JSON_MAX :: nat where "TARGETS_JSON_MAX = 16 * 1024"
definition LAST_RESULT_JSON_MAX :: nat where "LAST_RESULT_JSON_MAX = 8 * 1024"

definition INTERVAL_SET :: "string list" where
  "INTERVAL_SET = [''hourly'', ''daily'', ''weekly'', ''biweekly'', ''monthly'']"

definition KIND_SET :: "string list" where
  "KIND_SET = [''meshtastic-channel'', ''meshcore-channel'', ''meshcore-room'', ''rrc-room'']"

definition OUTCOME_SET :: "string list" where
  "OUTCOME_SET = [''sent'', ''partial'', ''failed'', ''skipped'', ''missed'']"

definition is_hex_key :: "string \<Rightarrow> bool" where
  "is_hex_key s \<longleftrightarrow> 8 \<le> length s \<and> length s \<le> 128 \<and> list_all is_hex_digit s"

definition is_ymd :: "string \<Rightarrow> bool" where
  "is_ymd s \<longleftrightarrow> length s = 10 \<and> list_all is_digit (take 4 s) \<and> s ! 4 = CHR ''-'' \<and> list_all is_digit (take 2 (drop 5 s))
     \<and> s ! 7 = CHR ''-'' \<and> list_all is_digit (drop 8 s)"

record broadcast_row =
  sb_slot :: int
  sb_label :: string
  sb_text :: string
  sb_enabled :: bool
  sb_interval :: string
  sb_time_of_day_min :: int
  sb_weekday :: "int option"
  sb_day_of_month :: "int option"
  sb_anchor_ymd :: "string option"
  sb_next_due_at :: "int option"
  sb_last_attempt_at :: "int option"
  sb_last_result :: "js_value option"
  sb_targets :: "js_value list"
  sb_updated_at :: int

text \<open>The columns of a row; \<^verbatim>\<open>last_result_json\<close> may be NULL, and both texts may fail to parse.\<close>

record db_row =
  db_slot :: int
  db_label :: string
  db_text :: string
  db_enabled :: int
  db_interval :: string
  db_time_of_day_min :: int
  db_weekday :: "int option"
  db_day_of_month :: "int option"
  db_anchor_ymd :: "string option"
  db_next_due_at :: "int option"
  db_last_attempt_at :: "int option"
  db_last_result_json :: "js_value option option"
  db_targets_json :: "js_value option"
  db_updated_at :: int

type_synonym broadcast_db = "int \<Rightarrow> db_row option"

subsection \<open>Reading rows\<close>

definition is_valid_target_stored :: "js_value \<Rightarrow> bool" where
  "is_valid_target_stored t \<longleftrightarrow>
     is_js_object t \<and> js_to_string (js_prop t ''kind'') \<in> set KIND_SET
     \<and> is_js_string (js_prop t ''identityId'') \<and> js_prop t ''identityId'' \<noteq> JString []
     \<and> is_js_string (js_prop t ''label'') \<and> is_js_bool (js_prop t ''enabled'')"

definition is_valid_target_result_stored :: "js_value \<Rightarrow> bool" where
  "is_valid_target_result_stored t \<longleftrightarrow>
     is_js_object t \<and> js_to_string (js_prop t ''kind'') \<in> set KIND_SET
     \<and> is_js_string (js_prop t ''label'') \<and> is_js_bool (js_prop t ''ok'')
     \<and> (js_prop t ''reason'' \<in> {JUndefined, JNull} \<or> is_js_string (js_prop t ''reason''))"

definition parse_targets_json :: "js_value option \<Rightarrow> js_value list" where
  "parse_targets_json raw = (case raw of Some (JArray ts) \<Rightarrow> filter is_valid_target_stored ts | _ \<Rightarrow> [])"

definition parse_last_result :: "js_value option option \<Rightarrow> js_value option" where
  "parse_last_result raw =
     (case raw of
        Some (Some v) \<Rightarrow>
          if \<not> is_js_object v then None
          else
            (case (js_prop v ''at'', js_prop v ''targets'') of
               (JNumber n, JArray ts) \<Rightarrow>
                 if js_to_string (js_prop v ''outcome'') \<in> set OUTCOME_SET \<and> length ts \<le> SCHEDULED_BROADCAST_MAX_TARGETS
                   \<and> list_all is_valid_target_result_stored ts
                 then Some (JObject [(''at'', JNumber n), (''outcome'', js_prop v ''outcome''), (''targets'', JArray ts)])
                 else None
             | _ \<Rightarrow> None)
      | _ \<Rightarrow> None)"

definition row_from_db :: "db_row \<Rightarrow> broadcast_row" where
  "row_from_db r =
     \<lparr>sb_slot = db_slot r, sb_label = db_label r, sb_text = db_text r, sb_enabled = (db_enabled r = 1),
      sb_interval = db_interval r, sb_time_of_day_min = db_time_of_day_min r, sb_weekday = db_weekday r,
      sb_day_of_month = db_day_of_month r, sb_anchor_ymd = db_anchor_ymd r, sb_next_due_at = db_next_due_at r,
      sb_last_attempt_at = db_last_attempt_at r, sb_last_result = parse_last_result (db_last_result_json r),
      sb_targets = parse_targets_json (db_targets_json r), sb_updated_at = db_updated_at r\<rparr>"

definition read_row :: "broadcast_db \<Rightarrow> int \<Rightarrow> broadcast_row option" where
  "read_row db slot = map_option row_from_db (db slot)"

definition list_rows :: "broadcast_db \<Rightarrow> broadcast_row list" where
  "list_rows db = map row_from_db (List.map_filter db [1..SCHEDULED_BROADCAST_SLOT_COUNT])"

subsection \<open>Validation of arguments\<close>

definition assert_slot :: "js_value \<Rightarrow> string + int" where
  "assert_slot v = (case v of
       JNumber n \<Rightarrow> if n < 1 \<or> n > SCHEDULED_BROADCAST_SLOT_COUNT then Inl ''slot'' else Inr n
     | _ \<Rightarrow> Inl ''slot'')"

definition target_field :: "nat \<Rightarrow> string \<Rightarrow> string" where
  "target_field i f = ''targets['' @ dec_string i @ '']'' @ f"

definition channel_fields :: "nat \<Rightarrow> js_value \<Rightarrow> string + (string \<times> js_value) list" where
  "channel_fields i t =
     (case js_prop t ''channelIndex'' of
        JNumber n \<Rightarrow>
          if n < 0 \<or> n > 255 then Inl (target_field i ''.channelIndex'')
          else
            (case js_prop t ''channelKey'' of
               JUndefined \<Rightarrow> Inr [(''channelIndex'', JNumber n)]
             | JNull \<Rightarrow> Inr [(''channelIndex'', JNumber n)]
             | JString s \<Rightarrow>
                 if is_hex_key s then Inr [(''channelIndex'', JNumber n), (''channelKey'', JString (js_lower s))]
                 else Inl (target_field i ''.channelKey'')
             | _ \<Rightarrow> Inl (target_field i ''.channelKey''))
      | _ \<Rightarrow> Inl (target_field i ''.channelIndex''))"

definition room_fields :: "nat \<Rightarrow> js_value \<Rightarrow> string + (string \<times> js_value) list" where
  "room_fields i t =
     (case js_prop t ''roomPubKeyHex'' of
        JString s \<Rightarrow>
          if \<not> is_hex_key s then Inl (target_field i ''.roomPubKeyHex'')
          else
            (case js_prop t ''roomNodeId'' of
               JUndefined \<Rightarrow> Inr [(''roomPubKeyHex'', JString (js_lower s))]
             | JNull \<Rightarrow> Inr [(''roomPubKeyHex'', JString (js_lower s))]
             | JNumber n \<Rightarrow>
                 if n < 0 then Inl (target_field i ''.roomNodeId'')
                 else Inr [(''roomPubKeyHex'', JString (js_lower s)), (''roomNodeId'', JNumber n)]
             | _ \<Rightarrow> Inl (target_field i ''.roomNodeId''))
      | _ \<Rightarrow> Inl (target_field i ''.roomPubKeyHex''))"

definition rrc_fields :: "nat \<Rightarrow> js_value \<Rightarrow> string + (string \<times> js_value) list" where
  "rrc_fields i t =
     (case js_prop t ''hubDestHash'' of
        JString h \<Rightarrow>
          if h = [] \<or> length h > 128 then Inl (target_field i ''.hubDestHash'')
          else
            (case js_prop t ''room'' of
               JString r \<Rightarrow>
                 if r = [] \<or> length r > 256 then Inl (target_field i ''.room'')
                 else Inr [(''hubDestHash'', JString h), (''room'', JString r)]
             | _ \<Rightarrow> Inl (target_field i ''.room''))
      | _ \<Rightarrow> Inl (target_field i ''.hubDestHash''))"

definition kind_fields :: "string \<Rightarrow> nat \<Rightarrow> js_value \<Rightarrow> string + (string \<times> js_value) list" where
  "kind_fields kind i t =
     (if kind = ''meshtastic-channel'' \<or> kind = ''meshcore-channel'' then channel_fields i t
      else if kind = ''meshcore-room'' then room_fields i t
      else if kind = ''rrc-room'' then rrc_fields i t
      else Inr [])"

definition validate_target :: "nat \<Rightarrow> js_value \<Rightarrow> string + js_value" where
  "validate_target i t =
     (if \<not> is_js_object t then Inl (target_field i [])
      else
        (case js_prop t ''kind'' of
           JString kind \<Rightarrow>
             if kind \<notin> set KIND_SET then Inl (target_field i ''.kind'')
             else
               (case js_prop t ''identityId'' of
                  JString identity \<Rightarrow>
                    if identity = [] \<or> length identity > 128 then Inl (target_field i ''.identityId'')
                    else
                      let label = (case js_prop t ''label'' of JString l \<Rightarrow> take 128 l | _ \<Rightarrow> []);
                          base = [(''kind'', JString kind), (''identityId'', JString identity), (''label'', JString label),
                            (''enabled'', JBool (js_prop t ''enabled'' = JBool True))]
                      in (case kind_fields kind i t of
                            Inl e \<Rightarrow> Inl e
                          | Inr extra \<Rightarrow> Inr (JObject (base @ extra)))
                | _ \<Rightarrow> Inl (target_field i ''.identityId''))
         | _ \<Rightarrow> Inl (target_field i ''.kind'')))"

definition validate_targets :: "js_value \<Rightarrow> string + js_value list" where
  "validate_targets raw =
     (case raw of
        JArray ts \<Rightarrow>
          if length ts > SCHEDULED_BROADCAST_MAX_TARGETS then Inl ''targets length''
          else
            (case sequence_results (map (\<lambda>(i, t). validate_target i t) (enumerate 0 ts)) of
               Inl e \<Rightarrow> Inl e
             | Inr targets \<Rightarrow>
                 if length (json_text (JArray targets)) > TARGETS_JSON_MAX then Inl ''targets_json'' else Inr targets)
      | _ \<Rightarrow> Inl ''targets'')"

definition validate_target_result :: "nat \<Rightarrow> js_value \<Rightarrow> string + js_value" where
  "validate_target_result i t =
     (if \<not> is_valid_target_result_stored t then Inl (''lastResult.'' @ target_field i [])
      else Inr (JObject ([(''kind'', js_prop t ''kind''), (''label'', js_prop t ''label''), (''ok'', js_prop t ''ok'')]
        @ (if is_js_string (js_prop t ''reason'') then [(''reason'', js_prop t ''reason'')] else []))))"

definition validate_last_result :: "js_value \<Rightarrow> string + js_value" where
  "validate_last_result raw =
     (if \<not> is_js_object raw then Inl ''lastResult''
      else
        (case js_prop raw ''at'' of
           JNumber n \<Rightarrow>
             (case js_prop raw ''outcome'' of
                JString outcome \<Rightarrow>
                  if outcome \<notin> set OUTCOME_SET then Inl ''lastResult.outcome''
                  else
                    (case js_prop raw ''targets'' of
                       JArray ts \<Rightarrow>
                         if length ts > SCHEDULED_BROADCAST_MAX_TARGETS then Inl ''lastResult.targets length''
                         else
                           (case sequence_results (map (\<lambda>(i, t). validate_target_result i t) (enumerate 0 ts)) of
                              Inl e \<Rightarrow> Inl e
                            | Inr targets \<Rightarrow>
                                let result = JObject [(''at'', JNumber n), (''outcome'', JString outcome), (''targets'', JArray targets)]
                                in if length (json_text result) > LAST_RESULT_JSON_MAX then Inl ''last_result_json'' else Inr result)
                     | _ \<Rightarrow> Inl ''lastResult.targets'')
              | _ \<Rightarrow> Inl ''lastResult.outcome'')
         | _ \<Rightarrow> Inl ''lastResult.at''))"

subsection \<open>Merging a patch\<close>

text \<open>One property of the patch: left alone when it is undefined, an error when it does not validate.\<close>

definition patch :: "js_value \<Rightarrow> string \<Rightarrow> (js_value \<Rightarrow> string + 'a) \<Rightarrow> ('a \<Rightarrow> broadcast_row \<Rightarrow> broadcast_row)
    \<Rightarrow> broadcast_row \<Rightarrow> string + broadcast_row" where
  "patch input name validate store row =
     (case js_prop input name of
        JUndefined \<Rightarrow> Inr row
      | v \<Rightarrow> (case validate v of Inl e \<Rightarrow> Inl e | Inr x \<Rightarrow> Inr (store x row)))"

fun run_patches :: "('r \<Rightarrow> string + 'r) list \<Rightarrow> 'r \<Rightarrow> string + 'r" where
  "run_patches [] row = Inr row"
| "run_patches (f # fs) row = (case f row of Inl e \<Rightarrow> Inl e | Inr row' \<Rightarrow> run_patches fs row')"

definition valid_string :: "string \<Rightarrow> (string \<Rightarrow> bool) \<Rightarrow> js_value \<Rightarrow> string + string" where
  "valid_string name ok v = (case v of JString s \<Rightarrow> if ok s then Inr s else Inl name | _ \<Rightarrow> Inl name)"

definition valid_bool :: "string \<Rightarrow> js_value \<Rightarrow> string + bool" where
  "valid_bool name v = (case v of JBool b \<Rightarrow> Inr b | _ \<Rightarrow> Inl name)"

definition valid_int :: "string \<Rightarrow> (int \<Rightarrow> bool) \<Rightarrow> js_value \<Rightarrow> string + int" where
  "valid_int name ok v = (case v of JNumber n \<Rightarrow> if ok n then Inr n else Inl name | _ \<Rightarrow> Inl name)"

definition nullable :: "(js_value \<Rightarrow> string + 'a) \<Rightarrow> js_value \<Rightarrow> string + 'a option" where
  "nullable validate v =
     (if v = JNull then Inr None else case validate v of Inl e \<Rightarrow> Inl e | Inr x \<Rightarrow> Inr (Some x))"

definition default_row :: "int \<Rightarrow> int \<Rightarrow> broadcast_row" where
  "default_row slot now =
     \<lparr>sb_slot = slot, sb_label = [], sb_text = [], sb_enabled = False, sb_interval = ''weekly'',
      sb_time_of_day_min = 540, sb_weekday = None, sb_day_of_month = None, sb_anchor_ymd = None, sb_next_due_at = None,
      sb_last_attempt_at = None, sb_last_result = None, sb_targets = [], sb_updated_at = now\<rparr>"

definition row_patches :: "js_value \<Rightarrow> (broadcast_row \<Rightarrow> string + broadcast_row) list" where
  "row_patches input =
     [patch input ''label'' (valid_string ''label'' (\<lambda>s. length s \<le> SCHEDULED_BROADCAST_LABEL_MAX)) (\<lambda>x r. r\<lparr>sb_label := x\<rparr>),
      patch input ''text'' (valid_string ''text'' (\<lambda>s. length s \<le> SCHEDULED_BROADCAST_TEXT_MAX)) (\<lambda>x r. r\<lparr>sb_text := x\<rparr>),
      patch input ''enabled'' (valid_bool ''enabled'') (\<lambda>x r. r\<lparr>sb_enabled := x\<rparr>),
      patch input ''interval'' (valid_string ''interval'' (\<lambda>s. s \<in> set INTERVAL_SET)) (\<lambda>x r. r\<lparr>sb_interval := x\<rparr>),
      patch input ''timeOfDayMin'' (valid_int ''timeOfDayMin'' (\<lambda>n. 0 \<le> n \<and> n \<le> 1439)) (\<lambda>x r. r\<lparr>sb_time_of_day_min := x\<rparr>),
      patch input ''weekday'' (nullable (valid_int ''weekday'' (\<lambda>n. 0 \<le> n \<and> n \<le> 6))) (\<lambda>x r. r\<lparr>sb_weekday := x\<rparr>),
      patch input ''dayOfMonth'' (nullable (valid_int ''dayOfMonth'' (\<lambda>n. 1 \<le> n \<and> n \<le> 31))) (\<lambda>x r. r\<lparr>sb_day_of_month := x\<rparr>),
      patch input ''anchorYmd'' (nullable (valid_string ''anchorYmd'' is_ymd)) (\<lambda>x r. r\<lparr>sb_anchor_ymd := x\<rparr>),
      patch input ''nextDueAt'' (nullable (valid_int ''nextDueAt'' (\<lambda>_. True))) (\<lambda>x r. r\<lparr>sb_next_due_at := x\<rparr>),
      patch input ''lastAttemptAt'' (nullable (valid_int ''lastAttemptAt'' (\<lambda>_. True))) (\<lambda>x r. r\<lparr>sb_last_attempt_at := x\<rparr>),
      patch input ''lastResult'' (nullable validate_last_result) (\<lambda>x r. r\<lparr>sb_last_result := x\<rparr>),
      patch input ''targets'' validate_targets (\<lambda>x r. r\<lparr>sb_targets := x\<rparr>)]"

definition merge_input :: "broadcast_row option \<Rightarrow> int \<Rightarrow> js_value \<Rightarrow> int \<Rightarrow> string + broadcast_row" where
  "merge_input existing slot input now =
     run_patches (row_patches input)
       ((case existing of None \<Rightarrow> default_row slot now | Some row \<Rightarrow> row)\<lparr>sb_updated_at := now\<rparr>)"

subsection \<open>The requests\<close>

definition row_to_db :: "broadcast_row \<Rightarrow> db_row" where
  "row_to_db row =
     \<lparr>db_slot = sb_slot row, db_label = sb_label row, db_text = sb_text row, db_enabled = (if sb_enabled row then 1 else 0),
      db_interval = sb_interval row, db_time_of_day_min = sb_time_of_day_min row, db_weekday = sb_weekday row,
      db_day_of_month = sb_day_of_month row, db_anchor_ymd = sb_anchor_ymd row, db_next_due_at = sb_next_due_at row,
      db_last_attempt_at = sb_last_attempt_at row, db_last_result_json = map_option Some (sb_last_result row),
      db_targets_json = Some (JArray (sb_targets row)), db_updated_at = sb_updated_at row\<rparr>"

definition upsert_row :: "broadcast_row \<Rightarrow> broadcast_db \<Rightarrow> broadcast_row \<times> broadcast_db" where
  "upsert_row row db = (row_from_db (row_to_db row), db(sb_slot row \<mapsto> row_to_db row))"

text \<open>A request names its channel; it is answered only for a trusted sender.\<close>

definition save_scheduled_broadcast :: "bool \<Rightarrow> js_value \<Rightarrow> int \<Rightarrow> broadcast_db \<Rightarrow> (string + broadcast_row) \<times> broadcast_db" where
  "save_scheduled_broadcast trusted raw now db =
     (if \<not> trusted then (Inl ''unauthorized sender'', db)
      else if \<not> is_js_object raw then (Inl ''input'', db)
      else
        (case assert_slot (js_prop raw ''slot'') of
           Inl e \<Rightarrow> (Inl e, db)
         | Inr slot \<Rightarrow>
             (case merge_input (read_row db slot) slot raw now of
                Inl e \<Rightarrow> (Inl e, db)
              | Inr row \<Rightarrow> (case upsert_row row db of (stored, db') \<Rightarrow> (Inr stored, db')))))"

definition delete_scheduled_broadcast :: "bool \<Rightarrow> js_value \<Rightarrow> broadcast_db \<Rightarrow> (string + unit) \<times> broadcast_db" where
  "delete_scheduled_broadcast trusted slot_raw db =
     (if \<not> trusted then (Inl ''unauthorized sender'', db)
      else (case assert_slot slot_raw of Inl e \<Rightarrow> (Inl e, db) | Inr slot \<Rightarrow> (Inr (), db(slot := None))))"

definition clear_scheduled_broadcasts :: "bool \<Rightarrow> broadcast_db \<Rightarrow> (string + unit) \<times> broadcast_db" where
  "clear_scheduled_broadcasts trusted db =
     (if \<not> trusted then (Inl ''unauthorized sender'', db) else (Inr (), \<lambda>_. None))"

definition list_scheduled_broadcasts :: "bool \<Rightarrow> broadcast_db \<Rightarrow> string + broadcast_row list" where
  "list_scheduled_broadcasts trusted db = (if \<not> trusted then Inl ''unauthorized sender'' else Inr (list_rows db))"

definition claim_scheduled_broadcast_due ::
    "bool \<Rightarrow> js_value \<Rightarrow> js_value \<Rightarrow> js_value \<Rightarrow> js_value \<Rightarrow> broadcast_db \<Rightarrow> (string + bool) \<times> broadcast_db" where
  "claim_scheduled_broadcast_due trusted slot_raw expected_raw next_raw claimed_raw db =
     (if \<not> trusted then (Inl ''unauthorized sender'', db)
      else
        (case assert_slot slot_raw of
           Inl e \<Rightarrow> (Inl e, db)
         | Inr slot \<Rightarrow>
             (case (expected_raw, next_raw, claimed_raw) of
                (JNumber expected, JNumber next_due, JNumber claimed_at) \<Rightarrow>
                  (case db slot of
                     None \<Rightarrow> (Inr False, db)
                   | Some r \<Rightarrow>
                       if db_next_due_at r = Some expected
                       then (Inr True, db(slot \<mapsto> r\<lparr>db_next_due_at := Some next_due, db_updated_at := claimed_at\<rparr>))
                       else (Inr False, db))
              | _ \<Rightarrow> (Inl ''claim times'', db))))"

definition set_scheduled_broadcast_result ::
    "bool \<Rightarrow> js_value \<Rightarrow> js_value \<Rightarrow> js_value \<Rightarrow> int \<Rightarrow> broadcast_db \<Rightarrow> (string + unit) \<times> broadcast_db" where
  "set_scheduled_broadcast_result trusted slot_raw attempt_raw result_raw now db =
     (if \<not> trusted then (Inl ''unauthorized sender'', db)
      else
        (case assert_slot slot_raw of
           Inl e \<Rightarrow> (Inl e, db)
         | Inr slot \<Rightarrow>
             (case attempt_raw of
                JNumber attempt_at \<Rightarrow>
                  (case validate_last_result result_raw of
                     Inl e \<Rightarrow> (Inl e, db)
                   | Inr result \<Rightarrow>
                       (Inr (), db(slot := map_option (\<lambda>r. r\<lparr>db_last_attempt_at := Some attempt_at,
                          db_last_result_json := Some (Some result), db_updated_at := now\<rparr>) (db slot))))
              | _ \<Rightarrow> (Inl ''lastAttemptAt'', db))))"

datatype db_request =
    ReqSave bool js_value int
  | ReqDelete bool js_value
  | ReqClear bool
  | ReqClaim bool js_value js_value js_value js_value
  | ReqSetResult bool js_value js_value js_value int

fun db_step :: "db_request \<Rightarrow> broadcast_db \<Rightarrow> broadcast_db" where
  "db_step (ReqSave trusted raw now) db = snd (save_scheduled_broadcast trusted raw now db)"
| "db_step (ReqDelete trusted slot) db = snd (delete_scheduled_broadcast trusted slot db)"
| "db_step (ReqClear trusted) db = snd (clear_scheduled_broadcasts trusted db)"
| "db_step (ReqClaim trusted slot expected next_due at_raw) db = snd (claim_scheduled_broadcast_due trusted slot expected next_due at_raw db)"
| "db_step (ReqSetResult trusted slot attempt_at result now) db =
     snd (set_scheduled_broadcast_result trusted slot attempt_at result now db)"

definition db_init :: broadcast_db where
  "db_init = (\<lambda>_. None)"

subsection \<open>Well-formed rows\<close>

definition wf_target_fields :: "string \<Rightarrow> (string \<times> js_value) list \<Rightarrow> bool" where
  "wf_target_fields kind extra \<longleftrightarrow>
     (if kind = ''meshtastic-channel'' \<or> kind = ''meshcore-channel'' then
        (\<exists>n. 0 \<le> n \<and> n \<le> 255 \<and> (extra = [(''channelIndex'', JNumber n)]
           \<or> (\<exists>k. is_hex_key k \<and> js_lower k = k \<and> extra = [(''channelIndex'', JNumber n), (''channelKey'', JString k)])))
      else if kind = ''meshcore-room'' then
        (\<exists>k. is_hex_key k \<and> js_lower k = k \<and> (extra = [(''roomPubKeyHex'', JString k)]
           \<or> (\<exists>n \<ge> 0. extra = [(''roomPubKeyHex'', JString k), (''roomNodeId'', JNumber n)])))
      else
        (\<exists>h r. h \<noteq> [] \<and> length h \<le> 128 \<and> r \<noteq> [] \<and> length r \<le> 256
           \<and> extra = [(''hubDestHash'', JString h), (''room'', JString r)]))"

definition wf_target :: "js_value \<Rightarrow> bool" where
  "wf_target t \<longleftrightarrow>
     (\<exists>kind identity label enabled extra.
        t = JObject ([(''kind'', JString kind), (''identityId'', JString identity), (''label'', JString label),
          (''enabled'', JBool enabled)] @ extra)
        \<and> kind \<in> set KIND_SET \<and> identity \<noteq> [] \<and> length identity \<le> 128 \<and> length label \<le> 128
        \<and> wf_target_fields kind extra)"

definition wf_last_result :: "js_value \<Rightarrow> bool" where
  "wf_last_result v \<longleftrightarrow>
     (\<exists>n outcome ts. v = JObject [(''at'', JNumber n), (''outcome'', JString outcome), (''targets'', JArray ts)]
        \<and> outcome \<in> set OUTCOME_SET \<and> length ts \<le> SCHEDULED_BROADCAST_MAX_TARGETS
        \<and> list_all is_valid_target_result_stored ts \<and> length (json_text v) \<le> LAST_RESULT_JSON_MAX)"

definition wf_row :: "broadcast_row \<Rightarrow> bool" where
  "wf_row r \<longleftrightarrow>
     1 \<le> sb_slot r \<and> sb_slot r \<le> SCHEDULED_BROADCAST_SLOT_COUNT
     \<and> length (sb_label r) \<le> SCHEDULED_BROADCAST_LABEL_MAX \<and> length (sb_text r) \<le> SCHEDULED_BROADCAST_TEXT_MAX
     \<and> sb_interval r \<in> set INTERVAL_SET
     \<and> 0 \<le> sb_time_of_day_min r \<and> sb_time_of_day_min r \<le> 1439
     \<and> (\<forall>n. sb_weekday r = Some n \<longrightarrow> 0 \<le> n \<and> n \<le> 6)
     \<and> (\<forall>n. sb_day_of_month r = Some n \<longrightarrow> 1 \<le> n \<and> n \<le> 31)
     \<and> (\<forall>s. sb_anchor_ymd r = Some s \<longrightarrow> is_ymd s)
     \<and> (\<forall>v. sb_last_result r = Some v \<longrightarrow> wf_last_result v)
     \<and> length (sb_targets r) \<le> SCHEDULED_BROADCAST_MAX_TARGETS \<and> list_all wf_target (sb_targets r)
     \<and> length (json_text (JArray (sb_targets r))) \<le> TARGETS_JSON_MAX"

lemma sequence_results_Inr: "sequence_results rs = Inr vs \<Longrightarrow> map Inr vs = rs"
  by (induction rs arbitrary: vs rule: sequence_results.induct) (auto split: sum.splits)

lemma sequence_enumerate:
  assumes "sequence_results (map (\<lambda>(i, t). f i t) (enumerate 0 ts)) = Inr vs" "\<And>i t v. f i t = Inr v \<Longrightarrow> P v"
  shows "length vs = length ts \<and> list_all P vs"
proof -
  have m: "map Inr vs = map (\<lambda>(i, t). f i t) (enumerate 0 ts)" using sequence_results_Inr [OF assms(1)] .
  have "P v" if "v \<in> set vs" for v
  proof -
    have "Inr v \<in> set (map (\<lambda>(i, t). f i t) (enumerate 0 ts))" unfolding m [symmetric] using that by simp
    then show ?thesis using assms(2) by (fastforce simp: image_iff)
  qed
  then show ?thesis using arg_cong [OF m, of length] by (simp add: list_all_iff)
qed

lemma hex_lower: "is_hex_digit c \<Longrightarrow> is_hex_digit (lower_char c) \<and> lower_char (lower_char c) = lower_char c"
  by (auto simp: is_hex_digit_def lower_char_def is_digit_def Let_def)

lemma hex_key_lower: "is_hex_key s \<Longrightarrow> is_hex_key (js_lower s) \<and> js_lower (js_lower s) = js_lower s"
  using hex_lower by (auto simp: is_hex_key_def js_lower_def list_all_iff)

lemma channel_fields_wf: "channel_fields i t = Inr extra \<Longrightarrow> kind = ''meshtastic-channel'' \<or> kind = ''meshcore-channel'' \<Longrightarrow> wf_target_fields kind extra"
  using hex_key_lower by (fastforce simp: channel_fields_def wf_target_fields_def split: js_value.splits if_splits)

lemma room_fields_wf: "room_fields i t = Inr extra \<Longrightarrow> wf_target_fields ''meshcore-room'' extra"
  using hex_key_lower by (fastforce simp: room_fields_def wf_target_fields_def split: js_value.splits if_splits)

lemma rrc_fields_wf: "rrc_fields i t = Inr extra \<Longrightarrow> wf_target_fields ''rrc-room'' extra"
  by (fastforce simp: rrc_fields_def wf_target_fields_def split: js_value.splits if_splits)

lemma kind_fields_wf: "kind_fields kind i t = Inr extra \<Longrightarrow> kind \<in> set KIND_SET \<Longrightarrow> wf_target_fields kind extra"
  unfolding kind_fields_def KIND_SET_def by (auto split: if_splits intro: channel_fields_wf room_fields_wf rrc_fields_wf)

lemma validate_target_wf:
  assumes "validate_target i t = Inr v"
  shows "wf_target v"
proof -
  obtain kind identity extra where k: "kind \<in> set KIND_SET" "identity \<noteq> []" "length identity \<le> 128" "kind_fields kind i t = Inr extra"
    and v: "v = JObject ([(''kind'', JString kind), (''identityId'', JString identity),
        (''label'', JString (case js_prop t ''label'' of JString l \<Rightarrow> take 128 l | _ \<Rightarrow> [])),
        (''enabled'', JBool (js_prop t ''enabled'' = JBool True))] @ extra)"
    using assms by (auto simp: validate_target_def Let_def split: if_splits js_value.splits sum.splits)
  have "length (case js_prop t ''label'' of JString l \<Rightarrow> take 128 l | _ \<Rightarrow> []) \<le> 128" by (simp split: js_value.splits)
  with k v kind_fields_wf [OF k(4,1)] show ?thesis unfolding wf_target_def by blast
qed

lemma validate_targets_wf:
  "validate_targets raw = Inr ts \<Longrightarrow> length ts \<le> SCHEDULED_BROADCAST_MAX_TARGETS \<and> list_all wf_target ts
     \<and> length (json_text (JArray ts)) \<le> TARGETS_JSON_MAX"
  using sequence_enumerate [where f = validate_target and P = wf_target] validate_target_wf
  by (fastforce simp: validate_targets_def simp del: json_text.simps split: js_value.splits if_splits sum.splits)

lemma validate_target_result_stored: "validate_target_result i t = Inr v \<Longrightarrow> is_valid_target_result_stored v"
  by (auto simp: validate_target_result_def is_valid_target_result_stored_def split: if_splits)

lemma validate_last_result_wf: "validate_last_result raw = Inr v \<Longrightarrow> wf_last_result v"
  using sequence_enumerate [where f = validate_target_result and P = is_valid_target_result_stored] validate_target_result_stored
  by (fastforce simp: validate_last_result_def wf_last_result_def Let_def simp del: json_text.simps
      split: js_value.splits if_splits sum.splits)

lemma wf_target_stored: "wf_target t \<Longrightarrow> is_valid_target_stored t"
  by (auto simp: wf_target_def is_valid_target_stored_def)

lemma parse_wf_last_result: "wf_last_result v \<Longrightarrow> parse_last_result (Some (Some v)) = Some v"
  by (auto simp: wf_last_result_def parse_last_result_def simp del: json_text.simps)

lemma read_back: "wf_row row \<Longrightarrow> row_from_db (row_to_db row) = row"
  using wf_target_stored parse_wf_last_result
  by (cases row; cases "sb_last_result row")
    (auto simp: wf_row_def row_from_db_def row_to_db_def parse_targets_json_def list_all_iff parse_last_result_def [of None]
      simp del: json_text.simps intro!: filter_True)

lemma patch_wf:
  assumes "patch input name validate store row = Inr row'" "wf_row row" "\<And>v x. validate v = Inr x \<Longrightarrow> wf_row (store x row)"
  shows "wf_row row'"
  using assms by (auto simp: patch_def split: js_value.splits sum.splits)

lemma run_patches_inv:
  assumes "run_patches fs row = Inr row'" "P row" "\<And>f r r'. f \<in> set fs \<Longrightarrow> P r \<Longrightarrow> f r = Inr r' \<Longrightarrow> P r'"
  shows "P row'"
  using assms
proof (induction fs arbitrary: row)
  case (Cons f fs)
  then obtain r where "f row = Inr r" "run_patches fs r = Inr row'" by (auto split: sum.splits)
  then show ?case using Cons.IH [of r] Cons.prems(2,3) by auto
qed simp

lemma valid_string_Inr: "valid_string name ok v = Inr s \<Longrightarrow> ok s"
  by (auto simp: valid_string_def split: js_value.splits if_splits)

lemma valid_int_Inr: "valid_int name ok v = Inr n \<Longrightarrow> ok n"
  by (auto simp: valid_int_def split: js_value.splits if_splits)

lemma nullable_Inr: "nullable validate v = Inr x \<Longrightarrow> x = Some y \<Longrightarrow> validate v = Inr y"
  by (auto simp: nullable_def split: sum.splits if_splits)

lemma row_patches_keep: "f \<in> set (row_patches input) \<Longrightarrow> f r = Inr r' \<Longrightarrow> sb_slot r' = sb_slot r"
  by (auto simp: row_patches_def patch_def split: js_value.splits sum.splits)

lemmas validated = valid_string_Inr valid_int_Inr nullable_Inr validate_targets_wf validate_last_result_wf

lemma row_patches_wf: "list_all (\<lambda>f. \<forall>r r'. wf_row r \<longrightarrow> f r = Inr r' \<longrightarrow> wf_row r') (row_patches input)"
  unfolding row_patches_def list.pred_inject
  apply (intro conjI allI impI)
  apply ((erule patch_wf, assumption, auto simp: wf_row_def simp del: json_text.simps dest: validated)[1])+
  apply simp
  done

lemma merge_input_wf:
  assumes "merge_input existing slot input now = Inr row" "1 \<le> slot" "slot \<le> SCHEDULED_BROADCAST_SLOT_COUNT"
    "\<And>r. existing = Some r \<Longrightarrow> wf_row r \<and> sb_slot r = slot"
  shows "wf_row row \<and> sb_slot row = slot"
proof -
  let ?base = "(case existing of None \<Rightarrow> default_row slot now | Some row \<Rightarrow> row)\<lparr>sb_updated_at := now\<rparr>"
  have base: "wf_row ?base \<and> sb_slot ?base = slot"
    using assms(2-4) by (cases existing)
      (auto simp: default_row_def wf_row_def INTERVAL_SET_def SCHEDULED_BROADCAST_MAX_TARGETS_def TARGETS_JSON_MAX_def)
  show ?thesis
    by (rule run_patches_inv [where P = "\<lambda>r. wf_row r \<and> sb_slot r = slot", OF assms(1) [unfolded merge_input_def] base])
      (use row_patches_wf row_patches_keep in \<open>fastforce simp: list_all_iff\<close>)
qed

subsection \<open>The table\<close>

definition db_ok :: "broadcast_db \<Rightarrow> bool" where
  "db_ok db \<longleftrightarrow> (\<forall>slot r. db slot = Some r \<longrightarrow> (\<exists>row. r = row_to_db row \<and> wf_row row \<and> sb_slot row = slot))"

lemma db_okD: "db_ok db \<Longrightarrow> read_row db slot = Some row \<Longrightarrow> wf_row row \<and> sb_slot row = slot \<and> db slot = Some (row_to_db row)"
  by (fastforce simp: db_ok_def read_row_def read_back)

lemma db_ok_upd: "db_ok db \<Longrightarrow> wf_row row \<Longrightarrow> sb_slot row = slot \<Longrightarrow> db_ok (db(slot \<mapsto> row_to_db row))"
  by (auto simp: db_ok_def)

lemma save_ok: "db_ok db \<Longrightarrow> db_ok (snd (save_scheduled_broadcast trusted raw now db))"
  by (auto simp: save_scheduled_broadcast_def assert_slot_def upsert_row_def
      split: sum.splits js_value.splits if_splits dest!: merge_input_wf intro!: db_ok_upd dest: db_okD)

lemma claim_ok:
  assumes "db_ok db"
  shows "db_ok (snd (claim_scheduled_broadcast_due trusted slot_raw expected next_due at_raw db))"
proof -
  have "db_ok (db(slot \<mapsto> r\<lparr>db_next_due_at := Some n, db_updated_at := t\<rparr>))" if r: "db slot = Some r" for slot r n t
  proof -
    obtain row where "r = row_to_db row" "wf_row row" "sb_slot row = slot" using assms r by (auto simp: db_ok_def)
    then have "r\<lparr>db_next_due_at := Some n, db_updated_at := t\<rparr> = row_to_db (row\<lparr>sb_next_due_at := Some n, sb_updated_at := t\<rparr>)"
      "wf_row (row\<lparr>sb_next_due_at := Some n, sb_updated_at := t\<rparr>)" "sb_slot (row\<lparr>sb_next_due_at := Some n, sb_updated_at := t\<rparr>) = slot"
      by (simp_all add: row_to_db_def wf_row_def)
    then show ?thesis using db_ok_upd [OF assms] by metis
  qed
  then show ?thesis using assms
    by (auto simp: claim_scheduled_broadcast_due_def split: sum.splits js_value.splits option.splits)
qed

lemma set_result_ok:
  assumes "db_ok db"
  shows "db_ok (snd (set_scheduled_broadcast_result trusted slot_raw attempt_raw result_raw now db))"
proof -
  have "db_ok (db(slot := map_option (\<lambda>r. r\<lparr>db_last_attempt_at := Some t, db_last_result_json := Some (Some v), db_updated_at := now\<rparr>) (db slot)))"
    if v: "wf_last_result v" for slot t v
  proof (cases "db slot")
    case (Some r)
    obtain row where "r = row_to_db row" "wf_row row" "sb_slot row = slot" using assms Some by (auto simp: db_ok_def)
    then have "r\<lparr>db_last_attempt_at := Some t, db_last_result_json := Some (Some v), db_updated_at := now\<rparr>
        = row_to_db (row\<lparr>sb_last_attempt_at := Some t, sb_last_result := Some v, sb_updated_at := now\<rparr>)"
      "wf_row (row\<lparr>sb_last_attempt_at := Some t, sb_last_result := Some v, sb_updated_at := now\<rparr>)"
      "sb_slot (row\<lparr>sb_last_attempt_at := Some t, sb_last_result := Some v, sb_updated_at := now\<rparr>) = slot"
      using v by (simp_all add: row_to_db_def wf_row_def)
    then show ?thesis using db_ok_upd [OF assms] Some by (metis option.map(2))
  qed (use assms in \<open>simp add: db_ok_def\<close>)
  then show ?thesis using assms validate_last_result_wf
    by (auto simp: set_scheduled_broadcast_result_def split: sum.splits js_value.splits)
qed

lemma db_step_ok: "db_ok db \<Longrightarrow> db_ok (db_step e db)"
proof (cases e)
  case (ReqDelete trusted slot)
  assume "db_ok db"
  then show ?thesis using ReqDelete by (auto simp: delete_scheduled_broadcast_def db_ok_def split: sum.splits)
next
  case (ReqClear trusted)
  assume "db_ok db"
  then show ?thesis using ReqClear by (auto simp: clear_scheduled_broadcasts_def db_ok_def)
qed (simp_all add: save_ok claim_ok set_result_ok)

interpretation bdb: invariant_steps db_step db_ok db_init
  by unfold_locales (rule db_step_ok | simp add: db_ok_def db_init_def)+

lemma list_rows_slots: "db_ok db \<Longrightarrow> map sb_slot (list_rows db) = filter (\<lambda>slot. db slot \<noteq> None) [1..SCHEDULED_BROADCAST_SLOT_COUNT]"
proof -
  assume ok: "db_ok db"
  have "sb_slot (row_from_db r) = slot" if "db slot = Some r" for slot r
    using ok that by (fastforce simp: db_ok_def read_back)
  then have "map sb_slot (map row_from_db (List.map_filter db xs)) = filter (\<lambda>slot. db slot \<noteq> None) xs" for xs
    by (induction xs) (auto simp: List.map_filter_simps split: option.splits)
  then show ?thesis by (simp add: list_rows_def)
qed

lemma list_rows_row:
  assumes "db_ok db" "row \<in> set (list_rows db)"
  shows "wf_row row \<and> db (sb_slot row) = Some (row_to_db row)"
proof -
  obtain slot r where "db slot = Some r" "row = row_from_db r" using assms(2) by (auto simp: list_rows_def map_filter_def)
  then have "read_row db slot = Some row" by (simp add: read_row_def)
  from db_okD [OF assms(1) this] show ?thesis by simp
qed

text \<open>
  C18. The table of broadcast slots is well typed, whatever a renderer sends. After any sequence of
  requests, with arguments of any shape, the rows a renderer reads are one per stored slot in
  ascending order; every row has a slot, lengths, an interval, a time and a calendar day within their
  bounds, and at most eight targets with exactly the fields of their kind; and a row is read back as
  it was stored.
\<close>

theorem stored_rows_well_formed:
  fixes es :: "db_request list"
  defines "db \<equiv> fold db_step es db_init"
  shows "sorted_wrt (<) (map sb_slot (list_rows db))
    \<and> list_all (\<lambda>row. wf_row row \<and> db (sb_slot row) = Some (row_to_db row)) (list_rows db)"
proof -
  have ok: "db_ok db" using bdb.run_inv [of es] by (simp add: db_def bdb.run_def)
  have "sorted_wrt (<) [1..SCHEDULED_BROADCAST_SLOT_COUNT]" by (simp add: SCHEDULED_BROADCAST_SLOT_COUNT_def upto.simps)
  then have "sorted_wrt (<) (map sb_slot (list_rows db))" unfolding list_rows_slots [OF ok] by (rule sorted_wrt_filter)
  then show ?thesis using list_rows_row [OF ok] by (simp add: list_all_iff)
qed

text \<open>
  The kind of a target in a reported result is only compared through \<^verbatim>\<open>String(kind)\<close> and then kept as it
  came, so a list with one kind in it is stored where the type promises a string.
\<close>

lemma result_kind_unchecked:
  "validate_target_result 0 (JObject [(''kind'', JArray [JString ''rrc-room'']), (''label'', JString []), (''ok'', JBool True)])
     = Inr (JObject [(''kind'', JArray [JString ''rrc-room'']), (''label'', JString []), (''ok'', JBool True)])"
  by (simp add: validate_target_result_def is_valid_target_result_stored_def KIND_SET_def)

end
