(* ===== verification/Broadcast_Scheduler.thy ===== *)
theory Broadcast_Scheduler
  imports Broadcast_Store
begin

text \<open>
  The scheduler of broadcasts (\<^verbatim>\<open>src/renderer/lib/scheduledBroadcasts/scheduler.ts\<close>) over the store of
  the renderer (\<^verbatim>\<open>src/renderer/stores/scheduledBroadcastsStore.ts\<close>), the table of \<open>Broadcast_Store\<close> and the
  rules of \<open>Recurrence\<close>. An asynchronous function runs until it waits; what waits is a thread with the
  rest of its work, and a reply is an event that lets it run on. A request to the main process takes
  effect when its reply arrives. The log records, newest first, what was written and what was
  delivered; the code has no such log.
\<close>

definition MAX_TIMER_DELAY_MS :: int where "MAX_TIMER_DELAY_MS = 2147483647"

datatype normalize_mode = SkipMissed | FillNull

text \<open>What follows when a pass over the slots ends, and when a delivery is recorded.\<close>

datatype after_normalize = AfterStart | AfterRefresh | AfterFinish | AfterResume
datatype after_record = AfterTick "(int \<times> int) list" nat | AfterSendNow

record deliver_result =
  dr_outcome :: string
  dr_targets :: "js_value list"

datatype sched_thread =
    NormSave broadcast_row "broadcast_row list" int int normalize_mode after_normalize
  | NormClaim broadcast_row "broadcast_row list" int int normalize_mode after_normalize
  | NormResult broadcast_row "broadcast_row list" int int normalize_mode after_normalize
  | FireClaim broadcast_row int int "(int \<times> int) list" nat
  | Delivering broadcast_row "int option" after_record
  | Recording broadcast_row "int option" deliver_result int after_record

datatype sched_log =
    LogSaved int
  | LogDue int int int int
  | LogMissed int int int int
  | LogSendNow int

record scheduler =
  sc_started :: bool
  sc_timer :: "int option"
  sc_interval :: bool
  sc_running :: bool
  sc_tick_pending :: bool
  sc_reconcile_pending :: bool
  sc_resume_epoch :: nat
  sc_last_enabled :: bool
  sc_threads :: "(nat \<times> sched_thread) list"
  sc_next_thread :: nat
  sc_enabled :: bool
  sc_clock :: int
  sc_slots :: "int \<Rightarrow> broadcast_row option"
  sc_db :: broadcast_db
  sc_log :: "sched_log list"

definition sched_init :: scheduler where
  "sched_init =
     \<lparr>sc_started = False, sc_timer = None, sc_interval = False, sc_running = False, sc_tick_pending = False,
      sc_reconcile_pending = False, sc_resume_epoch = 0, sc_last_enabled = False, sc_threads = [], sc_next_thread = 0,
      sc_enabled = False, sc_clock = 0, sc_slots = (\<lambda>_. None), sc_db = db_init, sc_log = []\<rparr>"

definition spawn :: "sched_thread \<Rightarrow> scheduler \<Rightarrow> scheduler" where
  "spawn t s = s\<lparr>sc_threads := sc_threads s @ [(sc_next_thread s, t)], sc_next_thread := Suc (sc_next_thread s)\<rparr>"

definition note_log :: "sched_log \<Rightarrow> scheduler \<Rightarrow> scheduler" where
  "note_log e s = s\<lparr>sc_log := e # sc_log s\<rparr>"

subsection \<open>Slots and rules\<close>

definition get_slots :: "scheduler \<Rightarrow> broadcast_row list" where
  "get_slots s = List.map_filter (sc_slots s) [1..SCHEDULED_BROADCAST_SLOT_COUNT]"

definition enabled_slots :: "scheduler \<Rightarrow> broadcast_row list" where
  "enabled_slots s = filter sb_enabled (get_slots s)"

definition interval_of :: "string \<Rightarrow> broadcast_interval option" where
  "interval_of i =
     (if i = ''hourly'' then Some Hourly else if i = ''daily'' then Some Daily else if i = ''weekly'' then Some Weekly
      else if i = ''biweekly'' then Some Biweekly else if i = ''monthly'' then Some Monthly else None)"

definition rule_of :: "broadcast_row \<Rightarrow> broadcast_interval \<Rightarrow> broadcast_rule" where
  "rule_of row i =
     \<lparr>br_interval = i, br_time_of_day_min = sb_time_of_day_min row, br_weekday = sb_weekday row,
      br_day_of_month = sb_day_of_month row, br_anchor_ymd = sb_anchor_ymd row\<rparr>"

definition next_due :: "time_zone \<Rightarrow> broadcast_row \<Rightarrow> int \<Rightarrow> int option" where
  "next_due z row after =
     (case interval_of (sb_interval row) of None \<Rightarrow> None | Some i \<Rightarrow> compute_next_due z (rule_of row i) after)"

definition advance_due :: "time_zone \<Rightarrow> broadcast_row \<Rightarrow> int \<Rightarrow> int \<Rightarrow> int option" where
  "advance_due z row due now =
     (if due > now then Some due
      else (case interval_of (sb_interval row) of None \<Rightarrow> None | Some i \<Rightarrow> advance_past_due z (rule_of row i) due now))"

text \<open>The store: a slot is patched only while it has a row.\<close>

definition apply_runtime_state :: "int \<Rightarrow> int option \<Rightarrow> js_value option \<Rightarrow> int option \<Rightarrow> scheduler \<Rightarrow> scheduler" where
  "apply_runtime_state slot next_at last_result last_attempt s =
     (case sc_slots s slot of
        None \<Rightarrow> s
      | Some prev \<Rightarrow> s\<lparr>sc_slots := (sc_slots s)(slot \<mapsto>
          prev\<lparr>sb_next_due_at := next_at, sb_last_result := last_result, sb_last_attempt_at := last_attempt\<rparr>)\<rparr>)"

definition result_value :: "int \<Rightarrow> string \<Rightarrow> js_value list \<Rightarrow> js_value" where
  "result_value at_ms outcome targets =
     JObject [(''at'', JNumber at_ms), (''outcome'', JString outcome), (''targets'', JArray targets)]"

subsection \<open>Timers\<close>

definition clear_timers :: "scheduler \<Rightarrow> scheduler" where
  "clear_timers s = s\<lparr>sc_timer := None, sc_interval := False\<rparr>"

fun earliest_due :: "broadcast_row list \<Rightarrow> int option \<Rightarrow> int option" where
  "earliest_due [] earliest = earliest"
| "earliest_due (r # rs) earliest =
     (case sb_next_due_at r of
        None \<Rightarrow> earliest_due rs earliest
      | Some d \<Rightarrow> earliest_due rs (case earliest of None \<Rightarrow> Some d | Some e \<Rightarrow> if d < e then Some d else Some e))"

definition arm :: "scheduler \<Rightarrow> scheduler" where
  "arm s =
     (let s = s\<lparr>sc_timer := None\<rparr> in
      if \<not> sc_started s \<or> \<not> sc_enabled s then clear_timers s
      else if sc_running s then s
      else
        let s = s\<lparr>sc_interval := True\<rparr> in
        (case earliest_due (enabled_slots s) None of
           None \<Rightarrow> s
         | Some earliest \<Rightarrow> s\<lparr>sc_timer := Some (sc_clock s + min (max (earliest - sc_clock s) 0) MAX_TIMER_DELAY_MS)\<rparr>))"

subsection \<open>Normalizing the slots\<close>

fun normalize_done :: "after_normalize \<Rightarrow> scheduler \<Rightarrow> scheduler" where
  "normalize_done AfterStart s = arm s"
| "normalize_done AfterRefresh s = arm s"
| "normalize_done AfterFinish s = arm (s\<lparr>sc_running := False\<rparr>)"
| "normalize_done AfterResume s = arm (s\<lparr>sc_running := False\<rparr>)"

fun normalize_from :: "time_zone \<Rightarrow> broadcast_row list \<Rightarrow> int \<Rightarrow> normalize_mode \<Rightarrow> after_normalize \<Rightarrow> scheduler \<Rightarrow> scheduler" where
  "normalize_from z [] now mode k s = normalize_done k s"
| "normalize_from z (row # rest) now mode k s =
     (case sb_next_due_at row of
        None \<Rightarrow>
          (case next_due z row now of
             None \<Rightarrow> normalize_from z rest now mode k s
           | Some next_at \<Rightarrow> spawn (NormSave row rest now next_at mode k) s)
      | Some due \<Rightarrow>
          if mode \<noteq> SkipMissed \<or> due > now then normalize_from z rest now mode k s
          else
            (case advance_due z row due now of
               None \<Rightarrow> normalize_from z rest now mode k s
             | Some next_at \<Rightarrow> spawn (NormClaim row rest now next_at mode k) s))"

definition normalize_slots :: "time_zone \<Rightarrow> normalize_mode \<Rightarrow> after_normalize \<Rightarrow> scheduler \<Rightarrow> scheduler" where
  "normalize_slots z mode k s = normalize_from z (enabled_slots s) (sc_clock s) mode k s"

subsection \<open>Runs\<close>

definition deliver_and_record :: "broadcast_row \<Rightarrow> int option \<Rightarrow> after_record \<Rightarrow> scheduler \<Rightarrow> scheduler" where
  "deliver_and_record row advance k s = spawn (Delivering row advance k) s"

definition is_due :: "(int \<times> int) list \<Rightarrow> int \<Rightarrow> broadcast_row \<Rightarrow> bool" where
  "is_due attempted now r \<longleftrightarrow>
     (case sb_next_due_at r of None \<Rightarrow> False | Some d \<Rightarrow> d \<le> now \<and> (sb_slot r, d) \<notin> set attempted)"

definition due_rows :: "(int \<times> int) list \<Rightarrow> scheduler \<Rightarrow> broadcast_row list" where
  "due_rows attempted s =
     sort_key (\<lambda>r. case sb_next_due_at r of None \<Rightarrow> 0 | Some d \<Rightarrow> d) (sort_key sb_slot
       (filter (is_due attempted (sc_clock s)) (enabled_slots s)))"

lemma due_rows_head:
  assumes "due_rows attempted s = row # rest"
  obtains due where "sb_next_due_at row = Some due" "due \<le> sc_clock s" "(sb_slot row, due) \<notin> set attempted" "row \<in> set (enabled_slots s)"
proof -
  have "row \<in> set (due_rows attempted s)" using assms by simp
  then show ?thesis using that by (auto simp: due_rows_def is_due_def split: option.splits)
qed

lemma length_due_rows: "length (due_rows attempted s) = length (filter (is_due attempted (sc_clock s)) (enabled_slots s))"
  by (simp add: due_rows_def)

lemma due_rows_shrink:
  assumes "due_rows attempted s = row # rest" "sb_next_due_at row = Some due"
  shows "length (due_rows ((sb_slot row, due) # attempted) s) < Suc (length rest)"
proof -
  let ?p = "is_due attempted (sc_clock s)" and ?q = "is_due ((sb_slot row, due) # attempted) (sc_clock s)"
  have "row \<in> set (enabled_slots s)" "?p row" "\<not> ?q row"
    using due_rows_head [OF assms(1)] assms(2) by (auto simp: is_due_def)
  then have "length (filter ?q (filter ?p (enabled_slots s))) < length (filter ?p (enabled_slots s))"
    by (intro length_filter_less [of row]) simp_all
  moreover have "filter ?q (filter ?p (enabled_slots s)) = filter ?q (enabled_slots s)"
    unfolding filter_filter by (rule filter_cong) (auto simp: is_due_def split: option.splits)
  ultimately show ?thesis using assms(1) length_due_rows [of attempted s] by (simp add: length_due_rows)
qed

text \<open>
  \<^verbatim>\<open>tick\<close>, the loop of a run and the end of a run. The end of a run may start the next run at once when
  a tick came in between; then no further tick is pending, so this happens once.
\<close>

function (sequential) tick_loop :: "time_zone \<Rightarrow> (int \<times> int) list \<Rightarrow> nat \<Rightarrow> scheduler \<Rightarrow> scheduler"
  and finish_run :: "time_zone \<Rightarrow> scheduler \<Rightarrow> scheduler"
  and tick :: "time_zone \<Rightarrow> scheduler \<Rightarrow> scheduler" where
  "tick_loop z attempted epoch s =
     (if \<not> sc_enabled s \<or> epoch \<noteq> sc_resume_epoch s then finish_run z s
      else
        (case due_rows attempted s of
           [] \<Rightarrow> finish_run z s
         | row # _ \<Rightarrow>
             (case sb_next_due_at row of
                None \<Rightarrow> finish_run z s
              | Some due \<Rightarrow>
                  (case next_due z row (max (sc_clock s) due) of
                     None \<Rightarrow> tick_loop z ((sb_slot row, due) # attempted) epoch s
                   | Some next_at \<Rightarrow> spawn (FireClaim row next_at (sc_clock s) ((sb_slot row, due) # attempted) epoch) s))))"
| "finish_run z s =
     (let do_reconcile = sc_reconcile_pending s; do_tick = sc_tick_pending s;
          s = s\<lparr>sc_running := False, sc_reconcile_pending := False, sc_tick_pending := False\<rparr>
      in if do_reconcile then normalize_slots z SkipMissed AfterFinish (s\<lparr>sc_running := True\<rparr>)
         else if do_tick then tick z (arm s)
         else arm s)"
| "tick z s =
     (if \<not> sc_started s then s
      else if \<not> sc_enabled s then arm s
      else if sc_running s then s\<lparr>sc_tick_pending := True\<rparr>
      else tick_loop z [] (sc_resume_epoch s) (s\<lparr>sc_running := True\<rparr>))"
  by pat_completeness auto

termination
  by (relation "measures
      [\<lambda>x. case x of Inl (z, a, e, s) \<Rightarrow> if sc_tick_pending s then 1 else 0 | Inr (Inl (z, s)) \<Rightarrow> if sc_tick_pending s then 1 else 0
          | Inr (Inr (z, s)) \<Rightarrow> if sc_tick_pending s then 1 else 0,
       \<lambda>x. case x of Inl _ \<Rightarrow> 1 | Inr (Inl _) \<Rightarrow> 0 | Inr (Inr _) \<Rightarrow> 2,
       \<lambda>x. case x of Inl (z, a, e, s) \<Rightarrow> length (due_rows a s) | Inr _ \<Rightarrow> 0]")
    (auto simp: arm_def clear_timers_def Let_def due_rows_shrink split: option.splits)

declare tick_loop.simps [simp del] finish_run.simps [simp del] tick.simps [simp del]

subsection \<open>Replies\<close>

datatype sched_reply = ReplyOk | ReplyFailed | ReplyDelivered deliver_result

fun reply_fits :: "sched_reply \<Rightarrow> sched_thread \<Rightarrow> bool" where
  "reply_fits ReplyFailed t = True"
| "reply_fits (ReplyDelivered r) (Delivering row advance k) = True"
| "reply_fits (ReplyDelivered r) t = False"
| "reply_fits ReplyOk (Delivering row advance k) = False"
| "reply_fits ReplyOk t = True"

definition claim_reply :: "broadcast_row \<Rightarrow> int \<Rightarrow> int \<Rightarrow> sched_reply \<Rightarrow> scheduler \<Rightarrow> bool \<times> scheduler" where
  "claim_reply row next_at now reply s =
     (case (sb_next_due_at row, reply) of
        (Some due, ReplyOk) \<Rightarrow>
          (case claim_scheduled_broadcast_due True (JNumber (sb_slot row)) (JNumber due) (JNumber next_at) (JNumber now) (sc_db s) of
             (Inr claimed, db) \<Rightarrow> (claimed, s\<lparr>sc_db := db\<rparr>)
           | (Inl e, db) \<Rightarrow> (False, s))
      | _ \<Rightarrow> (False, s))"

definition result_reply :: "broadcast_row \<Rightarrow> int \<Rightarrow> js_value \<Rightarrow> sched_reply \<Rightarrow> scheduler \<Rightarrow> bool \<times> scheduler" where
  "result_reply row attempted_at last_result reply s =
     (if reply = ReplyOk then
        (case set_scheduled_broadcast_result True (JNumber (sb_slot row)) (JNumber attempted_at) last_result (sc_clock s) (sc_db s) of
           (Inr _, db) \<Rightarrow> (True, s\<lparr>sc_db := db\<rparr>)
         | (Inl e, db) \<Rightarrow> (False, s))
      else (False, s))"

definition save_reply :: "js_value \<Rightarrow> scheduler \<Rightarrow> scheduler" where
  "save_reply raw s =
     (case save_scheduled_broadcast True raw (sc_clock s) (sc_db s) of
        (Inr stored, db) \<Rightarrow>
          note_log (LogSaved (sb_slot stored)) (s\<lparr>sc_db := db, sc_slots := (sc_slots s)(sb_slot stored \<mapsto> stored)\<rparr>)
      | (Inl e, db) \<Rightarrow> s)"

fun continue_record :: "time_zone \<Rightarrow> after_record \<Rightarrow> scheduler \<Rightarrow> scheduler" where
  "continue_record z (AfterTick attempted epoch) s = tick_loop z attempted epoch s"
| "continue_record z AfterSendNow s = finish_run z s"

fun resume :: "time_zone \<Rightarrow> sched_reply \<Rightarrow> sched_thread \<Rightarrow> scheduler \<Rightarrow> scheduler" where
  "resume z reply (NormSave row rest now next_at mode k) s =
     normalize_from z rest now mode k
       (if reply = ReplyOk
        then save_reply (JObject [(''slot'', JNumber (sb_slot row)), (''nextDueAt'', JNumber next_at)]) s
        else s)"
| "resume z reply (NormClaim row rest now next_at mode k) s =
     (case claim_reply row next_at now reply s of
        (False, s) \<Rightarrow> normalize_from z rest now mode k s
      | (True, s) \<Rightarrow>
          spawn (NormResult row rest now next_at mode k)
            (note_log (LogMissed (sb_slot row) (the (sb_next_due_at row)) now next_at) s))"
| "resume z reply (NormResult row rest now next_at mode k) s =
     (case result_reply row now (result_value now ''missed'' []) reply s of
        (False, s) \<Rightarrow> normalize_from z rest now mode k s
      | (True, s) \<Rightarrow>
          normalize_from z rest now mode k
            (apply_runtime_state (sb_slot row) (Some next_at) (Some (result_value now ''missed'' [])) (Some now) s))"
| "resume z reply (FireClaim row next_at now attempted epoch) s =
     (case claim_reply row next_at now reply s of
        (False, s) \<Rightarrow> tick_loop z attempted epoch s
      | (True, s) \<Rightarrow>
          deliver_and_record row (Some next_at) (AfterTick attempted epoch)
            (note_log (LogDue (sb_slot row) (the (sb_next_due_at row)) now next_at)
              (apply_runtime_state (sb_slot row) (Some next_at) (sb_last_result row) (sb_last_attempt_at row) s)))"
| "resume z reply (Delivering row advance k) s =
     (let result = (case reply of ReplyDelivered r \<Rightarrow> r | _ \<Rightarrow> \<lparr>dr_outcome = ''failed'', dr_targets = []\<rparr>)
      in spawn (Recording row advance result (sc_clock s) k) s)"
| "resume z reply (Recording row advance result attempted_at k) s =
     (let last_result = result_value attempted_at (dr_outcome result) (dr_targets result);
          s = snd (result_reply row attempted_at last_result reply s)
      in continue_record z k (apply_runtime_state (sb_slot row) advance (Some last_result) (Some attempted_at) s))"

subsection \<open>Operations and events\<close>

definition sched_start :: "time_zone \<Rightarrow> scheduler \<Rightarrow> scheduler" where
  "sched_start z s =
     (let s = s\<lparr>sc_started := True, sc_last_enabled := sc_enabled s\<rparr>
      in if sc_enabled s then normalize_slots z SkipMissed AfterStart s else arm s)"

definition sched_stop :: "scheduler \<Rightarrow> scheduler" where
  "sched_stop s = (clear_timers (s\<lparr>sc_started := False\<rparr>))\<lparr>sc_tick_pending := False, sc_reconcile_pending := False\<rparr>"

definition sched_refresh :: "time_zone \<Rightarrow> scheduler \<Rightarrow> scheduler" where
  "sched_refresh z s =
     (if \<not> sc_started s then s
      else
        let just_enabled = (sc_enabled s \<and> \<not> sc_last_enabled s); s = s\<lparr>sc_last_enabled := sc_enabled s\<rparr> in
        if sc_enabled s \<and> \<not> sc_running s
        then normalize_slots z (if just_enabled then SkipMissed else FillNull) AfterRefresh s
        else arm (if just_enabled \<and> sc_running s then s\<lparr>sc_reconcile_pending := True\<rparr> else s))"

definition sched_power_resume :: "time_zone \<Rightarrow> scheduler \<Rightarrow> scheduler" where
  "sched_power_resume z s =
     (if \<not> sc_started s then s
      else
        let s = s\<lparr>sc_resume_epoch := Suc (sc_resume_epoch s)\<rparr> in
        if sc_running s then s\<lparr>sc_reconcile_pending := True\<rparr>
        else if sc_enabled s then normalize_slots z SkipMissed AfterResume (s\<lparr>sc_running := True\<rparr>)
        else arm s)"

definition sched_send_now :: "int \<Rightarrow> scheduler \<Rightarrow> scheduler" where
  "sched_send_now slot s =
     (case find (\<lambda>r. sb_slot r = slot) (get_slots s) of
        None \<Rightarrow> s
      | Some row \<Rightarrow>
          if sc_running s then s
          else deliver_and_record row (sb_next_due_at row) AfterSendNow (note_log (LogSendNow slot) (s\<lparr>sc_running := True\<rparr>)))"

datatype sched_event =
    EvStart
  | EvStop
  | EvRefresh
  | EvPowerResume
  | EvSendNow int
  | EvTimer
  | EvInterval
  | EvReply nat sched_reply
  | EvClock int
  | EvEnabled bool
  | EvSave js_value
  | EvRemove int
  | EvClearAll

fun sched_step :: "time_zone \<Rightarrow> sched_event \<Rightarrow> scheduler \<Rightarrow> scheduler" where
  "sched_step z EvStart s = sched_start z s"
| "sched_step z EvStop s = sched_stop s"
| "sched_step z EvRefresh s = sched_refresh z s"
| "sched_step z EvPowerResume s = sched_power_resume z s"
| "sched_step z (EvSendNow slot) s = sched_send_now slot s"
| "sched_step z EvTimer s = (if sc_timer s = None then s else tick z (s\<lparr>sc_timer := None\<rparr>))"
| "sched_step z EvInterval s = (if sc_interval s then tick z s else s)"
| "sched_step z (EvReply i reply) s =
     (case map_of (sc_threads s) i of
        None \<Rightarrow> s
      | Some t \<Rightarrow>
          if reply_fits reply t then resume z reply t (s\<lparr>sc_threads := filter (\<lambda>x. fst x \<noteq> i) (sc_threads s)\<rparr>) else s)"
| "sched_step z (EvClock ms) s = s\<lparr>sc_clock := ms\<rparr>"
| "sched_step z (EvEnabled b) s = s\<lparr>sc_enabled := b\<rparr>"
| "sched_step z (EvSave raw) s = save_reply raw s"
| "sched_step z (EvRemove slot) s =
     (case delete_scheduled_broadcast True (JNumber slot) (sc_db s) of
        (Inr _, db) \<Rightarrow> s\<lparr>sc_db := db, sc_slots := (sc_slots s)(slot := None)\<rparr>
      | (Inl e, db) \<Rightarrow> s)"
| "sched_step z EvClearAll s = s\<lparr>sc_db := snd (clear_scheduled_broadcasts True (sc_db s)), sc_slots := (\<lambda>_. None)\<rparr>"

definition sched_run :: "time_zone \<Rightarrow> sched_event list \<Rightarrow> scheduler" where
  "sched_run z es = fold (sched_step z) es sched_init"

subsection \<open>One run at a time\<close>

fun holds_run :: "sched_thread \<Rightarrow> bool" where
  "holds_run (NormSave row rest now next_at mode k) = (k \<in> {AfterFinish, AfterResume})"
| "holds_run (NormClaim row rest now next_at mode k) = (k \<in> {AfterFinish, AfterResume})"
| "holds_run (NormResult row rest now next_at mode k) = (k \<in> {AfterFinish, AfterResume})"
| "holds_run (FireClaim row next_at now attempted epoch) = True"
| "holds_run (Delivering row advance k) = True"
| "holds_run (Recording row advance result attempted_at k) = True"

definition holders :: "scheduler \<Rightarrow> nat" where
  "holders s = length (filter (\<lambda>x. holds_run (snd x)) (sc_threads s))"

definition ids_ok :: "scheduler \<Rightarrow> bool" where
  "ids_ok s \<longleftrightarrow> distinct (map fst (sc_threads s)) \<and> (\<forall>x \<in> set (sc_threads s). fst x < sc_next_thread s)"

text \<open>The claim a thread is waiting for moves a due time that has come to one that has not.\<close>

fun thread_ok :: "sched_thread \<Rightarrow> bool" where
  "thread_ok (NormClaim row rest now next_at mode k) = (case sb_next_due_at row of None \<Rightarrow> False | Some d \<Rightarrow> d \<le> now \<and> now < next_at)"
| "thread_ok (FireClaim row next_at now attempted epoch) = (case sb_next_due_at row of None \<Rightarrow> False | Some d \<Rightarrow> d \<le> now \<and> now < next_at)"
| "thread_ok t = True"

definition threads_ok :: "scheduler \<Rightarrow> bool" where
  "threads_ok s \<longleftrightarrow> ids_ok s \<and> (\<forall>x \<in> set (sc_threads s). thread_ok (snd x))"

text \<open>A state between events (\<open>settled\<close>), and one in which the run has the floor (\<open>in_run\<close>).\<close>

definition settled :: "scheduler \<Rightarrow> bool" where
  "settled s \<longleftrightarrow> threads_ok s \<and> holders s = (if sc_running s then 1 else 0)"

definition in_run :: "scheduler \<Rightarrow> bool" where
  "in_run s \<longleftrightarrow> threads_ok s \<and> sc_running s \<and> holders s = 0"

text \<open>What the synchronous parts leave alone.\<close>

definition same_data :: "scheduler \<Rightarrow> scheduler \<Rightarrow> bool" where
  "same_data s t \<longleftrightarrow> sc_db t = sc_db s \<and> sc_log t = sc_log s \<and> sc_slots t = sc_slots s"

lemma same_data_refl [simp]: "same_data s s"
  by (simp add: same_data_def)

lemma same_data_trans: "same_data s t \<Longrightarrow> same_data t u \<Longrightarrow> same_data s u"
  by (simp add: same_data_def)

lemma spawn_ok: "threads_ok s \<Longrightarrow> thread_ok t \<Longrightarrow> threads_ok (spawn t s)"
  by (auto simp: threads_ok_def ids_ok_def spawn_def)

lemma spawn_simps [simp]:
  "holders (spawn t s) = holders s + (if holds_run t then 1 else 0)" "sc_running (spawn t s) = sc_running s"
  "sc_db (spawn t s) = sc_db s" "sc_log (spawn t s) = sc_log s" "sc_slots (spawn t s) = sc_slots s"
  by (simp_all add: spawn_def holders_def)

lemma arm_simps [simp]:
  "sc_threads (arm s) = sc_threads s" "sc_running (arm s) = sc_running s" "sc_db (arm s) = sc_db s" "sc_log (arm s) = sc_log s"
  "sc_slots (arm s) = sc_slots s" "sc_next_thread (arm s) = sc_next_thread s"
  by (simp_all add: arm_def clear_timers_def Let_def split: option.splits)

lemma arm_settled [simp]: "settled (arm s) = settled s"
  by (simp add: settled_def threads_ok_def ids_ok_def holders_def)

lemma settled_stop_run: "in_run s \<Longrightarrow> settled (s\<lparr>sc_running := False\<rparr>)"
  by (simp add: in_run_def settled_def threads_ok_def ids_ok_def holders_def)

lemma settled_run: "settled s \<Longrightarrow> \<not> sc_running s \<Longrightarrow> in_run (s\<lparr>sc_running := True\<rparr>)"
  by (simp add: in_run_def settled_def threads_ok_def ids_ok_def holders_def)

definition norm_floor :: "after_normalize \<Rightarrow> scheduler \<Rightarrow> bool" where
  "norm_floor k s \<longleftrightarrow> (if k \<in> {AfterFinish, AfterResume} then in_run s else settled s)"

lemma next_due_later: "next_due z row after = Some n \<Longrightarrow> after < n"
  by (auto simp: next_due_def split: option.splits dest: compute_next_due_later)

lemma advance_due_later: "advance_due z row due now = Some n \<Longrightarrow> now < n"
  by (auto simp: advance_due_def split: option.splits if_splits dest: advance_past_due_later)

lemma floor_threads: "norm_floor k s \<Longrightarrow> threads_ok s"
  by (simp add: norm_floor_def in_run_def settled_def split: if_splits)

lemma normalize_done_ok: "norm_floor k s \<Longrightarrow> settled (normalize_done k s) \<and> same_data s (normalize_done k s)"
  by (cases k) (simp_all add: norm_floor_def settled_stop_run same_data_def)

lemma spawn_floor:
  assumes "norm_floor k s" "thread_ok t" "holds_run t \<longleftrightarrow> k \<in> {AfterFinish, AfterResume}"
  shows "settled (spawn t s)"
  using assms spawn_ok [OF floor_threads [OF assms(1)] assms(2)]
  by (auto simp: norm_floor_def in_run_def settled_def split: if_splits)

lemma normalize_from_ok: "norm_floor k s \<Longrightarrow> settled (normalize_from z rows now mode k s) \<and> same_data s (normalize_from z rows now mode k s)"
proof (induction rows)
  case (Cons row rows)
  have "settled (spawn (NormSave row rows now n mode k) s)" for n
    by (rule spawn_floor [OF Cons.prems]) simp_all
  moreover have "settled (spawn (NormClaim row rows now n mode k) s)" if "sb_next_due_at row = Some d" "d \<le> now" "now < n" for d n
    by (rule spawn_floor [OF Cons.prems]) (use that in simp_all)
  ultimately show ?case using Cons
    by (auto simp: same_data_def dest: advance_due_later split: option.splits)
qed (simp add: normalize_done_ok)

lemma normalize_slots_ok: "norm_floor k s \<Longrightarrow> settled (normalize_slots z mode k s) \<and> same_data s (normalize_slots z mode k s)"
  unfolding normalize_slots_def by (rule normalize_from_ok)

lemma runs_ok:
  "in_run s \<Longrightarrow> settled (tick_loop z attempted epoch s) \<and> same_data s (tick_loop z attempted epoch s)"
  "in_run s \<Longrightarrow> settled (finish_run z s) \<and> same_data s (finish_run z s)"
  "settled s \<Longrightarrow> settled (tick z s) \<and> same_data s (tick z s)"
proof (induction z attempted epoch s and z s and z s rule: tick_loop_finish_run_tick.induct)
  case (1 z attempted epoch s)
  have fire: "settled (spawn (FireClaim row n (sc_clock s) a epoch) s)"
    if "sb_next_due_at row = Some d" "d \<le> sc_clock s" "next_due z row (max (sc_clock s) d) = Some n" for row d n a
    using spawn_ok [of s "FireClaim row n (sc_clock s) a epoch"] next_due_later [OF that(3)] that 1(5)
    by (auto simp: in_run_def settled_def)
  note step = tick_loop.simps [of z attempted epoch s]
  show ?case
  proof (cases "\<not> sc_enabled s \<or> epoch \<noteq> sc_resume_epoch s")
    case True
    then show ?thesis using 1(1) [OF True 1(5)] unfolding step by auto
  next
    case on: False
    show ?thesis
    proof (cases "due_rows attempted s")
      case Nil
      then show ?thesis using 1(2) [OF on Nil 1(5)] on unfolding step by simp
    next
      case (Cons row rest)
      obtain d where d: "sb_next_due_at row = Some d" "d \<le> sc_clock s" by (rule due_rows_head [OF Cons])
      show ?thesis
      proof (cases "next_due z row (max (sc_clock s) d)")
        case None
        then show ?thesis using 1(4) [OF on Cons d(1) None 1(5)] on Cons d unfolding step by simp
      next
        case (Some n)
        then show ?thesis using fire [OF d Some] on Cons d unfolding step by (simp add: same_data_def)
      qed
    qed
  qed
next
  case (2 z s)
  let ?t = "s\<lparr>sc_running := False, sc_reconcile_pending := False, sc_tick_pending := False\<rparr>"
  have t: "settled ?t" "in_run (?t\<lparr>sc_running := True\<rparr>)"
    using 2(2) by (simp_all add: in_run_def settled_def threads_ok_def ids_ok_def holders_def)
  have n: "norm_floor AfterFinish (?t\<lparr>sc_running := True\<rparr>)" using t(2) by (simp add: norm_floor_def)
  show ?case
    using 2(1) t(1) normalize_slots_ok [OF n, of z SkipMissed]
    by (subst (1 2) finish_run.simps) (auto simp: Let_def same_data_def)
next
  case (3 z s)
  have "settled (s\<lparr>sc_tick_pending := True\<rparr>)"
    using 3(2) by (simp add: settled_def threads_ok_def ids_ok_def holders_def)
  then show ?case
    using 3 settled_run [of s]
    by (subst (1 2) tick.simps) (auto simp: same_data_def)
qed

subsection \<open>What was delivered\<close>

text \<open>
  The deliveries of a slot since it was last saved, newest first: the due time, the time of the claim
  and the due time claimed next.
\<close>

fun due_log :: "int \<Rightarrow> sched_log list \<Rightarrow> (int \<times> int \<times> int) list" where
  "due_log k [] = []"
| "due_log k (LogSaved j # es) = (if j = k then [] else due_log k es)"
| "due_log k (LogDue j due now next_at # es) = (if j = k then (due, now, next_at) # due_log k es else due_log k es)"
| "due_log k (LogMissed j due now next_at # es) = due_log k es"
| "due_log k (LogSendNow j # es) = due_log k es"

abbreviation due_of :: "int \<times> int \<times> int \<Rightarrow> int" where "due_of x \<equiv> fst x"
abbreviation claimed_of :: "int \<times> int \<times> int \<Rightarrow> int" where "claimed_of x \<equiv> fst (snd x)"
abbreviation next_of :: "int \<times> int \<times> int \<Rightarrow> int" where "next_of x \<equiv> snd (snd x)"

definition no_replay :: "(int \<times> int \<times> int) list \<Rightarrow> bool" where
  "no_replay xs \<longleftrightarrow> sorted_wrt (\<lambda>newer older. claimed_of older < due_of newer) xs
     \<and> list_all (\<lambda>x. due_of x \<le> claimed_of x \<and> claimed_of x < next_of x) xs"

definition stored_due :: "broadcast_db \<Rightarrow> int \<Rightarrow> int option" where
  "stored_due db k = (case db k of None \<Rightarrow> None | Some r \<Rightarrow> db_next_due_at r)"

definition log_ok :: "broadcast_db \<Rightarrow> sched_log list \<Rightarrow> bool" where
  "log_ok db log \<longleftrightarrow> (\<forall>k. no_replay (due_log k log)
     \<and> (\<forall>d. stored_due db k = Some d \<longrightarrow> (\<forall>x \<in> set (due_log k log). fst (snd x) < d)))"

lemma log_ok_due:
  assumes "log_ok db log" "stored_due db k = Some due" "due \<le> now" "now < next_at"
    "stored_due db' = (stored_due db)(k \<mapsto> next_at)"
  shows "log_ok db' (LogDue k due now next_at # log)" "log_ok db' (LogMissed k due now next_at # log)"
proof -
  have old: "\<forall>x \<in> set (due_log k log). fst (snd x) < due" using assms(1,2) by (simp add: log_ok_def)
  show "log_ok db' (LogDue k due now next_at # log)" "log_ok db' (LogMissed k due now next_at # log)"
    using assms old by (fastforce simp: log_ok_def no_replay_def)+
qed

lemma log_ok_saved: "log_ok db log \<Longrightarrow> (\<And>j. j \<noteq> k \<Longrightarrow> db' j = db j) \<Longrightarrow> log_ok db' (LogSaved k # log)"
  by (auto simp: log_ok_def no_replay_def stored_due_def)

lemma log_ok_fewer:
  assumes "log_ok db log" "\<And>j. stored_due db' j = None \<or> stored_due db' j = stored_due db j"
  shows "log_ok db' log"
  using assms(1) unfolding log_ok_def by (metis assms(2) option.distinct(1))

lemma log_ok_removed:
  assumes "log_ok db log"
  shows "log_ok (db(k := None)) log" "log_ok (\<lambda>_. None) log"
  by (rule log_ok_fewer [OF assms]; simp add: stored_due_def)+

lemma log_ok_send_now: "log_ok db log \<Longrightarrow> log_ok db (LogSendNow k # log)"
  by (simp add: log_ok_def)

subsection \<open>Replies keep the invariant\<close>

definition sched_ok :: "scheduler \<Rightarrow> bool" where
  "sched_ok s \<longleftrightarrow> settled s \<and> log_ok (sc_db s) (sc_log s)"

definition has_floor :: "bool \<Rightarrow> scheduler \<Rightarrow> bool" where
  "has_floor h s \<longleftrightarrow> (if h then in_run s else settled s)"

lemma has_floor_frame:
  "has_floor h (s\<lparr>sc_db := db\<rparr>) = has_floor h s" "has_floor h (s\<lparr>sc_slots := slots\<rparr>) = has_floor h s"
  "has_floor h (note_log e s) = has_floor h s" "has_floor h (apply_runtime_state k n r t s) = has_floor h s"
  by (simp_all add: has_floor_def in_run_def settled_def threads_ok_def ids_ok_def holders_def note_log_def apply_runtime_state_def
      split: option.splits)

lemma note_log_simps [simp]:
  "sc_db (note_log e s) = sc_db s" "sc_log (note_log e s) = e # sc_log s" "sc_slots (note_log e s) = sc_slots s"
  "sc_running (note_log e s) = sc_running s" "sc_threads (note_log e s) = sc_threads s"
  by (simp_all add: note_log_def)

lemma runtime_state_simps [simp]:
  "sc_db (apply_runtime_state k n r t s) = sc_db s" "sc_log (apply_runtime_state k n r t s) = sc_log s"
  by (simp_all add: apply_runtime_state_def split: option.splits)

lemma spawn_has_floor: "has_floor (holds_run t) s \<Longrightarrow> thread_ok t \<Longrightarrow> settled (spawn t s)"
  using spawn_ok [of s t] by (auto simp: has_floor_def in_run_def settled_def split: if_splits)

lemma claim_request:
  "claim_scheduled_broadcast_due True (JNumber k) (JNumber due) (JNumber n) (JNumber t) db =
     (if k < 1 \<or> k > SCHEDULED_BROADCAST_SLOT_COUNT then (Inl ''slot'', db)
      else case db k of None \<Rightarrow> (Inr False, db)
        | Some r \<Rightarrow> if db_next_due_at r = Some due
            then (Inr True, db(k \<mapsto> r\<lparr>db_next_due_at := Some n, db_updated_at := t\<rparr>)) else (Inr False, db))"
  by (simp add: claim_scheduled_broadcast_due_def assert_slot_def)

lemma claim_reply_cases:
  assumes "claim_reply row next_at now reply s = (claimed, s')"
  obtains "\<not> claimed" "s' = s"
  | due r where "claimed" "sb_next_due_at row = Some due" "sc_db s (sb_slot row) = Some r" "db_next_due_at r = Some due"
      "s' = s\<lparr>sc_db := (sc_db s)(sb_slot row \<mapsto> r\<lparr>db_next_due_at := Some next_at, db_updated_at := now\<rparr>)\<rparr>"
proof (cases "sb_next_due_at row = None \<or> reply \<noteq> ReplyOk")
  case True
  then have "\<not> claimed" "s' = s" using assms by (auto simp: claim_reply_def split: option.splits sched_reply.splits)
  then show ?thesis by (rule that(1))
next
  case False
  then obtain due where "sb_next_due_at row = Some due" "reply = ReplyOk" by auto
  then show ?thesis using that assms
    by (cases "sc_db s (sb_slot row)") (simp_all add: claim_reply_def claim_request split: if_splits)
qed

lemma set_result_due:
  "stored_due (snd (set_scheduled_broadcast_result True (JNumber k) (JNumber t) v now db)) = stored_due db"
  by (auto simp: set_scheduled_broadcast_result_def stored_due_def assert_slot_def fun_eq_iff split: sum.splits option.splits)

lemma result_reply_frame:
  obtains db where "snd (result_reply row t v reply s) = s\<lparr>sc_db := db\<rparr>" "stored_due db = stored_due (sc_db s)"
proof (cases "reply = ReplyOk")
  case True
  obtain res db where p: "set_scheduled_broadcast_result True (JNumber (sb_slot row)) (JNumber t) v (sc_clock s) (sc_db s) = (res, db)"
    by fastforce
  show ?thesis
  proof (cases res)
    case (Inl e)
    then show ?thesis using that [of "sc_db s"] True p by (simp add: result_reply_def)
  next
    case (Inr u)
    then show ?thesis using that [of db] True p set_result_due [of "sb_slot row" t v "sc_clock s" "sc_db s"]
      by (simp add: result_reply_def)
  qed
next
  case False
  then show ?thesis using that [of "sc_db s"] by (simp add: result_reply_def)
qed

lemma save_handler_frame:
  assumes "save_scheduled_broadcast trusted raw now db = (Inr stored, db')" "j \<noteq> sb_slot stored"
  shows "db' j = db j"
  using assms by (auto simp: save_scheduled_broadcast_def upsert_row_def row_from_db_def row_to_db_def split: if_splits sum.splits)

lemma save_reply_ok:
  assumes "has_floor h s" "log_ok (sc_db s) (sc_log s)"
  shows "has_floor h (save_reply raw s) \<and> log_ok (sc_db (save_reply raw s)) (sc_log (save_reply raw s))"
proof (cases "save_scheduled_broadcast True raw (sc_clock s) (sc_db s)")
  case (Pair res db)
  show ?thesis
  proof (cases res)
    case (Inr stored)
    have "log_ok db (LogSaved (sb_slot stored) # sc_log s)"
      by (rule log_ok_saved [OF assms(2)]) (use save_handler_frame Pair Inr in blast)
    then show ?thesis using assms(1) Pair Inr
      by (simp add: save_reply_def has_floor_frame)
  qed (use Pair assms in \<open>simp add: save_reply_def\<close>)
qed

definition logged :: "bool \<Rightarrow> scheduler \<Rightarrow> bool" where
  "logged h s \<longleftrightarrow> has_floor h s \<and> log_ok (sc_db s) (sc_log s)"

lemma logged_frame [simp]: "logged h (apply_runtime_state k n r t s) = logged h s" "logged h (s\<lparr>sc_slots := slots\<rparr>) = logged h s"
  by (simp_all add: logged_def has_floor_frame)

lemma logged_db: "logged h s \<Longrightarrow> stored_due db = stored_due (sc_db s) \<Longrightarrow> logged h (s\<lparr>sc_db := db\<rparr>)"
  by (simp add: logged_def has_floor_frame log_ok_def)

lemma logged_settled: "logged False s = sched_ok s"
  by (simp add: logged_def sched_ok_def has_floor_def)

lemma sched_ok_same: "settled t \<and> same_data s t \<Longrightarrow> log_ok (sc_db s) (sc_log s) \<Longrightarrow> sched_ok t"
  by (simp add: sched_ok_def same_data_def)

lemma normalize_from_logged: "logged (k \<in> {AfterFinish, AfterResume}) s \<Longrightarrow> sched_ok (normalize_from z rows now mode k s)"
  by (rule sched_ok_same [OF normalize_from_ok]) (simp_all add: logged_def has_floor_def norm_floor_def)

lemma normalize_slots_logged: "logged (k \<in> {AfterFinish, AfterResume}) s \<Longrightarrow> sched_ok (normalize_slots z mode k s)"
  unfolding normalize_slots_def by (rule normalize_from_logged)

lemma tick_loop_logged: "logged True s \<Longrightarrow> sched_ok (tick_loop z attempted epoch s)"
  by (rule sched_ok_same [OF runs_ok(1)]) (simp_all add: logged_def has_floor_def)

lemma finish_run_logged: "logged True s \<Longrightarrow> sched_ok (finish_run z s)"
  by (rule sched_ok_same [OF runs_ok(2)]) (simp_all add: logged_def has_floor_def)

lemma tick_ok: "sched_ok s \<Longrightarrow> sched_ok (tick z s)"
  by (rule sched_ok_same [OF runs_ok(3)]) (simp_all add: logged_def has_floor_def sched_ok_def)

lemma spawn_logged: "logged (holds_run t) s \<Longrightarrow> thread_ok t \<Longrightarrow> sched_ok (spawn t s)"
  by (simp add: logged_def sched_ok_def spawn_has_floor)

lemma claim_logged:
  assumes "claim_reply row next_at now reply s = (claimed, s')" "logged h s" "thread_ok (FireClaim row next_at now attempted epoch)"
  shows "\<not> claimed \<Longrightarrow> logged h s'"
    and "claimed \<Longrightarrow> logged h (note_log (LogDue (sb_slot row) (the (sb_next_due_at row)) now next_at) s')"
    and "claimed \<Longrightarrow> logged h (note_log (LogMissed (sb_slot row) (the (sb_next_due_at row)) now next_at) s')"
proof -
  show "\<not> claimed \<Longrightarrow> logged h s'" using claim_reply_cases [OF assms(1)] assms(2) by metis
  assume claimed
  then obtain due r where c: "sb_next_due_at row = Some due" "sc_db s (sb_slot row) = Some r" "db_next_due_at r = Some due"
      "s' = s\<lparr>sc_db := (sc_db s)(sb_slot row \<mapsto> r\<lparr>db_next_due_at := Some next_at, db_updated_at := now\<rparr>)\<rparr>"
    using claim_reply_cases [OF assms(1)] by metis
  have d: "due \<le> now" "now < next_at" using assms(3) c(1) by simp_all
  have st: "stored_due (sc_db s) (sb_slot row) = Some due" using c by (simp add: stored_due_def)
  have upd: "stored_due (sc_db s') = (stored_due (sc_db s))(sb_slot row \<mapsto> next_at)"
    by (simp add: c(4) stored_due_def fun_eq_iff)
  note ok = log_ok_due [OF _ st d upd, of "sc_log s"]
  show "logged h (note_log (LogDue (sb_slot row) (the (sb_next_due_at row)) now next_at) s')"
    "logged h (note_log (LogMissed (sb_slot row) (the (sb_next_due_at row)) now next_at) s')"
    using assms(2) ok c(1) by (simp_all add: logged_def has_floor_frame) (simp_all add: c(4) has_floor_frame)
qed

lemma result_logged: "logged h s \<Longrightarrow> logged h (snd (result_reply row t v reply s))"
  using result_reply_frame [of row t v reply s] logged_db by metis

lemma save_logged: "logged h s \<Longrightarrow> logged h (save_reply raw s)"
  unfolding logged_def by (rule save_reply_ok) simp_all

lemma resume_ok:
  assumes "logged (holds_run t) s" "thread_ok t"
  shows "sched_ok (resume z reply t s)"
proof (cases t)
  case (NormSave row rest now next_at mode k)
  then show ?thesis using assms(1) save_logged by (auto intro!: normalize_from_logged)
next
  case (NormClaim row rest now next_at mode k)
  obtain claimed s' where c: "claim_reply row next_at now reply s = (claimed, s')" by fastforce
  have ok: "thread_ok (FireClaim row next_at now [] 0)" using assms(2) NormClaim by simp
  show ?thesis
    using claim_logged [OF c assms(1) ok] NormClaim c
    by (cases claimed) (auto intro!: normalize_from_logged spawn_logged)
next
  case (NormResult row rest now next_at mode k)
  obtain stored s' where r: "result_reply row now (result_value now ''missed'' []) reply s = (stored, s')" by fastforce
  have "logged (k \<in> {AfterFinish, AfterResume}) s'"
    using result_logged [OF assms(1), of row now "result_value now ''missed'' []" reply] NormResult r by simp
  then show ?thesis using NormResult r by (cases stored) (auto intro!: normalize_from_logged)
next
  case (FireClaim row next_at now attempted epoch)
  obtain claimed s' where c: "claim_reply row next_at now reply s = (claimed, s')" by fastforce
  have runtime: "logged h (note_log e (apply_runtime_state k n r u s)) = logged h (note_log e s)" for h e k n r u s
    by (simp add: logged_def has_floor_frame)
  show ?thesis
    using claim_logged [OF c assms(1), of attempted epoch] assms(2) FireClaim c
    by (cases claimed) (auto simp: deliver_and_record_def runtime intro!: tick_loop_logged spawn_logged)
next
  case (Delivering row advance k)
  then show ?thesis using assms(1) by (auto simp: Let_def intro!: spawn_logged)
next
  case (Recording row advance result attempted_at k)
  then show ?thesis using result_logged assms(1)
    by (cases k) (auto simp: Let_def intro!: tick_loop_logged finish_run_logged)
qed

lemma filter_without_key:
  "distinct (map fst xs) \<Longrightarrow> map_of xs i = Some t \<Longrightarrow>
   length (filter P xs) = length (filter P (filter (\<lambda>x. fst x \<noteq> i) xs)) + (if P (i, t) then 1 else 0)"
proof (induction xs)
  case (Cons x xs)
  show ?case
  proof (cases "fst x = i")
    case True
    then have "i \<notin> fst ` set xs" using Cons.prems(1) by simp
    then have "filter (\<lambda>x. fst x \<noteq> i) xs = xs" by (auto simp: filter_id_conv)
    then show ?thesis using True Cons.prems(2) by (cases x) auto
  qed (use Cons in \<open>cases x; auto\<close>)
qed simp

lemma reply_floor:
  assumes "sched_ok s" "map_of (sc_threads s) i = Some t"
  shows "logged (holds_run t) (s\<lparr>sc_threads := filter (\<lambda>x. fst x \<noteq> i) (sc_threads s)\<rparr>)" "thread_ok t"
proof -
  have s: "settled s" "log_ok (sc_db s) (sc_log s)" and ids: "distinct (map fst (sc_threads s))"
    using assms(1) by (simp_all add: sched_ok_def settled_def threads_ok_def ids_ok_def)
  show "thread_ok t" using s(1) map_of_SomeD [OF assms(2)] by (force simp: settled_def threads_ok_def)
  show "logged (holds_run t) (s\<lparr>sc_threads := filter (\<lambda>x. fst x \<noteq> i) (sc_threads s)\<rparr>)"
    using s filter_without_key [OF ids assms(2), of "\<lambda>x. holds_run (snd x)"]
    by (auto simp: logged_def has_floor_def in_run_def settled_def threads_ok_def ids_ok_def holders_def distinct_map_filter
        split: if_splits)
qed

lemma run_flags_ok:
  assumes "settled s"
  shows "settled (s\<lparr>sc_started := a, sc_last_enabled := b\<rparr>)" "settled (s\<lparr>sc_last_enabled := b\<rparr>)" "settled (s\<lparr>sc_timer := t\<rparr>)"
    "settled (s\<lparr>sc_reconcile_pending := r\<rparr>)" "settled (s\<lparr>sc_resume_epoch := e\<rparr>)" "settled (s\<lparr>sc_clock := c\<rparr>)"
    "settled (s\<lparr>sc_enabled := a\<rparr>)" "settled (sched_stop s)" "settled (s\<lparr>sc_db := db, sc_slots := slots\<rparr>)"
  using assms by (simp_all add: settled_def threads_ok_def ids_ok_def holders_def sched_stop_def clear_timers_def)

lemma logged_start: "sched_ok s \<Longrightarrow> \<not> sc_running s \<Longrightarrow> logged True (s\<lparr>sc_running := True\<rparr>)"
  using settled_run by (simp add: sched_ok_def logged_def has_floor_def)

lemma start_ok: "sched_ok s \<Longrightarrow> sched_ok (sched_start z s)"
  by (auto simp: sched_start_def Let_def intro!: normalize_slots_logged)
    (simp_all add: logged_def sched_ok_def has_floor_def run_flags_ok)

lemma refresh_ok: "sched_ok s \<Longrightarrow> sched_ok (sched_refresh z s)"
  by (auto simp: sched_refresh_def Let_def intro!: normalize_slots_logged)
    (simp_all add: logged_def sched_ok_def has_floor_def run_flags_ok)

lemma power_resume_ok:
  assumes "sched_ok s"
  shows "sched_ok (sched_power_resume z s)"
proof -
  have e: "sched_ok (s\<lparr>sc_resume_epoch := e\<rparr>)" for e using assms by (simp add: sched_ok_def run_flags_ok)
  have "logged True (s\<lparr>sc_resume_epoch := e, sc_running := True\<rparr>)" if "\<not> sc_running s" for e
    using logged_start [OF e] that by simp
  then show ?thesis using assms e
    by (auto simp: sched_power_resume_def Let_def intro!: normalize_slots_logged)
      (simp_all add: sched_ok_def run_flags_ok)
qed

lemma send_now_ok:
  assumes "sched_ok s"
  shows "sched_ok (sched_send_now slot s)"
proof -
  have "sched_ok (spawn (Delivering row advance AfterSendNow) (note_log (LogSendNow slot) (s\<lparr>sc_running := True\<rparr>)))"
    if "\<not> sc_running s" for row advance
    using logged_start [OF assms that] log_ok_send_now
    by (intro spawn_logged) (simp_all add: logged_def has_floor_frame)
  then show ?thesis using assms by (simp add: sched_send_now_def deliver_and_record_def split: option.splits)
qed

lemma remove_ok:
  assumes "sched_ok s"
  shows "sched_ok (sched_step z (EvRemove slot) s)" "sched_ok (sched_step z EvClearAll s)"
  using assms
  by (auto simp: sched_ok_def run_flags_ok delete_scheduled_broadcast_def clear_scheduled_broadcasts_def log_ok_removed
      split: sum.splits)

lemma sched_step_ok: "sched_ok s \<Longrightarrow> sched_ok (sched_step z e s)"
proof (cases e)
  case EvTimer
  assume "sched_ok s"
  then show ?thesis using EvTimer tick_ok [of "s\<lparr>sc_timer := None\<rparr>"] by (simp add: sched_ok_def run_flags_ok)
next
  case (EvReply i reply)
  assume "sched_ok s"
  then show ?thesis using EvReply reply_floor resume_ok by (auto split: option.splits)
next
  case (EvSave raw)
  assume "sched_ok s"
  then show ?thesis using EvSave save_logged [of False] by (simp add: logged_settled)
qed (use start_ok refresh_ok power_resume_ok send_now_ok tick_ok remove_ok in \<open>simp_all add: sched_ok_def run_flags_ok\<close>,
     simp_all add: sched_stop_def clear_timers_def)

interpretation bsched: invariant_steps "sched_step z" sched_ok sched_init for z
  by unfold_locales
    (rule sched_step_ok
      | simp add: sched_ok_def settled_def threads_ok_def ids_ok_def holders_def sched_init_def log_ok_def no_replay_def stored_due_def)+

text \<open>
  C9. Scheduled broadcasts go out once and missed ones are not made up for. In every state the scheduler
  reaches, whatever the order of timers, replies, failures, clock changes, edits, restarts, manual
  sends and power resumes: a run is in progress exactly if one thread, and no more, holds it, so no two
  deliveries overlap and a run that waits has a reply to wait for; and since its slot was last saved,
  every scheduled delivery was claimed at or after its due time and the due times of later deliveries
  come after the claim of every earlier one, as does the due time in the table, so a due time is never
  delivered twice and occurrences that passed before a claim are skipped.
\<close>

theorem broadcasts_delivered_once:
  fixes z es k
  defines "s \<equiv> sched_run z es" and "deliveries \<equiv> due_log k (sc_log (sched_run z es))"
  shows "length (filter (\<lambda>x. holds_run (snd x)) (sc_threads s)) = (if sc_running s then 1 else 0)
    \<and> list_all (\<lambda>x. due_of x \<le> claimed_of x \<and> claimed_of x < next_of x) deliveries
    \<and> sorted_wrt (\<lambda>newer older. claimed_of older < due_of newer) deliveries
    \<and> (case stored_due (sc_db s) k of None \<Rightarrow> True | Some d \<Rightarrow> list_all (\<lambda>x. claimed_of x < d) deliveries)"
proof -
  have ok: "sched_ok s" using bsched.run_inv [of z es] by (simp add: s_def sched_run_def bsched.run_def)
  then have "no_replay deliveries" "\<And>d. stored_due (sc_db s) k = Some d \<Longrightarrow> \<forall>x \<in> set deliveries. fst (snd x) < d"
    by (simp_all add: sched_ok_def log_ok_def deliveries_def s_def)
  with ok show ?thesis
    by (auto simp: sched_ok_def settled_def holders_def no_replay_def list_all_iff split: option.splits)
qed

subsection \<open>An edit during a delivery\<close>

text \<open>
  When a delivery is recorded, the due time that was current when it began is written into the store,
  over one that an edit stored in between. The table keeps the edited one, so when the old time comes
  the claim fails; the slot stays due, the timer is armed without delay, and the next tick does the
  same, with no delivery and no change, until the slot is saved again.
\<close>

lemma earliest_due_acc: "\<exists>e \<le> a. earliest_due rs (Some a) = Some e"
proof (induction rs arbitrary: a)
  case (Cons r rs)
  show ?case
  proof (cases "sb_next_due_at r")
    case (Some d)
    then show ?thesis using Cons.IH [of d] Cons.IH [of a] by (auto intro: order.trans)
  qed (use Cons.IH in simp)
qed simp

lemma earliest_due_row:
  "r \<in> set rs \<Longrightarrow> sb_next_due_at r = Some d \<Longrightarrow> \<exists>e \<le> d. earliest_due rs acc = Some e"
proof (induction rs arbitrary: acc)
  case (Cons x rs)
  show ?case
  proof (cases "r = x")
    case True
    then show ?thesis using Cons.prems(2) earliest_due_acc [of d rs] earliest_due_acc [of "the acc" rs]
      by (cases acc) (auto intro: order.trans)
  next
    case False
    then show ?thesis using Cons by (cases "sb_next_due_at x") auto
  qed
qed simp

lemma record_overwrites_due:
  assumes "sc_slots s (sb_slot row) = Some edited"
  shows "map_option sb_next_due_at (sc_slots (apply_runtime_state (sb_slot row) advance v t s) (sb_slot row)) = Some advance"
  using assms by (simp add: apply_runtime_state_def)

lemma stale_due_spins:
  assumes "sc_started s" "sc_enabled s" "\<not> sc_running s" "\<not> sc_tick_pending s" "\<not> sc_reconcile_pending s" "ids_ok s"
    and row: "due_rows [] s = [row]" "sb_next_due_at row = Some d" "next_due z row (sc_clock s) = Some n"
    and stale: "stored_due (sc_db s) (sb_slot row) \<noteq> Some d"
  defines "s' \<equiv> sched_step z (EvReply (sc_next_thread s) ReplyOk) (tick z s)"
  shows "sc_timer s' = Some (sc_clock s)" "sc_db s' = sc_db s" "sc_slots s' = sc_slots s" "sc_log s' = sc_log s"
    "sc_threads s' = sc_threads s" "\<not> sc_running s'"
proof -
  obtain d' where "sb_next_due_at row = Some d'" "d' \<le> sc_clock s" "row \<in> set (enabled_slots s)"
    by (rule due_rows_head [OF row(1)])
  then have d: "d \<le> sc_clock s" "row \<in> set (enabled_slots s)" using row(2) by simp_all
  let ?r = "s\<lparr>sc_running := True\<rparr>" and ?a = "[(sb_slot row, d)]"
  have same: "enabled_slots (s\<lparr>sc_running := b\<rparr>) = enabled_slots s" for b by (simp add: enabled_slots_def get_slots_def)
  have due: "due_rows a (s\<lparr>sc_running := b\<rparr>) = due_rows a s" for a b by (simp add: due_rows_def same)
  have none: "due_rows ?a s = []" using due_rows_shrink [OF row(1,2)] by simp
  have t: "tick z s = spawn (FireClaim row n (sc_clock s) ?a (sc_resume_epoch s)) ?r"
    using assms(1-3) row d(1) by (simp add: tick.simps tick_loop.simps [of z "[]"] due max_def)
  have drop: "filter (\<lambda>x. fst x \<noteq> sc_next_thread s) (sc_threads s) = sc_threads s" "map_of (sc_threads s) (sc_next_thread s) = None"
    using assms(6) by (auto simp: ids_ok_def filter_id_conv map_of_eq_None_iff)
  let ?t = "?r\<lparr>sc_next_thread := Suc (sc_next_thread s)\<rparr>"
  have claim: "claim_reply row n (sc_clock s) ReplyOk ?t = (False, ?t)"
    using stale row(2) by (simp add: claim_reply_def claim_request stored_due_def split: option.splits)
  have "map_of (sc_threads (tick z s)) (sc_next_thread s) = Some (FireClaim row n (sc_clock s) ?a (sc_resume_epoch s))"
    using drop(2) by (simp add: t spawn_def map_add_def)
  moreover have "(tick z s)\<lparr>sc_threads := filter (\<lambda>x. fst x \<noteq> sc_next_thread s) (sc_threads (tick z s))\<rparr> = ?t"
    using drop(1) by (simp add: t spawn_def)
  ultimately have "s' = tick_loop z ?a (sc_resume_epoch s) ?t"
    by (simp add: s'_def claim)
  also have "\<dots> = finish_run z ?t"
    using none assms(2) by (simp add: tick_loop.simps [of z ?a] due_rows_def enabled_slots_def get_slots_def)
  also have "\<dots> = arm (s\<lparr>sc_next_thread := Suc (sc_next_thread s)\<rparr>)"
    using assms(3-5) by (cases s) (simp add: finish_run.simps)
  finally have s': "s' = arm (s\<lparr>sc_next_thread := Suc (sc_next_thread s)\<rparr>)" .
  show "sc_db s' = sc_db s" "sc_slots s' = sc_slots s" "sc_log s' = sc_log s" "sc_threads s' = sc_threads s" "\<not> sc_running s'"
    using assms(3) by (simp_all add: s')
  obtain e where "e \<le> d" "earliest_due (enabled_slots s) None = Some e" using earliest_due_row [OF d(2) row(2)] by blast
  then show "sc_timer s' = Some (sc_clock s)"
    using assms(1-3) d(1) by (simp add: s' arm_def enabled_slots_def get_slots_def MAX_TIMER_DELAY_MS_def)
qed

text \<open>A due time that store and table agree on is delivered.\<close>

lemma due_slot_fires:
  assumes "sc_started s" "sc_enabled s" "\<not> sc_running s" "ids_ok s"
    and row: "due_rows [] s = row # rest" "sb_next_due_at row = Some d" "next_due z row (sc_clock s) = Some n"
    and slot: "stored_due (sc_db s) (sb_slot row) = Some d" "1 \<le> sb_slot row" "sb_slot row \<le> SCHEDULED_BROADCAST_SLOT_COUNT"
  shows "sc_log (sched_step z (EvReply (sc_next_thread s) ReplyOk) (tick z s)) = LogDue (sb_slot row) d (sc_clock s) n # sc_log s"
proof -
  obtain d' where "sb_next_due_at row = Some d'" "d' \<le> sc_clock s" by (rule due_rows_head [OF row(1)])
  then have d: "d \<le> sc_clock s" using row(2) by simp
  have due: "due_rows a (s\<lparr>sc_running := b\<rparr>) = due_rows a s" for a b by (simp add: due_rows_def enabled_slots_def get_slots_def)
  have t: "tick z s = spawn (FireClaim row n (sc_clock s) [(sb_slot row, d)] (sc_resume_epoch s)) (s\<lparr>sc_running := True\<rparr>)"
    using assms(1-3) row d by (simp add: tick.simps tick_loop.simps [of z "[]"] due max_def)
  have "map_of (sc_threads s) (sc_next_thread s) = None" using assms(4) by (auto simp: ids_ok_def map_of_eq_None_iff)
  then have m: "map_of (sc_threads (tick z s)) (sc_next_thread s) = Some (FireClaim row n (sc_clock s) [(sb_slot row, d)] (sc_resume_epoch s))"
    by (simp add: t spawn_def map_add_def)
  have log: "sc_log (deliver_and_record r a k u) = sc_log u" for r a k u by (simp add: deliver_and_record_def)
  show ?thesis
    using slot row(2) by (auto simp: m [unfolded t] claim_reply_def claim_request stored_due_def log t split: option.splits)
qed

end
