(* ===== verification/Chat_Limits.thy ===== *)
theory Chat_Limits
  imports Ai_Prompt Utf8
begin

text \<open>
  Size limits of outgoing chat texts (\<^verbatim>\<open>src/renderer/lib/chatComposerLimits.ts\<close>): the limit of a single
  packet per protocol, the overhead of a reply (with the wire names of \<^verbatim>\<open>meshcoreChannelText.ts\<close>), and
  the splitter that cuts a long text into numbered packets. Strings are UTF-16 code units; sizes and
  limits are integers, since an override comes from outside and may be anything.
\<close>

subsection \<open>Limits\<close>

datatype chat_protocol = Meshtastic | Meshcore | Reticulum
datatype wire_context = ChannelContext | DmContext | RoomContext

definition MESHTASTIC_PAYLOAD_LIMIT :: int where "MESHTASTIC_PAYLOAD_LIMIT = 228"
definition MESHCORE_PAYLOAD_LIMIT :: int where "MESHCORE_PAYLOAD_LIMIT = 133"
definition RETICULUM_LXMF_PAYLOAD_LIMIT :: int where "RETICULUM_LXMF_PAYLOAD_LIMIT = 4096"
definition MAX_CHUNKS :: nat where "MAX_CHUNKS = 9"
definition MESHCORE_WIRE_MAX :: int where "MESHCORE_WIRE_MAX = 160"
definition MESHCORE_MAX_NAME_LEN :: nat where "MESHCORE_MAX_NAME_LEN = 32"
definition MESHCORE_NAME_SUFFIX_LEN :: int where "MESHCORE_NAME_SUFFIX_LEN = 2"
definition MESHCORE_ROOM_PUBKEY_PREFIX_LEN :: int where "MESHCORE_ROOM_PUBKEY_PREFIX_LEN = 4"
definition MESHTASTIC_REPLY_ID_WIRE_BYTES :: int where "MESHTASTIC_REPLY_ID_WIRE_BYTES = 5"

fun get_max_chunks :: "chat_protocol \<Rightarrow> nat" where
  "get_max_chunks Meshtastic = 9"
| "get_max_chunks Meshcore = 1"
| "get_max_chunks Reticulum = 9"

definition trim16 :: "utf16 \<Rightarrow> utf16" where
  "trim16 s = rev (dropWhile is_space_point (rev (dropWhile is_space_point s)))"

definition trim_end16 :: "utf16 \<Rightarrow> utf16" where
  "trim_end16 s = rev (dropWhile is_space_point (rev s))"

definition count_message_chars :: "utf16 \<Rightarrow> int" where
  "count_message_chars s = int (length (char_list s))"

definition count_message_wire_bytes :: "utf16 \<Rightarrow> int" where
  "count_message_wire_bytes s = int (utf8_len s)"

definition get_chat_payload_limit :: "chat_protocol \<Rightarrow> int option \<Rightarrow> int" where
  "get_chat_payload_limit protocol override =
     (case override of Some n \<Rightarrow> n
      | None \<Rightarrow> if protocol = Reticulum then RETICULUM_LXMF_PAYLOAD_LIMIT
          else if protocol = Meshcore then MESHCORE_PAYLOAD_LIMIT else MESHTASTIC_PAYLOAD_LIMIT)"

definition get_meshcore_channel_payload_limit :: "utf16 \<Rightarrow> int" where
  "get_meshcore_channel_payload_limit display_name =
     (let capped_name = concat (take MESHCORE_MAX_NAME_LEN (char_list (trim16 display_name)));
          name_len = count_message_wire_bytes capped_name
      in max 1 (MESHCORE_WIRE_MAX - name_len - MESHCORE_NAME_SUFFIX_LEN))"

definition get_meshcore_room_payload_limit :: int where
  "get_meshcore_room_payload_limit = max 1 (MESHCORE_WIRE_MAX - MESHCORE_ROOM_PUBKEY_PREFIX_LEN)"

definition get_meshcore_dm_payload_limit :: int where
  "get_meshcore_dm_payload_limit = MESHCORE_WIRE_MAX"

definition get_composer_payload_limit :: "chat_protocol \<Rightarrow> wire_context option \<Rightarrow> utf16 option \<Rightarrow> int option \<Rightarrow> int" where
  "get_composer_payload_limit protocol composer_context sender_display_name override =
     (case override of Some n \<Rightarrow> n
      | None \<Rightarrow>
          if protocol = Meshtastic then MESHTASTIC_PAYLOAD_LIMIT
          else if protocol = Reticulum then RETICULUM_LXMF_PAYLOAD_LIMIT
          else
            let ctx = (case composer_context of None \<Rightarrow> ChannelContext | Some c \<Rightarrow> c) in
            if ctx = RoomContext then get_meshcore_room_payload_limit
            else if ctx = DmContext then get_meshcore_dm_payload_limit
            else get_meshcore_channel_payload_limit (case sender_display_name of None \<Rightarrow> [] | Some n \<Rightarrow> n))"

subsection \<open>The overhead of a reply\<close>

text \<open>\<^verbatim>\<open>name.replace(/\s+/g, ' ')\<close>.\<close>

fun collapse_spaces :: "bool \<Rightarrow> utf16 \<Rightarrow> utf16" where
  "collapse_spaces in_run [] = []"
| "collapse_spaces in_run (u # us) =
     (if is_space_point u then (if in_run then [] else [32]) @ collapse_spaces True us else u # collapse_spaces False us)"

definition is_digit16 :: "nat \<Rightarrow> bool" where "is_digit16 u \<longleftrightarrow> 48 \<le> u \<and> u \<le> 57"

text \<open>A closing bracket, or a number sign and at least ten digits at the end.\<close>

definition unsafe_wire_name :: "utf16 \<Rightarrow> bool" where
  "unsafe_wire_name s \<longleftrightarrow>
     93 \<in> set s
     \<or> (let digits = takeWhile is_digit16 (rev s); rest = dropWhile is_digit16 (rev s)
        in length digits \<ge> 10 \<and> rest \<noteq> [] \<and> hd rest = 35)"

definition sanitize_meshcore_wire_name :: "utf16 \<Rightarrow> utf16" where
  "sanitize_meshcore_wire_name name =
     (let normalized = trim16 (collapse_spaces False name) in if unsafe_wire_name normalized then [] else normalized)"

text \<open>A number of JavaScript, an integer when it is finite.\<close>

datatype js_number = NotFinite | Finite int

definition wire_name_or_unknown :: "utf16 \<Rightarrow> utf16" where
  "wire_name_or_unknown display_name =
     (let clean = sanitize_meshcore_wire_name display_name in if length clean > 0 then clean else u16 ''Unknown'')"

definition format_meshcore_wire_reply_prefix :: "utf16 \<Rightarrow> js_number \<Rightarrow> utf16" where
  "format_meshcore_wire_reply_prefix display_name reply_key =
     (let name = wire_name_or_unknown display_name in
      case reply_key of
        NotFinite \<Rightarrow> u16 ''@['' @ name @ u16 '']''
      | Finite key \<Rightarrow>
          if key \<le> 0 then u16 ''@['' @ name @ u16 '']''
          else u16 ''@['' @ name @ u16 (''#'' @ dec_string (nat key) @ '']''))"

definition format_meshcore_wire_tapback_prefix :: "utf16 \<Rightarrow> utf16" where
  "format_meshcore_wire_tapback_prefix display_name = u16 ''@['' @ wire_name_or_unknown display_name @ u16 '']''"

definition build_meshcore_outbound_tapback_wire :: "utf16 \<Rightarrow> utf16 \<Rightarrow> utf16" where
  "build_meshcore_outbound_tapback_wire display_name glyph = format_meshcore_wire_tapback_prefix display_name @ [32] @ glyph"

definition get_composer_wire_overhead :: "chat_protocol \<Rightarrow> utf16 option \<Rightarrow> js_number option \<Rightarrow> bool \<Rightarrow> int" where
  "get_composer_wire_overhead protocol reply_to_sender_name reply_key use_keyed_replies =
     (if protocol = Meshtastic then
        (case reply_key of Some (Finite k) \<Rightarrow> if k \<noteq> 0 then MESHTASTIC_REPLY_ID_WIRE_BYTES else 0 | _ \<Rightarrow> 0)
      else case reply_to_sender_name of
        None \<Rightarrow> 0
      | Some name \<Rightarrow>
          if protocol \<noteq> Meshcore \<or> trim16 name = [] then 0
          else
            let prefix = (case reply_key of
                Some (Finite key) \<Rightarrow>
                  if use_keyed_replies \<and> key > 0 then format_meshcore_wire_reply_prefix name (Finite key)
                  else format_meshcore_wire_tapback_prefix name
              | _ \<Rightarrow> format_meshcore_wire_tapback_prefix name)
            in count_message_wire_bytes (prefix @ [32]))"

subsection \<open>The splitter\<close>

fun take_chars_within :: "utf16 list \<Rightarrow> int \<Rightarrow> int \<Rightarrow> nat \<Rightarrow> nat" where
  "take_chars_within [] byte_budget bytes n = n"
| "take_chars_within (ch # chars) byte_budget bytes n =
     (let ch_bytes = count_message_wire_bytes ch in
      if n > 0 \<and> bytes + ch_bytes > byte_budget then n
      else take_chars_within chars byte_budget (bytes + ch_bytes) (n + 1))"

definition take_chars_within_byte_budget :: "utf16 list \<Rightarrow> int \<Rightarrow> nat" where
  "take_chars_within_byte_budget chars byte_budget = take_chars_within chars byte_budget 0 0"

text \<open>The search for a break, from the given index down to 1.\<close>

fun last_break :: "utf16 list \<Rightarrow> nat \<Rightarrow> nat \<Rightarrow> nat" where
  "last_break window 0 none = none"
| "last_break window (Suc i) none =
     (if window ! Suc i = [32] \<or> window ! Suc i = [10] then Suc i else last_break window i none)"

definition chunk_prefix :: "nat \<Rightarrow> nat \<Rightarrow> utf16" where
  "chunk_prefix i n = u16 (''['' @ dec_string i @ ''/'' @ dec_string n @ ''] '')"

lemma take_chars_ge: "n \<le> take_chars_within chars b bytes n"
  by (induction chars b bytes n rule: take_chars_within.induct) (auto simp: Let_def)

lemma take_chars_pos: "chars \<noteq> [] \<Longrightarrow> 0 < take_chars_within_byte_budget chars b"
  using take_chars_ge [of "Suc 0"] by (cases chars) (auto simp: take_chars_within_byte_budget_def Let_def Suc_le_eq)

text \<open>The chunks of \<open>chars\<close>, the characters from \<^verbatim>\<open>pos\<close> on.\<close>

function chunk_bodies :: "int \<Rightarrow> int \<Rightarrow> int \<Rightarrow> bool \<Rightarrow> utf16 list \<Rightarrow> utf16 list" where
  "chunk_bodies limit prefix_len overhead is_first chars =
     (if chars = [] then []
      else
        let body_limit = limit - prefix_len - (if is_first then overhead else 0) in
        if body_limit \<le> 0 then []
        else if count_message_wire_bytes (concat chars) \<le> body_limit then [concat chars]
        else
          let window_len = take_chars_within_byte_budget chars body_limit;
              window = take window_len chars;
              break_at = last_break window (window_len - 1) window_len;
              body = trim_end16 (concat (take break_at window))
          in body # chunk_bodies limit prefix_len overhead False (drop (if break_at = window_len then window_len else break_at + 1) chars))"
  by pat_completeness auto
termination
proof (relation "measure (\<lambda>(limit, prefix_len, overhead, is_first, chars). length chars)")
  fix limit prefix_len overhead :: int and is_first and chars :: "utf16 list" and bl wl w b bd
  assume "chars \<noteq> []" "wl = take_chars_within_byte_budget chars bl"
  then show "((limit, prefix_len, overhead, False, drop (if b = wl then wl else b + 1) chars), limit, prefix_len, overhead, is_first, chars)
      \<in> measure (\<lambda>(limit, prefix_len, overhead, is_first, chars). length chars)"
    using take_chars_pos [of chars bl] by auto
qed simp

declare chunk_bodies.simps [simp del]

definition split_chat_message :: "utf16 \<Rightarrow> chat_protocol \<Rightarrow> int option \<Rightarrow> int \<Rightarrow> utf16 list option" where
  "split_chat_message s protocol payload_limit wire_overhead_first_chunk =
     (let limit = get_chat_payload_limit protocol payload_limit;
          trimmed = trim16 s;
          overhead = max 0 wire_overhead_first_chunk;
          max_chunks = get_max_chunks protocol
      in if count_message_wire_bytes trimmed + overhead \<le> limit then Some []
         else if max_chunks \<le> 1 then None
         else
           let estimated_prefix_len = length (chunk_prefix max_chunks max_chunks);
               bodies = chunk_bodies limit (int estimated_prefix_len) overhead True (char_list trimmed)
           in if length bodies > max_chunks then None
              else
                let actual_prefix_len = length (chunk_prefix 1 (length bodies));
                    final_bodies = (if actual_prefix_len = estimated_prefix_len then bodies
                      else chunk_bodies limit (int actual_prefix_len) overhead True (char_list trimmed))
                in if length final_bodies > max_chunks then None
                   else Some (map (\<lambda>(i, body). chunk_prefix (i + 1) (length final_bodies) @ body) (enumerate 0 final_bodies)))"

subsection \<open>The status of the composer\<close>

definition compute_composer_total_max_chars :: "int \<Rightarrow> int \<Rightarrow> nat \<Rightarrow> int" where
  "compute_composer_total_max_chars single_message_limit wire_overhead_first_chunk max_chunks =
     (if max_chunks \<le> 1 then
        let single_body = single_message_limit - wire_overhead_first_chunk in if single_body > 0 then single_body else 0
      else
        let prefix_len = int (length (chunk_prefix max_chunks max_chunks));
            first_body = single_message_limit - prefix_len - wire_overhead_first_chunk;
            other_body = single_message_limit - prefix_len
        in if first_body \<le> 0 then 0 else first_body + (int max_chunks - 1) * other_body)"

datatype limit_phase = PhaseOk | PhaseWarn | PhaseSplit | PhaseOverMax

record limit_status =
  ls_char_count :: int
  ls_single_message_limit :: int
  ls_chunk_count :: nat
  ls_total_max_chars :: int
  ls_phase :: limit_phase
  ls_show_threshold :: int

record composer_opts =
  co_payload_limit_override :: "int option"
  co_composer_context :: "wire_context option"
  co_sender_display_name :: "utf16 option"
  co_reply_to_sender_name :: "utf16 option"
  co_reply_key :: "js_number option"
  co_use_keyed_replies :: bool
  co_use_wire_byte_count :: bool
  co_suppress_limits :: bool

definition compute_composer_limit_status :: "utf16 \<Rightarrow> chat_protocol \<Rightarrow> composer_opts \<Rightarrow> limit_status" where
  "compute_composer_limit_status s protocol opts =
     (let single_message_limit = get_composer_payload_limit protocol (co_composer_context opts) (co_sender_display_name opts)
            (co_payload_limit_override opts);
          overhead = get_composer_wire_overhead protocol (co_reply_to_sender_name opts) (co_reply_key opts) (co_use_keyed_replies opts);
          trimmed = trim16 s;
          char_count = (if co_use_wire_byte_count opts then count_message_wire_bytes trimmed else count_message_chars trimmed);
          show_threshold = single_message_limit * 4 div 5;
          total_max_chars = compute_composer_total_max_chars single_message_limit overhead (get_max_chunks protocol)
      in if co_suppress_limits opts then
           \<lparr>ls_char_count = char_count, ls_single_message_limit = single_message_limit, ls_chunk_count = 1,
            ls_total_max_chars = 9007199254740991, ls_phase = PhaseOk, ls_show_threshold = show_threshold\<rparr>
         else
           let (phase, chunk_count) = (case split_chat_message trimmed protocol (Some single_message_limit) overhead of
                 None \<Rightarrow> (PhaseOverMax, 0)
               | Some chunks \<Rightarrow>
                   if length chunks > 0 then (PhaseSplit, length chunks)
                   else if char_count \<ge> show_threshold then (PhaseWarn, 1) else (PhaseOk, 1))
           in \<lparr>ls_char_count = char_count, ls_single_message_limit = single_message_limit, ls_chunk_count = chunk_count,
               ls_total_max_chars = total_max_chars, ls_phase = phase, ls_show_threshold = show_threshold\<rparr>)"

subsection \<open>Characters and sizes\<close>

definition pieces :: "utf16 list \<Rightarrow> bool" where
  "pieces cs \<longleftrightarrow> [] \<notin> set cs \<and> successively (\<lambda>a b. \<not> (is_high (last a) \<and> is_low (hd b))) cs"

lemma char_list_hd: "s \<noteq> [] \<Longrightarrow> \<exists>c cs. char_list s = c # cs \<and> c \<noteq> [] \<and> hd c = hd s"
  by (cases s rule: char_list.cases) auto

lemma pieces_char_list: "pieces (char_list s)"
proof (induction s rule: char_list.induct)
  case (3 u v us)
  show ?case
  proof (cases "is_high u \<and> is_low v")
    case True
    then show ?thesis
      using 3(1) by (cases "char_list us") (auto simp: pieces_def successively_Cons is_high_def is_low_def)
  next
    case False
    then show ?thesis
      using 3(2) char_list_hd [of "v # us"] by (auto simp: pieces_def successively_Cons)
  qed
qed (auto simp: pieces_def)

lemma pieces_append: "pieces (xs @ ys) \<Longrightarrow> pieces xs \<and> pieces ys"
  by (auto simp: pieces_def successively_append_iff)

lemma pieces_take: "pieces cs \<Longrightarrow> pieces (take n cs)" and pieces_drop: "pieces cs \<Longrightarrow> pieces (drop n cs)"
  using pieces_append [of "take n cs" "drop n cs"] by simp_all

lemma wire_bytes_concat: "pieces cs \<Longrightarrow> count_message_wire_bytes (concat cs) = sum_list (map count_message_wire_bytes cs)"
proof (induction cs)
  case (Cons c cs)
  have "concat cs = [] \<or> \<not> is_high (last c) \<or> \<not> is_low (hd (concat cs))"
    using Cons(2) by (cases cs) (auto simp: pieces_def successively_Cons)
  then have "utf8_len (c @ concat cs) = utf8_len c + utf8_len (concat cs)" by (intro utf8_len_append) auto
  then show ?case using Cons pieces_append [of "[c]" cs] by (simp add: count_message_wire_bytes_def)
qed (simp add: count_message_wire_bytes_def)

lemma char_size: "c \<in> set (char_list s) \<Longrightarrow> 1 \<le> count_message_wire_bytes c \<and> count_message_wire_bytes c \<le> 4"
  using char_list_pieces [of c s] by (auto simp: count_message_wire_bytes_def)

lemma utf8_len_mono: "utf8_len xs \<le> utf8_len (xs @ ys)"
proof (induction xs rule: utf8_len.induct)
  case (2 u)
  show ?case by (cases ys) auto
qed auto

lemma trim_end_split: "\<exists>z. s = trim_end16 s @ z \<and> (\<forall>u \<in> set z. is_space_point u)"
proof -
  have "rev s = takeWhile is_space_point (rev s) @ dropWhile is_space_point (rev s)" by simp
  then have "s = trim_end16 s @ rev (takeWhile is_space_point (rev s))"
    unfolding trim_end16_def by (metis rev_append rev_rev_ident)
  then show ?thesis by (metis set_rev set_takeWhileD)
qed

lemma trim_end_size: "count_message_wire_bytes (trim_end16 s) \<le> count_message_wire_bytes s"
  unfolding count_message_wire_bytes_def of_nat_le_iff by (metis trim_end_split utf8_len_mono)

definition visible :: "utf16 \<Rightarrow> utf16" where
  "visible s = filter (\<lambda>u. \<not> is_space_point u) s"

lemma visible_append [simp]: "visible (a @ b) = visible a @ visible b"
  by (simp add: visible_def)

lemma visible_spaces: "\<forall>u \<in> set z. is_space_point u \<Longrightarrow> visible z = []"
  by (simp add: visible_def filter_empty_conv)

lemma visible_trim_end [simp]: "visible (trim_end16 s) = visible s"
  using trim_end_split [of s] visible_append visible_spaces by (metis append_Nil2)

lemma visible_trim [simp]: "visible (trim16 s) = visible s"
proof -
  have "trim16 s = trim_end16 (dropWhile is_space_point s)" by (simp add: trim16_def trim_end16_def)
  moreover have "visible (dropWhile is_space_point s) = visible s"
    by (induction s) (simp_all add: visible_def)
  ultimately show ?thesis by simp
qed

subsection \<open>Chunks\<close>

lemma take_chars_fit:
  "bytes \<le> b \<Longrightarrow> (n = 0 \<Longrightarrow> bytes = 0 \<and> (\<forall>c \<in> set chars. count_message_wire_bytes c \<le> b))
   \<Longrightarrow> take_chars_within chars b bytes n - n \<le> length chars
     \<and> bytes + sum_list (map count_message_wire_bytes (take (take_chars_within chars b bytes n - n) chars)) \<le> b"
proof (induction chars b bytes n rule: take_chars_within.induct)
  case (2 ch chars b bytes n)
  show ?case
  proof (cases "n > 0 \<and> bytes + count_message_wire_bytes ch > b")
    case True
    then show ?thesis using 2(2) by (simp add: Let_def)
  next
    case False
    let ?k = "take_chars_within chars b (bytes + count_message_wire_bytes ch) (n + 1)"
    from le_Suc_ex [OF take_chars_ge [of "n + 1" chars b "bytes + count_message_wire_bytes ch"]]
    obtain m where m: "?k = n + 1 + m" by blast
    have le: "bytes + count_message_wire_bytes ch \<le> b" using False 2(3) by (cases "n = 0") auto
    have IH: "m \<le> length chars \<and> bytes + count_message_wire_bytes ch + sum_list (map count_message_wire_bytes (take m chars)) \<le> b"
      using 2(1) [OF refl False le] m by simp
    have "take_chars_within (ch # chars) b bytes n = Suc (n + m)" using False m by (simp add: Let_def)
    then show ?thesis unfolding \<open>take_chars_within (ch # chars) b bytes n = Suc (n + m)\<close> using IH by simp
  qed
qed simp

lemma last_break_cases:
  "last_break w i none = none \<or> (0 < last_break w i none \<and> last_break w i none \<le> i
     \<and> (w ! last_break w i none = [32] \<or> w ! last_break w i none = [10]))"
  by (induction w i none rule: last_break.induct) auto

lemma chunk_bodies_ok:
  assumes "pieces chars" "\<forall>c \<in> set chars. count_message_wire_bytes c \<le> 4" "0 \<le> overhead" "prefix_len + overhead + 4 \<le> limit"
  shows "(\<forall>i < length (chunk_bodies limit prefix_len overhead is_first chars).
        count_message_wire_bytes (chunk_bodies limit prefix_len overhead is_first chars ! i)
          + prefix_len + (if i = 0 \<and> is_first then overhead else 0) \<le> limit)
    \<and> visible (concat (chunk_bodies limit prefix_len overhead is_first chars)) = visible (concat chars)"
  using assms
proof (induction limit prefix_len overhead is_first chars rule: chunk_bodies.induct)
  case (1 limit prefix_len overhead is_first chars)
  define bl where "bl = limit - prefix_len - (if is_first then overhead else 0)"
  have bl: "4 \<le> bl" using 1(4,5) by (simp add: bl_def)
  consider "chars = []" | "chars \<noteq> []" "count_message_wire_bytes (concat chars) \<le> bl"
    | "chars \<noteq> []" "\<not> count_message_wire_bytes (concat chars) \<le> bl" by blast
  then show ?case
  proof cases
    case 2
    then have "chunk_bodies limit prefix_len overhead is_first chars = [concat chars]"
      using bl by (subst chunk_bodies.simps) (simp add: bl_def [symmetric] Let_def)
    then show ?thesis using 2(2) by (auto simp: bl_def split: if_splits)
  next
    case 3
    define wl where "wl = take_chars_within_byte_budget chars bl"
    define w where "w = take wl chars"
    define k where "k = last_break w (wl - 1) wl"
    define n where "n = (if k = wl then wl else k + 1)"
    define body where "body = trim_end16 (concat (take k w))"
    define rest where "rest = chunk_bodies limit prefix_len overhead False (drop n chars)"
    have step: "chunk_bodies limit prefix_len overhead is_first chars = body # rest"
      using 3 bl unfolding body_def rest_def n_def k_def w_def wl_def bl_def by (subst chunk_bodies.simps) (simp add: Let_def)
    have small: "\<forall>c \<in> set chars. count_message_wire_bytes c \<le> bl" using 1(3) bl by fastforce
    have wl: "wl \<le> length chars" "sum_list (map count_message_wire_bytes w) \<le> bl" "0 < wl"
      using take_chars_fit [of 0 bl 0 chars] small bl take_chars_pos [OF 3(1)]
      by (auto simp: wl_def w_def take_chars_within_byte_budget_def)
    have k: "k = wl \<or> (0 < k \<and> k < wl \<and> (chars ! k = [32] \<or> chars ! k = [10]))"
      using last_break_cases [of w "wl - 1" wl] wl(3) by (auto simp: k_def w_def)
    have "pieces (take k w)" using pieces_take [OF pieces_take [OF 1(2)]] by (simp add: w_def)
    then have "count_message_wire_bytes (concat (take k w)) = sum_list (map count_message_wire_bytes (take k w))"
      by (rule wire_bytes_concat)
    moreover have "sum_list (map count_message_wire_bytes (take k w)) \<le> sum_list (map count_message_wire_bytes w)"
    proof -
      have "0 \<le> sum_list (map count_message_wire_bytes (drop k w))"
        by (intro sum_list_nonneg) (auto simp: count_message_wire_bytes_def)
      then show ?thesis using sum_list_append [of "map count_message_wire_bytes (take k w)" "map count_message_wire_bytes (drop k w)"]
        by (simp flip: map_append)
    qed
    ultimately have size: "count_message_wire_bytes body \<le> bl" using trim_end_size [of "concat (take k w)"] wl(2) by (simp add: body_def)
    have small_rest: "\<forall>c \<in> set (drop n chars). count_message_wire_bytes c \<le> 4" using 1(3) by (auto dest: in_set_dropD)
    have IH: "(\<forall>i < length rest. count_message_wire_bytes (rest ! i) + prefix_len \<le> limit) \<and> visible (concat rest) = visible (concat (drop n chars))"
      using 1(1) [OF 3(1) bl_def _ 3(2) wl_def w_def k_def body_def] 1(4,5) pieces_drop [OF 1(2), of n] bl
        small_rest by (simp add: rest_def n_def split: if_splits)
    have kw: "take k w = take k chars" using k by (auto simp: w_def min_def)
    have "visible (concat (drop k chars)) = visible (concat (drop n chars))"
      using k wl(1) Cons_nth_drop_Suc [of k chars] by (auto simp: n_def visible_def is_space_point_def simp flip: Cons_nth_drop_Suc)
    then have "visible (concat chars) = visible body @ visible (concat rest)"
      using append_take_drop_id [of k chars] IH by (metis body_def concat_append kw visible_append visible_trim_end)
    moreover have "count_message_wire_bytes ((body # rest) ! i) + prefix_len + (if i = 0 \<and> is_first then overhead else 0) \<le> limit"
      if "i < length (body # rest)" for i
      using that size IH by (cases i) (auto simp: bl_def)
    ultimately show ?thesis unfolding step by simp
  qed (simp add: chunk_bodies.simps)
qed

lemma chunk_bodies_nonempty:
  "chars \<noteq> [] \<Longrightarrow> 0 < limit - prefix_len - (if is_first then overhead else 0) \<Longrightarrow> chunk_bodies limit prefix_len overhead is_first chars \<noteq> []"
  by (subst chunk_bodies.simps) (auto simp: Let_def)

lemma chunk_prefix_digits:
  "i < 10 \<Longrightarrow> n < 10 \<Longrightarrow> chunk_prefix i n = [91, 48 + i, 47, 48 + n, 93, 32]"
  by (subst chunk_prefix_def, subst (1 2) dec_string.simps) (simp add: u16_def, simp add: code_def)

lemma chunk_prefix_bytes:
  "i < 10 \<Longrightarrow> n < 10 \<Longrightarrow> count_message_wire_bytes (chunk_prefix i n @ body) = 6 + count_message_wire_bytes body"
  using utf8_len_append [of "[91, 48 + i, 47, 48 + n, 93, 32]" body]
  by (simp add: chunk_prefix_digits count_message_wire_bytes_def is_high_def)

lemma max_chunks_prefix: "1 < get_max_chunks protocol \<Longrightarrow> get_max_chunks protocol = 9 \<and> length (chunk_prefix (get_max_chunks protocol) (get_max_chunks protocol)) = 6"
  by (cases protocol) (simp_all add: chunk_prefix_digits)

subsection \<open>Line breaking\<close>

text \<open>
  What a splitter has to do, apart from the loops of the code. A line takes as many characters as fit. If
  the rest fits it is the last line; otherwise the line ends at the last blank or line feed among these
  characters, which is dropped, or else inside a word. \<open>b\<close> is the room on the first line, \<open>b'\<close> on
  the others.
\<close>

definition wire_size :: "utf16 list \<Rightarrow> int" where
  "wire_size cs = sum_list (map count_message_wire_bytes cs)"

definition is_break :: "utf16 \<Rightarrow> bool" where
  "is_break c \<longleftrightarrow> c = [32] \<or> c = [10]"

text \<open>The first \<open>w\<close> characters fit, and no more.\<close>

definition fills :: "int \<Rightarrow> utf16 list \<Rightarrow> nat \<Rightarrow> bool" where
  "fills b cs w \<longleftrightarrow> w < length cs \<and> wire_size (take w cs) \<le> b \<and> b < wire_size (take (Suc w) cs)"

inductive greedy_lines :: "int \<Rightarrow> int \<Rightarrow> utf16 list \<Rightarrow> utf16 list \<Rightarrow> bool" where
  rest_fits: "cs \<noteq> [] \<Longrightarrow> wire_size cs \<le> b \<Longrightarrow> greedy_lines b b' cs [concat cs]"
| at_break: "b < wire_size cs \<Longrightarrow> fills b cs w \<Longrightarrow> 0 < k \<Longrightarrow> k < w \<Longrightarrow> is_break (cs ! k)
    \<Longrightarrow> (\<forall>j. k < j \<and> j < w \<longrightarrow> \<not> is_break (cs ! j)) \<Longrightarrow> greedy_lines b' b' (drop (Suc k) cs) bodies
    \<Longrightarrow> greedy_lines b b' cs (trim_end16 (concat (take k cs)) # bodies)"
| in_word: "b < wire_size cs \<Longrightarrow> fills b cs w \<Longrightarrow> (\<forall>j. 0 < j \<and> j < w \<longrightarrow> \<not> is_break (cs ! j))
    \<Longrightarrow> greedy_lines b' b' (drop w cs) bodies
    \<Longrightarrow> greedy_lines b b' cs (trim_end16 (concat (take w cs)) # bodies)"

inductive_cases greedy_linesE: "greedy_lines b b' cs bodies"

lemma wire_size_take_mono: "m \<le> n \<Longrightarrow> wire_size (take m cs) \<le> wire_size (take n cs)"
proof -
  assume "m \<le> n"
  then have "take n cs = take m cs @ take (n - m) (drop m cs)" by (metis le_add_diff_inverse take_add)
  moreover have "0 \<le> wire_size (take (n - m) (drop m cs))"
    unfolding wire_size_def by (intro sum_list_nonneg) (auto simp: count_message_wire_bytes_def)
  ultimately show ?thesis by (simp add: wire_size_def)
qed

lemma fills_unique: "fills b cs v \<Longrightarrow> fills b cs w \<Longrightarrow> v = w"
  using wire_size_take_mono [of "Suc v" w cs] wire_size_take_mono [of "Suc w" v cs]
  by (cases v w rule: linorder_cases) (auto simp: fills_def)

text \<open>The lines are determined by the text.\<close>

lemma greedy_lines_unique: "greedy_lines b b' cs xs \<Longrightarrow> greedy_lines b b' cs ys \<Longrightarrow> xs = ys"
proof (induction arbitrary: ys rule: greedy_lines.induct)
  case (rest_fits cs b b')
  from rest_fits(3,1,2) show ?case by (cases rule: greedy_lines.cases) auto
next
  case (at_break b cs w k b' bodies)
  from at_break.prems show ?case
  proof (cases rule: greedy_lines.cases)
    case (at_break w2 k2 bodies2)
    have "w2 = w" using fills_unique at_break.hyps(2) at_break(3) \<open>fills b cs w\<close> by blast
    moreover from this have "k2 = k" using at_break \<open>k < w\<close> \<open>is_break (cs ! k)\<close> \<open>\<forall>j. k < j \<and> j < w \<longrightarrow> \<not> is_break (cs ! j)\<close>
      by (metis linorder_neqE_nat)
    ultimately show ?thesis using at_break \<open>\<And>ys. greedy_lines b' b' (drop (Suc k) cs) ys \<Longrightarrow> bodies = ys\<close> by auto
  next
    case (in_word w2 bodies2)
    then show ?thesis using fills_unique \<open>fills b cs w\<close> \<open>k < w\<close> \<open>0 < k\<close> \<open>is_break (cs ! k)\<close> by blast
  qed (use \<open>b < wire_size cs\<close> in auto)
next
  case (in_word b cs w b' bodies)
  from in_word.prems show ?case
  proof (cases rule: greedy_lines.cases)
    case (at_break w2 k2 bodies2)
    then show ?thesis using fills_unique \<open>fills b cs w\<close> \<open>\<forall>j. 0 < j \<and> j < w \<longrightarrow> \<not> is_break (cs ! j)\<close> by blast
  next
    case (in_word w2 bodies2)
    have "w2 = w" using fills_unique in_word(3) \<open>fills b cs w\<close> by blast
    then show ?thesis using in_word \<open>\<And>ys. greedy_lines b' b' (drop w cs) ys \<Longrightarrow> bodies = ys\<close> by auto
  qed (use \<open>b < wire_size cs\<close> in auto)
qed

lemma take_chars_max:
  "take_chars_within chars b bytes n - n < length chars
   \<Longrightarrow> b < bytes + wire_size (take (Suc (take_chars_within chars b bytes n - n)) chars)"
proof (induction chars b bytes n rule: take_chars_within.induct)
  case (2 ch chars b bytes n)
  show ?case
  proof (cases "n > 0 \<and> bytes + count_message_wire_bytes ch > b")
    case True
    then show ?thesis by (simp add: Let_def wire_size_def)
  next
    case False
    from le_Suc_ex [OF take_chars_ge [of "n + 1" chars b "bytes + count_message_wire_bytes ch"]]
    obtain m where m: "take_chars_within chars b (bytes + count_message_wire_bytes ch) (n + 1) = n + 1 + m" by blast
    have "take_chars_within (ch # chars) b bytes n = Suc (n + m)" using False m by (simp add: Let_def)
    then show ?thesis using 2(1) [OF refl False] 2(2) m by (simp add: wire_size_def)
  qed
qed simp

lemma last_break_greatest:
  "last_break w i none = none \<and> (\<forall>j. 0 < j \<and> j \<le> i \<longrightarrow> \<not> is_break (w ! j))
   \<or> 0 < last_break w i none \<and> last_break w i none \<le> i \<and> is_break (w ! last_break w i none)
     \<and> (\<forall>j. last_break w i none < j \<and> j \<le> i \<longrightarrow> \<not> is_break (w ! j))"
  by (induction w i none rule: last_break.induct) (auto simp: is_break_def le_Suc_eq)

lemma chunk_bodies_greedy:
  assumes "pieces chars" "\<forall>c \<in> set chars. count_message_wire_bytes c \<le> 4" "chars \<noteq> []"
    and "0 \<le> overhead" "prefix_len + overhead + 4 \<le> limit"
  shows "greedy_lines (limit - prefix_len - (if is_first then overhead else 0)) (limit - prefix_len) chars
     (chunk_bodies limit prefix_len overhead is_first chars)"
  using assms
proof (induction limit prefix_len overhead is_first chars rule: chunk_bodies.induct)
  case (1 limit prefix_len overhead is_first chars)
  define bl where "bl = limit - prefix_len - (if is_first then overhead else 0)"
  have bl: "4 \<le> bl" using 1(5,6) by (simp add: bl_def)
  have size: "count_message_wire_bytes (concat chars) = wire_size chars" using wire_bytes_concat [OF 1(2)] by (simp add: wire_size_def)
  show ?case
  proof (cases "wire_size chars \<le> bl")
    case True
    then have "chunk_bodies limit prefix_len overhead is_first chars = [concat chars]"
      using bl 1(4) size by (subst chunk_bodies.simps) (simp add: bl_def [symmetric] Let_def)
    then show ?thesis using rest_fits [OF 1(4) True] by (simp add: bl_def)
  next
    case False
    define wl where "wl = take_chars_within_byte_budget chars bl"
    define w where "w = take wl chars"
    define k where "k = last_break w (wl - 1) wl"
    define n where "n = (if k = wl then wl else k + 1)"
    define body where "body = trim_end16 (concat (take k w))"
    define rest where "rest = chunk_bodies limit prefix_len overhead False (drop n chars)"
    have step: "chunk_bodies limit prefix_len overhead is_first chars = body # rest"
      using 1(4) False size bl unfolding body_def rest_def n_def k_def w_def wl_def bl_def by (subst chunk_bodies.simps) (simp add: Let_def)
    have "\<forall>c \<in> set chars. count_message_wire_bytes c \<le> bl" using 1(3) bl by fastforce
    then have wl: "wl \<le> length chars" "wire_size (take wl chars) \<le> bl" "0 < wl"
      using take_chars_fit [of 0 bl 0 chars] bl take_chars_pos [OF 1(4)]
      by (auto simp: wl_def wire_size_def take_chars_within_byte_budget_def)
    have lt: "wl < length chars" using wl(1,2) False by (cases "wl = length chars") auto
    have fills: "fills bl chars wl"
      using wl lt take_chars_max [of chars bl 0 0] by (simp add: fills_def wl_def take_chars_within_byte_budget_def)
    have "count_message_wire_bytes (concat chars) \<le> bl \<Longrightarrow> False" using False size by simp
    moreover have k: "k = wl \<and> (\<forall>j. 0 < j \<and> j < wl \<longrightarrow> \<not> is_break (chars ! j))
        \<or> 0 < k \<and> k < wl \<and> is_break (chars ! k) \<and> (\<forall>j. k < j \<and> j < wl \<longrightarrow> \<not> is_break (chars ! j))"
      using last_break_greatest [of w "wl - 1" wl] wl(3) by (auto simp: k_def w_def less_eq_Suc_le)
    have nlt: "n < length chars" using k lt by (auto simp: n_def)
    have small_rest: "\<forall>c \<in> set (drop n chars). count_message_wire_bytes c \<le> 4" using 1(3) by (auto dest: in_set_dropD)
    have IH: "greedy_lines (limit - prefix_len) (limit - prefix_len) (drop n chars) rest"
      using 1(1) [OF 1(4) bl_def _ _ wl_def w_def k_def body_def] pieces_drop [OF 1(2), of n] 1(5,6) bl small_rest nlt False size
      by (simp add: rest_def n_def split: if_splits)
    from k show ?thesis
    proof
      assume "k = wl \<and> (\<forall>j. 0 < j \<and> j < wl \<longrightarrow> \<not> is_break (chars ! j))"
      then show ?thesis unfolding step using in_word [OF _ fills _ , of "limit - prefix_len" rest] IH False
        by (simp add: body_def n_def w_def flip: bl_def)
    next
      assume "0 < k \<and> k < wl \<and> is_break (chars ! k) \<and> (\<forall>j. k < j \<and> j < wl \<longrightarrow> \<not> is_break (chars ! j))"
      then show ?thesis unfolding step using at_break [OF _ fills, of k "limit - prefix_len" rest] IH False
        by (simp add: body_def n_def w_def min_def flip: bl_def)
    qed
  qed
qed


definition split_example :: utf16 where "split_example = u16 ''alpha beta gamma delta''"

lemmas split_ops = split_chat_message_def get_chat_payload_limit_def count_message_wire_bytes_def trim16_def trim_end16_def
  is_space_point_def is_high_def is_low_def take_chars_within_byte_budget_def chunk_prefix_digits Let_def split_example_def u16_def code_def

lemma split_example_chunks:
  "split_chat_message split_example Meshtastic (Some 18) 0 = Some [u16 ''[1/2] alpha beta'', u16 ''[2/2] gamma delta'']"
  by (simp add: split_ops chunk_bodies.simps)


text \<open>
  With a limit of six bytes or less, which a hub may announce, there is no room for a body. The splitter
  then gives the empty list, which stands for a text that fits, and the composer shows no warning.
\<close>

lemma tiny_limit_not_split:
  "split_chat_message split_example Reticulum (Some 6) 0 = Some [] \<and> count_message_wire_bytes (trim16 split_example) > 6"
  by (simp add: split_ops chunk_bodies.simps)

end
