(* ===== verification/Broadcast_Delivery.thy ===== *)
theory Broadcast_Delivery
  imports Broadcast_Scheduler Chat_Limits
begin

text \<open>
  One delivery of a scheduled broadcast (\<^verbatim>\<open>src/renderer/lib/scheduledBroadcasts/deliver.ts\<close>, with
  \<^verbatim>\<open>resolveChannelTarget.ts\<close>, \<^verbatim>\<open>textValidation.ts\<close> and the hub limit of \<^verbatim>\<open>rrcHubLimits.ts\<close>): the enabled targets are
  tried one after another, each at most once and with a single packet. The dependencies of the code are
  a record of functions over a world, which stands for the radios, the stores and the clock; a call
  may throw. The state adds the time of the last MeshCore send, and a log of what was handed to a radio.
\<close>

subsection \<open>Targets and results\<close>

datatype target_kind = MeshtasticChannel | MeshcoreChannel | MeshcoreRoom | RrcRoom

record broadcast_target =
  bt_kind :: target_kind
  bt_identity_id :: string
  bt_label :: string
  bt_enabled :: bool
  bt_channel_index :: "int option"
  bt_channel_key :: "string option"
  bt_room_pub_key_hex :: "string option"
  bt_hub_dest_hash :: "string option"
  bt_room :: "string option"

fun kind_text :: "target_kind \<Rightarrow> string" where
  "kind_text MeshtasticChannel = ''meshtastic-channel''"
| "kind_text MeshcoreChannel = ''meshcore-channel''"
| "kind_text MeshcoreRoom = ''meshcore-room''"
| "kind_text RrcRoom = ''rrc-room''"

text \<open>A target as the typed code reads it from the stored value.\<close>

definition kind_of_text :: "string \<Rightarrow> target_kind" where
  "kind_of_text k =
     (if k = ''meshtastic-channel'' then MeshtasticChannel else if k = ''meshcore-channel'' then MeshcoreChannel
      else if k = ''meshcore-room'' then MeshcoreRoom else RrcRoom)"

definition string_prop :: "js_value \<Rightarrow> string \<Rightarrow> string option" where
  "string_prop v name = (case js_prop v name of JString s \<Rightarrow> Some s | _ \<Rightarrow> None)"

definition target_of :: "js_value \<Rightarrow> broadcast_target" where
  "target_of v =
     \<lparr>bt_kind = kind_of_text (js_to_string (js_prop v ''kind'')), bt_identity_id = js_to_string (js_prop v ''identityId''),
      bt_label = js_to_string (js_prop v ''label''), bt_enabled = (js_prop v ''enabled'' = JBool True),
      bt_channel_index = (case js_prop v ''channelIndex'' of JNumber n \<Rightarrow> Some n | _ \<Rightarrow> None),
      bt_channel_key = string_prop v ''channelKey'', bt_room_pub_key_hex = string_prop v ''roomPubKeyHex'',
      bt_hub_dest_hash = string_prop v ''hubDestHash'', bt_room = string_prop v ''room''\<rparr>"

datatype fail_reason =
    NotConnected | TextTooLong | Deferred | RoomUnknown | RoomLoginRequired | RrcNotConnected | ChannelMissing | SendFailed

fun reason_text :: "fail_reason \<Rightarrow> string" where
  "reason_text NotConnected = ''not-connected''"
| "reason_text TextTooLong = ''text-too-long''"
| "reason_text Deferred = ''deferred''"
| "reason_text RoomUnknown = ''room-unknown''"
| "reason_text RoomLoginRequired = ''room-login-required''"
| "reason_text RrcNotConnected = ''rrc-not-connected''"
| "reason_text ChannelMissing = ''channel-missing''"
| "reason_text SendFailed = ''send-failed''"

datatype attempt = AttemptOk | AttemptFail fail_reason
datatype run_reason = NoTargets | EmptyText

definition target_result :: "broadcast_target \<Rightarrow> attempt \<Rightarrow> js_value" where
  "target_result t a =
     JObject ([(''kind'', JString (kind_text (bt_kind t))), (''label'', JString (bt_label t)), (''ok'', JBool (a = AttemptOk))]
       @ (case a of AttemptOk \<Rightarrow> [] | AttemptFail r \<Rightarrow> [(''reason'', JString (reason_text r))]))"

subsection \<open>The dependencies\<close>

datatype 'a reply = Threw string | Returned 'a

record rrc_hub_room_state =
  rh_active :: bool
  rh_joined :: bool
  rh_max_msg_body_bytes :: "js_number option"

record rrc_send_result =
  rs_ok :: bool
  rs_error :: "string option"

record 'w deliver_deps =
  dd_send_chat :: "string \<Rightarrow> string \<Rightarrow> int \<Rightarrow> 'w \<Rightarrow> string option reply \<times> 'w"
  dd_wait_for_settlement :: "string \<Rightarrow> string \<Rightarrow> int \<Rightarrow> 'w \<Rightarrow> bool reply \<times> 'w"
  dd_send_room_post :: "(int \<Rightarrow> string \<Rightarrow> 'w \<Rightarrow> unit reply \<times> 'w) option"
  dd_send_rrc :: "string \<Rightarrow> string \<Rightarrow> string \<Rightarrow> 'w \<Rightarrow> rrc_send_result reply \<times> 'w"
  dd_get_rrc_hub_room_state :: "string \<Rightarrow> string \<Rightarrow> 'w \<Rightarrow> rrc_hub_room_state"
  dd_join_rrc_room :: "string \<Rightarrow> string \<Rightarrow> 'w \<Rightarrow> bool reply \<times> 'w"
  dd_is_identity_connected :: "string \<Rightarrow> 'w \<Rightarrow> bool"
  dd_resolve_room_node_id :: "string \<Rightarrow> string \<Rightarrow> 'w \<Rightarrow> int option"
  dd_get_sender_display_name :: "string \<Rightarrow> 'w \<Rightarrow> string"
  dd_live_keys :: "chat_protocol \<Rightarrow> 'w \<Rightarrow> (int \<times> string) list option"
  dd_drain_lock :: "chat_protocol \<Rightarrow> 'w \<Rightarrow> 'w"
  dd_text_pacing :: "'w \<Rightarrow> 'w"
  dd_now :: "'w \<Rightarrow> int"
  dd_sleep :: "int \<Rightarrow> 'w \<Rightarrow> 'w"
  dd_gap_ms :: int
  dd_run_max_ms :: int
  dd_settle_timeout_ms :: int

definition SCHEDULED_BROADCAST_TARGET_GAP_MS :: int where "SCHEDULED_BROADCAST_TARGET_GAP_MS = 10 * 1000"
definition SCHEDULED_BROADCAST_RUN_MAX_MS :: int where "SCHEDULED_BROADCAST_RUN_MAX_MS = 5 * (60 * 1000)"
definition SCHEDULED_BROADCAST_CHAT_SETTLE_TIMEOUT_MS :: int where "SCHEDULED_BROADCAST_CHAT_SETTLE_TIMEOUT_MS = 20 * 1000"

record 'w delivery =
  dv_world :: 'w
  dv_last_meshcore_send :: int
  dv_air :: "(target_kind \<times> string) list"

definition call :: "('w \<Rightarrow> 'a \<times> 'w) \<Rightarrow> 'w delivery \<Rightarrow> 'a \<times> 'w delivery" where
  "call f s = (case f (dv_world s) of (a, w) \<Rightarrow> (a, s\<lparr>dv_world := w\<rparr>))"

definition on_world :: "('w \<Rightarrow> 'w) \<Rightarrow> 'w delivery \<Rightarrow> 'w delivery" where
  "on_world f s = s\<lparr>dv_world := f (dv_world s)\<rparr>"

text \<open>A text handed to a radio, for the log.\<close>

definition on_air :: "target_kind \<Rightarrow> string \<Rightarrow> 'w delivery \<Rightarrow> 'w delivery" where
  "on_air kind txt s = s\<lparr>dv_air := dv_air s @ [(kind, txt)]\<rparr>"

definition record_meshcore_send :: "int \<Rightarrow> 'w delivery \<Rightarrow> 'w delivery" where
  "record_meshcore_send now s = s\<lparr>dv_last_meshcore_send := now\<rparr>"

definition MESHCORE_FAST_SEND_WARN_INTERVAL_MS :: int where "MESHCORE_FAST_SEND_WARN_INTERVAL_MS = 5 * 1000"

definition is_meshcore_send_too_fast :: "int \<Rightarrow> 'w delivery \<Rightarrow> bool" where
  "is_meshcore_send_too_fast now s \<longleftrightarrow>
     (if dv_last_meshcore_send s \<le> 0 then False else now - dv_last_meshcore_send s < MESHCORE_FAST_SEND_WARN_INTERVAL_MS)"

subsection \<open>Channels\<close>

fun protocol_for_target :: "target_kind \<Rightarrow> chat_protocol option" where
  "protocol_for_target MeshtasticChannel = Some Meshtastic"
| "protocol_for_target MeshcoreChannel = Some Meshcore"
| "protocol_for_target _ = None"

text \<open>The index of a stored key on the connected radio; an index of \<^verbatim>\<open>Object.entries\<close> that is negative is passed over.\<close>

fun index_of_key :: "string \<Rightarrow> (int \<times> string) list \<Rightarrow> int option" where
  "index_of_key want [] = None"
| "index_of_key want ((i, key) # entries) =
     (if js_lower key = want \<and> i \<ge> 0 then Some i else index_of_key want entries)"

definition resolve_channel_target_index :: "broadcast_target \<Rightarrow> (int \<times> string) list option \<Rightarrow> fail_reason + int" where
  "resolve_channel_target_index t key_by_index =
     (if protocol_for_target (bt_kind t) = None then Inl SendFailed
      else case bt_channel_key t of
        Some (c # cs) \<Rightarrow>
          (case key_by_index of
             Some entries \<Rightarrow> (case index_of_key (js_lower (c # cs)) entries of Some i \<Rightarrow> Inr i | None \<Rightarrow> Inl ChannelMissing)
           | None \<Rightarrow> Inl ChannelMissing)
      | _ \<Rightarrow>
          (case bt_channel_index t of
             None \<Rightarrow> Inl SendFailed
           | Some i \<Rightarrow>
               if i < 0 then Inl SendFailed
               else if key_by_index \<noteq> None \<and> i \<notin> fst ` set (the key_by_index) then Inl ChannelMissing
               else Inr i))"

subsection \<open>Limits of a hub\<close>

definition RRC_TYPICAL_LINK_MDU_BYTES :: int where "RRC_TYPICAL_LINK_MDU_BYTES = 431"
definition RRC_MSG_ENVELOPE_OVERHEAD_BUDGET_BYTES :: int where "RRC_MSG_ENVELOPE_OVERHEAD_BUDGET_BYTES = 96"
definition RRC_FALLBACK_MAX_MSG_BODY_BYTES :: int where
  "RRC_FALLBACK_MAX_MSG_BODY_BYTES = RRC_TYPICAL_LINK_MDU_BYTES - RRC_MSG_ENVELOPE_OVERHEAD_BUDGET_BYTES"

definition normalize_rrc_hub_byte_limit :: "js_number option \<Rightarrow> int option" where
  "normalize_rrc_hub_byte_limit v = (case v of Some (Finite n) \<Rightarrow> if n > 0 then Some n else None | _ \<Rightarrow> None)"

definition resolve_rrc_msg_body_limit :: "js_number option \<Rightarrow> int" where
  "resolve_rrc_msg_body_limit hub_limit =
     (case normalize_rrc_hub_byte_limit hub_limit of Some n \<Rightarrow> n | None \<Rightarrow> RRC_FALLBACK_MAX_MSG_BODY_BYTES)"

text \<open>\<^verbatim>\<open>s.includes(t)\<close>.\<close>

fun js_includes :: "'a list \<Rightarrow> 'a list \<Rightarrow> bool" where
  "js_includes [] t \<longleftrightarrow> t = []"
| "js_includes (c # s) t \<longleftrightarrow> take (length t) (c # s) = t \<or> js_includes s t"

definition is_rrc_dead_session_send_error :: "string \<Rightarrow> bool" where
  "is_rrc_dead_session_send_error message =
     (let lower = js_lower message in js_includes lower ''not connected to an rrc hub'' \<or> js_includes lower ''rrc session not active'')"

subsection \<open>One target\<close>

definition wire_bytes :: "string \<Rightarrow> int" where
  "wire_bytes txt = count_message_wire_bytes (u16 txt)"

definition channel_limit :: "'w deliver_deps \<Rightarrow> broadcast_target \<Rightarrow> 'w delivery \<Rightarrow> int" where
  "channel_limit deps t s =
     (if bt_kind t = MeshtasticChannel then get_composer_payload_limit Meshtastic None None None
      else
        let name = dd_get_sender_display_name deps (bt_identity_id t) (dv_world s) in
        get_composer_payload_limit Meshcore (Some ChannelContext)
          (Some (u16 (if name = [] then replicate MESHCORE_MAX_NAME_LEN (CHR ''x'') else name))) None)"

definition send_channel :: "'w deliver_deps \<Rightarrow> broadcast_target \<Rightarrow> string \<Rightarrow> 'w delivery \<Rightarrow> attempt \<times> 'w delivery" where
  "send_channel deps t txt s =
     (let is_meshtastic = (bt_kind t = MeshtasticChannel);
          protocol = (if is_meshtastic then Meshtastic else Meshcore)
      in if \<not> dd_is_identity_connected deps (bt_identity_id t) (dv_world s) then (AttemptFail NotConnected, s)
         else case resolve_channel_target_index t (dd_live_keys deps protocol (dv_world s)) of
           Inl reason \<Rightarrow> (AttemptFail reason, s)
         | Inr channel_index \<Rightarrow>
             if wire_bytes txt > channel_limit deps t s then (AttemptFail TextTooLong, s)
             else
               let s = (if is_meshtastic then on_world (dd_text_pacing deps) s else s);
                   (reply, s) = call (dd_send_chat deps (bt_identity_id t) txt channel_index) (on_air (bt_kind t) txt s)
               in case reply of
                    Threw e \<Rightarrow> (AttemptFail SendFailed, s)
                  | Returned None \<Rightarrow> (AttemptFail SendFailed, s)
                  | Returned (Some message_id) \<Rightarrow>
                      let (reply, s) = call (dd_wait_for_settlement deps (bt_identity_id t) message_id (dd_settle_timeout_ms deps)) s
                      in case reply of
                           Threw e \<Rightarrow> (AttemptFail SendFailed, s)
                         | Returned False \<Rightarrow> (AttemptFail SendFailed, s)
                         | Returned True \<Rightarrow>
                             (AttemptOk, if is_meshtastic then s else record_meshcore_send (dd_now deps (dv_world s)) s))"

definition send_meshcore_room :: "'w deliver_deps \<Rightarrow> broadcast_target \<Rightarrow> string \<Rightarrow> 'w delivery \<Rightarrow> attempt \<times> 'w delivery" where
  "send_meshcore_room deps t txt s =
     (if \<not> dd_is_identity_connected deps (bt_identity_id t) (dv_world s) then (AttemptFail NotConnected, s)
      else case bt_room_pub_key_hex t of
        Some (c # cs) \<Rightarrow>
          (case dd_resolve_room_node_id deps (bt_identity_id t) (c # cs) (dv_world s) of
             None \<Rightarrow> (AttemptFail RoomUnknown, s)
           | Some room_node_id \<Rightarrow>
               if wire_bytes txt > get_meshcore_room_payload_limit then (AttemptFail TextTooLong, s)
               else case dd_send_room_post deps of
                 None \<Rightarrow> (AttemptFail SendFailed, s)
               | Some send_room_post \<Rightarrow>
                   let (reply, s) = call (send_room_post room_node_id txt) (on_air (bt_kind t) txt s) in
                   case reply of
                     Threw e \<Rightarrow>
                       (AttemptFail (if js_includes e ''Room session expired'' then RoomLoginRequired else SendFailed), s)
                   | Returned _ \<Rightarrow> (AttemptOk, record_meshcore_send (dd_now deps (dv_world s)) s))
      | _ \<Rightarrow> (AttemptFail RoomUnknown, s))"

definition dead_session_reason :: "string \<Rightarrow> fail_reason" where
  "dead_session_reason e = (if is_rrc_dead_session_send_error e then RrcNotConnected else SendFailed)"

definition send_joined_rrc_room :: "'w deliver_deps \<Rightarrow> broadcast_target \<Rightarrow> string \<Rightarrow> string \<Rightarrow> string \<Rightarrow> rrc_hub_room_state \<Rightarrow> 'w delivery
    \<Rightarrow> attempt \<times> 'w delivery" where
  "send_joined_rrc_room deps t hub room txt state s =
     (if wire_bytes txt > resolve_rrc_msg_body_limit (rh_max_msg_body_bytes state) then (AttemptFail TextTooLong, s)
      else
        let (reply, s) = call (dd_send_rrc deps hub room txt) (on_air (bt_kind t) txt s) in
        case reply of
          Threw e \<Rightarrow> (AttemptFail (dead_session_reason e), s)
        | Returned res \<Rightarrow>
            if rs_ok res then (AttemptOk, s)
            else (AttemptFail (dead_session_reason (case rs_error res of None \<Rightarrow> [] | Some e \<Rightarrow> e)), s))"

definition send_rrc_room :: "'w deliver_deps \<Rightarrow> broadcast_target \<Rightarrow> string \<Rightarrow> 'w delivery \<Rightarrow> attempt \<times> 'w delivery" where
  "send_rrc_room deps t txt s =
     (case (bt_hub_dest_hash t, bt_room t) of
        (Some (h # hs), Some (r # rs)) \<Rightarrow>
          let hub = h # hs; room = r # rs; state = dd_get_rrc_hub_room_state deps hub room (dv_world s) in
          if \<not> rh_active state \<or> \<not> rh_joined state then
            let (reply, s) = call (dd_join_rrc_room deps hub room) s;
                joined = (case reply of Threw e \<Rightarrow> False | Returned ok \<Rightarrow> ok);
                state = dd_get_rrc_hub_room_state deps hub room (dv_world s)
            in if \<not> joined \<or> \<not> rh_active state then (AttemptFail RrcNotConnected, s)
               else send_joined_rrc_room deps t hub room txt state s
          else send_joined_rrc_room deps t hub room txt state s
      | _ \<Rightarrow> (AttemptFail RrcNotConnected, s))"

fun drain_protocol_for :: "target_kind \<Rightarrow> chat_protocol" where
  "drain_protocol_for MeshtasticChannel = Meshtastic"
| "drain_protocol_for MeshcoreChannel = Meshcore"
| "drain_protocol_for MeshcoreRoom = Meshcore"
| "drain_protocol_for RrcRoom = Reticulum"

text \<open>The lock is waited for, then the target is tried.\<close>

definition deliver_to_target :: "'w deliver_deps \<Rightarrow> broadcast_target \<Rightarrow> string \<Rightarrow> 'w delivery \<Rightarrow> attempt \<times> 'w delivery" where
  "deliver_to_target deps t txt s =
     (let s = on_world (dd_drain_lock deps (drain_protocol_for (bt_kind t))) s in
      case bt_kind t of
        MeshtasticChannel \<Rightarrow> send_channel deps t txt s
      | MeshcoreChannel \<Rightarrow> send_channel deps t txt s
      | MeshcoreRoom \<Rightarrow> send_meshcore_room deps t txt s
      | RrcRoom \<Rightarrow> send_rrc_room deps t txt s)"

subsection \<open>The run\<close>

definition summarize :: "attempt list \<Rightarrow> string" where
  "summarize results =
     (let ok_count = length (filter (\<lambda>a. a = AttemptOk) results) in
      if ok_count = length results then ''sent''
      else if ok_count > 0 then ''partial''
      else if list_ex (\<lambda>a. a \<notin> AttemptFail ` {NotConnected, Deferred, RrcNotConnected}) results then ''failed'' else ''skipped'')"

text \<open>The loop over the targets; \<open>first\<close> is whether the index is zero.\<close>

fun deliver_loop :: "'w deliver_deps \<Rightarrow> string \<Rightarrow> int \<Rightarrow> bool \<Rightarrow> broadcast_target list \<Rightarrow> 'w delivery \<Rightarrow> attempt list \<times> 'w delivery" where
  "deliver_loop deps txt started_at first [] s = ([], s)"
| "deliver_loop deps txt started_at first (t # ts) s =
     (let s = (if first then s else on_world (dd_sleep deps (dd_gap_ms deps)) s) in
      if dd_now deps (dv_world s) - started_at \<ge> dd_run_max_ms deps
      then (replicate (length (t # ts)) (AttemptFail Deferred), s)
      else
        let (a, s) = deliver_to_target deps t txt s;
            (results, s) = deliver_loop deps txt started_at False ts s
        in (a # results, s))"

definition deliver_scheduled_broadcast ::
    "'w deliver_deps \<Rightarrow> string \<Rightarrow> broadcast_target list \<Rightarrow> 'w delivery \<Rightarrow> (deliver_result \<times> run_reason option) \<times> 'w delivery" where
  "deliver_scheduled_broadcast deps slot_text slot_targets s =
     (let targets = filter bt_enabled slot_targets in
      if targets = [] then ((\<lparr>dr_outcome = ''skipped'', dr_targets = []\<rparr>, Some NoTargets), s)
      else
        let txt = js_trim slot_text in
        if txt = [] then ((\<lparr>dr_outcome = ''skipped'', dr_targets = []\<rparr>, Some EmptyText), s)
        else
          let (results, s) = deliver_loop deps txt (dd_now deps (dv_world s)) True targets s in
          ((\<lparr>dr_outcome = summarize results, dr_targets = map2 target_result targets results\<rparr>, None), s))"

subsection \<open>The check of a text before it is saved\<close>

definition RRC_HUB_BODY_LIMIT :: int where "RRC_HUB_BODY_LIMIT = 1800"

definition validation_limit :: "(string \<Rightarrow> string option) \<Rightarrow> broadcast_target \<Rightarrow> int" where
  "validation_limit long_name t =
     (case bt_kind t of
        MeshcoreRoom \<Rightarrow> get_meshcore_room_payload_limit
      | RrcRoom \<Rightarrow> RRC_HUB_BODY_LIMIT
      | MeshcoreChannel \<Rightarrow>
          let name = (case long_name (bt_identity_id t) of None \<Rightarrow> [] | Some n \<Rightarrow> n) in
          get_composer_payload_limit Meshcore None (Some (u16 (if name = [] then replicate 32 (CHR ''X'') else name))) None
      | MeshtasticChannel \<Rightarrow> get_composer_payload_limit Meshtastic None None None)"

definition validate_broadcast_text_for_targets ::
    "(string \<Rightarrow> string option) \<Rightarrow> string \<Rightarrow> broadcast_target list \<Rightarrow> (target_kind \<times> string \<times> int \<times> int) list" where
  "validate_broadcast_text_for_targets long_name txt targets =
     (let bytes = wire_bytes (js_trim txt) in
      map (\<lambda>t. (bt_kind t, bt_label t, validation_limit long_name t, bytes))
        (filter (\<lambda>t. bt_enabled t \<and> bytes > validation_limit long_name t) targets))"

definition is_broadcast_text_empty :: "string \<Rightarrow> bool" where
  "is_broadcast_text_empty txt \<longleftrightarrow> js_trim txt = []"

subsection \<open>At most one packet per target\<close>

fun radio_limit :: "target_kind \<Rightarrow> int option" where
  "radio_limit MeshtasticChannel = Some 228"
| "radio_limit MeshcoreChannel = Some 158"
| "radio_limit MeshcoreRoom = Some 156"
| "radio_limit RrcRoom = None"

text \<open>
  The hub's view of a room when the code decides on the text: after the lock is taken, and after the
  join if the session was not active or the room not joined.
\<close>

definition hub_room_at :: "'w deliver_deps \<Rightarrow> broadcast_target \<Rightarrow> 'w delivery \<Rightarrow> rrc_hub_room_state" where
  "hub_room_at deps t s =
     (let hub = the (bt_hub_dest_hash t); room = the (bt_room t); w = dd_drain_lock deps Reticulum (dv_world s);
          state = dd_get_rrc_hub_room_state deps hub room w
      in if rh_active state \<and> rh_joined state then state
         else dd_get_rrc_hub_room_state deps hub room (snd (dd_join_rrc_room deps hub room w)))"

text \<open>A radio has a frame of fixed size; a hub announces a limit, or 335 bytes are assumed.\<close>

definition fits_target :: "'w deliver_deps \<Rightarrow> broadcast_target \<Rightarrow> string \<Rightarrow> 'w delivery \<Rightarrow> bool" where
  "fits_target deps t txt s \<longleftrightarrow>
     (case radio_limit (bt_kind t) of
        Some limit \<Rightarrow> wire_bytes txt \<le> limit
      | None \<Rightarrow> rh_active (hub_room_at deps t s) \<and>
          (case rh_max_msg_body_bytes (hub_room_at deps t s) of
             Some (Finite n) \<Rightarrow> wire_bytes txt \<le> (if 0 < n then n else 335)
           | _ \<Rightarrow> wire_bytes txt \<le> 335))"

text \<open>What an attempt, started in a state, and the number of its packets have to do with each other.\<close>

definition attempt_ok :: "'w deliver_deps \<Rightarrow> broadcast_target \<Rightarrow> string \<Rightarrow> 'w delivery \<Rightarrow> attempt \<Rightarrow> nat \<Rightarrow> bool" where
  "attempt_ok deps t txt s a n \<longleftrightarrow>
     n \<le> 1 \<and> (a = AttemptOk \<longrightarrow> n = 1)
     \<and> (a \<in> AttemptFail ` {NotConnected, TextTooLong, Deferred, RoomUnknown, ChannelMissing} \<longrightarrow> n = 0)
     \<and> (n = 1 \<longrightarrow> fits_target deps t txt s)"

definition tried :: "'w deliver_deps \<Rightarrow> broadcast_target \<Rightarrow> string \<Rightarrow> 'w delivery \<Rightarrow> 'w delivery \<Rightarrow> attempt \<times> 'w delivery \<Rightarrow> bool" where
  "tried deps t txt s0 s r \<longleftrightarrow>
     fst r \<noteq> AttemptFail Deferred
     \<and> (\<exists>n. attempt_ok deps t txt s0 (fst r) n \<and> dv_air (snd r) = dv_air s @ replicate n (bt_kind t, txt))"

lemma call_eq: "call f s = (fst (f (dv_world s)), s\<lparr>dv_world := snd (f (dv_world s))\<rparr>)"
  by (simp add: call_def case_prod_beta)

lemma tried_none: "a \<noteq> AttemptOk \<Longrightarrow> a \<noteq> AttemptFail Deferred \<Longrightarrow> dv_air s' = dv_air s \<Longrightarrow> tried deps t txt s0 s (a, s')"
  by (auto simp: tried_def attempt_ok_def intro!: exI [of _ 0])

lemma tried_one:
  "a \<notin> AttemptFail ` {NotConnected, TextTooLong, Deferred, RoomUnknown, ChannelMissing}
   \<Longrightarrow> fits_target deps t txt s0
   \<Longrightarrow> dv_air s' = dv_air s @ [(bt_kind t, txt)] \<Longrightarrow> tried deps t txt s0 s (a, s')"
  by (auto simp: tried_def attempt_ok_def intro!: exI [of _ 1])

lemma channel_limit_max: "bt_kind t = MeshtasticChannel \<Longrightarrow> channel_limit deps t s = 228" "bt_kind t = MeshcoreChannel \<Longrightarrow> channel_limit deps t s \<le> 158"
  by (simp_all add: channel_limit_def get_composer_payload_limit_def get_meshcore_channel_payload_limit_def Let_def
      MESHTASTIC_PAYLOAD_LIMIT_def MESHCORE_WIRE_MAX_def MESHCORE_NAME_SUFFIX_LEN_def count_message_wire_bytes_def)

lemma send_channel_tried:
  assumes "bt_kind t = MeshtasticChannel \<or> bt_kind t = MeshcoreChannel"
  shows "tried deps t txt s0 s (send_channel deps t txt s)"
proof -
  have reason: "r \<noteq> Deferred" if "resolve_channel_target_index t keys = Inl r" for r keys
    using that by (auto simp: resolve_channel_target_index_def split: if_splits option.splits list.splits)
  have fits: "fits_target deps t txt s0" if "\<not> channel_limit deps t s < wire_bytes txt"
    using assms that channel_limit_max [of t deps s] by (auto simp: fits_target_def)
  show ?thesis
    using assms reason fits
    by (elim disjE) (simp_all add: send_channel_def Let_def call_eq on_world_def on_air_def record_meshcore_send_def tried_none tried_one
        split: sum.split reply.split option.split bool.split)
qed

lemma send_meshcore_room_tried:
  assumes "bt_kind t = MeshcoreRoom"
  shows "tried deps t txt s0 s (send_meshcore_room deps t txt s)"
proof -
  have "fits_target deps t txt s0" if "\<not> get_meshcore_room_payload_limit < wire_bytes txt"
    using assms that by (simp add: fits_target_def get_meshcore_room_payload_limit_def MESHCORE_WIRE_MAX_def MESHCORE_ROOM_PUBKEY_PREFIX_LEN_def)
  then show ?thesis
    by (simp add: send_meshcore_room_def Let_def call_eq on_air_def record_meshcore_send_def tried_none tried_one
        split: reply.split option.split list.split)
qed

lemma hub_limit: "resolve_rrc_msg_body_limit v = (case v of Some (Finite n) \<Rightarrow> if 0 < n then n else 335 | _ \<Rightarrow> 335)"
  by (simp add: resolve_rrc_msg_body_limit_def normalize_rrc_hub_byte_limit_def RRC_FALLBACK_MAX_MSG_BODY_BYTES_def
      RRC_TYPICAL_LINK_MDU_BYTES_def RRC_MSG_ENVELOPE_OVERHEAD_BUDGET_BYTES_def split: option.split js_number.split)

lemma send_joined_rrc_room_tried:
  assumes "bt_kind t = RrcRoom" "state = hub_room_at deps t s0" "rh_active state" "dv_air s' = dv_air s"
  shows "tried deps t txt s0 s (send_joined_rrc_room deps t hub room txt state s')"
proof (cases "wire_bytes txt > resolve_rrc_msg_body_limit (rh_max_msg_body_bytes state)")
  case True
  then show ?thesis using assms(4) by (simp add: send_joined_rrc_room_def tried_none)
next
  case False
  then have "fits_target deps t txt s0"
    using assms(1-3) by (auto simp: fits_target_def hub_limit split: option.split js_number.split)
  then show ?thesis
    using False assms(1,4) by (simp add: send_joined_rrc_room_def dead_session_reason_def Let_def call_eq on_air_def tried_one image_iff
        split: reply.split option.split)
qed

lemma send_rrc_room_tried:
  assumes "bt_kind t = RrcRoom"
  shows "tried deps t txt s0 s0 (send_rrc_room deps t txt (on_world (dd_drain_lock deps Reticulum) s0))"
proof -
  let ?w = "dd_drain_lock deps Reticulum (dv_world s0)"
  have given: "x = None \<or> x = Some [] \<or> (\<exists>h hs. x = Some (h # hs))" for x :: "string option"
    by (cases x; cases "the x") auto
  consider h hs r rs where "bt_hub_dest_hash t = Some (h # hs)" "bt_room t = Some (r # rs)"
    | "bt_hub_dest_hash t = None \<or> bt_hub_dest_hash t = Some [] \<or> bt_room t = None \<or> bt_room t = Some []"
    using given [of "bt_hub_dest_hash t"] given [of "bt_room t"] by (elim disjE exE) auto
  then show ?thesis
  proof cases
    case 1
    let ?state = "dd_get_rrc_hub_room_state deps (h # hs) (r # rs) ?w"
    show ?thesis
    proof (cases "rh_active ?state \<and> rh_joined ?state")
      case True
      then show ?thesis using 1 assms
        by (simp add: send_rrc_room_def Let_def on_world_def send_joined_rrc_room_tried hub_room_at_def)
    next
      case False
      let ?w' = "snd (dd_join_rrc_room deps (h # hs) (r # rs) ?w)"
      let ?state' = "dd_get_rrc_hub_room_state deps (h # hs) (r # rs) ?w'"
      have "?state' = hub_room_at deps t s0" using False 1 by (auto simp: hub_room_at_def Let_def)
      then have joined: "tried deps t txt s0 s0 (send_joined_rrc_room deps t (h # hs) (r # rs) txt ?state' (s0\<lparr>dv_world := ?w'\<rparr>))"
        if "rh_active ?state'"
        using that by (intro send_joined_rrc_room_tried [OF assms]) simp_all
      have step: "send_rrc_room deps t txt (on_world (dd_drain_lock deps Reticulum) s0) =
          (if \<not> (case fst (dd_join_rrc_room deps (h # hs) (r # rs) ?w) of Threw e \<Rightarrow> False | Returned ok \<Rightarrow> ok) \<or> \<not> rh_active ?state'
           then (AttemptFail RrcNotConnected, s0\<lparr>dv_world := ?w'\<rparr>)
           else send_joined_rrc_room deps t (h # hs) (r # rs) txt ?state' (s0\<lparr>dv_world := ?w'\<rparr>))"
        using 1 False by (simp add: send_rrc_room_def Let_def on_world_def call_eq)
      show ?thesis unfolding step using joined by (simp add: tried_none)
    qed
  next
    case 2
    then have "send_rrc_room deps t txt (on_world (dd_drain_lock deps Reticulum) s0)
        = (AttemptFail RrcNotConnected, on_world (dd_drain_lock deps Reticulum) s0)"
      by (auto simp: send_rrc_room_def split: option.split list.split)
    then show ?thesis by (simp add: tried_none on_world_def)
  qed
qed

lemma deliver_to_target_tried: "tried deps t txt s s (deliver_to_target deps t txt s)"
proof -
  let ?locked = "on_world (dd_drain_lock deps (drain_protocol_for (bt_kind t))) s"
  have pass: "tried deps t txt s (on_world f s) r \<Longrightarrow> tried deps t txt s s r" for r and f :: "'a \<Rightarrow> 'a"
    by (simp add: tried_def on_world_def)
  show ?thesis
    using pass [OF send_channel_tried [of t deps "txt" s "?locked"]] pass [OF send_meshcore_room_tried [of t deps "txt" s "?locked"]]
      send_rrc_room_tried [of t deps "txt" s]
    by (cases "bt_kind t") (simp_all add: deliver_to_target_def Let_def)
qed

subsection \<open>The whole run\<close>

text \<open>The state in which the turn of a target comes, if no turn before it was deferred.\<close>

fun turn_start :: "'w deliver_deps \<Rightarrow> string \<Rightarrow> broadcast_target list \<Rightarrow> 'w delivery \<Rightarrow> nat \<Rightarrow> 'w delivery" where
  "turn_start deps txt ts s 0 = s"
| "turn_start deps txt ts s (Suc i) =
     on_world (dd_sleep deps (dd_gap_ms deps)) (snd (deliver_to_target deps (ts ! i) txt (turn_start deps txt ts s i)))"

definition out_of_time :: "'w deliver_deps \<Rightarrow> int \<Rightarrow> 'w delivery \<Rightarrow> bool" where
  "out_of_time deps started_at s \<longleftrightarrow> dd_run_max_ms deps \<le> dd_now deps (dv_world s) - started_at"

text \<open>
  The results of a run that starts in \<open>s\<close>: one per target, in their order, with the number of packets
  sent for it. A target is deferred exactly if its turn, or the turn of one before it, came after the
  time limit; any other is tried in its turn.
\<close>

definition run_spec ::
    "'w deliver_deps \<Rightarrow> string \<Rightarrow> int \<Rightarrow> broadcast_target list \<Rightarrow> 'w delivery \<Rightarrow> attempt list \<Rightarrow> nat list \<Rightarrow> bool" where
  "run_spec deps txt t0 ts s results sends \<longleftrightarrow>
     length results = length ts \<and> length sends = length ts
     \<and> (\<forall>i < length ts.
          let now = turn_start deps txt ts s i in
          if \<exists>j \<le> i. out_of_time deps t0 (turn_start deps txt ts s j) then results ! i = AttemptFail Deferred \<and> sends ! i = 0
          else results ! i = fst (deliver_to_target deps (ts ! i) txt now) \<and> results ! i \<noteq> AttemptFail Deferred
            \<and> attempt_ok deps (ts ! i) txt now (results ! i) (sends ! i))"

definition packets :: "string \<Rightarrow> broadcast_target list \<Rightarrow> nat list \<Rightarrow> (target_kind \<times> string) list" where
  "packets txt ts sends = concat (map2 (\<lambda>t n. replicate n (bt_kind t, txt)) ts sends)"

lemma turn_start_Cons:
  "turn_start deps txt (t # ts) s (Suc i) =
   turn_start deps txt ts (on_world (dd_sleep deps (dd_gap_ms deps)) (snd (deliver_to_target deps t txt s))) i"
  by (induction i) simp_all

lemma out_of_time_Suc:
  assumes "\<not> out_of_time deps t0 (turn 0)"
  shows "(\<exists>j \<le> Suc i. out_of_time deps t0 (turn j)) \<longleftrightarrow> (\<exists>j \<le> i. out_of_time deps t0 (turn (Suc j)))"
proof
  assume "\<exists>j \<le> Suc i. out_of_time deps t0 (turn j)"
  then obtain j where "j \<le> Suc i" "out_of_time deps t0 (turn j)" by blast
  with assms show "\<exists>j \<le> i. out_of_time deps t0 (turn (Suc j))" by (cases j) auto
qed auto

lemma run_spec_Cons:
  assumes "\<not> out_of_time deps t0 s" "deliver_to_target deps t txt s = (a, s2)"
    "run_spec deps txt t0 ts (on_world (dd_sleep deps (dd_gap_ms deps)) s2) results sends"
    "attempt_ok deps t txt s a n" "a \<noteq> AttemptFail Deferred"
  shows "run_spec deps txt t0 (t # ts) s (a # results) (n # sends)"
proof -
  let ?next = "on_world (dd_sleep deps (dd_gap_ms deps)) s2"
  have "let now = turn_start deps txt (t # ts) s i in
      if \<exists>j \<le> i. out_of_time deps t0 (turn_start deps txt (t # ts) s j)
      then (a # results) ! i = AttemptFail Deferred \<and> (n # sends) ! i = 0
      else (a # results) ! i = fst (deliver_to_target deps ((t # ts) ! i) txt now) \<and> (a # results) ! i \<noteq> AttemptFail Deferred
        \<and> attempt_ok deps ((t # ts) ! i) txt now ((a # results) ! i) ((n # sends) ! i)" if i: "i < length (t # ts)" for i
  proof (cases i)
    case 0
    then show ?thesis using assms by (simp add: Let_def)
  next
    case (Suc k)
    have turn: "turn_start deps txt (t # ts) s (Suc k) = turn_start deps txt ts ?next k" for k
      unfolding turn_start_Cons assms(2) by simp
    have late: "(\<exists>j \<le> Suc k. out_of_time deps t0 (turn_start deps txt (t # ts) s j))
        \<longleftrightarrow> (\<exists>j \<le> k. out_of_time deps t0 (turn_start deps txt ts ?next j))"
      using out_of_time_Suc [of deps t0 "turn_start deps txt (t # ts) s" k] assms(1) by (simp only: turn turn_start.simps(1) simp_thms)
    have "k < length ts" using i Suc by simp
    then show ?thesis unfolding Suc turn late nth_Cons_Suc using assms(3) unfolding run_spec_def by blast
  qed
  then show ?thesis using assms(3) unfolding run_spec_def by simp
qed

lemma run_spec_deferred:
  "out_of_time deps t0 s \<Longrightarrow> run_spec deps txt t0 ts s (replicate (length ts) (AttemptFail Deferred)) (replicate (length ts) 0)"
  by (auto simp: run_spec_def Let_def intro!: exI [of _ 0])

lemma packets_none: "packets txt ts (replicate (length ts) 0) = []"
  unfolding packets_def by (induction ts) simp_all

lemma deliver_loop_spec:
  "\<exists>sends. run_spec deps txt t0 ts (if first then s else on_world (dd_sleep deps (dd_gap_ms deps)) s)
       (fst (deliver_loop deps txt t0 first ts s)) sends
     \<and> dv_air (snd (deliver_loop deps txt t0 first ts s)) = dv_air s @ packets txt ts sends"
proof (induction ts arbitrary: first s)
  case Nil
  show ?case by (simp add: run_spec_def packets_def)
next
  case (Cons t ts)
  define s1 where "s1 = (if first then s else on_world (dd_sleep deps (dd_gap_ms deps)) s)"
  have air: "dv_air s1 = dv_air s" by (simp add: s1_def on_world_def)
  show ?case
  proof (cases "dd_now deps (dv_world s1) - t0 \<ge> dd_run_max_ms deps")
    case True
    then have "out_of_time deps t0 s1" by (simp add: out_of_time_def)
    with True show ?thesis
      using run_spec_deferred [of deps t0 s1 "txt" "t # ts"] packets_none [of "txt" "t # ts"] air
      by (intro exI [of _ "replicate (length (t # ts)) 0"]) (simp add: s1_def [symmetric] Let_def)
  next
    case False
    obtain a s2 where one: "deliver_to_target deps t txt s1 = (a, s2)" by fastforce
    obtain n where n: "attempt_ok deps t txt s1 a n" "dv_air s2 = dv_air s @ replicate n (bt_kind t, txt)" "a \<noteq> AttemptFail Deferred"
      using deliver_to_target_tried [of deps t "txt" s1] one air by (auto simp: tried_def)
    obtain results s3 where loop: "deliver_loop deps txt t0 False ts s2 = (results, s3)" by fastforce
    obtain sends where sends: "run_spec deps txt t0 ts (on_world (dd_sleep deps (dd_gap_ms deps)) s2) results sends"
        "dv_air s3 = dv_air s2 @ packets txt ts sends"
      using Cons.IH [of False s2] loop by auto
    have "deliver_loop deps txt t0 first (t # ts) s = (a # results, s3)"
      using False by (simp add: s1_def [symmetric] one loop Let_def)
    moreover have "\<not> out_of_time deps t0 s1" using False by (simp add: out_of_time_def)
    ultimately show ?thesis
      using run_spec_Cons [OF _ one sends(1) n(1,3)] sends(2) n(2)
      by (intro exI [of _ "n # sends"]) (simp add: packets_def s1_def [symmetric])
  qed
qed

lemma summarize_cases:
  "summarize results =
     (if list_all (\<lambda>a. a = AttemptOk) results then ''sent'' else if AttemptOk \<in> set results then ''partial''
      else if set results \<subseteq> {AttemptFail NotConnected, AttemptFail Deferred, AttemptFail RrcNotConnected} then ''skipped'' else ''failed'')"
proof -
  have "length (filter (\<lambda>a. a = AttemptOk) rs) = length rs \<longleftrightarrow> list_all (\<lambda>a. a = AttemptOk) rs" for rs
  proof (induction rs)
    case (Cons a rs)
    moreover have "length (filter (\<lambda>a. a = AttemptOk) rs) \<noteq> Suc (length rs)"
      using length_filter_le [of "\<lambda>a. a = AttemptOk" rs] by linarith
    ultimately show ?case by (cases "a = AttemptOk") simp_all
  qed simp
  moreover have "0 < length (filter (\<lambda>a. a = AttemptOk) results) \<longleftrightarrow> AttemptOk \<in> set results"
    by (auto simp: filter_empty_conv)
  moreover have "AttemptOk \<notin> set results \<Longrightarrow>
      list_ex (\<lambda>a. a \<notin> AttemptFail ` {NotConnected, Deferred, RrcNotConnected}) results
      \<longleftrightarrow> \<not> set results \<subseteq> {AttemptFail NotConnected, AttemptFail Deferred, AttemptFail RrcNotConnected}"
    by (auto simp: list_ex_iff)
  ultimately show ?thesis unfolding summarize_def Let_def by simp
qed

text \<open>
  C31: a delivery reports every enabled target once, in order. The run starts with the first target and
  sleeps the gap before each further one. A target is reported as deferred exactly if, when its turn
  or an earlier one came, the time limit of the run had been reached; nothing is sent for it. Every
  other target is tried in its turn, never reported as deferred, and handed at most one packet with the
  whole trimmed text: exactly one when the result is good, none when it was not connected, unknown or
  the text too long for it. A packet fits: 228 bytes for a Meshtastic channel, 158 for a MeshCore
  channel, 156 for a MeshCore room, and for the room of a hub the limit that the hub, active at that
  moment, announces, or 335 bytes. The outcome is "sent" if all results are good, "partial" if some
  are, "skipped" if no target was more than not connected or deferred, and "failed" otherwise. Only a
  run with an empty text or no enabled target reports nothing, and does nothing.
\<close>

theorem delivery_reports_each_target:
  "(let ((r, reason), s') = deliver_scheduled_broadcast deps slot_text slot_targets s; ts = filter bt_enabled slot_targets; txt = js_trim slot_text in
      if ts = [] \<or> txt = [] then dr_targets r = [] \<and> dr_outcome r = ''skipped'' \<and> reason \<noteq> None \<and> s' = s
      else \<exists>results sends. run_spec deps txt (dd_now deps (dv_world s)) ts s results sends
         \<and> dr_targets r = map2 target_result ts results \<and> reason = None
         \<and> dr_outcome r =
             (if list_all (\<lambda>a. a = AttemptOk) results then ''sent'' else if AttemptOk \<in> set results then ''partial''
              else if set results \<subseteq> {AttemptFail NotConnected, AttemptFail Deferred, AttemptFail RrcNotConnected} then ''skipped''
              else ''failed'')
         \<and> dv_air s' = dv_air s @ packets txt ts sends)"
proof -
  let ?ts = "filter bt_enabled slot_targets" and ?txt = "js_trim slot_text"
  let ?run = "deliver_loop deps ?txt (dd_now deps (dv_world s)) True ?ts s"
  show ?thesis
  proof (cases "?ts = [] \<or> ?txt = []")
    case True
    then show ?thesis by (auto simp: deliver_scheduled_broadcast_def Let_def)
  next
    case False
    then have "deliver_scheduled_broadcast deps slot_text slot_targets s =
        ((\<lparr>dr_outcome = summarize (fst ?run), dr_targets = map2 target_result ?ts (fst ?run)\<rparr>, None), snd ?run)"
      by (auto simp: deliver_scheduled_broadcast_def Let_def case_prod_beta)
    then show ?thesis
      using False deliver_loop_spec [of deps ?txt "dd_now deps (dv_world s)" ?ts True s] summarize_cases [of "fst ?run"]
      by (auto simp: Let_def)
  qed
qed

subsection \<open>The table accepts every result\<close>

definition plain_ascii :: "string \<Rightarrow> bool" where
  "plain_ascii s \<longleftrightarrow> list_all (\<lambda>c. 32 \<le> code c \<and> code c \<noteq> 34 \<and> code c \<noteq> 92) s"

lemma latin_unit [simp]: "\<not> is_high (code c)" "\<not> is_low (code c)"
  unfolding is_high_def is_low_def using code_less [of c] by linarith+

lemma json_string_plain: "plain_ascii s \<Longrightarrow> length (json_string (u16 s)) = length s + 2"
proof -
  assume "plain_ascii s"
  then have "concat (map json_char (char_list (u16 s))) = u16 s"
  proof (induction "u16 s" arbitrary: s rule: char_list.induct)
    case (2 u)
    then show ?case by (auto simp: u16_def plain_ascii_def)
  next
    case (3 u v us)
    then obtain c d cs where s: "s = c # d # cs" "u = code c" "v = code d" "us = u16 cs" by (auto simp: u16_def map_eq_Cons_conv)
    then show ?case using 3(2) [of "d # cs"] 3(4) by (simp add: u16_def plain_ascii_def)
  qed (simp_all add: u16_def)
  then show ?thesis by (simp add: json_string_def u16_def)
qed

lemma sep_join_length: "\<forall>x \<in> set xs. length x \<le> b \<Longrightarrow> length (sep_join sep xs) \<le> (b + length sep) * length xs"
  by (induction sep xs rule: sep_join.induct) auto

lemma plain_kind: "plain_ascii (kind_text k)"
  by (cases k) (simp_all add: plain_ascii_def code_def)

lemma plain_reason: "plain_ascii (reason_text r)"
  by (cases r) (simp_all add: plain_ascii_def code_def)

lemma plain_names: "plain_ascii ''kind''" "plain_ascii ''label''" "plain_ascii ''ok''" "plain_ascii ''reason''"
    "plain_ascii ''at''" "plain_ascii ''outcome''" "plain_ascii ''targets''"
  by (simp_all add: plain_ascii_def code_def)

lemma target_result_length:
  assumes "length (bt_label t) \<le> 128"
  shows "length (json_text (target_result t a)) \<le> 850"
proof -
  have label: "length (json_string (u16 (bt_label t))) \<le> 770"
    using json_string_length [of "u16 (bt_label t)"] assms by (simp add: u16_def)
  have kind: "length (kind_text k) \<le> 18" for k by (cases k) simp_all
  have reason: "length (reason_text r) \<le> 19" for r by (cases r) simp_all
  show ?thesis
    using label kind [of "bt_kind t"] reason [of "case a of AttemptFail r \<Rightarrow> r | _ \<Rightarrow> SendFailed"]
    by (cases a) (simp_all add: target_result_def json_string_plain plain_kind plain_reason plain_names u16_def [of "''true''"] u16_def [of "''false''"])
qed

lemma dec_string_length: "n < 10 ^ k \<Longrightarrow> 0 < k \<Longrightarrow> length (dec_string n) \<le> k"
proof (induction k arbitrary: n)
  case (Suc k)
  show ?case
  proof (cases "n < 10")
    case False
    then have "0 < k" using Suc.prems(1) by (cases k) auto
    then show ?thesis using Suc.IH [of "n div 10"] Suc.prems(1) by (subst dec_string.simps) (simp add: False less_mult_imp_div_less mult.commute)
  qed (subst dec_string.simps, simp)
qed simp

lemma result_value_length:
  assumes "0 \<le> at_ms" "at_ms < 10 ^ 20" "outcome \<in> set OUTCOME_SET" "length ts \<le> 8" "\<forall>v \<in> set ts. length (json_text v) \<le> 850"
  shows "length (json_text (result_value at_ms outcome ts)) \<le> LAST_RESULT_JSON_MAX"
proof -
  have "length (sep_join [44] (map json_text ts)) \<le> 851 * length ts"
    using sep_join_length [of "map json_text ts" 850 "[44]"] assms(5) by simp
  moreover have "nat at_ms < 10 ^ 20" using assms(1,2) by (simp add: nat_less_iff)
  then have "length (u16 (int_text at_ms)) \<le> 20"
    using dec_string_length [of "nat at_ms" 20] assms(1) by (simp add: u16_def int_text_def)
  moreover have "length (json_string (u16 outcome)) \<le> 9"
    using assms(3) by (auto simp: OUTCOME_SET_def json_string_plain plain_ascii_def code_def)
  ultimately show ?thesis
    using assms(4) by (simp add: result_value_def json_string_plain plain_names LAST_RESULT_JSON_MAX_def)
qed

lemma validate_target_result_id: "validate_target_result i (target_result t a) = Inr (target_result t a)"
  by (cases "bt_kind t"; cases a)
    (simp_all add: validate_target_result_def is_valid_target_result_stored_def target_result_def KIND_SET_def)

lemma sequence_results_id: "sequence_results (map Inr vs) = Inr vs"
  by (induction vs) simp_all

lemma summarize_outcome: "summarize rs \<in> set OUTCOME_SET"
  by (simp add: summarize_def OUTCOME_SET_def Let_def)

lemma validate_result_id:
  assumes "0 \<le> at_ms" "at_ms < 10 ^ 20" "outcome \<in> set OUTCOME_SET" "length ts \<le> 8" "\<forall>t \<in> set ts. length (bt_label t) \<le> 128"
    "length results = length ts"
  shows "validate_last_result (result_value at_ms outcome (map2 target_result ts results))
    = Inr (result_value at_ms outcome (map2 target_result ts results))"
proof -
  let ?vs = "map2 target_result ts results"
  have "map (\<lambda>(i, t). validate_target_result i t) (enumerate 0 ?vs) = map Inr ?vs"
    by (rule nth_equalityI) (simp_all add: nth_enumerate_eq validate_target_result_id)
  then have seq: "sequence_results (map (\<lambda>(i, t). validate_target_result i t) (enumerate 0 ?vs)) = Inr ?vs"
    by (simp only: sequence_results_id)
  have "length (json_text (result_value at_ms outcome ?vs)) \<le> LAST_RESULT_JSON_MAX"
    using assms target_result_length by (intro result_value_length) (auto dest!: set_zip_leftD)
  then have "\<not> length (json_text (result_value at_ms outcome ?vs)) > LAST_RESULT_JSON_MAX" by simp
  then show ?thesis
    using assms(3,4,6) seq
    by (simp add: validate_last_result_def result_value_def SCHEDULED_BROADCAST_MAX_TARGETS_def Let_def del: json_text.simps)
qed

text \<open>
  C16: The table accepts what a delivery reports, so the result of a broadcast is never lost: for a well
  formed row, whatever the radios and stores do, the result validates and is stored as it is. The largest
  possible text of it, with labels of 128 control characters, keeps below the limit of the column.
\<close>

theorem delivery_result_stored:
  assumes "wf_row row" "0 \<le> at_ms" "at_ms < 10 ^ 20"
  shows "(let r = fst (fst (deliver_scheduled_broadcast deps (sb_text row) (map target_of (sb_targets row)) s));
        v = result_value at_ms (dr_outcome r) (dr_targets r)
      in set_scheduled_broadcast_result True (JNumber (sb_slot row)) (JNumber at_ms) v now db
         = (Inr (), db(sb_slot row := map_option (\<lambda>d. d\<lparr>db_last_attempt_at := Some at_ms, db_last_result_json := Some (Some v),
             db_updated_at := now\<rparr>) (db (sb_slot row)))))"
proof -
  let ?ts = "filter bt_enabled (map target_of (sb_targets row))"
  let ?r = "fst (fst (deliver_scheduled_broadcast deps (sb_text row) (map target_of (sb_targets row)) s))"
  have wf: "1 \<le> sb_slot row" "sb_slot row \<le> SCHEDULED_BROADCAST_SLOT_COUNT" "length (sb_targets row) \<le> 8" "list_all wf_target (sb_targets row)"
    using assms(1) unfolding wf_row_def SCHEDULED_BROADCAST_MAX_TARGETS_def by blast+
  have slot: "assert_slot (JNumber (sb_slot row)) = Inr (sb_slot row)" using wf(1,2) by (simp add: assert_slot_def)
  have few: "length ?ts \<le> 8" by (rule order_trans [OF length_filter_le]) (simp add: wf(3))
  have labels: "\<forall>t \<in> set ?ts. length (bt_label t) \<le> 128"
    using wf(4) by (auto simp: list_all_iff wf_target_def target_of_def)
  obtain ts results where r: "dr_targets ?r = map2 target_result ts results" "length results = length ts" "length ts \<le> 8"
      "\<forall>t \<in> set ts. length (bt_label t) \<le> 128" "dr_outcome ?r \<in> set OUTCOME_SET"
  proof (cases "?ts = [] \<or> js_trim (sb_text row) = []")
    case True
    then have "dr_targets ?r = map2 target_result [] []" "dr_outcome ?r \<in> set OUTCOME_SET"
      by (auto simp: deliver_scheduled_broadcast_def OUTCOME_SET_def Let_def)
    then show ?thesis using that [of "[]" "[]"] by simp
  next
    case False
    let ?results = "fst (deliver_loop deps (js_trim (sb_text row)) (dd_now deps (dv_world s)) True ?ts s)"
    have "?r = \<lparr>dr_outcome = summarize ?results, dr_targets = map2 target_result ?ts ?results\<rparr>"
      using False by (auto simp: deliver_scheduled_broadcast_def Let_def case_prod_beta)
    then have "dr_targets ?r = map2 target_result ?ts ?results" "dr_outcome ?r \<in> set OUTCOME_SET"
      using summarize_outcome by (simp_all only: deliver_result.select_convs)
    moreover have "length ?results = length ?ts"
      using deliver_loop_spec [of deps "js_trim (sb_text row)" "dd_now deps (dv_world s)" ?ts True s] unfolding run_spec_def by blast
    ultimately show ?thesis using that few labels by blast
  qed
  have "validate_last_result (result_value at_ms (dr_outcome ?r) (dr_targets ?r)) = Inr (result_value at_ms (dr_outcome ?r) (dr_targets ?r))"
    using validate_result_id [OF assms(2,3) r(5,3,4,2)] r(1) by simp
  then show ?thesis by (simp add: set_scheduled_broadcast_result_def slot Let_def)
qed

text \<open>A world in which everything is connected and accepted; it is only a clock.\<close>

definition demo_deps :: "int deliver_deps" where
  "demo_deps =
     \<lparr>dd_send_chat = (\<lambda>identity txt i w. (Returned (Some ''m''), w)), dd_wait_for_settlement = (\<lambda>identity m t w. (Returned True, w + 100)),
      dd_send_room_post = None, dd_send_rrc = (\<lambda>hub room txt w. (Returned \<lparr>rs_ok = True, rs_error = None\<rparr>, w)),
      dd_get_rrc_hub_room_state = (\<lambda>hub room w. \<lparr>rh_active = True, rh_joined = True, rh_max_msg_body_bytes = None\<rparr>),
      dd_join_rrc_room = (\<lambda>hub room w. (Returned True, w)), dd_is_identity_connected = (\<lambda>identity w. True),
      dd_resolve_room_node_id = (\<lambda>identity key w. None), dd_get_sender_display_name = (\<lambda>identity w. ''Base''),
      dd_live_keys = (\<lambda>protocol w. None), dd_drain_lock = (\<lambda>protocol w. w), dd_text_pacing = (\<lambda>w. w), dd_now = (\<lambda>w. w),
      dd_sleep = (\<lambda>ms w. w + ms), dd_gap_ms = SCHEDULED_BROADCAST_TARGET_GAP_MS, dd_run_max_ms = SCHEDULED_BROADCAST_RUN_MAX_MS,
      dd_settle_timeout_ms = SCHEDULED_BROADCAST_CHAT_SETTLE_TIMEOUT_MS\<rparr>"

definition demo_row :: broadcast_row where
  "demo_row = (default_row 1 0)\<lparr>sb_text := ''hello'', sb_targets :=
     [JObject [(''kind'', JString ''meshcore-channel''), (''identityId'', JString ''a''), (''label'', JString ''Public''),
        (''enabled'', JBool True), (''channelIndex'', JNumber 0)]]\<rparr>"

definition demo_delivery :: "int \<Rightarrow> int delivery" where
  "demo_delivery now = \<lparr>dv_world = now, dv_last_meshcore_send = 0, dv_air = []\<rparr>"

definition demo_result :: deliver_result where
  "demo_result = fst (fst (deliver_scheduled_broadcast demo_deps (sb_text demo_row) (map target_of (sb_targets demo_row)) (demo_delivery 5000)))"

theorem delivery_result_stored_witness:
  "fst (set_scheduled_broadcast_result True (JNumber 1) (JNumber 5000)
      (result_value 5000 (dr_outcome demo_result) (dr_targets demo_result)) 5000 db_init) = Inr ()"
proof -
  have "wf_row demo_row"
    by (simp add: wf_row_def demo_row_def default_row_def SCHEDULED_BROADCAST_SLOT_COUNT_def SCHEDULED_BROADCAST_LABEL_MAX_def
        SCHEDULED_BROADCAST_TEXT_MAX_def SCHEDULED_BROADCAST_MAX_TARGETS_def TARGETS_JSON_MAX_def INTERVAL_SET_def KIND_SET_def
        wf_target_def wf_target_fields_def json_string_def u16_def code_def is_high_def is_low_def int_text_def dec_string.simps [of 0]) blast
  note stored = delivery_result_stored [OF this, of 5000 demo_deps "demo_delivery 5000" 5000 db_init]
  have "sb_slot demo_row = 1" by (simp add: demo_row_def default_row_def)
  then show ?thesis using stored by (simp add: demo_result_def Let_def)
qed

subsection \<open>The check before saving\<close>

lemma char_list_latin: "char_list (u16 s) = map (\<lambda>c. [code c]) s"
proof (induction s)
  case (Cons c s)
  then show ?case by (cases s) (simp_all add: u16_def)
qed (simp add: u16_def)

lemma utf8_len_replicate: "code c < 128 \<Longrightarrow> utf8_len (map code (replicate n c)) = n"
proof (induction n)
  case (Suc n)
  then show ?case by (cases n) simp_all
qed simp

lemma placeholder_limit:
  assumes "code c < 128" "\<not> is_space_point (code c)"
  shows "get_meshcore_channel_payload_limit (u16 (replicate 32 c)) = 126"
proof -
  have drop: "dropWhile is_space_point (map code (replicate n c)) = map code (replicate n c)" for n
    using assms(2) by (cases n) simp_all
  have "trim16 (u16 (replicate 32 c)) = u16 (replicate 32 c)"
    unfolding trim16_def u16_def drop rev_map rev_replicate by simp
  moreover have "concat (take 32 (map (\<lambda>c. [code c]) (replicate 32 c))) = map code (replicate 32 c)"
    by (simp add: take_map concat_replicate_single)
  ultimately show ?thesis
    using utf8_len_replicate [OF assms(1), of 32]
    by (simp add: get_meshcore_channel_payload_limit_def char_list_latin MESHCORE_MAX_NAME_LEN_def count_message_wire_bytes_def
        MESHCORE_WIRE_MAX_def MESHCORE_NAME_SUFFIX_LEN_def Let_def del: map_replicate)
qed

definition names_known :: "'w deliver_deps \<Rightarrow> 'w \<Rightarrow> (string \<Rightarrow> string option) \<Rightarrow> bool" where
  "names_known deps w long_name \<longleftrightarrow>
     (\<forall>identity. dd_get_sender_display_name deps identity w = (case long_name identity of None \<Rightarrow> [] | Some n \<Rightarrow> n))"

lemma channel_limits_agree:
  assumes "names_known deps (dv_world s) long_name" "bt_kind t = MeshtasticChannel \<or> bt_kind t = MeshcoreChannel"
  shows "channel_limit deps t s = validation_limit long_name t"
proof -
  have "code (CHR ''x'') < 128" "\<not> is_space_point (code (CHR ''x''))" "code (CHR ''X'') < 128" "\<not> is_space_point (code (CHR ''X''))"
    by (simp_all add: code_def is_space_point_def)
  from placeholder_limit [OF this(1,2)] placeholder_limit [OF this(3,4)] show ?thesis
    using assms by (auto simp: channel_limit_def validation_limit_def names_known_def get_composer_payload_limit_def MESHCORE_MAX_NAME_LEN_def Let_def)
qed

text \<open>
  The check of the text before saving and the delivery agree on channels and rooms: a text that passed
  is not refused as too long, if the sender names are the same at both times.
\<close>

theorem checked_text_not_too_long:
  assumes "validate_broadcast_text_for_targets long_name slot_text targets = []" "t \<in> set targets" "bt_enabled t" "bt_kind t \<noteq> RrcRoom"
    "\<And>w. names_known deps w long_name"
  shows "fst (deliver_to_target deps t (js_trim slot_text) s) \<noteq> AttemptFail TextTooLong"
proof -
  have fits: "wire_bytes (js_trim slot_text) \<le> validation_limit long_name t"
    using assms(1-3) by (auto simp: validate_broadcast_text_for_targets_def filter_empty_conv Let_def)
  have reason: "r \<noteq> TextTooLong" if "resolve_channel_target_index t keys = Inl r" for r keys
    using that by (auto simp: resolve_channel_target_index_def split: if_splits option.splits list.splits)
  have channel: "fst (send_channel deps t (js_trim slot_text) s') \<noteq> AttemptFail TextTooLong"
    if "bt_kind t = MeshtasticChannel \<or> bt_kind t = MeshcoreChannel" for s'
    using that fits reason channel_limits_agree [OF assms(5) that]
    by (simp add: send_channel_def Let_def call_eq split: sum.split reply.split option.split bool.split)
  have room: "fst (send_meshcore_room deps t (js_trim slot_text) s') \<noteq> AttemptFail TextTooLong" if "bt_kind t = MeshcoreRoom" for s'
    using that fits by (simp add: send_meshcore_room_def validation_limit_def Let_def call_eq split: reply.split option.split list.split)
  show ?thesis
    using channel room assms(4) by (cases "bt_kind t") (simp_all add: deliver_to_target_def Let_def)
qed

text \<open>
  For a room of a hub they do not: the check takes 1800 bytes, while the delivery takes 335 when the hub has
  announced no limit. A text of 336 bytes passes the check, and every delivery of it fails.
\<close>

lemma hub_limits_disagree:
  "resolve_rrc_msg_body_limit None = 335 \<and> validation_limit long_name (t\<lparr>bt_kind := RrcRoom\<rparr>) = 1800"
  by (simp add: resolve_rrc_msg_body_limit_def normalize_rrc_hub_byte_limit_def RRC_FALLBACK_MAX_MSG_BODY_BYTES_def
      RRC_TYPICAL_LINK_MDU_BYTES_def RRC_MSG_ENVELOPE_OVERHEAD_BUDGET_BYTES_def validation_limit_def RRC_HUB_BODY_LIMIT_def)

end
