(* ===== verification/Promise_Chain.thy ===== *)
theory Promise_Chain
  imports Mesh_Prelude
begin

text \<open>
  Queues built from promises. Many modules keep the promise of the last job and attach the next one to
  it (\<^verbatim>\<open>tail.then(run)\<close>), so the jobs of one chain run one after another. A job waits, is active and is
  settled; it may start when the earlier jobs of its chain are settled. The locale states what a queue
  component does with its jobs, and shows once that the jobs of a chain take turns in order.
\<close>

datatype stage = Waiting | Active | Settled

text \<open>All jobs before position \<open>i\<close> that belong to the chain of job \<open>i\<close> are settled.\<close>

definition in_turn :: "('j \<Rightarrow> stage) \<Rightarrow> ('j \<Rightarrow> 'c) \<Rightarrow> 'j list \<Rightarrow> nat \<Rightarrow> bool" where
  "in_turn stage_of chain_of jobs i \<longleftrightarrow>
     list_all (\<lambda>j. chain_of j = chain_of (jobs ! i) \<longrightarrow> stage_of j = Settled) (take i jobs)"

text \<open>One change of a list of jobs: none, a new waiting job, or one job that has its turn goes on.\<close>

definition job_step :: "('j \<Rightarrow> stage) \<Rightarrow> ('j \<Rightarrow> 'c) \<Rightarrow> 'j list \<Rightarrow> 'j list \<Rightarrow> bool" where
  "job_step stage_of chain_of jobs jobs' \<longleftrightarrow>
     jobs' = jobs
     \<or> (\<exists>j. stage_of j = Waiting \<and> jobs' = jobs @ [j])
     \<or> (\<exists>i j. i < length jobs \<and> chain_of j = chain_of (jobs ! i) \<and> stage_of j \<noteq> Waiting
          \<and> (stage_of (jobs ! i) = Active \<or> stage_of (jobs ! i) = Waiting \<and> in_turn stage_of chain_of jobs i)
          \<and> jobs' = jobs[i := j])"

definition take_turns :: "('j \<Rightarrow> stage) \<Rightarrow> ('j \<Rightarrow> 'c) \<Rightarrow> 'j list \<Rightarrow> bool" where
  "take_turns stage_of chain_of jobs \<longleftrightarrow>
     sorted_wrt (\<lambda>j k. chain_of j = chain_of k \<longrightarrow> stage_of j = Settled \<or> stage_of k = Waiting) jobs"

lemma job_step_refl [simp]: "job_step stage_of chain_of jobs jobs"
  by (simp add: job_step_def)

lemma job_step_append: "stage_of j = Waiting \<Longrightarrow> job_step stage_of chain_of jobs (jobs @ [j])"
  unfolding job_step_def by blast

lemma job_step_update:
  "\<lbrakk>i < length jobs; chain_of j = chain_of (jobs ! i); stage_of j \<noteq> Waiting;
    stage_of (jobs ! i) = Active \<or> stage_of (jobs ! i) = Waiting \<and> in_turn stage_of chain_of jobs i\<rbrakk>
   \<Longrightarrow> job_step stage_of chain_of jobs (jobs[i := j])"
  unfolding job_step_def by blast

lemma in_turn_nth: "in_turn stage_of chain_of jobs i \<Longrightarrow> k < i \<Longrightarrow> i \<le> length jobs \<Longrightarrow> chain_of (jobs ! k) = chain_of (jobs ! i)
    \<Longrightarrow> stage_of (jobs ! k) = Settled"
  by (auto simp: in_turn_def list_all_length)

lemma take_turns_nth:
  "take_turns stage_of chain_of jobs \<Longrightarrow> i < k \<Longrightarrow> k < length jobs \<Longrightarrow> chain_of (jobs ! i) = chain_of (jobs ! k)
   \<Longrightarrow> stage_of (jobs ! i) = Settled \<or> stage_of (jobs ! k) = Waiting"
  by (auto simp: take_turns_def sorted_wrt_iff_nth_less)

lemma one_active:
  assumes "take_turns stage_of chain_of jobs" "i < length jobs" "k < length jobs" "chain_of (jobs ! i) = chain_of (jobs ! k)"
    "stage_of (jobs ! i) = Active" "stage_of (jobs ! k) = Active"
  shows "i = k"
  using take_turns_nth [OF assms(1), of i k] take_turns_nth [OF assms(1), of k i] assms
  by (metis linorder_neqE_nat stage.distinct(1) stage.distinct(5))

lemma take_turns_step:
  assumes "take_turns stage_of chain_of jobs" "job_step stage_of chain_of jobs jobs'"
  shows "take_turns stage_of chain_of jobs'"
proof -
  consider "jobs' = jobs" | j where "stage_of j = Waiting" "jobs' = jobs @ [j]"
    | i j where "i < length jobs" "chain_of j = chain_of (jobs ! i)"
        "stage_of (jobs ! i) = Active \<or> stage_of (jobs ! i) = Waiting \<and> in_turn stage_of chain_of jobs i" "jobs' = jobs[i := j]"
    using assms(2) by (auto simp: job_step_def)
  then show ?thesis
  proof cases
    case 3
    have before: "stage_of (jobs ! k) = Settled" if "k < i" "chain_of (jobs ! k) = chain_of (jobs ! i)" for k
      using 3(1,3) that take_turns_nth [OF assms(1), of k i] in_turn_nth [of stage_of chain_of jobs i k] by auto
    have after: "stage_of (jobs ! k) = Waiting" if "i < k" "k < length jobs" "chain_of (jobs ! k) = chain_of (jobs ! i)" for k
      using 3(3) that take_turns_nth [OF assms(1), of i k] by auto
    show ?thesis
      using assms(1) before after 3(1,2)
      by (auto simp: 3(4) take_turns_def sorted_wrt_iff_nth_less nth_list_update)
  qed (use assms(1) in \<open>auto simp: take_turns_def sorted_wrt_append\<close>)
qed

text \<open>
  A component with such a queue: each of its steps is a change of the list of jobs as above, in the states
  that its invariant and the turns taken so far allow.
\<close>

locale guarded_promise_queue =
  fixes step :: "'e \<Rightarrow> 's \<Rightarrow> 's"
    and jobs :: "'s \<Rightarrow> 'j list"
    and stage_of :: "'j \<Rightarrow> stage"
    and chain_of :: "'j \<Rightarrow> 'c"
    and start :: 's
    and inv :: "'s \<Rightarrow> bool"
  assumes queue_start: "jobs start = []" "inv start"
    and queue_inv: "inv s \<Longrightarrow> take_turns stage_of chain_of (jobs s) \<Longrightarrow> inv (step e s)"
    and queue_steps: "inv s \<Longrightarrow> take_turns stage_of chain_of (jobs s) \<Longrightarrow> job_step stage_of chain_of (jobs s) (jobs (step e s))"
begin

lemma run_turns_inv: "take_turns stage_of chain_of (jobs (fold step es start)) \<and> inv (fold step es start)"
proof (induction es rule: rev_induct)
  case Nil
  show ?case by (simp add: queue_start take_turns_def)
next
  case (snoc e es)
  then show ?case using take_turns_step [OF _ queue_steps] queue_inv by simp
qed

lemmas run_turns = run_turns_inv [THEN conjunct1]

lemma run_one_active:
  assumes "i < length (jobs (fold step es start))" "k < length (jobs (fold step es start))"
    "chain_of (jobs (fold step es start) ! i) = chain_of (jobs (fold step es start) ! k)"
    "stage_of (jobs (fold step es start) ! i) = Active" "stage_of (jobs (fold step es start) ! k) = Active"
  shows "i = k"
  by (rule one_active [OF run_turns assms])

end

text \<open>The queues that check the turn themselves need no invariant.\<close>

locale promise_queue =
  fixes step :: "'e \<Rightarrow> 's \<Rightarrow> 's"
    and jobs :: "'s \<Rightarrow> 'j list"
    and stage_of :: "'j \<Rightarrow> stage"
    and chain_of :: "'j \<Rightarrow> 'c"
    and start :: 's
  assumes no_jobs: "jobs start = []"
    and steps: "job_step stage_of chain_of (jobs s) (jobs (step e s))"

sublocale promise_queue \<subseteq> guarded_promise_queue step jobs stage_of chain_of start "\<lambda>s. True"
  by unfold_locales (simp_all add: no_jobs steps)

end
