(* ===== verification/Room_Login_Queue.thy ===== *)
theory Room_Login_Queue
  imports Promise_Chain Js_Map
begin

text \<open>
  The queue of room logins (\<^verbatim>\<open>src/renderer/lib/meshcoreRoomLoginQueue.ts\<close>): one login at a time, spaced on
  the air, and cancelled by a generation number per room. A job is the function attached to the promise
  chain; its steps are events. The log records, newest first, the requests, the cancellations, the
  logins sent and the times kept as last transmission; the code has no such log.
\<close>

definition MESHCORE_ROOM_SYNC_MIN_MESH_TX_SPACING_MS :: millis where "MESHCORE_ROOM_SYNC_MIN_MESH_TX_SPACING_MS = 60000"

datatype login_outcome = LoginOk | LoginFailed | LoginAborted
datatype login_phase = LoginQueued | LoginSleeping millis | LoginRunning | LoginDone login_outcome

record login_job =
  lj_node :: nat
  lj_gen :: nat
  lj_chain :: nat
  lj_phase :: login_phase

datatype login_log =
    LogRequest nat nat
  | LogCancel nat
  | LogLoginTx nat nat millis
  | LogLoginOk millis

record login_queue =
  lq_jobs :: "login_job list"
  lq_chain :: nat
  lq_active :: "nat option"
  lq_pending :: "nat list"
  lq_gens :: "(nat, nat) jsmap"
  lq_last_tx :: millis
  lq_clock :: millis
  lq_log :: "login_log list"

definition login_init :: login_queue where
  "login_init = \<lparr>lq_jobs = [], lq_chain = 0, lq_active = None, lq_pending = [], lq_gens = [], lq_last_tx = 0, lq_clock = 0, lq_log = []\<rparr>"

definition gen_of :: "nat \<Rightarrow> login_queue \<Rightarrow> nat" where
  "gen_of node s = (case jm_get (lq_gens s) node of None \<Rightarrow> 0 | Some g \<Rightarrow> g)"

definition bump_job_generation :: "nat \<Rightarrow> login_queue \<Rightarrow> login_queue" where
  "bump_job_generation node s = s\<lparr>lq_gens := jm_set node (gen_of node s + 1) (lq_gens s)\<rparr>"

definition is_job_stale :: "login_job \<Rightarrow> login_queue \<Rightarrow> bool" where
  "is_job_stale j s \<longleftrightarrow> jm_get (lq_gens s) (lj_node j) \<noteq> Some (lj_gen j)"

definition set_phase :: "nat \<Rightarrow> login_phase \<Rightarrow> login_queue \<Rightarrow> login_queue" where
  "set_phase i p s = s\<lparr>lq_jobs := (lq_jobs s)[i := (lq_jobs s ! i)\<lparr>lj_phase := p\<rparr>]\<rparr>"

fun login_stage :: "login_phase \<Rightarrow> stage" where
  "login_stage LoginQueued = Waiting"
| "login_stage (LoginSleeping t) = Active"
| "login_stage LoginRunning = Active"
| "login_stage (LoginDone r) = Settled"

abbreviation lj_stage :: "login_job \<Rightarrow> stage" where "lj_stage j \<equiv> login_stage (lj_phase j)"

definition enqueue_room_login :: "nat \<Rightarrow> login_queue \<Rightarrow> login_queue" where
  "enqueue_room_login node s =
     (let s = bump_job_generation node s in
      s\<lparr>lq_pending := (if node \<in> set (lq_pending s) then lq_pending s else lq_pending s @ [node]),
        lq_jobs := lq_jobs s @ [\<lparr>lj_node = node, lj_gen = gen_of node s, lj_chain = lq_chain s, lj_phase = LoginQueued\<rparr>],
        lq_log := LogRequest node (length (lq_jobs s)) # lq_log s\<rparr>)"

text \<open>A job after its wait: \<^verbatim>\<open>throwIfJobStale\<close> and then the login itself.\<close>

definition begin_login :: "nat \<Rightarrow> login_queue \<Rightarrow> login_queue" where
  "begin_login i s =
     (let j = lq_jobs s ! i in
      if is_job_stale j s then set_phase i (LoginDone LoginAborted) s
      else (set_phase i LoginRunning s)\<lparr>lq_log := LogLoginTx (lj_node j) i (lq_clock s) # lq_log s\<rparr>)"

definition start_login_job :: "nat \<Rightarrow> login_queue \<Rightarrow> login_queue" where
  "start_login_job i s =
     (let j = lq_jobs s ! i; s = s\<lparr>lq_pending := filter (\<lambda>n. n \<noteq> lj_node j) (lq_pending s)\<rparr> in
      if is_job_stale j s then set_phase i (LoginDone LoginAborted) s
      else
        let s = s\<lparr>lq_active := Some (lj_node j)\<rparr>;
            wait_ms = (if lq_last_tx s > 0
              then max 0 (MESHCORE_ROOM_SYNC_MIN_MESH_TX_SPACING_MS - (lq_clock s - lq_last_tx s)) else 0)
        in if wait_ms > 0 then set_phase i (LoginSleeping (lq_clock s + wait_ms)) s else begin_login i s)"

text \<open>The end of a slice of the wait, of at most 50 ms.\<close>

definition poll_login_job :: "nat \<Rightarrow> millis \<Rightarrow> login_queue \<Rightarrow> login_queue" where
  "poll_login_job i deadline s =
     (if lq_clock s < deadline \<and> \<not> is_job_stale (lq_jobs s ! i) s then s else begin_login i s)"

definition finish_login :: "nat \<Rightarrow> bool \<Rightarrow> login_queue \<Rightarrow> login_queue" where
  "finish_login i ok s =
     (let s = (if ok then s\<lparr>lq_last_tx := lq_clock s, lq_log := LogLoginOk (lq_clock s) # lq_log s\<rparr> else s);
          s = (if lq_active s = Some (lj_node (lq_jobs s ! i)) then s\<lparr>lq_active := None\<rparr> else s)
      in set_phase i (LoginDone (if ok then LoginOk else LoginFailed)) s)"

definition cancel_room_login :: "nat \<Rightarrow> login_queue \<Rightarrow> login_queue" where
  "cancel_room_login node s = (bump_job_generation node s)\<lparr>lq_log := LogCancel node # lq_log s\<rparr>"

definition dequeue_room_login :: "nat \<Rightarrow> login_queue \<Rightarrow> login_queue" where
  "dequeue_room_login node s = (cancel_room_login node s)\<lparr>lq_pending := filter (\<lambda>n. n \<noteq> node) (lq_pending s)\<rparr>"

definition clear_room_login_queue :: "login_queue \<Rightarrow> login_queue" where
  "clear_room_login_queue s = (fold cancel_room_login (lq_pending s) s)\<lparr>lq_pending := []\<rparr>"

definition reset_room_login_queue :: "login_queue \<Rightarrow> login_queue" where
  "reset_room_login_queue s =
     s\<lparr>lq_chain := lq_chain s + 1, lq_active := None, lq_pending := [], lq_gens := [], lq_last_tx := 0\<rparr>"

definition is_room_login_queued :: "nat \<Rightarrow> login_queue \<Rightarrow> bool" where
  "is_room_login_queued node s \<longleftrightarrow> lq_active s = Some node \<or> node \<in> set (lq_pending s)"

definition room_login_queue_size :: "login_queue \<Rightarrow> nat" where
  "room_login_queue_size s = length (lq_pending s) + (if lq_active s = None then 0 else 1)"

datatype login_event =
    LqEnqueue nat
  | LqDequeue nat
  | LqClear
  | LqReset
  | LqStart nat
  | LqPoll nat
  | LqDone nat bool
  | LqClock millis

fun login_step :: "login_event \<Rightarrow> login_queue \<Rightarrow> login_queue" where
  "login_step (LqEnqueue node) s = enqueue_room_login node s"
| "login_step (LqDequeue node) s = dequeue_room_login node s"
| "login_step LqClear s = clear_room_login_queue s"
| "login_step LqReset s = reset_room_login_queue s"
| "login_step (LqStart i) s =
     (if i < length (lq_jobs s) \<and> lj_phase (lq_jobs s ! i) = LoginQueued \<and> in_turn lj_stage lj_chain (lq_jobs s) i
      then start_login_job i s else s)"
| "login_step (LqPoll i) s =
     (if i < length (lq_jobs s)
      then (case lj_phase (lq_jobs s ! i) of LoginSleeping deadline \<Rightarrow> poll_login_job i deadline s | _ \<Rightarrow> s) else s)"
| "login_step (LqDone i ok) s =
     (if i < length (lq_jobs s) \<and> lj_phase (lq_jobs s ! i) = LoginRunning then finish_login i ok s else s)"
| "login_step (LqClock ms) s = s\<lparr>lq_clock := ms\<rparr>"

definition login_run :: "login_event list \<Rightarrow> login_queue" where
  "login_run es = fold login_step es login_init"

subsection \<open>Jobs take turns\<close>

lemma cancel_jobs: "lq_jobs (cancel_room_login n s) = lq_jobs s" "lq_jobs (fold cancel_room_login ns s) = lq_jobs s"
proof -
  show one: "lq_jobs (cancel_room_login n s) = lq_jobs s" for n s
    by (simp add: cancel_room_login_def bump_job_generation_def)
  show "lq_jobs (fold cancel_room_login ns s) = lq_jobs s" by (induction ns arbitrary: s) (simp_all add: one)
qed

interpretation rlq: promise_queue login_step lq_jobs lj_stage lj_chain login_init
proof
  show "lq_jobs login_init = []" by (simp add: login_init_def)
  show "job_step lj_stage lj_chain (lq_jobs s) (lq_jobs (login_step e s))" for e s
  proof (cases e)
    case (LqStart i)
    then show ?thesis
      by (auto simp: start_login_job_def begin_login_def set_phase_def Let_def intro!: job_step_update)
  next
    case (LqPoll i)
    then show ?thesis
      by (auto simp: poll_login_job_def begin_login_def set_phase_def Let_def intro!: job_step_update split: login_phase.splits)
  next
    case (LqDone i ok)
    then show ?thesis
      by (auto simp: finish_login_def set_phase_def Let_def intro!: job_step_update)
  qed (simp_all add: enqueue_room_login_def dequeue_room_login_def clear_room_login_queue_def reset_room_login_queue_def
      bump_job_generation_def Let_def cancel_jobs job_step_append)
qed

subsection \<open>What is sent\<close>

text \<open>The last request or cancellation of a room, and the last time kept as transmission.\<close>

fun latest_request :: "nat \<Rightarrow> login_log list \<Rightarrow> nat option" where
  "latest_request node [] = None"
| "latest_request node (LogRequest n i # es) = (if n = node then Some i else latest_request node es)"
| "latest_request node (LogCancel n # es) = (if n = node then None else latest_request node es)"
| "latest_request node (e # es) = latest_request node es"

fun last_login :: "login_log list \<Rightarrow> millis" where
  "last_login [] = 0"
| "last_login (LogLoginOk t # es) = t"
| "last_login (e # es) = last_login es"

fun logins_ok :: "login_log list \<Rightarrow> bool" where
  "logins_ok [] = True"
| "logins_ok (LogLoginTx node i t # es) \<longleftrightarrow>
     latest_request node es = Some i
     \<and> (last_login es > 0 \<longrightarrow> last_login es + MESHCORE_ROOM_SYNC_MIN_MESH_TX_SPACING_MS \<le> t) \<and> logins_ok es"
| "logins_ok (e # es) = logins_ok es"

definition job_ok :: "login_queue \<Rightarrow> nat \<Rightarrow> login_job \<Rightarrow> bool" where
  "job_ok s i j \<longleftrightarrow>
     lj_chain j = lq_chain s \<and> lj_gen j \<le> gen_of (lj_node j) s
     \<and> (\<not> is_job_stale j s \<longrightarrow> latest_request (lj_node j) (lq_log s) = Some i)
     \<and> (\<forall>d. lj_phase j = LoginSleeping d \<longrightarrow> lq_last_tx s > 0 \<longrightarrow> lq_last_tx s + MESHCORE_ROOM_SYNC_MIN_MESH_TX_SPACING_MS \<le> d)"

definition queue_ok :: "login_queue \<Rightarrow> bool" where
  "queue_ok s \<longleftrightarrow>
     logins_ok (lq_log s) \<and> lq_last_tx s = last_login (lq_log s) \<and> take_turns lj_stage lj_chain (lq_jobs s)
     \<and> (\<forall>i < length (lq_jobs s). job_ok s i (lq_jobs s ! i))"

lemma queue_okD: "queue_ok s \<Longrightarrow> i < length (lq_jobs s) \<Longrightarrow> job_ok s i (lq_jobs s ! i)"
  by (simp add: queue_ok_def)

lemma job_ok_frame:
  "job_ok s i j \<Longrightarrow> lq_chain t = lq_chain s \<Longrightarrow> lq_gens t = lq_gens s \<Longrightarrow> lq_last_tx t = lq_last_tx s
   \<Longrightarrow> (\<And>n. latest_request n (lq_log t) = latest_request n (lq_log s)) \<Longrightarrow> job_ok t i j"
  by (simp add: job_ok_def is_job_stale_def gen_of_def)

lemma job_ok_phase:
  "job_ok s i j \<Longrightarrow> (\<And>d. p = LoginSleeping d \<Longrightarrow> lq_last_tx s > 0 \<Longrightarrow> lq_last_tx s + MESHCORE_ROOM_SYNC_MIN_MESH_TX_SPACING_MS \<le> d)
   \<Longrightarrow> job_ok s i (j\<lparr>lj_phase := p\<rparr>)"
  by (simp add: job_ok_def is_job_stale_def)

lemma gen_jm_set: "jm_get (jm_set k v m) n = (if n = k then Some v else jm_get m n)"
  by (simp add: jm_get_def jm_set_def update_conv')

text \<open>A higher generation makes every earlier job of the room stale.\<close>

lemma job_ok_bump:
  assumes "job_ok s i j" "lq_chain t = lq_chain s" "lq_gens t = jm_set node (gen_of node s + 1) (lq_gens s)" "lq_last_tx t = lq_last_tx s"
    "\<And>n. n \<noteq> node \<Longrightarrow> latest_request n (lq_log t) = latest_request n (lq_log s)"
  shows "job_ok t i j"
  using assms by (auto simp: job_ok_def is_job_stale_def gen_of_def gen_jm_set split: option.splits)

lemma enqueue_ok:
  assumes "queue_ok s"
  shows "queue_ok (enqueue_room_login node s)"
proof -
  let ?t = "enqueue_room_login node s"
  have t: "lq_chain ?t = lq_chain s" "lq_gens ?t = jm_set node (gen_of node s + 1) (lq_gens s)" "lq_last_tx ?t = lq_last_tx s"
    "lq_log ?t = LogRequest node (length (lq_jobs s)) # lq_log s"
    and jobs: "lq_jobs ?t = lq_jobs s @ [\<lparr>lj_node = node, lj_gen = gen_of node s + 1, lj_chain = lq_chain s, lj_phase = LoginQueued\<rparr>]"
    by (simp_all add: enqueue_room_login_def bump_job_generation_def Let_def gen_of_def gen_jm_set)
  have "job_ok ?t i (lq_jobs ?t ! i)" if "i < length (lq_jobs ?t)" for i
  proof (cases "i < length (lq_jobs s)")
    case True
    then show ?thesis using job_ok_bump [OF queue_okD [OF assms True] t(1-3)] by (simp add: jobs nth_append t(4))
  next
    case False
    then show ?thesis using that by (simp add: jobs nth_append job_ok_def t gen_of_def gen_jm_set)
  qed
  moreover have "take_turns lj_stage lj_chain (lq_jobs ?t)"
    using assms rlq.steps [of s "LqEnqueue node"] by (auto simp: queue_ok_def intro: take_turns_step)
  ultimately show ?thesis using assms by (simp add: queue_ok_def t)
qed

lemma cancel_ok:
  assumes "queue_ok s"
  shows "queue_ok (cancel_room_login node s)"
proof -
  let ?t = "cancel_room_login node s"
  have t: "lq_chain ?t = lq_chain s" "lq_gens ?t = jm_set node (gen_of node s + 1) (lq_gens s)" "lq_last_tx ?t = lq_last_tx s"
    "lq_log ?t = LogCancel node # lq_log s"
    by (simp_all add: cancel_room_login_def bump_job_generation_def)
  show ?thesis
    using assms job_ok_bump [OF queue_okD [OF assms] t(1-3)] by (simp add: queue_ok_def cancel_jobs t)
qed

lemma cancels_ok: "queue_ok s \<Longrightarrow> queue_ok (fold cancel_room_login ns s)"
  by (induction ns arbitrary: s) (simp_all add: cancel_ok)

lemma pending_irrelevant [simp]:
  "queue_ok (s\<lparr>lq_pending := ns\<rparr>) = queue_ok s" "queue_ok (s\<lparr>lq_active := a\<rparr>) = queue_ok s" "queue_ok (s\<lparr>lq_clock := c\<rparr>) = queue_ok s"
  by (simp_all add: queue_ok_def job_ok_def is_job_stale_def gen_of_def)

text \<open>Job \<open>i\<close> has the turn: it is the active job of the chain, or waits for nothing.\<close>

definition has_turn :: "nat \<Rightarrow> login_queue \<Rightarrow> bool" where
  "has_turn i s \<longleftrightarrow> i < length (lq_jobs s)
     \<and> (lj_stage (lq_jobs s ! i) = Active \<or> lj_stage (lq_jobs s ! i) = Waiting \<and> in_turn lj_stage lj_chain (lq_jobs s) i)"

lemma set_phase_ok:
  assumes "queue_ok s" "has_turn i s" "p \<noteq> LoginQueued"
    "\<And>d. p = LoginSleeping d \<Longrightarrow> lq_last_tx s > 0 \<Longrightarrow> lq_last_tx s + MESHCORE_ROOM_SYNC_MIN_MESH_TX_SPACING_MS \<le> d"
  shows "queue_ok (set_phase i p s)"
proof -
  let ?t = "set_phase i p s"
  have t: "lq_chain ?t = lq_chain s" "lq_gens ?t = lq_gens s" "lq_last_tx ?t = lq_last_tx s" "lq_log ?t = lq_log s"
    by (simp_all add: set_phase_def)
  have i: "i < length (lq_jobs s)" using assms(2) by (simp add: has_turn_def)
  have "login_stage p \<noteq> Waiting" using assms(3) by (cases p) simp_all
  then have "job_step lj_stage lj_chain (lq_jobs s) (lq_jobs ?t)"
    unfolding set_phase_def using assms(2) by (auto simp: has_turn_def intro!: job_step_update)
  then have "take_turns lj_stage lj_chain (lq_jobs ?t)" using assms(1) take_turns_step by (auto simp: queue_ok_def)
  moreover have "job_ok ?t k (lq_jobs ?t ! k)" if "k < length (lq_jobs ?t)" for k
  proof (rule job_ok_frame [where s = s])
    have k: "job_ok s k (lq_jobs s ! k)" using queue_okD [OF assms(1)] that by (simp add: set_phase_def)
    show "job_ok s k (lq_jobs ?t ! k)"
      using k job_ok_phase [OF k assms(4)] i by (simp add: set_phase_def nth_list_update)
  qed (simp_all add: t)
  ultimately show ?thesis using assms(1) by (simp add: queue_ok_def t)
qed

lemma login_done_ok: "queue_ok s \<Longrightarrow> has_turn i s \<Longrightarrow> queue_ok (set_phase i (LoginDone r) s)"
  by (rule set_phase_ok) simp_all

lemma begin_login_ok:
  assumes "queue_ok s" "has_turn i s"
    "\<not> is_job_stale (lq_jobs s ! i) s \<Longrightarrow> lq_last_tx s > 0 \<Longrightarrow> lq_last_tx s + MESHCORE_ROOM_SYNC_MIN_MESH_TX_SPACING_MS \<le> lq_clock s"
  shows "queue_ok (begin_login i s)"
proof (cases "is_job_stale (lq_jobs s ! i) s")
  case True
  then show ?thesis using login_done_ok [OF assms(1,2)] by (simp add: begin_login_def Let_def)
next
  case False
  let ?t = "(set_phase i LoginRunning s)\<lparr>lq_log := LogLoginTx (lj_node (lq_jobs s ! i)) i (lq_clock s) # lq_log s\<rparr>"
  have ok: "queue_ok (set_phase i LoginRunning s)" by (rule set_phase_ok [OF assms(1,2)]) simp_all
  have "latest_request (lj_node (lq_jobs s ! i)) (lq_log s) = Some i"
    using queue_okD [OF assms(1)] assms(2) False by (auto simp: has_turn_def job_ok_def)
  then have "queue_ok ?t"
    using ok assms(1) assms(3) [OF False] job_ok_frame [where s = "set_phase i LoginRunning s" and t = ?t]
    by (simp add: queue_ok_def set_phase_def)
  then show ?thesis using False by (simp add: begin_login_def Let_def)
qed

lemma has_turn_frame [simp]: "has_turn i (s\<lparr>lq_pending := ns\<rparr>) = has_turn i s" "has_turn i (s\<lparr>lq_active := a\<rparr>) = has_turn i s"
  by (simp_all add: has_turn_def)

lemma start_login_ok:
  assumes "queue_ok s" "has_turn i s"
  shows "queue_ok (start_login_job i s)"
proof -
  let ?j = "lq_jobs s ! i" and ?s = "s\<lparr>lq_pending := filter (\<lambda>n. n \<noteq> lj_node (lq_jobs s ! i)) (lq_pending s)\<rparr>"
  let ?a = "?s\<lparr>lq_active := Some (lj_node ?j)\<rparr>"
  let ?w = "if lq_last_tx s > 0 then max 0 (MESHCORE_ROOM_SYNC_MIN_MESH_TX_SPACING_MS - (lq_clock s - lq_last_tx s)) else 0"
  have s: "queue_ok ?s" "has_turn i ?s" and a: "queue_ok ?a" "has_turn i ?a" using assms by simp_all
  have "queue_ok (set_phase i (LoginSleeping (lq_clock s + ?w)) ?a)"
    by (rule set_phase_ok [OF a]) simp_all
  moreover have "queue_ok (begin_login i ?a)" if "\<not> ?w > 0"
    by (rule begin_login_ok [OF a]) (use that in \<open>simp split: if_splits\<close>)
  moreover have "start_login_job i s =
      (if is_job_stale ?j ?s then set_phase i (LoginDone LoginAborted) ?s
       else if ?w > 0 then set_phase i (LoginSleeping (lq_clock s + ?w)) ?a else begin_login i ?a)"
    unfolding start_login_job_def Let_def by simp
  ultimately show ?thesis using login_done_ok [OF s, of LoginAborted] by presburger
qed

lemma poll_login_ok:
  assumes "queue_ok s" "has_turn i s" "lj_phase (lq_jobs s ! i) = LoginSleeping d"
  shows "queue_ok (poll_login_job i d s)"
proof -
  have "lq_last_tx s > 0 \<Longrightarrow> lq_last_tx s + MESHCORE_ROOM_SYNC_MIN_MESH_TX_SPACING_MS \<le> d"
    using queue_okD [OF assms(1)] assms(2,3) by (auto simp: has_turn_def job_ok_def)
  then have "queue_ok (begin_login i s)" if "\<not> (lq_clock s < d \<and> \<not> is_job_stale (lq_jobs s ! i) s)"
    by (intro begin_login_ok [OF assms(1,2)]) (use that in linarith)
  then show ?thesis using assms(1) by (simp add: poll_login_job_def)
qed

lemma finish_login_ok:
  assumes "queue_ok s" "i < length (lq_jobs s)" "lj_phase (lq_jobs s ! i) = LoginRunning"
  shows "queue_ok (finish_login i ok s)"
proof -
  let ?t = "s\<lparr>lq_last_tx := lq_clock s, lq_log := LogLoginOk (lq_clock s) # lq_log s\<rparr>"
  have turns: "take_turns lj_stage lj_chain (lq_jobs s)" using assms(1) by (simp add: queue_ok_def)
  have awake: "lj_phase (lq_jobs s ! k) \<noteq> LoginSleeping d" if k: "k < length (lq_jobs s)" for k d
  proof
    assume sl: "lj_phase (lq_jobs s ! k) = LoginSleeping d"
    have "i = k"
      by (rule one_active [OF turns assms(2) k]) (use queue_okD [OF assms(1)] assms(2,3) k sl in \<open>simp_all add: job_ok_def\<close>)
    then show False using sl assms(3) by simp
  qed
  have "queue_ok ?t" using assms(1) awake by (auto simp: queue_ok_def job_ok_def is_job_stale_def gen_of_def)
  then have u: "queue_ok (if ok then ?t else s)" using assms(1) by simp
  moreover have "has_turn i (if ok then ?t else s)" using assms(2,3) by (simp add: has_turn_def)
  ultimately show ?thesis unfolding finish_login_def Let_def by (intro login_done_ok) simp_all
qed

lemma login_step_ok: "queue_ok s \<Longrightarrow> e \<noteq> LqReset \<Longrightarrow> queue_ok (login_step e s)"
proof (cases e)
  case (LqPoll i)
  assume "queue_ok s"
  then show ?thesis using LqPoll poll_login_ok by (auto simp: has_turn_def split: login_phase.splits)
qed (auto simp: enqueue_ok dequeue_room_login_def clear_room_login_queue_def cancel_ok cancels_ok start_login_ok has_turn_def finish_login_ok)

text \<open>A run without a reset stays on the first chain.\<close>

definition no_reset :: "login_event list \<Rightarrow> bool" where
  "no_reset es \<longleftrightarrow> LqReset \<notin> set es"

lemma login_run_ok: "no_reset es \<Longrightarrow> queue_ok (login_run es)"
proof (induction es rule: rev_induct)
  case Nil
  show ?case by (simp add: login_run_def login_init_def queue_ok_def take_turns_def)
next
  case (snoc e es)
  then show ?case using login_step_ok [of "login_run es" e] by (auto simp: no_reset_def login_run_def)
qed

lemma same_chain_turns:
  "queue_ok s \<Longrightarrow> sorted_wrt (\<lambda>j k. lj_stage j = Settled \<or> lj_stage k = Waiting) (lq_jobs s)"
  by (auto simp: queue_ok_def take_turns_def sorted_wrt_iff_nth_less job_ok_def)

text \<open>
  C15: room logins take turns, keep their distance and respect cancellations. In every run, up to
  the first reset of the queue (after which a cancelled login can come back, see below), whatever the order of requests, cancellations, timers, failures and clock
  changes: a job that has started comes after settled jobs only, so at most one login is under way and
  jobs are served in the order of their requests; and every login that was sent belongs to the last
  request for its room, with no cancellation since, and comes at least a minute after the last
  successful login (unless the clock was not yet positive then).
\<close>

theorem room_logins_in_turn:
  assumes "LqReset \<notin> set es"
  shows "sorted_wrt (\<lambda>j k. lj_stage j = Settled \<or> lj_stage k = Waiting) (lq_jobs (login_run es)) \<and> logins_ok (lq_log (login_run es))"
proof -
  have "queue_ok (login_run es)" by (rule login_run_ok) (use assms in \<open>simp add: no_reset_def\<close>)
  then show ?thesis using same_chain_turns by (simp add: queue_ok_def)
qed

lemmas login_ops = login_init_def enqueue_room_login_def bump_job_generation_def gen_of_def start_login_job_def begin_login_def
  is_job_stale_def set_phase_def poll_login_job_def finish_login_def dequeue_room_login_def cancel_room_login_def
  reset_room_login_queue_def in_turn_def MESHCORE_ROOM_SYNC_MIN_MESH_TX_SPACING_MS_def jm_get_def jm_set_def Let_def

text \<open>The second login waits for a minute after the first.\<close>

theorem room_logins_in_turn_witness:
  "logins_ok (lq_log (login_run [LqEnqueue 1, LqClock 5000, LqStart 0, LqDone 0 True, LqEnqueue 2, LqStart 1, LqClock 65000, LqPoll 1]))
   \<and> lq_log (login_run [LqEnqueue 1, LqClock 5000, LqStart 0, LqDone 0 True, LqEnqueue 2, LqStart 1, LqClock 65000, LqPoll 1])
      = [LogLoginTx 2 1 65000, LogRequest 2 1, LogLoginOk 5000, LogLoginTx 1 0 5000, LogRequest 1 0]"
proof
  show "logins_ok (lq_log (login_run [LqEnqueue 1, LqClock 5000, LqStart 0, LqDone 0 True, LqEnqueue 2, LqStart 1, LqClock 65000, LqPoll 1]))"
    using room_logins_in_turn [of "[LqEnqueue 1, LqClock 5000, LqStart 0, LqDone 0 True, LqEnqueue 2, LqStart 1, LqClock 65000, LqPoll 1]"]
    by simp
qed (simp add: login_run_def login_ops)

subsection \<open>Cancelled waits and resets\<close>

text \<open>
  A job that is cancelled while it waits for its turn on the air has already made its room the active
  one, and leaves it so: no job is left, but the room still counts as queued.
\<close>

lemma cancelled_wait_stays_active:
  "let s = login_run [LqEnqueue 1, LqClock 5000, LqStart 0, LqDone 0 True, LqEnqueue 2, LqStart 1, LqDequeue 2, LqPoll 1]
   in list_all (\<lambda>j. lj_stage j = Settled) (lq_jobs s) \<and> is_room_login_queued 2 s \<and> room_login_queue_size s = 1"
  by (simp add: login_run_def login_ops is_room_login_queued_def room_login_queue_size_def)

text \<open>
  A reset forgets the generations, so they start again from one: a job that was pending before the
  reset is taken for the request made after it, and both logins are sent, at the same time.
\<close>

lemma reset_revives_cancelled_login:
  "let s = login_run [LqEnqueue 1, LqStart 0, LqEnqueue 2, LqReset, LqEnqueue 2, LqDone 0 True, LqStart 1, LqStart 2]
   in map lj_node (filter (\<lambda>j. lj_phase j = LoginRunning) (lq_jobs s)) = [2, 2]"
  by (simp add: login_run_def login_ops)

end
