(* ===== verification/Repeater_Rpc.thy ===== *)
theory Repeater_Rpc
  imports Promise_Chain Js_Map Js_String
begin

text \<open>
  Requests to repeaters in flight (\<^verbatim>\<open>src/renderer/lib/meshcoreRepeaterRpcInFlight.ts\<close>): equal requests
  share one promise, administrative requests of one node run one after another, and so do all traces.
  A job is the request attached to its chain; the maps hold the number of a job where the code holds
  its promise.
\<close>

datatype rpc_kind = Neighbors | Telemetry | Status | Trace | Cli
datatype rpc_phase = RpcQueued | RpcRunning | RpcDone bool

fun rpc_kind_name :: "rpc_kind \<Rightarrow> string" where
  "rpc_kind_name Neighbors = ''neighbors''"
| "rpc_kind_name Telemetry = ''telemetry''"
| "rpc_kind_name Status = ''status''"
| "rpc_kind_name Trace = ''trace''"
| "rpc_kind_name Cli = ''cli''"

definition rpc_key :: "rpc_kind \<Rightarrow> nat \<Rightarrow> string option \<Rightarrow> string" where
  "rpc_key kind node coalesce_key =
     rpc_kind_name kind @ '':'' @ dec_string node
       @ (case coalesce_key of None \<Rightarrow> [] | Some c \<Rightarrow> if c = [] then [] else '':'' @ c)"

text \<open>The chain of a job: the reset it was made after, and the node unless it is a trace.\<close>

record rpc_job =
  rj_kind :: rpc_kind
  rj_node :: nat
  rj_key :: string
  rj_chain :: "nat \<times> nat option"
  rj_phase :: rpc_phase

record repeater_rpc =
  rp_jobs :: "rpc_job list"
  rp_resets :: nat
  rp_in_flight :: "(string, nat) jsmap"
  rp_trace_in_flight :: "(string, nat) jsmap"
  rp_trace_count :: "(nat, int) jsmap"
  rp_cli_hold :: nat

definition rpc_init :: repeater_rpc where
  "rpc_init = \<lparr>rp_jobs = [], rp_resets = 0, rp_in_flight = [], rp_trace_in_flight = [], rp_trace_count = [], rp_cli_hold = 0\<rparr>"

fun rpc_stage :: "rpc_phase \<Rightarrow> stage" where
  "rpc_stage RpcQueued = Waiting"
| "rpc_stage RpcRunning = Active"
| "rpc_stage (RpcDone ok) = Settled"

abbreviation rj_stage :: "rpc_job \<Rightarrow> stage" where "rj_stage j \<equiv> rpc_stage (rj_phase j)"

text \<open>\<^verbatim>\<open>nodeId >>> 0\<close>; the keys keep the number as it is.\<close>

definition normalized_id :: "nat \<Rightarrow> nat" where
  "normalized_id node = node mod 4294967296"

definition trace_count :: "nat \<Rightarrow> repeater_rpc \<Rightarrow> int" where
  "trace_count node s = (case jm_get (rp_trace_count s) node of None \<Rightarrow> 0 | Some n \<Rightarrow> n)"

definition run_trace_rpc_once :: "nat \<Rightarrow> string option \<Rightarrow> repeater_rpc \<Rightarrow> nat \<times> repeater_rpc" where
  "run_trace_rpc_once node coalesce_key s =
     (let key = rpc_key Trace node coalesce_key in
      case jm_get (rp_trace_in_flight s) key of
        Some i \<Rightarrow> (i, s)
      | None \<Rightarrow>
          let i = length (rp_jobs s); normalized = normalized_id node in
          (i, s\<lparr>rp_jobs := rp_jobs s @ [\<lparr>rj_kind = Trace, rj_node = node, rj_key = key, rj_chain = (rp_resets s, None), rj_phase = RpcQueued\<rparr>],
                rp_trace_count := jm_set normalized (trace_count normalized s + 1) (rp_trace_count s),
                rp_trace_in_flight := jm_set key i (rp_trace_in_flight s)\<rparr>))"

definition run_admin_rpc_once :: "rpc_kind \<Rightarrow> nat \<Rightarrow> string option \<Rightarrow> repeater_rpc \<Rightarrow> nat \<times> repeater_rpc" where
  "run_admin_rpc_once kind node coalesce_key s =
     (let key = rpc_key kind node coalesce_key in
      case jm_get (rp_in_flight s) key of
        Some i \<Rightarrow> (i, s)
      | None \<Rightarrow>
          let i = length (rp_jobs s) in
          (i, s\<lparr>rp_jobs := rp_jobs s @ [\<lparr>rj_kind = kind, rj_node = node, rj_key = key, rj_chain = (rp_resets s, Some node), rj_phase = RpcQueued\<rparr>],
                rp_in_flight := jm_set key i (rp_in_flight s)\<rparr>))"

definition run_repeater_rpc_once :: "rpc_kind \<Rightarrow> nat \<Rightarrow> string option \<Rightarrow> repeater_rpc \<Rightarrow> nat \<times> repeater_rpc" where
  "run_repeater_rpc_once kind node coalesce_key s =
     (if kind = Trace then run_trace_rpc_once node coalesce_key s else run_admin_rpc_once kind node coalesce_key s)"

text \<open>The \<^verbatim>\<open>finally\<close> of a job.\<close>

definition release_rpc :: "nat \<Rightarrow> rpc_job \<Rightarrow> repeater_rpc \<Rightarrow> repeater_rpc" where
  "release_rpc i j s =
     (if rj_kind j = Trace then
        let s = (if jm_get (rp_trace_in_flight s) (rj_key j) = Some i
              then s\<lparr>rp_trace_in_flight := jm_delete (rj_key j) (rp_trace_in_flight s)\<rparr> else s);
            normalized = normalized_id (rj_node j);
            next_count = (case jm_get (rp_trace_count s) normalized of None \<Rightarrow> 1 | Some n \<Rightarrow> n) - 1
        in s\<lparr>rp_trace_count := (if next_count \<le> 0 then jm_delete normalized (rp_trace_count s)
               else jm_set normalized next_count (rp_trace_count s))\<rparr>
      else if jm_get (rp_in_flight s) (rj_key j) = Some i
      then s\<lparr>rp_in_flight := jm_delete (rj_key j) (rp_in_flight s)\<rparr> else s)"

definition set_rpc_phase :: "nat \<Rightarrow> rpc_phase \<Rightarrow> repeater_rpc \<Rightarrow> repeater_rpc" where
  "set_rpc_phase i p s = s\<lparr>rp_jobs := (rp_jobs s)[i := (rp_jobs s ! i)\<lparr>rj_phase := p\<rparr>]\<rparr>"

text \<open>A trace fails at once while a command line reply is awaited.\<close>

definition start_rpc :: "nat \<Rightarrow> repeater_rpc \<Rightarrow> repeater_rpc" where
  "start_rpc i s =
     (let j = rp_jobs s ! i in
      if rj_kind j = Trace \<and> rp_cli_hold s > 0 then release_rpc i j (set_rpc_phase i (RpcDone False) s)
      else set_rpc_phase i RpcRunning s)"

definition finish_rpc :: "nat \<Rightarrow> bool \<Rightarrow> repeater_rpc \<Rightarrow> repeater_rpc" where
  "finish_rpc i ok s = release_rpc i (rp_jobs s ! i) (set_rpc_phase i (RpcDone ok) s)"

definition begin_cli_reply_hold :: "repeater_rpc \<Rightarrow> repeater_rpc" where
  "begin_cli_reply_hold s = s\<lparr>rp_cli_hold := rp_cli_hold s + 1\<rparr>"

definition end_cli_reply_hold :: "repeater_rpc \<Rightarrow> repeater_rpc" where
  "end_cli_reply_hold s = s\<lparr>rp_cli_hold := rp_cli_hold s - 1\<rparr>"

definition cli_reply_hold_active :: "repeater_rpc \<Rightarrow> bool" where
  "cli_reply_hold_active s \<longleftrightarrow> rp_cli_hold s > 0"

definition reset_rpc_in_flight :: "repeater_rpc \<Rightarrow> repeater_rpc" where
  "reset_rpc_in_flight s =
     s\<lparr>rp_resets := rp_resets s + 1, rp_in_flight := [], rp_trace_in_flight := [], rp_trace_count := [], rp_cli_hold := 0\<rparr>"

definition trace_active_for_node :: "nat \<Rightarrow> repeater_rpc \<Rightarrow> bool" where
  "trace_active_for_node node s \<longleftrightarrow> trace_count (normalized_id node) s > 0"

text \<open>The traces that wait for their data are counted by another module, an argument here.\<close>

definition companion_repeater_rf_busy :: "nat \<Rightarrow> repeater_rpc \<Rightarrow> bool" where
  "companion_repeater_rf_busy responses s \<longleftrightarrow>
     rp_cli_hold s > 0 \<or> length (rp_in_flight s) > 0 \<or> length (rp_trace_in_flight s) > 0 \<or> responses > 0"

datatype rpc_event =
    RpcCall rpc_kind nat "string option"
  | RpcStart nat
  | RpcFinish nat bool
  | RpcHold
  | RpcUnhold
  | RpcReset

fun rpc_step :: "rpc_event \<Rightarrow> repeater_rpc \<Rightarrow> repeater_rpc" where
  "rpc_step (RpcCall kind node coalesce_key) s = snd (run_repeater_rpc_once kind node coalesce_key s)"
| "rpc_step (RpcStart i) s =
     (if i < length (rp_jobs s) \<and> rj_phase (rp_jobs s ! i) = RpcQueued \<and> in_turn rj_stage rj_chain (rp_jobs s) i
      then start_rpc i s else s)"
| "rpc_step (RpcFinish i ok) s =
     (if i < length (rp_jobs s) \<and> rj_phase (rp_jobs s ! i) = RpcRunning then finish_rpc i ok s else s)"
| "rpc_step RpcHold s = begin_cli_reply_hold s"
| "rpc_step RpcUnhold s = end_cli_reply_hold s"
| "rpc_step RpcReset s = reset_rpc_in_flight s"

definition rpc_run :: "rpc_event list \<Rightarrow> repeater_rpc" where
  "rpc_run es = fold rpc_step es rpc_init"

subsection \<open>Jobs take turns\<close>

lemma release_jobs [simp]: "rp_jobs (release_rpc i j s) = rp_jobs s" "rp_resets (release_rpc i j s) = rp_resets s"
  by (simp_all add: release_rpc_def Let_def)

interpretation rpcq: promise_queue rpc_step rp_jobs rj_stage rj_chain rpc_init
proof
  show "rp_jobs rpc_init = []" by (simp add: rpc_init_def)
  show "job_step rj_stage rj_chain (rp_jobs s) (rp_jobs (rpc_step e s))" for e s
  proof (cases e)
    case (RpcCall kind node c)
    then show ?thesis
      by (auto simp: run_repeater_rpc_once_def run_trace_rpc_once_def run_admin_rpc_once_def Let_def
          intro!: job_step_append split: option.splits)
  next
    case (RpcStart i)
    then show ?thesis by (auto simp: start_rpc_def set_rpc_phase_def Let_def intro!: job_step_update)
  next
    case (RpcFinish i ok)
    then show ?thesis by (auto simp: finish_rpc_def set_rpc_phase_def intro!: job_step_update)
  qed (simp_all add: begin_cli_reply_hold_def end_cli_reply_hold_def reset_rpc_in_flight_def)
qed

subsection \<open>The maps are the requests in flight\<close>

definition in_flight_map :: "(rpc_kind \<Rightarrow> bool) \<Rightarrow> (string, nat) jsmap \<Rightarrow> rpc_job list \<Rightarrow> bool" where
  "in_flight_map P m js \<longleftrightarrow>
     (\<forall>key i. jm_get m key = Some i \<longleftrightarrow>
        i < length js \<and> P (rj_kind (js ! i)) \<and> rj_key (js ! i) = key \<and> rj_stage (js ! i) \<noteq> Settled)"

definition traces_of :: "nat \<Rightarrow> rpc_job list \<Rightarrow> rpc_job list" where
  "traces_of n js = filter (\<lambda>j. rj_kind j = Trace \<and> normalized_id (rj_node j) = n \<and> rj_stage j \<noteq> Settled) js"

definition trace_counts :: "(nat, int) jsmap \<Rightarrow> rpc_job list \<Rightarrow> bool" where
  "trace_counts m js \<longleftrightarrow>
     (\<forall>n. jm_get m n = (if traces_of n js = [] then None else Some (int (length (traces_of n js)))))"

lemma rpc_jm [simp]:
  "jm_get (jm_set k v m) n = (if n = k then Some v else jm_get m n)" "jm_get (jm_delete k m) n = (if n = k then None else jm_get m n)"
  by (simp_all add: jm_get_def jm_set_def jm_delete_def update_conv' delete_conv')

lemma in_flight_mapD:
  "in_flight_map P m js \<Longrightarrow>
   jm_get m key = Some i \<longleftrightarrow> i < length js \<and> P (rj_kind (js ! i)) \<and> rj_key (js ! i) = key \<and> rj_stage (js ! i) \<noteq> Settled"
  by (simp add: in_flight_map_def)

lemma in_flight_mapI:
  "(\<And>key i. jm_get m key = Some i \<longleftrightarrow>
      i < length js \<and> P (rj_kind (js ! i)) \<and> rj_key (js ! i) = key \<and> rj_stage (js ! i) \<noteq> Settled) \<Longrightarrow> in_flight_map P m js"
  by (simp add: in_flight_map_def)

lemma in_flight_add:
  assumes "in_flight_map P m js" "jm_get m (rj_key j) = None" "P (rj_kind j)" "rj_stage j = Waiting"
  shows "in_flight_map P (jm_set (rj_key j) (length js) m) (js @ [j])"
proof (rule in_flight_mapI)
  fix key i
  consider "i < length js" | "i = length js" | "length js < i" by linarith
  then show "jm_get (jm_set (rj_key j) (length js) m) key = Some i \<longleftrightarrow>
      i < length (js @ [j]) \<and> P (rj_kind ((js @ [j]) ! i)) \<and> rj_key ((js @ [j]) ! i) = key \<and> rj_stage ((js @ [j]) ! i) \<noteq> Settled"
    using in_flight_mapD [OF assms(1), of key i] assms(2-) by cases (auto simp: nth_append)
qed

lemma in_flight_add_other:
  assumes "in_flight_map P m js" "\<not> P (rj_kind j)"
  shows "in_flight_map P m (js @ [j])"
proof (rule in_flight_mapI)
  fix key i
  consider "i < length js" | "i = length js" | "length js < i" by linarith
  then show "jm_get m key = Some i \<longleftrightarrow>
      i < length (js @ [j]) \<and> P (rj_kind ((js @ [j]) ! i)) \<and> rj_key ((js @ [j]) ! i) = key \<and> rj_stage ((js @ [j]) ! i) \<noteq> Settled"
    using in_flight_mapD [OF assms(1), of key i] assms(2) by cases (auto simp: nth_append)
qed

lemma in_flight_settle:
  assumes "in_flight_map P m js" "i < length js" "P (rj_kind (js ! i))" "rj_stage (js ! i) \<noteq> Settled"
  shows "jm_get m (rj_key (js ! i)) = Some i"
    and "in_flight_map P (jm_delete (rj_key (js ! i)) m) (js[i := (js ! i)\<lparr>rj_phase := RpcDone ok\<rparr>])"
proof -
  show k: "jm_get m (rj_key (js ! i)) = Some i" using assms by (simp add: in_flight_map_def)
  show "in_flight_map P (jm_delete (rj_key (js ! i)) m) (js[i := (js ! i)\<lparr>rj_phase := RpcDone ok\<rparr>])"
  proof (rule in_flight_mapI)
    fix key l
    let ?js = "js[i := (js ! i)\<lparr>rj_phase := RpcDone ok\<rparr>]"
    show "jm_get (jm_delete (rj_key (js ! i)) m) key = Some l \<longleftrightarrow>
        l < length ?js \<and> P (rj_kind (?js ! l)) \<and> rj_key (?js ! l) = key \<and> rj_stage (?js ! l) \<noteq> Settled"
      using in_flight_mapD [OF assms(1), of key l] assms(2) k by (cases "l = i") auto
  qed
qed

lemma in_flight_phase:
  assumes "in_flight_map P m js" "i < length js" "rpc_stage p \<noteq> Settled \<and> rj_stage (js ! i) \<noteq> Settled \<or> \<not> P (rj_kind (js ! i))"
  shows "in_flight_map P m (js[i := (js ! i)\<lparr>rj_phase := p\<rparr>])"
proof (rule in_flight_mapI)
  fix key l
  let ?js = "js[i := (js ! i)\<lparr>rj_phase := p\<rparr>]"
  show "jm_get m key = Some l \<longleftrightarrow> l < length ?js \<and> P (rj_kind (?js ! l)) \<and> rj_key (?js ! l) = key \<and> rj_stage (?js ! l) \<noteq> Settled"
    using in_flight_mapD [OF assms(1), of key l] assms(2,3) by (cases "l = i") auto
qed

lemma length_filter_update:
  "i < length xs \<Longrightarrow> length (filter P (xs[i := y])) + (if P (xs ! i) then 1 else 0) = length (filter P xs) + (if P y then 1 else 0)"
proof -
  assume i: "i < length xs"
  have "length (filter P xs) = length (filter P (take i xs @ xs ! i # drop (Suc i) xs))"
    using id_take_nth_drop [OF i] by simp
  then show ?thesis using i by (simp add: upd_conv_take_nth_drop)
qed

lemma traces_phase:
  assumes "i < length js"
  shows "length (traces_of n (js[i := (js ! i)\<lparr>rj_phase := p\<rparr>]))
      + (if rj_kind (js ! i) = Trace \<and> normalized_id (rj_node (js ! i)) = n \<and> rj_stage (js ! i) \<noteq> Settled then 1 else 0)
    = length (traces_of n js)
      + (if rj_kind (js ! i) = Trace \<and> normalized_id (rj_node (js ! i)) = n \<and> rpc_stage p \<noteq> Settled then 1 else 0)"
  using length_filter_update [OF assms, of "\<lambda>j. rj_kind j = Trace \<and> normalized_id (rj_node j) = n \<and> rj_stage j \<noteq> Settled"]
  by (simp add: traces_of_def)

lemma trace_counts_length: "trace_counts m js \<Longrightarrow> (\<And>n. length (traces_of n js') = length (traces_of n js)) \<Longrightarrow> trace_counts m js'"
  by (metis length_0_conv trace_counts_def)

definition rpc_ok :: "repeater_rpc \<Rightarrow> bool" where
  "rpc_ok s \<longleftrightarrow>
     in_flight_map (\<lambda>k. k \<noteq> Trace) (rp_in_flight s) (rp_jobs s) \<and> in_flight_map (\<lambda>k. k = Trace) (rp_trace_in_flight s) (rp_jobs s)
     \<and> trace_counts (rp_trace_count s) (rp_jobs s)
     \<and> (\<forall>j \<in> set (rp_jobs s). rj_chain j = (rp_resets s, if rj_kind j = Trace then None else Some (rj_node j)))"

lemma traces_append: "traces_of n (js @ [j]) =
    (if rj_kind j = Trace \<and> normalized_id (rj_node j) = n \<and> rj_stage j \<noteq> Settled then traces_of n js @ [j] else traces_of n js)"
  by (simp add: traces_of_def)

lemma trace_counts_add:
  assumes "trace_counts m js" "rj_kind j = Trace" "rj_stage j = Waiting"
  shows "trace_counts (jm_set (normalized_id (rj_node j))
      ((case jm_get m (normalized_id (rj_node j)) of None \<Rightarrow> 0 | Some n \<Rightarrow> n) + 1) m) (js @ [j])"
  using assms by (auto simp: trace_counts_def traces_append)

lemma trace_run_ok:
  assumes "rpc_ok s"
  shows "rpc_ok (snd (run_trace_rpc_once node c s))"
proof (cases "jm_get (rp_trace_in_flight s) (rpc_key Trace node c)")
  case None
  let ?j = "\<lparr>rj_kind = Trace, rj_node = node, rj_key = rpc_key Trace node c, rj_chain = (rp_resets s, None :: nat option), rj_phase = RpcQueued\<rparr>"
  note books = assms [unfolded rpc_ok_def]
  have 1: "in_flight_map (\<lambda>k. k = Trace) (jm_set (rj_key ?j) (length (rp_jobs s)) (rp_trace_in_flight s)) (rp_jobs s @ [?j])"
    using books None by (intro in_flight_add) auto
  have 2: "in_flight_map (\<lambda>k. k \<noteq> Trace) (rp_in_flight s) (rp_jobs s @ [?j])"
    using books by (intro in_flight_add_other) auto
  have 3: "trace_counts (jm_set (normalized_id node) (trace_count (normalized_id node) s + 1) (rp_trace_count s)) (rp_jobs s @ [?j])"
    using books trace_counts_add [of "rp_trace_count s" "rp_jobs s" ?j] by (simp add: trace_count_def)
  show ?thesis
    using books 1 2 3 None by (simp add: run_trace_rpc_once_def rpc_ok_def Let_def)
qed (simp add: run_trace_rpc_once_def assms)

lemma admin_run_ok:
  assumes "rpc_ok s" "kind \<noteq> Trace"
  shows "rpc_ok (snd (run_admin_rpc_once kind node c s))"
proof (cases "jm_get (rp_in_flight s) (rpc_key kind node c)")
  case None
  let ?j = "\<lparr>rj_kind = kind, rj_node = node, rj_key = rpc_key kind node c, rj_chain = (rp_resets s, Some node), rj_phase = RpcQueued\<rparr>"
  note books = assms(1) [unfolded rpc_ok_def]
  have 1: "in_flight_map (\<lambda>k. k \<noteq> Trace) (jm_set (rj_key ?j) (length (rp_jobs s)) (rp_in_flight s)) (rp_jobs s @ [?j])"
    using books None assms(2) by (intro in_flight_add) auto
  have 2: "in_flight_map (\<lambda>k. k = Trace) (rp_trace_in_flight s) (rp_jobs s @ [?j])"
    using books assms(2) by (intro in_flight_add_other) auto
  have 3: "trace_counts (rp_trace_count s) (rp_jobs s @ [?j])"
    using books assms(2) by (simp add: trace_counts_def traces_append)
  show ?thesis
    using books 1 2 3 None assms(2) by (simp add: run_admin_rpc_once_def rpc_ok_def Let_def)
qed (simp add: run_admin_rpc_once_def assms)

lemma call_ok: "rpc_ok s \<Longrightarrow> rpc_ok (snd (run_repeater_rpc_once kind node c s))"
  by (simp add: run_repeater_rpc_once_def trace_run_ok admin_run_ok)

text \<open>What the map of counts holds for one node after a trace of another node, or of it, has settled.\<close>

lemma trace_counts_settle:
  assumes "trace_counts m js" "i < length js" "rj_kind (js ! i) = Trace" "rj_stage (js ! i) \<noteq> Settled"
  shows "trace_counts
      (let n = normalized_id (rj_node (js ! i)); next = (case jm_get m n of None \<Rightarrow> 1 | Some k \<Rightarrow> k) - 1
       in if next \<le> 0 then jm_delete n m else jm_set n next m)
      (js[i := (js ! i)\<lparr>rj_phase := RpcDone ok\<rparr>])"
proof -
  let ?js = "js[i := (js ! i)\<lparr>rj_phase := RpcDone ok\<rparr>]" and ?n = "normalized_id (rj_node (js ! i))"
  have len: "length (traces_of n js) = length (traces_of n ?js) + (if ?n = n then 1 else 0)" for n
    using traces_phase [OF assms(2), of n "RpcDone ok"] assms(3,4) by (simp split: if_splits)
  have old: "jm_get m n = (if length (traces_of n js) = 0 then None else Some (int (length (traces_of n js))))" for n
    using assms(1) by (simp add: trace_counts_def)
  have "jm_get (let n = ?n; next = (case jm_get m n of None \<Rightarrow> 1 | Some k \<Rightarrow> k) - 1 in if next \<le> 0 then jm_delete n m else jm_set n next m) n
      = (if length (traces_of n ?js) = 0 then None else Some (int (length (traces_of n ?js))))" for n
    using old [of n] old [of ?n] len [of n] len [of ?n] by (cases "n = ?n") (simp_all add: Let_def)
  then show ?thesis by (simp add: trace_counts_def)
qed

lemma settle_ok:
  assumes "rpc_ok s" "i < length (rp_jobs s)" "rj_stage (rp_jobs s ! i) \<noteq> Settled"
  shows "rpc_ok (release_rpc i (rp_jobs s ! i) (set_rpc_phase i (RpcDone ok) s))"
proof -
  let ?j = "rp_jobs s ! i" and ?js = "(rp_jobs s)[i := (rp_jobs s ! i)\<lparr>rj_phase := RpcDone ok\<rparr>]"
  note books = assms(1) [unfolded rpc_ok_def]
  have chain: "\<forall>j \<in> set ?js. rj_chain j = (rp_resets s, if rj_kind j = Trace then None else Some (rj_node j))"
    using books assms(2) by (auto dest!: set_update_subset_insert [THEN subsetD])
  show ?thesis
  proof (cases "rj_kind ?j = Trace")
    case True
    note mine = in_flight_settle [of "\<lambda>k. k = Trace" "rp_trace_in_flight s", OF _ assms(2) True assms(3)]
    have "in_flight_map (\<lambda>k. k \<noteq> Trace) (rp_in_flight s) ?js"
      using books assms(2) True by (intro in_flight_phase) auto
    then show ?thesis
      using books mine True chain trace_counts_settle [OF _ assms(2) True assms(3), of "rp_trace_count s" ok]
      by (simp add: rpc_ok_def release_rpc_def set_rpc_phase_def Let_def split: if_splits)
  next
    case False
    note mine = in_flight_settle [of "\<lambda>k. k \<noteq> Trace" "rp_in_flight s", OF _ assms(2) False assms(3)]
    have 1: "in_flight_map (\<lambda>k. k = Trace) (rp_trace_in_flight s) ?js"
      using books assms(2) False by (intro in_flight_phase) auto
    have "length (traces_of n ?js) = length (traces_of n (rp_jobs s))" for n
      using traces_phase [OF assms(2), of n "RpcDone ok"] False by simp
    then have "trace_counts (rp_trace_count s) ?js" using books trace_counts_length by blast
    then show ?thesis
      using books mine False chain 1 by (simp add: rpc_ok_def release_rpc_def set_rpc_phase_def Let_def)
  qed
qed

lemma running_ok:
  assumes "rpc_ok s" "i < length (rp_jobs s)" "rj_stage (rp_jobs s ! i) \<noteq> Settled"
  shows "rpc_ok (set_rpc_phase i RpcRunning s)"
proof -
  let ?js = "(rp_jobs s)[i := (rp_jobs s ! i)\<lparr>rj_phase := RpcRunning\<rparr>]"
  note books = assms(1) [unfolded rpc_ok_def]
  have maps: "in_flight_map (\<lambda>k. k \<noteq> Trace) (rp_in_flight s) ?js" "in_flight_map (\<lambda>k. k = Trace) (rp_trace_in_flight s) ?js"
    using books assms(2,3) by (auto intro!: in_flight_phase)
  have "length (traces_of n ?js) = length (traces_of n (rp_jobs s))" for n
    using traces_phase [OF assms(2), of n RpcRunning] assms(3) by simp
  then have counts: "trace_counts (rp_trace_count s) ?js" using books trace_counts_length by blast
  have "\<forall>j \<in> set ?js. rj_chain j = (rp_resets s, if rj_kind j = Trace then None else Some (rj_node j))"
    using books assms(2) by (auto dest!: set_update_subset_insert [THEN subsetD])
  then show ?thesis using maps counts by (simp add: rpc_ok_def set_rpc_phase_def)
qed

lemma rpc_step_ok:
  assumes "rpc_ok s" "e \<noteq> RpcReset"
  shows "rpc_ok (rpc_step e s)"
proof (cases e)
  case (RpcStart i)
  then show ?thesis using assms settle_ok [of s i False] running_ok [of s i] by (auto simp: start_rpc_def Let_def)
next
  case (RpcFinish i ok)
  then show ?thesis using assms settle_ok [of s i ok] by (auto simp: finish_rpc_def)
next
  case RpcHold
  then show ?thesis using assms by (simp add: rpc_ok_def begin_cli_reply_hold_def)
next
  case RpcUnhold
  then show ?thesis using assms by (simp add: rpc_ok_def end_cli_reply_hold_def)
qed (use assms in \<open>simp_all add: call_ok\<close>)

lemma rpc_run_ok: "RpcReset \<notin> set es \<Longrightarrow> rpc_ok (rpc_run es)"
proof (induction es rule: rev_induct)
  case Nil
  show ?case
    by (simp add: rpc_run_def rpc_init_def rpc_ok_def in_flight_map_def trace_counts_def traces_of_def jm_get_def)
next
  case (snoc e es)
  then show ?case using rpc_step_ok [of "rpc_run es" e] by (auto simp: rpc_run_def)
qed

lemma in_flight_map_empty:
  assumes "in_flight_map P m js"
  shows "m = [] \<longleftrightarrow> (\<forall>j \<in> set js. P (rj_kind j) \<longrightarrow> rj_stage j = Settled)"
proof
  assume "m = []"
  then show "\<forall>j \<in> set js. P (rj_kind j) \<longrightarrow> rj_stage j = Settled"
    using in_flight_mapD [OF assms] by (fastforce simp: jm_get_def in_set_conv_nth)
next
  assume settled: "\<forall>j \<in> set js. P (rj_kind j) \<longrightarrow> rj_stage j = Settled"
  have "jm_get m key \<noteq> Some i" for key i
    using in_flight_mapD [OF assms, of key i] settled by auto
  from this [of "fst (hd m)" "snd (hd m)"] show "m = []" by (cases m) (auto simp: jm_get_def)
qed

lemma in_flight_distinct:
  assumes "in_flight_map P m js" "i < length js" "k < length js" "P (rj_kind (js ! i))" "P (rj_kind (js ! k))"
    "rj_stage (js ! i) \<noteq> Settled" "rj_stage (js ! k) \<noteq> Settled" "rj_key (js ! i) = rj_key (js ! k)"
  shows "i = k"
  using in_flight_mapD [OF assms(1), of "rj_key (js ! k)" i] in_flight_mapD [OF assms(1), of "rj_key (js ! k)" k] assms(2-) by simp

text \<open>
  C24: until a disconnect resets the module, the requests are what its maps say: at most one trace is on
  the air, and at most one administrative request per node; requests of the same key are one request;
  a node counts as traced exactly while a trace of it is queued or runs, and the radio counts as busy
  exactly while a command line reply or a trace response is awaited or some request is queued or runs.
\<close>

theorem requests_in_flight:
  assumes "RpcReset \<notin> set es"
  shows "(let s = rpc_run es; js = rp_jobs s in
      (\<forall>i < length js. \<forall>k < length js. (rj_kind (js ! i) = Trace \<longleftrightarrow> rj_kind (js ! k) = Trace) \<longrightarrow>
          (rj_stage (js ! i) = Active \<and> rj_stage (js ! k) = Active \<and> (rj_kind (js ! i) = Trace \<or> rj_node (js ! i) = rj_node (js ! k))
           \<or> rj_stage (js ! i) \<noteq> Settled \<and> rj_stage (js ! k) \<noteq> Settled \<and> rj_key (js ! i) = rj_key (js ! k)) \<longrightarrow> i = k)
      \<and> (\<forall>node. trace_active_for_node node s \<longleftrightarrow>
          (\<exists>j \<in> set js. rj_kind j = Trace \<and> normalized_id (rj_node j) = normalized_id node \<and> rj_stage j \<noteq> Settled))
      \<and> (\<forall>responses. companion_repeater_rf_busy responses s \<longleftrightarrow>
          cli_reply_hold_active s \<or> responses > 0 \<or> (\<exists>j \<in> set js. rj_stage j \<noteq> Settled)))"
proof -
  let ?s = "rpc_run es" and ?js = "rp_jobs (rpc_run es)"
  note books = rpc_run_ok [OF assms, unfolded rpc_ok_def]
  have chain: "rj_chain (?js ! i) = rj_chain (?js ! k)"
    if "i < length ?js" "k < length ?js" "rj_kind (?js ! i) = Trace \<longleftrightarrow> rj_kind (?js ! k) = Trace"
      "rj_kind (?js ! i) = Trace \<or> rj_node (?js ! i) = rj_node (?js ! k)" for i k
    using books that by auto
  have turns: "i = k"
    if "i < length ?js" "k < length ?js" "rj_kind (?js ! i) = Trace \<longleftrightarrow> rj_kind (?js ! k) = Trace"
      "rj_kind (?js ! i) = Trace \<or> rj_node (?js ! i) = rj_node (?js ! k)" "rj_stage (?js ! i) = Active" "rj_stage (?js ! k) = Active" for i k
    using rpcq.run_one_active [of i es k] that(1,2,5,6) chain [OF that(1-4)] by (simp add: rpc_run_def)
  have keys: "i = k"
    if "i < length ?js" "k < length ?js" "rj_kind (?js ! i) = Trace \<longleftrightarrow> rj_kind (?js ! k) = Trace"
      "rj_stage (?js ! i) \<noteq> Settled" "rj_stage (?js ! k) \<noteq> Settled" "rj_key (?js ! i) = rj_key (?js ! k)" for i k
    using in_flight_distinct [of "\<lambda>k. k = Trace" "rp_trace_in_flight ?s" ?js i k]
      in_flight_distinct [of "\<lambda>k. k \<noteq> Trace" "rp_in_flight ?s" ?js i k] books that
    by (cases "rj_kind (?js ! k) = Trace") simp_all
  have active: "trace_active_for_node node ?s \<longleftrightarrow>
      (\<exists>j \<in> set ?js. rj_kind j = Trace \<and> normalized_id (rj_node j) = normalized_id node \<and> rj_stage j \<noteq> Settled)" for node
    using books by (auto simp: trace_active_for_node_def trace_count_def trace_counts_def traces_of_def filter_empty_conv)
  have busy: "companion_repeater_rf_busy responses ?s \<longleftrightarrow>
      cli_reply_hold_active ?s \<or> responses > 0 \<or> (\<exists>j \<in> set ?js. rj_stage j \<noteq> Settled)" for responses
    using in_flight_map_empty [of "\<lambda>k. k = Trace" "rp_trace_in_flight ?s" ?js] in_flight_map_empty [of "\<lambda>k. k \<noteq> Trace" "rp_in_flight ?s" ?js] books
    by (auto simp: companion_repeater_rf_busy_def cli_reply_hold_active_def)
  show ?thesis
    unfolding Let_def
  proof (intro conjI allI)
    show "trace_active_for_node node ?s \<longleftrightarrow>
        (\<exists>j \<in> set ?js. rj_kind j = Trace \<and> normalized_id (rj_node j) = normalized_id node \<and> rj_stage j \<noteq> Settled)" for node
      by (rule active)
    show "companion_repeater_rf_busy responses ?s \<longleftrightarrow> cli_reply_hold_active ?s \<or> responses > 0 \<or> (\<exists>j \<in> set ?js. rj_stage j \<noteq> Settled)"
      for responses by (rule busy)
  qed (use turns keys in \<open>blast intro: turns keys\<close>)
qed

lemmas rpc_ops = rpc_run_def rpc_init_def run_repeater_rpc_once_def run_trace_rpc_once_def run_admin_rpc_once_def rpc_key_def
  start_rpc_def finish_rpc_def release_rpc_def set_rpc_phase_def reset_rpc_in_flight_def trace_count_def normalized_id_def
  in_turn_def jm_get_def jm_set_def jm_delete_def Let_def

definition rpc_example :: "rpc_event list" where
  "rpc_example = [RpcCall Trace 7 None, RpcCall Status 7 None, RpcCall Trace 8 None, RpcCall Trace 7 None, RpcStart 0, RpcStart 1, RpcStart 2]"

theorem requests_in_flight_witness:
  "map rj_stage (rp_jobs (rpc_run rpc_example)) = [Active, Active, Waiting]
   \<and> trace_active_for_node 8 (rpc_run rpc_example) \<and> companion_repeater_rf_busy 0 (rpc_run rpc_example)"
proof -
  have "RpcReset \<notin> set rpc_example" by (simp add: rpc_example_def)
  note told = requests_in_flight [OF this, unfolded Let_def]
  have jobs: "map rj_stage (rp_jobs (rpc_run rpc_example)) = [Active, Active, Waiting]"
      "map rj_kind (rp_jobs (rpc_run rpc_example)) = [Trace, Status, Trace]" "map rj_node (rp_jobs (rpc_run rpc_example)) = [7, 7, 8]"
    by (simp_all add: rpc_ops rpc_example_def)
  have waiting: "\<exists>j \<in> set (rp_jobs (rpc_run rpc_example)). rj_kind j = Trace \<and> normalized_id (rj_node j) = normalized_id 8 \<and> rj_stage j \<noteq> Settled"
    by (simp add: rpc_ops rpc_example_def)
  then have "trace_active_for_node 8 (rpc_run rpc_example)" "companion_repeater_rf_busy 0 (rpc_run rpc_example)"
    using told by blast+
  then show ?thesis using jobs(1) by simp
qed

text \<open>
  A disconnect forgets the requests that still run. When such a trace settles afterwards it takes the
  count of a new trace of its node away, so the node no longer counts as traced while the new one runs.
\<close>

lemma reset_miscounts:
  "let s = rpc_run [RpcCall Trace 7 None, RpcStart 0, RpcReset, RpcCall Trace 7 None, RpcStart 1, RpcFinish 0 False] in
   rj_stage (rp_jobs s ! 1) = Active \<and> \<not> trace_active_for_node 7 s \<and> companion_repeater_rf_busy 0 s"
  by (simp add: rpc_ops trace_active_for_node_def companion_repeater_rf_busy_def)

end
