(* ===== verification/Rnode_Link.thy ===== *)
theory Rnode_Link
  imports Js_Map
begin

text \<open>
  The serial link to an RNode radio (\<^verbatim>\<open>src/renderer/lib/flasher/rnode.ts\<close>): KISS framing, the read loop
  that cuts a byte stream into commands, and the table of callbacks that pairs commands with
  requests. The serial port is the list of chunks it delivers and the list of bytes written to it.
\<close>

definition KISS_FEND :: byte where "KISS_FEND = 0xc0"
definition KISS_FESC :: byte where "KISS_FESC = 0xdb"
definition KISS_TFEND :: byte where "KISS_TFEND = 0xdc"
definition KISS_TFESC :: byte where "KISS_TFESC = 0xdd"

subsection \<open>Frames\<close>

fun decode_kiss_loop :: "bytes \<Rightarrow> bytes \<Rightarrow> bool \<Rightarrow> bytes option" where
  "decode_kiss_loop [] data escaping = (if escaping then None else Some data)"
| "decode_kiss_loop (b # bs) data escaping =
     (if escaping then
        if b = KISS_TFEND then decode_kiss_loop bs (data @ [KISS_FEND]) False
        else if b = KISS_TFESC then decode_kiss_loop bs (data @ [KISS_FESC]) False
        else None
      else if b = KISS_FESC then decode_kiss_loop bs data True
      else decode_kiss_loop bs (data @ [b]) False)"

definition decode_kiss_frame :: "bytes \<Rightarrow> bytes option" where
  "decode_kiss_frame frame = decode_kiss_loop frame [] False"

fun escape_kiss :: "bytes \<Rightarrow> bytes" where
  "escape_kiss [] = []"
| "escape_kiss (b # bs) =
     (if b = KISS_FEND then [KISS_FESC, KISS_TFEND]
      else if b = KISS_FESC then [KISS_FESC, KISS_TFESC] else [b]) @ escape_kiss bs"

definition create_kiss_frame :: "bytes \<Rightarrow> bytes" where
  "create_kiss_frame data = [KISS_FEND] @ escape_kiss data @ [KISS_FEND]"

subsection \<open>Requests\<close>

datatype command_outcome = Resolved bytes | CommandTimeout | WriteError

record rnode_link =
  rn_buffer :: bytes
  rn_in_frame :: bool
  rn_callbacks :: "(byte, nat) jsmap"
  rn_commands :: "byte list"
  rn_settled :: "(nat \<times> command_outcome) list"
  rn_written :: bytes

text \<open>Requests are numbered; \<open>rn_commands ! i\<close> is the command of request \<open>i\<close>.\<close>

definition link_init :: rnode_link where
  "link_init = \<lparr>rn_buffer = [], rn_in_frame = False, rn_callbacks = [], rn_commands = [], rn_settled = [], rn_written = []\<rparr>"

definition is_settled :: "nat \<Rightarrow> rnode_link \<Rightarrow> bool" where
  "is_settled i s \<longleftrightarrow> i \<in> fst ` set (rn_settled s)"

text \<open>\<^verbatim>\<open>finish\<close> of one request: only the first outcome counts, and it removes the callback of the command.\<close>

definition finish_request :: "nat \<Rightarrow> command_outcome \<Rightarrow> rnode_link \<Rightarrow> rnode_link" where
  "finish_request i outcome s =
     (if is_settled i s then s
      else s\<lparr>rn_settled := rn_settled s @ [(i, outcome)],
             rn_callbacks := (case at_opt (rn_commands s) i of None \<Rightarrow> rn_callbacks s | Some c \<Rightarrow> jm_delete c (rn_callbacks s))\<rparr>)"

definition send_kiss_command :: "bytes \<Rightarrow> rnode_link \<Rightarrow> rnode_link" where
  "send_kiss_command data s = s\<lparr>rn_written := rn_written s @ create_kiss_frame data\<rparr>"

definition send_command :: "byte \<Rightarrow> bytes \<Rightarrow> rnode_link \<Rightarrow> rnode_link" where
  "send_command command data s =
     send_kiss_command (command # data)
       (s\<lparr>rn_callbacks := jm_set command (length (rn_commands s)) (rn_callbacks s), rn_commands := rn_commands s @ [command]\<rparr>)"

definition on_command_received :: "bytes \<Rightarrow> rnode_link \<Rightarrow> rnode_link" where
  "on_command_received data s =
     (case data of
        [] \<Rightarrow> s
      | command # bytes \<Rightarrow>
          (case jm_get (rn_callbacks s) command of
             None \<Rightarrow> s
           | Some i \<Rightarrow>
               let s1 = finish_request i (Resolved bytes) s in s1\<lparr>rn_callbacks := jm_delete command (rn_callbacks s1)\<rparr>))"

subsection \<open>The read loop\<close>

definition read_byte :: "byte \<Rightarrow> rnode_link \<Rightarrow> rnode_link" where
  "read_byte b s =
     (if b = KISS_FEND then
        let s1 = (if rn_in_frame s
                  then (case decode_kiss_frame (rn_buffer s) of None \<Rightarrow> s | Some frame \<Rightarrow> on_command_received frame s)\<lparr>rn_buffer := []\<rparr>
                  else s)
        in s1\<lparr>rn_in_frame := \<not> rn_in_frame s\<rparr>
      else if rn_in_frame s then s\<lparr>rn_buffer := rn_buffer s @ [b]\<rparr>
      else s)"

definition read_chunk :: "bytes \<Rightarrow> rnode_link \<Rightarrow> rnode_link" where
  "read_chunk chunk s = fold read_byte chunk s"

datatype link_event =
    SendCommand byte bytes
  | SendOnly bytes
  | ReadChunk bytes
  | TimerFired nat
  | WriteFailed nat

fun link_step :: "link_event \<Rightarrow> rnode_link \<Rightarrow> rnode_link" where
  "link_step (SendCommand command data) s = send_command command data s"
| "link_step (SendOnly data) s = send_kiss_command data s"
| "link_step (ReadChunk chunk) s = read_chunk chunk s"
| "link_step (TimerFired i) s = (if i < length (rn_commands s) then finish_request i CommandTimeout s else s)"
| "link_step (WriteFailed i) s = (if i < length (rn_commands s) then finish_request i WriteError s else s)"

subsection \<open>Framing\<close>

lemma kiss_distinct: "KISS_FEND \<noteq> KISS_FESC" "KISS_TFEND \<noteq> KISS_FEND" "KISS_TFESC \<noteq> KISS_FEND" "KISS_TFEND \<noteq> KISS_TFESC"
  by (simp_all add: KISS_FEND_def KISS_FESC_def KISS_TFEND_def KISS_TFESC_def)

lemma escape_no_fend: "KISS_FEND \<notin> set (escape_kiss data)"
  using kiss_distinct by (induction data) auto

lemma decode_escape: "decode_kiss_loop (escape_kiss data @ rest) acc False = decode_kiss_loop rest (acc @ data) False"
  using kiss_distinct by (induction data arbitrary: acc) auto

lemma decode_create: "decode_kiss_frame (escape_kiss data) = Some data"
  using decode_escape [of data "[]" "[]"] by (simp add: decode_kiss_frame_def)

subsection \<open>Streams of frames\<close>

lemma link_fields [simp]:
  "rn_in_frame (finish_request i r s) = rn_in_frame s" "rn_buffer (finish_request i r s) = rn_buffer s"
  "rn_commands (finish_request i r s) = rn_commands s"
  "rn_in_frame (on_command_received d s) = rn_in_frame s" "rn_buffer (on_command_received d s) = rn_buffer s"
  "rn_commands (on_command_received d s) = rn_commands s"
  by (simp_all add: finish_request_def on_command_received_def Let_def split: list.splits option.splits)

lemma read_outside: "KISS_FEND \<notin> set bs \<Longrightarrow> \<not> rn_in_frame s \<Longrightarrow> fold read_byte bs s = s"
  by (induction bs) (auto simp: read_byte_def)

lemma read_inside:
  "KISS_FEND \<notin> set bs \<Longrightarrow> rn_in_frame s \<Longrightarrow> fold read_byte bs s = s\<lparr>rn_buffer := rn_buffer s @ bs\<rparr>"
  by (induction bs arbitrary: s) (auto simp: read_byte_def)

lemma link_update_same: "rn_in_frame s = f \<Longrightarrow> rn_buffer s = b \<Longrightarrow> s\<lparr>rn_in_frame := f, rn_buffer := b\<rparr> = s"
  by (cases s) simp

lemma on_command_frame:
  "on_command_received d (s\<lparr>rn_in_frame := f, rn_buffer := b\<rparr>) = (on_command_received d s)\<lparr>rn_in_frame := f, rn_buffer := b\<rparr>"
  by (cases d) (simp_all add: on_command_received_def finish_request_def is_settled_def Let_def split: option.splits)

text \<open>A frame read between frames is handed on as the command it carries, whatever bytes precede it.\<close>

lemma read_frame:
  assumes "\<not> rn_in_frame s" "rn_buffer s = []" "KISS_FEND \<notin> set gap"
  shows "fold read_byte (gap @ create_kiss_frame data) s = on_command_received data s"
proof -
  let ?o = "s\<lparr>rn_in_frame := True\<rparr>"
  have "fold read_byte (gap @ create_kiss_frame data) s = read_byte KISS_FEND (fold read_byte (escape_kiss data) ?o)"
    using assms by (simp add: create_kiss_frame_def read_outside read_byte_def [of KISS_FEND s] Let_def)
  also have "fold read_byte (escape_kiss data) ?o = ?o\<lparr>rn_buffer := escape_kiss data\<rparr>"
    using assms(2) by (simp add: read_inside escape_no_fend)
  also have "read_byte KISS_FEND (?o\<lparr>rn_buffer := escape_kiss data\<rparr>)
      = (on_command_received data (s\<lparr>rn_in_frame := True, rn_buffer := escape_kiss data\<rparr>))\<lparr>rn_in_frame := False, rn_buffer := []\<rparr>"
    by (simp add: read_byte_def decode_create Let_def)
  also have "\<dots> = on_command_received data s"
    using assms by (simp add: on_command_frame link_update_same)
  finally show ?thesis .
qed

definition framed :: "(bytes \<times> bytes) list \<Rightarrow> bytes" where
  "framed items = concat (map (\<lambda>(gap, data). gap @ create_kiss_frame data) items)"

lemma read_framed:
  "\<not> rn_in_frame s \<Longrightarrow> rn_buffer s = [] \<Longrightarrow> list_all (\<lambda>x. KISS_FEND \<notin> set (fst x)) items \<Longrightarrow>
   fold read_byte (framed items) s = fold on_command_received (map snd items) s"
proof (induction items arbitrary: s)
  case (Cons x items)
  obtain gap data where x: "x = (gap, data)" by (cases x)
  have "fold read_byte (gap @ create_kiss_frame data) s = on_command_received data s"
    by (rule read_frame) (use Cons.prems in \<open>simp_all add: x\<close>)
  then have "fold read_byte (framed (x # items)) s = fold read_byte (framed items) (on_command_received data s)"
    by (simp add: framed_def x)
  also have "\<dots> = fold on_command_received (map snd items) (on_command_received data s)"
    by (rule Cons.IH) (use Cons.prems in simp_all)
  finally show ?case by (simp add: x)
qed (simp add: framed_def)

lemma read_chunks: "fold read_chunk chunks s = fold read_byte (concat chunks) s"
  by (induction chunks arbitrary: s) (simp_all add: read_chunk_def)

text \<open>
  One stray delimiter between frames puts the loop out of step: every frame that follows is read as
  the gap between two empty frames, so no command is handed on any more.
\<close>

lemma stray_delimiter_loses_frames:
  assumes "rn_in_frame s" "rn_buffer s = []"
  shows "read_chunk (create_kiss_frame data) s = s"
proof -
  have "read_byte KISS_FEND s = s\<lparr>rn_in_frame := False\<rparr>"
    using assms by (cases s) (simp add: read_byte_def decode_kiss_frame_def on_command_received_def Let_def)
  then have "read_chunk (create_kiss_frame data) s = read_byte KISS_FEND (s\<lparr>rn_in_frame := False\<rparr>)"
    using escape_no_fend [of data] by (simp add: read_chunk_def create_kiss_frame_def read_outside)
  also have "\<dots> = s" using assms(1) by (cases s) (simp add: read_byte_def Let_def)
  finally show ?thesis .
qed

subsection \<open>Requests and their outcomes\<close>

definition link_ok :: "rnode_link \<Rightarrow> bool" where
  "link_ok s \<longleftrightarrow> jm_wf (rn_callbacks s) \<and> distinct (map fst (rn_settled s)) \<and> (\<not> rn_in_frame s \<longrightarrow> rn_buffer s = [])
     \<and> (\<forall>c i. jm_get (rn_callbacks s) c = Some i \<longrightarrow> i < length (rn_commands s) \<and> rn_commands s ! i = c \<and> \<not> is_settled i s)
     \<and> (\<forall>i. is_settled i s \<longrightarrow> i < length (rn_commands s))"


lemma link_okD:
  assumes "link_ok s"
  shows "jm_wf (rn_callbacks s)" "distinct (map fst (rn_settled s))" "\<not> rn_in_frame s \<Longrightarrow> rn_buffer s = []"
    "jm_get (rn_callbacks s) c = Some i \<Longrightarrow> i < length (rn_commands s) \<and> rn_commands s ! i = c \<and> \<not> is_settled i s"
    "is_settled i s \<Longrightarrow> i < length (rn_commands s)"
  using assms by (auto simp: link_ok_def)

lemma settled_finish: "is_settled j (finish_request i r s) \<longleftrightarrow> j = i \<or> is_settled j s"
  by (auto simp: finish_request_def is_settled_def)

lemma callbacks_finish:
  "i < length (rn_commands s) \<Longrightarrow> rn_callbacks (finish_request i r s)
     = (if is_settled i s then rn_callbacks s else jm_delete (rn_commands s ! i) (rn_callbacks s))"
  by (simp add: finish_request_def)

lemma finish_request_ok:
  assumes "link_ok s" "i < length (rn_commands s)"
  shows "link_ok (finish_request i r s)"
proof -
  note ok = link_okD [OF assms(1)]
  have cb: "\<not> is_settled k (finish_request i r s)" if "jm_get (rn_callbacks (finish_request i r s)) c = Some k" for c k
  proof (cases "is_settled i s")
    case True
    with that ok(4) [of c k] show ?thesis using assms(2) by (auto simp: settled_finish callbacks_finish)
  next
    case False
    with that assms(2) have "c \<noteq> rn_commands s ! i" "jm_get (rn_callbacks s) c = Some k"
      by (auto simp: callbacks_finish jm_simps split: if_splits)
    with ok(4) [of c k] show ?thesis by (auto simp: settled_finish)
  qed
  have cb': "jm_get (rn_callbacks s) c = Some k" if "jm_get (rn_callbacks (finish_request i r s)) c = Some k" for c k
    using that assms(2) by (auto simp: callbacks_finish jm_simps split: if_splits)
  have "distinct (map fst (rn_settled (finish_request i r s)))"
    using ok(2) by (auto simp: finish_request_def is_settled_def)
  moreover have "jm_wf (rn_callbacks (finish_request i r s))"
    using ok(1) assms(2) by (simp add: callbacks_finish jm.wf_del)
  moreover have "k < length (rn_commands s)" if "is_settled k (finish_request i r s)" for k
    using that assms(2) ok(5) by (auto simp: settled_finish)
  ultimately show ?thesis using ok(3) cb cb' ok(4) unfolding link_ok_def by simp blast
qed

lemma on_command_received_ok: "link_ok s \<Longrightarrow> link_ok (on_command_received data s)"
proof (cases data)
  case (Cons c bytes)
  assume ok: "link_ok s"
  show ?thesis
  proof (cases "jm_get (rn_callbacks s) c")
    case (Some i)
    with ok have "link_ok (finish_request i (Resolved bytes) s)" using finish_request_ok link_okD(4) by blast
    then show ?thesis using Some Cons
      by (auto simp: on_command_received_def Let_def link_ok_def jm.wf_del jm_simps is_settled_def split: if_splits)
  qed (use ok Cons in \<open>simp add: on_command_received_def\<close>)
qed (simp add: on_command_received_def)

lemma read_byte_ok: "link_ok s \<Longrightarrow> link_ok (read_byte b s)"
proof -
  assume ok: "link_ok s"
  have frame: "link_ok (s\<lparr>rn_buffer := [], rn_in_frame := False\<rparr>)" if "link_ok s" for s
    using that by (auto simp: link_ok_def is_settled_def)
  have opened: "link_ok (s\<lparr>rn_in_frame := True\<rparr>)" "link_ok (s\<lparr>rn_in_frame := True, rn_buffer := b\<rparr>)" for b
    using ok by (auto simp: link_ok_def is_settled_def)
  consider (close) "b = KISS_FEND" "rn_in_frame s" | (first) "b = KISS_FEND" "\<not> rn_in_frame s"
    | (inside) "b \<noteq> KISS_FEND" "rn_in_frame s" | (gap) "b \<noteq> KISS_FEND" "\<not> rn_in_frame s" by blast
  then show ?thesis
  proof cases
    case close
    then show ?thesis using frame [OF ok] frame [OF on_command_received_ok [OF ok]]
      by (cases "decode_kiss_frame (rn_buffer s)") (simp_all add: read_byte_def Let_def)
  next
    case first
    then show ?thesis using opened(1) by (simp add: read_byte_def Let_def)
  next
    case inside
    then show ?thesis using opened(2) [of "rn_buffer s @ [b]"] by (cases s) (simp add: read_byte_def)
  next
    case gap
    with ok show ?thesis by (simp add: read_byte_def)
  qed
qed

lemma read_chunk_ok: "link_ok s \<Longrightarrow> link_ok (read_chunk chunk s)"
  unfolding read_chunk_def by (induction chunk arbitrary: s) (simp_all add: read_byte_ok)

lemma send_command_ok:
  assumes "link_ok s"
  shows "link_ok (send_command c data s)"
proof -
  note ok = link_okD [OF assms]
  have "\<not> is_settled (length (rn_commands s)) s" using ok(5) by blast
  with ok show ?thesis
    by (auto simp: send_command_def send_kiss_command_def link_ok_def jm.wf_set jm_simps is_settled_def nth_append less_Suc_eq split: if_splits)
qed

lemma link_step_ok: "link_ok s \<Longrightarrow> link_ok (link_step e s)"
proof (cases e)
  case (SendOnly data)
  assume "link_ok s"
  then show ?thesis by (simp add: SendOnly send_kiss_command_def link_ok_def is_settled_def)
qed (simp_all add: send_command_ok read_chunk_ok finish_request_ok)

interpretation rn: invariant_steps link_step link_ok link_init
  by unfold_locales (rule link_step_ok | simp add: link_ok_def link_init_def is_settled_def)+

definition link_run :: "link_event list \<Rightarrow> rnode_link" where
  "link_run es = fold link_step es link_init"

lemma link_run_ok: "link_ok (link_run es)"
  using rn.run_inv [of es] by (simp add: link_run_def rn.run_def)

text \<open>Replies to other commands leave a pending request pending.\<close>

lemma other_replies:
  assumes "link_ok s" "jm_get (rn_callbacks s) c = Some i" "list_all (\<lambda>d. d = [] \<or> hd d \<noteq> c) ds"
  shows "jm_get (rn_callbacks (fold on_command_received ds s)) c = Some i \<and> link_ok (fold on_command_received ds s)"
  using assms
proof (induction ds arbitrary: s)
  case (Cons d ds)
  have "jm_get (rn_callbacks (on_command_received d s)) c = Some i"
  proof (cases d)
    case (Cons b bytes)
    then have "b \<noteq> c" using Cons.prems(3) by simp
    show ?thesis
    proof (cases "jm_get (rn_callbacks s) b")
      case (Some j)
      with link_okD(4) [OF Cons.prems(1) Some] have "j < length (rn_commands s)" "rn_commands s ! j = b" "\<not> is_settled j s" by auto
      with Some \<open>b \<noteq> c\<close> Cons.prems(2) \<open>d = _\<close> show ?thesis
        by (simp add: on_command_received_def Let_def callbacks_finish jm_simps)
    qed (use \<open>d = _\<close> Cons.prems(2) in \<open>simp add: on_command_received_def\<close>)
  qed (use Cons.prems(2) in \<open>simp add: on_command_received_def\<close>)
  with Cons on_command_received_ok show ?case by simp
qed simp

lemma reply_settles:
  assumes "link_ok s" "jm_get (rn_callbacks s) c = Some i"
  shows "(i, Resolved payload) \<in> set (rn_settled (on_command_received (c # payload) s))"
  using link_okD(4) [OF assms] assms(2) by (simp add: on_command_received_def Let_def finish_request_def)

text \<open>
  C32. A request to the radio is answered. In every state of the link between two frames: if a request
  is waiting under its command, and the port delivers, in any chunks and with any bytes other than
  the delimiter between the frames, replies to other commands and then the reply to this one, then
  the request ends with exactly the bytes the radio framed; no request ends twice.
\<close>

theorem rnode_request_answered:
  assumes "\<not> rn_in_frame (link_run es)" "jm_get (rn_callbacks (link_run es)) c = Some i"
    "concat chunks = framed (items @ [(gap, c # payload)])" "list_all (\<lambda>x. KISS_FEND \<notin> set (fst x)) (items @ [(gap, c # payload)])"
    "list_all (\<lambda>d. d = [] \<or> hd d \<noteq> c) (map snd items)"
  shows "(i, Resolved payload) \<in> set (rn_settled (fold read_chunk chunks (link_run es)))
    \<and> distinct (map fst (rn_settled (fold read_chunk chunks (link_run es))))"
proof -
  let ?s = "link_run es" and ?s1 = "fold on_command_received (map snd items) (link_run es)"
  note ok = link_run_ok [of es]
  have "fold read_chunk chunks ?s = on_command_received (c # payload) ?s1"
    using read_framed [OF assms(1) link_okD(3) [OF ok assms(1)] assms(4)] by (simp add: read_chunks assms(3))
  moreover have "jm_get (rn_callbacks ?s1) c = Some i" "link_ok ?s1" using other_replies [OF ok assms(2,5)] by simp_all
  ultimately show ?thesis using reply_settles on_command_received_ok link_okD(2) by metis
qed

text \<open>Two requests are written; the reply to the second, cut in two chunks, follows the reply to the first.\<close>

theorem rnode_request_answered_witness:
  "(1, Resolved [0xc0, 7]) \<in> set (rn_settled (fold read_chunk [[0xc0, 0x48, 0x80, 0xc0, 1, 0xc0, 0x50, 0xdb], [0xdc, 7, 0xc0]]
     (link_run [SendCommand 0x48 [0], SendCommand 0x50 [0]])))"
proof -
  let ?es = "[SendCommand 0x48 [0], SendCommand 0x50 [0]]"
  have "(1, Resolved [0xc0, 7]) \<in> set (rn_settled (fold read_chunk [[0xc0, 0x48, 0x80, 0xc0, 1, 0xc0, 0x50, 0xdb], [0xdc, 7, 0xc0]]
      (link_run ?es))) \<and> distinct (map fst (rn_settled (fold read_chunk [[0xc0, 0x48, 0x80, 0xc0, 1, 0xc0, 0x50, 0xdb], [0xdc, 7, 0xc0]]
      (link_run ?es))))"
    by (rule rnode_request_answered [where items = "[([], [0x48, 0x80])]" and gap = "[1]" and c = "0x50"])
      (simp_all add: link_run_def link_init_def send_command_def send_kiss_command_def jm_set_def jm_get_def framed_def
        create_kiss_frame_def KISS_FEND_def KISS_FESC_def KISS_TFEND_def KISS_TFESC_def)
  then show ?thesis by blast
qed

end
