(* ===== verification/Rnode_Rom.thy ===== *)
theory Rnode_Rom
  imports Utf8 Js_String
begin

text \<open>
  The EEPROM of an RNode (\<^verbatim>\<open>src/renderer/lib/flasher/rom.ts\<close>) and writing a device identity to it
  (\<^verbatim>\<open>src/renderer/lib/flasher/provision.ts\<close>). The device is a record of its two commands, write a
  byte and read the EEPROM; the MD5 function is an argument.
\<close>

definition ADDR_PRODUCT :: nat where "ADDR_PRODUCT = 0x00"
definition ADDR_MODEL :: nat where "ADDR_MODEL = 0x01"
definition ADDR_HW_REV :: nat where "ADDR_HW_REV = 0x02"
definition ADDR_SERIAL :: nat where "ADDR_SERIAL = 0x03"
definition ADDR_MADE :: nat where "ADDR_MADE = 0x07"
definition ADDR_CHKSUM :: nat where "ADDR_CHKSUM = 0x0b"
definition ADDR_SIGNATURE :: nat where "ADDR_SIGNATURE = 0x1b"
definition ADDR_INFO_LOCK :: nat where "ADDR_INFO_LOCK = 0x9b"
definition ADDR_CONF_SF :: nat where "ADDR_CONF_SF = 0x9c"
definition ADDR_CONF_CR :: nat where "ADDR_CONF_CR = 0x9d"
definition ADDR_CONF_TXP :: nat where "ADDR_CONF_TXP = 0x9e"
definition ADDR_CONF_BW :: nat where "ADDR_CONF_BW = 0x9f"
definition ADDR_CONF_FREQ :: nat where "ADDR_CONF_FREQ = 0xa3"
definition ADDR_CONF_OK :: nat where "ADDR_CONF_OK = 0xa7"
definition INFO_LOCK_BYTE :: byte where "INFO_LOCK_BYTE = 0x73"
definition CONF_OK_BYTE :: byte where "CONF_OK_BYTE = 0x73"

type_synonym eeprom = bytes

definition rom_at :: "eeprom \<Rightarrow> nat \<Rightarrow> byte" where
  "rom_at e a = (case at_opt e a of None \<Rightarrow> 0 | Some b \<Rightarrow> b)"

definition rom_slice :: "eeprom \<Rightarrow> nat \<Rightarrow> nat \<Rightarrow> bytes" where
  "rom_slice e a n = map (\<lambda>i. rom_at e (a + i)) [0..<n]"

definition get_product :: "eeprom \<Rightarrow> byte" where "get_product e = rom_at e ADDR_PRODUCT"
definition get_model :: "eeprom \<Rightarrow> byte" where "get_model e = rom_at e ADDR_MODEL"
definition get_hardware_revision :: "eeprom \<Rightarrow> byte" where "get_hardware_revision e = rom_at e ADDR_HW_REV"
definition get_serial_number :: "eeprom \<Rightarrow> bytes" where "get_serial_number e = rom_slice e ADDR_SERIAL 4"
definition get_made :: "eeprom \<Rightarrow> bytes" where "get_made e = rom_slice e ADDR_MADE 4"
definition get_checksum :: "eeprom \<Rightarrow> bytes" where "get_checksum e = rom_slice e ADDR_CHKSUM 16"
definition get_signature :: "eeprom \<Rightarrow> bytes" where "get_signature e = rom_slice e ADDR_SIGNATURE 128"

definition get_calculated_checksum :: "(bytes \<Rightarrow> bytes) \<Rightarrow> eeprom \<Rightarrow> bytes" where
  "get_calculated_checksum md5 e =
     md5 ([get_product e, get_model e, get_hardware_revision e] @ get_serial_number e @ get_made e)"

text \<open>Four bytes, most significant first: as an unsigned number, and as the signed result of \<^verbatim>\<open><<\<close> and \<^verbatim>\<open>|\<close>.\<close>

definition pack_u32_be :: "int \<Rightarrow> bytes" where
  "pack_u32_be value =
     (let v = nat (value mod 4294967296) in
      [byte_of (v div 16777216 mod 256), byte_of (v div 65536 mod 256), byte_of (v div 256 mod 256), byte_of (v mod 256)])"

definition unpack_u32_be :: "bytes \<Rightarrow> nat" where
  "unpack_u32_be bs = foldl (\<lambda>n b. 256 * n + unat b) 0 (take 4 bs)"

definition int32_be :: "bytes \<Rightarrow> int" where
  "int32_be bs = sint (word_of_nat (unpack_u32_be bs) :: 32 word)"

definition get_configured_frequency :: "eeprom \<Rightarrow> int" where
  "get_configured_frequency e = int32_be (rom_slice e ADDR_CONF_FREQ 4)"

definition get_configured_bandwidth :: "eeprom \<Rightarrow> int" where
  "get_configured_bandwidth e = int32_be (rom_slice e ADDR_CONF_BW 4)"

definition is_info_locked :: "eeprom \<Rightarrow> bool" where
  "is_info_locked e \<longleftrightarrow> at_opt e ADDR_INFO_LOCK = Some INFO_LOCK_BYTE"

definition is_configured :: "eeprom \<Rightarrow> bool" where
  "is_configured e \<longleftrightarrow> at_opt e ADDR_CONF_OK = Some CONF_OK_BYTE"

definition bytes_to_hex :: "bytes \<Rightarrow> string" where
  "bytes_to_hex bs = concat (map (\<lambda>b. [hex_digit (unat b div 16), hex_digit (unat b mod 16)]) bs)"

record rom_config =
  rc_spreading_factor :: byte
  rc_coding_rate :: byte
  rc_tx_power :: byte
  rc_frequency :: int
  rc_bandwidth :: int

record rom_details =
  rd_is_provisioned :: bool
  rd_is_configured :: bool
  rd_product :: byte
  rd_model :: byte
  rd_hardware_revision :: byte
  rd_serial_number :: nat
  rd_made :: nat
  rd_checksum :: string
  rd_calculated_checksum :: string
  rd_signature :: string
  rd_config :: "rom_config option"

definition rom_parse :: "(bytes \<Rightarrow> bytes) \<Rightarrow> eeprom \<Rightarrow> rom_details option" where
  "rom_parse md5 e =
     (if \<not> is_info_locked e then None
      else
        let checksum_hex = bytes_to_hex (get_checksum e); calculated_hex = bytes_to_hex (get_calculated_checksum md5 e) in
        Some \<lparr>rd_is_provisioned = (checksum_hex = calculated_hex), rd_is_configured = is_configured e,
          rd_product = get_product e, rd_model = get_model e, rd_hardware_revision = get_hardware_revision e,
          rd_serial_number = unpack_u32_be (get_serial_number e), rd_made = unpack_u32_be (get_made e),
          rd_checksum = checksum_hex, rd_calculated_checksum = calculated_hex, rd_signature = bytes_to_hex (get_signature e),
          rd_config = (if is_configured e
            then Some \<lparr>rc_spreading_factor = rom_at e ADDR_CONF_SF, rc_coding_rate = rom_at e ADDR_CONF_CR,
                   rc_tx_power = rom_at e ADDR_CONF_TXP, rc_frequency = get_configured_frequency e,
                   rc_bandwidth = get_configured_bandwidth e\<rparr>
            else None)\<rparr>)"

subsection \<open>Provisioning\<close>

record provision_params =
  pp_product :: byte
  pp_model :: byte
  pp_mapped_model :: "byte option"
  pp_hardware_revision :: "byte option"
  pp_serial_number :: "int option"

record 'd rom_device =
  dv_write :: "nat \<Rightarrow> byte \<Rightarrow> 'd \<Rightarrow> 'd"
  dv_read :: "'d \<Rightarrow> eeprom"

datatype provision_error = ProvisionWipeRequired | ProvisionVerifyFailed
datatype provision_result = AlreadyProvisioned | Provisioned

definition params_model :: "provision_params \<Rightarrow> byte" where
  "params_model p = (case pp_mapped_model p of Some m \<Rightarrow> m | None \<Rightarrow> pp_model p)"

definition params_hw_rev :: "provision_params \<Rightarrow> byte" where
  "params_hw_rev p = (case pp_hardware_revision p of Some h \<Rightarrow> h | None \<Rightarrow> 1)"

definition params_serial :: "provision_params \<Rightarrow> int" where
  "params_serial p = (case pp_serial_number p of Some n \<Rightarrow> n | None \<Rightarrow> 1)"

text \<open>The writes, in order; the lock byte comes last.\<close>

definition provision_writes :: "(bytes \<Rightarrow> bytes) \<Rightarrow> provision_params \<Rightarrow> millis \<Rightarrow> (nat \<times> byte) list" where
  "provision_writes md5 p now =
     (let serial_bytes = pack_u32_be (params_serial p);
          timestamp_bytes = pack_u32_be (now div 1000);
          checksum = md5 ([pp_product p, params_model p, params_hw_rev p] @ serial_bytes @ timestamp_bytes)
      in [(ADDR_PRODUCT, pp_product p), (ADDR_MODEL, params_model p), (ADDR_HW_REV, params_hw_rev p),
          (ADDR_SERIAL, rom_at serial_bytes 0), (ADDR_SERIAL + 1, rom_at serial_bytes 1),
          (ADDR_SERIAL + 2, rom_at serial_bytes 2), (ADDR_SERIAL + 3, rom_at serial_bytes 3),
          (ADDR_MADE, rom_at timestamp_bytes 0), (ADDR_MADE + 1, rom_at timestamp_bytes 1),
          (ADDR_MADE + 2, rom_at timestamp_bytes 2), (ADDR_MADE + 3, rom_at timestamp_bytes 3)]
         @ map (\<lambda>i. (ADDR_CHKSUM + i, rom_at checksum i)) [0..<16]
         @ map (\<lambda>i. (ADDR_SIGNATURE + i, 0)) [0..<128]
         @ [(ADDR_INFO_LOCK, INFO_LOCK_BYTE)])"

definition write_all :: "'d rom_device \<Rightarrow> (nat \<times> byte) list \<Rightarrow> 'd \<Rightarrow> 'd" where
  "write_all dev ws d = fold (\<lambda>(a, v). dv_write dev a v) ws d"

definition provision_eeprom :: "'d rom_device \<Rightarrow> (bytes \<Rightarrow> bytes) \<Rightarrow> provision_params \<Rightarrow> millis \<Rightarrow> 'd \<Rightarrow> 'd" where
  "provision_eeprom dev md5 p now d = write_all dev (provision_writes md5 p now) d"

definition reads_provisioned :: "'d rom_device \<Rightarrow> (bytes \<Rightarrow> bytes) \<Rightarrow> 'd \<Rightarrow> bool" where
  "reads_provisioned dev md5 d =
     (case rom_parse md5 (dv_read dev d) of None \<Rightarrow> False | Some details \<Rightarrow> rd_is_provisioned details)"

definition assert_rom_writable_for_provision :: "'d rom_device \<Rightarrow> (bytes \<Rightarrow> bytes) \<Rightarrow> 'd \<Rightarrow> provision_error + bool" where
  "assert_rom_writable_for_provision dev md5 d =
     (if reads_provisioned dev md5 d then Inr True
      else if is_info_locked (dv_read dev d) then Inl ProvisionWipeRequired
      else Inr False)"

definition assert_rom_provisioned :: "'d rom_device \<Rightarrow> (bytes \<Rightarrow> bytes) \<Rightarrow> 'd \<Rightarrow> provision_error + unit" where
  "assert_rom_provisioned dev md5 d = (if reads_provisioned dev md5 d then Inr () else Inl ProvisionVerifyFailed)"

definition provision_eeprom_and_verify ::
    "'d rom_device \<Rightarrow> (bytes \<Rightarrow> bytes) \<Rightarrow> provision_params \<Rightarrow> millis \<Rightarrow> 'd \<Rightarrow> (provision_error + provision_result) \<times> 'd" where
  "provision_eeprom_and_verify dev md5 p now d =
     (case assert_rom_writable_for_provision dev md5 d of
        Inl e \<Rightarrow> (Inl e, d)
      | Inr True \<Rightarrow> (Inr AlreadyProvisioned, d)
      | Inr False \<Rightarrow>
          let d1 = provision_eeprom dev md5 p now d in
          (case assert_rom_provisioned dev md5 d1 of Inl e \<Rightarrow> (Inl e, d1) | Inr _ \<Rightarrow> (Inr Provisioned, d1)))"

subsection \<open>The written EEPROM\<close>

text \<open>What the flasher relies on: a written byte is read back, and no other byte changes.\<close>

definition eeprom_device :: "'d rom_device \<Rightarrow> bool" where
  "eeprom_device dev \<longleftrightarrow> (\<forall>a v d. dv_read dev (dv_write dev a v d) = (dv_read dev d)[a := v])"

lemma read_write_all:
  "eeprom_device dev \<Longrightarrow> dv_read dev (write_all dev ws d) = fold (\<lambda>(a, v) e. e[a := v]) ws (dv_read dev d)"
  unfolding write_all_def by (induction ws arbitrary: d) (auto simp: eeprom_device_def)

lemma fold_update_enumerate:
  "n + length vs \<le> length e \<Longrightarrow>
   fold (\<lambda>(a, v) e. e[a := v]) (enumerate n vs) e = take n e @ vs @ drop (n + length vs) e"
proof (induction vs arbitrary: n e)
  case (Cons v vs)
  have "fold (\<lambda>(a, v) e. e[a := v]) (enumerate n (v # vs)) e
      = take (Suc n) (e[n := v]) @ vs @ drop (Suc n + length vs) (e[n := v])"
    using Cons.IH [of "Suc n" "e[n := v]"] Cons.prems by simp
  also have "\<dots> = take n e @ (v # vs) @ drop (n + length (v # vs)) e"
    using Cons.prems by (simp add: take_Suc_conv_app_nth)
  finally show ?case .
qed simp

lemma map_upt_enumerate: "map (\<lambda>i. (n + i, f i)) [0..<k] = enumerate n (map f [0..<k])"
  by (rule nth_equalityI) (simp_all add: nth_enumerate_eq)

definition identity_bytes :: "(bytes \<Rightarrow> bytes) \<Rightarrow> provision_params \<Rightarrow> millis \<Rightarrow> bytes" where
  "identity_bytes md5 p now =
     (let head = [pp_product p, params_model p, params_hw_rev p] @ pack_u32_be (params_serial p) @ pack_u32_be (now div 1000)
      in head @ map (rom_at (md5 head)) [0..<16] @ replicate 128 0 @ [INFO_LOCK_BYTE])"

lemma length_pack [simp]: "length (pack_u32_be v) = 4"
  by (simp add: pack_u32_be_def Let_def)

lemma length_identity [simp]: "length (identity_bytes md5 p now) = 156"
  by (simp add: identity_bytes_def Let_def)

lemma pack_rom_at: "[rom_at (pack_u32_be v) 0, rom_at (pack_u32_be v) 1, rom_at (pack_u32_be v) 2, rom_at (pack_u32_be v) 3] = pack_u32_be v"
  by (simp add: pack_u32_be_def Let_def rom_at_def at_opt_def)

lemmas rom_addresses = ADDR_PRODUCT_def ADDR_MODEL_def ADDR_HW_REV_def ADDR_SERIAL_def ADDR_MADE_def ADDR_CHKSUM_def
  ADDR_SIGNATURE_def ADDR_INFO_LOCK_def

lemma signature_enumerate: "map (\<lambda>i. (ADDR_SIGNATURE + i, 0)) [0..<128] = enumerate ADDR_SIGNATURE (replicate 128 (0 :: byte))"
  unfolding map_upt_enumerate by (simp add: map_replicate_const)

lemma provision_writes_enumerate: "provision_writes md5 p now = enumerate 0 (identity_bytes md5 p now)"
proof -
  let ?s = "pack_u32_be (params_serial p)" and ?t = "pack_u32_be (now div 1000)"
  have s: "?s = [rom_at ?s 0, rom_at ?s 1, rom_at ?s 2, rom_at ?s 3]" "?t = [rom_at ?t 0, rom_at ?t 1, rom_at ?t 2, rom_at ?t 3]"
    by (rule pack_rom_at [symmetric])+
  define c where "c = md5 ([pp_product p, params_model p, params_hw_rev p] @ ?s @ ?t)"
  have "enumerate 0 (identity_bytes md5 p now)
      = enumerate 0 ([pp_product p, params_model p, params_hw_rev p] @ ?s @ ?t)
        @ enumerate 11 (map (rom_at c) [0..<16]) @ enumerate 27 (replicate 128 0) @ enumerate 155 [INFO_LOCK_BYTE]"
    by (simp add: identity_bytes_def Let_def enumerate_append_eq c_def)
  also have "enumerate 0 ([pp_product p, params_model p, params_hw_rev p] @ ?s @ ?t)
      = [(0, pp_product p), (1, params_model p), (2, params_hw_rev p), (3, rom_at ?s 0), (4, rom_at ?s 1), (5, rom_at ?s 2),
         (6, rom_at ?s 3), (7, rom_at ?t 0), (8, rom_at ?t 1), (9, rom_at ?t 2), (10, rom_at ?t 3)]"
    by (subst s(1), subst s(2)) (simp add: numeral_eq_Suc)
  finally show ?thesis
    unfolding provision_writes_def Let_def signature_enumerate c_def [symmetric] map_upt_enumerate
    by (simp add: rom_addresses map_replicate_const)
qed

lemma provisioned_rom:
  assumes "eeprom_device dev" "156 \<le> length (dv_read dev d)"
  shows "dv_read dev (provision_eeprom dev md5 p now d) = identity_bytes md5 p now @ drop 156 (dv_read dev d)"
  using fold_update_enumerate [of 0 "identity_bytes md5 p now" "dv_read dev d"] assms
  by (simp add: provision_eeprom_def read_write_all provision_writes_enumerate)

subsection \<open>Reading the identity back\<close>

lemma rom_at_nth: "a < length e \<Longrightarrow> rom_at e a = e ! a"
  by (simp add: rom_at_def at_opt_def)

lemma rom_slice_take: "a + n \<le> length e \<Longrightarrow> rom_slice e a n = take n (drop a e)"
  unfolding rom_slice_def by (rule nth_equalityI) (simp_all add: rom_at_nth)

lemma rom_at_Cons: "rom_at (b # bs) 0 = b" "rom_at (b # bs) (Suc n) = rom_at bs n" "rom_at (b # c # bs) 1 = c" "rom_at (b # c # d # bs) 2 = d"
  by (simp_all add: rom_at_def at_opt_def)

lemma rom_slice_all: "length c = n \<Longrightarrow> map (rom_at c) [0..<n] = c"
  by (rule nth_equalityI) (simp_all add: rom_at_nth)

lemma unpack_four: "unpack_u32_be [a, b, c, d] = unat d + 256 * unat c + 65536 * unat b + 16777216 * unat a"
  by (simp add: unpack_u32_be_def)

lemma unpack_pack [simp]: "unpack_u32_be (pack_u32_be v) = nat (v mod 4294967296)"
proof -
  define n where "n = nat (v mod 4294967296)"
  have "n < 4294967296" by (simp add: n_def nat_less_iff)
  note base256_digits [OF this]
  moreover have "unat (byte_of (m mod 256)) = m mod 256" for m by (rule unat_byte_of) simp
  ultimately show ?thesis
    unfolding pack_u32_be_def Let_def n_def [symmetric] unpack_four by (simp only:)
qed

lemma is_info_locked_nth: "156 \<le> length e \<Longrightarrow> is_info_locked e \<longleftrightarrow> e ! 155 = INFO_LOCK_BYTE"
  by (simp add: is_info_locked_def at_opt_def ADDR_INFO_LOCK_def)

lemma identity_fields:
  assumes "\<forall>x. length (md5 x) = (16 :: nat)" and e: "e = identity_bytes md5 p now @ rest"
  shows "is_info_locked e" "get_product e = pp_product p" "get_model e = params_model p"
    "get_hardware_revision e = params_hw_rev p" "get_serial_number e = pack_u32_be (params_serial p)"
    "get_made e = pack_u32_be (now div 1000)"
    "get_checksum e = md5 ([pp_product p, params_model p, params_hw_rev p] @ pack_u32_be (params_serial p) @ pack_u32_be (now div 1000))"
proof -
  have l: "156 \<le> length e" by (simp add: e)
  note d = e identity_bytes_def Let_def rom_addresses
  obtain pre where "identity_bytes md5 p now = pre @ [INFO_LOCK_BYTE]" "length pre = 155"
    by (simp add: identity_bytes_def Let_def)
  then show "is_info_locked e" unfolding is_info_locked_nth [OF l] using nth_append_length [of pre] by (simp add: e)
  show "get_product e = pp_product p" "get_model e = params_model p" "get_hardware_revision e = params_hw_rev p"
    by (simp_all add: get_product_def get_model_def get_hardware_revision_def d rom_at_Cons)
  show "get_serial_number e = pack_u32_be (params_serial p)" "get_made e = pack_u32_be (now div 1000)"
    using l by (simp_all add: get_serial_number_def get_made_def rom_slice_take rom_addresses, simp_all add: d)
  show "get_checksum e = md5 ([pp_product p, params_model p, params_hw_rev p] @ pack_u32_be (params_serial p) @ pack_u32_be (now div 1000))"
    using l assms(1) by (simp add: get_checksum_def rom_slice_take rom_addresses, simp add: d rom_slice_all)
qed

lemma identity_parses:
  assumes "\<forall>x. length (md5 x) = (16 :: nat)" "e = identity_bytes md5 p now @ rest"
  shows "\<exists>details. rom_parse md5 e = Some details \<and> rd_is_provisioned details
     \<and> rd_product details = pp_product p \<and> rd_model details = params_model p
     \<and> rd_hardware_revision details = params_hw_rev p
     \<and> int (rd_serial_number details) = params_serial p mod 4294967296
     \<and> int (rd_made details) = now div 1000 mod 4294967296"
  by (simp add: rom_parse_def Let_def identity_fields [OF assms] get_calculated_checksum_def)

lemma take_enumerate: "take n (enumerate m xs) = enumerate m (take n xs)"
  by (rule nth_equalityI) (simp_all add: nth_enumerate_eq)

lemma partial_writes_unlocked:
  assumes "eeprom_device dev" "156 \<le> length (dv_read dev d)" "n < 156" "\<not> is_info_locked (dv_read dev d)"
  shows "\<not> is_info_locked (dv_read dev (write_all dev (take n (provision_writes md5 p now)) d))"
proof -
  let ?e = "dv_read dev d" and ?w = "take n (identity_bytes md5 p now)"
  have "dv_read dev (write_all dev (take n (provision_writes md5 p now)) d) = ?w @ drop n ?e"
    using fold_update_enumerate [of 0 ?w ?e] assms
    by (simp add: read_write_all provision_writes_enumerate take_enumerate min_def)
  moreover have "(?w @ drop n ?e) ! 155 = ?e ! 155" using assms by (simp add: nth_append min_def)
  ultimately show ?thesis using assms by (simp add: is_info_locked_nth)
qed

text \<open>
  C29. Provisioning is all or nothing. On a device whose EEPROM reads back what was written, the verdict
  depends only on the EEPROM before: an identity that is valid is left alone, a locked one that is not
  is refused, and neither changes the device. Otherwise provisioning succeeds (the verification after
  the writes cannot fail), the EEPROM then parses to a provisioned identity with the given product,
  model, revision, serial number and time, and no byte behind the lock byte has changed. The lock byte
  is written last: after any proper prefix of the writes the EEPROM is still unlocked, so a run that is
  broken off can be repeated without a wipe.
\<close>

theorem provisioning_all_or_nothing:
  fixes p :: provision_params and now :: millis and n :: nat
  assumes "eeprom_device dev" "\<forall>x. length (md5 x) = 16" "168 \<le> length (dv_read dev d)"
  defines "written \<equiv> provision_eeprom dev md5 p now d"
    and "partly \<equiv> \<lambda>n. write_all dev (take n (provision_writes md5 p now)) d"
  shows "provision_eeprom_and_verify dev md5 p now d =
      (if reads_provisioned dev md5 d then (Inr AlreadyProvisioned, d)
       else if is_info_locked (dv_read dev d) then (Inl ProvisionWipeRequired, d)
       else (Inr Provisioned, written))
    \<and> (\<exists>details. rom_parse md5 (dv_read dev written) = Some details \<and> rd_is_provisioned details
       \<and> rd_product details = pp_product p \<and> rd_model details = params_model p
       \<and> rd_hardware_revision details = params_hw_rev p
       \<and> int (rd_serial_number details) = params_serial p mod 4294967296
       \<and> int (rd_made details) = now div 1000 mod 4294967296)
    \<and> drop 156 (dv_read dev written) = drop 156 (dv_read dev d)
    \<and> (\<not> is_info_locked (dv_read dev d) \<longrightarrow> n < length (provision_writes md5 p now) \<longrightarrow>
      \<not> reads_provisioned dev md5 (partly n) \<and> assert_rom_writable_for_provision dev md5 (partly n) = Inr False)"
    (is "?verdict \<and> ?parses \<and> ?rest \<and> ?partly")
proof (intro conjI)
  have l: "156 \<le> length (dv_read dev d)" using assms(3) by simp
  note e = provisioned_rom [OF assms(1) l, of md5 p now, folded written_def]
  show parses: ?parses by (rule identity_parses [OF assms(2) e])
  then have "reads_provisioned dev md5 written" by (auto simp: reads_provisioned_def)
  then show ?verdict
    by (simp add: provision_eeprom_and_verify_def assert_rom_writable_for_provision_def assert_rom_provisioned_def Let_def written_def)
  show ?rest using e by simp
  show ?partly
    using partial_writes_unlocked [OF assms(1) l, of n md5 p now]
    by (simp add: provision_writes_enumerate reads_provisioned_def assert_rom_writable_for_provision_def rom_parse_def partly_def)
qed

definition sample_device :: "bytes rom_device" where
  "sample_device = \<lparr>dv_write = \<lambda>a v e. e[a := v], dv_read = id\<rparr>"

definition sample_params :: provision_params where
  "sample_params = \<lparr>pp_product = 3, pp_model = 0xa1, pp_mapped_model = None, pp_hardware_revision = None, pp_serial_number = Some 7\<rparr>"

lemma provisioning_all_or_nothing_witness:
  "fst (provision_eeprom_and_verify sample_device (\<lambda>_. replicate 16 0) sample_params 1700000000000 (replicate 200 0xff)) = Inr Provisioned"
proof -
  have u: "\<not> is_info_locked (replicate 200 0xff)"
    by (simp add: is_info_locked_nth INFO_LOCK_BYTE_def)
  then have "\<not> reads_provisioned sample_device (\<lambda>_. replicate 16 0) (replicate 200 0xff)"
    by (simp add: reads_provisioned_def rom_parse_def sample_device_def)
  with u show ?thesis
    using provisioning_all_or_nothing [of sample_device "\<lambda>_. replicate 16 0" "replicate 200 0xff" sample_params 1700000000000]
    by (simp add: sample_device_def eeprom_device_def)
qed

end
