(* ===== verification/Nrf52_Dfu.thy ===== *)
theory Nrf52_Dfu
  imports Mesh_Prelude
begin

unbundle bit_operations_syntax

text \<open>
  The serial firmware transport of nRF52 boards (\<^verbatim>\<open>src/renderer/lib/flasher/nrf52DfuFlasher.ts\<close>): the checksum,
  the SLIP framing with its header, and the sequence of packets of one image. Frames are lists of
  numbers as in the code, which become bytes when they are written. The state holds the sequence
  number and what was written to the port. The receiver is the specification: it takes the bytes of
  the port apart and checks what a boot loader checks.
\<close>

subsection \<open>The checksum\<close>

definition crc16_step :: "32 word \<Rightarrow> byte \<Rightarrow> 32 word" where
  "crc16_step crc b =
     (let crc = (drop_bit 8 crc AND 0x00ff) OR (push_bit 8 crc AND 0xff00);
          crc = crc XOR ucast b;
          crc = crc XOR drop_bit 4 (crc AND 0x00ff);
          crc = crc XOR push_bit 4 (push_bit 8 crc);
          crc = crc XOR push_bit 1 (push_bit 4 (crc AND 0x00ff))
      in crc)"

definition nrf52_dfu_crc16 :: "bytes \<Rightarrow> 32 word \<Rightarrow> 32 word" where
  "nrf52_dfu_crc16 binary_data crc = fold (\<lambda>b c. crc16_step c b) binary_data crc AND 0xffff"

subsection \<open>Framing\<close>

definition DATA_INTEGRITY_CHECK_PRESENT :: int where "DATA_INTEGRITY_CHECK_PRESENT = 1"
definition RELIABLE_PACKET :: int where "RELIABLE_PACKET = 1"
definition HCI_PACKET_TYPE :: int where "HCI_PACKET_TYPE = 14"
definition DFU_INIT_PACKET :: int where "DFU_INIT_PACKET = 1"
definition DFU_START_PACKET :: int where "DFU_START_PACKET = 3"
definition DFU_DATA_PACKET :: int where "DFU_DATA_PACKET = 4"
definition DFU_STOP_DATA_PACKET :: int where "DFU_STOP_DATA_PACKET = 5"
definition HEX_TYPE_APPLICATION :: int where "HEX_TYPE_APPLICATION = 4"
definition DFU_PACKET_MAX_SIZE :: nat where "DFU_PACKET_MAX_SIZE = 512"
definition NRF52_DFU_STALL_TIMEOUT_MS :: millis where "NRF52_DFU_STALL_TIMEOUT_MS = 60000"

text \<open>\<^verbatim>\<open>new Uint8Array(data)\<close> of numbers, and the numbers of bytes.\<close>

definition uint8_array :: "int list \<Rightarrow> bytes" where
  "uint8_array = map word_of_int"

definition numbers_of :: "bytes \<Rightarrow> int list" where
  "numbers_of = map uint"

text \<open>The operators of the code work on 32 bits with a sign.\<close>

definition to_int32 :: "int \<Rightarrow> int" where
  "to_int32 n = signed_take_bit 31 n"

definition int32_to_bytes :: "int \<Rightarrow> int list" where
  "int32_to_bytes num =
     [to_int32 num AND 0x000000ff, drop_bit 8 (to_int32 num AND 0x0000ff00), drop_bit 16 (to_int32 num AND 0x00ff0000),
      drop_bit 24 (to_int32 (num AND 0xff000000))]"

definition int16_to_bytes :: "int \<Rightarrow> int list" where
  "int16_to_bytes num = [to_int32 num AND 0x00ff, drop_bit 8 (to_int32 num AND 0xff00)]"

definition create_slip_header :: "int \<Rightarrow> int \<Rightarrow> int \<Rightarrow> int \<Rightarrow> int \<Rightarrow> int list" where
  "create_slip_header seq dip rp pkt_type pkt_len =
     (let i0 = seq OR push_bit 3 ((seq + 1) mod 8) OR push_bit 6 dip OR push_bit 7 rp;
          i1 = pkt_type OR push_bit 4 (pkt_len AND 0x000f);
          i2 = drop_bit 4 (pkt_len AND 0x0ff0);
          i3 = (NOT (i0 + i1 + i2) + 1) AND 0xff
      in numbers_of (uint8_array [i0, i1, i2, i3]))"

fun slip_encode_esc_chars :: "int list \<Rightarrow> int list" where
  "slip_encode_esc_chars [] = []"
| "slip_encode_esc_chars (c # cs) =
     (if c = 0xc0 then [0xdb, 0xdc] else if c = 0xdb then [0xdb, 0xdd] else [c]) @ slip_encode_esc_chars cs"

record dfu_flasher =
  df_sequence_number :: int
  df_sd_size :: int
  df_total_size :: int
  df_wire :: "bytes list"

definition dfu_init :: dfu_flasher where
  "dfu_init = \<lparr>df_sequence_number = 0, df_sd_size = 0, df_total_size = 0, df_wire = []\<rparr>"

definition hci_packet :: "int \<Rightarrow> int list \<Rightarrow> int list" where
  "hci_packet seq frame =
     (let slip_header_bytes = create_slip_header seq DATA_INTEGRITY_CHECK_PRESENT RELIABLE_PACKET HCI_PACKET_TYPE (int (length frame));
          data = slip_header_bytes @ frame;
          crc = uint (nrf52_dfu_crc16 (uint8_array data) 0xffff);
          data = data @ [crc AND 0xff, drop_bit 8 (crc AND 0xff00)]
      in [0xc0] @ slip_encode_esc_chars data @ [0xc0])"

definition create_hci_packet_from_frame :: "int list \<Rightarrow> dfu_flasher \<Rightarrow> int list \<times> dfu_flasher" where
  "create_hci_packet_from_frame frame s =
     (let seq = (df_sequence_number s + 1) mod 8 in (hci_packet seq frame, s\<lparr>df_sequence_number := seq\<rparr>))"

definition send_packet :: "int list \<Rightarrow> dfu_flasher \<Rightarrow> dfu_flasher" where
  "send_packet data s = s\<lparr>df_wire := df_wire s @ [uint8_array data]\<rparr>"

definition create_image_size_packet :: "int \<Rightarrow> int \<Rightarrow> int \<Rightarrow> int list" where
  "create_image_size_packet softdevice_size bootloader_size app_size =
     int32_to_bytes softdevice_size @ int32_to_bytes bootloader_size @ int32_to_bytes app_size"

subsection \<open>The packets of an image\<close>

definition send_frame :: "int list \<Rightarrow> dfu_flasher \<Rightarrow> dfu_flasher" where
  "send_frame frame s = (case create_hci_packet_from_frame frame s of (packet, s) \<Rightarrow> send_packet packet s)"

definition send_start_dfu :: "int \<Rightarrow> int \<Rightarrow> int \<Rightarrow> int \<Rightarrow> dfu_flasher \<Rightarrow> dfu_flasher" where
  "send_start_dfu mode softdevice_size bootloader_size app_size s =
     (send_frame (int32_to_bytes DFU_START_PACKET @ int32_to_bytes mode
          @ create_image_size_packet softdevice_size bootloader_size app_size) s)
       \<lparr>df_sd_size := softdevice_size, df_total_size := softdevice_size + bootloader_size + app_size\<rparr>"

definition send_init_packet :: "bytes \<Rightarrow> dfu_flasher \<Rightarrow> dfu_flasher" where
  "send_init_packet init_packet s =
     send_frame (int32_to_bytes DFU_INIT_PACKET @ numbers_of init_packet @ int16_to_bytes 0x0000) s"

text \<open>All data packets are made before the first is written.\<close>

function firmware_pieces :: "bytes \<Rightarrow> bytes list" where
  "firmware_pieces bs =
     (if bs = [] then [] else take DFU_PACKET_MAX_SIZE bs # firmware_pieces (drop DFU_PACKET_MAX_SIZE bs))"
  by pat_completeness auto
termination by (relation "measure length") (auto simp: DFU_PACKET_MAX_SIZE_def)

declare firmware_pieces.simps [simp del]

fun make_packets :: "bytes list \<Rightarrow> dfu_flasher \<Rightarrow> int list list \<times> dfu_flasher" where
  "make_packets [] s = ([], s)"
| "make_packets (piece # pieces) s =
     (let (packet, s) = create_hci_packet_from_frame (int32_to_bytes DFU_DATA_PACKET @ numbers_of piece) s;
          (packets, s) = make_packets pieces s
      in (packet # packets, s))"

text \<open>
  The transfer races a loop over the packets against a stall timer and the abort signal. Its outcome is
  open while the loop runs; an error closes the port, so nothing is written any more. The progress is
  kept as the packets done and all packets, of which the code reports the percentage. A write of the open
  port is taken to succeed.
\<close>

datatype dfu_error = DfuCancelled | DfuStalled

record dfu_transfer =
  dt_flasher :: dfu_flasher
  dt_packets :: "int list list"
  dt_next :: nat
  dt_pausing :: bool
  dt_last_progress_at :: millis
  dt_progress :: "(nat \<times> nat) list"
  dt_aborted :: bool
  dt_outcome :: "(dfu_error + unit) option"

definition begin_firmware :: "bytes \<Rightarrow> bool \<Rightarrow> millis \<Rightarrow> dfu_flasher \<Rightarrow> dfu_transfer" where
  "begin_firmware firmware aborted now s =
     (case make_packets (firmware_pieces firmware) s of
        (packets, s) \<Rightarrow> \<lparr>dt_flasher = s, dt_packets = packets, dt_next = 0, dt_pausing = False, dt_last_progress_at = now,
                         dt_progress = [(0, length packets)], dt_aborted = aborted, dt_outcome = None\<rparr>)"

text \<open>A turn of the loop writes a packet and pauses; the turn after the last packet writes the stop packet.\<close>

definition transfer_turn :: "dfu_transfer \<Rightarrow> dfu_transfer" where
  "transfer_turn t =
     (if dt_next t < length (dt_packets t) then
        (if dt_aborted t then t\<lparr>dt_outcome := Some (Inl DfuCancelled)\<rparr>
         else t\<lparr>dt_flasher := send_packet (dt_packets t ! dt_next t) (dt_flasher t), dt_next := dt_next t + 1, dt_pausing := True\<rparr>)
      else t\<lparr>dt_flasher := send_frame (int32_to_bytes DFU_STOP_DATA_PACKET) (dt_flasher t), dt_outcome := Some (Inr ())\<rparr>)"

definition pause_over :: "millis \<Rightarrow> dfu_transfer \<Rightarrow> dfu_transfer" where
  "pause_over now t =
     t\<lparr>dt_pausing := False, dt_last_progress_at := now, dt_progress := dt_progress t @ [(dt_next t, length (dt_packets t))]\<rparr>"

datatype transfer_event = LoopTurn | PauseEnds millis | StallCheck millis | AbortSignal

definition transfer_step :: "transfer_event \<Rightarrow> dfu_transfer \<Rightarrow> dfu_transfer" where
  "transfer_step e t =
     (if dt_outcome t \<noteq> None then t
      else case e of
        LoopTurn \<Rightarrow> if dt_pausing t then t else transfer_turn t
      | PauseEnds now \<Rightarrow> if dt_pausing t then pause_over now t else t
      | StallCheck now \<Rightarrow>
          if now - dt_last_progress_at t \<ge> NRF52_DFU_STALL_TIMEOUT_MS then t\<lparr>dt_outcome := Some (Inl DfuStalled)\<rparr> else t
      | AbortSignal \<Rightarrow> t\<lparr>dt_aborted := True, dt_outcome := Some (Inl DfuCancelled)\<rparr>)"

definition dfu_send_image :: "bytes \<Rightarrow> bytes \<Rightarrow> bool \<Rightarrow> millis \<Rightarrow> transfer_event list \<Rightarrow> dfu_flasher \<Rightarrow> dfu_transfer" where
  "dfu_send_image init_packet firmware aborted now events s =
     fold transfer_step events
       (begin_firmware firmware aborted now
         (send_init_packet init_packet (send_start_dfu HEX_TYPE_APPLICATION 0 0 (int (length firmware)) s)))"

subsection \<open>The checksum is CRC-16-CCITT\<close>

text \<open>The reference: the register is shifted bit by bit, with the polynomial \<open>x\<^sup>1\<^sup>6 + x\<^sup>1\<^sup>2 + x\<^sup>5 + 1\<close>.\<close>

definition ccitt_bit :: "16 word \<Rightarrow> 16 word" where
  "ccitt_bit c = (if bit c 15 then push_bit 1 c XOR 0x1021 else push_bit 1 c)"

definition ccitt_byte :: "byte \<Rightarrow> 16 word \<Rightarrow> 16 word" where
  "ccitt_byte b c = (ccitt_bit ^^ 8) (c XOR push_bit 8 (ucast b))"

definition crc16_ccitt :: "bytes \<Rightarrow> 16 word" where
  "crc16_ccitt bs = fold ccitt_byte bs 0xffff"

text \<open>The step of the code on the sum of the register and the byte.\<close>

definition crc_swap :: "16 word \<Rightarrow> 16 word" where "crc_swap x = drop_bit 8 x OR push_bit 8 x"
definition crc_mix1 :: "16 word \<Rightarrow> 16 word" where "crc_mix1 c = c XOR drop_bit 4 (c AND 0x00ff)"
definition crc_mix2 :: "16 word \<Rightarrow> 16 word" where "crc_mix2 c = c XOR push_bit 12 c"
definition crc_mix3 :: "16 word \<Rightarrow> 16 word" where "crc_mix3 c = c XOR push_bit 5 (c AND 0x00ff)"

definition swapped :: "16 word \<Rightarrow> 16 word" where
  "swapped x = crc_mix3 (crc_mix2 (crc_mix1 (crc_swap x)))"

lemma mask_ff: "(255 :: 'a :: len word) = mask 8"
  by (simp add: mask_eq_exp_minus_1)

lemma mask_ff00: "(65280 :: 32 word) = push_bit 8 (mask 8)"
  by (simp add: mask_eq_exp_minus_1 push_bit_eq_mult)

lemmas crc_bits = mask_ff mask_ff00 crc_swap_def crc_mix1_def crc_mix2_def crc_mix3_def bit_simps

lemma crc_stages_xor:
  "crc_swap (x XOR y) = crc_swap x XOR crc_swap y" "crc_mix1 (x XOR y) = crc_mix1 x XOR crc_mix1 y"
  "crc_mix2 (x XOR y) = crc_mix2 x XOR crc_mix2 y" "crc_mix3 (x XOR y) = crc_mix3 x XOR crc_mix3 y"
  by (rule bit_word_eqI; auto simp: crc_bits dest: bit_imp_le_length)+

lemma ccitt_bit_xor: "ccitt_bit (x XOR y) = ccitt_bit x XOR ccitt_bit y"
proof -
  have "push_bit 1 (x XOR y) = push_bit 1 x XOR push_bit 1 y" by (simp add: push_bit_xor)
  then show ?thesis by (simp add: ccitt_bit_def bit_xor_iff ac_simps)
qed

lemma ccitt_bits_xor: "(ccitt_bit ^^ n) (x XOR y) = (ccitt_bit ^^ n) x XOR (ccitt_bit ^^ n) y"
  by (induction n) (simp_all add: ccitt_bit_xor)

lemma swapped_xor: "swapped (x XOR y) = swapped x XOR swapped y"
  by (simp add: swapped_def crc_stages_xor)

lemma additive_zero: "(\<And>x y :: 16 word. f (x XOR y) = f x XOR f y) \<Longrightarrow> f 0 = (0 :: 16 word)"
  by (metis xor_self_eq)

text \<open>Two additive functions that agree on the single bits are equal.\<close>

lemma additive_eq:
  fixes f g :: "16 word \<Rightarrow> 16 word"
  assumes "\<And>x y. f (x XOR y) = f x XOR f y" "\<And>x y. g (x XOR y) = g x XOR g y" "\<And>i. i < 16 \<Longrightarrow> f (push_bit i 1) = g (push_bit i 1)"
  shows "f x = g x"
proof -
  have "f (take_bit n x) = g (take_bit n x)" if "n \<le> 16" for n
    using that
  proof (induction n)
    case 0
    then show ?case using additive_zero [of f, OF assms(1)] additive_zero [of g, OF assms(2)] by simp
  next
    case (Suc n)
    have "take_bit (Suc n) x = take_bit n x XOR (if bit x n then push_bit n 1 else 0)"
      by (rule bit_word_eqI) (auto simp: bit_simps less_Suc_eq)
    then show ?case using Suc assms by (cases "bit x n") auto
  qed
  from this [of 16] show ?thesis by (simp add: take_bit_word_eq_self)
qed

lemma funpow_8: "(f ^^ 8) x = f (f (f (f (f (f (f (f x)))))))"
  by (simp add: eval_nat_numeral)

lemma below_16: "(i :: nat) < 16 \<Longrightarrow> i \<in> {0, 1, 2, 3, 4, 5, 6, 7, 8, 9, 10, 11, 12, 13, 14, 15}"
  unfolding insert_iff empty_iff by arith

lemma swapped_ccitt: "swapped x = (ccitt_bit ^^ 8) x"
proof (rule additive_eq [OF swapped_xor ccitt_bits_xor])
  fix i :: nat assume "i < 16"
  from below_16 [OF this] show "swapped (push_bit i 1) = (ccitt_bit ^^ 8) (push_bit i 1)"
    by (elim insertE emptyE)
      (simp_all add: swapped_def crc_swap_def crc_mix1_def crc_mix2_def crc_mix3_def funpow_8 ccitt_bit_def)
qed

lemma ucast_stages:
  fixes c :: "32 word"
  shows "ucast ((drop_bit 8 c AND 0x00ff) OR (push_bit 8 c AND 0xff00)) = crc_swap (ucast c)"
    and "ucast (c XOR ucast (b :: byte)) = (ucast c XOR ucast b :: 16 word)"
    and "ucast (c XOR drop_bit 4 (c AND 0x00ff)) = crc_mix1 (ucast c)"
    and "ucast (c XOR push_bit 4 (push_bit 8 c)) = crc_mix2 (ucast c)"
    and "ucast (c XOR push_bit 1 (push_bit 4 (c AND 0x00ff))) = crc_mix3 (ucast c)"
  by (rule bit_word_eqI; auto simp: crc_bits dest: bit_imp_le_length)+

lemma crc_swap_byte: "crc_swap (push_bit 8 (ucast (b :: byte))) = ucast b"
  by (rule bit_word_eqI) (auto simp: crc_bits dest: bit_imp_le_length)

lemma crc16_step_ccitt: "ucast (crc16_step c b) = ccitt_byte b (ucast c)"
proof -
  have "ucast (crc16_step c b) = crc_mix3 (crc_mix2 (crc_mix1 (crc_swap (ucast c) XOR ucast b)))"
    by (simp only: crc16_step_def Let_def ucast_stages)
  then show ?thesis by (simp add: ccitt_byte_def swapped_ccitt [symmetric] swapped_def crc_stages_xor(1) crc_swap_byte)
qed

lemma crc_fold_ccitt: "ucast (fold (\<lambda>b c. crc16_step c b) bs c) = fold ccitt_byte bs (ucast c)"
  by (induction bs arbitrary: c) (simp_all add: crc16_step_ccitt)

lemma low_half: "c AND 0xffff = ucast (ucast c :: 16 word)" for c :: "32 word"
proof -
  have mask: "(65535 :: 32 word) = mask 16" by (simp add: mask_eq_exp_minus_1)
  show ?thesis unfolding mask by (intro bit_word_eqI) (auto simp: bit_simps)
qed

text \<open>
  The checksum of the code, five shifts and sums per byte on 32-bit numbers, is CRC-16-CCITT, computed
  bit by bit with the polynomial of the standard, for every data and every start value.
\<close>

theorem dfu_crc_is_ccitt: "nrf52_dfu_crc16 bs crc = ucast (fold ccitt_byte bs (ucast crc))"
  by (simp add: nrf52_dfu_crc16_def low_half crc_fold_ccitt)

subsection \<open>Bytes on the wire\<close>

fun slip_escape :: "bytes \<Rightarrow> bytes" where
  "slip_escape [] = []"
| "slip_escape (b # bs) =
     (if b = 0xc0 then [0xdb, 0xdc] else if b = 0xdb then [0xdb, 0xdd] else [b]) @ slip_escape bs"

definition header_bytes :: "nat \<Rightarrow> nat \<Rightarrow> bytes" where
  "header_bytes seq len =
     (let h0 = word_of_nat (seq + 8 * ((seq + 1) mod 8) + 192); h1 = word_of_nat (14 + 16 * (len mod 16));
          h2 = word_of_nat (len div 16)
      in [h0, h1, h2, - (h0 + h1 + h2)])"

definition sealed :: "bytes \<Rightarrow> bytes" where
  "sealed d = (let crc = crc16_ccitt d in d @ [ucast crc, ucast (drop_bit 8 crc)])"

definition packet_bytes :: "nat \<Rightarrow> bytes \<Rightarrow> bytes" where
  "packet_bytes seq frame = [0xc0] @ slip_escape (sealed (header_bytes seq (length frame) @ frame)) @ [0xc0]"

lemma uint8_numbers [simp]: "uint8_array (numbers_of bs) = bs"
  by (simp add: uint8_array_def numbers_of_def comp_def)

lemma numbers_append [simp]: "numbers_of (a @ b) = numbers_of a @ numbers_of b"
  by (simp add: numbers_of_def)

lemma uint8_append [simp]: "uint8_array (a @ b) = uint8_array a @ uint8_array b"
  by (simp add: uint8_array_def)

lemma slip_numbers: "slip_encode_esc_chars (numbers_of bs) = numbers_of (slip_escape bs)"
proof (induction bs)
  case (Cons b bs)
  have "uint b = 192 \<longleftrightarrow> b = 192" "uint b = 219 \<longleftrightarrow> b = 219"
    by (simp_all add: word_uint_eq_iff)
  then show ?case using Cons by (simp add: numbers_of_def)
qed (simp add: numbers_of_def)

lemma and_mask_mod: "x AND mask n = x mod 2 ^ n" for x :: int
  by (simp add: take_bit_eq_mod flip: take_bit_eq_mask)

lemma int32_to_bytes_numbers:
  assumes "0 \<le> n" "n < 2 ^ 31"
  shows "int32_to_bytes n = numbers_of [word_of_int n, word_of_int (n div 256), word_of_int (n div 65536), word_of_int (n div 16777216)]"
proof -
  have n: "to_int32 n = n" using assms by (simp add: to_int32_def signed_take_bit_int_eq_self)
  have masks: "(255 :: int) = mask 8" "(0xff00 :: int) = push_bit 8 (mask 8)" "(0xff0000 :: int) = push_bit 16 (mask 8)"
      "(0xff000000 :: int) = push_bit 24 (mask 8)"
    by (simp_all add: mask_eq_exp_minus_1 push_bit_eq_mult)
  have part: "drop_bit k (n AND push_bit k (mask 8)) = n div 2 ^ k mod 256" for k
  proof -
    have "drop_bit k (n AND push_bit k (mask 8)) = drop_bit k n AND mask 8" by (rule bit_eqI) (auto simp: bit_simps)
    then show ?thesis by (simp add: and_mask_mod drop_bit_eq_div)
  qed
  have low: "n AND mask 8 = n mod 256" by (simp add: and_mask_mod)
  have "n AND push_bit 24 (mask 8) \<le> n" using assms(1) by (simp add: AND_upper1)
  moreover have "0 \<le> n AND push_bit 24 (mask 8)" using assms(1) by simp
  ultimately have high: "to_int32 (n AND push_bit 24 (mask 8)) = n AND push_bit 24 (mask 8)"
    using assms(2) unfolding to_int32_def by (intro signed_take_bit_int_eq_self) linarith+
  show ?thesis
    unfolding int32_to_bytes_def n masks high part low numbers_of_def
    by (simp add: uint_word_of_int)
qed

lemma to_int32_small: "0 \<le> n \<Longrightarrow> n < 65536 \<Longrightarrow> to_int32 n = n"
  by (simp add: to_int32_def signed_take_bit_int_eq_self)

lemma slip_header_numbers:
  assumes "seq < 8" "len < 4096"
  shows "create_slip_header (int seq) DATA_INTEGRITY_CHECK_PRESENT RELIABLE_PACKET HCI_PACKET_TYPE (int len) = numbers_of (header_bytes seq len)"
proof -
  have i0: "int seq OR push_bit 3 ((int seq + 1) mod 8) OR push_bit 6 1 OR push_bit 7 1 = int (seq + 8 * ((seq + 1) mod 8) + 192)"
  proof -
    have "seq \<in> {0, 1, 2, 3, 4, 5, 6, 7}" using assms(1) unfolding insert_iff empty_iff by arith
    then show ?thesis by (elim insertE emptyE) simp_all
  qed
  have masks: "(15 :: int) = mask 4" "(0x0ff0 :: int) = push_bit 4 (mask 8)" by (simp_all add: mask_eq_exp_minus_1 push_bit_eq_mult)
  have "len mod 16 \<in> {0, 1, 2, 3, 4, 5, 6, 7, 8, 9, 10, 11, 12, 13, 14, 15}" by (intro below_16) simp
  then have "14 OR push_bit 4 (int (len mod 16)) = int (14 + 16 * (len mod 16))" by (elim insertE emptyE) simp_all
  then have i1: "14 OR push_bit 4 (int len AND 15) = int (14 + 16 * (len mod 16))"
    by (simp only: masks(1) and_mask_mod) (simp add: zmod_int)
  have "drop_bit 4 (int len AND push_bit 4 (mask 8)) = drop_bit 4 (int len) AND mask 8" by (rule bit_eqI) (auto simp: bit_simps)
  also have "\<dots> = int (len div 16)" using assms(2) by (simp add: and_mask_mod drop_bit_eq_div zdiv_int) 
  finally have i2: "drop_bit 4 (int len AND 0x0ff0) = int (len div 16)" unfolding masks(2) .
  have i3: "(word_of_int ((NOT x + 1) AND 0xff) :: byte) = - word_of_int x" for x
  proof -
    have "(255 :: int) = mask 8" by (simp add: mask_eq_exp_minus_1)
    then have "(NOT x + 1) AND 255 = (- x) mod 256" by (simp only: and_mask_mod) (simp add: not_int_def)
    moreover have "(word_of_int ((- x) mod 256) :: byte) = word_of_int (- x)"
      by (simp only: word_of_int_eq_iff) (simp add: take_bit_eq_mod)
    ultimately show ?thesis by (simp only: wi_hom_neg)
  qed
  show ?thesis
    unfolding create_slip_header_def Let_def DATA_INTEGRITY_CHECK_PRESENT_def RELIABLE_PACKET_def HCI_PACKET_TYPE_def i0 i1 i2
    by (simp add: uint8_array_def i3 header_bytes_def Let_def)
qed

lemma hci_packet_bytes:
  assumes "seq < 8" "length f < 4096"
  shows "uint8_array (hci_packet (int seq) (numbers_of f)) = packet_bytes seq f"
proof -
  let ?d = "header_bytes seq (length f) @ f"
  let ?crc = "crc16_ccitt ?d"
  have crc: "uint (nrf52_dfu_crc16 ?d 0xffff) = uint ?crc"
    by (simp add: nrf52_dfu_crc16_def low_half crc_fold_ccitt crc16_ccitt_def uint_up_ucast is_up)
  have masks: "(255 :: int) = mask 8" "(0xff00 :: int) = push_bit 8 (mask 8)" by (simp_all add: mask_eq_exp_minus_1 push_bit_eq_mult)
  have lo: "uint ?crc AND 0xff = uint (ucast ?crc :: byte)"
    unfolding masks(1) by (rule bit_eqI) (auto simp: bit_simps dest: bit_imp_le_length)
  have "uint (ucast (drop_bit 8 ?crc) :: byte) = drop_bit 8 (uint ?crc AND push_bit 8 (mask 8))"
    by (rule bit_eqI) (auto simp: bit_simps dest: bit_imp_le_length)
  then have hi: "drop_bit 8 (uint ?crc AND 0xff00) = uint (ucast (drop_bit 8 ?crc) :: byte)" unfolding masks(2) by simp
  have "hci_packet (int seq) (numbers_of f) = [0xc0] @ slip_encode_esc_chars (numbers_of (sealed ?d)) @ [0xc0]"
    using slip_header_numbers [OF assms] crc lo hi
    by (simp add: hci_packet_def sealed_def Let_def numbers_of_def uint8_array_def comp_def)
  moreover have "uint8_array [0xc0] = [0xc0]" by (simp add: uint8_array_def)
  ultimately show ?thesis by (simp only: slip_numbers uint8_append uint8_numbers packet_bytes_def)
qed

subsection \<open>The receiver\<close>

fun slip_unescape :: "bytes \<Rightarrow> bytes option" where
  "slip_unescape [] = Some []"
| "slip_unescape (b # bs) =
     (if b = 0xdb then
        (case bs of
           [] \<Rightarrow> None
         | c # cs \<Rightarrow>
             if c = 0xdc then map_option ((#) 0xc0) (slip_unescape cs)
             else if c = 0xdd then map_option ((#) 0xdb) (slip_unescape cs) else None)
      else map_option ((#) b) (slip_unescape bs))"

text \<open>The frames between the delimiters.\<close>

fun wire_frames :: "bytes \<Rightarrow> bytes \<Rightarrow> bytes list" where
  "wire_frames acc [] = []"
| "wire_frames acc (b # bs) =
     (if b = 0xc0 then (if acc = [] then [] else [acc]) @ wire_frames [] bs else wire_frames (acc @ [b]) bs)"

text \<open>A frame opens when its header sums to zero, its type and length are right and its checksum matches.\<close>

definition open_frame :: "bytes \<Rightarrow> (nat \<times> bytes) option" where
  "open_frame p =
     (case slip_unescape p of
        None \<Rightarrow> None
      | Some d \<Rightarrow>
          let n = length d - 6; payload = take n (drop 4 d); header = take 4 d; crc = crc16_ccitt (take (n + 4) d) in
          if 6 \<le> length d \<and> sum_list header = 0 \<and> unat (d ! 1) mod 16 = 14 \<and> unat (d ! 1) div 16 + 16 * unat (d ! 2) = n
            \<and> drop (n + 4) d = [ucast crc, ucast (drop_bit 8 crc)]
          then Some (unat (d ! 0) mod 8, payload) else None)"

text \<open>Numbers are sent with the lowest byte first.\<close>

fun le_value :: "bytes \<Rightarrow> nat" where
  "le_value [] = 0"
| "le_value (b # bs) = unat b + 256 * le_value bs"

record dfu_receiver =
  rx_seq :: nat
  rx_start :: "nat list"
  rx_init :: bytes
  rx_image :: bytes
  rx_stopped :: bool

definition rx_begin :: dfu_receiver where
  "rx_begin = \<lparr>rx_seq = 0, rx_start = [], rx_init = [], rx_image = [], rx_stopped = False\<rparr>"

text \<open>The start packet has four numbers: the mode and the sizes of the soft device, the boot loader and the application.\<close>

definition receive_payload :: "bytes \<Rightarrow> dfu_receiver \<Rightarrow> dfu_receiver option" where
  "receive_payload payload r =
     (let kind = le_value (take 4 payload); body = drop 4 payload in
      if rx_stopped r then None
      else if kind = 3 then
        Some (r\<lparr>rx_start := map (\<lambda>i. le_value (take 4 (drop (4 * i) body))) [0..<4]\<rparr>)
      else if kind = 1 then Some (r\<lparr>rx_init := body\<rparr>)
      else if kind = 4 then Some (r\<lparr>rx_image := rx_image r @ body\<rparr>)
      else if kind = 5 then Some (r\<lparr>rx_stopped := True\<rparr>) else None)"

definition receive_frame :: "bytes \<Rightarrow> dfu_receiver \<Rightarrow> dfu_receiver option" where
  "receive_frame p r =
     (case open_frame p of
        None \<Rightarrow> None
      | Some (seq, payload) \<Rightarrow>
          if seq = (rx_seq r + 1) mod 8 then receive_payload payload (r\<lparr>rx_seq := seq\<rparr>) else None)"

fun receive_all :: "bytes list \<Rightarrow> dfu_receiver \<Rightarrow> dfu_receiver option" where
  "receive_all [] r = Some r"
| "receive_all (p # ps) r = (case receive_frame p r of None \<Rightarrow> None | Some r \<Rightarrow> receive_all ps r)"

definition receive :: "bytes \<Rightarrow> dfu_receiver option" where
  "receive wire = receive_all (wire_frames [] wire) rx_begin"

lemma unescape_escape [simp]: "slip_unescape (slip_escape bs) = Some bs"
  by (induction bs) auto

lemma escape_no_delimiter: "0xc0 \<notin> set (slip_escape bs)"
  by (induction bs) auto

lemma wire_frames_packet: "0xc0 \<notin> set p \<Longrightarrow> acc @ p \<noteq> [] \<Longrightarrow> wire_frames acc (p @ 0xc0 # rest) = (acc @ p) # wire_frames [] rest"
  by (induction p arbitrary: acc) auto

lemma escape_Nil [simp]: "slip_escape bs = [] \<longleftrightarrow> bs = []"
  by (cases bs) auto

lemma wire_frames_packets: "wire_frames [] (packet_bytes seq f @ rest) = slip_escape (sealed (header_bytes seq (length f) @ f)) # wire_frames [] rest"
  using wire_frames_packet [OF escape_no_delimiter, of "[]" "sealed (header_bytes seq (length f) @ f)" rest]
  by (simp add: packet_bytes_def sealed_def Let_def)

lemma header_fields:
  assumes "seq < 8" "len < 4096"
  obtains h0 h1 h2 where "header_bytes seq len = [h0, h1, h2, - (h0 + h1 + h2)]" "unat h0 mod 8 = seq" "unat h1 mod 16 = 14"
    "unat h1 div 16 + 16 * unat h2 = len"
proof
  let ?h0 = "word_of_nat (seq + 8 * ((seq + 1) mod 8) + 192) :: byte"
  let ?h1 = "word_of_nat (14 + 16 * (len mod 16)) :: byte"
  let ?h2 = "word_of_nat (len div 16) :: byte"
  have byte: "unat (word_of_nat n :: byte) = n" if "n < 256" for n using that by (simp add: unat_of_nat)
  have "14 + 16 * (len mod 16) < 256" "len div 16 < 256" using assms(2) by auto
  then have h1: "unat ?h1 = 14 + 16 * (len mod 16)" and h2: "unat ?h2 = len div 16" by (blast intro: byte)+
  show "header_bytes seq len = [?h0, ?h1, ?h2, - (?h0 + ?h1 + ?h2)]" by (simp only: header_bytes_def Let_def)
  have "seq \<in> {0, 1, 2, 3, 4, 5, 6, 7}" using assms(1) unfolding insert_iff empty_iff by arith
  then show "unat ?h0 mod 8 = seq" by (elim insertE emptyE) simp_all
  show "unat ?h1 mod 16 = 14" unfolding h1 by simp
  show "unat ?h1 div 16 + 16 * unat ?h2 = len" unfolding h1 h2 by simp
qed

lemma sealed_split:
  assumes "n = length d"
  shows "take n (sealed d) = d" "drop n (sealed d) = [ucast (crc16_ccitt d), ucast (drop_bit 8 (crc16_ccitt d))]"
  using assms by (simp_all add: sealed_def Let_def)

lemma open_sealed:
  assumes "seq < 8" "length f < 4096"
  shows "open_frame (slip_escape (sealed (header_bytes seq (length f) @ f))) = Some (seq, f)"
proof -
  from header_fields [OF assms] obtain h0 h1 h2 where h: "header_bytes seq (length f) = [h0, h1, h2, - (h0 + h1 + h2)]"
      "unat h0 mod 8 = seq" "unat h1 mod 16 = 14" "unat h1 div 16 + 16 * unat h2 = length f" .
  let ?d = "[h0, h1, h2, - (h0 + h1 + h2)] @ f"
  have sum: "sum_list [h0, h1, h2, - (h0 + h1 + h2)] = 0" by simp
  have d: "length f + 4 = length ?d" by simp
  have parts: "length (sealed ?d) = length f + 6" "take 4 (sealed ?d) = [h0, h1, h2, - (h0 + h1 + h2)]"
      "take (length f) (drop 4 (sealed ?d)) = f" "sealed ?d ! 0 = h0" "sealed ?d ! 1 = h1" "sealed ?d ! 2 = h2"
    by (simp_all add: sealed_def Let_def)
  show ?thesis
    unfolding h(1) open_frame_def unescape_escape option.case Let_def parts sealed_split [OF d] add_diff_cancel_right' sum h(2-4)
    by simp
qed

subsection \<open>What the receiver makes of the packets\<close>

text \<open>The payloads as numbered packets, and the receiver on the payloads.\<close>

fun wire_of :: "nat \<Rightarrow> bytes list \<Rightarrow> bytes list" where
  "wire_of q [] = []"
| "wire_of q (f # fs) = packet_bytes ((q + 1) mod 8) f # wire_of ((q + 1) mod 8) fs"

fun receive_payloads :: "bytes list \<Rightarrow> dfu_receiver \<Rightarrow> dfu_receiver option" where
  "receive_payloads [] r = Some r"
| "receive_payloads (f # fs) r =
     (case receive_payload f (r\<lparr>rx_seq := (rx_seq r + 1) mod 8\<rparr>) of None \<Rightarrow> None | Some r \<Rightarrow> receive_payloads fs r)"

lemma length_wire_of [simp]: "length (wire_of q fs) = length fs"
  by (induction fs arbitrary: q) auto

lemma wire_of_append: "q < 8 \<Longrightarrow> wire_of q (fs @ gs) = wire_of q fs @ wire_of ((q + length fs) mod 8) gs"
  by (induction fs arbitrary: q) (auto simp: mod_simps)

lemma receive_payload_seq: "receive_payload f r = Some r' \<Longrightarrow> rx_seq r' = rx_seq r"
  by (auto simp: receive_payload_def Let_def split: if_splits)

lemma receive_wire_of:
  assumes "\<forall>f \<in> set fs. length f < 4096"
  shows "receive_all (wire_frames [] (concat (wire_of (rx_seq r) fs))) r = receive_payloads fs r"
  using assms
proof (induction fs arbitrary: r)
  case (Cons f fs)
  let ?q = "(rx_seq r + 1) mod 8"
  have "receive_frame (slip_escape (sealed (header_bytes ?q (length f) @ f))) r = receive_payload f (r\<lparr>rx_seq := ?q\<rparr>)"
    using Cons.prems by (simp add: receive_frame_def open_sealed)
  moreover have "receive_all (wire_frames [] (concat (wire_of ?q fs))) r' = receive_payloads fs r'"
    if "receive_payload f (r\<lparr>rx_seq := ?q\<rparr>) = Some r'" for r'
    using Cons.IH [of r'] Cons.prems receive_payload_seq [OF that] by simp
  ultimately show ?case by (simp add: wire_frames_packets split: option.split)
qed simp

lemma receive_payloads_append:
  "receive_payloads (fs @ gs) r = (case receive_payloads fs r of None \<Rightarrow> None | Some r \<Rightarrow> receive_payloads gs r)"
  by (induction fs arbitrary: r) (auto split: option.split)

subsection \<open>The transfer keeps the packets in order\<close>

definition data_payload :: "bytes \<Rightarrow> bytes" where "data_payload piece = [4, 0, 0, 0] @ piece"

lemma next_seq: "(int q + 1) mod 8 = int ((q + 1) mod 8)"
  by (simp add: zmod_int add.commute)

lemma create_packet:
  assumes "df_sequence_number s = int q" "length f < 4096"
  obtains p where "create_hci_packet_from_frame (numbers_of f) s = (p, s\<lparr>df_sequence_number := int ((q + 1) mod 8)\<rparr>)"
    "uint8_array p = packet_bytes ((q + 1) mod 8) f"
proof
  show "create_hci_packet_from_frame (numbers_of f) s
      = (hci_packet (int ((q + 1) mod 8)) (numbers_of f), s\<lparr>df_sequence_number := int ((q + 1) mod 8)\<rparr>)"
    by (simp only: create_hci_packet_from_frame_def assms(1) next_seq Let_def)
  show "uint8_array (hci_packet (int ((q + 1) mod 8)) (numbers_of f)) = packet_bytes ((q + 1) mod 8) f"
    by (rule hci_packet_bytes) (use assms(2) in simp_all)
qed

lemma send_frame_wire:
  assumes "df_sequence_number s = int q" "length f < 4096"
  shows "send_frame (numbers_of f) s
    = s\<lparr>df_sequence_number := int ((q + 1) mod 8), df_wire := df_wire s @ [packet_bytes ((q + 1) mod 8) f]\<rparr>"
proof -
  from create_packet [OF assms] obtain p where "create_hci_packet_from_frame (numbers_of f) s
      = (p, s\<lparr>df_sequence_number := int ((q + 1) mod 8)\<rparr>)" "uint8_array p = packet_bytes ((q + 1) mod 8) f" .
  then show ?thesis by (simp add: send_frame_def send_packet_def del: of_nat_mod zmod_int)
qed

lemma data_kind: "int32_to_bytes DFU_DATA_PACKET = numbers_of [4, 0, 0, 0]"
  by (simp add: DFU_DATA_PACKET_def int32_to_bytes_numbers)

lemma make_packets_wire:
  assumes "df_sequence_number s = int q" "q < 8" "\<forall>p \<in> set pieces. length p < 4000"
  shows "make_packets pieces s = (fst (make_packets pieces s), s\<lparr>df_sequence_number := int ((q + length pieces) mod 8)\<rparr>)
    \<and> map uint8_array (fst (make_packets pieces s)) = wire_of q (map data_payload pieces)"
  using assms
proof (induction pieces arbitrary: s q)
  case Nil
  then show ?case by simp
next
  case (Cons p ps)
  have "length (data_payload p) < 4096" using Cons.prems(3) by (simp add: data_payload_def)
  from create_packet [OF Cons.prems(1) this] obtain x where x: "create_hci_packet_from_frame (numbers_of (data_payload p)) s
      = (x, s\<lparr>df_sequence_number := int ((q + 1) mod 8)\<rparr>)" "uint8_array x = packet_bytes ((q + 1) mod 8) (data_payload p)" .
  moreover have "int32_to_bytes DFU_DATA_PACKET @ numbers_of p = numbers_of (data_payload p)"
    by (simp only: data_kind data_payload_def numbers_append)
  ultimately show ?case
    using Cons.IH [of "s\<lparr>df_sequence_number := int ((q + 1) mod 8)\<rparr>" "(q + 1) mod 8"] Cons.prems
    by (auto simp: mod_simps split: prod.splits)
qed

lemma pieces_concat: "concat (firmware_pieces fw) = fw"
  by (induction fw rule: firmware_pieces.induct) (subst firmware_pieces.simps, auto)

lemma pieces_small: "\<forall>p \<in> set (firmware_pieces fw). length p < 4000"
  by (induction fw rule: firmware_pieces.induct) (subst firmware_pieces.simps, auto simp: DFU_PACKET_MAX_SIZE_def)

lemma firmware_pieces_take: "concat (take k (firmware_pieces fw)) = take (512 * k) fw"
proof (induction fw arbitrary: k rule: firmware_pieces.induct)
  case (1 bs)
  show ?case
  proof (cases "bs = [] \<or> k = 0")
    case True
    then show ?thesis by (auto simp: firmware_pieces.simps [of "[]"])
  next
    case False
    then obtain j where k: "k = Suc j" by (cases k) auto
    have "take 512 bs @ take (512 * j) (drop 512 bs) = take (512 * Suc j) bs" by (simp add: take_add)
    then show ?thesis using False 1 [of j] by (subst firmware_pieces.simps) (simp add: k DFU_PACKET_MAX_SIZE_def)
  qed
qed

definition start_payload :: "nat \<Rightarrow> bytes" where
  "start_payload app =
     [3, 0, 0, 0, 4, 0, 0, 0, 0, 0, 0, 0, 0, 0, 0, 0,
      word_of_nat app, word_of_nat (app div 256), word_of_nat (app div 65536), word_of_nat (app div 16777216)]"

definition init_payload :: "bytes \<Rightarrow> bytes" where "init_payload ip = [1, 0, 0, 0] @ ip @ [0, 0]"
definition stop_payload :: bytes where "stop_payload = [5, 0, 0, 0]"

lemma small_numbers:
  "int32_to_bytes DFU_START_PACKET = numbers_of [3, 0, 0, 0]" "int32_to_bytes HEX_TYPE_APPLICATION = numbers_of [4, 0, 0, 0]"
  "int32_to_bytes 0 = numbers_of [0, 0, 0, 0]" "int32_to_bytes DFU_INIT_PACKET = numbers_of [1, 0, 0, 0]"
  "int32_to_bytes DFU_STOP_DATA_PACKET = numbers_of stop_payload" "int16_to_bytes 0 = numbers_of [0, 0]"
  by (simp_all add: DFU_START_PACKET_def HEX_TYPE_APPLICATION_def DFU_INIT_PACKET_def DFU_STOP_DATA_PACKET_def stop_payload_def
    int32_to_bytes_numbers int16_to_bytes_def to_int32_def numbers_of_def)

lemma start_frame_numbers:
  assumes "app < 2 ^ 31"
  shows "int32_to_bytes DFU_START_PACKET @ int32_to_bytes HEX_TYPE_APPLICATION @ create_image_size_packet 0 0 (int app)
    = numbers_of (start_payload app)"
proof -
  have "int app < 2 ^ 31" using assms by simp
  moreover have "int app div 256 = int (app div 256)" "int app div 65536 = int (app div 65536)" "int app div 16777216 = int (app div 16777216)"
    by (simp_all only: zdiv_int of_nat_numeral)
  ultimately have "int32_to_bytes (int app)
      = numbers_of [word_of_nat app, word_of_nat (app div 256), word_of_nat (app div 65536), word_of_nat (app div 16777216)]"
    using int32_to_bytes_numbers [of "int app"] by (simp only: of_int_of_nat_eq of_nat_0_le_iff)
  then show ?thesis
    by (simp only: create_image_size_packet_def small_numbers start_payload_def numbers_append [symmetric] append.simps)
qed

lemma init_frame_numbers: "int32_to_bytes DFU_INIT_PACKET @ numbers_of ip @ int16_to_bytes 0 = numbers_of (init_payload ip)"
  by (simp only: small_numbers init_payload_def numbers_append)

text \<open>
  The invariant of the loop: the port has the start and init packets, the data packets up to the next
  one, and the stop packet when the loop has ended.
\<close>

definition payloads_sent :: "bytes list \<Rightarrow> bytes list \<Rightarrow> dfu_transfer \<Rightarrow> bytes list" where
  "payloads_sent head pieces t =
     head @ map data_payload (take (dt_next t) pieces) @ (if dt_outcome t = Some (Inr ()) then [stop_payload] else [])"

definition dfu_ok :: "bytes list \<Rightarrow> bytes list \<Rightarrow> dfu_transfer \<Rightarrow> bool" where
  "dfu_ok head pieces t \<longleftrightarrow>
     map uint8_array (dt_packets t) = wire_of (length head mod 8) (map data_payload pieces)
   \<and> df_wire (dt_flasher t) = wire_of 0 (payloads_sent head pieces t)
   \<and> dt_next t \<le> length pieces
   \<and> (dt_outcome t \<noteq> Some (Inr ()) \<longrightarrow> df_sequence_number (dt_flasher t) = int ((length head + length pieces) mod 8))
   \<and> (dt_outcome t = Some (Inr ()) \<longrightarrow> dt_next t = length pieces)"

lemma wire_of_0_append: "wire_of 0 (fs @ gs) = wire_of 0 fs @ wire_of (length fs mod 8) gs"
  by (simp add: wire_of_append)

lemma nth_packet:
  assumes "dfu_ok head pieces t" "k < length pieces"
  shows "wire_of 0 (head @ map data_payload (take (Suc k) pieces))
    = wire_of 0 (head @ map data_payload (take k pieces)) @ [uint8_array (dt_packets t ! k)]"
proof -
  let ?q = "length head mod 8"
  have w: "map uint8_array (dt_packets t) = wire_of ?q (map data_payload pieces)" using assms(1) by (simp add: dfu_ok_def)
  have len: "length (dt_packets t) = length pieces" using arg_cong [OF w, of length] by simp
  have split: "wire_of ?q (map data_payload pieces)
      = wire_of ?q (map data_payload (take j pieces)) @ wire_of ((?q + j) mod 8) (map data_payload (drop j pieces))"
    if "j \<le> length pieces" for j
    using wire_of_append [of ?q "map data_payload (take j pieces)" "map data_payload (drop j pieces)"] that
    by (simp add: min_absorb2 flip: map_append)
  have prefix: "wire_of ?q (map data_payload (take j pieces)) = take j (map uint8_array (dt_packets t))" if "j \<le> length pieces" for j
    unfolding w split [OF that] using that by (simp add: min_absorb2)
  show ?thesis
    using assms(2) prefix [of k] prefix [of "Suc k"] len by (simp add: wire_of_0_append take_Suc_conv_app_nth)
qed

lemma length_packets: "dfu_ok head pieces t \<Longrightarrow> length (dt_packets t) = length pieces"
  by (metis dfu_ok_def length_map length_wire_of)

lemma dfu_turn_keeps:
  assumes "dfu_ok head pieces t" "dt_outcome t = None"
  shows "dfu_ok head pieces (transfer_turn t)"
proof (cases "dt_next t < length pieces")
  case True
  then show ?thesis
    using assms nth_packet [OF assms(1) True]
    by (simp add: transfer_turn_def length_packets [OF assms(1)] dfu_ok_def payloads_sent_def send_packet_def)
next
  case False
  then have all: "dt_next t = length pieces" using assms(1) by (simp add: dfu_ok_def)
  let ?q = "(length head + length pieces) mod 8"
  have seq: "df_sequence_number (dt_flasher t) = int ?q" using assms by (simp add: dfu_ok_def)
  have stop: "send_frame (int32_to_bytes DFU_STOP_DATA_PACKET) (dt_flasher t) = (dt_flasher t)\<lparr>df_sequence_number := int ((?q + 1) mod 8),
      df_wire := df_wire (dt_flasher t) @ [packet_bytes ((?q + 1) mod 8) stop_payload]\<rparr>"
    unfolding small_numbers by (rule send_frame_wire [OF seq]) (simp add: stop_payload_def)
  have "wire_of 0 (head @ map data_payload pieces @ [stop_payload])
      = wire_of 0 (head @ map data_payload pieces) @ [packet_bytes ((?q + 1) mod 8) stop_payload]"
    using wire_of_0_append [of "head @ map data_payload pieces" "[stop_payload]"] by simp
  then show ?thesis
    using assms by (simp add: transfer_turn_def length_packets [OF assms(1)] all dfu_ok_def payloads_sent_def stop)
qed

lemma dfu_step_keeps: "dfu_ok head pieces t \<Longrightarrow> dfu_ok head pieces (transfer_step e t)"
  using dfu_turn_keeps [of head pieces t]
  by (cases e; cases "dt_outcome t") (auto simp: transfer_step_def pause_over_def dfu_ok_def payloads_sent_def)

lemma dfu_steps_keep: "dfu_ok head pieces t \<Longrightarrow> dfu_ok head pieces (fold transfer_step es t)"
  by (induction es arbitrary: t) (simp_all add: dfu_step_keeps)

lemma dfu_begin_keeps:
  assumes "length fw < 2 ^ 31" "length ip + 6 < 4096"
  shows "dfu_ok [start_payload (length fw), init_payload ip] (firmware_pieces fw)
    (begin_firmware fw aborted now (send_init_packet ip (send_start_dfu HEX_TYPE_APPLICATION 0 0 (int (length fw)) dfu_init)))"
proof -
  let ?start = "start_payload (length fw)" and ?init = "init_payload ip" and ?n = "length (firmware_pieces fw)"
  have lengths: "length ?start < 4096" "length ?init < 4096" using assms(2) by (simp_all add: start_payload_def init_payload_def)
  have seq: "df_sequence_number dfu_init = int 0" by (simp add: dfu_init_def)
  obtain s1 where s1: "send_start_dfu HEX_TYPE_APPLICATION 0 0 (int (length fw)) dfu_init = s1"
      "df_sequence_number s1 = int 1" "df_wire s1 = [packet_bytes 1 ?start]"
    unfolding send_start_dfu_def start_frame_numbers [OF assms(1)] send_frame_wire [OF seq lengths(1)]
    by (simp add: dfu_init_def)
  have s2: "send_init_packet ip s1 = s1\<lparr>df_sequence_number := int 2, df_wire := [packet_bytes 1 ?start, packet_bytes 2 ?init]\<rparr>"
    unfolding send_init_packet_def init_frame_numbers send_frame_wire [OF s1(2) lengths(2)]
    by (simp add: s1(3) numeral_2_eq_2)
  define t where "t = send_init_packet ip s1"
  have t: "df_sequence_number t = int 2" "df_wire t = [packet_bytes 1 ?start, packet_bytes 2 ?init]"
    by (simp_all add: t_def s2)
  from make_packets_wire [OF t(1) _ pieces_small [of fw]] obtain ps
    where "make_packets (firmware_pieces fw) t = (ps, t\<lparr>df_sequence_number := int ((2 + ?n) mod 8)\<rparr>)"
      "map uint8_array ps = wire_of 2 (map data_payload (firmware_pieces fw))"
    by auto
  then show ?thesis
    unfolding s1(1) t_def [symmetric]
    by (simp add: t(2) begin_firmware_def dfu_ok_def payloads_sent_def numeral_2_eq_2)
qed

lemma le_value_byte: "le_value [b] = unat b"
  by simp

lemma start_payload_value:
  assumes "app < 2 ^ 31"
  shows "le_value [word_of_nat app, word_of_nat (app div 256), word_of_nat (app div 65536), word_of_nat (app div 16777216)] = app"
proof -
  have "app div 16777216 < 256" using assms by simp
  moreover have "app mod 256 + 256 * (app div 256 mod 256 + 256 * (app div 65536 mod 256 + 256 * (app div 16777216))) = app"
  proof -
    have "app div 65536 = app div 256 div 256" "app div 16777216 = app div 256 div 256 div 256" by (simp_all add: div_mult2_eq [symmetric])
    then show ?thesis by simp
  qed
  ultimately show ?thesis by (simp add: unat_of_nat)
qed

lemma receive_start: "app < 2 ^ 31 \<Longrightarrow> \<not> rx_stopped r \<Longrightarrow> receive_payload (start_payload app) r = Some (r\<lparr>rx_start := [4, 0, 0, app]\<rparr>)"
  using start_payload_value [of app] by (simp add: receive_payload_def start_payload_def upt_rec Let_def)

lemma receive_init: "\<not> rx_stopped r \<Longrightarrow> receive_payload (init_payload ip) r = Some (r\<lparr>rx_init := ip @ [0, 0]\<rparr>)"
  by (simp add: receive_payload_def init_payload_def Let_def)

lemma receive_data:
  "\<not> rx_stopped r \<Longrightarrow> receive_payloads (map data_payload ps) r
    = Some (r\<lparr>rx_seq := (if ps = [] then rx_seq r else (rx_seq r + length ps) mod 8), rx_image := rx_image r @ concat ps\<rparr>)"
proof (induction ps arbitrary: r)
  case (Cons p ps)
  have "receive_payload (data_payload p) q = Some (q\<lparr>rx_image := rx_image q @ p\<rparr>)" if "\<not> rx_stopped q" for q
    using that by (simp add: receive_payload_def data_payload_def Let_def)
  then show ?case using Cons by (simp add: mod_simps)
qed simp

lemma receive_stop: "\<not> rx_stopped r \<Longrightarrow> receive_payload stop_payload r = Some (r\<lparr>rx_stopped := True\<rparr>)"
  by (simp add: receive_payload_def stop_payload_def)

lemma receive_head:
  assumes "app < 2 ^ 31"
  shows "receive_payloads [start_payload app, init_payload ip] rx_begin
    = Some \<lparr>rx_seq = 2, rx_start = [4, 0, 0, app], rx_init = ip @ [0, 0], rx_image = [], rx_stopped = False\<rparr>"
  using assms by (simp add: rx_begin_def receive_start receive_init)

lemma receive_sent:
  assumes "app < 2 ^ 31" "dt_next t \<le> length pieces"
  shows "receive_payloads (payloads_sent [start_payload app, init_payload ip] pieces t) rx_begin
    = Some \<lparr>rx_seq = (2 + dt_next t + of_bool (dt_outcome t = Some (Inr ()))) mod 8, rx_start = [4, 0, 0, app],
            rx_init = ip @ [0, 0], rx_image = concat (take (dt_next t) pieces), rx_stopped = (dt_outcome t = Some (Inr ()))\<rparr>"
  unfolding payloads_sent_def receive_payloads_append receive_head [OF assms(1)] option.case
  using assms(2) by (cases "pieces = []") (simp_all add: receive_data receive_stop min_absorb2 mod_simps)

subsection \<open>An undisturbed transfer completes\<close>

lemma settled_step: "dt_outcome t \<noteq> None \<Longrightarrow> transfer_step e t = t"
  by (simp add: transfer_step_def)

lemma settled_steps: "dt_outcome t \<noteq> None \<Longrightarrow> fold transfer_step es t = t"
  by (induction es) (simp_all add: settled_step)

definition turns :: "millis list \<Rightarrow> transfer_event list" where
  "turns stamps = concat (map (\<lambda>now. [LoopTurn, PauseEnds now]) stamps) @ [LoopTurn]"

lemma turns_complete:
  assumes "\<not> dt_aborted t" "\<not> dt_pausing t" "dt_outcome t = None" "length (dt_packets t) \<le> dt_next t + length stamps"
  shows "dt_outcome (fold transfer_step (turns stamps) t) = Some (Inr ())"
  using assms
proof (induction stamps arbitrary: t)
  case Nil
  then show ?case by (simp add: turns_def transfer_step_def transfer_turn_def)
next
  case (Cons now stamps)
  have rest: "turns (now # stamps) = LoopTurn # PauseEnds now # turns stamps" by (simp add: turns_def)
  show ?case
  proof (cases "dt_next t < length (dt_packets t)")
    case True
    define t' where "t' = transfer_step (PauseEnds now) (transfer_step LoopTurn t)"
    have "\<not> dt_aborted t' \<and> \<not> dt_pausing t' \<and> dt_outcome t' = None \<and> length (dt_packets t') \<le> dt_next t' + length stamps"
      using Cons.prems True by (simp add: t'_def transfer_step_def transfer_turn_def pause_over_def)
    then show ?thesis using Cons.IH [of t'] by (simp add: rest t'_def)
  next
    case False
    then have "dt_outcome (transfer_step LoopTurn t) = Some (Inr ())"
      using Cons.prems by (simp add: transfer_step_def transfer_turn_def)
    then show ?thesis by (simp add: rest settled_step settled_steps)
  qed
qed

lemma pieces_count: "length fw \<le> 512 * k \<Longrightarrow> length (firmware_pieces fw) \<le> k"
proof (induction fw arbitrary: k rule: firmware_pieces.induct)
  case (1 bs)
  show ?case
  proof (cases "bs = []")
    case False
    then obtain k' where k: "k = Suc k'" using 1(2) by (cases k) auto
    have "length (drop DFU_PACKET_MAX_SIZE bs) \<le> 512 * k'" using 1(2) by (simp add: k DFU_PACKET_MAX_SIZE_def)
    then show ?thesis using 1(1) [OF False] False by (simp add: k firmware_pieces.simps [of bs])
  qed (simp add: firmware_pieces.simps)
qed

lemma begin_firmware_open:
  "dt_aborted (begin_firmware fw a now s) = a" "\<not> dt_pausing (begin_firmware fw a now s)"
  "dt_outcome (begin_firmware fw a now s) = None" "dt_next (begin_firmware fw a now s) = 0"
  by (simp_all add: begin_firmware_def split: prod.split)

lemma undisturbed_completes:
  assumes "length firmware < 2 ^ 31" "length init_packet + 6 < 4096" "length firmware \<le> 512 * length stamps"
  shows "dt_outcome (dfu_send_image init_packet firmware False now (turns stamps) dfu_init) = Some (Inr ())"
  unfolding dfu_send_image_def
  using length_packets [OF dfu_begin_keeps [OF assms(1,2), of False now]] pieces_count [OF assms(3)]
  by (intro turns_complete) (simp_all add: begin_firmware_open)

subsection \<open>The image that arrives\<close>



end
