(* ===== verification/Room_Chunks.thy ===== *)
theory Room_Chunks
  imports Chat_Limits
begin

text \<open>
  Posts of a MeshCore room that carry the number of a chunk (\<^verbatim>\<open>src/renderer/lib/meshcoreRoomChunkMerge.ts\<close>)
  are shown as one post. The posts keep their other fields, which are those of the first chunk.
\<close>

record room_post =
  rp_sender_id :: int
  rp_room_server_id :: "int option"
  rp_payload :: utf16
  rp_timestamp :: int

text \<open>The match of \<open>[i/N]\<close> and a space at the start: the digits and the rest.\<close>

definition digit_run :: "utf16 \<Rightarrow> utf16 \<times> utf16" where
  "digit_run s = (takeWhile is_digit16 s, dropWhile is_digit16 s)"

definition chunk_prefix_match :: "utf16 \<Rightarrow> (utf16 \<times> utf16 \<times> utf16) option" where
  "chunk_prefix_match s =
     (if s = [] \<or> hd s \<noteq> 91 then None
      else
        let (index, s) = digit_run (tl s) in
        if index = [] \<or> s = [] \<or> hd s \<noteq> 47 then None
        else
          let (number, s) = digit_run (tl s) in
          if number = [] \<or> s = [] \<or> hd s \<noteq> 93 \<or> tl s = [] \<or> \<not> is_space_point (hd (tl s)) then None
          else Some (index, number, tl (tl s)))"

definition digits_value :: "utf16 \<Rightarrow> nat" where
  "digits_value ds = fold (\<lambda>d n. 10 * n + (d - 48)) ds 0"

definition parse_room_chunk_prefix :: "utf16 \<Rightarrow> (nat \<times> nat \<times> utf16) option" where
  "parse_room_chunk_prefix payload =
     (case chunk_prefix_match payload of
        None \<Rightarrow> None
      | Some (index, number, body) \<Rightarrow>
          let index = digits_value index; number = digits_value number in
          if index < 1 \<or> number < 1 \<or> index > number then None else Some (index, number, body))"

text \<open>The loop keeps the post that is being put together with its chunk count and the last index seen.\<close>

record 'p merge_state =
  mg_out :: "'p list"
  mg_pending :: "'p option"
  mg_total :: nat
  mg_received :: nat

definition merge_init :: "'p merge_state" where
  "merge_init = \<lparr>mg_out = [], mg_pending = None, mg_total = 0, mg_received = 0\<rparr>"

definition flush_pending :: "'p merge_state \<Rightarrow> 'p merge_state" where
  "flush_pending s =
     \<lparr>mg_out = mg_out s @ (case mg_pending s of None \<Rightarrow> [] | Some p \<Rightarrow> [p]), mg_pending = None, mg_total = 0, mg_received = 0\<rparr>"

definition merge_post :: "'a room_post_scheme \<Rightarrow> 'a room_post_scheme merge_state \<Rightarrow> 'a room_post_scheme merge_state" where
  "merge_post msg s =
     (case parse_room_chunk_prefix (rp_payload msg) of
        None \<Rightarrow> let s = flush_pending s in s\<lparr>mg_out := mg_out s @ [msg]\<rparr>
      | Some (index, number, body) \<Rightarrow>
          let s = (case mg_pending s of
                None \<Rightarrow> s
              | Some p \<Rightarrow>
                  if rp_sender_id p \<noteq> rp_sender_id msg \<or> rp_room_server_id p \<noteq> rp_room_server_id msg
                    \<or> number \<noteq> mg_total s \<or> index \<noteq> mg_received s + 1 then flush_pending s else s);
              s = (case mg_pending s of
                None \<Rightarrow> s\<lparr>mg_pending := Some (msg\<lparr>rp_payload := body\<rparr>), mg_total := number, mg_received := 1\<rparr>
              | Some p \<Rightarrow> s\<lparr>mg_pending := Some (p\<lparr>rp_payload := rp_payload p @ body, rp_timestamp := rp_timestamp msg\<rparr>),
                  mg_received := index\<rparr>)
          in if index = number then flush_pending s else s)"

definition merge_displayed_room_post_chunks :: "'a room_post_scheme list \<Rightarrow> 'a room_post_scheme list" where
  "merge_displayed_room_post_chunks posts = mg_out (flush_pending (fold merge_post posts merge_init))"

subsection \<open>A numbered run of chunks\<close>

lemma digit_run_dec: "i < 10 \<Longrightarrow> s = [] \<or> \<not> is_digit16 (hd s) \<Longrightarrow> digit_run ((48 + i) # s) = ([48 + i], s)"
  by (cases s) (auto simp: digit_run_def is_digit16_def)

lemma chunk_prefix_matches:
  "i < 10 \<Longrightarrow> n < 10 \<Longrightarrow> chunk_prefix_match (chunk_prefix i n @ body) = Some ([48 + i], [48 + n], body)"
  by (simp add: chunk_prefix_digits chunk_prefix_match_def digit_run_dec is_digit16_def is_space_point_def)

lemma parse_chunk_prefix:
  "1 \<le> i \<Longrightarrow> i \<le> n \<Longrightarrow> n < 10 \<Longrightarrow> parse_room_chunk_prefix (chunk_prefix i n @ body) = Some (i, n, body)"
  by (simp add: parse_room_chunk_prefix_def chunk_prefix_matches digits_value_def)

text \<open>What was shown stays shown, and the first chunk of a run never continues another run.\<close>

lemma merge_post_out:
  "merge_post m (s\<lparr>mg_out := out @ mg_out s\<rparr>) = (merge_post m s)\<lparr>mg_out := out @ mg_out (merge_post m s)\<rparr>"
  by (auto simp: merge_post_def flush_pending_def Let_def split: option.splits)

lemma merge_posts_out:
  "fold merge_post ms (s\<lparr>mg_out := out @ mg_out s\<rparr>) = (fold merge_post ms s)\<lparr>mg_out := out @ mg_out (fold merge_post ms s)\<rparr>"
  by (induction ms arbitrary: s) (simp_all add: merge_post_out)

lemma flush_out: "mg_out (flush_pending (s\<lparr>mg_out := out @ mg_out s\<rparr>)) = out @ mg_out (flush_pending s)"
  by (simp add: flush_pending_def)

lemma merge_from_out:
  "mg_out (flush_pending (fold merge_post ms (merge_init\<lparr>mg_out := out\<rparr>))) = out @ merge_displayed_room_post_chunks ms"
  using merge_posts_out [where ms = ms and s = merge_init and out = out] flush_out [where s = "fold merge_post ms merge_init" and out = out]
  by (simp add: merge_displayed_room_post_chunks_def merge_init_def)

definition merge_ok :: "'p merge_state \<Rightarrow> bool" where
  "merge_ok s \<longleftrightarrow> mg_pending s \<noteq> None \<longrightarrow> 1 \<le> mg_received s"

lemma merge_post_ok: "merge_ok s \<Longrightarrow> merge_ok (merge_post m s)"
  by (auto simp: merge_ok_def merge_post_def flush_pending_def Let_def parse_room_chunk_prefix_def split: option.splits if_splits)

lemma merge_posts_ok: "merge_ok (fold merge_post ms merge_init)"
proof -
  have "merge_ok s \<Longrightarrow> merge_ok (fold merge_post ms s)" for s by (induction ms arbitrary: s) (simp_all add: merge_post_ok)
  then show ?thesis by (simp add: merge_ok_def merge_init_def)
qed

definition numbered :: "utf16 list \<Rightarrow> utf16 list" where
  "numbered bodies = map (\<lambda>i. chunk_prefix (i + 1) (length bodies) @ bodies ! i) [0..<length bodies]"

definition same_room :: "'a room_post_scheme list \<Rightarrow> bool" where
  "same_room ps \<longleftrightarrow> (\<forall>p \<in> set ps. rp_sender_id p = rp_sender_id (hd ps) \<and> rp_room_server_id p = rp_room_server_id (hd ps))"

text \<open>After the chunks up to \<open>k\<close>, the pending post has their bodies.\<close>

definition merged :: "'a room_post_scheme list \<Rightarrow> utf16 list \<Rightarrow> nat \<Rightarrow> 'a room_post_scheme" where
  "merged ps bodies k = (hd ps)\<lparr>rp_payload := concat (take k bodies), rp_timestamp := rp_timestamp (ps ! (k - 1))\<rparr>"

lemma numbered_parse:
  assumes "map rp_payload ps = numbered bodies" "length bodies < 10" "k < length bodies"
  shows "parse_room_chunk_prefix (rp_payload (ps ! k)) = Some (k + 1, length bodies, bodies ! k)"
proof -
  have "length ps = length bodies" using arg_cong [OF assms(1), of length] by (simp add: numbered_def)
  then have "rp_payload (ps ! k) = chunk_prefix (k + 1) (length bodies) @ bodies ! k"
    using arg_cong [OF assms(1), of "\<lambda>xs. xs ! k"] assms(3) by (simp add: numbered_def)
  then show ?thesis using assms(2,3) by (simp add: parse_chunk_prefix)
qed

lemma merge_first:
  assumes "parse_room_chunk_prefix (rp_payload m) = Some (1, n, body)" "merge_ok s"
  shows "merge_post m s = (let s = \<lparr>mg_out = mg_out (flush_pending s), mg_pending = Some (m\<lparr>rp_payload := body\<rparr>), mg_total = n, mg_received = 1\<rparr>
    in if n = 1 then flush_pending s else s)"
  using assms by (cases "mg_pending s") (auto simp: merge_post_def Let_def flush_pending_def merge_ok_def)

lemma merge_run:
  assumes "map rp_payload ps = numbered bodies" "length bodies < 10" "same_room ps" "merge_ok s" "0 < k" "k < length bodies"
  shows "fold merge_post (take k ps) s
    = \<lparr>mg_out = mg_out (flush_pending s), mg_pending = Some (merged ps bodies k), mg_total = length bodies, mg_received = k\<rparr>"
  using assms(5,6)
proof (induction k)
  case (Suc k)
  have len: "length ps = length bodies" using arg_cong [OF assms(1), of length] by (simp add: numbered_def)
  have parse: "parse_room_chunk_prefix (rp_payload (ps ! k)) = Some (k + 1, length bodies, bodies ! k)"
    using numbered_parse [OF assms(1,2)] Suc.prems by simp
  have fold: "fold merge_post (take (Suc k) ps) s = merge_post (ps ! k) (fold merge_post (take k ps) s)"
    using Suc.prems len by (simp add: take_Suc_conv_app_nth)
  show ?case
  proof (cases "k = 0")
    case True
    have "hd ps = ps ! 0" "bodies \<noteq> []" using len Suc.prems by (auto intro: hd_conv_nth)
    moreover from this have "concat (take (Suc 0) bodies) = bodies ! 0" by (cases bodies) auto
    ultimately show ?thesis
      unfolding fold using merge_first [of "ps ! 0" "length bodies" "bodies ! 0" s] parse assms(4) Suc.prems True
      by (simp add: merged_def)
  next
    case False
    have "ps ! k \<in> set ps" using len Suc.prems by simp
    then have same: "rp_sender_id (ps ! k) = rp_sender_id (hd ps)" "rp_room_server_id (ps ! k) = rp_room_server_id (hd ps)"
      using assms(3) by (auto simp: same_room_def)
    have IH: "fold merge_post (take k ps) s
      = \<lparr>mg_out = mg_out (flush_pending s), mg_pending = Some (merged ps bodies k), mg_total = length bodies, mg_received = k\<rparr>"
      using Suc False by simp
    have "concat (take (Suc k) bodies) = concat (take k bodies) @ bodies ! k"
      using Suc.prems by (simp add: take_Suc_conv_app_nth)
    then show ?thesis
      unfolding fold IH using parse same Suc.prems by (simp add: merge_post_def Let_def merged_def)
  qed
qed simp

lemma merge_complete:
  assumes "map rp_payload ps = numbered bodies" "length bodies < 10" "same_room ps" "merge_ok s" "bodies \<noteq> []"
  shows "fold merge_post ps s = merge_init\<lparr>mg_out := mg_out (flush_pending s) @ [merged ps bodies (length bodies)]\<rparr>"
proof -
  define n where "n = length bodies - 1"
  have len: "length ps = length bodies" using arg_cong [OF assms(1), of length] by (simp add: numbered_def)
  have n: "length bodies = Suc n" "n < length bodies" using assms(5) by (simp_all add: n_def)
  have parse: "parse_room_chunk_prefix (rp_payload (ps ! n)) = Some (Suc n, Suc n, bodies ! n)"
    using numbered_parse [OF assms(1,2) n(2)] n by simp
  have fold: "fold merge_post ps s = merge_post (ps ! n) (fold merge_post (take n ps) s)"
  proof -
    have "ps = take n ps @ [ps ! n]" using take_Suc_conv_app_nth [of n ps] len n by simp
    then show ?thesis by (metis fold_append fold_simps comp_apply)
  qed
  have bodies: "concat bodies = concat (take n bodies) @ bodies ! n"
  proof -
    have "bodies = take n bodies @ [bodies ! n]" using take_Suc_conv_app_nth [of n bodies] n by simp
    then show ?thesis by (metis append_Nil2 concat.simps concat_append)
  qed
  show ?thesis
  proof (cases "n = 0")
    case True
    have "hd ps = ps ! 0" using len n by (intro hd_conv_nth) auto
    then show ?thesis
      unfolding fold using merge_first [of "ps ! 0" 1 "bodies ! 0" s] parse assms(4) True bodies n
      by (simp add: flush_pending_def merged_def merge_init_def)
  next
    case False
    have "ps ! n \<in> set ps" using len n by simp
    then have same: "rp_sender_id (ps ! n) = rp_sender_id (hd ps)" "rp_room_server_id (ps ! n) = rp_room_server_id (hd ps)"
      using assms(3) by (auto simp: same_room_def)
    show ?thesis
      unfolding fold merge_run [OF assms(1-4) _ n(2)] using parse same bodies n False merge_run [OF assms(1-4) _ n(2)]
      by (simp add: merge_post_def Let_def flush_pending_def merged_def merge_init_def)
  qed
qed

lemma split_numbered:
  assumes "split_chat_message s protocol payload_limit overhead = Some chunks" "chunks \<noteq> []"
    "10 + max 0 overhead \<le> get_chat_payload_limit protocol payload_limit"
  obtains bodies where "chunks = numbered bodies" "length bodies < 10" "bodies \<noteq> []" "visible (concat bodies) = visible s"
proof -
  let ?limit = "get_chat_payload_limit protocol payload_limit"
  let ?bodies = "chunk_bodies ?limit 6 (max 0 overhead) True (char_list (trim16 s))"
  have many: "\<not> count_message_wire_bytes (trim16 s) + max 0 overhead \<le> ?limit" "1 < get_max_chunks protocol"
    using assms(1,2) by (auto simp: split_chat_message_def Let_def split: if_splits)
  then have few: "length ?bodies \<le> 9" using assms(1) max_chunks_prefix [of protocol] by (auto simp: split_chat_message_def Let_def split: if_splits)
  have "trim16 s \<noteq> []" using many assms(3) by (auto simp: count_message_wire_bytes_def)
  then have bodies: "?bodies \<noteq> []" using assms(3) char_list_hd [of "trim16 s"] by (intro chunk_bodies_nonempty) auto
  then have "length (chunk_prefix 1 (length ?bodies)) = 6" using few by (simp add: chunk_prefix_digits)
  then have "chunks = map (\<lambda>(i, body). chunk_prefix (i + 1) (length ?bodies) @ body) (enumerate 0 ?bodies)"
    using assms(1) many few max_chunks_prefix [of protocol] by (simp add: split_chat_message_def Let_def)
  then have "chunks = numbered ?bodies"
    by (auto simp: numbered_def nth_enumerate_eq intro!: nth_equalityI)
  moreover have "visible (concat ?bodies) = visible s"
    using chunk_bodies_ok [OF pieces_char_list [of "trim16 s"], of "max 0 overhead" 6 ?limit True] char_size assms(3) by auto
  ultimately show ?thesis using that bodies few by simp
qed

text \<open>
  The chunks of a split text, posted in order by one sender in one room, are shown as one post with the
  fields of the first chunk, the time of the last and the visible characters of the text, whatever
  was posted before, complete or not, and whatever follows.
\<close>

theorem split_posts_shown_as_one:
  assumes "split_chat_message s protocol payload_limit overhead = Some chunks" "chunks \<noteq> []"
    "10 + max 0 overhead \<le> get_chat_payload_limit protocol payload_limit" "map rp_payload ps = chunks" "same_room ps"
  shows "\<exists>shown. merge_displayed_room_post_chunks (before @ ps @ after)
      = merge_displayed_room_post_chunks before @ [(hd ps)\<lparr>rp_payload := shown, rp_timestamp := rp_timestamp (last ps)\<rparr>]
        @ merge_displayed_room_post_chunks after
    \<and> visible shown = visible s"
proof -
  from split_numbered [OF assms(1-3)] obtain bodies where bodies: "chunks = numbered bodies" "length bodies < 10" "bodies \<noteq> []"
      "visible (concat bodies) = visible s" .
  let ?s = "fold merge_post before merge_init"
  have "length ps = length bodies" using assms(4) bodies(1) by (metis length_map length_upt minus_nat.diff_0 numbered_def)
  then have post: "merged ps bodies (length bodies) = (hd ps)\<lparr>rp_payload := concat bodies, rp_timestamp := rp_timestamp (last ps)\<rparr>"
    using bodies(3) last_conv_nth [of ps] by (cases "ps = []") (auto simp: merged_def)
  have "fold merge_post ps ?s = merge_init\<lparr>mg_out := merge_displayed_room_post_chunks before @ [merged ps bodies (length bodies)]\<rparr>"
    unfolding merge_displayed_room_post_chunks_def
    by (rule merge_complete) (use assms(4,5) bodies merge_posts_ok in auto)
  then have "merge_displayed_room_post_chunks (before @ ps @ after)
      = merge_displayed_room_post_chunks before @ [merged ps bodies (length bodies)] @ merge_displayed_room_post_chunks after"
    using merge_from_out [of after "merge_displayed_room_post_chunks before @ [merged ps bodies (length bodies)]"]
    by (simp add: merge_displayed_room_post_chunks_def [of "before @ ps @ after"])
  then show ?thesis unfolding post using bodies(4) by blast
qed

definition chunk_post :: "string \<Rightarrow> room_post" where
  "chunk_post s = \<lparr>rp_sender_id = 1, rp_room_server_id = Some 2, rp_payload = u16 s, rp_timestamp = 0\<rparr>"

lemmas merge_eval = merge_displayed_room_post_chunks_def merge_post_def flush_pending_def merge_init_def chunk_post_def
  parse_room_chunk_prefix_def chunk_prefix_match_def digit_run_def digits_value_def is_digit16_def is_space_point_def u16_def code_def Let_def

theorem split_posts_shown_as_one_witness:
  "\<exists>shown. merge_displayed_room_post_chunks [chunk_post ''hello'', chunk_post ''[1/2] alpha beta'', chunk_post ''[2/2] gamma delta'']
     = [chunk_post ''hello'', (chunk_post ''[1/2] alpha beta'')\<lparr>rp_payload := shown, rp_timestamp := 0\<rparr>] \<and> visible shown = visible split_example"
proof -
  have "\<exists>shown. merge_displayed_room_post_chunks ([chunk_post ''hello''] @ [chunk_post ''[1/2] alpha beta'', chunk_post ''[2/2] gamma delta''] @ [])
      = merge_displayed_room_post_chunks [chunk_post ''hello'']
        @ [(hd [chunk_post ''[1/2] alpha beta'', chunk_post ''[2/2] gamma delta''])\<lparr>rp_payload := shown,
             rp_timestamp := rp_timestamp (last [chunk_post ''[1/2] alpha beta'', chunk_post ''[2/2] gamma delta''])\<rparr>]
        @ merge_displayed_room_post_chunks [] \<and> visible shown = visible split_example"
    by (rule split_posts_shown_as_one [OF split_example_chunks])
      (simp_all add: get_chat_payload_limit_def chunk_post_def same_room_def)
  moreover have "merge_displayed_room_post_chunks [chunk_post ''hello''] = [chunk_post ''hello'']"
      "merge_displayed_room_post_chunks [] = ([] :: room_post list)"
    by (simp_all add: merge_eval)
  ultimately show ?thesis by (simp add: chunk_post_def)
qed

subsection \<open>Where merging goes wrong\<close>

text \<open>The space at which the splitter broke the text is lost between the bodies.\<close>

lemma merged_words_run_together:
  "map rp_payload (merge_displayed_room_post_chunks [chunk_post ''[1/2] alpha beta'', chunk_post ''[2/2] gamma delta''])
   = [u16 ''alpha betagamma delta'']"
  by (simp add: merge_eval)

text \<open>
  A run that starts with a later chunk counts it as the first: the same chunk posted twice is taken for a
  continuation, and the chunk that does continue it is not.
\<close>

lemma late_run_merges_repeat:
  "map rp_payload (merge_displayed_room_post_chunks [chunk_post ''[2/3] a'', chunk_post ''[2/3] a'']) = [u16 ''aa'']"
  "map rp_payload (merge_displayed_room_post_chunks [chunk_post ''[2/3] a'', chunk_post ''[3/3] b'']) = [u16 ''a'', u16 ''b'']"
  by (simp_all add: merge_eval)

end
