(* ===== verification/Chat_Outbox.thy ===== *)
theory Chat_Outbox
  imports Room_Chunks Auto_Resend
begin

text \<open>
  The durable outbox of the chat: the table of rows with its request handlers (\<^verbatim>\<open>src/main/index.ts\<close>), the
  rules for scheduled rows (\<^verbatim>\<open>scheduledSend.ts\<close>), and the drain that sends due rows and stores what became
  of them (\<^verbatim>\<open>src/renderer/hooks/useChatOutbox.ts\<close>, \<^verbatim>\<open>chatOutboxDrain.ts\<close>). The drain of one protocol is a state
  machine whose steps are the replies it waits for; between them the user queues, retries, edits and
  cancels rows. Requests to the main process can be served, rejected, or answered by a closed database.
\<close>

subsection \<open>Rows\<close>

datatype outbox_status = RowQueued | RowSending | RowBlocked | RowFailed
datatype outbox_priority = PriorityNormal | PriorityEmergency

record outbox_entry =
  ox_id :: nat
  ox_protocol :: chat_protocol
  ox_view_key :: utf16
  ox_channel :: int
  ox_to_node :: "int option"
  ox_payload :: utf16
  ox_reply_id :: "int option"
  ox_status :: outbox_status
  ox_error :: "utf16 option"
  ox_attempt_count :: nat
  ox_next_retry_at :: "millis option"
  ox_created_at :: millis
  ox_updated_at :: millis
  ox_group_id :: "utf16 option"
  ox_group_index :: "int option"
  ox_group_total :: "int option"
  ox_priority :: outbox_priority
  ox_identity_id :: "utf16 option"

record outbox_entry_input =
  oi_protocol :: chat_protocol
  oi_view_key :: utf16
  oi_channel :: int
  oi_to_node :: "int option"
  oi_payload :: utf16
  oi_reply_id :: "int option"
  oi_status :: outbox_status
  oi_error :: "utf16 option"
  oi_next_retry_at :: "millis option"
  oi_group_id :: "utf16 option"
  oi_group_index :: "int option"
  oi_group_total :: "int option"
  oi_priority :: "outbox_priority option"
  oi_identity_id :: "utf16 option"

subsection \<open>The table\<close>

record outbox_db =
  od_rows :: "outbox_entry list"
  od_last_id :: nat

definition outbox_list :: "chat_protocol \<Rightarrow> outbox_db \<Rightarrow> outbox_entry list" where
  "outbox_list protocol db = sort_key ox_created_at (filter (\<lambda>r. ox_protocol r = protocol) (od_rows db))"

text \<open>\<^verbatim>\<open>None\<close> stands for an identity that is rejected.\<close>

definition outbox_identity_id_for_insert :: "utf16 option \<Rightarrow> utf16 option option" where
  "outbox_identity_id_for_insert v =
     (case v of None \<Rightarrow> Some None
      | Some i \<Rightarrow> if i = [] then Some None else if length i > 128 then None else Some (Some i))"

definition outbox_add :: "outbox_entry_input \<Rightarrow> millis \<Rightarrow> outbox_db \<Rightarrow> (outbox_entry \<times> outbox_db) option" where
  "outbox_add e now db =
     (if oi_payload e = [] \<or> length (oi_payload e) > 2048 then None
      else case outbox_identity_id_for_insert (oi_identity_id e) of
        None \<Rightarrow> None
      | Some identity \<Rightarrow>
          let i = od_last_id db + 1;
              row = \<lparr>ox_id = i, ox_protocol = oi_protocol e, ox_view_key = oi_view_key e, ox_channel = oi_channel e,
                     ox_to_node = oi_to_node e, ox_payload = oi_payload e, ox_reply_id = oi_reply_id e, ox_status = oi_status e,
                     ox_error = oi_error e, ox_attempt_count = 0, ox_next_retry_at = oi_next_retry_at e, ox_created_at = now,
                     ox_updated_at = now, ox_group_id = oi_group_id e, ox_group_index = oi_group_index e,
                     ox_group_total = oi_group_total e,
                     ox_priority = (if oi_priority e = Some PriorityEmergency then PriorityEmergency else PriorityNormal),
                     ox_identity_id = identity\<rparr>
          in Some (row, \<lparr>od_rows = od_rows db @ [row], od_last_id = i\<rparr>))"

definition outbox_update_status ::
  "nat \<Rightarrow> outbox_status \<Rightarrow> utf16 option \<Rightarrow> millis option \<Rightarrow> nat option \<Rightarrow> millis \<Rightarrow> outbox_db \<Rightarrow> outbox_db" where
  "outbox_update_status i status error next_retry_at attempt_count now db =
     db\<lparr>od_rows := map (\<lambda>r. if ox_id r = i
         then r\<lparr>ox_status := status, ox_error := error, ox_next_retry_at := next_retry_at,
                ox_attempt_count := (case attempt_count of Some n \<Rightarrow> n | None \<Rightarrow> ox_attempt_count r), ox_updated_at := now\<rparr>
         else r) (od_rows db)\<rparr>"

definition outbox_remove :: "nat \<Rightarrow> outbox_db \<Rightarrow> outbox_db" where
  "outbox_remove i db = db\<lparr>od_rows := filter (\<lambda>r. ox_id r \<noteq> i) (od_rows db)\<rparr>"

text \<open>A request is served, rejected, or resolved without effect because the database is closed.\<close>

datatype ipc = Served | Rejected | DbClosed

definition apply_ipc :: "ipc \<Rightarrow> ('d \<Rightarrow> 'd) \<Rightarrow> 'd \<Rightarrow> 'd" where
  "apply_ipc ipc f db = (if ipc = Served then f db else db)"

subsection \<open>Rules on rows\<close>

definition RETRY_DELAYS_MS :: "millis list" where "RETRY_DELAYS_MS = [30000, 120000, 600000]"
definition MAX_ATTEMPTS :: nat where "MAX_ATTEMPTS = 1 + REGULAR_MESSAGE_MAX_AUTO_RESENDS"
definition EMERGENCY_RETRY_DELAYS_MS :: "millis list" where "EMERGENCY_RETRY_DELAYS_MS = [30000, 60000, 120000, 300000]"
definition OUTBOX_MAX_AGE_MS :: millis where "OUTBOX_MAX_AGE_MS = 24 * 60 * 60 * 1000"
definition EMERGENCY_OUTBOX_SOFT_CAP :: nat where "EMERGENCY_OUTBOX_SOFT_CAP = 20"
definition MAX_TIMER_DELAY_MS :: millis where "MAX_TIMER_DELAY_MS = 2147483647"

definition EMERGENCY_CAP_BLOCKED_KEY :: utf16 where "EMERGENCY_CAP_BLOCKED_KEY = u16 ''chatPanel.outboxEmergencyCapBlocked''"
definition CHAT_OUTBOX_REMOVE_FAILED_KEY :: utf16 where "CHAT_OUTBOX_REMOVE_FAILED_KEY = u16 ''chatPanel.outboxRemoveFailed''"
definition OUTBOX_LEGACY_MULTIPART_KEY :: utf16 where "OUTBOX_LEGACY_MULTIPART_KEY = u16 ''chatPanel.outboxLegacyMultipartBlocked''"
definition OUTBOX_DRAIN_TIMEOUT_KEY :: utf16 where "OUTBOX_DRAIN_TIMEOUT_KEY = u16 ''chatPanel.outboxDrainTimeout''"
definition INCIDENT_ACK_VIEW_KEY_PREFIX :: utf16 where "INCIDENT_ACK_VIEW_KEY_PREFIX = u16 ''ackIncident:''"

definition parse_incident_ack_view_key :: "utf16 \<Rightarrow> utf16 option" where
  "parse_incident_ack_view_key view_key =
     (if take (length INCIDENT_ACK_VIEW_KEY_PREFIX) view_key \<noteq> INCIDENT_ACK_VIEW_KEY_PREFIX then None
      else
        let i = takeWhile (\<lambda>u. u \<noteq> 58) (drop (length INCIDENT_ACK_VIEW_KEY_PREFIX) view_key)
        in if length i > 0 then Some i else None)"

definition is_emergency_outbox_priority :: "outbox_entry \<Rightarrow> bool" where
  "is_emergency_outbox_priority row \<longleftrightarrow> ox_priority row = PriorityEmergency"

definition is_incident_ack_outbox_row :: "outbox_entry \<Rightarrow> bool" where
  "is_incident_ack_outbox_row row \<longleftrightarrow> parse_incident_ack_view_key (ox_view_key row) \<noteq> None"

definition is_app_managed_outbox_row :: "outbox_entry \<Rightarrow> bool" where
  "is_app_managed_outbox_row row \<longleftrightarrow> is_emergency_outbox_priority row \<or> is_incident_ack_outbox_row row"

definition is_scheduled_outbox_row :: "outbox_entry \<Rightarrow> bool" where
  "is_scheduled_outbox_row row \<longleftrightarrow>
     ox_priority row = PriorityNormal \<and> ox_status row = RowQueued \<and> ox_attempt_count row = 0 \<and> ox_next_retry_at row \<noteq> None"

definition is_app_drained_outbox_row :: "outbox_entry \<Rightarrow> bool" where
  "is_app_drained_outbox_row row \<longleftrightarrow> is_app_managed_outbox_row row \<or> is_scheduled_outbox_row row"

definition outbox_row_age_anchor_ms :: "outbox_entry \<Rightarrow> millis" where
  "outbox_row_age_anchor_ms row =
     (case ox_next_retry_at row of
        Some at \<Rightarrow> if is_scheduled_outbox_row row then at else ox_created_at row
      | None \<Rightarrow> ox_created_at row)"

text \<open>The connected identity: not given, none, or its id.\<close>

datatype connected = AnyIdentity | NoIdentity | Identity utf16

definition outbox_row_matches_connected_identity :: "outbox_entry \<Rightarrow> connected \<Rightarrow> bool" where
  "outbox_row_matches_connected_identity row connected \<longleftrightarrow>
     (case connected of
        AnyIdentity \<Rightarrow> True
      | NoIdentity \<Rightarrow> ox_identity_id row = None \<or> ox_identity_id row = Some []
      | Identity i \<Rightarrow> ox_identity_id row = None \<or> ox_identity_id row = Some [] \<or> ox_identity_id row = Some i)"

definition with_outbox_identity :: "outbox_entry_input \<Rightarrow> connected \<Rightarrow> outbox_entry_input" where
  "with_outbox_identity entry identity =
     (if oi_identity_id entry \<noteq> None \<and> oi_identity_id entry \<noteq> Some [] then entry
      else case identity of Identity i \<Rightarrow> if i = [] then entry else entry\<lparr>oi_identity_id := Some i\<rparr> | _ \<Rightarrow> entry)"

text \<open>\<^verbatim>\<open>/^MECP\/(\d)\b/i\<close>: the digit after the prefix, when no word character follows.\<close>

definition is_word_unit :: "nat \<Rightarrow> bool" where
  "is_word_unit u \<longleftrightarrow> is_digit16 u \<or> 65 \<le> u \<and> u \<le> 90 \<or> 97 \<le> u \<and> u \<le> 122 \<or> u = 95"

definition mecp_severity_digit :: "utf16 \<Rightarrow> nat option" where
  "mecp_severity_digit payload =
     (let head = map (\<lambda>u. if 97 \<le> u \<and> u \<le> 122 then u - 32 else u) (take 5 payload); rest = drop 5 payload in
      if head = u16 ''MECP/'' \<and> rest \<noteq> [] \<and> is_digit16 (hd rest) \<and> (tl rest = [] \<or> \<not> is_word_unit (hd (tl rest)))
      then Some (hd rest - 48) else None)"

definition is_mayday_emergency_outbox_payload :: "utf16 \<Rightarrow> bool" where
  "is_mayday_emergency_outbox_payload payload \<longleftrightarrow> mecp_severity_digit payload = Some 0"

text \<open>A payload without severity counts as the least urgent; ten stands for the infinity of the code.\<close>

definition emergency_payload_severity :: "utf16 \<Rightarrow> nat" where
  "emergency_payload_severity payload = (case mecp_severity_digit payload of Some d \<Rightarrow> d | None \<Rightarrow> 10)"

definition earliest_emergency_retry_at :: "outbox_entry list \<Rightarrow> millis \<Rightarrow> millis option" where
  "earliest_emergency_retry_at rows now =
     fold (\<lambda>r earliest.
       if \<not> is_app_drained_outbox_row r \<or> ox_status r \<noteq> RowQueued \<and> ox_status r \<noteq> RowFailed then earliest
       else case ox_next_retry_at r of
         None \<Rightarrow> earliest
       | Some at \<Rightarrow> if at \<le> now then earliest
           else (case earliest of None \<Rightarrow> Some at | Some e \<Rightarrow> if at < e then Some at else earliest)) rows None"

definition outbox_retry_timer_delay_ms :: "millis \<Rightarrow> millis \<Rightarrow> millis" where
  "outbox_retry_timer_delay_ms at now = min (max 0 (at - now)) MAX_TIMER_DELAY_MS"

definition is_legacy_single_packet_multipart_outbox_row :: "outbox_entry \<Rightarrow> bool" where
  "is_legacy_single_packet_multipart_outbox_row row \<longleftrightarrow>
     \<not> get_max_chunks (ox_protocol row) > 1
     \<and> ((case ox_group_total row of Some n \<Rightarrow> n > 1 | None \<Rightarrow> False) \<or> chunk_prefix_match (ox_payload row) \<noteq> None)"

definition is_eligible_for_drain :: "outbox_entry \<Rightarrow> millis \<Rightarrow> bool" where
  "is_eligible_for_drain row now \<longleftrightarrow>
     (ox_status row = RowQueued \<or> ox_status row = RowFailed)
     \<and> (case ox_next_retry_at row of None \<Rightarrow> True | Some at \<Rightarrow> at \<le> now)
     \<and> (is_app_managed_outbox_row row \<or> now - outbox_row_age_anchor_ms row \<le> OUTBOX_MAX_AGE_MS)
     \<and> (is_app_managed_outbox_row row \<or> ox_attempt_count row < MAX_ATTEMPTS)"

definition outbox_row_visible_for_conversation :: "outbox_entry \<Rightarrow> utf16 \<Rightarrow> utf16 option \<Rightarrow> bool" where
  "outbox_row_visible_for_conversation row view_key identity_id \<longleftrightarrow>
     ox_view_key row = view_key
     \<and> (ox_identity_id row = None \<or> ox_identity_id row = Some [] \<or> identity_id \<noteq> None \<and> ox_identity_id row = identity_id)"

text \<open>
  The sort with \<^verbatim>\<open>compareDrainOrder\<close> is stable, so it is a sort by creation followed by a sort by priority.
\<close>

definition drain_order :: "outbox_entry list \<Rightarrow> outbox_entry list" where
  "drain_order rows = sort_key (\<lambda>r. if is_emergency_outbox_priority r then 0 else 1 :: nat) (sort_key ox_created_at rows)"

definition retry_delay_ms :: "outbox_entry \<Rightarrow> nat \<Rightarrow> millis" where
  "retry_delay_ms row attempt_count =
     (let delays = (if is_emergency_outbox_priority row then EMERGENCY_RETRY_DELAYS_MS else RETRY_DELAYS_MS)
      in delays ! min (attempt_count - 1) (length delays - 1))"

subsection \<open>Scheduled rows\<close>

definition SCHEDULED_SEND_MIN_LEAD_MS :: millis where "SCHEDULED_SEND_MIN_LEAD_MS = 5 * 1000"
definition SCHEDULED_SEND_MAX_HORIZON_MS :: millis where "SCHEDULED_SEND_MAX_HORIZON_MS = 30 * 86400000"

datatype scheduled_at_validation = AtOk | AtPast | AtTooFar | AtInvalid

definition validate_scheduled_at :: "js_number \<Rightarrow> millis \<Rightarrow> scheduled_at_validation" where
  "validate_scheduled_at scheduled_at now =
     (case scheduled_at of
        NotFinite \<Rightarrow> AtInvalid
      | Finite at \<Rightarrow>
          if at < now + SCHEDULED_SEND_MIN_LEAD_MS then AtPast
          else if at > now + SCHEDULED_SEND_MAX_HORIZON_MS then AtTooFar else AtOk)"

definition to_scheduled_entry :: "outbox_entry_input \<Rightarrow> millis \<Rightarrow> outbox_entry_input" where
  "to_scheduled_entry entry scheduled_at =
     entry\<lparr>oi_status := RowQueued, oi_error := None, oi_next_retry_at := Some scheduled_at\<rparr>"

definition scheduled_group_rows :: "outbox_entry list \<Rightarrow> outbox_entry \<Rightarrow> outbox_entry list" where
  "scheduled_group_rows rows row =
     (case ox_group_id row of
        None \<Rightarrow> filter (\<lambda>r. ox_id r = ox_id row) rows
      | Some g \<Rightarrow> filter (\<lambda>r. ox_group_id r = Some g) rows)"

subsection \<open>The state of the drain\<close>

text \<open>
  The error texts that stop a row and the texts that are stored, the incidents and the emergency codec are
  arguments. The log is not in the code: it records what happened to the rows.
\<close>

record outbox_env =
  oe_persistable_error :: "utf16 \<Rightarrow> utf16"
  oe_encryption_blocked :: "utf16 \<Rightarrow> bool"
  oe_incident_open :: "utf16 \<Rightarrow> bool"
  oe_beacon_ack :: "utf16 \<Rightarrow> bool"

datatype drain_phase = TurnNext | TurnPacing outbox_entry | TurnSending outbox_entry | TurnAwaiting outbox_entry

record drain_pass =
  dp_current :: "outbox_entry list"
  dp_todo :: "outbox_entry list"
  dp_attempted :: nat
  dp_phase :: drain_phase

datatype incident_call = ConfirmBeacon utf16 | RecordAck utf16
datatype outbox_log = LogCreated outbox_entry | LogSent outbox_entry | LogDelivered nat | LogLost nat | LogRetried nat

record outbox =
  ob_db :: outbox_db
  ob_pass :: "drain_pass option"
  ob_aborts :: "(nat, bool) jsmap"
  ob_awaiting :: "nat list"
  ob_late :: "outbox_entry list"
  ob_stale :: "nat list"
  ob_last_fast_send :: "millis option"
  ob_incidents :: "incident_call list"
  ob_results :: "(outbox_entry list \<times> nat) option list"
  ob_log :: "outbox_log list"

definition outbox_init :: outbox where
  "outbox_init = \<lparr>ob_db = \<lparr>od_rows = [], od_last_id = 0\<rparr>, ob_pass = None, ob_aborts = [], ob_awaiting = [], ob_late = [], ob_stale = [],
     ob_last_fast_send = None, ob_incidents = [], ob_results = [], ob_log = []\<rparr>"

definition log_row :: "outbox_log \<Rightarrow> outbox \<Rightarrow> outbox" where
  "log_row l s = s\<lparr>ob_log := ob_log s @ [l]\<rparr>"

definition on_db :: "ipc \<Rightarrow> (outbox_db \<Rightarrow> outbox_db) \<Rightarrow> outbox \<Rightarrow> outbox" where
  "on_db ipc f s = s\<lparr>ob_db := apply_ipc ipc f (ob_db s)\<rparr>"

definition patch_row :: "nat \<Rightarrow> (outbox_entry \<Rightarrow> outbox_entry) \<Rightarrow> outbox \<Rightarrow> outbox" where
  "patch_row i f s =
     s\<lparr>ob_pass := map_option (\<lambda>p. p\<lparr>dp_current := map (\<lambda>r. if ox_id r = i then f r else r) (dp_current p)\<rparr>) (ob_pass s)\<rparr>"

definition forget_row :: "nat \<Rightarrow> outbox \<Rightarrow> outbox" where
  "forget_row i s = s\<lparr>ob_pass := map_option (\<lambda>p. p\<lparr>dp_current := filter (\<lambda>r. ox_id r \<noteq> i) (dp_current p)\<rparr>) (ob_pass s)\<rparr>"

definition set_turn :: "drain_phase \<Rightarrow> outbox \<Rightarrow> outbox" where
  "set_turn ph s = s\<lparr>ob_pass := map_option (\<lambda>p. p\<lparr>dp_phase := ph\<rparr>) (ob_pass s)\<rparr>"

text \<open>The end of a pass: its rows and count, or nothing when it was rejected.\<close>

definition end_pass :: "bool \<Rightarrow> outbox \<Rightarrow> outbox" where
  "end_pass rejected s =
     s\<lparr>ob_pass := None,
       ob_results := ob_results s @ [if rejected then None else map_option (\<lambda>p. (dp_current p, dp_attempted p)) (ob_pass s)]\<rparr>"

definition set_outbox_row_awaiting_ack :: "nat \<Rightarrow> bool \<Rightarrow> outbox \<Rightarrow> outbox" where
  "set_outbox_row_awaiting_ack i awaiting s =
     (if awaiting = (i \<in> set (ob_awaiting s)) then s
      else if awaiting then s\<lparr>ob_awaiting := ob_awaiting s @ [i]\<rparr> else s\<lparr>ob_awaiting := removeAll i (ob_awaiting s)\<rparr>)"

definition begin_outbox_row_send :: "nat \<Rightarrow> outbox \<Rightarrow> outbox" where
  "begin_outbox_row_send i s = s\<lparr>ob_aborts := jm_set i False (ob_aborts s)\<rparr>"

definition end_outbox_row_send :: "nat \<Rightarrow> outbox \<Rightarrow> outbox" where
  "end_outbox_row_send i s = set_outbox_row_awaiting_ack i False (s\<lparr>ob_aborts := jm_delete i (ob_aborts s)\<rparr>)"

definition abort_outbox_row_send :: "nat \<Rightarrow> outbox \<Rightarrow> outbox" where
  "abort_outbox_row_send i s =
     set_outbox_row_awaiting_ack i False
       (if jm_get (ob_aborts s) i \<noteq> None then s\<lparr>ob_aborts := jm_set i True (ob_aborts s)\<rparr> else s)"

definition is_aborted :: "nat \<Rightarrow> outbox \<Rightarrow> bool" where
  "is_aborted i s \<longleftrightarrow> jm_get (ob_aborts s) i = Some True"

subsection \<open>The end of a row\<close>

definition apply_incident_ack_after_outbox_send :: "outbox_env \<Rightarrow> outbox_entry \<Rightarrow> outbox \<Rightarrow> outbox" where
  "apply_incident_ack_after_outbox_send e row s =
     (case parse_incident_ack_view_key (ox_view_key row) of
        None \<Rightarrow> s
      | Some i \<Rightarrow>
          if \<not> oe_incident_open e i then s
          else if oe_beacon_ack e (ox_payload row) then s\<lparr>ob_incidents := ob_incidents s @ [ConfirmBeacon i]\<rparr>
          else s\<lparr>ob_incidents := ob_incidents s @ [RecordAck i]\<rparr>)"

definition block_after_remove_failure :: "ipc \<Rightarrow> millis \<Rightarrow> outbox_entry \<Rightarrow> outbox \<Rightarrow> outbox" where
  "block_after_remove_failure block_ipc now row s =
     (let n = ox_attempt_count row + 1;
          s = on_db block_ipc (outbox_update_status (ox_id row) RowBlocked (Some CHAT_OUTBOX_REMOVE_FAILED_KEY) None (Some n) now) s;
          s = (if block_ipc = Served then s else log_row (LogLost (ox_id row)) s)
      in patch_row (ox_id row) (\<lambda>r. r\<lparr>ox_status := RowBlocked, ox_error := Some CHAT_OUTBOX_REMOVE_FAILED_KEY, ox_attempt_count := n\<rparr>) s)"

definition finalize_successful_outbox_send :: "outbox_env \<Rightarrow> ipc \<Rightarrow> ipc \<Rightarrow> millis \<Rightarrow> outbox_entry \<Rightarrow> outbox \<Rightarrow> outbox" where
  "finalize_successful_outbox_send e remove_ipc block_ipc now row s =
     (let s = apply_incident_ack_after_outbox_send e row s in
      if remove_ipc = Rejected then block_after_remove_failure block_ipc now row s
      else
        let s = on_db remove_ipc (outbox_remove (ox_id row)) s;
            s = log_row (if remove_ipc = Served then LogDelivered (ox_id row) else LogLost (ox_id row)) s
        in forget_row (ox_id row) s)"

definition record_outbox_send_failure :: "outbox_env \<Rightarrow> utf16 \<Rightarrow> ipc \<Rightarrow> millis \<Rightarrow> outbox_entry \<Rightarrow> outbox \<Rightarrow> outbox" where
  "record_outbox_send_failure e raw_msg persist_ipc now row s =
     (let err_msg = oe_persistable_error e raw_msg;
          is_blocked = (oe_encryption_blocked e raw_msg \<or> oe_encryption_blocked e err_msg);
          n = ox_attempt_count row + 1;
          new_status = (if is_blocked then RowBlocked else RowFailed);
          keep_retrying = (\<not> is_blocked \<and> (is_app_managed_outbox_row row \<or> n < MAX_ATTEMPTS));
          next_retry_at = (if keep_retrying then Some (now + retry_delay_ms row n) else None);
          s = on_db persist_ipc (outbox_update_status (ox_id row) new_status (Some err_msg) next_retry_at (Some n) now) s;
          s = (if persist_ipc = Served then s else log_row (LogLost (ox_id row)) s)
      in patch_row (ox_id row)
           (\<lambda>r. r\<lparr>ox_status := new_status, ox_error := Some err_msg, ox_attempt_count := n, ox_next_retry_at := next_retry_at\<rparr>) s)"

definition quarantine_legacy_multipart_outbox_row :: "ipc \<Rightarrow> millis \<Rightarrow> outbox_entry \<Rightarrow> outbox \<Rightarrow> outbox" where
  "quarantine_legacy_multipart_outbox_row ipc now row s =
     patch_row (ox_id row) (\<lambda>r. r\<lparr>ox_status := RowBlocked, ox_error := Some OUTBOX_LEGACY_MULTIPART_KEY, ox_next_retry_at := None\<rparr>)
       (on_db ipc (outbox_update_status (ox_id row) RowBlocked (Some OUTBOX_LEGACY_MULTIPART_KEY) None None now) s)"

subsection \<open>A pass\<close>

text \<open>
  A pass lists the rows when it has the lock (one pass at a time, as \<open>Send_Queues\<close> shows of the lock), puts rows that were being sent back into the queue and
  takes the eligible rows in the order of the drain. The reply to each recovery is a function of the row.
\<close>

definition recover_stuck_sending_rows :: "(nat \<Rightarrow> ipc) \<Rightarrow> millis \<Rightarrow> outbox_entry list \<Rightarrow> outbox \<Rightarrow> outbox_entry list option \<times> outbox" where
  "recover_stuck_sending_rows ipc_of now listed s =
     (let stuck = filter (\<lambda>r. ox_status r = RowSending) listed;
          s = fold (\<lambda>r. on_db (ipc_of (ox_id r)) (outbox_update_status (ox_id r) RowQueued None None None now)) stuck s
      in if \<exists>r \<in> set stuck. ipc_of (ox_id r) = Rejected then (None, s)
         else (Some (map (\<lambda>r. if ox_status r = RowSending then r\<lparr>ox_status := RowQueued\<rparr> else r) listed), s))"

record drain_options =
  do_send_available :: bool
  do_row_filter :: "outbox_entry \<Rightarrow> bool"
  do_connected :: connected

definition begin_drain :: "chat_protocol \<Rightarrow> drain_options \<Rightarrow> ipc \<Rightarrow> (nat \<Rightarrow> ipc) \<Rightarrow> millis \<Rightarrow> outbox \<Rightarrow> outbox" where
  "begin_drain protocol opts list_ipc recover_ipc now s =
     (if ob_pass s \<noteq> None then s
      else if \<not> do_send_available opts then s\<lparr>ob_results := ob_results s @ [Some ([], 0)]\<rparr>
      else if list_ipc = Rejected then end_pass True s
      else
        let listed = (if list_ipc = Served then outbox_list protocol (ob_db s) else []) in
        case recover_stuck_sending_rows recover_ipc now listed s of
          (None, s) \<Rightarrow> end_pass True s
        | (Some current, s) \<Rightarrow>
            let eligible = filter (\<lambda>r. is_eligible_for_drain r now \<and> outbox_row_matches_connected_identity r (do_connected opts)
                  \<and> do_row_filter opts r) current
            in s\<lparr>ob_pass := Some \<lparr>dp_current = current, dp_todo = drain_order eligible, dp_attempted = 0, dp_phase = TurnNext\<rparr>\<rparr>)"

text \<open>The row is marked in the table, then the send function is called; a rejected mark ends the pass.\<close>

definition send_one_outbox_row :: "ipc \<Rightarrow> millis \<Rightarrow> outbox_entry \<Rightarrow> outbox \<Rightarrow> outbox" where
  "send_one_outbox_row mark_ipc now row s =
     (if mark_ipc = Rejected then end_pass True s
      else
        let s = on_db mark_ipc (outbox_update_status (ox_id row) RowSending None None None now) s;
            s = patch_row (ox_id row) (\<lambda>r. r\<lparr>ox_status := RowSending\<rparr>) s;
            s = begin_outbox_row_send (ox_id row) s
        in log_row (LogSent row) (set_turn (TurnSending row) s))"

definition row_turn :: "chat_protocol \<Rightarrow> bool \<Rightarrow> connected \<Rightarrow> ipc \<Rightarrow> millis \<Rightarrow> outbox \<Rightarrow> outbox" where
  "row_turn protocol send_available identity_now ipc now s =
     (case ob_pass s of
        None \<Rightarrow> s
      | Some p \<Rightarrow>
          if dp_phase p \<noteq> TurnNext then s
          else case dp_todo p of
            [] \<Rightarrow> end_pass False s
          | row # rows \<Rightarrow>
              if \<not> send_available \<or> \<not> outbox_row_matches_connected_identity row identity_now then end_pass False s
              else
                let s = s\<lparr>ob_pass := Some (p\<lparr>dp_todo := rows, dp_attempted := dp_attempted p + 1\<rparr>)\<rparr> in
                if is_legacy_single_packet_multipart_outbox_row row then quarantine_legacy_multipart_outbox_row ipc now row s
                else if protocol = chat_protocol.Meshtastic then set_turn (TurnPacing row) s
                else send_one_outbox_row ipc now row s)"

text \<open>What the pacing of Meshtastic sends and the send itself report.\<close>

datatype send_result = SendOk | SendError utf16 | AckCancelled

definition pace_over :: "ipc \<Rightarrow> millis \<Rightarrow> outbox \<Rightarrow> outbox" where
  "pace_over ipc now s =
     (case ob_pass s of
        Some p \<Rightarrow> (case dp_phase p of TurnPacing row \<Rightarrow> send_one_outbox_row ipc now row s | _ \<Rightarrow> s)
      | None \<Rightarrow> s)"

definition finish_row :: "outbox_env \<Rightarrow> send_result \<Rightarrow> ipc \<Rightarrow> ipc \<Rightarrow> millis \<Rightarrow> outbox_entry \<Rightarrow> outbox \<Rightarrow> outbox" where
  "finish_row e result ipc block_ipc now row s =
     set_turn TurnNext (end_outbox_row_send (ox_id row)
       (if is_aborted (ox_id row) s \<or> result = AckCancelled then forget_row (ox_id row) (log_row (LogLost (ox_id row)) s)
        else case result of
          SendError msg \<Rightarrow> record_outbox_send_failure e msg ipc now row s
        | _ \<Rightarrow> finalize_successful_outbox_send e ipc block_ipc now row s))"

definition after_accept :: "chat_protocol \<Rightarrow> outbox_entry \<Rightarrow> millis \<Rightarrow> outbox \<Rightarrow> outbox" where
  "after_accept protocol row now s =
     (let s = (if get_max_chunks (ox_protocol row) \<le> 1 then s\<lparr>ob_last_fast_send := Some now\<rparr> else s)
      in if is_emergency_outbox_priority row then set_outbox_row_awaiting_ack (ox_id row) True s else s)"

definition send_returns :: "outbox_env \<Rightarrow> chat_protocol \<Rightarrow> send_result \<Rightarrow> ipc \<Rightarrow> ipc \<Rightarrow> millis \<Rightarrow> outbox \<Rightarrow> outbox" where
  "send_returns e protocol result ipc block_ipc now s =
     (case ob_pass s of
        Some p \<Rightarrow> (case dp_phase p of
            TurnSending row \<Rightarrow>
              if result \<noteq> SendOk then finish_row e result ipc block_ipc now row s
              else
                let s = after_accept protocol row now s in
                if is_emergency_outbox_priority row \<or> protocol = chat_protocol.Reticulum then set_turn (TurnAwaiting row) s
                else finish_row e SendOk ipc block_ipc now row s
          | _ \<Rightarrow> s)
      | None \<Rightarrow> s)"

definition ack_settles :: "outbox_env \<Rightarrow> send_result \<Rightarrow> ipc \<Rightarrow> ipc \<Rightarrow> millis \<Rightarrow> outbox \<Rightarrow> outbox" where
  "ack_settles e result ipc block_ipc now s =
     (case ob_pass s of
        Some p \<Rightarrow> (case dp_phase p of TurnAwaiting row \<Rightarrow> finish_row e result ipc block_ipc now row s | _ \<Rightarrow> s)
      | None \<Rightarrow> s)"

text \<open>The watchdog of a row gives up waiting; the send is not aborted and may still return.\<close>

definition row_timeout :: "outbox_env \<Rightarrow> ipc \<Rightarrow> millis \<Rightarrow> outbox \<Rightarrow> outbox" where
  "row_timeout e ipc now s =
     (case ob_pass s of
        Some p \<Rightarrow> (case dp_phase p of
            TurnSending row \<Rightarrow> finish_row e (SendError OUTBOX_DRAIN_TIMEOUT_KEY) ipc ipc now row (s\<lparr>ob_late := ob_late s @ [row]\<rparr>)
          | TurnAwaiting row \<Rightarrow> finish_row e (SendError OUTBOX_DRAIN_TIMEOUT_KEY) ipc ipc now row s
          | _ \<Rightarrow> s)
      | None \<Rightarrow> s)"

definition late_send_returns :: "chat_protocol \<Rightarrow> bool \<Rightarrow> millis \<Rightarrow> outbox \<Rightarrow> outbox" where
  "late_send_returns protocol accepted now s =
     (case ob_late s of
        [] \<Rightarrow> s
      | row # rows \<Rightarrow>
          let s = s\<lparr>ob_late := rows\<rparr> in if accepted then after_accept protocol row now s else s)"

subsection \<open>The user\<close>

definition queue_row :: "outbox_entry_input \<Rightarrow> connected \<Rightarrow> ipc \<Rightarrow> millis \<Rightarrow> outbox \<Rightarrow> outbox" where
  "queue_row entry identity ipc now s =
     (if ipc \<noteq> Served then s
      else case outbox_add (with_outbox_identity entry identity) now (ob_db s) of
        None \<Rightarrow> s
      | Some (row, db) \<Rightarrow> log_row (LogCreated row) (s\<lparr>ob_db := db\<rparr>))"

text \<open>The victim of the cap: the least urgent row, the oldest of these, and never a MAYDAY or a row being sent.\<close>

definition cap_victim :: "outbox_entry list \<Rightarrow> (outbox_entry \<times> nat) option" where
  "cap_victim rows =
     fold (\<lambda>r victim.
       if ox_status r = RowSending \<or> is_mayday_emergency_outbox_payload (ox_payload r) then victim
       else
         let severity = emergency_payload_severity (ox_payload r) in
         case victim of
           None \<Rightarrow> Some (r, severity)
         | Some (v, victim_severity) \<Rightarrow>
             if severity > victim_severity \<or> severity = victim_severity \<and> ox_created_at r < ox_created_at v
             then Some (r, severity) else victim) rows None"

definition enforce_emergency_outbox_soft_cap :: "outbox_entry \<Rightarrow> ipc \<Rightarrow> ipc \<Rightarrow> millis \<Rightarrow> outbox \<Rightarrow> outbox" where
  "enforce_emergency_outbox_soft_cap new_row list_ipc update_ipc now s =
     (if list_ipc \<noteq> Served \<or> \<not> is_emergency_outbox_priority new_row then s
      else
        let active_others = filter (\<lambda>r. is_emergency_outbox_priority r \<and> ox_id r \<noteq> ox_id new_row \<and> ox_status r \<noteq> RowBlocked)
              (outbox_list (ox_protocol new_row) (ob_db s))
        in if length active_others + 1 \<le> EMERGENCY_OUTBOX_SOFT_CAP then s
           else case cap_victim active_others of
             None \<Rightarrow> s
           | Some (v, severity) \<Rightarrow>
               on_db update_ipc (outbox_update_status (ox_id v) RowBlocked (Some EMERGENCY_CAP_BLOCKED_KEY) None None now) s)"

definition retry_row :: "nat \<Rightarrow> ipc \<Rightarrow> millis \<Rightarrow> outbox \<Rightarrow> outbox" where
  "retry_row i ipc now s =
     (if ipc \<noteq> Served then s
      else log_row (LogRetried i) (on_db ipc (outbox_update_status i RowQueued None None (Some 0) now) s))"

definition cancel_row :: "nat \<Rightarrow> ipc \<Rightarrow> outbox \<Rightarrow> outbox" where
  "cancel_row i ipc s = on_db ipc (outbox_remove i) (abort_outbox_row_send i s)"

text \<open>
  Editing a scheduled row works on the rows the view has, which may be out of date. A new text is a new
  row; a new time is written to every part, and written back when one of them fails.
\<close>

fun reschedule_rows :: "(nat \<Rightarrow> ipc) \<Rightarrow> millis option \<Rightarrow> millis \<Rightarrow> outbox_entry list \<Rightarrow> nat list \<Rightarrow> outbox \<Rightarrow> (nat list \<times> bool) \<times> outbox" where
  "reschedule_rows ipc_of at now [] moved s = ((moved, True), s)"
| "reschedule_rows ipc_of at now (r # rs) moved s =
     (if ipc_of (ox_id r) = Rejected then ((moved, False), s)
      else reschedule_rows ipc_of at now rs (moved @ [ox_id r])
        (on_db (ipc_of (ox_id r)) (outbox_update_status (ox_id r) RowQueued None at None now) s))"

record edit_ipc =
  ei_add :: ipc
  ei_remove :: ipc
  ei_rollback :: ipc
  ei_update :: "nat \<Rightarrow> ipc"
  ei_restore :: "nat \<Rightarrow> ipc"

definition replace_scheduled_row :: "edit_ipc \<Rightarrow> outbox_entry \<Rightarrow> utf16 \<Rightarrow> millis \<Rightarrow> millis \<Rightarrow> outbox \<Rightarrow> bool \<times> outbox" where
  "replace_scheduled_row ipcs row payload scheduled_at now s =
     (if ei_add ipcs \<noteq> Served then (ei_add ipcs = DbClosed \<and> ei_remove ipcs \<noteq> Rejected, s)
      else
        let entry = \<lparr>oi_protocol = ox_protocol row, oi_view_key = ox_view_key row, oi_channel = ox_channel row, oi_to_node = ox_to_node row,
              oi_payload = payload, oi_reply_id = ox_reply_id row, oi_status = RowQueued, oi_error = None,
              oi_next_retry_at = Some scheduled_at, oi_group_id = None, oi_group_index = None, oi_group_total = None,
              oi_priority = None, oi_identity_id = ox_identity_id row\<rparr>
        in case outbox_add entry now (ob_db s) of
          None \<Rightarrow> (False, s)
        | Some (added, db) \<Rightarrow>
            let s = abort_outbox_row_send (ox_id row) (log_row (LogCreated added) (s\<lparr>ob_db := db\<rparr>)) in
            if ei_remove ipcs = Rejected then (False, on_db (ei_rollback ipcs) (outbox_remove (ox_id added)) s)
            else (True, on_db (ei_remove ipcs) (outbox_remove (ox_id row)) s))"

definition move_scheduled_rows :: "edit_ipc \<Rightarrow> outbox_entry list \<Rightarrow> outbox_entry \<Rightarrow> millis \<Rightarrow> millis \<Rightarrow> outbox \<Rightarrow> bool \<times> outbox" where
  "move_scheduled_rows ipcs view row scheduled_at now s =
     (let targets = filter is_scheduled_outbox_row (scheduled_group_rows view row) in
      case reschedule_rows (ei_update ipcs) (Some scheduled_at) now targets [] s of
        ((moved, True), s) \<Rightarrow> (True, s)
      | ((moved, False), s) \<Rightarrow>
          (False, fold (\<lambda>i. on_db (ei_restore ipcs i) (outbox_update_status i RowQueued None (ox_next_retry_at row) None now)) moved s))"

definition edit_scheduled ::
  "edit_ipc \<Rightarrow> outbox_entry list \<Rightarrow> nat \<Rightarrow> utf16 option \<Rightarrow> js_number option \<Rightarrow> millis \<Rightarrow> outbox \<Rightarrow> bool \<times> outbox" where
  "edit_scheduled ipcs view i patch_payload patch_at now s =
     (case List.find (\<lambda>r. ox_id r = i) view of
        None \<Rightarrow> (False, s)
      | Some row \<Rightarrow>
          if \<not> is_scheduled_outbox_row row then (False, s)
          else
            case (case patch_at of Some at \<Rightarrow> Some at | None \<Rightarrow> map_option Finite (ox_next_retry_at row)) of
              Some (Finite scheduled_at) \<Rightarrow>
                if validate_scheduled_at (Finite scheduled_at) now \<noteq> AtOk then (False, s)
                else (case map_option trim16 patch_payload of
                  None \<Rightarrow> move_scheduled_rows ipcs view row scheduled_at now s
                | Some payload \<Rightarrow>
                    if payload = ox_payload row then move_scheduled_rows ipcs view row scheduled_at now s
                    else if payload = [] \<or> ox_group_id row \<noteq> None then (False, s)
                    else replace_scheduled_row ipcs row payload scheduled_at now s)
            | _ \<Rightarrow> (False, s))"

text \<open>A view that opens lists the rows and then puts those that were being sent back into the queue.\<close>

definition view_opens :: "chat_protocol \<Rightarrow> ipc \<Rightarrow> outbox \<Rightarrow> outbox" where
  "view_opens protocol ipc s =
     (if ipc \<noteq> Served then s
      else s\<lparr>ob_stale := ob_stale s @ map ox_id (filter (\<lambda>r. ox_status r = RowSending) (outbox_list protocol (ob_db s)))\<rparr>)"

definition view_recovers :: "ipc \<Rightarrow> millis \<Rightarrow> outbox \<Rightarrow> outbox" where
  "view_recovers ipc now s =
     (case ob_stale s of
        [] \<Rightarrow> s
      | i # is \<Rightarrow> on_db ipc (outbox_update_status i RowQueued None None None now) (s\<lparr>ob_stale := is\<rparr>))"

subsection \<open>Runs\<close>

datatype outbox_event =
    BeginDrain drain_options ipc "nat \<Rightarrow> ipc" millis
  | RowTurn bool connected ipc millis
  | PaceOver ipc millis
  | SendReturns send_result ipc ipc millis
  | AckSettles send_result ipc ipc millis
  | RowTimeout ipc millis
  | LateSendReturns bool millis
  | QueueRow outbox_entry_input connected ipc millis
  | EnforceCap outbox_entry ipc ipc millis
  | RetryRow nat ipc millis
  | CancelRow nat ipc
  | EditScheduled edit_ipc "outbox_entry list" nat "utf16 option" "js_number option" millis
  | ViewOpens ipc
  | ViewRecovers ipc millis

fun outbox_step :: "outbox_env \<Rightarrow> chat_protocol \<Rightarrow> outbox_event \<Rightarrow> outbox \<Rightarrow> outbox" where
  "outbox_step e pr (BeginDrain opts list_ipc recover_ipc now) s = begin_drain pr opts list_ipc recover_ipc now s"
| "outbox_step e pr (RowTurn available identity ipc now) s = row_turn pr available identity ipc now s"
| "outbox_step e pr (PaceOver ipc now) s = pace_over ipc now s"
| "outbox_step e pr (SendReturns result ipc block_ipc now) s = send_returns e pr result ipc block_ipc now s"
| "outbox_step e pr (AckSettles result ipc block_ipc now) s = ack_settles e result ipc block_ipc now s"
| "outbox_step e pr (RowTimeout ipc now) s = row_timeout e ipc now s"
| "outbox_step e pr (LateSendReturns accepted now) s = late_send_returns pr accepted now s"
| "outbox_step e pr (QueueRow entry identity ipc now) s = queue_row entry identity ipc now s"
| "outbox_step e pr (EnforceCap row list_ipc update_ipc now) s = enforce_emergency_outbox_soft_cap row list_ipc update_ipc now s"
| "outbox_step e pr (RetryRow i ipc now) s = retry_row i ipc now s"
| "outbox_step e pr (CancelRow i ipc) s = cancel_row i ipc s"
| "outbox_step e pr (EditScheduled ipcs view i payload at now) s = snd (edit_scheduled ipcs view i payload at now s)"
| "outbox_step e pr (ViewOpens ipc) s = view_opens pr ipc s"
| "outbox_step e pr (ViewRecovers ipc now) s = view_recovers ipc now s"

definition outbox_run :: "outbox_env \<Rightarrow> chat_protocol \<Rightarrow> outbox_event list \<Rightarrow> outbox" where
  "outbox_run e pr es = fold (outbox_step e pr) es outbox_init"

end
