(* ===== verification/Outbox_Safety.thy ===== *)
theory Outbox_Safety
  imports Chat_Outbox
begin

text \<open>
  What the outbox promises, in every order of its events: a row that the application does not retry for
  ever is sent only so often, and a row that was delivered and removed is not sent again. The invariant
  is shown for the steps on the table and the rows of a pass, and carried over to the events.
\<close>

subsection \<open>What the log says of a row\<close>

definition sends :: "nat \<Rightarrow> outbox_log list \<Rightarrow> nat" where
  "sends i l = length (filter (\<lambda>x. case x of LogSent r \<Rightarrow> ox_id r = i | _ \<Rightarrow> False) l)"

definition retries :: "nat \<Rightarrow> outbox_log list \<Rightarrow> nat" where "retries i l = count_list l (LogRetried i)"
definition losses :: "nat \<Rightarrow> outbox_log list \<Rightarrow> nat" where "losses i l = count_list l (LogLost i)"

text \<open>After a row was delivered and removed it is not sent again.\<close>

definition quiet :: "outbox_log list \<Rightarrow> bool" where
  "quiet l \<longleftrightarrow> (\<forall>xs i ys. l = xs @ LogDelivered i # ys \<longrightarrow> sends i ys = 0)"

lemma log_counts_simps [simp]:
  "sends i (l @ [x]) = sends i l + (case x of LogSent r \<Rightarrow> of_bool (ox_id r = i) | _ \<Rightarrow> 0)"
  "retries i (l @ [x]) = retries i l + of_bool (x = LogRetried i)"
  "losses i (l @ [x]) = losses i l + of_bool (x = LogLost i)"
  by (auto simp: sends_def retries_def losses_def split: outbox_log.split)

lemma counts_Nil [simp]: "sends i [] = 0" "retries i [] = 0" "losses i [] = 0"
  by (simp_all add: sends_def retries_def losses_def)

lemma sends_0: "sends i l = 0 \<longleftrightarrow> (\<forall>r. LogSent r \<in> set l \<longrightarrow> ox_id r \<noteq> i)"
  by (auto simp: sends_def filter_empty_conv split: outbox_log.splits)

lemma quiet_Nil [simp]: "quiet []"
  by (simp add: quiet_def)

lemma quiet_snoc: "quiet l \<Longrightarrow> (\<And>r. x = LogSent r \<Longrightarrow> LogDelivered (ox_id r) \<notin> set l) \<Longrightarrow> quiet (l @ [x])"
  unfolding quiet_def
proof (intro allI impI)
  fix xs i ys
  assume q: "\<forall>xs i ys. l = xs @ LogDelivered i # ys \<longrightarrow> sends i ys = 0"
    and x: "\<And>r. x = LogSent r \<Longrightarrow> LogDelivered (ox_id r) \<notin> set l" and l: "l @ [x] = xs @ LogDelivered i # ys"
  show "sends i ys = 0"
  proof (cases ys rule: rev_cases)
    case (snoc zs z)
    then have split: "l = xs @ LogDelivered i # zs" "z = x" using l by auto
    then have "sends i zs = 0" using q by blast
    moreover have "\<not> (\<exists>r. x = LogSent r \<and> ox_id r = i)" using x split(1) by auto
    ultimately show ?thesis using snoc split(2) by (auto split: outbox_log.split)
  qed simp
qed

subsection \<open>The invariant\<close>

text \<open>
  It is stated of the table, of the rows a pass holds, of the row it is sending and of the log. Rows keep
  their kind: whether the application retries them for ever.
\<close>

definition same_kind :: "outbox_entry \<Rightarrow> outbox_log list \<Rightarrow> bool" where
  "same_kind r log \<longleftrightarrow> (\<exists>c. LogCreated c \<in> set log \<and> ox_id c = ox_id r \<and> is_app_managed_outbox_row c = is_app_managed_outbox_row r)"

definition normal_row :: "nat \<Rightarrow> outbox_log list \<Rightarrow> bool" where
  "normal_row i log \<longleftrightarrow> (\<forall>c. LogCreated c \<in> set log \<longrightarrow> ox_id c = i \<longrightarrow> \<not> is_app_managed_outbox_row c)"

definition rows_ok :: "outbox_db \<Rightarrow> outbox_entry list \<Rightarrow> outbox_entry option \<Rightarrow> outbox_log list \<Rightarrow> bool" where
  "rows_ok db held flight log \<longleftrightarrow>
     distinct (map ox_id (od_rows db)) \<and> distinct (map ox_id (held @ (case flight of None \<Rightarrow> [] | Some r \<Rightarrow> [r])))
     \<and> (\<forall>r \<in> set (od_rows db). same_kind r log) \<and> (\<forall>r \<in> set held. same_kind r log)
     \<and> (\<forall>r. flight = Some r \<longrightarrow> same_kind r log) \<and> (\<forall>r. LogSent r \<in> set log \<longrightarrow> same_kind r log)
     \<and> (\<forall>c d. LogCreated c \<in> set log \<longrightarrow> LogCreated d \<in> set log \<longrightarrow> ox_id c = ox_id d \<longrightarrow> c = d)
     \<and> (\<forall>c. LogCreated c \<in> set log \<longrightarrow> ox_id c \<le> od_last_id db)"

fun in_flight :: "outbox_entry option \<Rightarrow> nat \<Rightarrow> bool" where
  "in_flight None i = False"
| "in_flight (Some f) i = (ox_id f = i)"

definition row_budget :: "outbox_entry option \<Rightarrow> outbox_log list \<Rightarrow> nat \<Rightarrow> nat \<Rightarrow> bool" where
  "row_budget flight log i n \<longleftrightarrow>
     n \<le> MAX_ATTEMPTS
     \<and> sends i log \<le> MAX_ATTEMPTS * retries i log + n + of_bool (in_flight flight i) + losses i log"

definition budget_ok :: "outbox_db \<Rightarrow> outbox_entry list \<Rightarrow> outbox_entry option \<Rightarrow> outbox_log list \<Rightarrow> nat \<Rightarrow> bool" where
  "budget_ok db held flight log i \<longleftrightarrow>
     (\<forall>r \<in> set (od_rows db). ox_id r = i \<longrightarrow> row_budget flight log i (ox_attempt_count r))
     \<and> (\<forall>r \<in> set held. ox_id r = i \<longrightarrow> ox_attempt_count r < MAX_ATTEMPTS
        \<and> sends i log \<le> MAX_ATTEMPTS * retries i log + ox_attempt_count r + losses i log)
     \<and> (\<forall>r. flight = Some r \<longrightarrow> ox_id r = i \<longrightarrow> ox_attempt_count r < MAX_ATTEMPTS
        \<and> sends i log \<le> MAX_ATTEMPTS * retries i log + ox_attempt_count r + 1 + losses i log)
     \<and> sends i log \<le> MAX_ATTEMPTS * (1 + retries i log) + losses i log"

definition delivered_ok :: "outbox_db \<Rightarrow> outbox_entry list \<Rightarrow> outbox_entry option \<Rightarrow> outbox_log list \<Rightarrow> bool" where
  "delivered_ok db held flight log \<longleftrightarrow>
     quiet log
     \<and> (\<forall>i. LogDelivered i \<in> set log \<longrightarrow> i \<le> od_last_id db \<and> i \<notin> ox_id ` set (od_rows db) \<and> i \<notin> ox_id ` set held
          \<and> (\<forall>f. flight = Some f \<longrightarrow> ox_id f \<noteq> i))"

definition outbox_ok :: "outbox_db \<Rightarrow> outbox_entry list \<Rightarrow> outbox_entry option \<Rightarrow> outbox_log list \<Rightarrow> bool" where
  "outbox_ok db held flight log \<longleftrightarrow>
     rows_ok db held flight log \<and> (\<forall>i. normal_row i log \<longrightarrow> budget_ok db held flight log i) \<and> delivered_ok db held flight log"

text \<open>What a status update leaves alone.\<close>

lemma managed_update [simp]:
  "is_app_managed_outbox_row (r\<lparr>ox_status := a, ox_error := b, ox_next_retry_at := c, ox_attempt_count := n, ox_updated_at := u\<rparr>)
   = is_app_managed_outbox_row r"
  by (simp add: is_app_managed_outbox_row_def is_emergency_outbox_priority_def is_incident_ack_outbox_row_def)

lemma update_status_ids [simp]: "map ox_id (od_rows (outbox_update_status i st er nx n now db)) = map ox_id (od_rows db)"
  by (induction "od_rows db") (simp_all add: outbox_update_status_def comp_def)

lemma update_status_last [simp]: "od_last_id (outbox_update_status i st er nx n now db) = od_last_id db"
  by (simp add: outbox_update_status_def)

lemma update_status_row:
  assumes "r \<in> set (od_rows (outbox_update_status i st er nx n now db))"
  shows "\<exists>q \<in> set (od_rows db). ox_id r = ox_id q \<and> is_app_managed_outbox_row r = is_app_managed_outbox_row q
    \<and> ox_attempt_count r = (if ox_id q = i then (case n of Some k \<Rightarrow> k | None \<Rightarrow> ox_attempt_count q) else ox_attempt_count q)"
  using assms by (auto simp: outbox_update_status_def split: if_splits)

lemma update_status_id_set [simp]: "ox_id ` set (od_rows (outbox_update_status i st er nx n now db)) = ox_id ` set (od_rows db)"
  by (metis list.set_map update_status_ids)

lemma remove_rows [simp]: "set (od_rows (outbox_remove i db)) = {r \<in> set (od_rows db). ox_id r \<noteq> i}" "od_last_id (outbox_remove i db) = od_last_id db"
  by (auto simp: outbox_remove_def)

lemma remove_distinct: "distinct (map ox_id (od_rows db)) \<Longrightarrow> distinct (map ox_id (od_rows (outbox_remove i db)))"
  by (simp add: outbox_remove_def distinct_map_filter)

lemma same_kind_cong: "ox_id r = ox_id r' \<Longrightarrow> is_app_managed_outbox_row r = is_app_managed_outbox_row r' \<Longrightarrow> same_kind r log = same_kind r' log"
  by (simp add: same_kind_def)

lemma same_kind_mono: "same_kind r log \<Longrightarrow> set log \<subseteq> set log' \<Longrightarrow> same_kind r log'"
  by (auto simp: same_kind_def)

subsection \<open>The steps keep the invariant\<close>

text \<open>How the parts of the invariant are carried from one state to the next.\<close>

lemma rows_ok_carry:
  assumes "rows_ok db H F log" "distinct (map ox_id (od_rows db'))" "od_last_id db' = od_last_id db"
    and rows: "\<And>r. r \<in> set (od_rows db') \<Longrightarrow> \<exists>q \<in> set (od_rows db). ox_id r = ox_id q \<and> is_app_managed_outbox_row r = is_app_managed_outbox_row q"
    and ids: "distinct (map ox_id (H' @ (case F' of None \<Rightarrow> [] | Some r \<Rightarrow> [r])))"
    and held: "\<And>r. r \<in> set H' \<Longrightarrow> same_kind r log" "\<And>r. F' = Some r \<Longrightarrow> same_kind r log"
    and log: "log' = log @ [x]" "\<And>r. x \<noteq> LogCreated r" "\<And>r. x = LogSent r \<Longrightarrow> same_kind r log"
  shows "rows_ok db' H' F' log'"
proof -
  have kind: "same_kind r log'" if "same_kind r log" for r using that by (rule same_kind_mono) (auto simp: log(1))
  have "\<forall>r \<in> set (od_rows db'). same_kind r log'"
  proof
    fix r assume "r \<in> set (od_rows db')"
    from rows [OF this] obtain q where q: "q \<in> set (od_rows db)" "ox_id r = ox_id q" "is_app_managed_outbox_row r = is_app_managed_outbox_row q"
      by blast
    then have "same_kind q log" using assms(1) by (simp add: rows_ok_def)
    then show "same_kind r log'" using kind same_kind_cong [OF q(2,3)] by simp
  qed
  moreover have "\<forall>r. LogSent r \<in> set log' \<longrightarrow> same_kind r log'"
    using assms(1) kind log by (auto simp: rows_ok_def)
  moreover have created: "LogCreated c \<in> set log' \<longleftrightarrow> LogCreated c \<in> set log" for c using log(1,2) by auto
  ultimately show ?thesis
    using assms(1-3) ids held kind unfolding rows_ok_def created by simp
qed

lemma rows_ok_same_log:
  assumes "rows_ok db H F log" "distinct (map ox_id (od_rows db'))" "od_last_id db' = od_last_id db"
    and rows: "\<And>r. r \<in> set (od_rows db') \<Longrightarrow> \<exists>q \<in> set (od_rows db). ox_id r = ox_id q \<and> is_app_managed_outbox_row r = is_app_managed_outbox_row q"
    and ids: "distinct (map ox_id (H' @ (case F' of None \<Rightarrow> [] | Some r \<Rightarrow> [r])))"
    and held: "\<And>r. r \<in> set H' \<Longrightarrow> same_kind r log" "\<And>r. F' = Some r \<Longrightarrow> same_kind r log"
  shows "rows_ok db' H' F' log"
proof -
  have "\<forall>r \<in> set (od_rows db'). same_kind r log"
  proof
    fix r assume "r \<in> set (od_rows db')"
    from rows [OF this] obtain q where q: "q \<in> set (od_rows db)" "ox_id r = ox_id q" "is_app_managed_outbox_row r = is_app_managed_outbox_row q"
      by blast
    then have "same_kind q log" using assms(1) by (simp add: rows_ok_def)
    then show "same_kind r log" using same_kind_cong [OF q(2,3)] by simp
  qed
  then show ?thesis using assms(1-3) ids held unfolding rows_ok_def by simp
qed

lemma rows_ok_log:
  assumes "rows_ok db H F log" "\<And>c. x \<noteq> LogCreated c" "\<And>r. x \<noteq> LogSent r"
  shows "rows_ok db H F (log @ [x])"
proof -
  have kind: "same_kind r (log @ [x])" if "same_kind r log" for r using that by (rule same_kind_mono) auto
  have "LogCreated c \<in> set (log @ [x]) \<longleftrightarrow> LogCreated c \<in> set log" "LogSent c \<in> set (log @ [x]) \<longleftrightarrow> LogSent c \<in> set log" for c
    using assms(2,3) by auto
  then show ?thesis using assms(1) kind unfolding rows_ok_def by simp
qed

lemma delivered_ok_carry:
  assumes "delivered_ok db H F log" "od_last_id db \<le> od_last_id db'" "ox_id ` set (od_rows db') \<subseteq> ox_id ` set (od_rows db)"
    "ox_id ` set H' \<subseteq> ox_id ` set H" "ox_id ` set_option F' \<subseteq> ox_id ` (set H \<union> set_option F)"
    "set log' \<subseteq> insert x (set log)" "quiet log'" "\<And>i. x \<noteq> LogDelivered i"
  shows "delivered_ok db' H' F' log'"
  unfolding delivered_ok_def
proof (intro conjI allI impI)
  fix i assume "LogDelivered i \<in> set log'"
  then have "LogDelivered i \<in> set log" using assms(6,8) by blast
  then have i: "i \<le> od_last_id db" "i \<notin> ox_id ` set (od_rows db)" "i \<notin> ox_id ` set H" "\<forall>f. F = Some f \<longrightarrow> ox_id f \<noteq> i"
    using assms(1) by (simp_all add: delivered_ok_def)
  show "i \<le> od_last_id db'" using i(1) assms(2) by simp
  show "i \<notin> ox_id ` set (od_rows db')" "i \<notin> ox_id ` set H'" using i(2,3) assms(3,4) by blast+
  show "ox_id f \<noteq> i" if "F' = Some f" for f
  proof -
    have "ox_id f \<in> ox_id ` (set H \<union> set_option F)" using assms(5) that by auto
    then show ?thesis using i(3,4) by auto
  qed
qed (rule assms(7))

lemma outbox_okD:
  assumes "outbox_ok db H F log"
  shows "rows_ok db H F log" "normal_row i log \<Longrightarrow> budget_ok db H F log i" "delivered_ok db H F log" "quiet log"
    "distinct (map ox_id (od_rows db))" "distinct (map ox_id H)" "r \<in> set H \<Longrightarrow> same_kind r log" "F = Some r \<Longrightarrow> same_kind r log"
    "F = Some r \<Longrightarrow> ox_id r \<notin> ox_id ` set H" "LogDelivered j \<in> set log \<Longrightarrow> r \<in> set H \<Longrightarrow> ox_id r \<noteq> j"
  using assms by (auto simp: outbox_ok_def rows_ok_def delivered_ok_def)

lemma updated_rows:
  assumes "r \<in> set (od_rows (outbox_update_status i st er nx n now db))"
  shows "\<exists>q \<in> set (od_rows db). ox_id r = ox_id q \<and> is_app_managed_outbox_row r = is_app_managed_outbox_row q"
  using update_status_row [OF assms] by blast

lemma update_distinct: "distinct (map ox_id (od_rows db)) \<Longrightarrow> distinct (map ox_id (od_rows (outbox_update_status i st er nx n now db)))"
  by simp

lemma normal_row_mono: "normal_row i (log @ [x]) \<Longrightarrow> normal_row i log"
  by (simp add: normal_row_def)

lemma budget_ok_rows:
  assumes "budget_ok db H F log j" "\<And>r. r \<in> set (od_rows db') \<Longrightarrow> ox_id r = j \<Longrightarrow> row_budget F log j (ox_attempt_count r)"
  shows "budget_ok db' H F log j"
  using assms by (simp add: budget_ok_def)

lemma row_budget: "budget_ok db H F log j \<Longrightarrow> r \<in> set (od_rows db) \<Longrightarrow> ox_id r = j \<Longrightarrow> row_budget F log j (ox_attempt_count r)"
  by (simp add: budget_ok_def)

lemma outbox_ok_update:
  assumes "outbox_ok db H F log"
  shows "outbox_ok (outbox_update_status i st er nx None now db) H F log"
  unfolding outbox_ok_def
proof (intro conjI allI impI)
  let ?db = "outbox_update_status i st er nx None now db"
  show "rows_ok ?db H F log"
  proof (rule rows_ok_same_log [OF outbox_okD(1) [OF assms] _ _ updated_rows])
    show "distinct (map ox_id (H @ (case F of None \<Rightarrow> [] | Some r \<Rightarrow> [r])))" using assms by (simp add: outbox_ok_def rows_ok_def)
  qed (use outbox_okD [OF assms] in auto)
  show "delivered_ok ?db H F log" using outbox_okD(3) [OF assms] by (simp add: delivered_ok_def)
  fix j assume j: "normal_row j log"
  have rows: "\<exists>q \<in> set (od_rows db). ox_id r = ox_id q \<and> ox_attempt_count r = ox_attempt_count q" if "r \<in> set (od_rows ?db)" for r
    using update_status_row [OF that] by (auto split: if_splits)
  show "budget_ok ?db H F log j"
  proof (rule budget_ok_rows [OF outbox_okD(2) [OF assms j]])
    fix r assume "r \<in> set (od_rows ?db)" "ox_id r = j"
    with rows obtain q where q: "q \<in> set (od_rows db)" "ox_id q = j" "ox_attempt_count r = ox_attempt_count q" by metis
    show "row_budget F log j (ox_attempt_count r)" unfolding q(3) by (rule row_budget [OF outbox_okD(2) [OF assms j] q(1,2)])
  qed
qed

lemma outbox_ok_remove:
  assumes "outbox_ok db H F log"
  shows "outbox_ok (outbox_remove i db) H F log"
  unfolding outbox_ok_def
proof (intro conjI allI impI)
  show "rows_ok (outbox_remove i db) H F log"
    using outbox_okD(1) [OF assms] remove_distinct [of db i] by (simp add: rows_ok_def)
  show "delivered_ok (outbox_remove i db) H F log" using outbox_okD(3) [OF assms] by (auto simp: delivered_ok_def)
  show "budget_ok (outbox_remove i db) H F log j" if "normal_row j log" for j
    using outbox_okD(2) [OF assms that] by (simp add: budget_ok_def)
qed

lemma outbox_ok_drop:
  assumes "outbox_ok db H F log" "set H' \<subseteq> set H" "distinct (map ox_id H')"
  shows "outbox_ok db H' F log"
  unfolding outbox_ok_def
proof (intro conjI allI impI)
  have "distinct (map ox_id (H' @ (case F of None \<Rightarrow> [] | Some r \<Rightarrow> [r])))"
    using assms outbox_okD(9) [OF assms(1)] by (cases F) auto
  then show "rows_ok db H' F log" using outbox_okD(1) [OF assms(1)] assms(2) unfolding rows_ok_def by blast
  show "delivered_ok db H' F log" using outbox_okD(3) [OF assms(1)] assms(2) unfolding delivered_ok_def by blast
  show "budget_ok db H' F log i" if "normal_row i log" for i
    using outbox_okD(2) [OF assms(1) that] assms(2) unfolding budget_ok_def by blast
qed

lemma outbox_ok_add:
  assumes "outbox_ok db H F log" "outbox_add en now db = Some (row, db')"
  shows "outbox_ok db' H F (log @ [LogCreated row])"
  unfolding outbox_ok_def
proof (intro conjI allI impI)
  let ?log = "log @ [LogCreated row]"
  have db: "od_rows db' = od_rows db @ [row]" "od_last_id db' = ox_id row" "ox_id row = od_last_id db + 1" "ox_attempt_count row = 0"
    using assms(2) by (auto simp: outbox_add_def Let_def split: if_splits option.splits)
  have rows: "rows_ok db H F log" using outbox_okD(1) [OF assms(1)] .
  then have created: "ox_id c \<le> od_last_id db" if "LogCreated c \<in> set log" for c using that by (simp add: rows_ok_def)
  then have old: "ox_id r < ox_id row" if "same_kind r log" for r using that db(3) by (fastforce simp: same_kind_def)
  have kind: "same_kind r log \<Longrightarrow> same_kind r ?log" for r by (rule same_kind_mono) auto
  have "LogSent r \<in> set log \<Longrightarrow> same_kind r log" "r \<in> set (od_rows db) \<Longrightarrow> same_kind r log" for r
    using rows by (simp_all add: rows_ok_def)
  with old have fresh: "\<forall>r. LogSent r \<in> set log \<longrightarrow> ox_id r \<noteq> ox_id row" "\<forall>r \<in> set (od_rows db). ox_id r \<noteq> ox_id row"
    by (metis less_irrefl)+
  have last: "od_last_id db \<le> od_last_id db'" using db by simp
  show "rows_ok db' H F ?log"
    unfolding rows_ok_def
  proof (intro conjI ballI allI impI)
    show "distinct (map ox_id (od_rows db'))" using outbox_okD(5) [OF assms(1)] fresh(2) by (auto simp: db(1))
    show "same_kind r ?log" if "r \<in> set (od_rows db')" for r
      using that rows kind by (auto simp: db(1) rows_ok_def) (auto simp: same_kind_def)
    show "c = d" if "LogCreated c \<in> set ?log" "LogCreated d \<in> set ?log" "ox_id c = ox_id d" for c d
      using that rows created db(3) by (fastforce simp: rows_ok_def)
    show "ox_id c \<le> od_last_id db'" if "LogCreated c \<in> set ?log" for c
      using that created last db(2) by (auto dest: le_trans)
  qed (use rows kind in \<open>simp_all add: rows_ok_def\<close>)
  show "delivered_ok db' H F ?log"
  proof -
    have "quiet ?log" using outbox_okD(4) [OF assms(1)] by (rule quiet_snoc) simp
    moreover have "i \<noteq> ox_id row" if "LogDelivered i \<in> set log" for i
      using that outbox_okD(3) [OF assms(1)] db(3) by (auto simp: delivered_ok_def)
    ultimately show ?thesis using outbox_okD(3) [OF assms(1)] last unfolding delivered_ok_def db(1) by (auto dest: le_trans)
  qed
  fix i assume i: "normal_row i ?log"
  have b: "budget_ok db H F log i" using outbox_okD(2) [OF assms(1) normal_row_mono [OF i]] .
  have "sends (ox_id row) log = 0" using fresh(1) by (simp add: sends_0)
  then have "row_budget F log i 0" if "i = ox_id row" using that by (simp add: row_budget_def)
  then have "row_budget F log i (ox_attempt_count r)" if "r \<in> set (od_rows db')" "ox_id r = i" for r
    using that row_budget [OF b] db(1,4) by auto
  then have "row_budget F ?log i (ox_attempt_count r)" if "r \<in> set (od_rows db')" "ox_id r = i" for r
    using that by (simp add: row_budget_def)
  then show "budget_ok db' H F ?log i" using b by (simp add: budget_ok_def)
qed

lemma outbox_ok_retry:
  assumes "outbox_ok db H F log"
  shows "outbox_ok (outbox_update_status i st er nx (Some 0) now db) H F (log @ [LogRetried i])"
  unfolding outbox_ok_def
proof (intro conjI allI impI)
  let ?db = "outbox_update_status i st er nx (Some 0) now db" and ?log = "log @ [LogRetried i]"
  show "rows_ok ?db H F ?log"
  proof (rule rows_ok_carry [OF outbox_okD(1) [OF assms] _ _ updated_rows])
    show "distinct (map ox_id (H @ (case F of None \<Rightarrow> [] | Some r \<Rightarrow> [r])))" using assms by (simp add: outbox_ok_def rows_ok_def)
  qed (use outbox_okD [OF assms] in auto)
  show "delivered_ok ?db H F ?log"
    by (rule delivered_ok_carry [OF outbox_okD(3) [OF assms], where x = "LogRetried i"])
      (auto intro: quiet_snoc outbox_okD(4) [OF assms])
  fix j assume j: "normal_row j ?log"
  have b: "budget_ok db H F log j" using outbox_okD(2) [OF assms normal_row_mono [OF j]] .
  have "row_budget F ?log j (ox_attempt_count r)" if "r \<in> set (od_rows ?db)" "ox_id r = j" for r
  proof -
    from update_status_row [OF that(1)] obtain q where q: "q \<in> set (od_rows db)" "ox_id r = ox_id q"
      "ox_attempt_count r = (if ox_id q = i then 0 else ox_attempt_count q)" by auto
    have "row_budget F log j (ox_attempt_count q)" using row_budget [OF b q(1)] q(2) that(2) by simp
    then show ?thesis using q(2,3) that(2) by (auto simp: row_budget_def algebra_simps)
  qed
  then show "budget_ok ?db H F ?log j" using b by (auto simp: budget_ok_def algebra_simps)
qed

lemma outbox_ok_list:
  assumes "outbox_ok db [] None log" "distinct (map ox_id H)"
    and from_db: "\<And>h. h \<in> set H \<Longrightarrow> \<exists>r \<in> set (od_rows db). ox_id r = ox_id h \<and> is_app_managed_outbox_row r = is_app_managed_outbox_row h
       \<and> ox_attempt_count r = ox_attempt_count h"
    and few: "\<And>h. h \<in> set H \<Longrightarrow> is_app_managed_outbox_row h \<or> ox_attempt_count h < MAX_ATTEMPTS"
  shows "outbox_ok db H None log"
  unfolding outbox_ok_def
proof (intro conjI allI impI)
  have kinds: "same_kind h log" if "h \<in> set H" for h
  proof -
    from from_db [OF that] obtain r where r: "r \<in> set (od_rows db)" "ox_id h = ox_id r" "is_app_managed_outbox_row h = is_app_managed_outbox_row r"
      by auto
    then show ?thesis using outbox_okD(1) [OF assms(1)] same_kind_cong [OF r(2,3)] by (simp add: rows_ok_def)
  qed
  then show "rows_ok db H None log" using outbox_okD(1) [OF assms(1)] assms(2) by (simp add: rows_ok_def)
  have "ox_id ` set H \<subseteq> ox_id ` set (od_rows db)"
  proof
    fix i assume "i \<in> ox_id ` set H"
    then obtain h where "h \<in> set H" "i = ox_id h" by blast
    with from_db [OF this(1)] show "i \<in> ox_id ` set (od_rows db)" by (metis image_eqI)
  qed
  then show "delivered_ok db H None log" using outbox_okD(3) [OF assms(1)] unfolding delivered_ok_def by auto
  fix i assume i: "normal_row i log"
  have b: "budget_ok db [] None log i" using outbox_okD(2) [OF assms(1) i] .
  have "ox_attempt_count h < MAX_ATTEMPTS \<and> sends i log \<le> MAX_ATTEMPTS * retries i log + ox_attempt_count h + losses i log"
    if h: "h \<in> set H" "ox_id h = i" for h
  proof -
    from from_db [OF h(1)] obtain r where r: "r \<in> set (od_rows db)" "ox_id r = i" "ox_attempt_count r = ox_attempt_count h"
      using h(2) by auto
    have "\<not> is_app_managed_outbox_row h" using kinds [OF h(1)] i h(2) by (auto simp: normal_row_def same_kind_def)
    then show ?thesis using row_budget [OF b r(1,2)] few [OF h(1)] r(3) by (simp add: row_budget_def)
  qed
  then show "budget_ok db H None log i" using b by (simp add: budget_ok_def)
qed

lemma outbox_ok_send:
  assumes "outbox_ok db H None log" "r \<in> set H" "set H' \<subseteq> set H - {r}" "distinct (map ox_id H')"
  shows "outbox_ok db H' (Some r) (log @ [LogSent r])"
  unfolding outbox_ok_def
proof (intro conjI allI impI)
  let ?log = "log @ [LogSent r]"
  have other: "ox_id h \<noteq> ox_id r" if "h \<in> set H'" for h
  proof -
    have "inj_on ox_id (set H)" using outbox_okD(6) [OF assms(1)] by (simp add: distinct_map)
    then show ?thesis using that assms(2,3) by (auto dest: inj_onD)
  qed
  have r: "same_kind r log" using outbox_okD(7) [OF assms(1,2)] .
  show "rows_ok db H' (Some r) ?log"
  proof (rule rows_ok_carry [OF outbox_okD(1) [OF assms(1)]])
    show "distinct (map ox_id (H' @ (case Some r of None \<Rightarrow> [] | Some r \<Rightarrow> [r])))" using assms(4) other by (simp, metis imageE)
    show "same_kind h log" if "h \<in> set H'" for h using outbox_okD(7) [OF assms(1)] that assms(3) by blast
  qed (use outbox_okD(5) [OF assms(1)] r in auto)
  have "quiet ?log" using outbox_okD(4) [OF assms(1)] outbox_okD(10) [OF assms(1) _ assms(2)] by (auto intro: quiet_snoc)
  then show "delivered_ok db H' (Some r) ?log"
    by (rule delivered_ok_carry [OF outbox_okD(3) [OF assms(1)], where x = "LogSent r", rotated 5]) (use assms(2,3) in auto)
  fix i assume i: "normal_row i ?log"
  have b: "budget_ok db H None log i" using outbox_okD(2) [OF assms(1) normal_row_mono [OF i]] .
  have "row_budget (Some r) ?log i (ox_attempt_count q)" if "q \<in> set (od_rows db)" "ox_id q = i" for q
    using row_budget [OF b that] by (simp add: row_budget_def)
  moreover have "h \<in> set H" if "h \<in> set H'" for h using that assms(3) by blast
  ultimately show "budget_ok db H' (Some r) ?log i"
    using b assms(2) other by (auto simp: budget_ok_def)
qed

lemma outbox_ok_stored:
  assumes "outbox_ok db H (Some r) log"
  shows "outbox_ok (outbox_update_status (ox_id r) st er nx (Some (ox_attempt_count r + 1)) now db) H None log"
  unfolding outbox_ok_def
proof (intro conjI allI impI)
  let ?db = "outbox_update_status (ox_id r) st er nx (Some (ox_attempt_count r + 1)) now db"
  show "rows_ok ?db H None log"
    by (rule rows_ok_same_log [OF outbox_okD(1) [OF assms] _ _ updated_rows]) (use outbox_okD [OF assms] in auto)
  show "delivered_ok ?db H None log" using outbox_okD(3) [OF assms] by (simp add: delivered_ok_def)
  fix j assume j: "normal_row j log"
  have b: "budget_ok db H (Some r) log j" using outbox_okD(2) [OF assms j] .
  have "row_budget None log j (ox_attempt_count x)" if "x \<in> set (od_rows ?db)" "ox_id x = j" for x
  proof -
    from update_status_row [OF that(1)] obtain q where q: "q \<in> set (od_rows db)" "ox_id q = j"
      "ox_attempt_count x = (if j = ox_id r then ox_attempt_count r + 1 else ox_attempt_count q)"
      using \<open>ox_id x = j\<close> by auto
    show ?thesis
    proof (cases "j = ox_id r")
      case True
      then show ?thesis using b q(3) by (simp add: budget_ok_def row_budget_def)
    next
      case False
      then show ?thesis using row_budget [OF b q(1,2)] q(3) by (simp add: row_budget_def)
    qed
  qed
  then show "budget_ok ?db H None log j" using b by (simp add: budget_ok_def)
qed

lemma outbox_ok_lost:
  assumes "outbox_ok db H (Some r) log"
  shows "outbox_ok db H None (log @ [LogLost (ox_id r)])"
  unfolding outbox_ok_def
proof (intro conjI allI impI)
  let ?log = "log @ [LogLost (ox_id r)]"
  show "rows_ok db H None ?log"
    by (rule rows_ok_carry [OF outbox_okD(1) [OF assms]]) (use outbox_okD [OF assms] in auto)
  show "delivered_ok db H None ?log"
    by (rule delivered_ok_carry [OF outbox_okD(3) [OF assms], where x = "LogLost (ox_id r)"])
      (auto intro: quiet_snoc outbox_okD(4) [OF assms])
  fix i assume i: "normal_row i ?log"
  have b: "budget_ok db H (Some r) log i" using outbox_okD(2) [OF assms normal_row_mono [OF i]] .
  have "row_budget None ?log i (ox_attempt_count q)" if "q \<in> set (od_rows db)" "ox_id q = i" for q
    using row_budget [OF b that] by (cases "ox_id r = i") (simp_all add: row_budget_def)
  then show "budget_ok db H None ?log i" using b by (auto simp: budget_ok_def)
qed

lemma outbox_ok_delivered:
  assumes "outbox_ok db H (Some r) log"
  shows "outbox_ok (outbox_remove (ox_id r) db) H None (log @ [LogDelivered (ox_id r)])"
  unfolding outbox_ok_def
proof (intro conjI allI impI)
  let ?log = "log @ [LogDelivered (ox_id r)]"
  have last: "ox_id r \<le> od_last_id db"
  proof -
    from outbox_okD(8) [OF assms refl] obtain c where "LogCreated c \<in> set log" "ox_id c = ox_id r" by (auto simp: same_kind_def)
    moreover have "ox_id c \<le> od_last_id db" using outbox_okD(1) [OF assms] calculation(1) by (simp add: rows_ok_def)
    ultimately show ?thesis by simp
  qed
  have "rows_ok (outbox_remove (ox_id r) db) H None log"
  proof (rule rows_ok_same_log [OF outbox_okD(1) [OF assms]])
    show "distinct (map ox_id (od_rows (outbox_remove (ox_id r) db)))" using outbox_okD(5) [OF assms] by (rule remove_distinct)
    show "distinct (map ox_id (H @ (case None of None \<Rightarrow> [] | Some r \<Rightarrow> [r])))" using outbox_okD(6) [OF assms] by simp
    show "same_kind h log" if "h \<in> set H" for h using outbox_okD(7) [OF assms that] .
  qed auto
  then show "rows_ok (outbox_remove (ox_id r) db) H None ?log"
    by (rule rows_ok_log) simp_all
  have "quiet ?log" using outbox_okD(4) [OF assms] by (auto intro: quiet_snoc)
  then show "delivered_ok (outbox_remove (ox_id r) db) H None ?log"
    using outbox_okD(3,9) [OF assms] last by (auto simp: delivered_ok_def)
  fix i assume i: "normal_row i ?log"
  have b: "budget_ok db H (Some r) log i" using outbox_okD(2) [OF assms normal_row_mono [OF i]] .
  have "row_budget None ?log i (ox_attempt_count q)" if "q \<in> set (od_rows (outbox_remove (ox_id r) db))" "ox_id q = i" for q
    using row_budget [OF b, of q] that by (auto simp: row_budget_def)
  then show "budget_ok (outbox_remove (ox_id r) db) H None ?log i" using b by (auto simp: budget_ok_def)
qed

subsection \<open>The events keep it\<close>

text \<open>A pass holds the rows it has still to send; a row being paced is one of them.\<close>

definition held_rows :: "drain_pass option \<Rightarrow> outbox_entry list" where
  "held_rows po = (case po of None \<Rightarrow> []
     | Some p \<Rightarrow> dp_todo p @ (case dp_phase p of TurnPacing r \<Rightarrow> [r] | _ \<Rightarrow> []))"

definition flight_row :: "drain_pass option \<Rightarrow> outbox_entry option" where
  "flight_row po = (case po of None \<Rightarrow> None
     | Some p \<Rightarrow> (case dp_phase p of TurnSending r \<Rightarrow> Some r | TurnAwaiting r \<Rightarrow> Some r | _ \<Rightarrow> None))"

definition outbox_inv :: "outbox \<Rightarrow> bool" where
  "outbox_inv s \<longleftrightarrow> outbox_ok (ob_db s) (held_rows (ob_pass s)) (flight_row (ob_pass s)) (ob_log s)"

lemmas pass_rows = held_rows_def flight_row_def

lemma pass_untouched [simp]:
  "held_rows (map_option (\<lambda>p. p\<lparr>dp_current := f p\<rparr>) po) = held_rows po"
  "flight_row (map_option (\<lambda>p. p\<lparr>dp_current := f p\<rparr>) po) = flight_row po"
  by (cases po; simp add: pass_rows)+

lemma outbox_parts [simp]:
  "ob_db (log_row l s) = ob_db s" "ob_pass (log_row l s) = ob_pass s" "ob_log (log_row l s) = ob_log s @ [l]"
  "ob_db (on_db ipc f s) = apply_ipc ipc f (ob_db s)" "ob_pass (on_db ipc f s) = ob_pass s" "ob_log (on_db ipc f s) = ob_log s"
  "ob_db (patch_row i g s) = ob_db s" "ob_log (patch_row i g s) = ob_log s"
  "ob_db (forget_row i s) = ob_db s" "ob_log (forget_row i s) = ob_log s"
  "ob_db (set_turn ph s) = ob_db s" "ob_log (set_turn ph s) = ob_log s"
  "ob_db (end_pass b s) = ob_db s" "ob_log (end_pass b s) = ob_log s" "ob_pass (end_pass b s) = None"
  "ob_db (set_outbox_row_awaiting_ack i a s) = ob_db s" "ob_log (set_outbox_row_awaiting_ack i a s) = ob_log s"
  "ob_pass (set_outbox_row_awaiting_ack i a s) = ob_pass s"
  "ob_db (begin_outbox_row_send i s) = ob_db s" "ob_log (begin_outbox_row_send i s) = ob_log s"
  "ob_pass (begin_outbox_row_send i s) = ob_pass s"
  by (simp_all add: log_row_def on_db_def patch_row_def forget_row_def set_turn_def end_pass_def set_outbox_row_awaiting_ack_def
      begin_outbox_row_send_def)

lemma more_parts [simp]:
  "ob_db (end_outbox_row_send i s) = ob_db s" "ob_log (end_outbox_row_send i s) = ob_log s" "ob_pass (end_outbox_row_send i s) = ob_pass s"
  "ob_db (abort_outbox_row_send i s) = ob_db s" "ob_log (abort_outbox_row_send i s) = ob_log s" "ob_pass (abort_outbox_row_send i s) = ob_pass s"
  "ob_db (apply_incident_ack_after_outbox_send e r s) = ob_db s" "ob_log (apply_incident_ack_after_outbox_send e r s) = ob_log s"
  "ob_pass (apply_incident_ack_after_outbox_send e r s) = ob_pass s"
  "ob_db (after_accept pr r now s) = ob_db s" "ob_log (after_accept pr r now s) = ob_log s" "ob_pass (after_accept pr r now s) = ob_pass s"
  by (simp_all add: end_outbox_row_send_def abort_outbox_row_send_def apply_incident_ack_after_outbox_send_def after_accept_def Let_def
      split: option.split)

lemma patched_pass [simp]:
  "held_rows (ob_pass (patch_row i g s)) = held_rows (ob_pass s)" "flight_row (ob_pass (patch_row i g s)) = flight_row (ob_pass s)"
  "held_rows (ob_pass (forget_row i s)) = held_rows (ob_pass s)" "flight_row (ob_pass (forget_row i s)) = flight_row (ob_pass s)"
  by (simp_all add: patch_row_def forget_row_def)

lemma outbox_inv_on_db:
  assumes "outbox_inv s" "\<And>db. outbox_ok db (held_rows (ob_pass s)) (flight_row (ob_pass s)) (ob_log s) \<Longrightarrow>
      outbox_ok (f db) (held_rows (ob_pass s)) (flight_row (ob_pass s)) (ob_log s)"
  shows "outbox_inv (on_db ipc f s)"
  using assms by (simp add: outbox_inv_def apply_ipc_def)

lemma outbox_inv_update: "outbox_inv s \<Longrightarrow> outbox_inv (on_db ipc (outbox_update_status i st er nx None now) s)"
  by (rule outbox_inv_on_db) (auto intro: outbox_ok_update)

lemma outbox_inv_remove: "outbox_inv s \<Longrightarrow> outbox_inv (on_db ipc (outbox_remove i) s)"
  by (rule outbox_inv_on_db) (auto intro: outbox_ok_remove)

lemma outbox_inv_cong:
  "ob_db s' = ob_db s \<Longrightarrow> ob_pass s' = ob_pass s \<Longrightarrow> ob_log s' = ob_log s \<Longrightarrow> outbox_inv s' = outbox_inv s"
  by (simp add: outbox_inv_def)

lemma outbox_inv_end_pass:
  assumes "outbox_inv s" "flight_row (ob_pass s) = None"
  shows "outbox_inv (end_pass b s)"
  using assms outbox_ok_drop [of "ob_db s" "held_rows (ob_pass s)" None "ob_log s" "[]"] by (simp add: outbox_inv_def pass_rows)

lemma flight_next [simp]:
  assumes "flight_row (ob_pass s) = Some row"
  shows "held_rows (ob_pass (set_turn TurnNext s)) = held_rows (ob_pass s)" "flight_row (ob_pass (set_turn TurnNext s)) = None"
  using assms by (auto simp: pass_rows set_turn_def split: option.splits drain_phase.splits)

text \<open>The table and the log at the end of a row: the outcome was stored, lost, or the row is gone.\<close>

lemma finish_row_parts:
  fixes e result ipc block_ipc now row s
  defines "t \<equiv> finish_row e result ipc block_ipc now row s"
  shows "(\<exists>st er nx. ob_db t = outbox_update_status (ox_id row) st er nx (Some (ox_attempt_count row + 1)) now (ob_db s) \<and> ob_log t = ob_log s)
    \<or> (ob_db t = ob_db s \<and> ob_log t = ob_log s @ [LogLost (ox_id row)])
    \<or> (ob_db t = outbox_remove (ox_id row) (ob_db s) \<and> ob_log t = ob_log s @ [LogDelivered (ox_id row)])"
proof (cases "is_aborted (ox_id row) s \<or> result = AckCancelled")
  case True
  then show ?thesis by (simp add: t_def finish_row_def)
next
  case False
  show ?thesis
  proof (cases result)
    case (SendError msg)
    then show ?thesis
      using False by (cases ipc) (auto simp: t_def finish_row_def record_outbox_send_failure_def Let_def apply_ipc_def)
  next
    case SendOk
    then show ?thesis
      using False
      by (cases ipc; cases block_ipc)
        (auto simp: t_def finish_row_def finalize_successful_outbox_send_def block_after_remove_failure_def Let_def apply_ipc_def)
  qed (use False in simp)
qed

lemma finish_row_pass:
  "ob_pass (finish_row e result ipc block_ipc now row s) = map_option (\<lambda>p. p\<lparr>dp_phase := TurnNext\<rparr>)
     (ob_pass (finish_row e result ipc block_ipc now row s))"
  by (simp add: finish_row_def set_turn_def option.map_comp comp_def)

lemma finish_row_held:
  assumes "flight_row (ob_pass s) = Some row"
  shows "held_rows (ob_pass (finish_row e result ipc block_ipc now row s)) = held_rows (ob_pass s)"
    "flight_row (ob_pass (finish_row e result ipc block_ipc now row s)) = None"
proof -
  let ?s = "end_outbox_row_send (ox_id row) (if is_aborted (ox_id row) s \<or> result = AckCancelled
      then forget_row (ox_id row) (log_row (LogLost (ox_id row)) s)
      else case result of SendError msg \<Rightarrow> record_outbox_send_failure e msg ipc now row s
        | _ \<Rightarrow> finalize_successful_outbox_send e ipc block_ipc now row s)"
  have "held_rows (ob_pass ?s) = held_rows (ob_pass s) \<and> flight_row (ob_pass ?s) = flight_row (ob_pass s)"
    by (auto simp: record_outbox_send_failure_def finalize_successful_outbox_send_def block_after_remove_failure_def Let_def
        split: send_result.split)
  then show "held_rows (ob_pass (finish_row e result ipc block_ipc now row s)) = held_rows (ob_pass s)"
    "flight_row (ob_pass (finish_row e result ipc block_ipc now row s)) = None"
    unfolding finish_row_def using assms flight_next [of ?s row] by simp_all
qed

lemma finish_row_inv:
  assumes "flight_row (ob_pass s) = Some row" "outbox_inv s"
  shows "outbox_inv (finish_row e result ipc block_ipc now row s)"
proof -
  have ok: "outbox_ok (ob_db s) (held_rows (ob_pass s)) (Some row) (ob_log s)" using assms by (simp add: outbox_inv_def)
  show ?thesis
    unfolding outbox_inv_def finish_row_held [OF assms(1)]
    using finish_row_parts [where row = row and e = e and result = result and ipc = ipc and block_ipc = block_ipc and now = now and s = s]
      outbox_ok_stored [OF ok] outbox_ok_lost [OF ok] outbox_ok_delivered [OF ok]
    by auto
qed

lemma send_one_inv:
  assumes "outbox_inv s" "ob_pass s = Some p" "flight_row (Some p) = None" "row \<in> set held"
    "outbox_ok (ob_db s) held None (ob_log s)" "set (dp_todo p) \<subseteq> set held - {row}" "distinct (map ox_id (dp_todo p))"
  shows "outbox_inv (send_one_outbox_row ipc now row s)"
proof (cases "ipc = Rejected")
  case True
  then show ?thesis using outbox_inv_end_pass [OF assms(1)] assms(2,3) by (simp add: send_one_outbox_row_def)
next
  case False
  let ?db = "apply_ipc ipc (outbox_update_status (ox_id row) RowSending None None None now) (ob_db s)"
  have "outbox_ok ?db held None (ob_log s)" using outbox_ok_update [OF assms(5)] assms(5) by (simp add: apply_ipc_def)
  from outbox_ok_send [OF this assms(4,6,7)] show ?thesis
    using False assms(2)
    by (simp add: send_one_outbox_row_def outbox_inv_def Let_def) (simp add: set_turn_def begin_outbox_row_send_def patch_row_def on_db_def pass_rows)
qed

lemma outbox_inv_after_accept: "outbox_inv (after_accept pr row now s) = outbox_inv s"
  by (rule outbox_inv_cong) simp_all

lemma send_returns_inv:
  assumes "outbox_inv s"
  shows "outbox_inv (send_returns e pr result ipc block_ipc now s)"
proof (cases "ob_pass s")
  case (Some p)
  show ?thesis
  proof (cases "dp_phase p")
    case (TurnSending row)
    let ?s = "after_accept pr row now s"
    have f: "flight_row (ob_pass s) = Some row" "flight_row (ob_pass ?s) = Some row" using Some TurnSending by (simp_all add: pass_rows)
    have "outbox_inv ?s" using assms by (simp add: outbox_inv_after_accept)
    moreover from this have "outbox_inv (set_turn (TurnAwaiting row) ?s)"
      using Some TurnSending by (simp add: outbox_inv_def) (simp add: set_turn_def pass_rows)
    ultimately show ?thesis
      using Some TurnSending finish_row_inv [OF f(1) assms] finish_row_inv [OF f(2)] by (simp add: send_returns_def Let_def)
  qed (use assms Some in \<open>simp_all add: send_returns_def\<close>)
qed (use assms in \<open>simp add: send_returns_def\<close>)

lemma ack_settles_inv:
  assumes "outbox_inv s"
  shows "outbox_inv (ack_settles e result ipc block_ipc now s)"
  using assms by (auto simp: ack_settles_def pass_rows intro!: finish_row_inv split: option.splits drain_phase.splits)

lemma row_timeout_inv:
  assumes "outbox_inv s"
  shows "outbox_inv (row_timeout e ipc now s)"
proof -
  have "outbox_inv (s\<lparr>ob_late := l\<rparr>)" for l using assms by (simp add: outbox_inv_def)
  then show ?thesis
    using assms by (auto simp: row_timeout_def pass_rows intro!: finish_row_inv split: option.splits drain_phase.splits)
qed

lemma pace_over_inv:
  assumes "outbox_inv s"
  shows "outbox_inv (pace_over ipc now s)"
proof (cases "ob_pass s")
  case (Some p)
  show ?thesis
  proof (cases "dp_phase p")
    case (TurnPacing row)
    have ok: "outbox_ok (ob_db s) (dp_todo p @ [row]) None (ob_log s)" using assms Some TurnPacing by (simp add: outbox_inv_def pass_rows)
    then have "distinct (map ox_id (dp_todo p @ [row]))" by (rule outbox_okD(6))
    then have "set (dp_todo p) \<subseteq> set (dp_todo p @ [row]) - {row}" "distinct (map ox_id (dp_todo p))" by auto
    then show ?thesis
      using send_one_inv [OF assms Some _ _ ok, of row] Some TurnPacing by (simp add: pace_over_def pass_rows)
  qed (use assms Some in \<open>simp_all add: pace_over_def\<close>)
qed (use assms in \<open>simp add: pace_over_def\<close>)

lemma row_turn_inv:
  assumes "outbox_inv s"
  shows "outbox_inv (row_turn pr available identity ipc now s)"
proof (cases "ob_pass s")
  case (Some p)
  show ?thesis
  proof (cases "dp_phase p = TurnNext")
    case next_turn: True
    have none: "flight_row (ob_pass s) = None" using Some next_turn by (simp add: pass_rows)
    have ok: "outbox_ok (ob_db s) (dp_todo p) None (ob_log s)" using assms Some next_turn by (simp add: outbox_inv_def pass_rows)
    show ?thesis
    proof (cases "dp_todo p")
      case Nil
      then show ?thesis using Some next_turn outbox_inv_end_pass [OF assms none] by (simp add: row_turn_def)
    next
      case (Cons row rows)
      let ?p = "p\<lparr>dp_todo := rows, dp_attempted := dp_attempted p + 1\<rparr>"
      let ?s = "s\<lparr>ob_pass := Some ?p\<rparr>"
      have ids: "distinct (map ox_id (row # rows))" using outbox_okD(6) [OF ok] by (simp add: Cons)
      have "outbox_ok (ob_db s) rows None (ob_log s)" using outbox_ok_drop [OF ok, of rows] ids by (simp add: Cons subset_insertI)
      then have inv: "outbox_inv ?s" using next_turn by (simp add: outbox_inv_def pass_rows)
      have "set rows \<subseteq> set (row # rows) - {row}" using ids by auto
      then have "outbox_inv (send_one_outbox_row ipc now row ?s)"
        using send_one_inv [OF inv, of ?p row "row # rows"] ok ids next_turn by (simp add: pass_rows Cons)
      moreover have "outbox_inv (quarantine_legacy_multipart_outbox_row ipc now row ?s)"
        using outbox_inv_update [OF inv] by (simp add: quarantine_legacy_multipart_outbox_row_def outbox_inv_def)
      moreover have "outbox_inv (set_turn (TurnPacing row) ?s)"
      proof -
        have "outbox_ok (ob_db s) (rows @ [row]) None (ob_log s)" using outbox_ok_drop [OF ok, of "rows @ [row]"] ids by (auto simp: Cons)
        then show ?thesis by (simp add: outbox_inv_def) (simp add: set_turn_def pass_rows)
      qed
      ultimately show ?thesis
        using Some next_turn Cons outbox_inv_end_pass [OF assms none] by (simp add: row_turn_def Let_def)
    qed
  qed (use assms Some in \<open>simp add: row_turn_def\<close>)
qed (use assms in \<open>simp add: row_turn_def\<close>)

lemma recover_inv:
  assumes "outbox_inv s" "ob_pass s = None" "recover_stuck_sending_rows ipc_of now listed s = (res, s')"
  shows "outbox_inv s'" "ob_pass s' = None" "ox_id ` set (od_rows (ob_db s')) = ox_id ` set (od_rows (ob_db s))"
proof -
  define upd where "upd = (\<lambda>r :: outbox_entry. on_db (ipc_of (ox_id r)) (outbox_update_status (ox_id r) RowQueued None None None now))"
  have steps: "outbox_inv (fold upd rs t) \<and> ob_pass (fold upd rs t) = ob_pass t
      \<and> ox_id ` set (od_rows (ob_db (fold upd rs t))) = ox_id ` set (od_rows (ob_db t))" if "outbox_inv t" for rs t
    using that by (induction rs arbitrary: t) (simp_all add: upd_def outbox_inv_update apply_ipc_def)
  have "s' = fold upd (filter (\<lambda>r. ox_status r = RowSending) listed) s"
    using assms(3) by (auto simp: recover_stuck_sending_rows_def Let_def upd_def split: if_splits)
  then show "outbox_inv s'" "ob_pass s' = None" "ox_id ` set (od_rows (ob_db s')) = ox_id ` set (od_rows (ob_db s))"
    using steps [OF assms(1)] assms(2) by simp_all
qed

lemma updated_row_again:
  assumes "r \<in> set (od_rows db)"
  shows "\<exists>q \<in> set (od_rows (outbox_update_status i st er nx None now db)). ox_id q = ox_id r
    \<and> is_app_managed_outbox_row q = is_app_managed_outbox_row r \<and> ox_attempt_count q = ox_attempt_count r"
proof -
  let ?q = "if ox_id r = i then r\<lparr>ox_status := st, ox_error := er, ox_next_retry_at := nx, ox_attempt_count := ox_attempt_count r, ox_updated_at := now\<rparr> else r"
  have "?q \<in> set (od_rows (outbox_update_status i st er nx None now db))"
    using assms by (auto simp: outbox_update_status_def image_iff intro: bexI [of _ r])
  then show ?thesis
    by (rule bexI [rotated])
      (simp add: is_app_managed_outbox_row_def is_emergency_outbox_priority_def is_incident_ack_outbox_row_def)
qed

text \<open>The recovery changes neither the attempts nor the kind of a row.\<close>

lemma recover_rows:
  assumes "recover_stuck_sending_rows ipc_of now listed s = (res, s')" "r \<in> set (od_rows (ob_db s))"
  shows "\<exists>q \<in> set (od_rows (ob_db s')). ox_id q = ox_id r \<and> is_app_managed_outbox_row q = is_app_managed_outbox_row r
    \<and> ox_attempt_count q = ox_attempt_count r"
proof -
  define upd where "upd = (\<lambda>r :: outbox_entry. on_db (ipc_of (ox_id r)) (outbox_update_status (ox_id r) RowQueued None None None now))"
  have one: "\<exists>q \<in> set (od_rows (ob_db (upd x t))). ox_id q = ox_id r \<and> is_app_managed_outbox_row q = is_app_managed_outbox_row r
      \<and> ox_attempt_count q = ox_attempt_count r" if "r \<in> set (od_rows (ob_db t))" for x r t
    using that updated_row_again [OF that] by (auto simp: upd_def apply_ipc_def)
  have "\<exists>q \<in> set (od_rows (ob_db (fold upd xs t))). ox_id q = ox_id r \<and> is_app_managed_outbox_row q = is_app_managed_outbox_row r
      \<and> ox_attempt_count q = ox_attempt_count r" if "r \<in> set (od_rows (ob_db t))" for xs r t
    using that
  proof (induction xs arbitrary: t r)
    case (Cons x xs)
    from one [OF Cons.prems] obtain q where q: "q \<in> set (od_rows (ob_db (upd x t)))" "ox_id q = ox_id r"
      "is_app_managed_outbox_row q = is_app_managed_outbox_row r" "ox_attempt_count q = ox_attempt_count r" by blast
    from Cons.IH [OF q(1)] show ?case using q(2-4) by simp
  qed auto
  moreover have "s' = fold upd (filter (\<lambda>r. ox_status r = RowSending) listed) s"
    using assms(1) by (auto simp: recover_stuck_sending_rows_def Let_def upd_def split: if_splits)
  ultimately show ?thesis using assms(2) by blast
qed

lemma set_drain_order [simp]: "set (drain_order rows) = set rows"
  by (simp add: drain_order_def)

lemma distinct_drain_order: "distinct (map ox_id rows) \<Longrightarrow> distinct (map ox_id (drain_order rows))"
  by (simp add: drain_order_def distinct_map)

lemma begin_drain_inv:
  assumes "outbox_inv s"
  shows "outbox_inv (begin_drain pr opts list_ipc recover_ipc now s)"
proof (cases "ob_pass s = None \<and> do_send_available opts \<and> list_ipc \<noteq> Rejected")
  case False
  then show ?thesis
    using assms by (auto simp: begin_drain_def outbox_inv_def pass_rows)
next
  case True
  define listed where "listed = (if list_ipc = Served then outbox_list pr (ob_db s) else [])"
  obtain res s1 where rec: "recover_stuck_sending_rows recover_ipc now listed s = (res, s1)" by (cases "recover_stuck_sending_rows recover_ipc now listed s")
  note inv = recover_inv [OF assms _ rec]
  show ?thesis
  proof (cases res)
    case None
    then show ?thesis using True rec inv outbox_inv_end_pass [of s1 True]
      by (simp add: begin_drain_def listed_def [symmetric] pass_rows)
  next
    case (Some current)
    define el where "el = filter (\<lambda>r. is_eligible_for_drain r now \<and> outbox_row_matches_connected_identity r (do_connected opts) \<and> do_row_filter opts r) current"
    have cur: "current = map (\<lambda>r. if ox_status r = RowSending then r\<lparr>ox_status := RowQueued\<rparr> else r) listed"
      using rec Some by (auto simp: recover_stuck_sending_rows_def Let_def split: if_splits)
    have ok: "outbox_ok (ob_db s1) [] None (ob_log s1)" using inv True by (simp add: outbox_inv_def pass_rows)
    have "distinct (map ox_id listed)"
    proof -
      have "distinct (map ox_id (filter (\<lambda>r. ox_protocol r = pr) (od_rows (ob_db s))))"
        using outbox_okD(5) [of "ob_db s"] assms by (simp add: outbox_inv_def distinct_map_filter)
      then show ?thesis unfolding listed_def outbox_list_def by (simp add: distinct_map)
    qed
    moreover have "map ox_id current = map ox_id listed" unfolding cur by (induction listed) auto
    ultimately have "distinct (map ox_id (drain_order el))" by (intro distinct_drain_order) (simp add: el_def distinct_map_filter)
    moreover have "\<exists>q \<in> set (od_rows (ob_db s1)). ox_id q = ox_id h \<and> is_app_managed_outbox_row q = is_app_managed_outbox_row h
        \<and> ox_attempt_count q = ox_attempt_count h" if "h \<in> set (drain_order el)" for h
    proof -
      from that have "h \<in> set current" by (simp add: el_def)
      then obtain r where r: "r \<in> set listed" "ox_id h = ox_id r" "is_app_managed_outbox_row h = is_app_managed_outbox_row r"
        "ox_attempt_count h = ox_attempt_count r"
        by (auto simp: cur is_app_managed_outbox_row_def is_emergency_outbox_priority_def is_incident_ack_outbox_row_def split: if_splits)
      then have "r \<in> set (od_rows (ob_db s))" by (auto simp: listed_def outbox_list_def split: if_splits)
      from recover_rows [OF rec this] show ?thesis using r(2-4) by simp
    qed
    moreover have "is_app_managed_outbox_row h \<or> ox_attempt_count h < MAX_ATTEMPTS" if "h \<in> set (drain_order el)" for h
      using that by (auto simp: el_def is_eligible_for_drain_def)
    ultimately have "outbox_ok (ob_db s1) (drain_order el) None (ob_log s1)" by (rule outbox_ok_list [OF ok])
    then show ?thesis
      using True rec Some by (simp add: begin_drain_def listed_def [symmetric] el_def [symmetric] Let_def outbox_inv_def pass_rows)
  qed
qed

lemma outbox_inv_add:
  assumes "outbox_inv s" "outbox_add en now (ob_db s) = Some (row, db)"
  shows "outbox_inv (log_row (LogCreated row) (s\<lparr>ob_db := db\<rparr>))"
  using assms outbox_ok_add [of "ob_db s" "held_rows (ob_pass s)" "flight_row (ob_pass s)" "ob_log s" en now row db]
  by (simp add: outbox_inv_def)

lemma queue_row_inv: "outbox_inv s \<Longrightarrow> outbox_inv (queue_row en identity ipc now s)"
  by (auto simp: queue_row_def intro: outbox_inv_add split: option.split)

lemma retry_row_inv: "outbox_inv s \<Longrightarrow> outbox_inv (retry_row i ipc now s)"
  using outbox_ok_retry by (simp add: retry_row_def outbox_inv_def apply_ipc_def)

lemma outbox_inv_abort [simp]: "outbox_inv (abort_outbox_row_send i s) = outbox_inv s"
  by (rule outbox_inv_cong) simp_all

lemma cancel_row_inv: "outbox_inv s \<Longrightarrow> outbox_inv (cancel_row i ipc s)"
  by (simp add: cancel_row_def outbox_inv_remove)

lemma enforce_cap_inv: "outbox_inv s \<Longrightarrow> outbox_inv (enforce_emergency_outbox_soft_cap row list_ipc ipc now s)"
  by (auto simp: enforce_emergency_outbox_soft_cap_def Let_def intro: outbox_inv_update split: option.split)

lemma reschedule_inv: "outbox_inv s \<Longrightarrow> outbox_inv (snd (reschedule_rows ipc_of at now rs moved s))"
  by (induction rs arbitrary: moved s) (simp_all add: outbox_inv_update)

lemma move_scheduled_inv:
  assumes "outbox_inv s"
  shows "outbox_inv (snd (move_scheduled_rows ipcs view row at now s))"
proof -
  have restore: "outbox_inv (fold (\<lambda>i. on_db (ei_restore ipcs i) (outbox_update_status i RowQueued None nx None now)) moved t)"
    if "outbox_inv t" for t nx moved
    using that by (induction moved arbitrary: t) (simp_all add: outbox_inv_update)
  obtain moved b t where r: "reschedule_rows (ei_update ipcs) (Some at) now (filter is_scheduled_outbox_row (scheduled_group_rows view row)) [] s
      = ((moved, b), t)" by (metis surj_pair)
  have "outbox_inv t" using reschedule_inv [OF assms, of "ei_update ipcs" "Some at" now "filter is_scheduled_outbox_row (scheduled_group_rows view row)" "[]"]
    by (simp add: r)
  then show ?thesis by (cases b) (simp_all add: move_scheduled_rows_def r restore)
qed

lemma replace_scheduled_inv:
  assumes "outbox_inv s"
  shows "outbox_inv (snd (replace_scheduled_row ipcs row payload at now s))"
  using assms by (auto simp: replace_scheduled_row_def Let_def intro!: outbox_inv_remove split: option.split intro: outbox_inv_add)

lemma edit_scheduled_inv: "outbox_inv s \<Longrightarrow> outbox_inv (snd (edit_scheduled ipcs view i payload at now s))"
  by (auto simp: edit_scheduled_def Let_def intro: move_scheduled_inv replace_scheduled_inv split: option.split js_number.split)

lemma view_inv:
  assumes "outbox_inv s"
  shows "outbox_inv (view_opens pr ipc s)" "outbox_inv (view_recovers ipc now s)" "outbox_inv (late_send_returns pr b now s)"
proof -
  have "outbox_inv (s\<lparr>ob_stale := l\<rparr>)" "outbox_inv (s\<lparr>ob_late := m\<rparr>)" for l m using assms by (simp_all add: outbox_inv_def)
  then show "outbox_inv (view_opens pr ipc s)" "outbox_inv (view_recovers ipc now s)" "outbox_inv (late_send_returns pr b now s)"
    using assms by (auto simp: view_opens_def view_recovers_def late_send_returns_def Let_def outbox_inv_after_accept
        intro: outbox_inv_update split: list.split)
qed

lemma outbox_step_inv: "outbox_inv s \<Longrightarrow> outbox_inv (outbox_step e pr ev s)"
  by (cases ev) (simp_all add: begin_drain_inv row_turn_inv pace_over_inv send_returns_inv ack_settles_inv row_timeout_inv view_inv
      queue_row_inv enforce_cap_inv retry_row_inv cancel_row_inv edit_scheduled_inv)

lemma outbox_init_inv: "outbox_inv outbox_init"
  by (simp add: outbox_inv_def outbox_init_def pass_rows outbox_ok_def rows_ok_def budget_ok_def delivered_ok_def)

interpretation ob: invariant_steps "outbox_step e pr" outbox_inv outbox_init for e pr
  by unfold_locales (simp_all add: outbox_init_inv outbox_step_inv)

lemma outbox_run_eq: "outbox_run e pr es = ob.run e pr es"
  by (simp add: outbox_run_def ob.run_def)

text \<open>Which rows the application retries for ever: emergencies, and acknowledgements of an incident.\<close>

definition retried_forever :: "outbox_entry \<Rightarrow> bool" where
  "retried_forever r \<longleftrightarrow>
     ox_priority r = PriorityEmergency \<or> (\<exists>u rest. ox_view_key r = u16 ''ackIncident:'' @ u # rest \<and> u \<noteq> code (CHR '':''))"

lemma managed_retried_forever: "is_app_managed_outbox_row r \<longleftrightarrow> retried_forever r"
proof -
  have "takeWhile (\<lambda>u. u \<noteq> 58) xs \<noteq> [] \<longleftrightarrow> (\<exists>u rest. xs = u # rest \<and> u \<noteq> 58)" for xs :: utf16 by (cases xs) auto
  moreover have "take (length p) xs = p \<longleftrightarrow> (\<exists>rest. xs = p @ rest)" for p xs :: utf16
    by (metis append_eq_conv_conj append_take_drop_id)
  ultimately have "parse_incident_ack_view_key v \<noteq> None \<longleftrightarrow> (\<exists>u rest. v = INCIDENT_ACK_VIEW_KEY_PREFIX @ u # rest \<and> u \<noteq> 58)" for v
    unfolding parse_incident_ack_view_key_def Let_def by (auto split: if_splits)
  then show ?thesis
    unfolding is_app_managed_outbox_row_def is_emergency_outbox_priority_def is_incident_ack_outbox_row_def retried_forever_def
      INCIDENT_ACK_VIEW_KEY_PREFIX_def by (simp add: code_def)
qed

text \<open>
  C2: in every run of the outbox, whatever the requests to the main process answer, whenever passes begin, fail
  or are broken off, and whatever the user does in between: a row that is neither an emergency nor an
  acknowledgement of an incident is sent at most four times, once more four times for each manual retry,
  and once more for each outcome that could not be stored in the table.
\<close>

theorem outbox_sends_bounded:
  assumes "LogSent r \<in> set (ob_log (outbox_run e pr es))" "\<not> retried_forever r"
  shows "sends (ox_id r) (ob_log (outbox_run e pr es))
    \<le> 4 * (1 + retries (ox_id r) (ob_log (outbox_run e pr es))) + losses (ox_id r) (ob_log (outbox_run e pr es))"
proof -
  let ?s = "outbox_run e pr es"
  have inv: "outbox_ok (ob_db ?s) (held_rows (ob_pass ?s)) (flight_row (ob_pass ?s)) (ob_log ?s)"
    using ob.run_inv [of e pr es] by (simp add: outbox_run_eq outbox_inv_def)
  have "same_kind r (ob_log ?s)" using outbox_okD(1) [OF inv] assms(1) by (simp add: rows_ok_def)
  moreover have "c = d" if "LogCreated c \<in> set (ob_log ?s)" "LogCreated d \<in> set (ob_log ?s)" "ox_id c = ox_id d" for c d
    using outbox_okD(1) [OF inv] that unfolding rows_ok_def by blast
  ultimately have "normal_row (ox_id r) (ob_log ?s)" using assms(2) unfolding normal_row_def same_kind_def managed_retried_forever [symmetric] by metis
  from outbox_okD(2) [OF inv this] show ?thesis by (simp add: budget_ok_def MAX_ATTEMPTS_def REGULAR_MESSAGE_MAX_AUTO_RESENDS_def)
qed

text \<open>
  C3: in every run a row whose send succeeded and whose removal was served is not sent again: not by a view that
  opens during the send, an edit, a retry or a pass that listed it before.
\<close>

theorem delivered_row_not_resent:
  "ob_log (outbox_run e pr es) = before @ LogDelivered i # after \<Longrightarrow> sends i after = 0"
  using ob.run_inv [of e pr es] outbox_okD(4) unfolding outbox_run_eq outbox_inv_def quiet_def by metis

subsection \<open>Runs with a failing row\<close>

definition demo_env :: outbox_env where
  "demo_env = \<lparr>oe_persistable_error = (\<lambda>m. m), oe_encryption_blocked = (\<lambda>m. False), oe_incident_open = (\<lambda>i. False), oe_beacon_ack = (\<lambda>p. False)\<rparr>"

definition demo_entry :: "string \<Rightarrow> outbox_entry_input" where
  "demo_entry txt = \<lparr>oi_protocol = chat_protocol.Meshcore, oi_view_key = u16 ''ch:0'', oi_channel = 0, oi_to_node = None, oi_payload = u16 txt,
     oi_reply_id = None, oi_status = RowQueued, oi_error = None, oi_next_retry_at = None, oi_group_id = None, oi_group_index = None,
     oi_group_total = None, oi_priority = None, oi_identity_id = None\<rparr>"

definition demo_options :: drain_options where
  "demo_options = \<lparr>do_send_available = True, do_row_filter = (\<lambda>r. True), do_connected = AnyIdentity\<rparr>"

definition demo_pass :: "millis \<Rightarrow> send_result \<Rightarrow> outbox_event list" where
  "demo_pass now result = [BeginDrain demo_options Served (\<lambda>i. Served) now, RowTurn True AnyIdentity Served now,
     SendReturns result Served Served now, RowTurn True AnyIdentity Served now]"

lemmas demo_defs = outbox_run_def outbox_init_def demo_env_def demo_entry_def demo_options_def demo_pass_def

lemmas outbox_ops = queue_row_def with_outbox_identity_def outbox_add_def outbox_identity_id_for_insert_def log_row_def Let_def
  begin_drain_def recover_stuck_sending_rows_def outbox_list_def drain_order_def is_eligible_for_drain_def
  is_app_managed_outbox_row_def is_emergency_outbox_priority_def is_incident_ack_outbox_row_def parse_incident_ack_view_key_def
  INCIDENT_ACK_VIEW_KEY_PREFIX_def outbox_row_age_anchor_ms_def is_scheduled_outbox_row_def OUTBOX_MAX_AGE_MS_def MAX_ATTEMPTS_def
  REGULAR_MESSAGE_MAX_AUTO_RESENDS_def outbox_row_matches_connected_identity_def row_turn_def end_pass_def
  is_legacy_single_packet_multipart_outbox_row_def chunk_prefix_match_def send_one_outbox_row_def on_db_def apply_ipc_def
  outbox_update_status_def patch_row_def begin_outbox_row_send_def set_turn_def send_returns_def after_accept_def finish_row_def
  is_aborted_def end_outbox_row_send_def set_outbox_row_awaiting_ack_def record_outbox_send_failure_def
  finalize_successful_outbox_send_def apply_incident_ack_after_outbox_send_def forget_row_def outbox_remove_def
  cancel_row_def abort_outbox_row_send_def retry_delay_ms_def RETRY_DELAYS_MS_def jm_get_def jm_set_def jm_delete_def

definition failing_run :: outbox where
  "failing_run = outbox_run demo_env chat_protocol.Meshcore (QueueRow (demo_entry ''hi'') AnyIdentity Served 0
     # demo_pass 1 (SendError []) @ demo_pass 30001 (SendError []) @ demo_pass 150001 (SendError []) @ demo_pass 750001 (SendError [])
     @ demo_pass 9000000 SendOk)"

theorem outbox_sends_bounded_witness:
  "\<exists>r. LogSent r \<in> set (ob_log failing_run) \<and> sends (ox_id r) (ob_log failing_run) = 4
     \<and> sends (ox_id r) (ob_log failing_run) \<le> 4 * (1 + retries (ox_id r) (ob_log failing_run)) + losses (ox_id r) (ob_log failing_run)"
proof -
  have four: "sends 1 (ob_log failing_run) = 4"
    by (simp add: failing_run_def demo_defs outbox_ops u16_def code_def sends_def)
  have "\<forall>r. LogSent r \<in> set (ob_log failing_run) \<longrightarrow> \<not> is_app_managed_outbox_row r"
    by (auto simp: failing_run_def demo_defs outbox_ops u16_def code_def)
  moreover have "\<exists>r. LogSent r \<in> set (ob_log failing_run) \<and> ox_id r = 1" using four sends_0 [of 1 "ob_log failing_run"] by auto
  ultimately obtain r where r: "LogSent r \<in> set (ob_log failing_run)" "\<not> is_app_managed_outbox_row r" "sends (ox_id r) (ob_log failing_run) = 4"
    using four by metis
  from outbox_sends_bounded [OF r(1) [unfolded failing_run_def] r(2) [unfolded managed_retried_forever]] r show ?thesis unfolding failing_run_def [symmetric] by blast
qed

text \<open>A row that is cancelled while an earlier row of the same pass is being sent is sent all the same.\<close>

definition cancelled_in_turn :: outbox where
  "cancelled_in_turn = outbox_run demo_env chat_protocol.Meshcore
     [QueueRow (demo_entry ''one'') AnyIdentity Served 0, QueueRow (demo_entry ''two'') AnyIdentity Served 0,
      BeginDrain demo_options Served (\<lambda>i. Served) 1, RowTurn True AnyIdentity Served 1, CancelRow 2 Served,
      SendReturns SendOk Served Served 2, RowTurn True AnyIdentity Served 3]"

lemma cancelled_row_is_sent: "sends 2 (ob_log cancelled_in_turn) = 1" "od_rows (ob_db cancelled_in_turn) = []"
  by (simp_all add: cancelled_in_turn_def demo_defs outbox_ops u16_def code_def sends_def)

text \<open>
  When the removal after a successful send and the mark that it failed are both rejected, the row is found
  being sent by the next pass and sent again.
\<close>

definition twice_delivered :: outbox where
  "twice_delivered = outbox_run demo_env chat_protocol.Meshcore
     [QueueRow (demo_entry ''hi'') AnyIdentity Served 0, BeginDrain demo_options Served (\<lambda>i. Served) 1, RowTurn True AnyIdentity Served 1,
      SendReturns SendOk Rejected Rejected 2, RowTurn True AnyIdentity Served 3, BeginDrain demo_options Served (\<lambda>i. Served) 4,
      RowTurn True AnyIdentity Served 5]"

lemma delivered_row_sent_again: "sends 1 (ob_log twice_delivered) = 2"
  by (simp add: twice_delivered_def demo_defs outbox_ops u16_def code_def sends_def block_after_remove_failure_def)

text \<open>
  A send that returns after its watchdog leaves an emergency row marked as waiting for an acknowledgement,
  though the row has failed.
\<close>

definition late_emergency :: outbox where
  "late_emergency = outbox_run demo_env chat_protocol.Meshcore
     [QueueRow ((demo_entry ''MECP/0'')\<lparr>oi_priority := Some PriorityEmergency\<rparr>) AnyIdentity Served 0,
      BeginDrain demo_options Served (\<lambda>i. Served) 1, RowTurn True AnyIdentity Served 1, RowTimeout Served 100000,
      LateSendReturns True 100001]"

lemma late_row_waits_for_ever: "ob_awaiting late_emergency = [1]" "map ox_status (od_rows (ob_db late_emergency)) = [RowFailed]"
  by (simp_all add: late_emergency_def demo_defs outbox_ops u16_def code_def row_timeout_def late_send_returns_def EMERGENCY_RETRY_DELAYS_MS_def)

subsection \<open>The order of a pass, and rows that are retried for ever\<close>

lemma insort_normal:
  assumes "\<forall>e \<in> set es. k e = (0 :: nat)" "\<forall>n \<in> set ns. k n = 1" "k x = 1"
  shows "insort_key k x (es @ ns) = es @ x # ns"
  using assms by (induction es) (cases ns, auto)

lemma drain_order_split:
  "drain_order rows = sort_key ox_created_at (filter is_emergency_outbox_priority rows)
     @ sort_key ox_created_at (filter (\<lambda>r. \<not> is_emergency_outbox_priority r) rows)"
proof -
  let ?k = "\<lambda>r. if is_emergency_outbox_priority r then 0 else 1 :: nat"
  have "sort_key ?k xs = filter is_emergency_outbox_priority xs @ filter (\<lambda>r. \<not> is_emergency_outbox_priority r) xs" for xs
  proof (induction xs)
    case (Cons x xs)
    show ?case
    proof (cases "is_emergency_outbox_priority x")
      case True
      then have "insort_key ?k x ys = x # ys" for ys by (cases ys) auto
      then show ?thesis using Cons True by simp
    next
      case False
      then show ?thesis
        using Cons insort_normal [of "filter is_emergency_outbox_priority xs" ?k "filter (\<lambda>r. \<not> is_emergency_outbox_priority r) xs" x]
        by simp
    qed
  qed simp
  then show ?thesis by (simp add: drain_order_def filter_sort)
qed

text \<open>
  When the failure of an emergency row was stored, and the error does not stop it, every pass that begins after
  its delay of at most five minutes takes it again, with the connected identity and the filter permitting.
\<close>

lemma emergency_failure_retried:
  assumes "is_emergency_outbox_priority r" "now + 300000 \<le> later"
    "\<not> oe_encryption_blocked e m" "\<not> oe_encryption_blocked e (oe_persistable_error e m)" "r' \<in> set (od_rows (ob_db s))" "ox_id r' = ox_id r"
    "is_emergency_outbox_priority r'"
  shows "\<exists>q \<in> set (od_rows (ob_db (record_outbox_send_failure e m Served now r s))). ox_id q = ox_id r \<and> is_eligible_for_drain q later"
proof -
  let ?at = "now + retry_delay_ms r (ox_attempt_count r + 1)"
  let ?q = "r'\<lparr>ox_status := RowFailed, ox_error := Some (oe_persistable_error e m), ox_next_retry_at := Some ?at,
      ox_attempt_count := ox_attempt_count r + 1, ox_updated_at := now\<rparr>"
  have delays: "EMERGENCY_RETRY_DELAYS_MS ! min n 3 \<le> 300000" for n
  proof -
    have "min n 3 \<in> {0, 1, 2, 3}" by (auto simp: min_def)
    then show ?thesis by (auto simp: EMERGENCY_RETRY_DELAYS_MS_def)
  qed
  have "retry_delay_ms r (ox_attempt_count r + 1) \<le> 300000"
  proof -
    have "length EMERGENCY_RETRY_DELAYS_MS - 1 = 3" by (simp add: EMERGENCY_RETRY_DELAYS_MS_def)
    then show ?thesis using assms(1) delays [of "ox_attempt_count r"] by (simp only: retry_delay_ms_def if_True Let_def add_diff_cancel_right')
  qed
  then have "is_eligible_for_drain ?q later"
    using assms(2,7) by (simp add: is_eligible_for_drain_def is_app_managed_outbox_row_def is_emergency_outbox_priority_def)
  moreover have "od_rows (ob_db (record_outbox_send_failure e m Served now r s)) = od_rows (outbox_update_status (ox_id r) RowFailed
      (Some (oe_persistable_error e m)) (Some ?at) (Some (ox_attempt_count r + 1)) now (ob_db s))"
    using assms(1,3,4) by (simp add: record_outbox_send_failure_def Let_def apply_ipc_def is_app_managed_outbox_row_def)
  then have "?q \<in> set (od_rows (ob_db (record_outbox_send_failure e m Served now r s)))"
    using assms(5,6) by (auto simp: outbox_update_status_def image_iff intro!: bexI [of _ r'])
  ultimately show ?thesis using assms(6) by (intro bexI [of _ ?q]) simp_all
qed

text \<open>A scheduled row is due from its time on, for a day.\<close>

lemma scheduled_row_due:
  assumes "is_scheduled_outbox_row r" "\<not> is_app_managed_outbox_row r" "ox_next_retry_at r = Some at"
  shows "is_eligible_for_drain r now \<longleftrightarrow> at \<le> now \<and> now \<le> at + OUTBOX_MAX_AGE_MS"
  using assms by (auto simp: is_eligible_for_drain_def outbox_row_age_anchor_ms_def is_scheduled_outbox_row_def MAX_ATTEMPTS_def)

text \<open>The retry timer is set to the earliest time in the future at which a row of the application is due.\<close>

lemma earliest_retry_least:
  assumes "r \<in> set rows" "is_app_drained_outbox_row r" "ox_status r = RowQueued \<or> ox_status r = RowFailed" "ox_next_retry_at r = Some at" "now < at"
  shows "\<exists>t. earliest_emergency_retry_at rows now = Some t \<and> now < t \<and> t \<le> at"
proof -
  define f where "f = (\<lambda>r (earliest :: millis option).
       if \<not> is_app_drained_outbox_row r \<or> ox_status r \<noteq> RowQueued \<and> ox_status r \<noteq> RowFailed then earliest
       else case ox_next_retry_at r of
         None \<Rightarrow> earliest
       | Some at \<Rightarrow> if at \<le> now then earliest
           else (case earliest of None \<Rightarrow> Some at | Some e \<Rightarrow> if at < e then Some at else earliest))"
  have keep: "\<exists>t. fold f xs (Some e) = Some t \<and> now < t \<and> t \<le> e" if "now < e" for xs e
    using that
  proof (induction xs arbitrary: e)
    case (Cons x xs)
    have "\<exists>e'. f x (Some e) = Some e' \<and> now < e' \<and> e' \<le> e"
      using Cons.prems by (auto simp: f_def split: option.split)
    then obtain e' where e': "f x (Some e) = Some e'" "now < e'" "e' \<le> e" by blast
    from Cons.IH [OF e'(2)] show ?case using e'(1,3) by (auto intro: order_trans)
  qed simp
  from split_list [OF assms(1)] obtain xs ys where rows: "rows = xs @ r # ys" by blast
  have ok: "case fold f zs None of None \<Rightarrow> True | Some e \<Rightarrow> now < e" for zs
    by (induction zs rule: rev_induct) (auto simp: f_def split: option.splits)
  have "\<exists>e. f r (fold f xs None) = Some e \<and> now < e \<and> e \<le> at"
    using assms(2-5) ok [of xs] by (auto simp: f_def split: option.split option.splits)
  then obtain e where e: "f r (fold f xs None) = Some e" "now < e" "e \<le> at" by blast
  from keep [OF e(2), of ys] have "\<exists>t. fold f rows None = Some t \<and> now < t \<and> t \<le> at"
    using e(1,3) by (auto simp: rows intro: order_trans)
  then show ?thesis by (simp add: earliest_emergency_retry_at_def f_def)
qed

theorem delivered_row_not_resent_witness:
  "\<exists>before after. ob_log (outbox_run demo_env chat_protocol.Meshcore (QueueRow (demo_entry ''hi'') AnyIdentity Served 0
       # demo_pass 1 SendOk @ RetryRow 1 Served 2 # demo_pass 3 SendOk)) = before @ LogDelivered 1 # after
     \<and> LogRetried 1 \<in> set after \<and> sends 1 after = 0"
proof -
  let ?log = "ob_log (outbox_run demo_env chat_protocol.Meshcore (QueueRow (demo_entry ''hi'') AnyIdentity Served 0
       # demo_pass 1 SendOk @ RetryRow 1 Served 2 # demo_pass 3 SendOk))"
  have "\<exists>c r. ?log = [c, LogSent r] @ LogDelivered 1 # [LogRetried 1]"
    by (simp add: demo_defs outbox_ops u16_def code_def retry_row_def)
  then obtain c r where log: "?log = [c, LogSent r] @ LogDelivered 1 # [LogRetried 1]" by blast
  from delivered_row_not_resent [OF log] log show ?thesis
    by (intro exI [of _ "[c, LogSent r]"] exI [of _ "[LogRetried 1]"]) simp
qed

end
