(* ===== verification/Send_Queues.thy ===== *)
theory Send_Queues
  imports Promise_Chain Js_Map
begin

text \<open>
  The promise queues that keep the tail of each chain in a map and drop it when its job is the last:
  complete CLI exchanges with a repeater (\<^verbatim>\<open>meshcoreRepeaterCliQueue.ts\<close>), the lock of the outbox drain
  (\<^verbatim>\<open>withChatOutboxDrainLock\<close> of \<^verbatim>\<open>chatOutboxDrain.ts\<close>) and the requests to a companion radio
  (\<^verbatim>\<open>meshcoreCompanionRequestQueue.ts\<close>), which can be cancelled while they wait; and the pacing of
  Meshtastic texts (\<^verbatim>\<open>meshtasticTextSendPacing.ts\<close>). The callbacks of promises are steps, which may
  happen at any time after what they wait for.
\<close>

subsection \<open>Queues with a map of tails\<close>

record 'k queue_job =
  qj_key :: 'k
  qj_prev :: "nat option"
  qj_stage :: stage
  qj_cancelled :: bool

record 'k keyed_queue =
  kq_jobs :: "'k queue_job list"
  kq_tails :: "('k, nat) jsmap"

definition keyed_init :: "'k keyed_queue" where
  "keyed_init = \<lparr>kq_jobs = [], kq_tails = []\<rparr>"

definition enqueue_job :: "'k \<Rightarrow> bool \<Rightarrow> 'k keyed_queue \<Rightarrow> 'k keyed_queue" where
  "enqueue_job key cancelled q =
     \<lparr>kq_jobs = kq_jobs q @ [\<lparr>qj_key = key, qj_prev = jm_get (kq_tails q) key, qj_stage = Waiting, qj_cancelled = cancelled\<rparr>],
      kq_tails = jm_set key (length (kq_jobs q)) (kq_tails q)\<rparr>"

definition prev_settled :: "nat \<Rightarrow> 'k keyed_queue \<Rightarrow> bool" where
  "prev_settled i q \<longleftrightarrow> (case qj_prev (kq_jobs q ! i) of None \<Rightarrow> True | Some p \<Rightarrow> qj_stage (kq_jobs q ! p) = Settled)"

definition set_stage :: "nat \<Rightarrow> stage \<Rightarrow> 'k keyed_queue \<Rightarrow> 'k keyed_queue" where
  "set_stage i st q = q\<lparr>kq_jobs := (kq_jobs q)[i := (kq_jobs q ! i)\<lparr>qj_stage := st\<rparr>]\<rparr>"

definition drop_tail :: "nat \<Rightarrow> 'k keyed_queue \<Rightarrow> 'k keyed_queue" where
  "drop_tail i q =
     (if jm_get (kq_tails q) (qj_key (kq_jobs q ! i)) = Some i
      then q\<lparr>kq_tails := jm_delete (qj_key (kq_jobs q ! i)) (kq_tails q)\<rparr> else q)"

text \<open>
  The operation of a CLI exchange or of a drain: it starts after its predecessor, settles in any way, and a
  later callback drops the tail.
\<close>

datatype 'k keyed_event = EnqueueOperation 'k | OperationStarts nat | OperationSettles nat | TailSettles nat

definition operation_starts :: "nat \<Rightarrow> 'k keyed_queue \<Rightarrow> 'k keyed_queue" where
  "operation_starts i q =
     (if i < length (kq_jobs q) \<and> qj_stage (kq_jobs q ! i) = Waiting \<and> prev_settled i q then set_stage i Active q else q)"

definition operation_settles :: "nat \<Rightarrow> 'k keyed_queue \<Rightarrow> 'k keyed_queue" where
  "operation_settles i q =
     (if i < length (kq_jobs q) \<and> qj_stage (kq_jobs q ! i) = Active then set_stage i Settled q else q)"

definition tail_settles :: "nat \<Rightarrow> 'k keyed_queue \<Rightarrow> 'k keyed_queue" where
  "tail_settles i q = (if i < length (kq_jobs q) \<and> qj_stage (kq_jobs q ! i) = Settled then drop_tail i q else q)"

fun keyed_step :: "'k keyed_event \<Rightarrow> 'k keyed_queue \<Rightarrow> 'k keyed_queue" where
  "keyed_step (EnqueueOperation key) q = enqueue_job key False q"
| "keyed_step (OperationStarts i) q = operation_starts i q"
| "keyed_step (OperationSettles i) q = operation_settles i q"
| "keyed_step (TailSettles i) q = tail_settles i q"

text \<open>
  A companion request takes the slot, waits for the slot before it, and gives up silently when it was cancelled
  meanwhile. Its tail is dropped when it finishes. A request that finds no slot starts at once in the code.
\<close>

datatype 'k companion_event = CompanionRequest 'k bool | CompanionStarts nat | CompanionAborts nat | CompanionFinishes nat

definition companion_finish :: "nat \<Rightarrow> 'k keyed_queue \<Rightarrow> 'k keyed_queue" where
  "companion_finish i q = set_stage i Settled (drop_tail i q)"

definition companion_start :: "nat \<Rightarrow> 'k keyed_queue \<Rightarrow> 'k keyed_queue" where
  "companion_start i q =
     (if i < length (kq_jobs q) \<and> qj_stage (kq_jobs q ! i) = Waiting \<and> prev_settled i q
      then (if qj_cancelled (kq_jobs q ! i) then companion_finish i q else set_stage i Active q) else q)"

definition companion_abort :: "nat \<Rightarrow> 'k keyed_queue \<Rightarrow> 'k keyed_queue" where
  "companion_abort i q =
     (if i < length (kq_jobs q) \<and> qj_stage (kq_jobs q ! i) = Waiting
      then q\<lparr>kq_jobs := (kq_jobs q)[i := (kq_jobs q ! i)\<lparr>qj_cancelled := True\<rparr>]\<rparr> else q)"

fun companion_step :: "'k companion_event \<Rightarrow> 'k keyed_queue \<Rightarrow> 'k keyed_queue" where
  "companion_step (CompanionRequest key aborted) q = enqueue_job key aborted q"
| "companion_step (CompanionStarts i) q = companion_start i q"
| "companion_step (CompanionAborts i) q = companion_abort i q"
| "companion_step (CompanionFinishes i) q =
     (if i < length (kq_jobs q) \<and> qj_stage (kq_jobs q ! i) = Active then companion_finish i q else q)"

subsection \<open>The tails are the last jobs\<close>

definition tail_ok :: "'k queue_job list \<Rightarrow> 'k \<Rightarrow> nat option \<Rightarrow> bool" where
  "tail_ok jobs key t \<longleftrightarrow>
     (case t of
        None \<Rightarrow> \<forall>k < length jobs. qj_key (jobs ! k) = key \<longrightarrow> qj_stage (jobs ! k) = Settled
      | Some i \<Rightarrow> i < length jobs \<and> qj_key (jobs ! i) = key \<and> (\<forall>k. i < k \<longrightarrow> k < length jobs \<longrightarrow> qj_key (jobs ! k) \<noteq> key))"

text \<open>What a job remembers of its predecessor is the tail of the jobs before it.\<close>

definition keyed_inv :: "'k keyed_queue \<Rightarrow> bool" where
  "keyed_inv q \<longleftrightarrow>
     (\<forall>key. tail_ok (kq_jobs q) key (jm_get (kq_tails q) key))
     \<and> (\<forall>i < length (kq_jobs q). tail_ok (take i (kq_jobs q)) (qj_key (kq_jobs q ! i)) (qj_prev (kq_jobs q ! i)))"

lemma keyed_init_inv: "keyed_inv keyed_init"
  by (simp add: keyed_inv_def tail_ok_def keyed_init_def jm_get_def)

lemma enqueue_inv:
  assumes "keyed_inv q"
  shows "keyed_inv (enqueue_job key c q)"
  unfolding keyed_inv_def
proof (intro conjI allI impI)
  fix key'
  have "tail_ok (kq_jobs q) key' (jm_get (kq_tails q) key')" using assms by (simp add: keyed_inv_def)
  then show "tail_ok (kq_jobs (enqueue_job key c q)) key' (jm_get (kq_tails (enqueue_job key c q)) key')"
    by (auto simp: enqueue_job_def jm.get_set tail_ok_def nth_append less_Suc_eq split: option.splits)
next
  fix i assume "i < length (kq_jobs (enqueue_job key c q))"
  then consider "i < length (kq_jobs q)" | "i = length (kq_jobs q)"
    by (auto simp: enqueue_job_def less_Suc_eq)
  then show "tail_ok (take i (kq_jobs (enqueue_job key c q))) (qj_key (kq_jobs (enqueue_job key c q) ! i)) (qj_prev (kq_jobs (enqueue_job key c q) ! i))"
    using assms by cases (auto simp: enqueue_job_def keyed_inv_def nth_append)
qed

text \<open>A job that changes keeps its key and predecessor, and stays settled.\<close>

definition job_keeps :: "'k queue_job \<Rightarrow> 'k queue_job \<Rightarrow> bool" where
  "job_keeps j j' \<longleftrightarrow> qj_key j' = qj_key j \<and> qj_prev j' = qj_prev j \<and> (qj_stage j = Settled \<longrightarrow> qj_stage j' = Settled)"

lemma tail_ok_update:
  assumes "tail_ok jobs key t" "i < length jobs" "job_keeps (jobs ! i) j"
  shows "tail_ok (jobs[i := j]) key t"
  using assms by (auto simp: tail_ok_def job_keeps_def nth_list_update split: option.splits)

lemma update_inv:
  assumes "keyed_inv q" "i < length (kq_jobs q)" "job_keeps (kq_jobs q ! i) j"
  shows "keyed_inv (q\<lparr>kq_jobs := (kq_jobs q)[i := j]\<rparr>)"
  unfolding keyed_inv_def
proof (intro conjI allI impI)
  show "tail_ok (kq_jobs (q\<lparr>kq_jobs := (kq_jobs q)[i := j]\<rparr>)) key (jm_get (kq_tails (q\<lparr>kq_jobs := (kq_jobs q)[i := j]\<rparr>)) key)" for key
    using assms tail_ok_update [OF _ assms(2,3)] by (simp add: keyed_inv_def)
  fix k assume k: "k < length (kq_jobs (q\<lparr>kq_jobs := (kq_jobs q)[i := j]\<rparr>))"
  have old: "tail_ok (take k (kq_jobs q)) (qj_key (kq_jobs q ! k)) (qj_prev (kq_jobs q ! k))" using assms(1) k by (simp add: keyed_inv_def)
  have "tail_ok (take k ((kq_jobs q)[i := j])) (qj_key (kq_jobs q ! k)) (qj_prev (kq_jobs q ! k))"
  proof (cases "i < k")
    case True
    then show ?thesis using tail_ok_update [OF old, of i j] assms(2,3) k by (simp add: take_update_swap)
  next
    case False
    then show ?thesis using old by simp
  qed
  then show "tail_ok (take k (kq_jobs (q\<lparr>kq_jobs := (kq_jobs q)[i := j]\<rparr>))) (qj_key (kq_jobs (q\<lparr>kq_jobs := (kq_jobs q)[i := j]\<rparr>) ! k))
      (qj_prev (kq_jobs (q\<lparr>kq_jobs := (kq_jobs q)[i := j]\<rparr>) ! k))"
    using assms(2,3) k by (cases "k = i") (simp_all add: job_keeps_def)
qed

text \<open>A tail is dropped when its job is settled, so by the turns all jobs of the key are.\<close>

lemma drop_tail_inv:
  assumes "keyed_inv q" "take_turns qj_stage qj_key (kq_jobs q)" "i < length (kq_jobs q)" "qj_stage (kq_jobs q ! i) = Settled"
  shows "keyed_inv (drop_tail i q)"
proof (cases "jm_get (kq_tails q) (qj_key (kq_jobs q ! i)) = Some i")
  case True
  let ?key = "qj_key (kq_jobs q ! i)"
  have "tail_ok (kq_jobs q) ?key (Some i)" using assms(1) True by (metis keyed_inv_def)
  then have last: "\<And>k. i < k \<Longrightarrow> k < length (kq_jobs q) \<Longrightarrow> qj_key (kq_jobs q ! k) \<noteq> ?key" by (simp add: tail_ok_def)
  have "qj_stage (kq_jobs q ! k) = Settled" if "k < length (kq_jobs q)" "qj_key (kq_jobs q ! k) = ?key" for k
    using last [of k] that take_turns_nth [OF assms(2), of k i] assms(3,4) by (cases k i rule: linorder_cases) auto
  then have "tail_ok (kq_jobs q) ?key None" by (simp add: tail_ok_def)
  then show ?thesis using assms(1) True by (simp add: drop_tail_def keyed_inv_def jm.get_del)
qed (use assms(1) in \<open>simp add: drop_tail_def\<close>)

text \<open>A waiting job whose predecessor is settled has its turn.\<close>

lemma prev_settled_in_turn:
  assumes "keyed_inv q" "take_turns qj_stage qj_key (kq_jobs q)" "i < length (kq_jobs q)" "prev_settled i q"
  shows "in_turn qj_stage qj_key (kq_jobs q) i"
proof -
  have t: "tail_ok (take i (kq_jobs q)) (qj_key (kq_jobs q ! i)) (qj_prev (kq_jobs q ! i))" using assms(1,3) by (simp add: keyed_inv_def)
  have "qj_stage (kq_jobs q ! k) = Settled" if k: "k < i" "qj_key (kq_jobs q ! k) = qj_key (kq_jobs q ! i)" for k
  proof (cases "qj_prev (kq_jobs q ! i)")
    case None
    then show ?thesis using t k assms(3) by (simp add: tail_ok_def)
  next
    case (Some p)
    then have p: "p < i" "qj_key (kq_jobs q ! p) = qj_key (kq_jobs q ! i)" "\<not> p < k" "qj_stage (kq_jobs q ! p) = Settled"
      using t k assms(3,4) by (auto simp: tail_ok_def prev_settled_def)
    then show ?thesis using take_turns_nth [OF assms(2), of k p] k assms(3) by (cases "k = p") auto
  qed
  then show ?thesis using assms(3) by (auto simp: in_turn_def list_all_length)
qed

subsection \<open>The queues take turns\<close>

definition key_stages :: "'k keyed_queue \<Rightarrow> ('k \<times> stage) list" where
  "key_stages q = map (\<lambda>j. (qj_key j, qj_stage j)) (kq_jobs q)"

lemma key_stages_turns: "take_turns snd fst (key_stages q) = take_turns qj_stage qj_key (kq_jobs q)"
  by (simp add: take_turns_def key_stages_def sorted_wrt_map)

lemma key_stages_in_turn: "i < length (kq_jobs q) \<Longrightarrow> in_turn snd fst (key_stages q) i = in_turn qj_stage qj_key (kq_jobs q) i"
  by (simp add: in_turn_def key_stages_def list_all_length)

lemma key_stages_parts [simp]:
  "key_stages keyed_init = []" "key_stages (enqueue_job key c q) = key_stages q @ [(key, Waiting)]" "key_stages (drop_tail i q) = key_stages q"
  "length (key_stages q) = length (kq_jobs q)"
  by (simp_all add: key_stages_def keyed_init_def enqueue_job_def drop_tail_def)

lemma key_stages_set: "i < length (kq_jobs q) \<Longrightarrow> key_stages (set_stage i st q) = (key_stages q)[i := (qj_key (kq_jobs q ! i), st)]"
  by (simp add: key_stages_def set_stage_def map_update)

lemma key_stages_nth: "i < length (kq_jobs q) \<Longrightarrow> key_stages q ! i = (qj_key (kq_jobs q ! i), qj_stage (kq_jobs q ! i))"
  by (simp add: key_stages_def)

lemma set_stage_inv: "keyed_inv q \<Longrightarrow> i < length (kq_jobs q) \<Longrightarrow> qj_stage (kq_jobs q ! i) \<noteq> Settled \<or> st = Settled \<Longrightarrow> keyed_inv (set_stage i st q)"
  unfolding set_stage_def by (rule update_inv) (auto simp: job_keeps_def)

lemma stage_step:
  assumes "i < length (kq_jobs q)" "st \<noteq> Waiting"
    "qj_stage (kq_jobs q ! i) = Active \<or> qj_stage (kq_jobs q ! i) = Waiting \<and> in_turn qj_stage qj_key (kq_jobs q) i"
  shows "job_step snd fst (key_stages q) (key_stages (set_stage i st q))"
  using assms by (auto simp: key_stages_set key_stages_nth key_stages_in_turn intro!: job_step_update)

lemma drop_after_settle: "i < length (kq_jobs q) \<Longrightarrow> drop_tail i (set_stage i st q) = set_stage i st (drop_tail i q)"
  by (simp add: drop_tail_def set_stage_def)

lemma settle_turns:
  assumes "take_turns snd fst (key_stages q)" "i < length (kq_jobs q)"
    "qj_stage (kq_jobs q ! i) = Active \<or> qj_stage (kq_jobs q ! i) = Waiting \<and> in_turn qj_stage qj_key (kq_jobs q) i"
  shows "take_turns qj_stage qj_key (kq_jobs (set_stage i Settled q))"
  using take_turns_step [OF assms(1) stage_step [OF assms(2) _ assms(3)], of Settled] by (simp add: key_stages_turns)

lemma companion_finish_ok:
  assumes "keyed_inv q" "take_turns snd fst (key_stages q)" "i < length (kq_jobs q)"
    "qj_stage (kq_jobs q ! i) = Active \<or> qj_stage (kq_jobs q ! i) = Waiting \<and> in_turn qj_stage qj_key (kq_jobs q) i"
  shows "keyed_inv (companion_finish i q)" "job_step snd fst (key_stages q) (key_stages (companion_finish i q))"
proof -
  have "keyed_inv (set_stage i Settled q)" using assms(1,3) by (simp add: set_stage_inv)
  then have "keyed_inv (drop_tail i (set_stage i Settled q))"
    by (rule drop_tail_inv) (use assms settle_turns [OF assms(2-4)] in \<open>simp_all add: set_stage_def\<close>)
  then show "keyed_inv (companion_finish i q)" using assms(3) by (simp add: companion_finish_def drop_after_settle)
  show "job_step snd fst (key_stages q) (key_stages (companion_finish i q))"
    unfolding companion_finish_def drop_after_settle [OF assms(3), symmetric] key_stages_parts by (rule stage_step [OF assms(3) _ assms(4)]) simp
qed

interpretation keyed: guarded_promise_queue keyed_step key_stages snd fst "keyed_init :: 'k keyed_queue" keyed_inv
proof
  show "key_stages keyed_init = ([] :: ('k \<times> stage) list)" "keyed_inv (keyed_init :: 'k keyed_queue)" by (simp_all add: keyed_init_inv)
  fix q :: "'k keyed_queue" and e
  assume q: "keyed_inv q" "take_turns snd fst (key_stages q)"
  then have t: "take_turns qj_stage qj_key (kq_jobs q)" by (simp add: key_stages_turns)
  note turn = prev_settled_in_turn [OF q(1) t]
  show "keyed_inv (keyed_step e q)"
    using q(1) t by (cases e) (auto simp: enqueue_inv operation_starts_def operation_settles_def tail_settles_def intro: set_stage_inv drop_tail_inv)
  show "job_step snd fst (key_stages q) (key_stages (keyed_step e q))"
    by (cases e) (auto simp: operation_starts_def operation_settles_def tail_settles_def intro: job_step_append stage_step turn)
qed

interpretation companion: guarded_promise_queue companion_step key_stages snd fst "keyed_init :: 'k keyed_queue" keyed_inv
proof
  show "key_stages keyed_init = ([] :: ('k \<times> stage) list)" "keyed_inv (keyed_init :: 'k keyed_queue)" by (simp_all add: keyed_init_inv)
  fix q :: "'k keyed_queue" and e
  assume q: "keyed_inv q" "take_turns snd fst (key_stages q)"
  then have t: "take_turns qj_stage qj_key (kq_jobs q)" by (simp add: key_stages_turns)
  note turn = prev_settled_in_turn [OF q(1) t]
  have abort: "keyed_inv (companion_abort i q) \<and> key_stages (companion_abort i q) = key_stages q" for i
    using q(1) update_inv [OF q(1), of i "(kq_jobs q ! i)\<lparr>qj_cancelled := True\<rparr>"]
    by (auto simp: companion_abort_def job_keeps_def key_stages_def map_update list_update_same_conv)
  show "keyed_inv (companion_step e q)"
    using q(1) abort by (cases e) (auto simp: enqueue_inv companion_start_def intro: set_stage_inv companion_finish_ok(1) [OF q] turn)
  show "job_step snd fst (key_stages q) (key_stages (companion_step e q))"
    using abort by (cases e) (auto simp: companion_start_def intro: job_step_append stage_step turn companion_finish_ok(2) [OF q])
qed

text \<open>At most one drain of a protocol, one CLI exchange of a key and one request of a radio is in progress.\<close>

lemma keyed_one_at_a_time:
  assumes "i < length (kq_jobs q)" "k < length (kq_jobs q)" "qj_key (kq_jobs q ! i) = qj_key (kq_jobs q ! k)"
    "qj_stage (kq_jobs q ! i) = Active" "qj_stage (kq_jobs q ! k) = Active" "q = fold keyed_step es keyed_init"
  shows "i = k"
  using keyed.run_one_active [of i es k] assms by (simp add: key_stages_nth)

lemma companion_one_at_a_time:
  assumes "i < length (kq_jobs q)" "k < length (kq_jobs q)" "qj_key (kq_jobs q ! i) = qj_key (kq_jobs q ! k)"
    "qj_stage (kq_jobs q ! i) = Active" "qj_stage (kq_jobs q ! k) = Active" "q = fold companion_step es keyed_init"
  shows "i = k"
  using companion.run_one_active [of i es k] assms by (simp add: key_stages_nth)

subsection \<open>Pacing of Meshtastic texts\<close>

definition MESHTASTIC_TEXT_CHUNK_SEND_INTERVAL_MS :: millis where "MESHTASTIC_TEXT_CHUNK_SEND_INTERVAL_MS = 2500"

text \<open>A paced send waits for its predecessor, then for the gap, then sends; its end is stamped.\<close>

datatype pacing_stage = PaceQueued | PaceTimer millis | PaceSending | PaceDone

record pacing_job =
  pj_stage :: pacing_stage
  pj_started :: "millis option"
  pj_ended :: "millis option"

record text_pacing =
  tp_jobs :: "pacing_job list"
  tp_last_send_at :: millis

definition pacing_init :: text_pacing where
  "pacing_init = \<lparr>tp_jobs = [], tp_last_send_at = 0\<rparr>"

definition with_meshtastic_text_send_pacing :: "text_pacing \<Rightarrow> text_pacing" where
  "with_meshtastic_text_send_pacing s = s\<lparr>tp_jobs := tp_jobs s @ [\<lparr>pj_stage = PaceQueued, pj_started = None, pj_ended = None\<rparr>]\<rparr>"

definition pacing_put :: "nat \<Rightarrow> pacing_job \<Rightarrow> text_pacing \<Rightarrow> text_pacing" where
  "pacing_put i j s = s\<lparr>tp_jobs := (tp_jobs s)[i := j]\<rparr>"

definition pacing_run :: "nat \<Rightarrow> millis \<Rightarrow> text_pacing \<Rightarrow> text_pacing" where
  "pacing_run i now s =
     (if i < length (tp_jobs s) \<and> pj_stage (tp_jobs s ! i) = PaceQueued \<and> (i = 0 \<or> pj_stage (tp_jobs s ! (i - 1)) = PaceDone)
      then
        let wait = MESHTASTIC_TEXT_CHUNK_SEND_INTERVAL_MS - (now - tp_last_send_at s) in
        if tp_last_send_at s > 0 \<and> wait > 0 then pacing_put i ((tp_jobs s ! i)\<lparr>pj_stage := PaceTimer (now + wait)\<rparr>) s
        else pacing_put i ((tp_jobs s ! i)\<lparr>pj_stage := PaceSending, pj_started := Some now\<rparr>) s
      else s)"

definition pacing_timer :: "nat \<Rightarrow> millis \<Rightarrow> text_pacing \<Rightarrow> text_pacing" where
  "pacing_timer i now s =
     (if i < length (tp_jobs s) then
        (case pj_stage (tp_jobs s ! i) of
           PaceTimer due \<Rightarrow> if due \<le> now then pacing_put i ((tp_jobs s ! i)\<lparr>pj_stage := PaceSending, pj_started := Some now\<rparr>) s else s
         | _ \<Rightarrow> s)
      else s)"

definition pacing_settles :: "nat \<Rightarrow> millis \<Rightarrow> text_pacing \<Rightarrow> text_pacing" where
  "pacing_settles i now s =
     (if i < length (tp_jobs s) \<and> pj_stage (tp_jobs s ! i) = PaceSending
      then (pacing_put i ((tp_jobs s ! i)\<lparr>pj_stage := PaceDone, pj_ended := Some now\<rparr>) s)\<lparr>tp_last_send_at := now\<rparr> else s)"

datatype pacing_event = PaceCall | PaceRun nat millis | PaceTimerFires nat millis | PaceSettles nat millis

fun pacing_step :: "pacing_event \<Rightarrow> text_pacing \<Rightarrow> text_pacing" where
  "pacing_step PaceCall s = with_meshtastic_text_send_pacing s"
| "pacing_step (PaceRun i now) s = pacing_run i now s"
| "pacing_step (PaceTimerFires i now) s = pacing_timer i now s"
| "pacing_step (PaceSettles i now) s = pacing_settles i now s"

fun pacing_stage_of :: "pacing_stage \<Rightarrow> stage" where
  "pacing_stage_of PaceQueued = Waiting"
| "pacing_stage_of (PaceTimer due) = Active"
| "pacing_stage_of PaceSending = Active"
| "pacing_stage_of PaceDone = Settled"

abbreviation job_stage :: "pacing_job \<Rightarrow> stage" where "job_stage j \<equiv> pacing_stage_of (pj_stage j)"
abbreviation one_chain :: "pacing_job \<Rightarrow> unit" where "one_chain j \<equiv> ()"

text \<open>The stamp is the end of the last send, and a started send has kept the gap to its predecessor.\<close>

definition gap_kept :: "millis option \<Rightarrow> pacing_job \<Rightarrow> bool" where
  "gap_kept ended j \<longleftrightarrow>
     (\<forall>due. pj_stage j = PaceTimer due \<longrightarrow> (\<exists>t. ended = Some t \<and> t + MESHTASTIC_TEXT_CHUNK_SEND_INTERVAL_MS \<le> due))
     \<and> (\<forall>b. pj_started j = Some b \<longrightarrow> (\<exists>t. ended = Some t \<and> (0 < t \<longrightarrow> t + MESHTASTIC_TEXT_CHUNK_SEND_INTERVAL_MS \<le> b)))"

definition not_begun :: "pacing_job \<Rightarrow> bool" where
  "not_begun j \<longleftrightarrow> (pj_stage j = PaceQueued \<or> (\<exists>due. pj_stage j = PaceTimer due) \<longrightarrow> pj_started j = None)"

definition pacing_ok :: "text_pacing \<Rightarrow> bool" where
  "pacing_ok s \<longleftrightarrow>
     (\<forall>j \<in> set (tp_jobs s). not_begun j)
     \<and> (\<forall>i < length (tp_jobs s). pj_stage (tp_jobs s ! i) = PaceDone
           \<longrightarrow> Suc i = length (tp_jobs s) \<or> pj_stage (tp_jobs s ! Suc i) \<noteq> PaceDone \<longrightarrow> pj_ended (tp_jobs s ! i) = Some (tp_last_send_at s))
     \<and> (\<forall>i. Suc i < length (tp_jobs s) \<longrightarrow> gap_kept (pj_ended (tp_jobs s ! i)) (tp_jobs s ! Suc i))"

lemma pacing_stage_cases [simp]:
  "pacing_stage_of st = Waiting \<longleftrightarrow> st = PaceQueued" "pacing_stage_of st = Settled \<longleftrightarrow> st = PaceDone"
  by (cases st; simp)+

lemma pacing_in_turn:
  assumes "take_turns job_stage one_chain jobs" "i < length jobs" "i = 0 \<or> pj_stage (jobs ! (i - 1)) = PaceDone" "pj_stage (jobs ! i) = PaceQueued"
  shows "in_turn job_stage one_chain jobs i"
proof -
  have "pj_stage (jobs ! k) = PaceDone" if "k < i" for k
    using that assms take_turns_nth [OF assms(1), of k "i - 1"] by (cases "k = i - 1") auto
  then show ?thesis using assms(2) by (auto simp: in_turn_def list_all_length)
qed

lemma pacing_job_step:
  assumes "take_turns job_stage one_chain (tp_jobs s)"
  shows "job_step job_stage one_chain (tp_jobs s) (tp_jobs (pacing_step e s))"
proof (cases e)
  case (PaceRun i now)
  then show ?thesis
    using pacing_in_turn [OF assms, of i]
    by (auto simp: pacing_run_def pacing_put_def Let_def intro!: job_step_update)
qed (auto simp: with_meshtastic_text_send_pacing_def pacing_timer_def pacing_settles_def pacing_put_def
      intro!: job_step_append job_step_update split: pacing_stage.split)

lemma pacing_okD:
  assumes "pacing_ok s"
  shows "j \<in> set (tp_jobs s) \<Longrightarrow> not_begun j"
    "i < length (tp_jobs s) \<Longrightarrow> pj_stage (tp_jobs s ! i) = PaceDone \<Longrightarrow> Suc i = length (tp_jobs s) \<or> pj_stage (tp_jobs s ! Suc i) \<noteq> PaceDone
      \<Longrightarrow> pj_ended (tp_jobs s ! i) = Some (tp_last_send_at s)"
    "Suc i < length (tp_jobs s) \<Longrightarrow> gap_kept (pj_ended (tp_jobs s ! i)) (tp_jobs s ! Suc i)"
  using assms unfolding pacing_ok_def by blast+

lemma pacing_put_ok:
  assumes ok: "pacing_ok s" and i: "i < length (tp_jobs s)" and old: "pj_stage (tp_jobs s ! i) \<noteq> PaceDone" and new: "pj_stage j \<noteq> PaceDone"
    and ended: "pj_ended j = pj_ended (tp_jobs s ! i)" and begun: "not_begun j"
    and gap: "\<And>k. i = Suc k \<Longrightarrow> gap_kept (pj_ended (tp_jobs s ! k)) j"
  shows "pacing_ok (pacing_put i j s)"
  unfolding pacing_ok_def
proof (intro conjI ballI allI impI)
  show "not_begun x" if "x \<in> set (tp_jobs (pacing_put i j s))" for x
    using that begun pacing_okD(1) [OF ok] set_update_subset_insert by (fastforce simp: pacing_put_def)
next
  fix k
  assume k: "k < length (tp_jobs (pacing_put i j s))" "pj_stage (tp_jobs (pacing_put i j s) ! k) = PaceDone"
    "Suc k = length (tp_jobs (pacing_put i j s)) \<or> pj_stage (tp_jobs (pacing_put i j s) ! Suc k) \<noteq> PaceDone"
  have "k \<noteq> i" using k(1,2) i new by (auto simp: pacing_put_def)
  then show "pj_ended (tp_jobs (pacing_put i j s) ! k) = Some (tp_last_send_at (pacing_put i j s))"
    using pacing_okD(2) [OF ok, of k] k old by (cases "i = Suc k") (auto simp: pacing_put_def)
next
  fix k
  assume k: "Suc k < length (tp_jobs (pacing_put i j s))"
  show "gap_kept (pj_ended (tp_jobs (pacing_put i j s) ! k)) (tp_jobs (pacing_put i j s) ! Suc k)"
  proof (cases "i = Suc k")
    case True
    then show ?thesis using gap k by (simp add: pacing_put_def)
  next
    case False
    then have "pj_ended (tp_jobs (pacing_put i j s) ! k) = pj_ended (tp_jobs s ! k)"
      using ended k by (cases "i = k") (simp_all add: pacing_put_def)
    then show ?thesis using pacing_okD(3) [OF ok, of k] k False by (simp add: pacing_put_def)
  qed
qed

lemma pacing_run_ok:
  assumes "pacing_ok s"
  shows "pacing_ok (pacing_run i now s)"
proof (cases "i < length (tp_jobs s) \<and> pj_stage (tp_jobs s ! i) = PaceQueued \<and> (i = 0 \<or> pj_stage (tp_jobs s ! (i - 1)) = PaceDone)")
  case True
  let ?wait = "MESHTASTIC_TEXT_CHUNK_SEND_INTERVAL_MS - (now - tp_last_send_at s)"
  have none: "pj_started (tp_jobs s ! i) = None" using pacing_okD(1) [OF assms, of "tp_jobs s ! i"] True by (simp add: not_begun_def)
  have last: "pj_ended (tp_jobs s ! k) = Some (tp_last_send_at s)" if "i = Suc k" for k
    using pacing_okD(2) [OF assms, of k] True that by simp
  have "pacing_ok (pacing_put i ((tp_jobs s ! i)\<lparr>pj_stage := PaceTimer (now + ?wait)\<rparr>) s)"
    by (rule pacing_put_ok [OF assms]) (use True none last in \<open>auto simp: not_begun_def gap_kept_def\<close>)
  moreover have "pacing_ok (pacing_put i ((tp_jobs s ! i)\<lparr>pj_stage := PaceSending, pj_started := Some now\<rparr>) s)"
    if "\<not> (tp_last_send_at s > 0 \<and> ?wait > 0)"
    by (rule pacing_put_ok [OF assms]) (use True last that in \<open>auto simp: not_begun_def gap_kept_def\<close>)
  ultimately show ?thesis using True by (auto simp: pacing_run_def Let_def)
next
  case False
  then show ?thesis using assms by (auto simp: pacing_run_def)
qed

lemma pacing_timer_ok:
  assumes "pacing_ok s"
  shows "pacing_ok (pacing_timer i now s)"
proof -
  have "pacing_ok (pacing_put i ((tp_jobs s ! i)\<lparr>pj_stage := PaceSending, pj_started := Some now\<rparr>) s)"
    if i: "i < length (tp_jobs s)" "pj_stage (tp_jobs s ! i) = PaceTimer due" "due \<le> now" for due
  proof (rule pacing_put_ok [OF assms i(1)])
    show "gap_kept (pj_ended (tp_jobs s ! k)) ((tp_jobs s ! i)\<lparr>pj_stage := PaceSending, pj_started := Some now\<rparr>)" if "i = Suc k" for k
      using pacing_okD(3) [OF assms, of k] i that by (fastforce simp: gap_kept_def)
  qed (use i in \<open>simp_all add: not_begun_def\<close>)
  then show ?thesis using assms by (auto simp: pacing_timer_def split: pacing_stage.split)
qed

lemma pacing_settles_ok:
  assumes ok: "pacing_ok s" and turns: "take_turns job_stage one_chain (tp_jobs s)"
  shows "pacing_ok (pacing_settles i now s)"
proof (cases "i < length (tp_jobs s) \<and> pj_stage (tp_jobs s ! i) = PaceSending")
  case True
  let ?j = "(tp_jobs s ! i)\<lparr>pj_stage := PaceDone, pj_ended := Some now\<rparr>"
  let ?s = "(pacing_put i ?j s)\<lparr>tp_last_send_at := now\<rparr>"
  have before: "pj_stage (tp_jobs s ! k) = PaceDone" if "k < i" for k
    using take_turns_nth [OF turns that] True by simp
  have after: "pj_stage (tp_jobs s ! k) = PaceQueued" if "i < k" "k < length (tp_jobs s)" for k
    using take_turns_nth [OF turns that] True by simp
  have "pacing_ok ?s"
    unfolding pacing_ok_def
  proof (intro conjI ballI allI impI)
    show "not_begun x" if "x \<in> set (tp_jobs ?s)" for x
    proof -
      have "x = ?j \<or> x \<in> set (tp_jobs s)" using that set_update_subset_insert [of "tp_jobs s" i ?j] by (auto simp: pacing_put_def)
      then show ?thesis using pacing_okD(1) [OF ok, of x] by (auto simp: not_begun_def)
    qed
  next
    fix k
    assume k: "k < length (tp_jobs ?s)" "pj_stage (tp_jobs ?s ! k) = PaceDone" "Suc k = length (tp_jobs ?s) \<or> pj_stage (tp_jobs ?s ! Suc k) \<noteq> PaceDone"
    have "k = i"
    proof (rule ccontr)
      assume "k \<noteq> i"
      then consider "k < i" | "i < k" by linarith
      then show False
      proof cases
        case 1
        then have "pj_stage (tp_jobs ?s ! Suc k) = PaceDone" using before [of "Suc k"] True by (cases "Suc k = i") (auto simp: pacing_put_def)
        then show False using k(1,3) 1 True by (auto simp: pacing_put_def)
      next
        case 2
        then show False using after [of k] k(1,2) by (simp add: pacing_put_def)
      qed
    qed
    then show "pj_ended (tp_jobs ?s ! k) = Some (tp_last_send_at ?s)" using True by (simp add: pacing_put_def)
  next
    fix k
    assume k: "Suc k < length (tp_jobs ?s)"
    have gap: "gap_kept (pj_ended (tp_jobs s ! k)) (tp_jobs s ! Suc k)" using pacing_okD(3) [OF ok, of k] k by (simp add: pacing_put_def)
    consider "i = Suc k" | "i = k" | "i \<noteq> k" "i \<noteq> Suc k" by blast
    then show "gap_kept (pj_ended (tp_jobs ?s ! k)) (tp_jobs ?s ! Suc k)"
    proof cases
      case 1
      then show ?thesis using gap k by (simp add: pacing_put_def gap_kept_def)
    next
      case 2
      have "pj_stage (tp_jobs s ! Suc k) = PaceQueued" "not_begun (tp_jobs s ! Suc k)"
        using after [of "Suc k"] pacing_okD(1) [OF ok] k 2 by (simp_all add: pacing_put_def)
      then show ?thesis using 2 k by (simp add: pacing_put_def gap_kept_def not_begun_def)
    next
      case 3
      then show ?thesis using gap by (simp add: pacing_put_def)
    qed
  qed
  then show ?thesis using True by (simp add: pacing_settles_def)
next
  case False
  then show ?thesis using ok by (auto simp: pacing_settles_def)
qed

lemma pacing_call_ok:
  assumes "pacing_ok s"
  shows "pacing_ok (with_meshtastic_text_send_pacing s)"
proof -
  let ?j = "\<lparr>pj_stage = PaceQueued, pj_started = None, pj_ended = None\<rparr> :: pacing_job"
  have new: "not_begun ?j" "gap_kept e ?j" for e by (simp_all add: not_begun_def gap_kept_def)
  show ?thesis
    using assms new
    by (auto simp: pacing_ok_def with_meshtastic_text_send_pacing_def nth_append less_Suc_eq)
qed

interpretation pacing: guarded_promise_queue pacing_step tp_jobs job_stage one_chain pacing_init pacing_ok
proof
  show "tp_jobs pacing_init = []" "pacing_ok pacing_init" by (simp_all add: pacing_init_def pacing_ok_def)
  fix s e
  assume s: "pacing_ok s" "take_turns job_stage one_chain (tp_jobs s)"
  show "pacing_ok (pacing_step e s)"
    using pacing_run_ok [OF s(1)] pacing_timer_ok [OF s(1)] pacing_settles_ok [OF s] pacing_call_ok [OF s(1)] by (cases e) simp_all
  show "job_step job_stage one_chain (tp_jobs s) (tp_jobs (pacing_step e s))" by (rule pacing_job_step [OF s(2)])
qed

text \<open>
  Of the texts sent by the composer and by the outbox, in every order of calls, timers and ends of sends, one
  is sent at a time, in the order of the calls, and at least 2.5 seconds after the one before has ended,
  whatever the clock does in between.
\<close>

theorem paced_sends_keep_gap:
  assumes "Suc i < length (tp_jobs s)" "pj_started (tp_jobs s ! Suc i) = Some b" "s = fold pacing_step es pacing_init"
  shows "\<exists>t. pj_ended (tp_jobs s ! i) = Some t \<and> (0 < t \<longrightarrow> t + 2500 \<le> b)"
  using pacing_okD(3) [of s i] pacing.run_turns_inv [of es] assms
  by (auto simp: gap_kept_def MESHTASTIC_TEXT_CHUNK_SEND_INTERVAL_MS_def)

theorem paced_sends_keep_gap_witness:
  "\<exists>s t. s = fold pacing_step [PaceCall, PaceCall, PaceRun 0 1000, PaceSettles 0 1500, PaceRun 1 1600, PaceTimerFires 1 4000] pacing_init
     \<and> pj_started (tp_jobs s ! Suc 0) = Some 4000 \<and> pj_ended (tp_jobs s ! 0) = Some t \<and> t + 2500 \<le> 4000 \<and> 0 < t"
proof -
  let ?s = "fold pacing_step [PaceCall, PaceCall, PaceRun 0 1000, PaceSettles 0 1500, PaceRun 1 1600, PaceTimerFires 1 4000] pacing_init"
  have s: "Suc 0 < length (tp_jobs ?s)" "pj_started (tp_jobs ?s ! Suc 0) = Some 4000" "pj_ended (tp_jobs ?s ! 0) = Some 1500"
    by (simp_all add: pacing_init_def with_meshtastic_text_send_pacing_def pacing_run_def pacing_timer_def pacing_settles_def pacing_put_def
        MESHTASTIC_TEXT_CHUNK_SEND_INTERVAL_MS_def Let_def)
  from paced_sends_keep_gap [OF s(1,2) refl] s show ?thesis by (intro exI [of _ ?s] exI [of _ 1500]) simp
qed

end
