(* ===== verification/Message_Store.thy ===== *)
theory Message_Store
  imports Complex_Main Heard_Repeat "HOL-Library.Multiset"
begin

text \<open>
  The store of chat messages (\<^verbatim>\<open>src/renderer/stores/messageStore.ts\<close>) with the helpers it uses
  (\<^verbatim>\<open>storeUtils.ts\<close>, \<^verbatim>\<open>liveChannelKeyStore.ts\<close>, \<^verbatim>\<open>meshtasticMessageLoadLimit.ts\<close>): one object of rows per
  identity, live inserts with a cap, bulk loads from the database, re-keying, and status updates.
  An optional property of a row is absent, present with the value \<^verbatim>\<open>undefined\<close>, or a value, since
  spreading an object tells the first two apart. Rows are compared by value; the set of objects
  that were bulk loaded is a flag of the stored row, so an object is taken to be handed over once. The
  identity store, the stored settings and the collation order of \<^verbatim>\<open>localeCompare\<close> are the environment.
  The coverage store and the heard-repeat windows that the operations clean up are those of
  \<open>Heard_Repeat\<close>. What subscribers are told is a log.
\<close>

subsection \<open>Rows\<close>

datatype 'a own_prop = Absent | Undef | Val 'a

fun read_prop :: "'a own_prop \<Rightarrow> 'a option" where
  "read_prop (Val x) = Some x"
| "read_prop Absent = None"
| "read_prop Undef = None"

text \<open>One property of \<^verbatim>\<open>{ ...existing, ...incoming }\<close>, first the incoming one.\<close>

fun over_prop :: "'a own_prop \<Rightarrow> 'a own_prop \<Rightarrow> 'a own_prop" where
  "over_prop Absent y = y"
| "over_prop x y = x"

definition write_prop :: "'a option \<Rightarrow> 'a own_prop" where
  "write_prop x = (case x of None \<Rightarrow> Undef | Some v \<Rightarrow> Val v)"

datatype delivery_status = StatusSending | StatusAcked | StatusFailed

record chat_row =
  cr_id :: string
  cr_from :: int
  cr_sender_name :: "string own_prop"
  cr_to :: int
  cr_payload :: string
  cr_channel_index :: int
  cr_timestamp :: millis
  cr_local_order :: "int own_prop"
  cr_rx_snr :: "rat own_prop"
  cr_rx_rssi :: "rat own_prop"
  cr_rx_radio_transport :: "string own_prop"
  cr_hop_count :: "int own_prop"
  cr_rx_hops :: "int own_prop"
  cr_tapback :: "bool own_prop"
  cr_reply_to :: "string own_prop"
  cr_reply_preview_text :: "string own_prop"
  cr_reply_preview_sender :: "string own_prop"
  cr_status :: "delivery_status own_prop"
  cr_mqtt_status :: "delivery_status own_prop"
  cr_received_via :: "string own_prop"
  cr_is_history :: "bool own_prop"
  cr_error :: "string own_prop"
  cr_room_server_id :: "int own_prop"
  cr_reticulum_message_hash :: "string own_prop"
  cr_reticulum_sender_hash :: "string own_prop"
  cr_reticulum_reply_to_hash :: "string own_prop"
  cr_reticulum_delivery_method :: "string own_prop"
  cr_reticulum_delivery_attempts :: "int own_prop"
  cr_reticulum_attachment_path :: "string own_prop"
  cr_reticulum_attachment_kind :: "string own_prop"
  cr_reticulum_audio_mode :: "int own_prop"
  cr_reticulum_audio_duration_sec :: "rat own_prop"
  cr_via_store_forward :: "bool own_prop"
  cr_channel_key :: "string own_prop"
  cr_radio_node_id :: "int own_prop"
  cr_meshcore_dedupe_key :: "string own_prop"

text \<open>The compared keys; the last property of the type is not among them.\<close>

definition message_record_fields_equal :: "chat_row \<Rightarrow> chat_row \<Rightarrow> bool" where
  "message_record_fields_equal a b \<longleftrightarrow>
     cr_id a = cr_id b \<and> cr_from a = cr_from b
     \<and> read_prop (cr_sender_name a) = read_prop (cr_sender_name b)
     \<and> cr_to a = cr_to b \<and> cr_payload a = cr_payload b \<and> cr_channel_index a = cr_channel_index b
     \<and> cr_timestamp a = cr_timestamp b
     \<and> read_prop (cr_local_order a) = read_prop (cr_local_order b)
     \<and> read_prop (cr_rx_snr a) = read_prop (cr_rx_snr b)
     \<and> read_prop (cr_rx_rssi a) = read_prop (cr_rx_rssi b)
     \<and> read_prop (cr_rx_radio_transport a) = read_prop (cr_rx_radio_transport b)
     \<and> read_prop (cr_hop_count a) = read_prop (cr_hop_count b)
     \<and> read_prop (cr_rx_hops a) = read_prop (cr_rx_hops b)
     \<and> read_prop (cr_tapback a) = read_prop (cr_tapback b)
     \<and> read_prop (cr_reply_to a) = read_prop (cr_reply_to b)
     \<and> read_prop (cr_reply_preview_text a) = read_prop (cr_reply_preview_text b)
     \<and> read_prop (cr_reply_preview_sender a) = read_prop (cr_reply_preview_sender b)
     \<and> read_prop (cr_status a) = read_prop (cr_status b)
     \<and> read_prop (cr_mqtt_status a) = read_prop (cr_mqtt_status b)
     \<and> read_prop (cr_received_via a) = read_prop (cr_received_via b)
     \<and> read_prop (cr_is_history a) = read_prop (cr_is_history b)
     \<and> read_prop (cr_error a) = read_prop (cr_error b)
     \<and> read_prop (cr_room_server_id a) = read_prop (cr_room_server_id b)
     \<and> read_prop (cr_reticulum_message_hash a) = read_prop (cr_reticulum_message_hash b)
     \<and> read_prop (cr_reticulum_sender_hash a) = read_prop (cr_reticulum_sender_hash b)
     \<and> read_prop (cr_reticulum_reply_to_hash a) = read_prop (cr_reticulum_reply_to_hash b)
     \<and> read_prop (cr_reticulum_delivery_method a) = read_prop (cr_reticulum_delivery_method b)
     \<and> read_prop (cr_reticulum_delivery_attempts a) = read_prop (cr_reticulum_delivery_attempts b)
     \<and> read_prop (cr_reticulum_attachment_path a) = read_prop (cr_reticulum_attachment_path b)
     \<and> read_prop (cr_reticulum_attachment_kind a) = read_prop (cr_reticulum_attachment_kind b)
     \<and> read_prop (cr_reticulum_audio_mode a) = read_prop (cr_reticulum_audio_mode b)
     \<and> read_prop (cr_reticulum_audio_duration_sec a) = read_prop (cr_reticulum_audio_duration_sec b)
     \<and> read_prop (cr_via_store_forward a) = read_prop (cr_via_store_forward b)
     \<and> read_prop (cr_channel_key a) = read_prop (cr_channel_key b)
     \<and> read_prop (cr_radio_node_id a) = read_prop (cr_radio_node_id b)"

text \<open>\<^verbatim>\<open>{ ...existing, ...incoming }\<close>; the required properties are always own properties of the incoming row.\<close>

definition spread_row :: "chat_row \<Rightarrow> chat_row \<Rightarrow> chat_row" where
  "spread_row e i = \<lparr>cr_id = cr_id i, cr_from = cr_from i,
     cr_sender_name = over_prop (cr_sender_name i) (cr_sender_name e),
     cr_to = cr_to i, cr_payload = cr_payload i, cr_channel_index = cr_channel_index i, cr_timestamp = cr_timestamp i,
     cr_local_order = over_prop (cr_local_order i) (cr_local_order e),
     cr_rx_snr = over_prop (cr_rx_snr i) (cr_rx_snr e),
     cr_rx_rssi = over_prop (cr_rx_rssi i) (cr_rx_rssi e),
     cr_rx_radio_transport = over_prop (cr_rx_radio_transport i) (cr_rx_radio_transport e),
     cr_hop_count = over_prop (cr_hop_count i) (cr_hop_count e),
     cr_rx_hops = over_prop (cr_rx_hops i) (cr_rx_hops e),
     cr_tapback = over_prop (cr_tapback i) (cr_tapback e),
     cr_reply_to = over_prop (cr_reply_to i) (cr_reply_to e),
     cr_reply_preview_text = over_prop (cr_reply_preview_text i) (cr_reply_preview_text e),
     cr_reply_preview_sender = over_prop (cr_reply_preview_sender i) (cr_reply_preview_sender e),
     cr_status = over_prop (cr_status i) (cr_status e),
     cr_mqtt_status = over_prop (cr_mqtt_status i) (cr_mqtt_status e),
     cr_received_via = over_prop (cr_received_via i) (cr_received_via e),
     cr_is_history = over_prop (cr_is_history i) (cr_is_history e),
     cr_error = over_prop (cr_error i) (cr_error e),
     cr_room_server_id = over_prop (cr_room_server_id i) (cr_room_server_id e),
     cr_reticulum_message_hash = over_prop (cr_reticulum_message_hash i) (cr_reticulum_message_hash e),
     cr_reticulum_sender_hash = over_prop (cr_reticulum_sender_hash i) (cr_reticulum_sender_hash e),
     cr_reticulum_reply_to_hash = over_prop (cr_reticulum_reply_to_hash i) (cr_reticulum_reply_to_hash e),
     cr_reticulum_delivery_method = over_prop (cr_reticulum_delivery_method i) (cr_reticulum_delivery_method e),
     cr_reticulum_delivery_attempts = over_prop (cr_reticulum_delivery_attempts i) (cr_reticulum_delivery_attempts e),
     cr_reticulum_attachment_path = over_prop (cr_reticulum_attachment_path i) (cr_reticulum_attachment_path e),
     cr_reticulum_attachment_kind = over_prop (cr_reticulum_attachment_kind i) (cr_reticulum_attachment_kind e),
     cr_reticulum_audio_mode = over_prop (cr_reticulum_audio_mode i) (cr_reticulum_audio_mode e),
     cr_reticulum_audio_duration_sec = over_prop (cr_reticulum_audio_duration_sec i) (cr_reticulum_audio_duration_sec e),
     cr_via_store_forward = over_prop (cr_via_store_forward i) (cr_via_store_forward e),
     cr_channel_key = over_prop (cr_channel_key i) (cr_channel_key e),
     cr_radio_node_id = over_prop (cr_radio_node_id i) (cr_radio_node_id e),
     cr_meshcore_dedupe_key = over_prop (cr_meshcore_dedupe_key i) (cr_meshcore_dedupe_key e)\<rparr>"

subsection \<open>Objects with string keys\<close>

text \<open>
  An object keeps its string keys in insertion order, but enumerates those that are array indices
  first, in ascending order.
\<close>

definition array_index :: "string \<Rightarrow> nat option" where
  "array_index k = (if k \<noteq> [] \<and> list_all is_digit k \<and> dec_string (dec_value k) = k \<and> dec_value k < 2 ^ 32 - 1
     then Some (dec_value k) else None)"

definition own_entries :: "(string, 'v) jsmap \<Rightarrow> (string \<times> 'v) list" where
  "own_entries m = sort_key (\<lambda>e. case array_index (fst e) of None \<Rightarrow> 0 | Some n \<Rightarrow> n) (filter (\<lambda>e. array_index (fst e) \<noteq> None) m)
     @ filter (\<lambda>e. array_index (fst e) = None) m"

definition keep_entries :: "(string \<times> 'v \<Rightarrow> bool) \<Rightarrow> (string \<times> 'v) list \<Rightarrow> (string, 'v) jsmap" where
  "keep_entries P es = fold (\<lambda>e out. if P e then jm_set (fst e) (snd e) out else out) es []"

definition omit_record_key :: "(string, 'v) jsmap \<Rightarrow> string \<Rightarrow> (string, 'v) jsmap" where
  "omit_record_key m key = keep_entries (\<lambda>e. fst e \<noteq> key) (own_entries m)"

subsection \<open>Environment and state\<close>

datatype identity_protocol = IdentityMeshtastic | IdentityMeshcore | IdentityReticulum

text \<open>\<^verbatim>\<open>messageLimitCount\<close> is missing, an integer or something else.\<close>

datatype limit_count = CountMissing | CountInteger int | CountInvalid

record limit_settings =
  ls_message_limit_enabled :: "bool option"
  ls_message_limit_count :: limit_count

record store_env =
  se_protocol :: "string \<Rightarrow> identity_protocol option"
  se_settings :: "limit_settings option"
  se_collate :: "string \<Rightarrow> rat"

record live_channel_keys =
  lk_radio_node_id :: "int option"
  lk_key_by_index :: "(int, string) jsmap"

datatype message_store_event = RowAdded string chat_row | RowRenamed string string string
datatype store_notice = StoreWritten | StoreEvent message_store_event

text \<open>A stored row with the mark of the bulk loaded objects.\<close>

type_synonym stored_row = "chat_row \<times> bool"
type_synonym row_bucket = "(string, stored_row) jsmap"

record message_store =
  ms_messages :: "(string, row_bucket) jsmap"
  ms_live :: "identity_protocol \<Rightarrow> live_channel_keys option"
  ms_heard :: heard_state
  ms_log :: "store_notice list"

definition identity_bucket :: "message_store \<Rightarrow> string \<Rightarrow> row_bucket" where
  "identity_bucket s identity = (case jm_get (ms_messages s) identity of None \<Rightarrow> [] | Some b \<Rightarrow> b)"

definition row_of :: "message_store \<Rightarrow> string \<Rightarrow> string \<Rightarrow> chat_row option" where
  "row_of s identity key = map_option fst (jm_get (identity_bucket s identity) key)"

definition note_store :: "store_notice \<Rightarrow> message_store \<Rightarrow> message_store" where
  "note_store n s = s\<lparr>ms_log := ms_log s @ [n]\<rparr>"

text \<open>A new bucket of one identity; the write is announced.\<close>

definition merge_identity_messages :: "string \<Rightarrow> row_bucket \<Rightarrow> message_store \<Rightarrow> message_store" where
  "merge_identity_messages identity next_bucket s =
     note_store StoreWritten (s\<lparr>ms_messages := jm_set identity next_bucket (ms_messages s)\<rparr>)"

subsection \<open>Channel identity\<close>

definition is_group_channel_row :: "chat_row \<Rightarrow> bool" where
  "is_group_channel_row m \<longleftrightarrow> cr_channel_index m \<ge> 0 \<and> read_prop (cr_room_server_id m) = None
     \<and> (cr_to m = 0 \<or> cr_to m mod 2 ^ 32 = 0xFFFFFFFF)"

definition live_channel_keys_equal :: "live_channel_keys option \<Rightarrow> live_channel_keys option \<Rightarrow> bool" where
  "live_channel_keys_equal a b = (case (a, b) of
       (Some x, Some y) \<Rightarrow>
         lk_radio_node_id x = lk_radio_node_id y
         \<and> length (jm_keys (lk_key_by_index x)) = length (jm_keys (lk_key_by_index y))
         \<and> list_all (\<lambda>k. jm_get (lk_key_by_index x) k = jm_get (lk_key_by_index y) k) (jm_keys (lk_key_by_index x))
     | (None, None) \<Rightarrow> True
     | _ \<Rightarrow> False)"

definition set_live_channel_keys :: "identity_protocol \<Rightarrow> live_channel_keys option \<Rightarrow> message_store \<Rightarrow> message_store" where
  "set_live_channel_keys p keys s =
     (if live_channel_keys_equal (ms_live s p) keys then s else s\<lparr>ms_live := (ms_live s)(p := keys)\<rparr>)"

definition get_live_channel_key :: "identity_protocol \<Rightarrow> int \<Rightarrow> message_store \<Rightarrow> string option" where
  "get_live_channel_key p index s =
     (if index < 0 then None
      else Option.bind (ms_live s p) (\<lambda>live. jm_get (lk_key_by_index live) index))"

definition stamp_live_channel_identity :: "store_env \<Rightarrow> string \<Rightarrow> chat_row \<Rightarrow> message_store \<Rightarrow> chat_row" where
  "stamp_live_channel_identity env identity m s =
     (if read_prop (cr_channel_key m) \<noteq> None \<or> read_prop (cr_radio_node_id m) \<noteq> None then m
      else case se_protocol env identity of
        None \<Rightarrow> m
      | Some IdentityReticulum \<Rightarrow> m
      | Some p \<Rightarrow>
          (case ms_live s p of
             None \<Rightarrow> m
           | Some live \<Rightarrow>
               (let found = (if is_group_channel_row m then jm_get (lk_key_by_index live) (cr_channel_index m) else None);
                    channel_key = (if found = Some [] then None else found)
                in if lk_radio_node_id live = None \<and> channel_key = None then m
                   else m\<lparr>cr_radio_node_id := (case lk_radio_node_id live of
                              Some n \<Rightarrow> Val n | None \<Rightarrow> cr_radio_node_id m),
                          cr_channel_key := (case channel_key of
                              Some k \<Rightarrow> Val k | None \<Rightarrow> cr_channel_key m)\<rparr>)))"

definition carry_channel_identity :: "chat_row \<Rightarrow> chat_row \<Rightarrow> chat_row" where
  "carry_channel_identity existing incoming =
     (if (read_prop (cr_channel_key incoming) \<noteq> None \<or> read_prop (cr_channel_key existing) = None)
         \<and> (read_prop (cr_radio_node_id incoming) \<noteq> None \<or> read_prop (cr_radio_node_id existing) = None)
      then incoming
      else incoming\<lparr>
        cr_channel_key := write_prop (or_else (read_prop (cr_channel_key incoming)) (read_prop (cr_channel_key existing))),
        cr_radio_node_id := write_prop (or_else (read_prop (cr_radio_node_id incoming)) (read_prop (cr_radio_node_id existing)))\<rparr>)"

subsection \<open>The cap of live rows\<close>

definition MAX_IN_MEMORY_CHAT_MESSAGES :: nat where "MAX_IN_MEMORY_CHAT_MESSAGES = 2000"
definition DEFAULT_MESSAGE_LOAD_LIMIT :: nat where "DEFAULT_MESSAGE_LOAD_LIMIT = 1000"
definition DISABLED_MESSAGE_LOAD_LIMIT :: nat where "DISABLED_MESSAGE_LOAD_LIMIT = 10000"

definition sanitize_message_limit_count :: "limit_count \<Rightarrow> nat" where
  "sanitize_message_limit_count c = (case c of
       CountMissing \<Rightarrow> DEFAULT_MESSAGE_LOAD_LIMIT
     | CountInvalid \<Rightarrow> DEFAULT_MESSAGE_LOAD_LIMIT
     | CountInteger n \<Rightarrow> nat (max 1 n))"

definition get_meshtastic_message_load_limit :: "store_env \<Rightarrow> nat" where
  "get_meshtastic_message_load_limit env = (case se_settings env of
       None \<Rightarrow> DEFAULT_MESSAGE_LOAD_LIMIT
     | Some st \<Rightarrow> if ls_message_limit_enabled st = Some False then DISABLED_MESSAGE_LOAD_LIMIT
         else sanitize_message_limit_count (ls_message_limit_count st))"

definition resolve_live_message_cap :: "store_env \<Rightarrow> string \<Rightarrow> nat" where
  "resolve_live_message_cap env identity =
     (if se_protocol env identity = Some IdentityMeshtastic
      then min (get_meshtastic_message_load_limit env) MAX_IN_MEMORY_CHAT_MESSAGES
      else MAX_IN_MEMORY_CHAT_MESSAGES)"

definition local_order_of :: "chat_row \<Rightarrow> int" where
  "local_order_of r = (case read_prop (cr_local_order r) of None \<Rightarrow> 0 | Some n \<Rightarrow> n)"

text \<open>The sign of \<^verbatim>\<open>a.id.localeCompare(b.id)\<close> is that of the difference of the two positions in the collation.\<close>

definition compare_message_records_for_trim :: "store_env \<Rightarrow> chat_row \<Rightarrow> chat_row \<Rightarrow> rat" where
  "compare_message_records_for_trim env a b =
     (if cr_timestamp a \<noteq> cr_timestamp b then of_int (cr_timestamp a - cr_timestamp b)
      else if local_order_of a \<noteq> local_order_of b then of_int (local_order_of a - local_order_of b)
      else se_collate env (cr_id a) - se_collate env (cr_id b))"

text \<open>\<^verbatim>\<open>Array.prototype.sort\<close> is stable: a row is inserted behind those that do not compare greater.\<close>

fun insert_for_trim :: "store_env \<Rightarrow> stored_row \<Rightarrow> stored_row list \<Rightarrow> stored_row list" where
  "insert_for_trim env x [] = [x]"
| "insert_for_trim env x (y # ys) =
     (if compare_message_records_for_trim env (fst x) (fst y) \<le> 0 then x # y # ys
      else y # insert_for_trim env x ys)"

definition sort_for_trim :: "store_env \<Rightarrow> stored_row list \<Rightarrow> stored_row list" where
  "sort_for_trim env rows = foldr (insert_for_trim env) rows []"

definition is_protected_from_live_trim :: "stored_row \<Rightarrow> bool" where
  "is_protected_from_live_trim r \<longleftrightarrow> read_prop (cr_status (fst r)) = Some StatusSending"

definition put_row :: "stored_row \<Rightarrow> row_bucket \<Rightarrow> row_bucket" where
  "put_row r b = jm_set (cr_id (fst r)) r b"

definition trim_identity_bucket_to_newest :: "store_env \<Rightarrow> row_bucket \<Rightarrow> nat \<Rightarrow> row_bucket \<times> string list" where
  "trim_identity_bucket_to_newest env by_identity cap =
     (let rows = map snd (own_entries by_identity) in
      if length rows \<le> cap then (by_identity, [])
      else
        let protected_rows = filter is_protected_from_live_trim rows;
            evictable = sort_for_trim env (filter (\<lambda>r. \<not> is_protected_from_live_trim r) rows);
            evict_count = min (length evictable) (length rows - cap)
        in if evict_count = 0 then (by_identity, [])
           else if length rows = cap + 1 \<and> evict_count = 1 then
             (case evictable of
                [] \<Rightarrow> (by_identity, [])
              | oldest # _ \<Rightarrow> (omit_record_key by_identity (cr_id (fst oldest)), [cr_id (fst oldest)]))
           else
             let evicted_ids = map (cr_id \<circ> fst) (take evict_count evictable);
                 kept = fold (\<lambda>r out. if cr_id (fst r) \<notin> set evicted_ids then put_row r out else out) protected_rows []
             in (fold put_row (drop evict_count evictable) kept, evicted_ids))"

definition cleanup_evicted_live_messages :: "string \<Rightarrow> string list \<Rightarrow> message_store \<Rightarrow> message_store" where
  "cleanup_evicted_live_messages identity ids s = fold (\<lambda>key s.
     s\<lparr>ms_heard := clear_heard_repeat_window_if_message identity key
        ((ms_heard s)\<lparr>coverage := coverage_remove identity key (coverage (ms_heard s))\<rparr>)\<rparr>) ids s"

subsection \<open>Live inserts\<close>

text \<open>A row without predecessor: into the bucket, trim, clean up what was evicted, announce the row if it stayed.\<close>

definition insert_live_row :: "store_env \<Rightarrow> string \<Rightarrow> chat_row \<Rightarrow> message_store \<Rightarrow> message_store" where
  "insert_live_row env identity m s =
     (let grown = put_row (m, False) (identity_bucket s identity);
          trimmed = trim_identity_bucket_to_newest env grown (resolve_live_message_cap env identity);
          s1 = cleanup_evicted_live_messages identity (snd trimmed) (merge_identity_messages identity (fst trimmed) s)
      in if jm_has (identity_bucket s1 identity) (cr_id m) then note_store (StoreEvent (RowAdded identity m)) s1 else s1)"

definition add_message :: "store_env \<Rightarrow> string \<Rightarrow> chat_row \<Rightarrow> message_store \<Rightarrow> message_store" where
  "add_message env identity incoming s =
     (case row_of s identity (cr_id incoming) of
        None \<Rightarrow> insert_live_row env identity (stamp_live_channel_identity env identity incoming s) s
      | Some existing \<Rightarrow>
          let m = carry_channel_identity existing incoming in
          if message_record_fields_equal existing m then s
          else merge_identity_messages identity (put_row (m, False) (identity_bucket s identity)) s)"

text \<open>The merge of a row with its predecessor: the first observation order and a known recipient stay.\<close>

definition merged_row :: "chat_row \<Rightarrow> chat_row \<Rightarrow> chat_row" where
  "merged_row existing m =
     (let r = spread_row existing m;
          r1 = (case read_prop (cr_local_order existing) of None \<Rightarrow> r | Some n \<Rightarrow> r\<lparr>cr_local_order := Val n\<rparr>)
      in if cr_to r1 = 0 \<and> cr_to existing \<noteq> 0 then r1\<lparr>cr_to := cr_to existing\<rparr> else r1)"

definition upsert_message :: "store_env \<Rightarrow> string \<Rightarrow> chat_row \<Rightarrow> message_store \<Rightarrow> message_store" where
  "upsert_message env identity m s =
     (case row_of s identity (cr_id m) of
        None \<Rightarrow> insert_live_row env identity (stamp_live_channel_identity env identity m s) s
      | Some existing \<Rightarrow>
          let r = merged_row existing m in
          if message_record_fields_equal existing r then s
          else merge_identity_messages identity (put_row (r, False) (identity_bucket s identity)) s)"

subsection \<open>Bulk loads\<close>

text \<open>A row that replaces a live one does not become history.\<close>

definition mark_bulk_loaded :: "stored_row option \<Rightarrow> chat_row \<Rightarrow> stored_row" where
  "mark_bulk_loaded existing stored = (stored, case existing of None \<Rightarrow> True | Some e \<Rightarrow> snd e)"

definition was_message_bulk_loaded :: "stored_row \<Rightarrow> bool" where
  "was_message_bulk_loaded = snd"

definition upsert_loaded :: "chat_row \<Rightarrow> row_bucket \<times> bool \<Rightarrow> row_bucket \<times> bool" where
  "upsert_loaded m acc = (case jm_get (fst acc) (cr_id m) of
       None \<Rightarrow> (put_row (mark_bulk_loaded None m) (fst acc), True)
     | Some e \<Rightarrow>
         (let r = merged_row (fst e) m in
          if message_record_fields_equal (fst e) r then acc
          else (put_row (mark_bulk_loaded (Some e) r) (fst acc), True)))"

definition upsert_message_records :: "string \<Rightarrow> chat_row list \<Rightarrow> message_store \<Rightarrow> message_store" where
  "upsert_message_records identity records s =
     (let r = fold upsert_loaded records (identity_bucket s identity, False)
      in if snd r then merge_identity_messages identity (fst r) s else s)"

definition replaced_bucket :: "row_bucket \<Rightarrow> chat_row list \<Rightarrow> row_bucket" where
  "replaced_bucket prior records = fold (\<lambda>m out. put_row (mark_bulk_loaded (jm_get prior (cr_id m)) m) out) records []"

definition replace_message_records :: "string \<Rightarrow> chat_row list \<Rightarrow> message_store \<Rightarrow> message_store" where
  "replace_message_records identity records s =
     (let identical = (case jm_get (ms_messages s) identity of
          None \<Rightarrow> False
        | Some prior \<Rightarrow>
            length prior = length records
            \<and> list_all (\<lambda>m. case jm_get prior (cr_id m) of
                  None \<Rightarrow> False | Some e \<Rightarrow> message_record_fields_equal (fst e) m) records)
      in if identical then s
         else merge_identity_messages identity (replaced_bucket (identity_bucket s identity) records) s)"

definition merge_loaded :: "chat_row \<Rightarrow> row_bucket \<times> bool \<Rightarrow> row_bucket \<times> bool" where
  "merge_loaded m acc = (case jm_get (fst acc) (cr_id m) of
       None \<Rightarrow> (put_row (mark_bulk_loaded None m) (fst acc), True)
     | Some e \<Rightarrow>
         (if message_record_fields_equal (fst e) m then acc
          else (put_row (mark_bulk_loaded (Some e) m) (fst acc), True)))"

definition merge_message_records_from_db :: "string \<Rightarrow> chat_row list \<Rightarrow> message_store \<Rightarrow> message_store" where
  "merge_message_records_from_db identity records s =
     (let r = fold merge_loaded records (identity_bucket s identity, False)
      in if snd r then merge_identity_messages identity (fst r) s else s)"

subsection \<open>Changes of stored rows\<close>

definition prune_message_records_by_channel :: "string \<Rightarrow> int \<Rightarrow> message_store \<Rightarrow> message_store" where
  "prune_message_records_by_channel identity channel s =
     (case jm_get (ms_messages s) identity of
        None \<Rightarrow> s
      | Some by_identity \<Rightarrow>
          if list_ex (\<lambda>e. cr_channel_index (fst (snd e)) = channel) by_identity
          then merge_identity_messages identity
            (keep_entries (\<lambda>e. cr_channel_index (fst (snd e)) \<noteq> channel) (own_entries by_identity)) s
          else s)"

text \<open>What an acknowledged row takes over from the optimistic row that is dropped onto it.\<close>

definition carry_attachment :: "chat_row \<Rightarrow> chat_row \<Rightarrow> chat_row" where
  "carry_attachment existing target =
     (let truthy = (\<lambda>x. x \<noteq> None \<and> x \<noteq> Some []);
          t1 = (if truthy (read_prop (cr_reticulum_attachment_path existing))
                   \<and> \<not> truthy (read_prop (cr_reticulum_attachment_path target))
                then target\<lparr>cr_reticulum_attachment_path := cr_reticulum_attachment_path existing,
                  cr_reticulum_attachment_kind := write_prop (or_else
                    (read_prop (cr_reticulum_attachment_kind existing)) (read_prop (cr_reticulum_attachment_kind target)))\<rparr>
                else target);
          t2 = (if read_prop (cr_reticulum_audio_mode existing) \<noteq> None \<and> read_prop (cr_reticulum_audio_mode target) = None
                then t1\<lparr>cr_reticulum_audio_mode := cr_reticulum_audio_mode existing\<rparr> else t1)
      in if read_prop (cr_reticulum_audio_duration_sec existing) \<noteq> None
            \<and> read_prop (cr_reticulum_audio_duration_sec target) = None
         then t2\<lparr>cr_reticulum_audio_duration_sec := cr_reticulum_audio_duration_sec existing\<rparr> else t2)"

definition is_acked :: "chat_row \<Rightarrow> bool" where
  "is_acked r \<longleftrightarrow> read_prop (cr_status r) = Some StatusAcked"

text \<open>The write of \<^verbatim>\<open>renameMessageId\<close>, when the row to be renamed exists and the ids differ.\<close>

definition rename_write :: "string \<Rightarrow> string \<Rightarrow> string \<Rightarrow> chat_row \<Rightarrow> message_store \<Rightarrow> message_store" where
  "rename_write identity from_id to_id existing s =
     (let rest = omit_record_key (identity_bucket s identity) from_id in
      case jm_get (identity_bucket s identity) to_id of
        Some target \<Rightarrow>
          if is_acked (fst target) then
            (let merged = carry_attachment existing (fst target)
             in if message_record_fields_equal (fst target) merged then merge_identity_messages identity rest s
                else merge_identity_messages identity (jm_set to_id (merged, False) rest) s)
          else merge_identity_messages identity (jm_set to_id (existing\<lparr>cr_id := to_id\<rparr>, False) rest) s
      | None \<Rightarrow> merge_identity_messages identity (jm_set to_id (existing\<lparr>cr_id := to_id\<rparr>, False) rest) s)"

text \<open>The clock is read by the coverage store.\<close>

definition rename_message_id :: "string \<Rightarrow> string \<Rightarrow> string \<Rightarrow> millis \<Rightarrow> message_store \<Rightarrow> message_store" where
  "rename_message_id identity from_id to_id now s =
     (case row_of s identity from_id of
        None \<Rightarrow> s
      | Some existing \<Rightarrow>
          if from_id = to_id then
            (let updated = existing\<lparr>cr_id := to_id\<rparr>
             in if message_record_fields_equal existing updated then s
                else merge_identity_messages identity (jm_set to_id (updated, False) (identity_bucket s identity)) s)
          else
            (let drop_onto_acked = (case row_of s identity to_id of None \<Rightarrow> False | Some t \<Rightarrow> is_acked t);
                 s1 = note_store (StoreEvent (RowRenamed identity from_id to_id))
                        (rename_write identity from_id to_id existing s);
                 h = ms_heard s1
             in if drop_onto_acked
                then s1\<lparr>ms_heard := clear_heard_repeat_window_if_message identity from_id
                       (h\<lparr>coverage := coverage_remove identity from_id (coverage h)\<rparr>)\<rparr>
                else s1\<lparr>ms_heard := rename_heard_repeat_window identity from_id to_id
                       (h\<lparr>coverage := coverage_rename_message identity from_id to_id now (coverage h)\<rparr>)\<rparr>))"

definition with_status :: "chat_row \<Rightarrow> delivery_status \<Rightarrow> string option \<Rightarrow> chat_row" where
  "with_status existing status err =
     (let updated = existing\<lparr>cr_status := Val status\<rparr>
      in case err of
           Some e \<Rightarrow> updated\<lparr>cr_error := Val e\<rparr>
         | None \<Rightarrow> if status = StatusAcked then updated\<lparr>cr_error := Undef\<rparr> else updated)"

definition update_message_status ::
    "string \<Rightarrow> string \<Rightarrow> delivery_status \<Rightarrow> string option \<Rightarrow> message_store \<Rightarrow> message_store" where
  "update_message_status identity message_id status err s =
     (case row_of s identity message_id of
        None \<Rightarrow> s
      | Some existing \<Rightarrow>
          if is_acked existing \<and> status = StatusSending then s
          else if message_record_fields_equal existing (with_status existing status err) then s
          else merge_identity_messages identity
            (jm_set message_id (with_status existing status err, False) (identity_bucket s identity)) s)"

definition update_message_mqtt_status :: "string \<Rightarrow> string \<Rightarrow> delivery_status \<Rightarrow> message_store \<Rightarrow> message_store" where
  "update_message_mqtt_status identity message_id status s =
     (case row_of s identity message_id of
        None \<Rightarrow> s
      | Some existing \<Rightarrow>
          let updated = existing\<lparr>cr_mqtt_status := Val status\<rparr>
          in if message_record_fields_equal existing updated then s
             else merge_identity_messages identity (jm_set message_id (updated, False) (identity_bucket s identity)) s)"

definition delete_message :: "string \<Rightarrow> string \<Rightarrow> message_store \<Rightarrow> message_store" where
  "delete_message identity message_id s =
     (case row_of s identity message_id of
        None \<Rightarrow> s
      | Some _ \<Rightarrow> merge_identity_messages identity (omit_record_key (identity_bucket s identity) message_id) s)"

definition row_names_node :: "int \<Rightarrow> chat_row \<Rightarrow> bool" where
  "row_names_node n m \<longleftrightarrow> cr_from m = n \<or> cr_to m = n \<or> read_prop (cr_radio_node_id m) = Some n"

definition remap_row :: "int \<Rightarrow> int \<Rightarrow> stored_row \<Rightarrow> stored_row" where
  "remap_row from_node to_node e =
     (let m = fst e in
      if \<not> row_names_node from_node m then e
      else (m\<lparr>cr_from := (if cr_from m = from_node then to_node else cr_from m),
               cr_to := (if cr_to m = from_node then to_node else cr_to m),
               cr_radio_node_id := (if read_prop (cr_radio_node_id m) = Some from_node then Val to_node
                 else cr_radio_node_id m)\<rparr>, False))"

definition remap_message_node_id :: "string \<Rightarrow> int \<Rightarrow> int \<Rightarrow> message_store \<Rightarrow> message_store" where
  "remap_message_node_id identity from_node to_node s =
     (case jm_get (ms_messages s) identity of
        None \<Rightarrow> s
      | Some by_identity \<Rightarrow>
          if from_node = to_node then s
          else if list_ex (\<lambda>e. row_names_node from_node (fst (snd e))) by_identity
          then merge_identity_messages identity (map (\<lambda>(k, e). (k, remap_row from_node to_node e)) by_identity) s
          else s)"

definition clear_message_identity :: "string \<Rightarrow> message_store \<Rightarrow> message_store" where
  "clear_message_identity identity s =
     note_store StoreWritten (s\<lparr>ms_messages := omit_record_key (ms_messages s) identity\<rparr>)"

subsection \<open>Runs\<close>

datatype store_op =
    OpAdd string chat_row
  | OpUpsert string chat_row
  | OpUpsertRecords string "chat_row list"
  | OpReplaceRecords string "chat_row list"
  | OpMergeFromDb string "chat_row list"
  | OpPruneChannel string int
  | OpRename string string string millis
  | OpStatus string string delivery_status "string option"
  | OpMqttStatus string string delivery_status
  | OpDelete string string
  | OpRemap string int int
  | OpClear string
  | OpLiveKeys identity_protocol "live_channel_keys option"
  | OpCoverage coverage_op
  | OpWindow string string millis millis "flood_expectation option" millis

text \<open>The last two operations are those of the stores that the clean-up reaches.\<close>

fun message_store_step :: "store_env \<times> store_op \<Rightarrow> message_store \<Rightarrow> message_store" where
  "message_store_step (env, OpAdd i m) s = add_message env i m s"
| "message_store_step (env, OpUpsert i m) s = upsert_message env i m s"
| "message_store_step (env, OpUpsertRecords i ms) s = upsert_message_records i ms s"
| "message_store_step (env, OpReplaceRecords i ms) s = replace_message_records i ms s"
| "message_store_step (env, OpMergeFromDb i ms) s = merge_message_records_from_db i ms s"
| "message_store_step (env, OpPruneChannel i c) s = prune_message_records_by_channel i c s"
| "message_store_step (env, OpRename i a b now) s = rename_message_id i a b now s"
| "message_store_step (env, OpStatus i k st err) s = update_message_status i k st err s"
| "message_store_step (env, OpMqttStatus i k st) s = update_message_mqtt_status i k st s"
| "message_store_step (env, OpDelete i k) s = delete_message i k s"
| "message_store_step (env, OpRemap i a b) s = remap_message_node_id i a b s"
| "message_store_step (env, OpClear i) s = clear_message_identity i s"
| "message_store_step (env, OpLiveKeys p keys) s = set_live_channel_keys p keys s"
| "message_store_step (env, OpCoverage cop) s = s\<lparr>ms_heard := (ms_heard s)\<lparr>coverage := coverage_step cop (coverage (ms_heard s))\<rparr>\<rparr>"
| "message_store_step (env, OpWindow i k w opened expect now) s =
     s\<lparr>ms_heard := open_heard_repeat_window i k w opened expect now (ms_heard s)\<rparr>"

definition empty_message_store :: message_store where
  "empty_message_store = \<lparr>ms_messages = [], ms_live = (\<lambda>_. None),
     ms_heard = \<lparr>pending = [], secrets = [], coverage = []\<rparr>, ms_log = []\<rparr>"

subsection \<open>Objects and buckets\<close>

lemma mset_own_entries [simp]: "mset (own_entries m) = mset m"
proof -
  have "mset m = filter_mset (\<lambda>e. array_index (fst e) \<noteq> None) (mset m) + filter_mset (\<lambda>e. \<not> array_index (fst e) \<noteq> None) (mset m)"
    by (rule multiset_partition)
  then show ?thesis by (simp add: own_entries_def mset_filter)
qed

lemma set_own_entries [simp]: "set (own_entries m) = set m"
  using mset_own_entries [of m] by (metis set_mset_mset)

lemma length_own_entries [simp]: "length (own_entries m) = length m"
  using mset_own_entries [of m] by (metis size_mset)

lemma jm_wf_own_entries [simp]: "jm_wf (own_entries m) \<longleftrightarrow> jm_wf m"
proof -
  have "mset (map fst (own_entries m)) = mset (map fst m)" by simp
  then show ?thesis unfolding jm_wf_def jm_keys_def by (rule mset_eq_imp_distinct_iff)
qed

text \<open>Two objects with the same properties are read the same way.\<close>

lemma jm_get_same_set: "jm_wf a \<Longrightarrow> jm_wf b \<Longrightarrow> set a = set b \<Longrightarrow> jm_get a k = jm_get b k"
  using map_of_inject_set [of a b] by (simp add: jm_wf_def jm_keys_def jm_get_def)

lemma jm_get_iff: "jm_wf m \<Longrightarrow> jm_get m k = Some v \<longleftrightarrow> (k, v) \<in> set m"
  using jm_get_SomeD jm_get_SomeI by metis

lemma jm_get_restricted:
  assumes "jm_wf a" "jm_wf b" "set a = {e \<in> set b. fst e \<notin> X}"
  shows "jm_get a k = (if k \<in> X then None else jm_get b k)"
proof -
  have "jm_get a k = Some v \<longleftrightarrow> (if k \<in> X then None else jm_get b k) = Some v" for v
    by (simp add: jm_get_iff assms)
  then show ?thesis by (metis not_Some_eq)
qed

lemma jm_set_new: "k \<notin> fst ` set m \<Longrightarrow> jm_set k v m = m @ [(k, v)]"
  by (induction m) (auto simp: jm_set_def)

lemma fold_keep_entries:
  "distinct (map fst es) \<Longrightarrow> fst ` set es \<inter> fst ` set out = {}
   \<Longrightarrow> fold (\<lambda>e out. if P e then jm_set (fst e) (snd e) out else out) es out = out @ filter P es"
  by (induction es arbitrary: out) (auto simp: jm_set_new image_iff)

lemma keep_entries_filter: "jm_wf es \<Longrightarrow> keep_entries P es = filter P es"
  using fold_keep_entries [of es "[]" P] by (simp add: keep_entries_def jm_wf_def jm_keys_def)

lemma set_keep_own: "jm_wf m \<Longrightarrow> set (keep_entries P (own_entries m)) = {e \<in> set m. P e}"
  by (simp add: keep_entries_filter)

lemma jm_wf_keep_own: "jm_wf m \<Longrightarrow> jm_wf (keep_entries P (own_entries m))"
  by (simp add: keep_entries_filter jm_wf_filter)

lemma set_omit: "jm_wf m \<Longrightarrow> set (omit_record_key m k) = {e \<in> set m. fst e \<noteq> k}"
  by (simp add: omit_record_key_def set_keep_own)

lemma jm_wf_omit: "jm_wf m \<Longrightarrow> jm_wf (omit_record_key m k)"
  by (simp add: omit_record_key_def jm_wf_keep_own)

lemma jm_get_omit: "jm_wf m \<Longrightarrow> jm_get (omit_record_key m k) j = (if j = k then None else jm_get m j)"
  using jm_get_restricted [OF jm_wf_omit, of m m k "{k}" j] by (simp add: set_omit)

text \<open>A bucket files every row under its id.\<close>

definition bucket_ok :: "row_bucket \<Rightarrow> bool" where
  "bucket_ok b \<longleftrightarrow> jm_wf b \<and> (\<forall>e \<in> set b. cr_id (fst (snd e)) = fst e)"

lemma bucket_ok_wf [simp]: "bucket_ok b \<Longrightarrow> jm_wf b"
  by (simp add: bucket_ok_def)

lemma bucket_ok_Nil [simp]: "bucket_ok []"
  by (simp add: bucket_ok_def)

lemma bucket_ok_id: "bucket_ok b \<Longrightarrow> jm_get b k = Some r \<Longrightarrow> cr_id (fst r) = k"
  by (auto simp: bucket_ok_def dest!: jm_get_SomeD)

lemma set_jm_set: "jm_wf m \<Longrightarrow> set (jm_set k v m) = insert (k, v) {e \<in> set m. fst e \<noteq> k}"
proof (rule set_eqI)
  fix e assume "jm_wf m"
  then show "e \<in> set (jm_set k v m) \<longleftrightarrow> e \<in> insert (k, v) {e \<in> set m. fst e \<noteq> k}"
    using jm_get_iff [OF jm.wf_set [of m k v], of "fst e" "snd e"] jm_get_iff [of m "fst e" "snd e"]
    by (cases e) (auto simp: jm.get_set split: if_splits)
qed

lemma bucket_ok_set: "bucket_ok b \<Longrightarrow> cr_id (fst r) = k \<Longrightarrow> bucket_ok (jm_set k r b)"
  by (simp add: bucket_ok_def jm.wf_set set_jm_set)

lemma bucket_ok_put: "bucket_ok b \<Longrightarrow> bucket_ok (put_row r b)"
  by (simp add: put_row_def bucket_ok_set)

lemma bucket_ok_subset: "bucket_ok b \<Longrightarrow> jm_wf c \<Longrightarrow> set c \<subseteq> set b \<Longrightarrow> bucket_ok c"
  by (auto simp: bucket_ok_def)

lemma bucket_ok_omit: "bucket_ok b \<Longrightarrow> bucket_ok (omit_record_key b k)"
  by (rule bucket_ok_subset) (auto simp: jm_wf_omit set_omit)

lemma bucket_ok_keep: "bucket_ok b \<Longrightarrow> bucket_ok (keep_entries P (own_entries b))"
  by (rule bucket_ok_subset) (auto simp: jm_wf_keep_own set_keep_own)

lemma fold_put_row:
  "distinct (map (cr_id \<circ> fst) rs) \<Longrightarrow> (cr_id \<circ> fst) ` set rs \<inter> fst ` set out = {}
   \<Longrightarrow> fold put_row rs out = out @ map (\<lambda>r. (cr_id (fst r), r)) rs"
  by (induction rs arbitrary: out) (auto simp: put_row_def jm_set_new image_iff)

subsection \<open>The order of the rows\<close>

definition not_newer :: "store_env \<Rightarrow> chat_row \<Rightarrow> chat_row \<Rightarrow> bool" where
  "not_newer env a b \<longleftrightarrow> cr_timestamp a < cr_timestamp b
     \<or> cr_timestamp a = cr_timestamp b \<and> (local_order_of a < local_order_of b
       \<or> local_order_of a = local_order_of b \<and> se_collate env (cr_id a) \<le> se_collate env (cr_id b))"

lemma compare_not_newer: "compare_message_records_for_trim env a b \<le> 0 \<longleftrightarrow> not_newer env a b"
  by (auto simp: compare_message_records_for_trim_def not_newer_def simp flip: of_int_diff)

lemma not_newer_trans: "not_newer env a b \<Longrightarrow> not_newer env b c \<Longrightarrow> not_newer env a c"
  by (auto simp: not_newer_def)

lemma not_newer_total: "\<not> not_newer env a b \<Longrightarrow> not_newer env b a"
  by (auto simp: not_newer_def)

lemma mset_insert_for_trim [simp]: "mset (insert_for_trim env x ys) = add_mset x (mset ys)"
  by (induction ys) auto

lemma mset_sort_for_trim [simp]: "mset (sort_for_trim env rows) = mset rows"
  by (induction rows) (simp_all add: sort_for_trim_def)

lemma set_insert_for_trim: "set (insert_for_trim env x ys) = insert x (set ys)"
  using mset_insert_for_trim [of env x ys] by (metis set_mset_add_mset_insert set_mset_mset)

lemma sorted_insert_for_trim:
  "sorted_wrt (\<lambda>a b. not_newer env (fst a) (fst b)) ys
   \<Longrightarrow> sorted_wrt (\<lambda>a b. not_newer env (fst a) (fst b)) (insert_for_trim env x ys)"
  by (induction ys)
    (auto simp: compare_not_newer set_insert_for_trim intro: not_newer_trans dest: not_newer_total)

lemma sorted_sort_for_trim: "sorted_wrt (\<lambda>a b. not_newer env (fst a) (fst b)) (sort_for_trim env rows)"
  by (induction rows) (simp_all add: sort_for_trim_def sorted_insert_for_trim)

lemma set_sort_for_trim [simp]: "set (sort_for_trim env rows) = set rows"
  using mset_sort_for_trim [of env rows] by (metis set_mset_mset)

lemma length_sort_for_trim [simp]: "length (sort_for_trim env rows) = length rows"
  using mset_sort_for_trim [of env rows] by (metis size_mset)

lemma distinct_sort_for_trim [simp]: "distinct (map f (sort_for_trim env rows)) = distinct (map f rows)"
proof -
  have "mset (map f (sort_for_trim env rows)) = mset (map f rows)" by simp
  then show ?thesis by (rule mset_eq_imp_distinct_iff)
qed

subsection \<open>What trimming does\<close>

definition oldest_first :: "store_env \<Rightarrow> row_bucket \<Rightarrow> stored_row list" where
  "oldest_first env b = sort_for_trim env (filter (\<lambda>r. \<not> is_protected_from_live_trim r) (map snd (own_entries b)))"

definition excess_rows :: "store_env \<Rightarrow> row_bucket \<Rightarrow> nat \<Rightarrow> nat" where
  "excess_rows env b cap = min (length (oldest_first env b)) (length b - cap)"

lemma set_oldest_first: "set (oldest_first env b) = {r \<in> snd ` set b. \<not> is_protected_from_live_trim r}"
  by (auto simp: oldest_first_def)

lemma ids_of_rows: "bucket_ok b \<Longrightarrow> map (cr_id \<circ> fst) (map snd (own_entries b)) = jm_keys (own_entries b)"
  by (auto simp: jm_keys_def bucket_ok_def)

lemma distinct_oldest_first: "bucket_ok b \<Longrightarrow> distinct (map (cr_id \<circ> fst) (oldest_first env b))"
  unfolding oldest_first_def distinct_sort_for_trim
  by (rule distinct_map_filter, subst ids_of_rows) (simp_all flip: jm_wf_def)

lemma bucket_rows: "bucket_ok b \<Longrightarrow> (k, r) \<in> set b \<longleftrightarrow> r \<in> snd ` set b \<and> k = cr_id (fst r)"
  by (force simp: bucket_ok_def)

lemma bucket_rows_inj: "bucket_ok b \<Longrightarrow> inj_on (cr_id \<circ> fst) (snd ` set b)"
proof (rule inj_onI)
  fix x y assume b: "bucket_ok b" and "x \<in> snd ` set b" "y \<in> snd ` set b" "(cr_id \<circ> fst) x = (cr_id \<circ> fst) y"
  then have "jm_get b (cr_id (fst x)) = Some x" "jm_get b (cr_id (fst x)) = Some y"
    by (auto simp: jm_get_iff bucket_rows)
  then show "x = y" by simp
qed

lemma trim_ids:
  "snd (trim_identity_bucket_to_newest env b cap) = map (cr_id \<circ> fst) (take (excess_rows env b cap) (oldest_first env b))"
  by (cases "oldest_first env b")
    (auto simp: trim_identity_bucket_to_newest_def excess_rows_def Let_def simp flip: oldest_first_def)

lemma fold_if: "fold (\<lambda>r out. if P r then f r out else out) rs out = fold f (filter P rs) out"
  by (induction rs arbitrary: out) auto

lemma trim_rebuild:
  assumes b: "bucket_ok b" and n: "n \<le> length (oldest_first env b)"
  defines "gone \<equiv> map (cr_id \<circ> fst) (take n (oldest_first env b))"
  defines "next \<equiv> fold put_row (drop n (oldest_first env b))
     (fold (\<lambda>r out. if cr_id (fst r) \<notin> set gone then put_row r out else out)
       (filter is_protected_from_live_trim (map snd (own_entries b))) [])"
  shows "jm_wf next \<and> set next = {e \<in> set b. fst e \<notin> set gone}"
proof -
  let ?key = "cr_id \<circ> fst" and ?old = "oldest_first env b"
  define prot where "prot = filter (\<lambda>r. cr_id (fst r) \<notin> set gone) (filter is_protected_from_live_trim (map snd (own_entries b)))"
  have dp: "distinct (map ?key prot)"
    unfolding prot_def
    by (intro distinct_map_filter, subst ids_of_rows [OF b]) (use b in \<open>simp flip: jm_wf_def\<close>)
  have dd: "distinct (map ?key (drop n ?old))"
    using distinct_oldest_first [OF b, of env] by (simp add: drop_map [symmetric])
  have split: "set (drop n ?old) = {r \<in> set ?old. ?key r \<notin> set gone}"
  proof -
    have "distinct (map ?key (take n ?old @ drop n ?old))" using distinct_oldest_first [OF b, of env] by simp
    then have "\<forall>r \<in> set (drop n ?old). ?key r \<notin> set gone" unfolding gone_def map_append distinct_append by auto
    moreover have "set ?old = set (take n ?old) \<union> set (drop n ?old)" by (metis append_take_drop_id set_append)
    ultimately show ?thesis by (auto simp: gone_def)
  qed
  have prot: "set prot = {r \<in> snd ` set b. is_protected_from_live_trim r \<and> ?key r \<notin> set gone}"
    by (auto simp: prot_def)
  have disj: "?key ` set (drop n ?old) \<inter> ?key ` set prot = {}"
  proof (rule equals0I)
    fix k assume "k \<in> ?key ` set (drop n ?old) \<inter> ?key ` set prot"
    then obtain r p where rp: "r \<in> set (drop n ?old)" "p \<in> set prot" "?key r = ?key p" by auto
    then have "r = p" by (intro inj_onD [OF bucket_rows_inj [OF b]]) (auto simp: prot split set_oldest_first)
    with rp show False by (simp add: prot split set_oldest_first)
  qed
  have first: "fold put_row prot [] = map (\<lambda>r. (cr_id (fst r), r)) prot"
    using fold_put_row [of prot "[]"] dp by simp
  have "fold put_row (drop n ?old) (map (\<lambda>r. (cr_id (fst r), r)) prot)
      = map (\<lambda>r. (cr_id (fst r), r)) prot @ map (\<lambda>r. (cr_id (fst r), r)) (drop n ?old)"
    by (rule fold_put_row [OF dd]) (use disj in \<open>simp add: image_image comp_def\<close>)
  then have shape: "next = map (\<lambda>r. (cr_id (fst r), r)) (prot @ drop n ?old)"
    unfolding next_def fold_if prot_def [symmetric] first by simp
  have "map fst next = map ?key prot @ map ?key (drop n ?old)" by (simp add: shape)
  then have "jm_wf next" using dp dd disj unfolding jm_wf_def jm_keys_def by (auto simp: Int_commute)
  moreover have "set next = (\<lambda>r. (cr_id (fst r), r)) ` {r \<in> snd ` set b. ?key r \<notin> set gone}"
    unfolding shape set_map set_append prot split set_oldest_first by auto
  moreover have "\<dots> = {e \<in> set b. fst e \<notin> set gone}"
    using bucket_rows [OF b] by (auto simp: image_iff)
  ultimately show ?thesis by simp
qed

text \<open>Whatever branch trimming takes, exactly the named rows are gone.\<close>

lemma trim_result:
  fixes env :: store_env and cap :: nat
  assumes b: "bucket_ok b"
  defines "t \<equiv> trim_identity_bucket_to_newest env b cap"
  shows "jm_wf (fst t) \<and> set (fst t) = {e \<in> set b. fst e \<notin> set (snd t)}"
proof -
  let ?old = "oldest_first env b" and ?n = "excess_rows env b cap"
  have ids: "snd t = map (cr_id \<circ> fst) (take ?n ?old)" unfolding t_def by (rule trim_ids)
  have le: "?n \<le> length ?old" by (simp add: excess_rows_def)
  consider (none) "?n = 0" | (one) "length b = cap + 1" "?n = 1" | (many) "?n \<noteq> 0" "\<not> (length b = cap + 1 \<and> ?n = 1)" by blast
  then show ?thesis
  proof cases
    case none
    then have "fst t = b"
      by (auto simp: t_def trim_identity_bucket_to_newest_def excess_rows_def Let_def simp flip: oldest_first_def)
    with none ids b show ?thesis by simp
  next
    case one
    then obtain oldest rest where old: "?old = oldest # rest" by (cases ?old) (simp_all add: excess_rows_def)
    have "fst t = omit_record_key b (cr_id (fst oldest))"
      using one old by (auto simp: t_def trim_identity_bucket_to_newest_def excess_rows_def Let_def simp flip: oldest_first_def)
    moreover have "snd t = [cr_id (fst oldest)]" using ids one old by simp
    ultimately show ?thesis using b by (simp add: jm_wf_omit set_omit)
  next
    case many
    then have "\<not> length b \<le> cap" by (auto simp: excess_rows_def)
    with many have "fst t = fold put_row (drop ?n ?old)
     (fold (\<lambda>r out. if cr_id (fst r) \<notin> set (snd t) then put_row r out else out)
       (filter is_protected_from_live_trim (map snd (own_entries b))) [])"
      unfolding ids t_def trim_identity_bucket_to_newest_def excess_rows_def Let_def oldest_first_def [symmetric]
      by (simp only: length_map length_own_entries if_False fst_conv snd_conv)
    then show ?thesis using trim_rebuild [OF b le] by (simp add: ids)
  qed
qed

lemma trim_bucket_ok: "bucket_ok b \<Longrightarrow> bucket_ok (fst (trim_identity_bucket_to_newest env b cap))"
  using trim_result [of b env cap] by (auto intro: bucket_ok_subset)

lemma trim_get:
  "bucket_ok b \<Longrightarrow> jm_get (fst (trim_identity_bucket_to_newest env b cap)) k
     = (if k \<in> set (snd (trim_identity_bucket_to_newest env b cap)) then None else jm_get b k)"
  using trim_result [of b env cap] by (intro jm_get_restricted) auto

lemma trim_length:
  assumes b: "bucket_ok b"
  shows "length (fst (trim_identity_bucket_to_newest env b cap)) + excess_rows env b cap = length b"
proof -
  let ?t = "trim_identity_bucket_to_newest env b cap" and ?n = "excess_rows env b cap"
  have r: "jm_wf (fst ?t)" "set (fst ?t) = {e \<in> set b. fst e \<notin> set (snd ?t)}" using trim_result [OF b] by auto
  have card: "card (fst ` set m) = length m" if "jm_wf m" for m :: row_bucket
    using distinct_card [of "map fst m"] that by (simp add: jm_wf_def jm_keys_def)
  have ids: "snd ?t = take ?n (map (cr_id \<circ> fst) (oldest_first env b))" by (simp add: trim_ids take_map)
  have "set (snd ?t) \<subseteq> fst ` set b"
  proof
    fix k assume "k \<in> set (snd ?t)"
    then obtain r where r: "r \<in> set (oldest_first env b)" "k = cr_id (fst r)"
      by (auto simp: trim_ids dest!: in_set_takeD)
    then have "(k, r) \<in> set b" by (simp add: bucket_rows [OF b] set_oldest_first)
    then show "k \<in> fst ` set b" by force
  qed
  moreover have "fst ` set (fst ?t) = fst ` set b - set (snd ?t)" unfolding r(2) by auto
  moreover have "card (set (snd ?t)) = ?n"
    using distinct_oldest_first [OF b, of env] unfolding ids
    by (subst distinct_card) (simp_all add: excess_rows_def)
  ultimately show ?thesis
    using card [OF r(1)] card [of b] b card_Diff_subset [of "set (snd ?t)" "fst ` set b"] card_mono [of "fst ` set b" "set (snd ?t)"]
    by simp
qed

end
