(* ===== verification/Message_Safety.thy ===== *)
theory Message_Safety
  imports Message_Store
begin

text \<open>
  The message store is well formed after every run: one bucket per identity, one row per id. A live
  insert over the cap evicts the oldest rows that are not being sent, and what depended on them.
\<close>

subsection \<open>The invariant\<close>

definition store_ok :: "message_store \<Rightarrow> bool" where
  "store_ok s \<longleftrightarrow> jm_wf (ms_messages s) \<and> (\<forall>e \<in> set (ms_messages s). bucket_ok (snd e))
     \<and> coverage_ok (coverage (ms_heard s))"

lemma store_ok_bucket: "store_ok s \<Longrightarrow> bucket_ok (identity_bucket s i)"
  by (auto simp: store_ok_def identity_bucket_def split: option.split dest!: jm_get_SomeD)

lemma store_ok_get: "store_ok s \<Longrightarrow> jm_get (ms_messages s) i = Some b \<Longrightarrow> bucket_ok b"
  by (auto simp: store_ok_def dest!: jm_get_SomeD)

lemma note_store_simps [simp]:
  "ms_messages (note_store n s) = ms_messages s" "ms_heard (note_store n s) = ms_heard s"
  "ms_live (note_store n s) = ms_live s" "ms_log (note_store n s) = ms_log s @ [n]"
  "identity_bucket (note_store n s) = identity_bucket s" "row_of (note_store n s) = row_of s"
  "store_ok (note_store n s) = store_ok s"
  by (auto simp: note_store_def identity_bucket_def row_of_def store_ok_def fun_eq_iff)

lemma heard_simps [simp]:
  "identity_bucket (s\<lparr>ms_heard := h\<rparr>) = identity_bucket s" "row_of (s\<lparr>ms_heard := h\<rparr>) = row_of s"
  "identity_bucket (s\<lparr>ms_live := l\<rparr>) = identity_bucket s" "row_of (s\<lparr>ms_live := l\<rparr>) = row_of s"
  by (auto simp: identity_bucket_def row_of_def fun_eq_iff)

lemma identity_bucket_merge [simp]:
  "identity_bucket (merge_identity_messages i b s) j = (if j = i then b else identity_bucket s j)"
  by (simp add: merge_identity_messages_def note_store_def identity_bucket_def jm.get_set)

lemma merge_simps [simp]:
  "ms_heard (merge_identity_messages i b s) = ms_heard s"
  "ms_log (merge_identity_messages i b s) = ms_log s @ [StoreWritten]"
  by (simp_all add: merge_identity_messages_def note_store_def)

lemma merge_ok: "store_ok s \<Longrightarrow> bucket_ok b \<Longrightarrow> store_ok (merge_identity_messages i b s)"
  by (auto simp: store_ok_def merge_identity_messages_def note_store_def jm.wf_set set_jm_set)

lemma store_ok_heard: "store_ok s \<Longrightarrow> coverage_ok (coverage h) \<Longrightarrow> store_ok (s\<lparr>ms_heard := h\<rparr>)"
  by (simp add: store_ok_def)

lemma store_ok_live [simp]: "store_ok (s\<lparr>ms_live := l\<rparr>) = store_ok s"
  by (simp add: store_ok_def)

lemma coverage_of_store: "store_ok s \<Longrightarrow> coverage_ok (coverage (ms_heard s))"
  by (simp add: store_ok_def)

subsection \<open>Clean-up after an eviction\<close>

lemma clear_window_coverage [simp]: "coverage (clear_heard_repeat_window_if_message i k h) = coverage h"
  by (simp add: clear_heard_repeat_window_if_message_def split: option.split)

lemma rename_window_coverage [simp]: "coverage (rename_heard_repeat_window i a b h) = coverage h"
  by (simp add: rename_heard_repeat_window_def split: option.split)

lemma cleanup_simps [simp]:
  "ms_messages (cleanup_evicted_live_messages i ids s) = ms_messages s"
  "ms_log (cleanup_evicted_live_messages i ids s) = ms_log s"
  "identity_bucket (cleanup_evicted_live_messages i ids s) = identity_bucket s"
  by (induction ids arbitrary: s) (simp_all add: cleanup_evicted_live_messages_def)

lemma cleanup_ok: "store_ok s \<Longrightarrow> store_ok (cleanup_evicted_live_messages i ids s)"
  by (induction ids arbitrary: s)
    (simp_all add: cleanup_evicted_live_messages_def store_ok_heard coverage_remove_ok coverage_of_store)

lemma coverage_for_remove:
  "jm_wf c \<Longrightarrow> coverage_for (coverage_remove i a c) i k = (if k = a then None else coverage_for c i k)"
  by (auto simp: coverage_remove_def coverage_for_def relay_coverage_key_def Let_def jm_get_filter jm_has_get
      split: option.split)

lemma cleanup_coverage:
  "store_ok s \<Longrightarrow> coverage_for (coverage (ms_heard (cleanup_evicted_live_messages i ids s))) i k
     = (if k \<in> set ids then None else coverage_for (coverage (ms_heard s)) i k)"
proof (induction ids arbitrary: s)
  case (Cons a ids)
  let ?s = "s\<lparr>ms_heard := clear_heard_repeat_window_if_message i a
      ((ms_heard s)\<lparr>coverage := coverage_remove i a (coverage (ms_heard s))\<rparr>)\<rparr>"
  have "store_ok ?s" using Cons.prems by (simp add: store_ok_heard coverage_remove_ok coverage_of_store)
  from Cons.IH [OF this] show ?case
    using coverage_of_store [OF Cons.prems]
    by (simp add: cleanup_evicted_live_messages_def coverage_for_remove coverage_ok_def)
qed (simp add: cleanup_evicted_live_messages_def)

text \<open>A window that stays open belongs to a message that was not evicted.\<close>

lemma clear_window_get:
  "jm_get (pending (clear_heard_repeat_window_if_message i a h)) i = Some w
   \<longleftrightarrow> jm_get (pending h) i = Some w \<and> pw_message_id w \<noteq> a"
  by (cases "jm_get (pending h) i") (auto simp: clear_heard_repeat_window_if_message_def jm.get_del)

lemma cleanup_windows:
  "jm_get (pending (ms_heard (cleanup_evicted_live_messages i ids s))) i = Some w
   \<longleftrightarrow> pw_message_id w \<notin> set ids \<and> jm_get (pending (ms_heard s)) i = Some w"
proof (induction ids arbitrary: s)
  case (Cons a ids)
  show ?case
    using Cons.IH [of "s\<lparr>ms_heard := clear_heard_repeat_window_if_message i a
      ((ms_heard s)\<lparr>coverage := coverage_remove i a (coverage (ms_heard s))\<rparr>)\<rparr>"]
    by (auto simp: cleanup_evicted_live_messages_def clear_window_get)
qed (simp add: cleanup_evicted_live_messages_def)

subsection \<open>Every operation keeps the invariant\<close>

lemma stamp_id [simp]: "cr_id (stamp_live_channel_identity env i m s) = cr_id m"
proof (cases "se_protocol env i")
  case (Some p)
  then show ?thesis
    by (cases p; cases "ms_live s p") (simp_all add: stamp_live_channel_identity_def Let_def)
qed (simp add: stamp_live_channel_identity_def)

lemma carry_id [simp]: "cr_id (carry_channel_identity e m) = cr_id m"
  by (simp add: carry_channel_identity_def)

lemma merged_row_id [simp]: "cr_id (merged_row e m) = cr_id m"
  by (simp add: merged_row_def spread_row_def Let_def split: option.split)

lemma with_status_id [simp]: "cr_id (with_status r st err) = cr_id r"
  by (simp add: with_status_def Let_def split: option.split)

lemma carry_attachment_id [simp]: "cr_id (carry_attachment e t) = cr_id t"
  by (simp add: carry_attachment_def Let_def)

lemma put_id [simp]: "jm_get (put_row r b) (cr_id (fst r)) = Some r"
  by (simp add: put_row_def jm.get_set)

lemma row_of_id: "store_ok s \<Longrightarrow> row_of s i k = Some r \<Longrightarrow> cr_id r = k"
  by (auto simp: row_of_def dest: bucket_ok_id [OF store_ok_bucket])

lemma insert_live_ok: "store_ok s \<Longrightarrow> store_ok (insert_live_row env i m s)"
  by (simp add: insert_live_row_def Let_def cleanup_ok merge_ok trim_bucket_ok bucket_ok_put store_ok_bucket)

lemma upsert_loaded_ok: "bucket_ok (fst acc) \<Longrightarrow> bucket_ok (fst (upsert_loaded m acc))"
  by (simp add: upsert_loaded_def Let_def bucket_ok_put split: option.split)

lemma merge_loaded_ok: "bucket_ok (fst acc) \<Longrightarrow> bucket_ok (fst (merge_loaded m acc))"
  by (simp add: merge_loaded_def bucket_ok_put split: option.split)

lemma replaced_ok: "bucket_ok (replaced_bucket prior records)"
  unfolding replaced_bucket_def by (rule fold_invariant [where Q = "\<lambda>_. True" and P = bucket_ok]) (simp_all add: bucket_ok_put)

lemma fold_loads_ok:
  "bucket_ok (fst acc) \<Longrightarrow> bucket_ok (fst (fold upsert_loaded ms acc))"
  "bucket_ok (fst acc) \<Longrightarrow> bucket_ok (fst (fold merge_loaded ms acc))"
  by (rule fold_invariant [where Q = "\<lambda>_. True" and P = "\<lambda>acc. bucket_ok (fst acc)"];
      simp add: upsert_loaded_ok merge_loaded_ok)+

lemma rename_write_ok: "store_ok s \<Longrightarrow> store_ok (rename_write i a b r s)"
  using bucket_ok_id [OF store_ok_bucket, of s i b]
  by (auto simp: rename_write_def Let_def bucket_ok_omit store_ok_bucket intro!: merge_ok bucket_ok_set split: option.split)

lemma map_rows_ok: "bucket_ok b \<Longrightarrow> (\<And>e. cr_id (fst (f e)) = cr_id (fst e)) \<Longrightarrow> bucket_ok (map (\<lambda>(k, e). (k, f e)) b)"
  by (auto simp: bucket_ok_def jm_wf_def jm_keys_def comp_def case_prod_beta)

lemma remap_row_id [simp]: "cr_id (fst (remap_row a b e)) = cr_id (fst e)"
  by (simp add: remap_row_def Let_def)

lemma window_coverage_ok: "coverage_ok (coverage h) \<Longrightarrow> coverage_ok (coverage (open_heard_repeat_window i k w t e now h))"
  by (simp add: open_heard_repeat_window_def Let_def coverage_set_ok coverage_remove_ok split: option.split)

lemma changes_ok:
  assumes "store_ok s"
  shows "store_ok (update_message_status i k st err s)" "store_ok (update_message_mqtt_status i k st s)"
    "store_ok (delete_message i k s)" "store_ok (rename_message_id i a b now s)"
    "store_ok (prune_message_records_by_channel i c s)" "store_ok (remap_message_node_id i x y s)"
  using assms row_of_id [OF assms] coverage_of_store [OF rename_write_ok [OF assms]]
  by (auto simp: update_message_status_def update_message_mqtt_status_def delete_message_def rename_message_id_def
      prune_message_records_by_channel_def remap_message_node_id_def Let_def merge_ok bucket_ok_set bucket_ok_omit
      bucket_ok_keep store_ok_bucket store_ok_get store_ok_heard rename_write_ok coverage_remove_ok coverage_rename_ok
      intro!: merge_ok map_rows_ok split: option.split)

lemma loads_ok:
  assumes "store_ok s"
  shows "store_ok (upsert_message_records i ms s)" "store_ok (replace_message_records i ms s)"
    "store_ok (merge_message_records_from_db i ms s)"
  using assms
  by (simp_all add: upsert_message_records_def replace_message_records_def merge_message_records_from_db_def Let_def
      merge_ok replaced_ok fold_loads_ok store_ok_bucket)

lemma live_ok:
  assumes "store_ok s"
  shows "store_ok (add_message env i m s)" "store_ok (upsert_message env i m s)"
  using assms by (simp_all add: add_message_def upsert_message_def Let_def insert_live_ok merge_ok bucket_ok_put
      store_ok_bucket split: option.split)

lemma clear_ok: "store_ok s \<Longrightarrow> store_ok (clear_message_identity i s)"
  by (auto simp: clear_message_identity_def store_ok_def jm_wf_omit set_omit)

lemma message_store_step_ok: "store_ok s \<Longrightarrow> store_ok (message_store_step e s)"
  by (cases e; cases "snd e")
    (simp_all add: live_ok loads_ok changes_ok clear_ok store_ok_heard coverage_step_ok coverage_of_store window_coverage_ok
      set_live_channel_keys_def)

interpretation mstore: invariant_steps message_store_step store_ok empty_message_store
  by unfold_locales (simp_all add: message_store_step_ok, simp add: store_ok_def empty_message_store_def coverage_ok_def)

subsection \<open>Live inserts\<close>

definition sending_rows :: "row_bucket \<Rightarrow> nat" where
  "sending_rows b = length (filter (\<lambda>e. is_protected_from_live_trim (snd e)) b)"

lemma length_oldest_first: "length (oldest_first env b) + sending_rows b = length b"
proof -
  have "mset (filter (\<lambda>e. \<not> is_protected_from_live_trim (snd e)) (own_entries b))
      = mset (filter (\<lambda>e. \<not> is_protected_from_live_trim (snd e)) b)" by (simp add: mset_filter)
  then have "length (filter (\<lambda>e. \<not> is_protected_from_live_trim (snd e)) (own_entries b))
      = length (filter (\<lambda>e. \<not> is_protected_from_live_trim (snd e)) b)" by (metis size_mset)
  then show ?thesis
    using sum_length_filter_compl [of "\<lambda>e. is_protected_from_live_trim (snd e)" b]
    by (simp add: oldest_first_def sending_rows_def filter_map comp_def)
qed

lemma trimmed_length:
  "bucket_ok b \<Longrightarrow> length (fst (trim_identity_bucket_to_newest env b cap)) = min (length b) (max cap (sending_rows b))"
proof -
  assume "bucket_ok b"
  from trim_length [OF this, of env cap] length_oldest_first [of env b] show ?thesis
    unfolding excess_rows_def by arith
qed

lemma trim_ids_row:
  assumes "bucket_ok b" "k \<in> set (snd (trim_identity_bucket_to_newest env b cap))"
  shows "\<exists>x \<in> set (take (excess_rows env b cap) (oldest_first env b)). jm_get b k = Some x"
proof -
  from assms(2) obtain x where x: "x \<in> set (take (excess_rows env b cap) (oldest_first env b))" "k = cr_id (fst x)"
    by (auto simp: trim_ids)
  from x(1) have "x \<in> set (oldest_first env b)" by (rule in_set_takeD)
  with x(2) assms(1) have "jm_get b k = Some x" by (simp add: jm_get_iff bucket_rows set_oldest_first)
  with x(1) show ?thesis by blast
qed

lemma trim_ids_present:
  "bucket_ok b \<Longrightarrow> k \<in> set (snd (trim_identity_bucket_to_newest env b cap)) \<Longrightarrow> jm_get b k \<noteq> None"
  using trim_ids_row by blast

lemma trim_keeps_sending:
  assumes "bucket_ok b" "jm_get b k = Some r" "is_protected_from_live_trim r"
  shows "k \<notin> set (snd (trim_identity_bucket_to_newest env b cap))"
proof
  assume "k \<in> set (snd (trim_identity_bucket_to_newest env b cap))"
  from trim_ids_row [OF assms(1) this] assms(2) have "r \<in> set (oldest_first env b)" by (auto dest: in_set_takeD)
  with assms(3) show False by (simp add: set_oldest_first)
qed

lemma trim_evicts_oldest:
  assumes b: "bucket_ok b" and a: "jm_get b k = Some x" "k \<in> set (snd (trim_identity_bucket_to_newest env b cap))"
    and y: "jm_get b j = Some y" "j \<notin> set (snd (trim_identity_bucket_to_newest env b cap))" "\<not> is_protected_from_live_trim y"
  shows "not_newer env (fst x) (fst y)"
proof -
  let ?old = "oldest_first env b" and ?n = "excess_rows env b cap"
  have "x \<in> set (take ?n ?old)" using trim_ids_row [OF b a(2)] a(1) by auto
  moreover have "y \<in> set (drop ?n ?old)"
  proof -
    have "y \<in> set ?old" "cr_id (fst y) = j" using y(1,3) b by (auto simp: jm_get_iff bucket_rows set_oldest_first)
    moreover have "y \<notin> set (take ?n ?old)" using y(2) calculation(2) by (auto simp: trim_ids)
    ultimately show ?thesis by (metis append_take_drop_id set_append Un_iff)
  qed
  moreover have "sorted_wrt (\<lambda>a b. not_newer env (fst a) (fst b)) (take ?n ?old @ drop ?n ?old)"
    by (simp add: oldest_first_def sorted_sort_for_trim)
  ultimately show ?thesis unfolding sorted_wrt_append by blast
qed

text \<open>The result of a live insert in terms of the trimmed bucket.\<close>

lemma insert_live_row_result:
  fixes s :: message_store and env :: store_env and i :: string and m :: chat_row
  defines "t \<equiv> trim_identity_bucket_to_newest env (put_row (m, False) (identity_bucket s i)) (resolve_live_message_cap env i)"
  shows "identity_bucket (insert_live_row env i m s) j = (if j = i then fst t else identity_bucket s j)"
    and "ms_log (insert_live_row env i m s) = ms_log s @ StoreWritten #
      (if jm_has (fst t) (cr_id m) then [StoreEvent (RowAdded i m)] else [])"
    and "ms_heard (insert_live_row env i m s)
      = ms_heard (cleanup_evicted_live_messages i (snd t) (merge_identity_messages i (fst t) s))"
  unfolding t_def by (simp_all add: insert_live_row_def Let_def)

text \<open>The evicted ids are those of rows that are in the grown bucket and not in the result.\<close>

lemma insert_live_row_gone:
  fixes s :: message_store and env :: store_env and i :: string and m :: chat_row
  defines "grown \<equiv> put_row (m, False) (identity_bucket s i)" and "kept \<equiv> jm_get (identity_bucket (insert_live_row env i m s) i)"
  assumes ok: "store_ok s"
  shows "kept k = (if k \<in> set (snd (trim_identity_bucket_to_newest env grown (resolve_live_message_cap env i))) then None else jm_get grown k)"
    and "k \<in> set (snd (trim_identity_bucket_to_newest env grown (resolve_live_message_cap env i)))
      \<longleftrightarrow> jm_get grown k \<noteq> None \<and> kept k = None"
proof -
  have g: "bucket_ok grown" using ok by (simp add: grown_def bucket_ok_put store_ok_bucket)
  show kept: "kept k = (if k \<in> set (snd (trim_identity_bucket_to_newest env grown (resolve_live_message_cap env i))) then None else jm_get grown k)"
    using trim_get [OF g] by (simp add: kept_def insert_live_row_result grown_def)
  show "k \<in> set (snd (trim_identity_bucket_to_newest env grown (resolve_live_message_cap env i)))
      \<longleftrightarrow> jm_get grown k \<noteq> None \<and> kept k = None"
    using trim_ids_present [OF g] by (auto simp: kept)
qed

text \<open>
  C12: a live message over the cap pushes out the oldest rows that are not being sent. After any
  operations of the stores, a message without a row, added or upserted, is written with the channel
  identity of the connected radio. The bucket then holds the rows it had and the new one, unchanged,
  up to the cap of the identity or the number of rows being sent, whichever is more. Every row being
  sent is kept; an evicted row is not newer than any other kept row; exactly the coverage and the
  heard-repeat window of evicted rows are dropped; other identities are untouched; and the new row is
  announced exactly if it stayed.
\<close>

theorem live_insert_keeps_newest:
  fixes ops :: "(store_env \<times> store_op) list" and env :: store_env and i :: string and m :: chat_row
  defines "s \<equiv> fold message_store_step ops empty_message_store"
  defines "m' \<equiv> stamp_live_channel_identity env i m s"
  defines "grown \<equiv> put_row (m', False) (identity_bucket s i)"
  assumes new: "row_of s i (cr_id m) = None"
    and s': "s' = add_message env i m s \<or> s' = upsert_message env i m s"
  defines "kept \<equiv> (\<lambda>k. jm_get (identity_bucket s' i) k)"
  shows "jm_get grown = (jm_get (identity_bucket s i))(cr_id m \<mapsto> (m', False))
    \<and> (\<forall>k. kept k = None \<or> kept k = jm_get grown k)
    \<and> length (identity_bucket s' i) = min (length (identity_bucket s i) + 1) (max (resolve_live_message_cap env i) (sending_rows grown))
    \<and> (\<forall>k r. jm_get grown k = Some r \<and> is_protected_from_live_trim r \<longrightarrow> kept k = Some r)
    \<and> (\<forall>k x j y. jm_get grown k = Some x \<and> kept k = None \<and> kept j = Some y \<and> \<not> is_protected_from_live_trim y
         \<longrightarrow> not_newer env (fst x) (fst y))
    \<and> (\<forall>k. coverage_for (coverage (ms_heard s')) i k
         = (if jm_get grown k \<noteq> None \<and> kept k = None then None else coverage_for (coverage (ms_heard s)) i k))
    \<and> (\<forall>w. jm_get (pending (ms_heard s')) i = Some w \<longleftrightarrow> jm_get (pending (ms_heard s)) i = Some w
         \<and> \<not> (jm_get grown (pw_message_id w) \<noteq> None \<and> kept (pw_message_id w) = None))
    \<and> (\<forall>j. j \<noteq> i \<longrightarrow> identity_bucket s' j = identity_bucket s j)
    \<and> ms_log s' = ms_log s @ StoreWritten # (if kept (cr_id m) \<noteq> None then [StoreEvent (RowAdded i m')] else [])"
proof -
  have ok: "store_ok s" unfolding s_def by (rule mstore.fold_inv [OF mstore.start_inv])
  then have b: "bucket_ok (identity_bucket s i)" and g: "bucket_ok grown" by (simp_all add: store_ok_bucket grown_def bucket_ok_put)
  define t where "t = trim_identity_bucket_to_newest env grown (resolve_live_message_cap env i)"
  have insert: "s' = insert_live_row env i m' s" using s' new by (auto simp: add_message_def upsert_message_def m'_def)
  note res = insert_live_row_result [of env i m' s, folded insert grown_def t_def]
  note gone = insert_live_row_gone [OF ok, where env = env and i = i and m = m', folded grown_def t_def]
  have kept: "kept k = (if k \<in> set (snd t) then None else jm_get grown k)"
    and ids: "k \<in> set (snd t) \<longleftrightarrow> jm_get grown k \<noteq> None \<and> kept k = None" for k
    using gone unfolding kept_def insert by auto
  have none: "jm_get (identity_bucket s i) (cr_id m) = None" using new by (simp add: row_of_def)
  have grown: "jm_get grown = (jm_get (identity_bucket s i))(cr_id m \<mapsto> (m', False))"
    by (simp add: grown_def put_row_def jm.get_set m'_def)
  have len: "length grown = length (identity_bucket s i) + 1"
    using none by (simp add: grown_def put_row_def m'_def jm_set_new map_of_eq_None_iff jm_get_def)
  have merged: "store_ok (merge_identity_messages i (fst t) s)"
    using ok g by (simp add: merge_ok trim_bucket_ok t_def)
  show ?thesis
  proof (intro conjI allI impI)
    show "jm_get grown = (jm_get (identity_bucket s i))(cr_id m \<mapsto> (m', False))" by (rule grown)
    show "kept k = None \<or> kept k = jm_get grown k" for k by (simp add: kept)
    show "length (identity_bucket s' i) = min (length (identity_bucket s i) + 1) (max (resolve_live_message_cap env i) (sending_rows grown))"
      using trimmed_length [OF g] by (simp add: res t_def len)
    show "kept k = Some r" if "jm_get grown k = Some r \<and> is_protected_from_live_trim r" for k r
      using trim_keeps_sending [OF g] that by (auto simp: kept t_def)
    show "not_newer env (fst x) (fst y)"
      if "jm_get grown k = Some x \<and> kept k = None \<and> kept j = Some y \<and> \<not> is_protected_from_live_trim y" for k x j y
      using that trim_evicts_oldest [OF g, of k x env "resolve_live_message_cap env i" j y]
      by (auto simp: kept simp flip: t_def split: if_splits)
    show "coverage_for (coverage (ms_heard s')) i k
         = (if jm_get grown k \<noteq> None \<and> kept k = None then None else coverage_for (coverage (ms_heard s)) i k)" for k
      using cleanup_coverage [OF merged] by (simp add: res ids)
    show "jm_get (pending (ms_heard s')) i = Some w \<longleftrightarrow> jm_get (pending (ms_heard s)) i = Some w
         \<and> \<not> (jm_get grown (pw_message_id w) \<noteq> None \<and> kept (pw_message_id w) = None)" for w
      by (auto simp: res cleanup_windows ids)
    show "identity_bucket s' j = identity_bucket s j" if "j \<noteq> i" for j using that by (simp add: res)
    show "ms_log s' = ms_log s @ StoreWritten # (if kept (cr_id m) \<noteq> None then [StoreEvent (RowAdded i m')] else [])"
      by (simp add: res jm_has_get kept_def m'_def)
  qed
qed

subsection \<open>Acknowledged rows\<close>

text \<open>An acknowledged row does not go back to being sent.\<close>

lemma status_not_back_to_sending:
  assumes "row_of s i k = Some r" "is_acked r"
  shows "\<exists>r'. row_of (update_message_status i2 k2 st err s) i k = Some r' \<and> read_prop (cr_status r') \<noteq> Some StatusSending"
  using assms
  by (auto simp: update_message_status_def with_status_def row_of_def Let_def jm.get_set is_acked_def
      split: option.split delivery_status.split)

text \<open>A row renamed onto an acknowledged one is dropped; that one keeps its text and status.\<close>

lemma carry_attachment_keeps:
  "cr_status (carry_attachment e t) = cr_status t" "cr_payload (carry_attachment e t) = cr_payload t"
  by (simp_all add: carry_attachment_def Let_def)

lemma rename_message_id_bucket:
  assumes "row_of s i a = Some e" "a \<noteq> b"
  shows "identity_bucket (rename_message_id i a b now s) = identity_bucket (rename_write i a b e s)"
    and "ms_log (rename_message_id i a b now s) = ms_log (rename_write i a b e s) @ [StoreEvent (RowRenamed i a b)]"
  using assms by (simp_all add: rename_message_id_def Let_def)

lemma rename_onto_acked:
  assumes "store_ok s" "row_of s i a = Some e" "row_of s i b = Some t" "is_acked t" "a \<noteq> b"
  shows "\<exists>t'. row_of (rename_message_id i a b now s) i b = Some t' \<and> cr_status t' = cr_status t \<and> cr_payload t' = cr_payload t"
proof -
  obtain m where m: "jm_get (identity_bucket s i) b = Some (t, m)" using assms(3) by (auto simp: row_of_def)
  have wf: "jm_wf (identity_bucket s i)" using assms(1) by (simp add: store_ok_bucket)
  show ?thesis using assms m
    by (auto simp: row_of_def [of "rename_message_id i a b now s"] rename_message_id_bucket rename_write_def Let_def
        jm_get_omit [OF wf] jm.get_set carry_attachment_keeps)
qed

text \<open>
  The dedupe key of a MeshCore row is not among the compared properties, so an update of this
  property alone is not written.
\<close>

lemma over_self [simp]: "over_prop x x = x"
  by (cases x) simp_all

lemma merged_row_self: "read_prop (cr_local_order r) = None \<Longrightarrow> merged_row r (r\<lparr>cr_meshcore_dedupe_key := Val x\<rparr>) = r\<lparr>cr_meshcore_dedupe_key := Val x\<rparr>"
  by (simp add: merged_row_def spread_row_def Let_def)

lemma dedupe_key_alone_not_stored:
  assumes "store_ok s" "row_of s i k = Some r" "read_prop (cr_local_order r) = None"
  shows "upsert_message env i (r\<lparr>cr_meshcore_dedupe_key := Val x\<rparr>) s = s"
  using assms row_of_id [OF assms(1,2)] by (simp add: upsert_message_def merged_row_self message_record_fields_equal_def)

subsection \<open>A run\<close>

definition plain_row :: "string \<Rightarrow> millis \<Rightarrow> delivery_status own_prop \<Rightarrow> chat_row" where
  "plain_row k ts status = \<lparr>cr_id = k, cr_from = 7, cr_sender_name = Absent, cr_to = 0, cr_payload = ''hi'', cr_channel_index = 0,
     cr_timestamp = ts, cr_local_order = Absent, cr_rx_snr = Absent, cr_rx_rssi = Absent, cr_rx_radio_transport = Absent,
     cr_hop_count = Absent, cr_rx_hops = Absent, cr_tapback = Absent, cr_reply_to = Absent, cr_reply_preview_text = Absent,
     cr_reply_preview_sender = Absent, cr_status = status, cr_mqtt_status = Absent, cr_received_via = Absent,
     cr_is_history = Absent, cr_error = Absent, cr_room_server_id = Absent, cr_reticulum_message_hash = Absent,
     cr_reticulum_sender_hash = Absent, cr_reticulum_reply_to_hash = Absent, cr_reticulum_delivery_method = Absent,
     cr_reticulum_delivery_attempts = Absent, cr_reticulum_attachment_path = Absent, cr_reticulum_attachment_kind = Absent,
     cr_reticulum_audio_mode = Absent, cr_reticulum_audio_duration_sec = Absent, cr_via_store_forward = Absent,
     cr_channel_key = Absent, cr_radio_node_id = Absent, cr_meshcore_dedupe_key = Absent\<rparr>"

definition demo_store_env :: store_env where
  "demo_store_env = \<lparr>se_protocol = (\<lambda>_. Some IdentityMeshtastic),
     se_settings = Some \<lparr>ls_message_limit_enabled = Some True, ls_message_limit_count = CountInteger 1\<rparr>, se_collate = (\<lambda>_. 0)\<rparr>"

definition demo_store_ops :: "(store_env \<times> store_op) list" where
  "demo_store_ops = [(demo_store_env, OpAdd ''i'' (plain_row ''a'' 10 Absent))]"

lemma plain_row_id [simp]: "cr_id (plain_row k ts status) = k"
  by (simp add: plain_row_def)

lemma demo_cap: "resolve_live_message_cap demo_store_env ''i'' = 1"
  by (simp add: demo_store_env_def resolve_live_message_cap_def get_meshtastic_message_load_limit_def
      sanitize_message_limit_count_def MAX_IN_MEMORY_CHAT_MESSAGES_def)

lemma demo_bucket: "identity_bucket (fold message_store_step demo_store_ops empty_message_store) ''i'' = [(''a'', plain_row ''a'' 10 Absent, False)]"
proof -
  have "stamp_live_channel_identity demo_store_env ''i'' (plain_row ''a'' 10 Absent) empty_message_store = plain_row ''a'' 10 Absent"
    by (simp add: stamp_live_channel_identity_def demo_store_env_def empty_message_store_def)
  moreover have nothing: "identity_bucket empty_message_store ''i'' = []" by (simp add: identity_bucket_def empty_message_store_def)
  ultimately show ?thesis
    by (simp add: demo_store_ops_def add_message_def row_of_def insert_live_row_result demo_cap put_row_def jm_set_def
        trim_identity_bucket_to_newest_def Let_def)
qed

theorem live_insert_keeps_newest_witness:
  "length (identity_bucket (add_message demo_store_env ''i'' (plain_row ''b'' 20 Absent)
       (fold message_store_step demo_store_ops empty_message_store)) ''i'') = 1"
proof -
  let ?s = "fold message_store_step demo_store_ops empty_message_store"
  let ?m = "stamp_live_channel_identity demo_store_env ''i'' (plain_row ''b'' 20 Absent) ?s"
  have new: "row_of ?s ''i'' (cr_id (plain_row ''b'' 20 Absent)) = None"
    by (simp add: row_of_def demo_bucket jm_get_def)
  have "length (identity_bucket (add_message demo_store_env ''i'' (plain_row ''b'' 20 Absent) ?s) ''i'')
      = min (length (identity_bucket ?s ''i'') + 1) (max (resolve_live_message_cap demo_store_env ''i'')
          (sending_rows (put_row (?m, False) (identity_bucket ?s ''i''))))"
    using live_insert_keeps_newest [OF new disjI1, of _ demo_store_env] by simp
  moreover have "sending_rows (put_row (?m, False) (identity_bucket ?s ''i'')) \<le> 1"
    unfolding sending_rows_def demo_bucket
    by (simp add: put_row_def jm_set_def is_protected_from_live_trim_def) (simp add: plain_row_def)
  ultimately show ?thesis by (simp add: demo_bucket demo_cap)
qed

end
