(* ===== verification/Chat_Settlement.thy ===== *)
theory Chat_Settlement
  imports Message_Safety
begin

text \<open>
  The wait for the fate of a sent message (\<^verbatim>\<open>src/renderer/lib/scheduledBroadcasts/chatSettlement.ts\<close>): a
  subscriber of the message store that follows its row through re-keys and ends with the first verdict.
\<close>

record settlement =
  sw_identity :: string
  sw_current :: string
  sw_due :: millis
  sw_outcome :: "bool option"

definition settle_finish :: "bool \<Rightarrow> settlement \<Rightarrow> settlement" where
  "settle_finish ok w = (if sw_outcome w \<noteq> None then w else w\<lparr>sw_outcome := Some ok\<rparr>)"

definition settle_check :: "message_store \<Rightarrow> settlement \<Rightarrow> settlement" where
  "settle_check s w =
     (if sw_outcome w \<noteq> None then w
      else case row_of s (sw_identity w) (sw_current w) of
        None \<Rightarrow> w
      | Some r \<Rightarrow>
          if read_prop (cr_status r) = Some StatusAcked then settle_finish True w
          else if read_prop (cr_status r) = Some StatusFailed then settle_finish False w
          else w)"

definition settle_renamed :: "message_store \<Rightarrow> message_store_event \<Rightarrow> settlement \<Rightarrow> settlement" where
  "settle_renamed s ev w = (case ev of
       RowRenamed i from_id to_id \<Rightarrow>
         if sw_outcome w = None \<and> i = sw_identity w \<and> from_id = sw_current w
         then settle_check s (w\<lparr>sw_current := to_id\<rparr>) else w
     | RowAdded _ _ \<Rightarrow> w)"

fun settle_notice :: "message_store \<Rightarrow> store_notice \<Rightarrow> settlement \<Rightarrow> settlement" where
  "settle_notice s StoreWritten w = settle_check s w"
| "settle_notice s (StoreEvent ev) w = settle_renamed s ev w"

definition settle_timer :: "millis \<Rightarrow> settlement \<Rightarrow> settlement" where
  "settle_timer now w = (if sw_due w \<le> now then settle_finish False w else w)"

definition wait_for_chat_settlement :: "string \<Rightarrow> string \<Rightarrow> millis \<Rightarrow> millis \<Rightarrow> message_store \<Rightarrow> settlement" where
  "wait_for_chat_settlement identity message_id timeout_ms now s =
     settle_check s \<lparr>sw_identity = identity, sw_current = message_id, sw_due = now + max 0 timeout_ms, sw_outcome = None\<rparr>"

text \<open>The store goes on while somebody waits; its notices of one operation reach the subscriber in order.\<close>

datatype settle_event = StoreChange "store_env \<times> store_op" | TimerAt millis

fun settle_step :: "settle_event \<Rightarrow> message_store \<times> settlement \<Rightarrow> message_store \<times> settlement" where
  "settle_step (TimerAt now) (s, w) = (s, settle_timer now w)"
| "settle_step (StoreChange e) (s, w) =
     (let s' = message_store_step e s in (s', fold (settle_notice s') (drop (length (ms_log s)) (ms_log s')) w))"

subsection \<open>What is waited for\<close>

definition verdict :: "message_store \<Rightarrow> string \<Rightarrow> string \<Rightarrow> bool option" where
  "verdict s i k = (case row_of s i k of
       None \<Rightarrow> None
     | Some r \<Rightarrow> (case read_prop (cr_status r) of
           Some StatusAcked \<Rightarrow> Some True
         | Some StatusFailed \<Rightarrow> Some False
         | _ \<Rightarrow> None))"

text \<open>The key of a followed row after an operation.\<close>

fun key_after :: "store_op \<Rightarrow> message_store \<Rightarrow> string \<Rightarrow> string \<Rightarrow> string" where
  "key_after (OpRename j a b _) s i k = (if j = i \<and> a = k \<and> a \<noteq> b \<and> row_of s i a \<noteq> None then b else k)"
| "key_after _ s i k = k"

fun first_verdict :: "string \<Rightarrow> string \<Rightarrow> millis \<Rightarrow> message_store \<Rightarrow> settle_event list \<Rightarrow> bool option" where
  "first_verdict i k due s [] = None"
| "first_verdict i k due s (TimerAt now # es) = (if due \<le> now then Some False else first_verdict i k due s es)"
| "first_verdict i k due s (StoreChange e # es) =
     (let s' = message_store_step e s; k' = key_after (snd e) s i k in
      case verdict s' i k' of Some v \<Rightarrow> Some v | None \<Rightarrow> first_verdict i k' due s' es)"

subsection \<open>What an operation tells its subscribers\<close>

fun is_rename_notice :: "store_notice \<Rightarrow> bool" where
  "is_rename_notice (StoreEvent (RowRenamed _ _ _)) = True"
| "is_rename_notice _ = False"

text \<open>Nothing without a change, or a write and perhaps the announcement of a new row.\<close>

definition plain_change :: "message_store \<Rightarrow> message_store \<Rightarrow> bool" where
  "plain_change s s' \<longleftrightarrow> (\<exists>ns. ms_log s' = ms_log s @ ns \<and> list_all (\<lambda>n. \<not> is_rename_notice n) ns
     \<and> (StoreWritten \<in> set ns \<or> row_of s' = row_of s))"

lemma plain_change_refl [simp]: "plain_change s s"
  unfolding plain_change_def by (rule exI [of _ "[]"]) simp

lemma plain_change_merge [simp]: "plain_change s (merge_identity_messages i b s)"
  unfolding plain_change_def by (rule exI [of _ "[StoreWritten]"]) simp

lemma plain_change_heard [simp]: "plain_change s (s\<lparr>ms_heard := h\<rparr>)"
  unfolding plain_change_def by (rule exI [of _ "[]"]) simp

lemma plain_change_insert: "plain_change s (insert_live_row env i m s)"
  unfolding plain_change_def insert_live_row_result by (intro exI conjI, rule refl) auto

lemma plain_change_clear: "plain_change s (clear_message_identity i s)"
  unfolding plain_change_def by (rule exI [of _ "[StoreWritten]"]) (simp add: clear_message_identity_def)

lemma plain_change_live_keys: "plain_change s (set_live_channel_keys p keys s)"
  unfolding plain_change_def by (rule exI [of _ "[]"]) (simp add: set_live_channel_keys_def)

lemma plain_step:
  assumes "\<And>i a b now. snd e \<noteq> OpRename i a b now"
  shows "plain_change s (message_store_step e s)"
proof -
  obtain env cop where e: "e = (env, cop)" by (cases e)
  then show ?thesis using assms
    by (cases cop) (auto simp: add_message_def upsert_message_def upsert_message_records_def replace_message_records_def
        merge_message_records_from_db_def prune_message_records_by_channel_def update_message_status_def
        update_message_mqtt_status_def delete_message_def remap_message_node_id_def Let_def plain_change_insert
        plain_change_clear plain_change_live_keys split: option.split)
qed

lemma rename_write_log: "ms_log (rename_write i a b e s) = ms_log s @ [StoreWritten]"
  by (simp add: rename_write_def Let_def split: option.split)

text \<open>A re-key that takes effect is announced after the write, and the old key is free.\<close>

lemma rename_step:
  assumes "store_ok s" "row_of s i a = Some e" "a \<noteq> b"
  shows "ms_log (rename_message_id i a b now s) = ms_log s @ [StoreWritten, StoreEvent (RowRenamed i a b)]"
    and "row_of (rename_message_id i a b now s) i a = None"
proof -
  have wf: "jm_wf (identity_bucket s i)" using assms(1) by (simp add: store_ok_bucket)
  show "ms_log (rename_message_id i a b now s) = ms_log s @ [StoreWritten, StoreEvent (RowRenamed i a b)]"
    using assms by (simp add: rename_message_id_bucket rename_write_log)
  show "row_of (rename_message_id i a b now s) i a = None"
    using assms by (simp add: row_of_def [of "rename_message_id i a b now s"] rename_message_id_bucket rename_write_def Let_def
        jm_get_omit [OF wf] jm.get_set split: option.split)
qed

lemma rename_noop:
  assumes "row_of s i a = None \<or> a = b"
  shows "plain_change s (rename_message_id i a b now s)"
  using assms by (auto simp: rename_message_id_def Let_def split: option.split)

subsection \<open>The subscriber sees every verdict\<close>

lemma settle_check_verdict:
  "settle_check s w = (if sw_outcome w \<noteq> None then w else w\<lparr>sw_outcome := verdict s (sw_identity w) (sw_current w)\<rparr>)"
  by (cases w) (auto simp: settle_check_def settle_finish_def verdict_def split: option.split delivery_status.split)

lemma settled_check [simp]: "sw_outcome w \<noteq> None \<Longrightarrow> settle_check s w = w"
  by (simp add: settle_check_def)

lemma settled_notice [simp]: "sw_outcome w \<noteq> None \<Longrightarrow> settle_notice s n w = w"
  by (cases n) (auto simp: settle_renamed_def split: message_store_event.split)

lemma settled_fold: "sw_outcome w \<noteq> None \<Longrightarrow> fold (settle_notice s) ns w = w"
  by (induction ns) auto

lemma check_twice [simp]: "settle_check s (settle_check s w) = settle_check s w"
  by (simp add: settle_check_verdict)

lemma plain_notices:
  "list_all (\<lambda>n. \<not> is_rename_notice n) ns \<Longrightarrow>
   fold (settle_notice s) ns w = (if StoreWritten \<in> set ns then settle_check s w else w)"
proof (induction ns arbitrary: w)
  case (Cons n ns)
  then show ?case
    by (cases n rule: is_rename_notice.cases) (auto simp: settle_renamed_def)
qed simp

lemma verdict_same_rows: "row_of s' = row_of s \<Longrightarrow> verdict s' = verdict s"
  by (simp add: verdict_def fun_eq_iff)

lemma change_seen:
  fixes e :: "store_env \<times> store_op"
  assumes ok: "store_ok s" and out: "sw_outcome w = None" and open_row: "verdict s (sw_identity w) (sw_current w) = None"
  defines "k \<equiv> key_after (snd e) s (sw_identity w) (sw_current w)"
  shows "settle_step (StoreChange e) (s, w)
     = (message_store_step e s, w\<lparr>sw_current := k, sw_outcome := verdict (message_store_step e s) (sw_identity w) k\<rparr>)"
proof -
  let ?s' = "message_store_step e s"
  have plain: "fold (settle_notice ?s') (drop (length (ms_log s)) (ms_log ?s')) w
      = w\<lparr>sw_outcome := verdict ?s' (sw_identity w) (sw_current w)\<rparr>" if ch: "plain_change s ?s'"
  proof -
    from ch obtain ns where ns: "ms_log ?s' = ms_log s @ ns" "list_all (\<lambda>n. \<not> is_rename_notice n) ns"
      "StoreWritten \<in> set ns \<or> row_of ?s' = row_of s" unfolding plain_change_def by blast
    show ?thesis
      using ns(3) plain_notices [OF ns(2)] out open_row verdict_same_rows [of ?s' s]
      by (cases w) (auto simp: ns(1) settle_check_verdict)
  qed
  show ?thesis
  proof (cases "\<exists>j a b now. snd e = OpRename j a b now \<and> row_of s j a \<noteq> None \<and> a \<noteq> b")
    case False
    have "plain_change s ?s' \<and> k = sw_current w"
    proof (cases "\<exists>j a b now. snd e = OpRename j a b now")
      case True
      then obtain env j a b now where e: "e = (env, OpRename j a b now)" by (cases e) auto
      with False have "row_of s j a = None \<or> a = b" by auto
      then show ?thesis using rename_noop by (auto simp: e k_def)
    next
      case noren: False
      then have "k = sw_current w" unfolding k_def by (cases "snd e") auto
      with noren show ?thesis using plain_step [of e s] by blast
    qed
    then show ?thesis using plain by (cases w) (simp add: Let_def)
  next
    case True
    then obtain env j a b now r where e: "e = (env, OpRename j a b now)" and r: "row_of s j a = Some r" "a \<noteq> b"
      by (cases e) auto
    note ren = rename_step [OF ok r, of now]
    show ?thesis
    proof (cases "j = sw_identity w \<and> a = sw_current w")
      case True
      then have "verdict ?s' (sw_identity w) (sw_current w) = None" using ren(2) by (simp add: e verdict_def)
      then show ?thesis using True out r ren(1)
        by (cases w) (simp add: e k_def settle_check_verdict settle_renamed_def Let_def)
    next
      case False
      then have "k = sw_current w" by (auto simp: k_def e)
      then show ?thesis using False out ren(1)
        by (cases w) (auto simp: e settle_check_verdict settle_renamed_def Let_def)
    qed
  qed
qed

lemma decided_run: "sw_outcome w \<noteq> None \<Longrightarrow> sw_outcome (snd (fold settle_step es (s, w))) = sw_outcome w"
proof (induction es arbitrary: s)
  case (Cons e es)
  then show ?case
    by (cases e) (simp_all add: Let_def settled_fold settle_timer_def settle_finish_def)
qed simp

lemma waiting_run:
  assumes "store_ok s" "sw_outcome w = None" "verdict s (sw_identity w) (sw_current w) = None"
  shows "sw_outcome (snd (fold settle_step es (s, w))) = first_verdict (sw_identity w) (sw_current w) (sw_due w) s es"
  using assms
proof (induction es arbitrary: s w)
  case (Cons e es)
  show ?case
  proof (cases e)
    case (TimerAt now)
    show ?thesis
    proof (cases "sw_due w \<le> now")
      case True
      then have "settle_timer now w = w\<lparr>sw_outcome := Some False\<rparr>" using Cons.prems by (simp add: settle_timer_def settle_finish_def)
      with True show ?thesis using decided_run [of "w\<lparr>sw_outcome := Some False\<rparr>"] by (simp add: TimerAt)
    next
      case False
      then show ?thesis using Cons by (simp add: TimerAt settle_timer_def)
    qed
  next
    case (StoreChange c)
    let ?s' = "message_store_step c s" and ?k = "key_after (snd c) s (sw_identity w) (sw_current w)"
    let ?w' = "w\<lparr>sw_current := ?k, sw_outcome := verdict ?s' (sw_identity w) ?k\<rparr>"
    have step: "fold settle_step (e # es) (s, w) = fold settle_step es (?s', ?w')"
      using change_seen [OF Cons.prems, of c] by (simp add: StoreChange)
    have ok: "store_ok ?s'" using Cons.prems(1) by (rule message_store_step_ok)
    show ?thesis
    proof (cases "verdict ?s' (sw_identity w) ?k")
      case None
      then show ?thesis using Cons.IH [OF ok, of ?w'] unfolding step by (simp add: StoreChange Let_def)
    next
      case (Some v)
      then show ?thesis using decided_run [of ?w'] unfolding step by (simp add: StoreChange Let_def)
    qed
  qed
qed (simp)

text \<open>A row that vanishes does not end the wait; only the time does.\<close>

lemma deleted_row_keeps_waiting:
  assumes "store_ok s"
  shows "first_verdict i k due s [StoreChange (env, OpDelete i k)] = None"
proof -
  have wf: "jm_wf (identity_bucket s i)" using assms by (simp add: store_ok_bucket)
  have "row_of (delete_message i k s) i k = None"
    by (cases "row_of s i k") (simp_all add: delete_message_def row_of_def jm_get_omit [OF wf] split: option.split)
  then show ?thesis by (simp add: verdict_def Let_def split: option.split)
qed


end
