(* ===== verification/Meshtastic_Dedup.thy ===== *)
theory Meshtastic_Dedup
  imports Complex_Main Js_String
begin

text \<open>
  Merging the copies of a Meshtastic message that arrive by radio and by MQTT
  (\<^verbatim>\<open>src/renderer/lib/meshtasticMessageDedup.ts\<close>). A message carries the properties the rules read or
  write. The rows are a list; the row found by the search is an object, which the model names by its
  position. Packet ids are integers and are read modulo \<open>2 ^ 32\<close>.
\<close>

datatype received_via = ViaRadio | ViaMqtt | ViaBoth | ViaOther string

record mesh_message =
  mm_sender_id :: int
  mm_channel :: int
  mm_to :: "int option"
  mm_payload :: string
  mm_emoji :: "int option"
  mm_reply_id :: "int option"
  mm_timestamp :: int
  mm_received_via :: "received_via option"
  mm_packet_id :: "int option"
  mm_rx_hops :: "int option"
  mm_rx_snr :: "rat option"
  mm_rx_rssi :: "rat option"
  mm_via_store_forward :: bool

definition MESHTASTIC_DEDUP_WINDOW_MS :: int where "MESHTASTIC_DEDUP_WINDOW_MS = 10 * 60 * 1000"
definition CROSS_TRANSPORT_SCAN_LIMIT :: nat where "CROSS_TRANSPORT_SCAN_LIMIT = 200"

definition normalize_meshtastic_packet_id :: "int option \<Rightarrow> int option" where
  "normalize_meshtastic_packet_id v = map_option (\<lambda>n. n mod 2 ^ 32) v"

definition meshtastic_packet_dedup_key :: "int \<Rightarrow> int \<Rightarrow> string" where
  "meshtastic_packet_dedup_key sender_id packet_id =
     dec_string (nat (sender_id mod 2 ^ 32)) @ '':'' @ dec_string (nat (packet_id mod 2 ^ 32))"

definition normalize_meshtastic_dedup_payload :: "string \<Rightarrow> string" where
  "normalize_meshtastic_dedup_payload payload = (if js_trim payload = ''0'' then [] else payload)"

definition transports_are_cross :: "mesh_message \<Rightarrow> mesh_message \<Rightarrow> bool" where
  "transports_are_cross existing incoming =
     (case (mm_received_via existing, mm_received_via incoming) of
        (Some v, Some w) \<Rightarrow> v \<noteq> w
      | _ \<Rightarrow> False)"

definition is_mesh_reaction :: "mesh_message \<Rightarrow> bool" where
  "is_mesh_reaction m \<longleftrightarrow> mm_emoji m \<noteq> None \<or> mm_reply_id m \<noteq> None"

definition meshtastic_cross_transport_match :: "mesh_message \<Rightarrow> mesh_message \<Rightarrow> int \<Rightarrow> bool" where
  "meshtastic_cross_transport_match existing incoming window_ms =
     (if mm_sender_id existing \<noteq> mm_sender_id incoming then False
      else if mm_channel existing \<noteq> mm_channel incoming then False
      else if mm_to existing \<noteq> mm_to incoming then False
      else if (if is_mesh_reaction existing \<or> is_mesh_reaction incoming
               then \<not> is_mesh_reaction existing \<or> \<not> is_mesh_reaction incoming
                 \<or> mm_emoji existing \<noteq> mm_emoji incoming \<or> mm_reply_id existing \<noteq> mm_reply_id incoming
               else normalize_meshtastic_dedup_payload (mm_payload existing)
                 \<noteq> normalize_meshtastic_dedup_payload (mm_payload incoming)) then False
      else if \<bar>mm_timestamp existing - mm_timestamp incoming\<bar> > window_ms then False
      else transports_are_cross existing incoming)"

text \<open>The loops from the newest row backwards: the position of the first row that satisfies a test.\<close>

definition newest_index :: "(mesh_message \<Rightarrow> bool) \<Rightarrow> nat \<Rightarrow> mesh_message list \<Rightarrow> nat option" where
  "newest_index P start messages = find (\<lambda>i. P (messages ! i)) (rev [start ..< length messages])"

definition find_meshtastic_cross_transport_duplicate :: "mesh_message list \<Rightarrow> mesh_message \<Rightarrow> int \<Rightarrow> nat option" where
  "find_meshtastic_cross_transport_duplicate messages incoming window_ms =
     newest_index (\<lambda>existing. meshtastic_cross_transport_match existing incoming window_ms)
       (length messages - CROSS_TRANSPORT_SCAN_LIMIT) messages"

definition meshtastic_packet_ids_equal :: "int option \<Rightarrow> int option \<Rightarrow> bool" where
  "meshtastic_packet_ids_equal a b =
     (case (normalize_meshtastic_packet_id a, normalize_meshtastic_packet_id b) of
        (Some x, Some y) \<Rightarrow> x = y
      | _ \<Rightarrow> False)"

text \<open>A packet id of 0 counts as none in the choices.\<close>

definition truthy_id :: "int option \<Rightarrow> bool" where
  "truthy_id v \<longleftrightarrow> v \<noteq> None \<and> v \<noteq> Some 0"

definition resolve_meshtastic_cross_transport_packet_id :: "mesh_message \<Rightarrow> mesh_message \<Rightarrow> int option" where
  "resolve_meshtastic_cross_transport_packet_id existing incoming =
     (let existing_pid = normalize_meshtastic_packet_id (mm_packet_id existing);
          incoming_pid = normalize_meshtastic_packet_id (mm_packet_id incoming);
          existing_from_rf = (mm_received_via existing = Some ViaRadio \<or> mm_received_via existing = Some ViaBoth);
          incoming_from_rf = (mm_received_via incoming = Some ViaRadio)
      in if incoming_from_rf \<and> truthy_id incoming_pid then incoming_pid
         else if existing_from_rf \<and> truthy_id existing_pid then existing_pid
         else if truthy_id existing_pid \<and> mm_received_via incoming = Some ViaMqtt \<and> \<not> incoming_from_rf then existing_pid
         else if truthy_id incoming_pid then incoming_pid
         else existing_pid)"

definition meshtastic_store_forward_content_match :: "mesh_message \<Rightarrow> mesh_message \<Rightarrow> bool" where
  "meshtastic_store_forward_content_match existing incoming =
     (if \<not> mm_via_store_forward incoming then False
      else if mm_sender_id existing \<noteq> mm_sender_id incoming then False
      else if mm_channel existing \<noteq> mm_channel incoming then False
      else if mm_to existing \<noteq> mm_to incoming then False
      else normalize_meshtastic_dedup_payload (mm_payload existing)
        = normalize_meshtastic_dedup_payload (mm_payload incoming))"

definition find_meshtastic_store_forward_duplicate :: "mesh_message list \<Rightarrow> mesh_message \<Rightarrow> nat option" where
  "find_meshtastic_store_forward_duplicate messages incoming =
     (if \<not> mm_via_store_forward incoming then None
      else newest_index (\<lambda>existing. meshtastic_store_forward_content_match existing incoming) 0 messages)"

record upgrade_result =
  ur_messages :: "mesh_message list"
  ur_matched :: bool
  ur_packet_id_for_db :: "int option"

definition upgraded_row :: "mesh_message \<Rightarrow> mesh_message \<Rightarrow> mesh_message" where
  "upgraded_row hit incoming =
     (let packet_id_for_db = resolve_meshtastic_cross_transport_packet_id hit incoming;
          rf_message = (if mm_received_via incoming = Some ViaRadio \<or> mm_received_via incoming = Some ViaBoth
            then incoming else hit)
      in hit\<lparr>mm_received_via := Some ViaBoth, mm_rx_hops := mm_rx_hops rf_message, mm_rx_snr := mm_rx_snr rf_message,
           mm_rx_rssi := mm_rx_rssi rf_message,
           mm_packet_id := (case packet_id_for_db of None \<Rightarrow> mm_packet_id hit | Some p \<Rightarrow> Some p)\<rparr>)"

definition map_meshtastic_cross_transport_upgrade :: "mesh_message list \<Rightarrow> mesh_message \<Rightarrow> int \<Rightarrow> upgrade_result" where
  "map_meshtastic_cross_transport_upgrade messages incoming window_ms =
     (case find_meshtastic_cross_transport_duplicate messages incoming window_ms of
        None \<Rightarrow> \<lparr>ur_messages = messages, ur_matched = False, ur_packet_id_for_db = None\<rparr>
      | Some i \<Rightarrow> \<lparr>ur_messages = messages[i := upgraded_row (messages ! i) incoming], ur_matched = True,
          ur_packet_id_for_db = resolve_meshtastic_cross_transport_packet_id (messages ! i) incoming\<rparr>)"

subsection \<open>The search\<close>

lemma newest_index_Some:
  "newest_index P a ms = Some i \<longleftrightarrow> a \<le> i \<and> i < length ms \<and> P (ms ! i) \<and> (\<forall>j. i < j \<and> j < length ms \<longrightarrow> \<not> P (ms ! j))"
proof -
  have "find Q (rev [a ..< n]) = Some i \<longleftrightarrow> a \<le> i \<and> i < n \<and> Q i \<and> (\<forall>j. i < j \<and> j < n \<longrightarrow> \<not> Q j)" for Q n
    by (induction n) (auto simp: less_Suc_eq)
  then show ?thesis by (simp add: newest_index_def)
qed

lemma newest_index_None: "newest_index P a ms = None \<longleftrightarrow> (\<forall>j. a \<le> j \<and> j < length ms \<longrightarrow> \<not> P (ms ! j))"
  by (auto simp: newest_index_def find_None_iff)

lemma newest_index_last: "P m \<Longrightarrow> a \<le> length ms \<Longrightarrow> newest_index P a (ms @ [m]) = Some (length ms)"
  by (auto simp: newest_index_Some)

text \<open>One row at most is changed: the newest match among the last 200, and it keeps what identifies it.\<close>

lemma upgrade_changes_one_row:
  fixes messages :: "mesh_message list" and incoming :: mesh_message and w :: int
  defines "r \<equiv> map_meshtastic_cross_transport_upgrade messages incoming w"
  shows "length (ur_messages r) = length messages
    \<and> (\<forall>i < length messages. ur_messages r ! i \<noteq> messages ! i \<longrightarrow>
         length messages - 200 \<le> i \<and> meshtastic_cross_transport_match (messages ! i) incoming w
         \<and> (\<forall>j. i < j \<and> j < length messages \<longrightarrow> \<not> meshtastic_cross_transport_match (messages ! j) incoming w))"
  by (auto simp: r_def map_meshtastic_cross_transport_upgrade_def find_meshtastic_cross_transport_duplicate_def
      newest_index_Some CROSS_TRANSPORT_SCAN_LIMIT_def nth_list_update split: option.split if_splits)

subsection \<open>Two copies of one message\<close>

text \<open>The radio copy and the MQTT copy of the same message: same content, each on its own transport.\<close>

definition copies_of_one :: "mesh_message \<Rightarrow> mesh_message \<Rightarrow> int \<Rightarrow> bool" where
  "copies_of_one rf mq w \<longleftrightarrow> mm_received_via rf = Some ViaRadio \<and> mm_received_via mq = Some ViaMqtt
     \<and> mm_sender_id rf = mm_sender_id mq \<and> mm_channel rf = mm_channel mq \<and> mm_to rf = mm_to mq
     \<and> mm_emoji rf = mm_emoji mq \<and> mm_reply_id rf = mm_reply_id mq
     \<and> normalize_meshtastic_dedup_payload (mm_payload rf) = normalize_meshtastic_dedup_payload (mm_payload mq)
     \<and> \<bar>mm_timestamp rf - mm_timestamp mq\<bar> \<le> w"

definition receive_mesh_message :: "int \<Rightarrow> mesh_message list \<Rightarrow> mesh_message \<Rightarrow> mesh_message list" where
  "receive_mesh_message w messages incoming =
     (let r = map_meshtastic_cross_transport_upgrade messages incoming w
      in if ur_matched r then ur_messages r else messages @ [incoming])"

lemma copies_match:
  assumes "copies_of_one rf mq w"
  shows "meshtastic_cross_transport_match rf mq w" "meshtastic_cross_transport_match mq rf w"
  using assms by (auto simp: copies_of_one_def meshtastic_cross_transport_match_def transports_are_cross_def
      is_mesh_reaction_def abs_minus_commute)

lemma receive_new:
  "find_meshtastic_cross_transport_duplicate ms m w = None \<Longrightarrow> receive_mesh_message w ms m = ms @ [m]"
  by (simp add: receive_mesh_message_def map_meshtastic_cross_transport_upgrade_def)

lemma receive_copy:
  "meshtastic_cross_transport_match a b w \<Longrightarrow> receive_mesh_message w (ms @ [a]) b = ms @ [upgraded_row a b]"
  by (simp add: receive_mesh_message_def map_meshtastic_cross_transport_upgrade_def
      find_meshtastic_cross_transport_duplicate_def newest_index_last CROSS_TRANSPORT_SCAN_LIMIT_def)

text \<open>
  The copies of a message that arrive by radio and by MQTT, within the window and in either
  order, end as one row. When no recent row matches either copy, receiving one and then the other
  appends exactly one row: it has the transport \<open>both\<close>, the packet id of the radio, the hop count and
  signal values of the radio copy, and the sender, channel, recipient, text and time of the copy that came first.
\<close>

theorem copies_become_one_row:
  fixes ms :: "mesh_message list" and rf mq :: mesh_message and w pid :: int
  assumes "copies_of_one rf mq w"
    and "find_meshtastic_cross_transport_duplicate ms rf w = None"
    and "find_meshtastic_cross_transport_duplicate ms mq w = None"
    and "normalize_meshtastic_packet_id (mm_packet_id rf) = Some pid" and "pid \<noteq> 0"
  defines "as_both \<equiv> \<lambda>m. m\<lparr>mm_received_via := Some ViaBoth, mm_packet_id := Some pid,
     mm_rx_hops := mm_rx_hops rf, mm_rx_snr := mm_rx_snr rf, mm_rx_rssi := mm_rx_rssi rf\<rparr>"
  shows "fold (\<lambda>m rows. receive_mesh_message w rows m) [rf, mq] ms = ms @ [as_both rf]
    \<and> fold (\<lambda>m rows. receive_mesh_message w rows m) [mq, rf] ms = ms @ [as_both mq]"
proof -
  have via: "mm_received_via rf = Some ViaRadio" "mm_received_via mq = Some ViaMqtt"
    using assms(1) by (simp_all add: copies_of_one_def)
  have "upgraded_row rf mq = as_both rf" "upgraded_row mq rf = as_both mq"
    using assms(4,5) via by (simp_all add: as_both_def upgraded_row_def Let_def truthy_id_def
        resolve_meshtastic_cross_transport_packet_id_def)
  then show ?thesis using copies_match [OF assms(1)] assms(2,3) by (simp add: receive_new receive_copy)
qed

definition demo_mesh_message :: mesh_message where
  "demo_mesh_message = \<lparr>mm_sender_id = 7, mm_channel = 0, mm_to = None, mm_payload = ''ok'', mm_emoji = None,
     mm_reply_id = None, mm_timestamp = 1000, mm_received_via = Some ViaRadio, mm_packet_id = Some 41, mm_rx_hops = Some 2,
     mm_rx_snr = Some 5, mm_rx_rssi = None, mm_via_store_forward = False\<rparr>"

theorem copies_become_one_row_witness:
  "length (fold (\<lambda>m rows. receive_mesh_message 600000 rows m)
     [demo_mesh_message, demo_mesh_message\<lparr>mm_received_via := Some ViaMqtt, mm_packet_id := Some 99, mm_timestamp := 31000\<rparr>] []) = 1"
proof -
  let ?mq = "demo_mesh_message\<lparr>mm_received_via := Some ViaMqtt, mm_packet_id := Some 99, mm_timestamp := 31000\<rparr>"
  have "copies_of_one demo_mesh_message ?mq 600000" by (simp add: copies_of_one_def demo_mesh_message_def)
  moreover have "find_meshtastic_cross_transport_duplicate [] m 600000 = None" for m
    by (simp add: find_meshtastic_cross_transport_duplicate_def newest_index_def)
  moreover have "normalize_meshtastic_packet_id (mm_packet_id demo_mesh_message) = Some 41"
    by (simp add: normalize_meshtastic_packet_id_def demo_mesh_message_def)
  ultimately show ?thesis using copies_become_one_row [of demo_mesh_message ?mq 600000 "[]" 41] by simp
qed

subsection \<open>Radio ids are kept, and what the rules do not tell apart\<close>

text \<open>An MQTT copy never changes a packet id other than 0.\<close>

lemma mqtt_keeps_packet_id:
  assumes "mm_received_via incoming = Some ViaMqtt" "truthy_id (normalize_meshtastic_packet_id (mm_packet_id hit))"
  shows "mm_packet_id (upgraded_row hit incoming) = normalize_meshtastic_packet_id (mm_packet_id hit)"
  using assms by (auto simp: upgraded_row_def resolve_meshtastic_cross_transport_packet_id_def Let_def truthy_id_def
      split: option.split)

text \<open>
  A row that was heard on both transports still matches a later message with the same text from one
  of them: the second message is merged into the first row, and its packet id replaces the first one.
\<close>

lemma repeated_text_swallowed:
  assumes "mm_received_via row = Some ViaBoth"
    and "again = row\<lparr>mm_received_via := Some ViaRadio, mm_packet_id := Some pid, mm_timestamp := mm_timestamp row + d\<rparr>"
    and "\<bar>d\<bar> \<le> w" "0 < pid" "pid < 2 ^ 32"
  shows "\<exists>r. receive_mesh_message w (ms @ [row]) again = ms @ [r] \<and> mm_packet_id r = Some pid \<and> mm_timestamp r = mm_timestamp row"
proof -
  have "meshtastic_cross_transport_match row again w"
    using assms by (auto simp: meshtastic_cross_transport_match_def transports_are_cross_def is_mesh_reaction_def)
  moreover have "mm_packet_id (upgraded_row row again) = Some pid" "mm_timestamp (upgraded_row row again) = mm_timestamp row"
    using assms by (simp_all add: upgraded_row_def resolve_meshtastic_cross_transport_packet_id_def Let_def truthy_id_def
        normalize_meshtastic_packet_id_def)
  ultimately show ?thesis using receive_copy by blast
qed

text \<open>The dedupe keys of packets are equal exactly when sender and packet id are, as 32-bit numbers.\<close>

lemma dec_string_no_colon: "CHR '':'' \<notin> set (dec_string n)"
  using dec_string_digits [of n] by (auto simp: is_digit_def code_def)

lemma meshtastic_packet_dedup_key_eq:
  "meshtastic_packet_dedup_key a p = meshtastic_packet_dedup_key b q \<longleftrightarrow> a mod 2 ^ 32 = b mod 2 ^ 32 \<and> p mod 2 ^ 32 = q mod 2 ^ 32"
proof
  assume "meshtastic_packet_dedup_key a p = meshtastic_packet_dedup_key b q"
  then have "js_split (CHR '':'') (meshtastic_packet_dedup_key a p) = js_split (CHR '':'') (meshtastic_packet_dedup_key b q)" by simp
  then have "dec_string (nat (a mod 2 ^ 32)) = dec_string (nat (b mod 2 ^ 32)) \<and> dec_string (nat (p mod 2 ^ 32)) = dec_string (nat (q mod 2 ^ 32))"
    by (simp add: meshtastic_packet_dedup_key_def js_split_append js_split_no_sep dec_string_no_colon)
  then show "a mod 2 ^ 32 = b mod 2 ^ 32 \<and> p mod 2 ^ 32 = q mod 2 ^ 32" by (simp add: eq_nat_nat_iff)
qed (simp add: meshtastic_packet_dedup_key_def)

end
