(* ===== verification/Raw_Correlate.thy ===== *)
theory Raw_Correlate
  imports Js_String
begin

text \<open>
  Matching received MeshCore messages with the rows of the raw packet log
  (\<^verbatim>\<open>src/renderer/lib/meshcoreRawPacketCorrelate.ts\<close>): the sender of a logged packet is filled in from the
  message, and the hop count of a message is read from the log. A log row is consumed by the direct
  message that used it; the last 256 consumed rows are remembered in a list and a set. Time stamps, node
  ids and hop counts are integers.
\<close>

definition MESHCORE_CHAT_CORRELATE_WINDOW_MS :: int where "MESHCORE_CHAT_CORRELATE_WINDOW_MS = 3000"
definition MAX_CONSUMED_TXT_MSG_HOP_KEYS :: nat where "MAX_CONSUMED_TXT_MSG_HOP_KEYS = 256"
definition MAX_RAW_PACKET_LOG_ENTRIES :: nat where "MAX_RAW_PACKET_LOG_ENTRIES = 2500"

record raw_row =
  rw_ts :: int
  rw_payload_type :: "string option"
  rw_from_node_id :: "int option"
  rw_hop_count :: "int option"
  rw_parse_ok :: "bool option"
  rw_fingerprint :: "string option"

record hop_match =
  hm_from_node_id :: "int option"
  hm_fingerprint :: "string option"

record consumed_rows =
  cs_keys :: "string list"
  cs_set :: "string set"

definition upper_hex_char :: "char \<Rightarrow> char" where
  "upper_hex_char c = (if 97 \<le> code c \<and> code c \<le> 122 then chr (code c - 32) else c)"

definition normalize_correlate_fingerprint :: "string option \<Rightarrow> string option" where
  "normalize_correlate_fingerprint hex = (case hex of
       None \<Rightarrow> None
     | Some h \<Rightarrow>
         let t = js_trim h
         in if length t = 8 \<and> list_all is_hex_digit t then Some (map upper_hex_char t) else None)"

definition meshcore_txt_msg_hop_correlate_key :: "raw_row \<Rightarrow> string" where
  "meshcore_txt_msg_hop_correlate_key e =
     (let fp = (case normalize_correlate_fingerprint (rw_fingerprint e) of None \<Rightarrow> [] | Some f \<Rightarrow> f)
      in int_string (rw_ts e) @ ''|'' @ (case rw_from_node_id e of None \<Rightarrow> ''n'' | Some n \<Rightarrow> int_string n)
         @ ''|'' @ fp @ ''|'' @ (case rw_hop_count e of None \<Rightarrow> [] | Some h \<Rightarrow> int_string h))"

definition is_consumed :: "consumed_rows \<Rightarrow> raw_row \<Rightarrow> bool" where
  "is_consumed c e \<longleftrightarrow> meshcore_txt_msg_hop_correlate_key e \<in> cs_set c"

text \<open>The loop that forgets the oldest keys.\<close>

fun forget_oldest :: "string list \<Rightarrow> string set \<Rightarrow> consumed_rows" where
  "forget_oldest [] S = \<lparr>cs_keys = [], cs_set = S\<rparr>"
| "forget_oldest (k # ks) S =
     (if length (k # ks) > MAX_CONSUMED_TXT_MSG_HOP_KEYS then forget_oldest ks (S - {k})
      else \<lparr>cs_keys = k # ks, cs_set = S\<rparr>)"

definition mark_consumed :: "raw_row \<Rightarrow> consumed_rows \<Rightarrow> consumed_rows" where
  "mark_consumed e c =
     (let key = meshcore_txt_msg_hop_correlate_key e
      in if key \<in> cs_set c then c else forget_oldest (cs_keys c @ [key]) (insert key (cs_set c)))"

definition raw_packet_matches_sender :: "raw_row \<Rightarrow> hop_match option \<Rightarrow> bool" where
  "raw_packet_matches_sender e m = (case m of
       None \<Rightarrow> True
     | Some hm \<Rightarrow>
         let want_fp = normalize_correlate_fingerprint (hm_fingerprint hm)
         in if want_fp \<noteq> None \<and> normalize_correlate_fingerprint (rw_fingerprint e) = want_fp then True
            else hm_from_node_id hm \<noteq> None \<and> hm_from_node_id hm \<noteq> Some 0 \<and> rw_from_node_id e = hm_from_node_id hm)"

text \<open>The loops over the log start at the newest row and stop at the first one outside the window.\<close>

fun newest_within :: "(raw_row \<Rightarrow> bool) \<Rightarrow> int \<Rightarrow> int \<Rightarrow> raw_row list \<Rightarrow> nat \<Rightarrow> nat option" where
  "newest_within P now window_ms prev 0 = None"
| "newest_within P now window_ms prev (Suc i) =
     (if now - rw_ts (prev ! i) > window_ms then None
      else if P (prev ! i) then Some i
      else newest_within P now window_ms prev i)"

definition meshcore_correlate_or_synthesize ::
    "raw_row list \<Rightarrow> string \<Rightarrow> int option \<Rightarrow> raw_row \<Rightarrow> int \<Rightarrow> raw_row list" where
  "meshcore_correlate_or_synthesize prev payload_type from_node_id synthetic window_ms =
     (case newest_within (\<lambda>e. rw_payload_type e = Some payload_type \<and> rw_from_node_id e = None)
             (rw_ts synthetic) window_ms prev (length prev) of
        Some i \<Rightarrow> prev[i := (prev ! i)\<lparr>rw_from_node_id := from_node_id\<rparr>]
      | None \<Rightarrow>
          let grown = prev @ [synthetic]
          in if length grown > MAX_RAW_PACKET_LOG_ENTRIES
             then drop (length grown - MAX_RAW_PACKET_LOG_ENTRIES) grown else grown)"

definition meshcore_find_recent_grp_txt :: "raw_row list \<Rightarrow> int \<Rightarrow> int \<Rightarrow> raw_row option" where
  "meshcore_find_recent_grp_txt prev now window_ms =
     map_option (\<lambda>i. prev ! i) (newest_within (\<lambda>e. rw_payload_type e = Some ''GRP_TXT'') now window_ms prev (length prev))"

definition meshcore_find_recent_txt_msg ::
    "consumed_rows \<Rightarrow> raw_row list \<Rightarrow> int \<Rightarrow> int \<Rightarrow> hop_match option \<Rightarrow> raw_row option" where
  "meshcore_find_recent_txt_msg c prev now window_ms m =
     map_option (\<lambda>i. prev ! i) (newest_within (\<lambda>e. rw_payload_type e = Some ''TXT_MSG'' \<and> \<not> is_consumed c e
        \<and> raw_packet_matches_sender e m) now window_ms prev (length prev))"

definition resolve_meshcore_ingest_rx_hops ::
    "raw_row list \<Rightarrow> bool \<Rightarrow> int \<Rightarrow> hop_match option \<Rightarrow> consumed_rows \<Rightarrow> int option \<times> consumed_rows" where
  "resolve_meshcore_ingest_rx_hops raw_packets is_channel now txt_msg_match c =
     (case (if is_channel then meshcore_find_recent_grp_txt raw_packets now MESHCORE_CHAT_CORRELATE_WINDOW_MS
            else meshcore_find_recent_txt_msg c raw_packets now MESHCORE_CHAT_CORRELATE_WINDOW_MS txt_msg_match) of
        None \<Rightarrow> (None, c)
      | Some e \<Rightarrow>
          if rw_parse_ok e = Some False then (None, c)
          else case rw_hop_count e of
            None \<Rightarrow> (None, c)
          | Some h \<Rightarrow>
              (Some h, if \<not> is_channel \<and> rw_payload_type e = Some ''TXT_MSG'' then mark_consumed e c else c))"

subsection \<open>The searches\<close>

lemma newest_within_Some:
  "newest_within P now w prev n = Some i \<Longrightarrow> i < n \<and> P (prev ! i) \<and> now - rw_ts (prev ! i) \<le> w
     \<and> (\<forall>j. i < j \<and> j < n \<longrightarrow> \<not> P (prev ! j))"
  by (induction n) (auto split: if_splits simp: less_Suc_eq)

text \<open>Correlating changes the log by the sender of one row without one, or appends the synthetic row and drops the oldest.\<close>

lemma correlate_result:
  defines "r \<equiv> \<lambda>prev pt from syn w. meshcore_correlate_or_synthesize prev pt from syn w"
  shows "(\<exists>i < length prev. rw_from_node_id (prev ! i) = None \<and> rw_payload_type (prev ! i) = Some pt
            \<and> rw_ts syn - rw_ts (prev ! i) \<le> w \<and> r prev pt from syn w = prev[i := (prev ! i)\<lparr>rw_from_node_id := from\<rparr>])
       \<or> (\<exists>n. r prev pt from syn w = drop n (prev @ [syn]) \<and> n = length prev + 1 - MAX_RAW_PACKET_LOG_ENTRIES)"
proof (cases "newest_within (\<lambda>e. rw_payload_type e = Some pt \<and> rw_from_node_id e = None) (rw_ts syn) w prev (length prev)")
  case None
  then show ?thesis by (auto simp: r_def meshcore_correlate_or_synthesize_def Let_def)
next
  case (Some i)
  from newest_within_Some [OF this] Some show ?thesis
    by (intro disjI1 exI [of _ i]) (simp add: r_def meshcore_correlate_or_synthesize_def)
qed

subsection \<open>Consumed rows\<close>

text \<open>The set has the keys of the list, which are different and at most 256.\<close>

definition consumed_ok :: "consumed_rows \<Rightarrow> bool" where
  "consumed_ok c \<longleftrightarrow> distinct (cs_keys c) \<and> cs_set c = set (cs_keys c) \<and> length (cs_keys c) \<le> 256"

lemma forget_oldest_result:
  "distinct ks \<Longrightarrow> forget_oldest ks (set ks) = \<lparr>cs_keys = drop (length ks - 256) ks, cs_set = set (drop (length ks - 256) ks)\<rparr>"
proof (induction ks)
  case (Cons k ks)
  have "insert k (set ks) - {k} = set ks" using Cons.prems by simp
  with Cons show ?case by (simp add: MAX_CONSUMED_TXT_MSG_HOP_KEYS_def drop_Cons')
qed simp

lemma mark_consumed_new:
  assumes "consumed_ok c" "\<not> is_consumed c e"
  defines "ks \<equiv> cs_keys c @ [meshcore_txt_msg_hop_correlate_key e]"
  shows "mark_consumed e c = \<lparr>cs_keys = drop (length ks - 256) ks, cs_set = set (drop (length ks - 256) ks)\<rparr>"
proof -
  have "distinct ks" "set ks = insert (meshcore_txt_msg_hop_correlate_key e) (cs_set c)"
    using assms by (auto simp: ks_def consumed_ok_def is_consumed_def)
  with forget_oldest_result [of ks] assms(2) show ?thesis
    by (simp add: mark_consumed_def Let_def is_consumed_def flip: ks_def)
qed

text \<open>A direct message gets a hop count only from a row that fits it; that row is then consumed.\<close>

definition fits_message :: "raw_row \<Rightarrow> int \<Rightarrow> hop_match option \<Rightarrow> int \<Rightarrow> bool" where
  "fits_message e now m h \<longleftrightarrow> rw_payload_type e = Some ''TXT_MSG'' \<and> rw_hop_count e = Some h \<and> rw_parse_ok e \<noteq> Some False
     \<and> now - rw_ts e \<le> 3000
     \<and> (\<forall>hm. m = Some hm \<longrightarrow>
          normalize_correlate_fingerprint (hm_fingerprint hm) \<noteq> None
            \<and> normalize_correlate_fingerprint (rw_fingerprint e) = normalize_correlate_fingerprint (hm_fingerprint hm)
        \<or> (\<exists>n. n \<noteq> 0 \<and> hm_from_node_id hm = Some n \<and> rw_from_node_id e = Some n))"

lemma matches_sender_fits:
  "raw_packet_matches_sender e (Some hm) \<Longrightarrow>
     normalize_correlate_fingerprint (hm_fingerprint hm) \<noteq> None
       \<and> normalize_correlate_fingerprint (rw_fingerprint e) = normalize_correlate_fingerprint (hm_fingerprint hm)
     \<or> (\<exists>n. n \<noteq> 0 \<and> hm_from_node_id hm = Some n \<and> rw_from_node_id e = Some n)"
  by (auto simp: raw_packet_matches_sender_def Let_def split: if_splits)

lemma dm_hops_row:
  assumes "resolve_meshcore_ingest_rx_hops rows False now m c = (Some h, c')"
  shows "\<exists>e \<in> set rows. fits_message e now m h \<and> \<not> is_consumed c e \<and> c' = mark_consumed e c"
proof -
  let ?P = "\<lambda>e. rw_payload_type e = Some ''TXT_MSG'' \<and> \<not> is_consumed c e \<and> raw_packet_matches_sender e m"
  obtain i where i: "newest_within ?P now 3000 rows (length rows) = Some i"
    using assms by (auto simp: resolve_meshcore_ingest_rx_hops_def meshcore_find_recent_txt_msg_def
        MESHCORE_CHAT_CORRELATE_WINDOW_MS_def split: option.splits)
  note P = newest_within_Some [OF i]
  have "rw_parse_ok (rows ! i) \<noteq> Some False \<and> rw_hop_count (rows ! i) = Some h \<and> c' = mark_consumed (rows ! i) c"
    using assms P i by (auto simp: resolve_meshcore_ingest_rx_hops_def meshcore_find_recent_txt_msg_def
        MESHCORE_CHAT_CORRELATE_WINDOW_MS_def split: option.splits if_splits)
  moreover have "\<forall>hm. m = Some hm \<longrightarrow> raw_packet_matches_sender (rows ! i) (Some hm)" using P by auto
  ultimately show ?thesis
    using P matches_sender_fits by (intro bexI [of _ "rows ! i"]) (auto simp: fits_message_def)
qed

lemma no_hops_no_change:
  "resolve_meshcore_ingest_rx_hops rows is_channel now m c = (None, c') \<Longrightarrow> c' = c"
  "resolve_meshcore_ingest_rx_hops rows True now m c = (h, c') \<Longrightarrow> c' = c"
  by (auto simp: resolve_meshcore_ingest_rx_hops_def split: option.splits if_splits)

subsection \<open>A row serves one message\<close>

type_synonym hop_request = "raw_row list \<times> bool \<times> int \<times> hop_match option"

fun resolve_step :: "hop_request \<Rightarrow> consumed_rows \<Rightarrow> consumed_rows" where
  "resolve_step (rows, is_channel, now, m) c = snd (resolve_meshcore_ingest_rx_hops rows is_channel now m c)"

text \<open>The keys of the rows whose hop counts direct messages took, in order.\<close>

fun taken_keys :: "hop_request list \<Rightarrow> consumed_rows \<Rightarrow> string list" where
  "taken_keys [] c = []"
| "taken_keys ((rows, is_channel, now, m) # requests) c =
     (if is_channel \<or> fst (resolve_meshcore_ingest_rx_hops rows is_channel now m c) = None then []
      else map meshcore_txt_msg_hop_correlate_key
        (case meshcore_find_recent_txt_msg c rows now MESHCORE_CHAT_CORRELATE_WINDOW_MS m of None \<Rightarrow> [] | Some e \<Rightarrow> [e]))
     @ taken_keys requests (resolve_step (rows, is_channel, now, m) c)"

definition none_consumed :: consumed_rows where
  "none_consumed = \<lparr>cs_keys = [], cs_set = {}\<rparr>"

text \<open>Any 257 keys in a row are different.\<close>

definition windows_distinct :: "'a list \<Rightarrow> bool" where
  "windows_distinct xs \<longleftrightarrow> (\<forall>n. distinct (take 257 (drop n xs)))"

lemma windows_distinct_snoc:
  assumes "windows_distinct xs" "k \<notin> set (drop (length xs - 256) xs)"
  shows "windows_distinct (xs @ [k])"
  unfolding windows_distinct_def
proof
  fix n
  show "distinct (take 257 (drop n (xs @ [k])))"
  proof (cases "length xs - n \<le> 256")
    case True
    have "set (drop n xs) \<subseteq> set (drop (length xs - 256) xs)" by (rule set_drop_subset_set_drop) (use True in simp)
    moreover have "take 257 (drop n xs) = drop n xs" using True by simp
    then have "distinct (drop n xs)" using assms(1) unfolding windows_distinct_def by metis
    ultimately show ?thesis using assms(2) by (cases "n \<le> length xs") (auto dest!: in_set_takeD)
  next
    case False
    then show ?thesis using assms(1) by (simp add: windows_distinct_def)
  qed
qed

text \<open>What is remembered is the end of what was taken.\<close>

definition recalls :: "consumed_rows \<Rightarrow> string list \<Rightarrow> bool" where
  "recalls c ks \<longleftrightarrow> consumed_ok c \<and> cs_keys c = drop (length ks - 256) ks \<and> windows_distinct ks"

lemma recalls_taken:
  assumes "recalls c ks" "\<not> is_consumed c e"
  shows "recalls (mark_consumed e c) (ks @ [meshcore_txt_msg_hop_correlate_key e])"
proof -
  let ?k = "meshcore_txt_msg_hop_correlate_key e"
  have ok: "consumed_ok c" and keys: "cs_keys c = drop (length ks - 256) ks" and win: "windows_distinct ks"
    using assms(1) by (auto simp: recalls_def)
  have new: "?k \<notin> set (cs_keys c)" using ok assms(2) by (simp add: consumed_ok_def is_consumed_def)
  have cut: "drop (length (cs_keys c @ [?k]) - 256) (cs_keys c @ [?k]) = drop (length (ks @ [?k]) - 256) (ks @ [?k])"
  proof (cases "length ks \<le> 255")
    case False
    then have "Suc (length ks - 256) = length ks - 255" by arith
    with False show ?thesis by (simp add: keys)
  qed (simp add: keys)
  have "distinct (cs_keys c @ [?k])" using ok new by (simp add: consumed_ok_def)
  then have dist: "distinct (drop (length (ks @ [?k]) - 256) (ks @ [?k]))" unfolding cut [symmetric] by (rule distinct_drop)
  have "mark_consumed e c = \<lparr>cs_keys = drop (length (ks @ [?k]) - 256) (ks @ [?k]),
      cs_set = set (drop (length (ks @ [?k]) - 256) (ks @ [?k]))\<rparr>"
    using mark_consumed_new [OF ok assms(2)] unfolding cut .
  moreover have "windows_distinct (ks @ [?k])" using windows_distinct_snoc [OF win] new by (simp add: keys)
  ultimately show ?thesis using dist by (simp add: recalls_def consumed_ok_def)
qed

lemma recalls_step:
  assumes "recalls c ks"
  shows "recalls (resolve_step (rows, ch, now, m) c) (ks @ taken_keys [(rows, ch, now, m)] c)"
proof (cases "ch \<or> fst (resolve_meshcore_ingest_rx_hops rows ch now m c) = None")
  case True
  then have "resolve_step (rows, ch, now, m) c = c"
    using no_hops_no_change by (cases "resolve_meshcore_ingest_rx_hops rows ch now m c") (auto simp: prod_eq_iff)
  with True assms show ?thesis by simp
next
  case False
  then obtain h c' where r: "resolve_meshcore_ingest_rx_hops rows False now m c = (Some h, c')" and ch: "\<not> ch"
    by (cases "resolve_meshcore_ingest_rx_hops rows ch now m c") auto
  then obtain e where e: "meshcore_find_recent_txt_msg c rows now MESHCORE_CHAT_CORRELATE_WINDOW_MS m = Some e"
    by (auto simp: resolve_meshcore_ingest_rx_hops_def split: option.splits)
  then have "rw_payload_type e = Some ''TXT_MSG'' \<and> \<not> is_consumed c e"
    by (auto simp: meshcore_find_recent_txt_msg_def dest!: newest_within_Some)
  moreover from this e r have "c' = mark_consumed e c"
    by (auto simp: resolve_meshcore_ingest_rx_hops_def split: option.splits if_splits)
  ultimately show ?thesis using recalls_taken [OF assms, of e] r ch e by simp
qed

lemma recalls_run: "recalls c ks \<Longrightarrow> recalls (fold resolve_step reqs c) (ks @ taken_keys reqs c)"
proof (induction reqs arbitrary: c ks)
  case (Cons r reqs)
  obtain rows ch now m where r: "r = (rows, ch, now, m)" by (cases r)
  from Cons.IH [OF recalls_step [OF Cons.prems]] show ?case unfolding r by simp
qed simp

lemma recalls_nothing: "recalls none_consumed []"
  by (simp add: recalls_def consumed_ok_def none_consumed_def windows_distinct_def)

text \<open>
  A direct message takes its hop count from a row of the raw packet log that is its own. After any
  requests, the hop count a direct message gets is that of a text row of the log, parsed, logged at most
  three seconds before, and with the message's fingerprint or its sender, if it names one; and a row
  serves one message: of any 257 hop counts taken in a row, all come from rows with different keys.
\<close>

theorem dm_hops_from_own_row:
  fixes requests :: "hop_request list" and rows :: "raw_row list" and now :: int and m :: "hop_match option"
  defines "c \<equiv> fold resolve_step requests none_consumed"
  shows "(case fst (resolve_meshcore_ingest_rx_hops rows False now m c) of
       None \<Rightarrow> True | Some h \<Rightarrow> \<exists>e \<in> set rows. fits_message e now m h \<and> \<not> is_consumed c e)
    \<and> (\<forall>n. distinct (take 257 (drop n (taken_keys requests none_consumed))))"
proof -
  have "recalls c (taken_keys requests none_consumed)"
    unfolding c_def using recalls_run [OF recalls_nothing] by simp
  then have "windows_distinct (taken_keys requests none_consumed)" by (simp add: recalls_def)
  moreover have "\<exists>e \<in> set rows. fits_message e now m h \<and> \<not> is_consumed c e"
    if "fst (resolve_meshcore_ingest_rx_hops rows False now m c) = Some h" for h
    using that dm_hops_row by (metis prod.collapse)
  ultimately show ?thesis by (simp add: windows_distinct_def split: option.split)
qed

end
