(* ===== verification/Spec2Isabelle.thy ===== *)
theory Spec2Isabelle
  imports Path_Hash Js_Map Meshcore_Packet Group_Text Ip_Guard Heard_Repeat Ble_Mac Ble_Coexistence
    Rf_Reconnect Path_History Throttles Backoff Cayenne_Lpp Release_Version Tx_Echo_Filter
    Ai_Chunks Rncp_Dedup Proxy_Path Auto_Resend Broadcast_Delivery Room_Login_Queue Repeater_Rpc Rnode_Link Rnode_Rom
    Nrf52_Dfu Room_Chunks Outbox_Safety Send_Queues Chat_Settlement Meshtastic_Dedup Raw_Correlate
begin

text \<open>
  A verification development for the protocol and scheduling core of mesh-client, a desktop client
  for MeshCore, Meshtastic and Reticulum radios. The program is an Electron application: the main
  process (\<^verbatim>\<open>src/main\<close>) owns sockets, files and the database and answers requests of the user
  interface (\<^verbatim>\<open>src/renderer\<close>), which keeps its state in stores and module variables; both use the
  pure rules of \<^verbatim>\<open>src/shared\<close>. The theories model those rules and the state machines around them,
  function by function; a definition carries the name of its function in lower case with underscores.

  \<^bold>\<open>How the code is read.\<close> Bytes are \<open>8 word\<close>; results of 32-bit operators are words or natural
  numbers with the reduction written out. Times are integers in milliseconds, and the clock is an
  argument. Strings are lists of characters where the code only handles ASCII or opaque ids, lists
  of code points where it encodes UTF-8 (\<open>Utf8\<close>), and lists of UTF-16 code units where it counts them
  (\<open>Ai_Prompt\<close>). Floating-point values are exact rationals. A \<^verbatim>\<open>Map\<close> is an association list in
  insertion order (\<open>Js_Map\<close>, with the interface \<open>insertion_map\<close>). Exceptions are values of a sum type.
  Module state is a record that every operation takes and returns; timers, microtasks, store
  notifications and the random generator are events or arguments. Libraries (hash, MAC and cipher
  functions, URL parsing, time zone formatting) are records of functions; the laws a theorem needs of
  them are its hypotheses, and its witness instantiates them.

  \<^bold>\<open>Shared theories.\<close> \<open>Mesh_Prelude\<close> has the types, list and word lemmas and the locale
  \<open>invariant_steps\<close>: an invariant of the initial state kept by every step holds after every run; the
  Bluetooth, reconnect, path and coverage theories interpret it. \<open>Js_String\<close>, \<open>Js_Map\<close> and \<open>Utf8\<close> model
  the standard library. \<open>Rate_Window\<close> has the locale \<open>windowed_limiter\<close>, interpreted by the call limiter
  and the alert throttle.

  \<^bold>\<open>Packets.\<close>
  \<^item> \<open>Meshcore_Path\<close> (\<^verbatim>\<open>meshcoreRfPath.ts\<close>, \<^verbatim>\<open>meshcore-path-decoder.ts\<close>): the path prefix of a radio packet.
    The decoder accepts exactly the documented layout (C1).
  \<^item> \<open>Path_Hash\<close> (\<^verbatim>\<open>meshcorePathHash.ts\<close>, \<^verbatim>\<open>meshcoreNodeHash.ts\<close>): packed lengths and hop hashes; packing round
    trips, a decoded path splits into its hops.
  \<^item> \<open>Meshcore_Packet\<close> (\<^verbatim>\<open>meshcoreRfPacketParse.ts\<close>): the parser is total and exact (C4), its inspector segments
    tile the packet (C5; of an empty payload the last one ends a byte past it), the fingerprint sees every
    single-byte change (C6), and the identity used to
    match echoes depends on type and payload only (C7).
  \<^item> \<open>Group_Text\<close> (\<^verbatim>\<open>meshcoreGroupText.ts\<close>): the encrypted channel message round trips (C8) and is
    authenticated.
  \<^item> \<open>Cayenne_Lpp\<close> (\<^verbatim>\<open>cayenneLpp.ts\<close>): sensor payloads decode exactly when every record is known and complete (C33).

  \<^bold>\<open>Hosts, addresses, paths.\<close>
  \<^item> \<open>Connect_Host\<close>, \<open>Ip_Literal\<close>, \<open>Ip_Guard\<close> (\<^verbatim>\<open>connectHost.ts\<close>, \<^verbatim>\<open>tcpPort.ts\<close>, \<^verbatim>\<open>ipLiteral.ts\<close>): formatting and parsing
    of host and port round trip (C10); the two host classifications agree where the request guard relies
    on it (C11).
  \<^item> \<open>Proxy_Path\<close> (\<^verbatim>\<open>reticulum-proxy-path.ts\<close> and the protected routes): the verdict on every path (C39).
  \<^item> \<open>Release_Version\<close> (\<^verbatim>\<open>githubReleaseVersion.ts\<close>): the newest admissible release is offered, by the numbers of its
    version.

  \<^bold>\<open>State machines of the radios.\<close>
  \<^item> \<open>Relay_Coverage\<close>, \<open>Heard_Repeat\<close>: which repeaters forwarded an own message, and the capped store of the
    result (C13), and that only packets of the own message are credited, once its payload is known (C14).
    \<open>Heard_Repeat\<close> builds on the packet and channel text theories.
  \<^item> \<open>Ble_Mac\<close>, \<open>Ble_Coexistence\<close>: identity of Bluetooth devices, scan lease (C17) and ownership.
  \<^item> \<open>Rf_Reconnect\<close>: one reconnect owner per cycle (C20); a drop during an attempt is answered by one
    follow-up, or ends with the cycle when the attempt says so (C21).
  \<^item> \<open>Path_History\<close>: scoring and bounded history of paths (C22, C23).
  \<^item> \<open>Tx_Echo_Filter\<close>: frames reflected by the device are dropped, others pass in order (C35).

  \<^bold>\<open>Limits, retries and duplicates.\<close>
  \<^item> \<open>Throttles\<close>: call limiter (C25), duplicate packets (C26), alert throttle (C27).
  \<^item> \<open>Backoff\<close>: the locale \<open>cooldown\<close> states what a failed attempt blocks; the hub, propagation and proxy policies
    interpret it. The callers that decide which failures count are hooks and not modelled; delays of reconnects.
  \<^item> \<open>Rncp_Dedup\<close>: the locale \<open>reservation_protocol\<close>, interpreted for the handled messages and for the share slots:
    one reservation of a message or a slot at a time (C38).
  \<^item> \<open>Auto_Resend\<close>: tracking and resending of failed sends; at most three resends and one outcome per regular
    message (C40), by a weight per key that pays for what the key can still cause.

  \<^bold>\<open>Scheduled broadcasts.\<close>
  \<^item> \<open>Js_Date\<close>, \<open>Recurrence\<close> (\<^verbatim>\<open>scheduledBroadcasts/recurrence.ts\<close>): the Gregorian calendar of the \<^verbatim>\<open>Date\<close>
    constructor, a time zone as two conversions, and the search for the next due time, which is the next
    wall-clock occurrence (C30), also where a daylight-saving change skips or repeats it; after a long absence the advance of an hourly rule gives up.
  \<^item> \<open>Broadcast_Store\<close> (\<^verbatim>\<open>scheduled-broadcast-handlers.ts\<close>): the handlers that keep the table of slots and validate
    what the user interface sends; the rows they store are well formed (C18).
  \<^item> \<open>Broadcast_Scheduler\<close> (\<^verbatim>\<open>scheduledBroadcasts/scheduler.ts\<close>): the scheduler over that table, as threads that wait
    for a reply of a handler or for the end of a delivery; deliveries never overlap and a due time is
    delivered once (C9). Editing a slot while it is being sent can bring an old due time back.
  \<^item> \<open>Broadcast_Delivery\<close> (\<^verbatim>\<open>scheduledBroadcasts/deliver.ts\<close>): one delivery to the targets of a slot in turn, at most one
    packet each that fits, and none after the time limit (C31); what it reports is always accepted by the table of slots (C16), which ties the three theories
    together. The check of a text before saving agrees with it except for hub rooms.

  \<^bold>\<open>Promise queues.\<close> \<open>Promise_Chain\<close> has the locales \<open>guarded_promise_queue\<close> and \<open>promise_queue\<close>: jobs attached to the promise
  of their predecessor take turns. They are interpreted by
  \<^item> \<open>Room_Login_Queue\<close> (\<^verbatim>\<open>meshcoreRoomLoginQueue.ts\<close>): logins to rooms, one at a time and spaced, cancelled by
    generation numbers (C15);
  \<^item> \<open>Repeater_Rpc\<close> (\<^verbatim>\<open>meshcoreRepeaterRpcInFlight.ts\<close>): traces and administrative requests with the maps of what is
    in flight (C24). Both lose track of what still runs when they are reset;
  \<^item> \<open>Send_Queues\<close> (\<^verbatim>\<open>meshcoreRepeaterCliQueue.ts\<close>, the lock of \<^verbatim>\<open>chatOutboxDrain.ts\<close>, \<^verbatim>\<open>meshcoreCompanionRequestQueue.ts\<close>,
    \<^verbatim>\<open>meshtasticTextSendPacing.ts\<close>): queues that drop the tail of a finished chain, so one operation of a key runs
    at a time, and the pacing of texts, which keeps its gap.

  \<^bold>\<open>RNode flasher.\<close>
  \<^item> \<open>Rnode_Link\<close> (\<^verbatim>\<open>flasher/rnode.ts\<close>): framing, read loop and pending requests; a request is answered by its
    reply (C32); a stray delimiter puts the loop out of step.
  \<^item> \<open>Rnode_Rom\<close> (\<^verbatim>\<open>flasher/rom.ts\<close>, \<^verbatim>\<open>flasher/provision.ts\<close>): the EEPROM and writing an identity to it, which
    can be broken off and repeated (C29).
  \<^item> \<open>Nrf52_Dfu\<close> (\<^verbatim>\<open>flasher/nrf52DfuFlasher.ts\<close>): the packets of a firmware image for nRF52 boards. The checksum is
    CRC-16-CCITT; a receiver written from the format takes the bytes of the port apart and gets the
    image, whole when the transfer succeeded and a beginning of it otherwise; undisturbed, it succeeds (C34).

  \<^bold>\<open>Chat messages.\<close>
  \<^item> \<open>Chat_Limits\<close> (\<^verbatim>\<open>chatComposerLimits.ts\<close>): byte limits per protocol, the overhead of replies, and the splitter of
    long texts, whose packets fit and lose no visible character, and which gives up exactly when the greedy
    lines are too many (C19).
  \<^item> \<open>Room_Chunks\<close> (\<^verbatim>\<open>meshcoreRoomChunkMerge.ts\<close>): numbered posts of a room are shown as one; a split text comes
    back with its visible characters, but the words at a break run together.
  \<^item> \<open>Chat_Outbox\<close> (\<^verbatim>\<open>useChatOutbox.ts\<close>, \<^verbatim>\<open>chatOutboxDrain.ts\<close>, \<^verbatim>\<open>scheduledSend.ts\<close>, the \<^verbatim>\<open>chat:outbox\<close> handlers): the durable
    outbox as a table, the pass that sends its rows, and what the user does in between. \<open>Outbox_Safety\<close> shows
    of every run that the sends of a row are bounded (C2) and that a delivered row is not sent again (C3);
    emergency rows come back after each failure. A row cancelled in the middle of a pass is still sent.
  \<^item> \<open>Message_Store\<close> (\<^verbatim>\<open>messageStore.ts\<close>, \<^verbatim>\<open>liveChannelKeyStore.ts\<close>, \<^verbatim>\<open>meshtasticMessageLoadLimit.ts\<close>): the rows of the chat,
    live inserts with a cap, bulk loads, re-keys and status changes, with the coverage store and the heard-repeat
    windows that an eviction cleans up. \<open>Message_Safety\<close> has its invariant; a live insert keeps the newest rows and
    those being sent (C12). An acknowledged row does not go back to being sent; an update of the dedupe key alone is lost.
  \<^item> \<open>Chat_Settlement\<close> (\<^verbatim>\<open>scheduledBroadcasts/chatSettlement.ts\<close>): the wait for the fate of a sent row, a subscriber of that
    store, ends with the first verdict on the row through all re-keys (C28).
  \<^item> \<open>Meshtastic_Dedup\<close> (\<^verbatim>\<open>meshtasticMessageDedup.ts\<close>): the copies of a message by radio and by MQTT become one row.
  \<^item> \<open>Raw_Correlate\<close> (\<^verbatim>\<open>meshcoreRawPacketCorrelate.ts\<close>): a direct message takes its hops from a row of the packet log that
    is its own, and uses the row up.

  \<^bold>\<open>Chat summaries.\<close>
  \<^item> \<open>Ai_Prompt\<close>, \<open>Ai_Chunks\<close>: message texts cannot forge lines of the prompt (C36); a transcript is packed
    completely into prompts within their budgets (C37).

  \<^bold>\<open>Loops and bounds.\<close> Loops are structural recursion or \<open>function\<close>s with a termination proof. Three carry
  fuel: the search for a due time tries 1000 candidates as the code does, and C30 shows that they are enough; trailing slashes of a path are stripped at most as often as the path has characters, and entries of a
  table are evicted at most as often as it has entries; each round removes one, so the fuel is enough.

  \<^bold>\<open>Not modelled.\<close> React components and hooks, Electron windows and handlers, the database, MQTT and TAK
  clients, the boot-loader protocol of ESP32 boards, map tiles, diagnostics in floating point, translation and language-model
  engines, the Rust sidecar, scripts and locales: they are glue, numerics or foreign code. The emergency
  message codec is a bundled engine and a parameter. Not modelled either are the node stores, the
  adapters between message rows and database rows, and the rules that match MeshCore messages with stored rows.
\<close>

end
